(* ===== verification/Co_Prelude.thy ===== *)
theory Co_Prelude
  imports Complex_Main "HOL-Library.Word" "HOL-Library.Monad_Syntax"
begin

text \<open>
  Shared vocabulary of the development: byte strings, pointers, the C conversions the
  sources use, and generic lemmas on lists and options.
\<close>

unbundle bit_operations_syntax

named_theorems c_defs "definitions of C-level helpers, unfolded when a branch is evaluated"

type_synonym bytes = string      \<comment> \<open>a C buffer or a Lua string: one \<open>char\<close> per byte\<close>
type_synonym addr = nat          \<comment> \<open>the address of a heap object\<close>
type_synonym ptr = "addr option" \<comment> \<open>a C pointer; \<open>None\<close> is \<open>NULL\<close>\<close>
type_synonym u32 = "32 word"
type_synonym u64 = "64 word"     \<comment> \<open>\<open>size_t\<close> and \<open>unsigned long\<close> on the 64-bit targets\<close>

abbreviation LF :: char where "LF \<equiv> CHR 0x0A"
abbreviation CR :: char where "CR \<equiv> CHR 0x0D"

section \<open>C conversions\<close>

text \<open>Assigning to an \<open>int\<close>: the value modulo \<open>2 ^ 32\<close>, read as two's complement.\<close>

definition c_int :: "int \<Rightarrow> int" where
  [c_defs]: "c_int i = signed_take_bit 31 i"

text \<open>
  \<open>large_malloc\<close> (\<open>coevent.h\<close>): the bytes allocated for \<open>s\<close> bytes, whole pages. The size is computed in
  \<open>int\<close>: an overflow is undefined, and a negative size is more than \<open>malloc\<close> gives.
\<close>

definition large_malloc :: "nat \<Rightarrow> nat option" where
  "large_malloc s = (let n = (c_int (int (s div 4096)) + 1) * 4096 in if 0 \<le> n \<and> n < 2 ^ 31 then Some (nat n) else None)"

text \<open>A plain \<open>char\<close> is signed on the targets.\<close>

definition schar :: "char \<Rightarrow> int" where
  "schar c = signed_take_bit 7 (of_char c)"

text \<open>A \<open>double\<close> cast to an integer type is truncated towards zero.\<close>

definition trunc_rat :: "rat \<Rightarrow> int" where
  "trunc_rat r = (if r < 0 then - \<lfloor>- r\<rfloor> else \<lfloor>r\<rfloor>)"

text \<open>
  \<open>(int) d\<close> and \<open>(size_t) d\<close> as the x86-64 targets compute them; outside the range of
  the target type C leaves the result undefined and the conversion instruction yields the
  values written here.
\<close>

definition int_of_number :: "rat \<Rightarrow> int" where
  "int_of_number r = (let t = trunc_rat r in
     if - (2 ^ 31) \<le> t \<and> t < 2 ^ 31 then t else - (2 ^ 31))"

definition size_of_number :: "rat \<Rightarrow> u64" where
  "size_of_number r = (let t = trunc_rat r in
     if t < - (2 ^ 63) then 2 ^ 63 else if t < 2 ^ 64 then word_of_int t else 0)"

lemma trunc_rat_of_int [simp]: "trunc_rat (of_int i) = i"
proof -
  have "- \<lfloor>- (of_int i :: rat)\<rfloor> = i"
    by (metis floor_of_int minus_minus of_int_minus)
  then show ?thesis by (simp add: trunc_rat_def)
qed

lemma trunc_rat_numeral [simp]:
  "trunc_rat (numeral n) = numeral n" "trunc_rat (- numeral n) = - numeral n"
  "trunc_rat 0 = 0" "trunc_rat 1 = 1" "trunc_rat (- 1) = - 1"
  using trunc_rat_of_int [of "numeral n"] trunc_rat_of_int [of "- numeral n"]
    trunc_rat_of_int [of 0] trunc_rat_of_int [of 1] trunc_rat_of_int [of "- 1"] by simp_all

lemma c_int_id [simp]: "- (2 ^ 31) \<le> i \<Longrightarrow> i < 2 ^ 31 \<Longrightarrow> c_int i = i"
  by (simp add: c_int_def signed_take_bit_int_eq_self)

lemma large_malloc_room:
  assumes "n < 2 ^ 31 - 4096"
  shows "\<exists>room. large_malloc n = Some room \<and> n \<le> room"
proof -
  have q: "n div 4096 < 2 ^ 19 - 1" using assms by (simp add: div_less_iff_less_mult)
  then have "c_int (int (n div 4096)) = int (n div 4096)" by (intro c_int_id) simp_all
  moreover have "int (n div 4096) + 1 < 2 ^ 19" using q by simp
  ultimately have "large_malloc n = Some (nat ((int (n div 4096) + 1) * 4096))"
    unfolding large_malloc_def Let_def by simp
  moreover have "n \<le> nat ((int (n div 4096) + 1) * 4096)"
  proof -
    have "(int (n div 4096) + 1) * 4096 = int ((n div 4096 + 1) * 4096)" by simp
    moreover have "n \<le> (n div 4096 + 1) * 4096" using div_mult_mod_eq [of n 4096] mod_less_divisor [of 4096 n] by simp
    ultimately show ?thesis by linarith
  qed
  ultimately show ?thesis by simp
qed

lemma int_of_number_int [simp]:
  "- (2 ^ 31) \<le> i \<Longrightarrow> i < 2 ^ 31 \<Longrightarrow> int_of_number (of_int i) = i"
  by (simp add: int_of_number_def)

section \<open>Printed numbers\<close>

text \<open>The digits of a number in base \<open>b\<close> as \<open>printf\<close> writes them; \<open>%d\<close>.\<close>

function base_string :: "nat \<Rightarrow> nat \<Rightarrow> string" where
  "base_string b n = (if n < b \<or> b < 2 then [char_of (n + 48)] else base_string b (n div b) @ [char_of (n mod b + 48)])"
  by auto
termination by (relation "measure snd") auto

declare base_string.simps [simp del]

definition d_string :: "int \<Rightarrow> string" where
  "d_string i = (if i < 0 then CHR ''-'' # base_string 10 (nat (- i)) else base_string 10 (nat i))"

section \<open>Lists\<close>

lemma length_takeWhile_less:
  "x \<in> set xs \<Longrightarrow> \<not> P x \<Longrightarrow> length (takeWhile P xs) < length xs"
  by (induction xs) auto

lemma take_Suc_length_takeWhile:
  "x \<in> set xs \<Longrightarrow> take (Suc (length (takeWhile (\<lambda>c. c \<noteq> x) xs))) xs = takeWhile (\<lambda>c. c \<noteq> x) xs @ [x]"
  by (induction xs) auto

lemma drop_Suc_length_takeWhile:
  "x \<in> set xs \<Longrightarrow> drop (Suc (length (takeWhile (\<lambda>c. c \<noteq> x) xs))) xs = tl (dropWhile (\<lambda>c. c \<noteq> x) xs)"
  by (induction xs) auto

section \<open>Words\<close>

lemma unat_u64_of_nat: "n < 2 ^ 64 \<Longrightarrow> unat (word_of_nat n :: u64) = n"
  by (simp add: unsigned_of_nat take_bit_nat_eq_self)

lemma unat_u64_sub: "n \<le> unat x \<Longrightarrow> unat (x - word_of_nat n :: u64) = unat x - n"
proof -
  assume n: "n \<le> unat x"
  with unsigned_less [where ?'a = nat and w = x] have "unat (word_of_nat n :: u64) = n"
    by (intro unat_u64_of_nat) simp
  with n show ?thesis by (simp add: unat_sub_if')
qed

lemma unat_u64_add: "unat x + n < 2 ^ 64 \<Longrightarrow> unat (x + word_of_nat n :: u64) = unat x + n"
proof -
  assume n: "unat x + n < 2 ^ 64"
  then have "unat (word_of_nat n :: u64) = n"
    by (intro unat_u64_of_nat) simp
  with n show ?thesis by (simp add: unat_word_ariths)
qed

end
