(* ===== verification/Lua_Api.thy ===== *)
theory Lua_Api
  imports Co_Prelude
begin

text \<open>
  The part of the Lua C API the sources use. A C function registered with Lua reads its
  arguments from the stack of its \<open>lua_State\<close>; the model passes that stack as a list
  (index \<open>i\<close> of the C code is position \<open>i - 1\<close>), and the values pushed last and
  counted by the C \<open>return n\<close> as a list of results. Tables are only read (or freshly
  built) by this code, so a table is its list of key/value pairs in traversal order.
  The two conversions between numbers and strings belong to the Lua library and are
  parameters.
\<close>

datatype lua_value =
    LNil
  | LBool bool
  | LNumber rat
  | LString bytes
  | LTable "(lua_value \<times> lua_value) list"
  | LFun nat
  | LCFun nat
  | LUserdata addr
  | LLight nat \<comment> \<open>light userdata; \<open>LLight 0\<close> is the \<open>NULL\<close> pointer\<close>
  | LThread nat

type_synonym lthread = nat \<comment> \<open>a \<open>lua_State *\<close>\<close>

text \<open>What a registered C function does: return values, yield, or raise a Lua error.\<close>

datatype lua_ret = Ret "lua_value list" | Yield | Raise string

text \<open>The conversions of the Lua library (\<open>lua_str2number\<close>, \<open>lua_number2str\<close>).\<close>

record lua_lib =
  str2number :: "bytes \<Rightarrow> rat option"
  number2str :: "rat \<Rightarrow> bytes"

abbreviation lstr :: "string \<Rightarrow> lua_value" where "lstr s \<equiv> LString s"
abbreviation lint :: "int \<Rightarrow> lua_value" where "lint i \<equiv> LNumber (of_int i)"

text \<open>An index past the top of the stack is \<open>LUA_TNONE\<close>.\<close>

definition arg :: "lua_value list \<Rightarrow> nat \<Rightarrow> lua_value option" where
  "arg st i = (if 1 \<le> i \<and> i \<le> length st then Some (st ! (i - 1)) else None)"

definition lua_gettop :: "lua_value list \<Rightarrow> nat" where
  "lua_gettop st = length st"

definition lua_isnil :: "lua_value list \<Rightarrow> nat \<Rightarrow> bool" where
  "lua_isnil st i = (arg st i = Some LNil)"

definition lua_isuserdata :: "lua_value list \<Rightarrow> nat \<Rightarrow> bool" where
  "lua_isuserdata st i = (case arg st i of
     Some (LUserdata _) \<Rightarrow> True | Some (LLight _) \<Rightarrow> True | _ \<Rightarrow> False)"

definition lua_isstring :: "lua_value list \<Rightarrow> nat \<Rightarrow> bool" where
  "lua_isstring st i = (case arg st i of
     Some (LString _) \<Rightarrow> True | Some (LNumber _) \<Rightarrow> True | _ \<Rightarrow> False)"

definition lua_isnumber :: "lua_lib \<Rightarrow> lua_value list \<Rightarrow> nat \<Rightarrow> bool" where
  "lua_isnumber lib st i = (case arg st i of
     Some (LNumber _) \<Rightarrow> True
   | Some (LString s) \<Rightarrow> str2number lib s \<noteq> None | _ \<Rightarrow> False)"

definition lua_isboolean :: "lua_value list \<Rightarrow> nat \<Rightarrow> bool" where
  "lua_isboolean st i = (case arg st i of Some (LBool _) \<Rightarrow> True | _ \<Rightarrow> False)"

definition lua_istable :: "lua_value list \<Rightarrow> nat \<Rightarrow> bool" where
  "lua_istable st i = (case arg st i of Some (LTable _) \<Rightarrow> True | _ \<Rightarrow> False)"

definition lua_isthread :: "lua_value list \<Rightarrow> nat \<Rightarrow> bool" where
  "lua_isthread st i = (case arg st i of Some (LThread _) \<Rightarrow> True | _ \<Rightarrow> False)"

definition lua_toboolean :: "lua_value list \<Rightarrow> nat \<Rightarrow> bool" where
  "lua_toboolean st i = (case arg st i of
     Some LNil \<Rightarrow> False | Some (LBool b) \<Rightarrow> b | Some _ \<Rightarrow> True | None \<Rightarrow> False)"

definition tonumber :: "lua_lib \<Rightarrow> lua_value \<Rightarrow> rat" where
  "tonumber lib v = (case v of
     LNumber r \<Rightarrow> r
   | LString s \<Rightarrow> (case str2number lib s of Some r \<Rightarrow> r | None \<Rightarrow> 0)
   | _ \<Rightarrow> 0)"

definition lua_tonumber :: "lua_lib \<Rightarrow> lua_value list \<Rightarrow> nat \<Rightarrow> rat" where
  "lua_tonumber lib st i = (case arg st i of Some v \<Rightarrow> tonumber lib v | None \<Rightarrow> 0)"

text \<open>\<open>lua_tolstring\<close>: \<open>None\<close> is the \<open>NULL\<close> it returns for a value that is no string.\<close>

definition tolstring :: "lua_lib \<Rightarrow> lua_value \<Rightarrow> bytes option" where
  "tolstring lib v = (case v of
     LString s \<Rightarrow> Some s | LNumber r \<Rightarrow> Some (number2str lib r) | _ \<Rightarrow> None)"

definition lua_tolstring :: "lua_lib \<Rightarrow> lua_value list \<Rightarrow> nat \<Rightarrow> bytes option" where
  "lua_tolstring lib st i = Option.bind (arg st i) (tolstring lib)"

lemmas lua_api_defs [c_defs] =
  arg_def lua_gettop_def lua_isnil_def lua_isuserdata_def lua_isstring_def lua_isnumber_def
  lua_isboolean_def lua_istable_def lua_isthread_def lua_toboolean_def lua_tonumber_def
  tonumber_def tolstring_def lua_tolstring_def

text \<open>A string argument has a string value: the guard the handlers test before they read it.\<close>

lemma lua_isstring_tolstring:
  "lua_isstring st i \<Longrightarrow> \<exists>s. lua_tolstring lib st i = Some s"
  by (auto simp: lua_isstring_def lua_tolstring_def tolstring_def
      split: option.splits lua_value.splits)

text \<open>A C string ends at its first NUL; \<open>lua_tostring\<close> hands the C code such a pointer.\<close>

definition c_str :: "bytes \<Rightarrow> bytes" where
  "c_str s = takeWhile (\<lambda>c. c \<noteq> CHR 0x00) s"

definition lua_tostring :: "lua_lib \<Rightarrow> lua_value list \<Rightarrow> nat \<Rightarrow> bytes option" where
  "lua_tostring lib st i = map_option c_str (lua_tolstring lib st i)"

lemma length_c_str: "length (c_str s) \<le> length s"
  by (simp add: c_str_def length_takeWhile_le)

section \<open>Checked arguments and the stack\<close>

text \<open>A \<open>double\<close> cast to \<open>int64_t\<close>.\<close>

definition int64_of_number :: "rat \<Rightarrow> int" where
  "int64_of_number r = (let t = trunc_rat r in if - (2 ^ 63) \<le> t \<and> t < 2 ^ 63 then t else - (2 ^ 63))"

definition luaL_checklstring :: "lua_lib \<Rightarrow> lua_value list \<Rightarrow> nat \<Rightarrow> string + bytes" where
  "luaL_checklstring lib st i = (case lua_tolstring lib st i of None \<Rightarrow> Inl ''string expected'' | Some s \<Rightarrow> Inr s)"

definition luaL_checkinteger :: "lua_lib \<Rightarrow> lua_value list \<Rightarrow> nat \<Rightarrow> string + int" where
  "luaL_checkinteger lib st i = (if lua_isnumber lib st i then Inr (int64_of_number (lua_tonumber lib st i)) else Inl ''number expected'')"

text \<open>The limit of \<open>lua_checkstack\<close> on the slots of a C function.\<close>

definition LUAI_MAXCSTACK :: nat where "LUAI_MAXCSTACK = 8000"

definition luaL_optinteger :: "lua_lib \<Rightarrow> lua_value list \<Rightarrow> nat \<Rightarrow> int \<Rightarrow> string + int" where
  "luaL_optinteger lib st i d = (if arg st i = None \<or> lua_isnil st i then Inr d else luaL_checkinteger lib st i)"

text \<open>\<open>luaL_checkoption\<close> without a default: the index of the argument in a list of names.\<close>

fun option_index :: "bytes \<Rightarrow> bytes list \<Rightarrow> int option" where
  "option_index s [] = None"
| "option_index s (n # ns) = (if s = n then Some 0 else map_option (\<lambda>i. i + 1) (option_index s ns))"

definition luaL_checkoption :: "lua_lib \<Rightarrow> lua_value list \<Rightarrow> nat \<Rightarrow> bytes list \<Rightarrow> string + int" where
  "luaL_checkoption lib st i names =
     (case lua_tostring lib st i of
        None \<Rightarrow> Inl ''string expected''
      | Some s \<Rightarrow> (case option_index s names of None \<Rightarrow> Inl (''invalid option '' @ [CHR 0x27] @ s @ [CHR 0x27]) | Some n \<Rightarrow> Inr n))"

end
