(* ===== verification/Co_State.thy ===== *)
theory Co_State
  imports Lua_Api
begin

text \<open>
  The data of \<open>coevent.h\<close> and \<open>connection-pool.h\<close>: the socket object, its chain of
  read buffers, the nodes of the connection pool, of the queue of waiting sockets and of the
  pool counters, and the state the event loop shares. Every struct type has its own heap, a
  map from addresses to objects; \<open>malloc\<close> returns the next unused address. Calls whose only
  effect is outside this program (closing a descriptor, freeing an SSL object) are recorded
  in order in \<open>w_trace\<close>.
\<close>

section \<open>Sockets\<close>

text \<open>One link of the read buffer: \<open>lb_buf\<close> holds the first \<open>buf_len\<close> bytes of \<open>buf\<close>.\<close>

record link_buf =
  lb_addr :: addr
  lb_buf :: bytes
  lb_size :: nat

text \<open>A struct member that \<open>malloc\<close> leaves uninitialised until the code assigns it.\<close>

datatype 'a cell = Init 'a | Garbage

record cosocket =
  ck_fd :: int
  ck_use_ssl :: bool
  ck_in_read_action :: bool
  ck_fp :: ptr
  ck_pool_wait :: ptr
  ck_ctx :: ptr
  ck_ssl_pw :: "ptr cell"
  ck_ssl_sign :: u64
  ck_ssl :: ptr
  ck_ptr :: ptr
  ck_L :: "lthread option"
  ck_send_buf :: bytes
  ck_send_buf_len :: u64
  ck_send_buf_ed :: u64
  ck_send_buf_need_free :: ptr
  ck_read_buf :: "link_buf list"
  ck_last_buf :: ptr
  ck_total_buf_len :: u64
  ck_buf_read_len :: u64
  ck_status :: int
  ck_timeout :: int
  ck_timeout_ptr :: ptr
  ck_addr :: "(bytes \<times> int) option"
  ck_pool_size :: int
  ck_reusedtimes :: int
  ck_pool_key :: u64
  ck_inuse :: bool

text \<open>The object after \<open>bzero(cok, sizeof(cosocket_t))\<close>.\<close>

definition cosocket_zero :: cosocket where
  "cosocket_zero = \<lparr>ck_fd = 0, ck_use_ssl = False, ck_in_read_action = False, ck_fp = None,
     ck_pool_wait = None, ck_ctx = None, ck_ssl_pw = Init None, ck_ssl_sign = 0, ck_ssl = None,
     ck_ptr = None, ck_L = None, ck_send_buf = [], ck_send_buf_len = 0, ck_send_buf_ed = 0,
     ck_send_buf_need_free = None, ck_read_buf = [], ck_last_buf = None, ck_total_buf_len = 0,
     ck_buf_read_len = 0, ck_status = 0, ck_timeout = 0, ck_timeout_ptr = None, ck_addr = None,
     ck_pool_size = 0, ck_reusedtimes = 0, ck_pool_key = 0, ck_inuse = False\<rparr>"

definition SENDBUF_SIZE :: nat where "SENDBUF_SIZE = 3908"

section \<open>The event loop's registrations\<close>

text \<open>The callbacks this program registers with the event loop.\<close>

datatype handler = H_be_close | H_be_read | H_be_write | H_ssl_connected | H_be_popen_read

datatype se_data = DNull | DCok addr | DPool addr

text \<open>The members of \<open>se_ptr_t\<close> that this program reads or writes itself.\<close>

record se_ptr =
  sp_fd :: int
  sp_data :: se_data
  sp_rfunc :: "handler option"
  sp_wfunc :: "handler option"

type_synonym se_heap = "addr \<Rightarrow> se_ptr option"

text \<open>
  The event loop library is a submodule; its calls are parameters that act on the heap of
  registrations. The integer results are those the code compares with \<open>-1\<close>.
\<close>

record se_api =
  api_se_add :: "int \<Rightarrow> int \<Rightarrow> se_data \<Rightarrow> se_heap \<Rightarrow> ptr \<times> se_heap"
  api_se_delete :: "ptr \<Rightarrow> se_heap \<Rightarrow> se_heap"
  api_se_be_read :: "ptr \<Rightarrow> handler \<Rightarrow> se_heap \<Rightarrow> int \<times> se_heap"
  api_se_be_write :: "ptr \<Rightarrow> handler \<Rightarrow> se_heap \<Rightarrow> int \<times> se_heap"
  api_se_be_pri :: "ptr \<Rightarrow> se_heap \<Rightarrow> se_heap"

section \<open>The connection pool\<close>

record pool_node =
  cp_ptr :: ptr
  cp_pool_key :: u64
  cp_next :: ptr
  cp_uper :: ptr
  cp_ctx :: ptr
  cp_ssl :: ptr
  cp_ssl_pw :: "ptr cell"
  cp_z :: int

record wait_node =
  wg_cok :: addr
  wg_next :: ptr
  wg_uper :: ptr
  wg_k :: nat

record counter_node =
  pc_size :: u64
  pc_count :: u64
  pc_pool_key :: u64
  pc_next :: ptr
  pc_uper :: ptr

section \<open>Effects and the shared state\<close>

datatype effect =
    E_close int
  | E_pclose ptr
  | E_ssl_shutdown ptr
  | E_ssl_free ptr
  | E_ssl_ctx_free ptr
  | E_free ptr
  | E_add_timeout addr int
  | E_delete_timeout ptr
  | E_setsockopt int
  | E_ssl_set_fd ptr int
  | E_send int bytes
  | E_connect bytes int int

record world =
  w_brk :: addr
  w_now :: int
  w_loop_fd :: int
  w_process_count :: int
  w_coks :: "addr \<Rightarrow> cosocket option"
  w_se :: se_heap
  w_pool :: "nat \<Rightarrow> nat \<Rightarrow> ptr"
  w_pnodes :: "addr \<Rightarrow> pool_node option"
  w_counters :: "nat \<Rightarrow> ptr"
  w_cnodes :: "addr \<Rightarrow> counter_node option"
  w_waiting :: "nat \<Rightarrow> ptr"
  w_waiting_end :: "nat \<Rightarrow> ptr"
  w_wnodes :: "addr \<Rightarrow> wait_node option"
  w_trace :: "effect list"

text \<open>The globals when the module is loaded: no connection, no counter, nobody waiting.\<close>

definition world0 :: world where
  "world0 = \<lparr>w_brk = 0, w_now = 0, w_loop_fd = - 1, w_process_count = 1, w_coks = (\<lambda>_. None), w_se = (\<lambda>_. None),
     w_pool = (\<lambda>_ _. None), w_pnodes = (\<lambda>_. None), w_counters = (\<lambda>_. None), w_cnodes = (\<lambda>_. None),
     w_waiting = (\<lambda>_. None), w_waiting_end = (\<lambda>_. None), w_wnodes = (\<lambda>_. None), w_trace = []\<rparr>"

definition emit :: "effect \<Rightarrow> world \<Rightarrow> world" where
  "emit e w = w\<lparr>w_trace := w_trace w @ [e]\<rparr>"

definition put_cok :: "addr \<Rightarrow> cosocket \<Rightarrow> world \<Rightarrow> world" where
  "put_cok a c w = w\<lparr>w_coks := (w_coks w)(a \<mapsto> c)\<rparr>"

text \<open>
  Resuming a coroutine (\<open>lua_f_lua_uthread_resume_in_c\<close>) runs Lua code that may call back
  into this program; the handlers take it as an argument: from the values moved to the
  coroutine and the state it starts in, the status and the state it leaves.
\<close>

type_synonym resume_fn = "lthread option \<Rightarrow> lua_value list \<Rightarrow> world \<Rightarrow> int \<times> world"

definition LUA_YIELD :: int where "LUA_YIELD = 1"
definition LUA_ERRRUN :: int where "LUA_ERRRUN = 2"

lemma emit_simps [simp]:
  "w_brk (emit e w) = w_brk w" "w_now (emit e w) = w_now w" "w_coks (emit e w) = w_coks w"
  "w_loop_fd (emit e w) = w_loop_fd w" "w_process_count (emit e w) = w_process_count w"
  "w_se (emit e w) = w_se w" "w_pool (emit e w) = w_pool w" "w_pnodes (emit e w) = w_pnodes w"
  "w_counters (emit e w) = w_counters w" "w_cnodes (emit e w) = w_cnodes w"
  "w_waiting (emit e w) = w_waiting w" "w_waiting_end (emit e w) = w_waiting_end w"
  "w_wnodes (emit e w) = w_wnodes w" "w_trace (emit e w) = w_trace w @ [e]"
  by (simp_all add: emit_def)

lemma put_cok_simps [simp]:
  "w_brk (put_cok a c w) = w_brk w" "w_now (put_cok a c w) = w_now w"
  "w_loop_fd (put_cok a c w) = w_loop_fd w"
  "w_process_count (put_cok a c w) = w_process_count w"
  "w_coks (put_cok a c w) = (w_coks w)(a \<mapsto> c)"
  "w_se (put_cok a c w) = w_se w" "w_pool (put_cok a c w) = w_pool w"
  "w_pnodes (put_cok a c w) = w_pnodes w" "w_counters (put_cok a c w) = w_counters w"
  "w_cnodes (put_cok a c w) = w_cnodes w" "w_waiting (put_cok a c w) = w_waiting w"
  "w_waiting_end (put_cok a c w) = w_waiting_end w" "w_wnodes (put_cok a c w) = w_wnodes w"
  "w_trace (put_cok a c w) = w_trace w"
  by (simp_all add: put_cok_def)

end
