(* ===== verification/Dll.thy ===== *)
theory Dll
  imports Co_Prelude
begin

text \<open>
  Doubly linked lists on a heap. Three components chain their nodes with \<open>next\<close> and
  \<open>uper\<close> pointers; they share the predicate \<open>dseg\<close>, which says that the nodes reachable
  from a pointer are exactly a given list of addresses, and the lemmas on appending and
  unlinking a node, proved once in the locale \<open>dll_node\<close> from the laws of the four
  accessors. Each component interprets the locale on its own struct.
\<close>

text \<open>\<open>p->f = \<dots>\<close> on a typed heap; a \<open>NULL\<close> or dangling pointer has no result.\<close>

definition poke :: "addr \<Rightarrow> ('n \<Rightarrow> 'n) \<Rightarrow> (addr \<Rightarrow> 'n option) \<Rightarrow> (addr \<Rightarrow> 'n option) option" where
  "poke a f h = (case h a of None \<Rightarrow> None | Some n \<Rightarrow> Some (h(a \<mapsto> f n)))"

text \<open>Assign through a pointer only if it is not \<open>NULL\<close>: \<open>if(p) p->f = \<dots>\<close>.\<close>

definition poke_if :: "ptr \<Rightarrow> ('n \<Rightarrow> 'n) \<Rightarrow> (addr \<Rightarrow> 'n option) \<Rightarrow> (addr \<Rightarrow> 'n option) option" where
  "poke_if p f h = (case p of None \<Rightarrow> Some h | Some a \<Rightarrow> poke a f h)"

text \<open>
  \<open>dseg nxt upr h u p as\<close>: following \<open>nxt\<close> from \<open>p\<close> visits exactly \<open>as\<close> and ends in
  \<open>NULL\<close>, every node points back to its predecessor, the first one to \<open>u\<close>.
\<close>

primrec dseg :: "('n \<Rightarrow> ptr) \<Rightarrow> ('n \<Rightarrow> ptr) \<Rightarrow> (addr \<Rightarrow> 'n option) \<Rightarrow> ptr \<Rightarrow> ptr \<Rightarrow> addr list \<Rightarrow> bool" where
  "dseg nxt upr h u p [] \<longleftrightarrow> p = None"
| "dseg nxt upr h u p (a # as) \<longleftrightarrow> p = Some a \<and>
     (\<exists>n. h a = Some n \<and> upr n = u \<and> dseg nxt upr h (Some a) (nxt n) as)"

text \<open>The last element of a list as a pointer: where the \<open>end\<close> pointers of the queues point.\<close>

definition last_ptr :: "addr list \<Rightarrow> ptr" where
  "last_ptr as = (if as = [] then None else Some (last as))"

lemma last_ptr_simps [simp]:
  "last_ptr [] = None" "last_ptr (xs @ [a]) = Some a" "last_ptr [a] = Some a"
  by (simp_all add: last_ptr_def)

lemma last_ptr_Cons: "last_ptr (a # as) = (if as = [] then Some a else last_ptr as)"
  by (simp add: last_ptr_def)

lemma dseg_cong:
  assumes "\<And>a. a \<in> set as \<Longrightarrow> h a = h' a"
  shows "dseg nxt upr h u p as = dseg nxt upr h' u p as"
  using assms by (induction as arbitrary: u p) auto

lemma dseg_upd [simp]:
  "a \<notin> set as \<Longrightarrow> dseg nxt upr (h(a := v)) u p as = dseg nxt upr h u p as"
  by (rule dseg_cong) auto

lemma dseg_None [simp]: "dseg nxt upr h u None as \<longleftrightarrow> as = []"
  by (cases as) auto

lemma dseg_alloc: "dseg nxt upr h u p as \<Longrightarrow> a \<in> set as \<Longrightarrow> \<exists>n. h a = Some n"
  by (induction as arbitrary: u p) auto

lemma dseg_head: "dseg nxt upr h u p as \<Longrightarrow> p = (case as of [] \<Rightarrow> None | a # _ \<Rightarrow> Some a)"
  by (cases as) auto

lemma dseg_unique: "dseg nxt upr h u p as \<Longrightarrow> dseg nxt upr h v p bs \<Longrightarrow> as = bs"
proof (induction as arbitrary: u v p bs)
  case Nil
  then show ?case by simp
next
  case (Cons a as)
  then show ?case by (cases bs) auto
qed

lemma dseg_suffix:
  "dseg nxt upr h u p (xs @ a # ys) \<Longrightarrow>
     \<exists>n. h a = Some n \<and> upr n = (if xs = [] then u else Some (last xs))
       \<and> dseg nxt upr h (Some a) (nxt n) ys"
  by (induction xs arbitrary: u p) (auto split: if_splits)

lemma dseg_distinct: "dseg nxt upr h u p as \<Longrightarrow> distinct as"
proof (induction as arbitrary: u p)
  case Nil
  then show ?case by simp
next
  case (Cons a as)
  then obtain n where n: "h a = Some n" "dseg nxt upr h (Some a) (nxt n) as" by auto
  have "a \<notin> set as"
  proof
    assume "a \<in> set as"
    then obtain xs ys where as: "as = xs @ a # ys" by (meson split_list)
    with n have "dseg nxt upr h (Some a) (nxt n) ys" using dseg_suffix by fastforce
    with n(2) have "as = ys" by (rule dseg_unique)
    with as show False by simp
  qed
  with Cons n show ?case by auto
qed

text \<open>A chain is shorter than the number of allocated addresses: the fuel the walks get.\<close>

lemma dseg_length:
  assumes "dseg nxt upr h u p as" and "\<And>a. a \<in> set as \<Longrightarrow> a < b"
  shows "length as \<le> b"
proof -
  have "card (set as) \<le> card {..<b}"
    using assms(2) by (intro card_mono) auto
  then show ?thesis
    using dseg_distinct [OF assms(1)] by (simp add: distinct_card)
qed

text \<open>The open segment: as \<open>dseg\<close>, but ending in the pointer \<open>q\<close>.\<close>

primrec dpath :: "('n \<Rightarrow> ptr) \<Rightarrow> ('n \<Rightarrow> ptr) \<Rightarrow> (addr \<Rightarrow> 'n option) \<Rightarrow> ptr \<Rightarrow> ptr \<Rightarrow> addr list \<Rightarrow> ptr \<Rightarrow> bool" where
  "dpath nxt upr h u p [] q \<longleftrightarrow> p = q"
| "dpath nxt upr h u p (a # as) q \<longleftrightarrow> p = Some a \<and>
     (\<exists>n. h a = Some n \<and> upr n = u \<and> dpath nxt upr h (Some a) (nxt n) as q)"

lemma dpath_cong:
  assumes "\<And>a. a \<in> set as \<Longrightarrow> h a = h' a"
  shows "dpath nxt upr h u p as q = dpath nxt upr h' u p as q"
  using assms by (induction as arbitrary: u p) auto

lemma dseg_append:
  "dseg nxt upr h u p (xs @ ys) \<longleftrightarrow>
     (\<exists>q. dpath nxt upr h u p xs q \<and> dseg nxt upr h (if xs = [] then u else last_ptr xs) q ys)"
  by (induction xs arbitrary: u p) (auto simp: last_ptr_def)

text \<open>What a poke leaves alone: every other node, and all data it does not write.\<close>

lemma poke_other: "poke a f h = Some h' \<Longrightarrow> b \<noteq> a \<Longrightarrow> h' b = h b"
  by (auto simp: poke_def split: option.splits)

lemma poke_data:
  "poke a f h = Some h' \<Longrightarrow> (\<And>n. d (f n) = d n) \<Longrightarrow> map_option d (h' b) = map_option d (h b)"
  by (auto simp: poke_def split: option.splits)

lemma poke_if_other: "poke_if p f h = Some h' \<Longrightarrow> p \<noteq> Some b \<Longrightarrow> h' b = h b"
  by (auto simp: poke_if_def poke_other split: option.splits)

lemma poke_if_data:
  "poke_if p f h = Some h' \<Longrightarrow> (\<And>n. d (f n) = d n) \<Longrightarrow> map_option d (h' b) = map_option d (h b)"
  by (auto simp: poke_if_def poke_data split: option.splits)

locale dll_node =
  fixes nxt :: "'n \<Rightarrow> ptr" and upr :: "'n \<Rightarrow> ptr"
    and set_nxt :: "ptr \<Rightarrow> 'n \<Rightarrow> 'n" and set_upr :: "ptr \<Rightarrow> 'n \<Rightarrow> 'n"
  assumes acc [simp]: "nxt (set_nxt p n) = p" "upr (set_nxt p n) = upr n"
    "nxt (set_upr p n) = nxt n" "upr (set_upr p n) = p"
begin

text \<open>Redirecting the \<open>next\<close> pointer of the last node of a segment.\<close>

lemma redirect_last:
  assumes "dpath nxt upr h u p xs q" and "xs \<noteq> []" and "distinct xs"
  shows "\<exists>h'. poke (last xs) (set_nxt q') h = Some h' \<and> dpath nxt upr h' u p xs q'"
  using assms
proof (induction xs arbitrary: u p)
  case Nil
  then show ?case by simp
next
  case (Cons a xs)
  show ?case
  proof (cases "xs = []")
    case True
    with Cons.prems show ?thesis by (auto simp: poke_def)
  next
    case False
    from Cons.prems obtain n where n: "p = Some a" "h a = Some n" "upr n = u"
      "dpath nxt upr h (Some a) (nxt n) xs q" by auto
    with Cons False obtain h' where h': "poke (last xs) (set_nxt q') h = Some h'"
      "dpath nxt upr h' (Some a) (nxt n) xs q'" by auto
    moreover have "a \<noteq> last xs" using Cons.prems False by auto
    ultimately show ?thesis using False n poke_other [of "last xs" "set_nxt q'" h h' a] by auto
  qed
qed

text \<open>Redirecting the \<open>uper\<close> pointer of the first node.\<close>

lemma redirect_first:
  assumes "dseg nxt upr h v p ys"
  shows "\<exists>h'. poke_if p (set_upr u) h = Some h' \<and> dseg nxt upr h' u p ys"
proof (cases ys)
  case Nil
  with assms show ?thesis by (simp add: poke_if_def)
next
  case (Cons b bs)
  with assms dseg_distinct [OF assms] show ?thesis by (auto simp: poke_if_def poke_def)
qed

text \<open>Unlinking a node: its neighbours point past it, in the order the C code writes them.\<close>

lemma unlink_dseg:
  assumes seg: "dseg nxt upr h None p (xs @ a # ys)" and n: "h a = Some n"
  shows "upr n = last_ptr xs"
    and "nxt n = (case ys of [] \<Rightarrow> None | b # _ \<Rightarrow> Some b)"
    and "\<exists>h1 h2. poke_if (upr n) (set_nxt (nxt n)) h = Some h1
        \<and> poke_if (nxt n) (set_upr (upr n)) h1 = Some h2
        \<and> dseg nxt upr h2 None (if xs = [] then nxt n else p) (xs @ ys)"
proof -
  from seg n have u: "upr n = last_ptr xs" and tl: "dseg nxt upr h (Some a) (nxt n) ys"
    using dseg_suffix [OF seg] by (auto simp: last_ptr_def)
  then show "upr n = last_ptr xs" and nx: "nxt n = (case ys of [] \<Rightarrow> None | b # _ \<Rightarrow> Some b)"
    using dseg_head [OF tl] by auto
  have dist: "distinct (xs @ a # ys)" using seg by (rule dseg_distinct)
  from seg have path: "dpath nxt upr h None p xs (Some a)"
    by (auto simp: dseg_append)
  show "\<exists>h1 h2. poke_if (upr n) (set_nxt (nxt n)) h = Some h1
        \<and> poke_if (nxt n) (set_upr (upr n)) h1 = Some h2
        \<and> dseg nxt upr h2 None (if xs = [] then nxt n else p) (xs @ ys)"
  proof (cases "xs = []")
    case True
    with redirect_first [OF tl, of "upr n"] u show ?thesis
      by (auto simp: poke_if_def)
  next
    case False
    with redirect_last [OF path, of "nxt n"] dist obtain h1 where
      h1: "poke (last xs) (set_nxt (nxt n)) h = Some h1" and p1: "dpath nxt upr h1 None p xs (nxt n)"
      by auto
    have "b \<in> set ys \<Longrightarrow> b \<noteq> last xs" for b
      using dist last_in_set [OF False] by auto
    then have "dseg nxt upr h1 (Some a) (nxt n) ys"
      using tl poke_other [OF h1] by (subst dseg_cong [of ys h1 h]) auto
    from redirect_first [OF this, of "upr n"] obtain h2 where
      h2: "poke_if (nxt n) (set_upr (upr n)) h1 = Some h2" and s2: "dseg nxt upr h2 (upr n) (nxt n) ys"
      by auto
    have "b \<in> set xs \<Longrightarrow> h2 b = h1 b" for b
      using poke_if_other [OF h2, of b] nx dist by (auto split: list.splits)
    then have "dpath nxt upr h2 None p xs (nxt n)"
      using p1 by (subst dpath_cong [of xs h2 h1]) auto
    with s2 u False have "dseg nxt upr h2 None p (xs @ ys)"
      by (auto simp: dseg_append)
    with h1 h2 u False show ?thesis by (auto simp: poke_if_def last_ptr_def)
  qed
qed

text \<open>Appending a node behind the last one.\<close>

lemma append_dseg:
  assumes seg: "dseg nxt upr h None p as" and ne: "as \<noteq> []" and new: "a \<notin> set as"
    and n: "nxt n = None" "upr n = last_ptr as"
  shows "\<exists>h'. poke (last as) (set_nxt (Some a)) (h(a \<mapsto> n)) = Some h'
     \<and> dseg nxt upr h' None p (as @ [a])"
proof -
  have dist: "distinct as" using seg by (rule dseg_distinct)
  from seg ne have "dpath nxt upr h None p as None"
    using dseg_append [of nxt upr h None p as "[]"] by simp
  then have "dpath nxt upr (h(a \<mapsto> n)) None p as None"
    using new by (subst dpath_cong [of as "h(a \<mapsto> n)" h]) auto
  from redirect_last [OF this ne dist, of "Some a"] obtain h' where
    h': "poke (last as) (set_nxt (Some a)) (h(a \<mapsto> n)) = Some h'" "dpath nxt upr h' None p as (Some a)"
    by blast
  have "a \<noteq> last as" using new last_in_set [OF ne] by auto
  then have "h' a = Some n" using poke_other [OF h'(1)] by auto
  with h' n ne show ?thesis by (auto simp: dseg_append)
qed

text \<open>Pushing a node in front of the first one.\<close>

lemma push_dseg:
  assumes seg: "dseg nxt upr h None p as" and new: "a \<notin> set as" and n: "h a = Some n"
    "nxt n = p" "upr n = None"
  shows "\<exists>h'. poke_if p (set_upr (Some a)) h = Some h' \<and> dseg nxt upr h' None (Some a) (a # as)"
proof -
  obtain h' where h': "poke_if p (set_upr (Some a)) h = Some h'" "dseg nxt upr h' (Some a) p as"
    using redirect_first [OF seg] by blast
  have "p \<noteq> Some a" using seg new by (cases as) auto
  then have "h' a = Some n" using poke_if_other [OF h'(1)] n by simp
  with h' n show ?thesis by auto
qed

end

section \<open>Tables of chains with end pointers\<close>

text \<open>
  \<open>bq nxt upr slot hp en h brk Q\<close>: bucket \<open>k\<close> of a table is the chain \<open>Q k\<close>, \<open>hp k\<close>
  points to its first and \<open>en k\<close> to its last node, and every node knows its bucket.
\<close>

definition bq :: "('n \<Rightarrow> ptr) \<Rightarrow> ('n \<Rightarrow> ptr) \<Rightarrow> ('n \<Rightarrow> nat) \<Rightarrow> (nat \<Rightarrow> ptr) \<Rightarrow> (nat \<Rightarrow> ptr)
    \<Rightarrow> (addr \<Rightarrow> 'n option) \<Rightarrow> addr \<Rightarrow> (nat \<Rightarrow> addr list) \<Rightarrow> bool" where
  "bq nxt upr slot hp en h brk Q \<longleftrightarrow> (\<forall>k.
     dseg nxt upr h None (hp k) (Q k) \<and> en k = last_ptr (Q k)
     \<and> (\<forall>a \<in> set (Q k). a < brk \<and> map_option slot (h a) = Some k))"

lemma bq_same: "bq nxt upr slot hp en h brk Q \<Longrightarrow> a \<in> set (Q j) \<Longrightarrow> a \<in> set (Q k) \<Longrightarrow> j = k"
  unfolding bq_def by (metis option.inject)

lemma bq_fresh: "bq nxt upr slot hp en h brk Q \<Longrightarrow> brk \<notin> set (Q j)"
  unfolding bq_def by blast

lemma bq_distinct: "bq nxt upr slot hp en h brk Q \<Longrightarrow> distinct (Q k)"
  unfolding bq_def using dseg_distinct by blast

lemma bq_node: "bq nxt upr slot hp en h brk Q \<Longrightarrow> a \<in> set (Q k) \<Longrightarrow> \<exists>n. h a = Some n \<and> slot n = k"
  unfolding bq_def by (metis map_option_eq_Some)

locale dll_bucket = dll_node nxt upr set_nxt set_upr
  for nxt :: "'n \<Rightarrow> ptr" and upr :: "'n \<Rightarrow> ptr"
    and set_nxt :: "ptr \<Rightarrow> 'n \<Rightarrow> 'n" and set_upr :: "ptr \<Rightarrow> 'n \<Rightarrow> 'n" +
  fixes slot :: "'n \<Rightarrow> nat"
  assumes slot [simp]: "slot (set_nxt p n) = slot n" "slot (set_upr p n) = slot n"
begin

lemma bq_append_first:
  assumes rel: "bq nxt upr slot hp en h brk Q" and n: "slot n = k" "nxt n = None" "upr n = None" and e: "Q k = []"
  shows "hp k = None" and "en k = None"
    and "bq nxt upr slot (hp(k := Some brk)) (en(k := Some brk)) (h(brk \<mapsto> n)) (Suc brk) (Q(k := Q k @ [brk]))"
proof -
  have fresh: "brk \<notin> set (Q j)" for j using rel by (rule bq_fresh)
  show "hp k = None" "en k = None" using rel e by (auto simp: bq_def dest: spec [of _ k])
  show "bq nxt upr slot (hp(k := Some brk)) (en(k := Some brk)) (h(brk \<mapsto> n)) (Suc brk) (Q(k := Q k @ [brk]))"
    using rel e n fresh unfolding bq_def by (auto simp: less_Suc_eq)
qed

lemma bq_append_last:
  assumes rel: "bq nxt upr slot hp en h brk Q" and n: "slot n = k" "nxt n = None" and ne: "Q k \<noteq> []"
  shows "hp k \<noteq> None" and "en k = Some (last (Q k))"
    and "\<exists>h'. poke (last (Q k)) (set_nxt (Some brk)) (h(brk \<mapsto> set_upr (en k) n)) = Some h'
      \<and> bq nxt upr slot hp (en(k := Some brk)) h' (Suc brk) (Q(k := Q k @ [brk]))"
proof -
  have fresh: "brk \<notin> set (Q j)" for j using rel by (rule bq_fresh)
  have seg: "dseg nxt upr h None (hp j) (Q j)" and en: "en j = last_ptr (Q j)"
    and nodes: "\<And>a. a \<in> set (Q j) \<Longrightarrow> a < brk \<and> map_option slot (h a) = Some j" for j
    using rel by (auto simp: bq_def)
  show "hp k \<noteq> None" using seg [of k] ne by (cases "Q k") auto
  show e: "en k = Some (last (Q k))" using en [of k] ne by (simp add: last_ptr_def)
  let ?n = "set_upr (en k) n"
  obtain h' where h': "poke (last (Q k)) (set_nxt (Some brk)) (h(brk \<mapsto> ?n)) = Some h'"
    "dseg nxt upr h' None (hp k) (Q k @ [brk])"
    using append_dseg [OF seg [of k] ne fresh, of ?n] n en [of k] by auto
  have data: "map_option slot (h' b) = map_option slot ((h(brk \<mapsto> ?n)) b)" for b
    by (rule poke_data [OF h'(1)]) simp
  have other: "dseg nxt upr h' None (hp j) (Q j)" if "j \<noteq> k" for j
  proof -
    have "b \<noteq> last (Q k)" if "b \<in> set (Q j)" for b
      using that \<open>j \<noteq> k\<close> ne bq_same [OF rel, of b j k] by auto
    moreover have "b \<noteq> brk" if "b \<in> set (Q j)" for b using that fresh by auto
    ultimately show ?thesis
      using seg [of j] poke_other [OF h'(1)] by (subst dseg_cong [of "Q j" h' h]) auto
  qed
  have "map_option slot (h' b) = Some j \<and> b < Suc brk" if "b \<in> set ((Q(k := Q k @ [brk])) j)" for b j
  proof (cases "b = brk")
    case True
    then have "j = k" using that fresh [of j] by (auto split: if_splits)
    with True data [of brk] n show ?thesis by simp
  next
    case False
    then have "b \<in> set (Q j)" using that by (auto split: if_splits)
    with False nodes [of b j] data [of b] show ?thesis by simp
  qed
  then have "bq nxt upr slot hp (en(k := Some brk)) h' (Suc brk) (Q(k := Q k @ [brk]))"
    using h'(2) other en unfolding bq_def by simp
  with h'(1) show "\<exists>h'. poke (last (Q k)) (set_nxt (Some brk)) (h(brk \<mapsto> ?n)) = Some h'
      \<and> bq nxt upr slot hp (en(k := Some brk)) h' (Suc brk) (Q(k := Q k @ [brk]))" by blast
qed

lemma bq_unlink:
  assumes rel: "bq nxt upr slot hp en h brk Q" and a: "a \<in> set (Q k)" and n: "h a = Some n"
  shows "(hp k = Some a) = (upr n = None)" and "(en k = Some a) = (nxt n = None)"
    and "\<exists>h1 h2. poke_if (upr n) (set_nxt (nxt n)) h = Some h1 \<and> poke_if (nxt n) (set_upr (upr n)) h1 = Some h2
      \<and> bq nxt upr slot (if upr n = None then hp(k := nxt n) else hp) (if nxt n = None then en(k := upr n) else en)
          (h2(a := None)) brk (Q(k := remove1 a (Q k)))"
proof -
  have seg: "dseg nxt upr h None (hp j) (Q j)" and en: "en j = last_ptr (Q j)"
    and nodes: "\<And>b. b \<in> set (Q j) \<Longrightarrow> b < brk \<and> map_option slot (h b) = Some j" for j
    using rel by (auto simp: bq_def)
  obtain xs ys where q: "Q k = xs @ a # ys" using a by (meson split_list)
  have dist: "distinct (xs @ a # ys)" using dseg_distinct [OF seg [of k]] q by simp
  note ul = unlink_dseg [OF seg [of k, unfolded q] n]
  obtain h1 h2 where h: "poke_if (upr n) (set_nxt (nxt n)) h = Some h1" "poke_if (nxt n) (set_upr (upr n)) h1 = Some h2"
    "dseg nxt upr h2 None (if xs = [] then nxt n else hp k) (xs @ ys)"
    using ul(3) by auto
  have u: "upr n = None \<longleftrightarrow> xs = []" and x: "nxt n = None \<longleftrightarrow> ys = []"
    using ul(1,2) by (auto simp: last_ptr_def split: list.splits)
  show "(hp k = Some a) = (upr n = None)"
    using dseg_head [OF seg [of k]] q dist unfolding u by (cases xs) auto
  show "(en k = Some a) = (nxt n = None)"
    using en [of k] q dist unfolding x by (cases ys rule: rev_cases) (auto simp: last_ptr_def)
  have data: "map_option slot (h2 b) = map_option slot (h b)" for b
    using poke_if_data [OF h(1), of slot b] poke_if_data [OF h(2), of slot b] by simp
  have rem: "remove1 a (Q k) = xs @ ys" using q dist by (simp add: remove1_append)
  have frame: "h2 b = h b" if "b \<in> set (Q j)" "j \<noteq> k" for b j
  proof -
    have "b \<notin> set (Q k)" using bq_same [OF rel] that by auto
    then have "upr n \<noteq> Some b" "nxt n \<noteq> Some b"
      using ul(1,2) q by (auto simp: last_ptr_def split: if_splits list.splits)
    then show ?thesis using poke_if_other [OF h(1)] poke_if_other [OF h(2)] by simp
  qed
  have "bq nxt upr slot (if upr n = None then hp(k := nxt n) else hp) (if nxt n = None then en(k := upr n) else en)
          (h2(a := None)) brk (Q(k := remove1 a (Q k)))"
    unfolding rem bq_def u x
  proof (intro allI, goal_cases)
    case (1 j)
    show ?case
    proof (cases "j = k")
      case True
      have "last_ptr (xs @ ys) = (if ys = [] then upr n else en k)"
        using ul(1) en [of k] q by (cases ys rule: rev_cases) (auto simp: last_ptr_def)
      with True h(3) dist nodes [of _ k] q data show ?thesis by (auto simp del: map_option_eq_Some)
    next
      case False
      have "a \<notin> set (Q j)" using bq_same [OF rel a] False by auto
      with False seg [of j] frame nodes [of _ j] en [of j] data show ?thesis
        by (auto simp: dseg_cong [of "Q j" h2 h] simp del: map_option_eq_Some)
    qed
  qed
  with h show "\<exists>h1 h2. poke_if (upr n) (set_nxt (nxt n)) h = Some h1 \<and> poke_if (nxt n) (set_upr (upr n)) h1 = Some h2
      \<and> bq nxt upr slot (if upr n = None then hp(k := nxt n) else hp) (if nxt n = None then en(k := upr n) else en)
          (h2(a := None)) brk (Q(k := remove1 a (Q k)))" by blast
qed

end

section \<open>Buckets of queues\<close>

text \<open>
  The contract of a table of queues whose entries can be withdrawn by their handle: the state
  represents one list of handles per bucket; enqueuing appends a fresh handle to the bucket
  of the client, withdrawing removes exactly that handle.
\<close>

locale bucket_queue =
  fixes rel :: "'s \<Rightarrow> (nat \<Rightarrow> addr list) \<Rightarrow> bool"
    and slot :: "'x \<Rightarrow> 's \<Rightarrow> nat option"
    and enq :: "'x \<Rightarrow> 's \<Rightarrow> (ptr \<times> 's) option"
    and del :: "addr \<Rightarrow> 's \<Rightarrow> 's option"
  assumes enq_law: "rel s Q \<Longrightarrow> slot x s = Some k \<Longrightarrow>
      \<exists>a s'. enq x s = Some (Some a, s') \<and> (\<forall>j. a \<notin> set (Q j)) \<and> rel s' (Q(k := Q k @ [a]))
        \<and> (\<forall>y. slot y s' = slot y s)"
    and del_law: "rel s Q \<Longrightarrow> a \<in> set (Q k) \<Longrightarrow>
      \<exists>s'. del a s = Some s' \<and> rel s' (Q(k := remove1 a (Q k))) \<and> (\<forall>y. slot y s' = slot y s)"
    and rel_distinct: "rel s Q \<Longrightarrow> distinct (Q k)"
begin

text \<open>Enqueuing and withdrawing the same handle leaves every queue as it was.\<close>

lemma enq_del:
  assumes "rel s Q" and "slot x s = Some k"
  shows "\<exists>a s' s''. enq x s = Some (Some a, s') \<and> del a s' = Some s'' \<and> rel s'' Q"
proof -
  obtain a s' where a: "enq x s = Some (Some a, s')" "a \<notin> set (Q k)" "rel s' (Q(k := Q k @ [a]))"
    using enq_law [OF assms] by blast
  then obtain s'' where s'': "del a s' = Some s''"
    "rel s'' ((Q(k := Q k @ [a]))(k := remove1 a ((Q(k := Q k @ [a])) k)))"
    using del_law [OF a(3), of a k] by auto
  moreover have "remove1 a (Q k @ [a]) = Q k"
    using a(2) by (simp add: remove1_append)
  ultimately show ?thesis using a(1) by (auto simp: fun_upd_idem)
qed

text \<open>The first entry stays first, whoever queues up behind it.\<close>

lemma enq_keeps_head:
  assumes "rel s Q" and "slot x s = Some j" and "Q k = a # as"
  shows "\<exists>b s' Q'. enq x s = Some (Some b, s') \<and> rel s' Q' \<and> hd (Q' k) = a"
proof -
  obtain b s' where "enq x s = Some (Some b, s')" "rel s' (Q(j := Q j @ [b]))"
    using enq_law [OF assms(1,2)] by blast
  then show ?thesis using assms(3) by (intro exI [of _ b] exI [of _ s'] exI conjI) auto
qed

end

end
