(* ===== verification/Conn_Pool.thy ===== *)
theory Conn_Pool
  imports Co_State Dll
begin

text \<open>
  The connection pool (\<open>connection-pool.c\<close>): idle connections kept per pool key in two
  generations of 64 buckets, a counter of connections per key, and the queue of sockets
  that wait for a connection of their key. Functions return \<open>None\<close> where the C code would
  dereference a \<open>NULL\<close> or dangling pointer, use an uninitialised pointer or walk a chain
  that does not end; the walks get one unit of fuel per allocated address.
\<close>

section \<open>Counters\<close>

definition bucket :: "u64 \<Rightarrow> nat" where
  "bucket key = unat key mod 64"

text \<open>The search loop of \<open>get_connection_pool_counter\<close>: the pointers \<open>u\<close> and \<open>n\<close> at its end.\<close>

fun find_counter :: "(addr \<Rightarrow> counter_node option) \<Rightarrow> u64 \<Rightarrow> nat \<Rightarrow> ptr \<Rightarrow> ptr \<Rightarrow> (ptr \<times> ptr) option" where
  "find_counter h key f u None = Some (u, None)"
| "find_counter h key 0 u (Some a) = None"
| "find_counter h key (Suc f) u (Some a) =
     (case h a of
        None \<Rightarrow> None
      | Some n \<Rightarrow> if pc_pool_key n = key then Some (u, Some a)
                  else find_counter h key f (Some a) (pc_next n))"

definition get_connection_pool_counter :: "u64 \<Rightarrow> world \<Rightarrow> (addr \<times> world) option" where
  "get_connection_pool_counter key w = do {
     let k = bucket key;
     (u, n) \<leftarrow> find_counter (w_cnodes w) key (w_brk w) None (w_counters w k);
     case n of
       Some a \<Rightarrow> Some (a, w)
     | None \<Rightarrow> do {
         let a = w_brk w;
         let node = \<lparr>pc_size = 0, pc_count = 0, pc_pool_key = key, pc_next = None, pc_uper = None\<rparr>;
         let w = w\<lparr>w_brk := Suc a, w_cnodes := (w_cnodes w)(a \<mapsto> node)\<rparr>;
         if w_counters w k = None then Some (a, w\<lparr>w_counters := (w_counters w)(k := Some a)\<rparr>)
         else case u of
           None \<Rightarrow> Some (a, w)
         | Some ua \<Rightarrow> do {
             h \<leftarrow> poke ua (pc_next_update (\<lambda>_. Some a)) ((w_cnodes w)(a \<mapsto> node\<lparr>pc_uper := u\<rparr>));
             Some (a, w\<lparr>w_cnodes := h\<rparr>) } } }"

definition connection_pool_counter_operate :: "u64 \<Rightarrow> int \<Rightarrow> world \<Rightarrow> world option" where
  "connection_pool_counter_operate key d w =
     (if key < 1 then Some w
      else do {
        (a, w) \<leftarrow> get_connection_pool_counter key w;
        h \<leftarrow> poke a (\<lambda>n. n\<lparr>pc_count := pc_count n + word_of_int d\<rparr>) (w_cnodes w);
        Some (w\<lparr>w_cnodes := h\<rparr>) })"

section \<open>The queue of waiting sockets\<close>

text \<open>\<open>ok\<close> is whether \<open>malloc\<close> succeeds.\<close>

definition add_waiting_get_connection :: "bool \<Rightarrow> addr \<Rightarrow> world \<Rightarrow> (ptr \<times> world) option" where
  "add_waiting_get_connection ok ca w = do {
     cok \<leftarrow> w_coks w ca;
     if ck_pool_key cok < 1 then Some (None, w)
     else if \<not> ok then Some (None, w)
     else do {
       let k = bucket (ck_pool_key cok);
       let a = w_brk w;
       let n = \<lparr>wg_cok = ca, wg_next = None, wg_uper = None, wg_k = k\<rparr>;
       if w_waiting w k = None then
         Some (Some a, w\<lparr>w_brk := Suc a, w_wnodes := (w_wnodes w)(a \<mapsto> n),
                         w_waiting := (w_waiting w)(k := Some a),
                         w_waiting_end := (w_waiting_end w)(k := Some a)\<rparr>)
       else do {
         e \<leftarrow> w_waiting_end w k;
         h \<leftarrow> poke e (wg_next_update (\<lambda>_. Some a)) ((w_wnodes w)(a \<mapsto> n\<lparr>wg_uper := Some e\<rparr>));
         Some (Some a, w\<lparr>w_brk := Suc a, w_wnodes := h,
                         w_waiting_end := (w_waiting_end w)(k := Some a)\<rparr>) } } }"

definition delete_in_waiting_get_connection :: "addr \<Rightarrow> world \<Rightarrow> world option" where
  "delete_in_waiting_get_connection a w = do {
     n \<leftarrow> w_wnodes w a;
     let k = wg_k n;
     let hd = (if w_waiting w k = Some a then (w_waiting w)(k := wg_next n) else w_waiting w);
     let en = (if w_waiting_end w k = Some a then (w_waiting_end w)(k := wg_uper n) else w_waiting_end w);
     h \<leftarrow> poke_if (wg_uper n) (wg_next_update (\<lambda>_. wg_next n)) (w_wnodes w);
     h \<leftarrow> poke_if (wg_next n) (wg_uper_update (\<lambda>_. wg_uper n)) h;
     Some (w\<lparr>w_waiting := hd, w_waiting_end := en, w_wnodes := h(a := None)\<rparr>) }"

section \<open>Idle connections\<close>

definition set_pool :: "nat \<Rightarrow> nat \<Rightarrow> ptr \<Rightarrow> world \<Rightarrow> world" where
  "set_pool p k v w = w\<lparr>w_pool := (w_pool w)(p := (w_pool w p)(k := v))\<rparr>"

definition poke_pool :: "addr \<Rightarrow> (pool_node \<Rightarrow> pool_node) \<Rightarrow> world \<Rightarrow> world option" where
  "poke_pool a f w = do { h \<leftarrow> poke a f (w_pnodes w); Some (w\<lparr>w_pnodes := h\<rparr>) }"

definition poke_pool_if :: "ptr \<Rightarrow> (pool_node \<Rightarrow> pool_node) \<Rightarrow> world \<Rightarrow> world option" where
  "poke_pool_if p f w = do { h \<leftarrow> poke_if p f (w_pnodes w); Some (w\<lparr>w_pnodes := h\<rparr>) }"

definition se_delete :: "se_api \<Rightarrow> ptr \<Rightarrow> world \<Rightarrow> world" where
  "se_delete api p w = w\<lparr>w_se := api_se_delete api p (w_se w)\<rparr>"

definition emit_ssl_free :: "ptr \<Rightarrow> ptr \<Rightarrow> world \<Rightarrow> world" where
  "emit_ssl_free ssl ctx w =
     (if ssl \<noteq> None then emit (E_ssl_ctx_free ctx) (emit (E_ssl_free ssl) w) else w)"

text \<open>A node leaves its chain: the head of generation \<open>p\<close> moves on, or the neighbours close up.\<close>

definition unlink_head :: "nat \<Rightarrow> nat \<Rightarrow> pool_node \<Rightarrow> world \<Rightarrow> world option" where
  "unlink_head p k n w = poke_pool_if (cp_next n) (cp_uper_update (\<lambda>_. None)) (set_pool p k (cp_next n) w)"

definition unlink_inner :: "pool_node \<Rightarrow> world \<Rightarrow> world option" where
  "unlink_inner n w = do {
     u \<leftarrow> cp_uper n;
     w \<leftarrow> poke_pool u (cp_next_update (\<lambda>_. cp_next n)) w;
     poke_pool_if (cp_next n) (cp_uper_update (\<lambda>_. cp_uper n)) w }"

definition unlink_idle :: "addr \<Rightarrow> nat \<Rightarrow> pool_node \<Rightarrow> world \<Rightarrow> world option" where
  "unlink_idle a k n w =
     (if w_pool w 0 k = Some a then unlink_head 0 k n w
      else if w_pool w 1 k = Some a then unlink_head 1 k n w
      else unlink_inner n w)"

text \<open>
  \<open>cosocket_be_close\<close>: the peer of an idle connection sent data or closed it. Unlinks the
  node from the generation and bucket it is in and releases the connection.
\<close>

definition cosocket_be_close :: "se_api \<Rightarrow> addr \<Rightarrow> world \<Rightarrow> world option" where
  "cosocket_be_close api p w = do {
     sp \<leftarrow> w_se w p;
     let fd = sp_fd sp;
     a \<leftarrow> (case sp_data sp of DPool a \<Rightarrow> Some a | _ \<Rightarrow> None);
     n \<leftarrow> w_pnodes w a;
     let k = bucket (cp_pool_key n);
     w \<leftarrow> unlink_idle a k n w;
     let w = se_delete api (cp_ptr n) w;
     let w = emit_ssl_free (cp_ssl n) (cp_ctx n) w;
     w \<leftarrow> connection_pool_counter_operate (cp_pool_key n) (- 1) w;
     let w = emit (E_close fd) w;
     Some (w\<lparr>w_pnodes := (w_pnodes w)(a := None)\<rparr>) }"

text \<open>The body of the clearing loop: a node of the old generation is kept once, then closed.\<close>

definition clear_node :: "se_api \<Rightarrow> nat \<Rightarrow> addr \<Rightarrow> world \<Rightarrow> world option" where
  "clear_node api p m w = do {
     n \<leftarrow> w_pnodes w m;
     if cp_z n = 0 then do {
       let k = bucket (cp_pool_key n);
       let nn = w_pool w p k;
       w \<leftarrow> poke_pool m (\<lambda>n. n\<lparr>cp_z := 1, cp_uper := None, cp_next := nn\<rparr>) w;
       w \<leftarrow> poke_pool_if nn (cp_uper_update (\<lambda>_. Some m)) w;
       Some (set_pool p k (Some m) w)
     } else do {
       pa \<leftarrow> cp_ptr n;
       sp \<leftarrow> w_se w pa;
       let w = se_delete api (cp_ptr n) w;
       w \<leftarrow> connection_pool_counter_operate (cp_pool_key n) (- 1) w;
       let w = emit (E_close (sp_fd sp)) w;
       Some (w\<lparr>w_pnodes := (w_pnodes w)(m := None)\<rparr>) } }"

fun clear_chain :: "se_api \<Rightarrow> nat \<Rightarrow> nat \<Rightarrow> ptr \<Rightarrow> world \<Rightarrow> world option" where
  "clear_chain api p f None w = Some w"
| "clear_chain api p 0 (Some m) w = None"
| "clear_chain api p (Suc f) (Some m) w =
     (case w_pnodes w m of
        None \<Rightarrow> None
      | Some n \<Rightarrow> (case clear_node api p m w of
                     None \<Rightarrow> None
                   | Some w' \<Rightarrow> clear_chain api p f (cp_next n) w'))"

fun clear_buckets :: "se_api \<Rightarrow> nat \<Rightarrow> nat \<Rightarrow> nat list \<Rightarrow> world \<Rightarrow> world option" where
  "clear_buckets api p q [] w = Some w"
| "clear_buckets api p q (i # is) w =
     (case clear_chain api p (w_brk w) (w_pool w q i) w of
        None \<Rightarrow> None
      | Some w' \<Rightarrow> clear_buckets api p q is (set_pool q i None w'))"

definition connect_pool_ttl :: int where "connect_pool_ttl = 60"

text \<open>The generation in use: \<open>(now / connect_pool_ttl) % 2\<close>, for a time that is not negative.\<close>

definition cur_gen :: "world \<Rightarrow> nat" where
  "cur_gen w = nat ((w_now w div connect_pool_ttl) mod 2)"

text \<open>The search of a bucket for a key (the loop after the label \<open>regetfd\<close>).\<close>

fun find_key :: "(addr \<Rightarrow> pool_node option) \<Rightarrow> u64 \<Rightarrow> nat \<Rightarrow> ptr \<Rightarrow> ptr option" where
  "find_key h key f None = Some None"
| "find_key h key 0 (Some a) = None"
| "find_key h key (Suc f) (Some a) =
     (case h a of
        None \<Rightarrow> None
      | Some n \<Rightarrow> if cp_pool_key n = key then Some (Some a) else find_key h key f (cp_next n))"

text \<open>The socket takes over the SSL objects of the pooled connection; its own are freed.\<close>

definition adopt_ssl :: "ptr \<Rightarrow> pool_node \<Rightarrow> world \<Rightarrow> world option" where
  "adopt_ssl ca n w = (case ca of
     None \<Rightarrow> Some w
   | Some a \<Rightarrow> do {
       cok \<leftarrow> w_coks w a;
       let w = (if ck_ctx cok \<noteq> None then emit (E_ssl_ctx_free (ck_ctx cok)) w else w);
       w \<leftarrow> (case ck_ssl_pw cok of
               Garbage \<Rightarrow> None
             | Init None \<Rightarrow> Some w
             | Init (Some q) \<Rightarrow> Some (emit (E_free (Some q)) w));
       Some (put_cok a (cok\<lparr>ck_ctx := cp_ctx n, ck_ssl := cp_ssl n, ck_ssl_pw := cp_ssl_pw n\<rparr>) w) })"

text \<open>Take the first connection with the key out of one generation: lines 244 to 294.\<close>

definition take_conn :: "nat \<Rightarrow> u64 \<Rightarrow> ptr \<Rightarrow> world \<Rightarrow> (ptr \<times> world) option" where
  "take_conn p key ca w = do {
     let k = bucket key;
     r \<leftarrow> find_key (w_pnodes w) key (w_brk w) (w_pool w p k);
     case r of
       None \<Rightarrow> Some (None, w)
     | Some a \<Rightarrow> do {
         n \<leftarrow> w_pnodes w a;
         w \<leftarrow> (if w_pool w p k = Some a then unlink_head p k n w else unlink_inner n w);
         w \<leftarrow> adopt_ssl ca n w;
         Some (cp_ptr n, w\<lparr>w_pnodes := (w_pnodes w)(a := None)\<rparr>) } }"

text \<open>
  \<open>get_connection_in_pool\<close> and \<open>resume_in_waiting_get_connection\<close> call each other: the
  first with key 0 only clears and then serves the waiting sockets, the second looks each
  bucket's first waiting socket up with that socket's key. The fuel counts the nesting.
\<close>

definition wake_waiting :: "se_api \<Rightarrow> resume_fn \<Rightarrow> addr \<Rightarrow> addr \<Rightarrow> addr \<Rightarrow> world \<Rightarrow> world option" where
  "wake_waiting api resume ca wn p w = do {
     cok \<leftarrow> w_coks w ca;
     w \<leftarrow> delete_in_waiting_get_connection wn (put_cok ca (cok\<lparr>ck_ptr := Some p, ck_pool_wait := None\<rparr>) w);
     h \<leftarrow> poke p (\<lambda>sp. sp\<lparr>sp_data := DCok ca\<rparr>) (w_se w);
     let w = w\<lparr>w_se := h\<rparr>;
     sp \<leftarrow> w_se w p;
     let w = emit (E_delete_timeout (ck_timeout_ptr cok)) w;
     let w = put_cok ca (cok\<lparr>ck_ptr := Some p, ck_pool_wait := None, ck_status := 2, ck_inuse := False,
               ck_reusedtimes := 1, ck_in_read_action := False, ck_fd := sp_fd sp,
               ck_timeout_ptr := None\<rparr>) w;
     let w = w\<lparr>w_se := api_se_be_pri api (Some p) (w_se w)\<rparr>;
     Some (snd (resume (ck_L cok) [LBool True] w)) }"

fun get_connection_in_pool :: "nat \<Rightarrow> se_api \<Rightarrow> resume_fn \<Rightarrow> u64 \<Rightarrow> ptr \<Rightarrow> world \<Rightarrow> (ptr \<times> world) option"
and resume_in_waiting_get_connection :: "nat \<Rightarrow> se_api \<Rightarrow> resume_fn \<Rightarrow> nat list \<Rightarrow> world \<Rightarrow> world option" where
  "get_connection_in_pool 0 api resume key ca w = None"
| "get_connection_in_pool (Suc f) api resume key ca w =
     (let p = cur_gen w; q = (p + 1) mod 2 in
      case clear_buckets api p q [0..<64] w of
        None \<Rightarrow> None
      | Some w' \<Rightarrow>
          if key = 0 then
            map_option (\<lambda>w''. (None, w'')) (resume_in_waiting_get_connection f api resume [0..<64] w')
          else (case take_conn p key ca w' of
                  None \<Rightarrow> None
                | Some (Some r, w'') \<Rightarrow> Some (Some r, w'')
                | Some (None, w'') \<Rightarrow> if p \<noteq> q then take_conn q key ca w'' else Some (None, w'')))"
| "resume_in_waiting_get_connection f api resume [] w = Some w"
| "resume_in_waiting_get_connection f api resume (k # ks) w =
     (case w_waiting w k of
        None \<Rightarrow> resume_in_waiting_get_connection f api resume ks w
      | Some a \<Rightarrow>
          (case w_wnodes w a of
             None \<Rightarrow> None
           | Some n \<Rightarrow>
               (case w_coks w (wg_cok n) of
                  None \<Rightarrow> None
                | Some cok \<Rightarrow>
                    (case get_connection_in_pool f api resume (ck_pool_key cok) (Some (wg_cok n)) w of
                       None \<Rightarrow> None
                     | Some (None, w') \<Rightarrow>
                         (case w_coks w' (wg_cok n) of
                            None \<Rightarrow> None
                          | Some cok' \<Rightarrow>
                              resume_in_waiting_get_connection f api resume ks
                                (put_cok (wg_cok n) (cok'\<lparr>ck_ptr := None\<rparr>) w'))
                     | Some (Some p, w') \<Rightarrow>
                         (case w_waiting w' k of
                            None \<Rightarrow> None
                          | Some a' \<Rightarrow> wake_waiting api resume (wg_cok n) a' p w')))))"

text \<open>
  \<open>add_connection_to_pool\<close>. The scan of a non-empty bucket counts the nodes with the key
  and finds the last node; \<open>Inl\<close> is the early \<open>return 0\<close> (pool full). The node appended to a
  non-empty bucket keeps \<open>ssl_pw\<close> as \<open>malloc\<close> left it.
\<close>

fun scan_bucket :: "(addr \<Rightarrow> pool_node option) \<Rightarrow> u64 \<Rightarrow> int \<Rightarrow> nat \<Rightarrow> int \<Rightarrow> addr \<Rightarrow> (unit + addr) option" where
  "scan_bucket h key psize 0 in_pool a = None"
| "scan_bucket h key psize (Suc f) in_pool a =
     (case h a of
        None \<Rightarrow> None
      | Some n \<Rightarrow>
          if cp_pool_key n = key \<and> in_pool \<ge> psize then Some (Inl ())
          else
            let in_pool' = (if cp_pool_key n = key then in_pool + 1 else in_pool)
            in (case cp_next n of
                  None \<Rightarrow> Some (Inr a)
                | Some b \<Rightarrow> scan_bucket h key psize f in_pool' b))"

definition watch_idle :: "se_api \<Rightarrow> addr \<Rightarrow> addr \<Rightarrow> world \<Rightarrow> world option" where
  "watch_idle api p m w = do {
     h \<leftarrow> poke p (\<lambda>sp. sp\<lparr>sp_data := DPool m\<rparr>) (w_se w);
     let (r, h) = api_se_be_read api (Some p) H_be_close h;
     let w = w\<lparr>w_se := h\<rparr>;
     if r = - 1 then cosocket_be_close api p w else Some w }"

definition add_connection_to_pool ::
    "se_api \<Rightarrow> bool \<Rightarrow> u64 \<Rightarrow> int \<Rightarrow> ptr \<Rightarrow> ptr \<Rightarrow> ptr \<Rightarrow> ptr cell \<Rightarrow> world \<Rightarrow> (int \<times> world) option" where
  "add_connection_to_pool api ok key psize ptr ssl ctx pw w =
     (case ptr of
        None \<Rightarrow> Some (0, w)
      | Some p \<Rightarrow> do {
          sp \<leftarrow> w_se w p;
          if sp_fd sp < 0 then Some (0, w)
          else do {
            let k = bucket key;
            let g = cur_gen w;
            let w = emit (E_setsockopt (sp_fd sp)) w;
            let m = w_brk w;
            let node = \<lparr>cp_ptr = ptr, cp_pool_key = key, cp_next = None, cp_uper = None,
                        cp_ctx = ctx, cp_ssl = ssl, cp_ssl_pw = pw, cp_z = 0\<rparr>;
            case w_pool w g k of
              None \<Rightarrow>
                if \<not> ok then Some (0, w)
                else do {
                  let w = w\<lparr>w_brk := Suc m, w_pnodes := (w_pnodes w)(m \<mapsto> node)\<rparr>;
                  w \<leftarrow> watch_idle api p m (set_pool g k (Some m) w);
                  Some (1, w) }
            | Some a \<Rightarrow> do {
                r \<leftarrow> scan_bucket (w_pnodes w) key psize (w_brk w) 0 a;
                case r of
                  Inl _ \<Rightarrow> Some (0, w)
                | Inr l \<Rightarrow>
                    if \<not> ok then Some (0, w)
                    else do {
                      h \<leftarrow> poke l (cp_next_update (\<lambda>_. Some m))
                             ((w_pnodes w)(m \<mapsto> node\<lparr>cp_uper := Some l, cp_ssl_pw := Garbage\<rparr>));
                      w \<leftarrow> watch_idle api p m (w\<lparr>w_brk := Suc m, w_pnodes := h\<rparr>);
                      Some (1, w) } } } })"

section \<open>The waiting queue refines one list of sockets per bucket\<close>

interpretation pool_dll: dll_node cp_next cp_uper
    "\<lambda>p. cp_next_update (\<lambda>_. p)" "\<lambda>p. cp_uper_update (\<lambda>_. p)"
  by unfold_locales simp_all

interpretation wait_dll: dll_bucket wg_next wg_uper
    "\<lambda>p. wg_next_update (\<lambda>_. p)" "\<lambda>p. wg_uper_update (\<lambda>_. p)" wg_k
  by unfold_locales simp_all

interpretation counter_dll: dll_node pc_next pc_uper
    "\<lambda>p. pc_next_update (\<lambda>_. p)" "\<lambda>p. pc_uper_update (\<lambda>_. p)"
  by unfold_locales simp_all

definition wait_rel :: "world \<Rightarrow> (nat \<Rightarrow> addr list) \<Rightarrow> bool" where
  "wait_rel w Q \<longleftrightarrow> bq wg_next wg_uper wg_k (w_waiting w) (w_waiting_end w) (w_wnodes w) (w_brk w) Q"

text \<open>The bucket a socket queues up in; none without a pool key.\<close>

definition wait_slot :: "addr \<Rightarrow> world \<Rightarrow> nat option" where
  "wait_slot ca w = (case w_coks w ca of
     None \<Rightarrow> None
   | Some cok \<Rightarrow> if ck_pool_key cok < 1 then None else Some (bucket (ck_pool_key cok)))"

lemma wait_rel_fresh: "wait_rel w Q \<Longrightarrow> w_brk w \<notin> set (Q j)"
  unfolding wait_rel_def by (rule bq_fresh)

lemma add_waiting_rel:
  assumes rel: "wait_rel w Q" and slot: "wait_slot ca w = Some k"
  shows "\<exists>w'. add_waiting_get_connection True ca w = Some (Some (w_brk w), w')
     \<and> wait_rel w' (Q(k := Q k @ [w_brk w])) \<and> w_coks w' = w_coks w
     \<and> map_option wg_cok (w_wnodes w' (w_brk w)) = Some ca"
proof -
  let ?a = "w_brk w"
  obtain cok where cok: "w_coks w ca = Some cok" "\<not> ck_pool_key cok < 1" "k = bucket (ck_pool_key cok)"
    using slot by (auto simp: wait_slot_def split: option.splits if_splits)
  define n where "n = \<lparr>wg_cok = ca, wg_next = None, wg_uper = None, wg_k = k\<rparr>"
  have n: "wg_k n = k" "wg_next n = None" "wg_uper n = None" by (simp_all add: n_def)
  note rel = rel [unfolded wait_rel_def]
  show ?thesis
  proof (cases "Q k = []")
    case True
    let ?w' = "w\<lparr>w_brk := Suc ?a, w_wnodes := (w_wnodes w)(?a \<mapsto> n),
        w_waiting := (w_waiting w)(k := Some ?a), w_waiting_end := (w_waiting_end w)(k := Some ?a)\<rparr>"
    note f = wait_dll.bq_append_first [OF rel n True]
    have "add_waiting_get_connection True ca w = Some (Some ?a, ?w')"
      using cok f(1) by (simp add: add_waiting_get_connection_def n_def Let_def)
    with f(3) show ?thesis by (simp add: wait_rel_def n_def)
  next
    case False
    note f = wait_dll.bq_append_last [OF rel n(1,2) False]
    obtain h' where h': "poke (last (Q k)) (wg_next_update (\<lambda>_. Some ?a))
        ((w_wnodes w)(?a \<mapsto> n\<lparr>wg_uper := w_waiting_end w k\<rparr>)) = Some h'"
      "bq wg_next wg_uper wg_k (w_waiting w) ((w_waiting_end w)(k := Some ?a)) h' (Suc ?a) (Q(k := Q k @ [?a]))"
      using f(3) by blast
    have "map_option wg_cok (h' ?a) = Some ca"
      using poke_data [OF h'(1), of wg_cok ?a] by (simp add: n_def)
    moreover have "add_waiting_get_connection True ca w = Some (Some ?a, w\<lparr>w_brk := Suc ?a, w_wnodes := h',
        w_waiting_end := (w_waiting_end w)(k := Some ?a)\<rparr>)"
      using cok f(1,2) h'(1) by (auto simp: add_waiting_get_connection_def Let_def n_def)
    ultimately show ?thesis using h'(2) by (simp add: wait_rel_def)
  qed
qed

lemma delete_waiting_rel:
  assumes rel: "wait_rel w Q" and a: "a \<in> set (Q k)"
  shows "\<exists>hd en h. delete_in_waiting_get_connection a w
        = Some (w\<lparr>w_waiting := hd, w_waiting_end := en, w_wnodes := h\<rparr>)
     \<and> wait_rel (w\<lparr>w_waiting := hd, w_waiting_end := en, w_wnodes := h\<rparr>) (Q(k := remove1 a (Q k)))
     \<and> h a = None \<and> (\<forall>b. b \<noteq> a \<longrightarrow> map_option wg_cok (h b) = map_option wg_cok (w_wnodes w b))"
proof -
  note rel = rel [unfolded wait_rel_def]
  obtain n where n: "w_wnodes w a = Some n" "wg_k n = k" using bq_node [OF rel a] by blast
  note ul = wait_dll.bq_unlink [OF rel a n(1)]
  obtain h1 h2 where h: "poke_if (wg_uper n) (wg_next_update (\<lambda>_. wg_next n)) (w_wnodes w) = Some h1"
    "poke_if (wg_next n) (wg_uper_update (\<lambda>_. wg_uper n)) h1 = Some h2"
    "bq wg_next wg_uper wg_k (if wg_uper n = None then (w_waiting w)(k := wg_next n) else w_waiting w)
       (if wg_next n = None then (w_waiting_end w)(k := wg_uper n) else w_waiting_end w)
       (h2(a := None)) (w_brk w) (Q(k := remove1 a (Q k)))"
    using ul(3) by blast
  have data: "map_option wg_cok (h2 b) = map_option wg_cok (w_wnodes w b)" for b
    using poke_if_data [OF h(1), of wg_cok b] poke_if_data [OF h(2), of wg_cok b] by simp
  let ?hd = "if wg_uper n = None then (w_waiting w)(k := wg_next n) else w_waiting w"
    and ?en = "if wg_next n = None then (w_waiting_end w)(k := wg_uper n) else w_waiting_end w"
  have run: "delete_in_waiting_get_connection a w
      = Some (w\<lparr>w_waiting := ?hd, w_waiting_end := ?en, w_wnodes := h2(a := None)\<rparr>)"
    using n h(1,2) ul(1,2) by (simp add: delete_in_waiting_get_connection_def Let_def)
  show ?thesis
    by (intro exI conjI, rule run, unfold wait_rel_def, use h(3) data in simp_all)
qed

interpretation waiting: bucket_queue wait_rel wait_slot "add_waiting_get_connection True"
    delete_in_waiting_get_connection
proof unfold_locales
  fix w Q ca k
  assume "wait_rel w Q" "wait_slot ca w = Some k"
  from add_waiting_rel [OF this] wait_rel_fresh [OF this(1)]
  show "\<exists>a w'. add_waiting_get_connection True ca w = Some (Some a, w') \<and> (\<forall>j. a \<notin> set (Q j))
      \<and> wait_rel w' (Q(k := Q k @ [a])) \<and> (\<forall>y. wait_slot y w' = wait_slot y w)"
    by (auto simp: wait_slot_def)
next
  fix w Q a k
  assume "wait_rel w Q" "a \<in> set (Q k)"
  from delete_waiting_rel [OF this] show "\<exists>w'. delete_in_waiting_get_connection a w = Some w' \<and> wait_rel w' (Q(k := remove1 a (Q k)))
      \<and> (\<forall>y. wait_slot y w' = wait_slot y w)"
    by (auto simp: wait_slot_def)
next
  fix w Q k
  assume "wait_rel w Q"
  then show "distinct (Q k)" unfolding wait_rel_def by (rule bq_distinct)
qed

section \<open>The counters refine a map from keys to counts\<close>

abbreviation ckey :: "(addr \<Rightarrow> counter_node option) \<Rightarrow> addr \<Rightarrow> u64 option" where
  "ckey h a \<equiv> map_option pc_pool_key (h a)"

definition cnt_rel :: "world \<Rightarrow> (nat \<Rightarrow> addr list) \<Rightarrow> bool" where
  "cnt_rel w C \<longleftrightarrow> (\<forall>k.
     dseg pc_next pc_uper (w_cnodes w) None (w_counters w k) (C k)
     \<and> (\<forall>a \<in> set (C k). a < w_brk w \<and> map_option bucket (ckey (w_cnodes w) a) = Some k)
     \<and> distinct (map (ckey (w_cnodes w)) (C k)))"

definition cnt_ok :: "world \<Rightarrow> bool" where
  "cnt_ok w \<longleftrightarrow> (\<exists>C. cnt_rel w C)"

text \<open>The counter of a key as the code finds it; a key without a node counts 0.\<close>

definition counter_of :: "u64 \<Rightarrow> world \<Rightarrow> counter_node option" where
  "counter_of key w = (case find_counter (w_cnodes w) key (w_brk w) None (w_counters w (bucket key)) of
     Some (_, Some a) \<Rightarrow> w_cnodes w a | _ \<Rightarrow> None)"

definition count_of :: "u64 \<Rightarrow> world \<Rightarrow> u64" where
  "count_of key w = (case counter_of key w of None \<Rightarrow> 0 | Some n \<Rightarrow> pc_count n)"

definition size_of :: "u64 \<Rightarrow> world \<Rightarrow> u64" where
  "size_of key w = (case counter_of key w of None \<Rightarrow> 0 | Some n \<Rightarrow> pc_size n)"

lemma find_counter_spec:
  assumes "dseg pc_next pc_uper h v p as" and "length as \<le> f"
  shows "\<exists>u'. find_counter h key f u p = Some (u', find (\<lambda>a. ckey h a = Some key) as)
     \<and> (find (\<lambda>a. ckey h a = Some key) as = None \<longrightarrow> u' = (if as = [] then u else last_ptr as))"
  using assms
proof (induction as arbitrary: v p f u)
  case Nil
  then show ?case by simp
next
  case (Cons a as)
  then obtain n f' where n: "p = Some a" "h a = Some n" "dseg pc_next pc_uper h (Some a) (pc_next n) as"
    and f: "f = Suc f'" "length as \<le> f'" by (cases f) auto
  show ?case
  proof (cases "pc_pool_key n = key")
    case True
    with n f show ?thesis by auto
  next
    case False
    with n f Cons.IH [OF n(3) f(2), of "Some a"] show ?thesis
      by (auto simp: last_ptr_Cons)
  qed
qed

lemma cnt_rel_find:
  assumes "cnt_rel w C"
  shows "\<exists>u'. find_counter (w_cnodes w) key (w_brk w) None (w_counters w (bucket key))
       = Some (u', find (\<lambda>a. ckey (w_cnodes w) a = Some key) (C (bucket key)))
     \<and> (find (\<lambda>a. ckey (w_cnodes w) a = Some key) (C (bucket key)) = None
         \<longrightarrow> u' = last_ptr (C (bucket key)))"
proof -
  have seg: "dseg pc_next pc_uper (w_cnodes w) None (w_counters w (bucket key)) (C (bucket key))"
    and lt: "a \<in> set (C (bucket key)) \<Longrightarrow> a < w_brk w" for a
    using assms by (auto simp: cnt_rel_def)
  have "length (C (bucket key)) \<le> w_brk w" using dseg_length [OF seg lt] .
  from find_counter_spec [OF seg this] show ?thesis by fastforce
qed

lemma find_key_unique:
  "distinct (map (ckey h) as) \<Longrightarrow> a \<in> set as \<Longrightarrow> ckey h a = Some key \<Longrightarrow>
     find (\<lambda>a. ckey h a = Some key) as = Some a"
proof (induction as)
  case Nil
  then show ?case by simp
next
  case (Cons b bs)
  show ?case
  proof (cases "b = a")
    case True
    with Cons.prems show ?thesis by simp
  next
    case False
    with Cons.prems have a: "a \<in> set bs" and "ckey h b \<notin> ckey h ` set bs" by auto
    then have "ckey h b \<noteq> ckey h a" by blast
    with Cons.prems(3) have "ckey h b \<noteq> Some key" by metis
    with Cons.IH [OF _ a Cons.prems(3)] Cons.prems(1) show ?thesis
      by (simp del: map_option_eq_Some)
  qed
qed

lemma counter_of_node:
  assumes "cnt_rel w C" and "a \<in> set (C (bucket key))" and "ckey (w_cnodes w) a = Some key"
  shows "counter_of key w = w_cnodes w a"
proof -
  have "distinct (map (ckey (w_cnodes w)) (C (bucket key)))" using assms(1) by (simp add: cnt_rel_def)
  from find_key_unique [OF this assms(2,3)] cnt_rel_find [OF assms(1), of key] show ?thesis
    by (auto simp: counter_of_def)
qed

lemma counter_of_none:
  assumes "cnt_rel w C" and "\<And>a. a \<in> set (C (bucket key)) \<Longrightarrow> ckey (w_cnodes w) a \<noteq> Some key"
  shows "counter_of key w = None"
proof -
  have "find (\<lambda>a. ckey (w_cnodes w) a = Some key) (C (bucket key)) = None"
    using assms(2) by (simp add: find_None_iff del: map_option_eq_Some)
  with cnt_rel_find [OF assms(1), of key] show ?thesis by (auto simp: counter_of_def)
qed

text \<open>Two states whose counter nodes carry the same data agree on every counter.\<close>

definition cdata :: "counter_node \<Rightarrow> u64 \<times> u64 \<times> u64" where
  "cdata n = (pc_pool_key n, pc_size n, pc_count n)"

text \<open>What looking up the counter of a key does: it finds the node, or appends one with the count 0.\<close>

definition counter_got :: "u64 \<Rightarrow> world \<Rightarrow> (nat \<Rightarrow> addr list) \<Rightarrow> bool" where
  "counter_got key w C = (\<exists>a brk cs h C' n. get_connection_pool_counter key w
        = Some (a, w\<lparr>w_brk := brk, w_counters := cs, w_cnodes := h\<rparr>)
     \<and> cnt_rel (w\<lparr>w_brk := brk, w_counters := cs, w_cnodes := h\<rparr>) C'
     \<and> a \<in> set (C' (bucket key)) \<and> h a = Some n \<and> pc_pool_key n = key \<and> w_brk w \<le> brk
     \<and> pc_count n = count_of key w \<and> pc_size n = size_of key w
     \<and> (\<forall>k. k \<noteq> bucket key \<longrightarrow> C' k = C k)
     \<and> set (C' (bucket key)) = insert a (set (C (bucket key)))
     \<and> (\<forall>k. \<forall>b \<in> set (C k). map_option cdata (h b) = map_option cdata (w_cnodes w b)))"

lemma cnt_relD:
  assumes "cnt_rel w C"
  shows "dseg pc_next pc_uper (w_cnodes w) None (w_counters w k) (C k)"
    "b \<in> set (C k) \<Longrightarrow> b < w_brk w \<and> map_option bucket (ckey (w_cnodes w) b) = Some k"
    "distinct (map (ckey (w_cnodes w)) (C k))" "w_brk w \<notin> set (C k)"
  using assms by (auto simp: cnt_rel_def)

lemma counter_found:
  assumes rel: "cnt_rel w C" and "find (\<lambda>a. ckey (w_cnodes w) a = Some key) (C (bucket key)) = Some a"
  shows "counter_got key w C"
proof -
  have a: "a \<in> set (C (bucket key))" "ckey (w_cnodes w) a = Some key"
    using assms(2) by (auto simp: find_Some_iff simp del: map_option_eq_Some)
  then obtain n where n: "w_cnodes w a = Some n" "pc_pool_key n = key" by auto
  have "get_connection_pool_counter key w = Some (a, w)"
    using cnt_rel_find [OF rel, of key] assms(2) by (auto simp: get_connection_pool_counter_def)
  moreover have "counter_of key w = Some n" using counter_of_node [OF rel a] n by simp
  ultimately show ?thesis using rel a n unfolding counter_got_def
    by (intro exI [of _ a] exI [of _ "w_brk w"] exI [of _ "w_counters w"] exI [of _ "w_cnodes w"]
        exI [of _ C] exI [of _ n]) (auto simp: count_of_def size_of_def)
qed

lemma counter_first:
  assumes rel: "cnt_rel w C" and empty: "C (bucket key) = []"
  shows "counter_got key w C"
proof -
  let ?k = "bucket key" and ?a = "w_brk w"
  define node where "node = \<lparr>pc_size = 0, pc_count = 0, pc_pool_key = key, pc_next = None, pc_uper = None\<rparr>"
  let ?cs = "(w_counters w)(?k := Some ?a)" and ?h = "(w_cnodes w)(?a \<mapsto> node)"
  note d = cnt_relD [OF rel]
  have "w_counters w ?k = None" using d(1) [of ?k] empty by simp
  then have run: "get_connection_pool_counter key w = Some (?a, w\<lparr>w_brk := Suc ?a, w_counters := ?cs, w_cnodes := ?h\<rparr>)"
    using cnt_rel_find [OF rel, of key] empty by (auto simp: get_connection_pool_counter_def Let_def node_def)
  have same: "map (ckey ?h) (C k) = map (ckey (w_cnodes w)) (C k)" for k
    using d(4) [of k] by (intro map_cong) auto
  have "distinct (map (ckey ?h) (C k))" for k unfolding same by (rule d(3))
  then have rel': "cnt_rel (w\<lparr>w_brk := Suc ?a, w_counters := ?cs, w_cnodes := ?h\<rparr>) (C(?k := [?a]))"
    using empty d(1,2,4) by (auto simp: cnt_rel_def node_def less_Suc_eq simp del: map_option_eq_Some)
  have none: "counter_of key w = None" by (rule counter_of_none [OF rel]) (simp add: empty)
  show ?thesis unfolding counter_got_def
    by (intro exI conjI, rule run, rule rel')
      (use empty d(4) none in \<open>auto simp: node_def count_of_def size_of_def\<close>)
qed

text \<open>A new node behind the last one of a chain keeps the relation.\<close>

lemma cnt_rel_append:
  assumes rel: "cnt_rel w C" and ne: "C (bucket key) \<noteq> []" and node: "pc_pool_key node = key"
    and absent: "\<And>b. b \<in> set (C (bucket key)) \<Longrightarrow> ckey (w_cnodes w) b \<noteq> Some key"
    and h: "poke (last (C (bucket key))) (pc_next_update (\<lambda>_. Some (w_brk w))) ((w_cnodes w)(w_brk w \<mapsto> node)) = Some h"
    and seg: "dseg pc_next pc_uper h None (w_counters w (bucket key)) (C (bucket key) @ [w_brk w])"
  shows "cnt_rel (w\<lparr>w_brk := Suc (w_brk w), w_counters := w_counters w, w_cnodes := h\<rparr>)
    (C(bucket key := C (bucket key) @ [w_brk w]))"
proof -
  let ?k = "bucket key" and ?a = "w_brk w"
  note d = cnt_relD [OF rel]
  have keys: "ckey h b = ckey ((w_cnodes w)(?a \<mapsto> node)) b" for b by (rule poke_data [OF h]) simp
  have keys': "b \<in> set (C k) \<Longrightarrow> ckey h b = ckey (w_cnodes w) b" for b k
    using keys [of b] d(4) [of k] by (auto simp del: map_option_eq_Some)
  have lst: "last (C ?k) \<in> set (C ?k)" using ne by simp
  have seg': "dseg pc_next pc_uper h None (w_counters w k) (C k)" if "k \<noteq> ?k" for k
  proof -
    have "b \<noteq> last (C ?k) \<and> b \<noteq> ?a" if "b \<in> set (C k)" for b
      using d(2) [OF that] d(2) [OF lst] \<open>k \<noteq> ?k\<close> by auto
    then show ?thesis
      using d(1) [of k] poke_other [OF h] by (subst dseg_cong [of "C k" h "w_cnodes w"]) auto
  qed
  have new: "ckey h ?a = Some key" using keys [of ?a] node by simp
  have notin: "Some key \<notin> ckey h ` set (C ?k)"
  proof
    assume "Some key \<in> ckey h ` set (C ?k)"
    then obtain b where "b \<in> set (C ?k)" "Some key = ckey h b" by (rule imageE)
    with absent [of b] keys' [of b ?k] show False by metis
  qed
  have dist0: "distinct (map (ckey h) (C k))" for k
    using d(3) [of k] keys' [of _ k] by (simp cong: map_cong)
  have dist: "distinct (map (ckey h) (if k = ?k then C k @ [?a] else C k))" for k
    using new notin dist0 [of k] dist0 [of ?k] by (simp del: map_option_eq_Some)
  have at: "b \<in> set (if k = ?k then C k @ [?a] else C k) \<Longrightarrow> b < Suc ?a \<and> map_option bucket (ckey h b) = Some k" for b k
    using d(2) [of b k] keys' [of b k] new by (auto simp: less_Suc_eq split: if_splits)
  show ?thesis
    unfolding cnt_rel_def
  proof (intro allI, goal_cases)
    case (1 k)
    show ?case using seg seg' [of k] dist [of k] at [of _ k]
      by (cases "k = ?k") (simp_all del: map_option_eq_Some)
  qed
qed

lemma counter_appended:
  assumes rel: "cnt_rel w C" and ne: "C (bucket key) \<noteq> []"
    and none: "find (\<lambda>a. ckey (w_cnodes w) a = Some key) (C (bucket key)) = None"
  shows "counter_got key w C"
proof -
  let ?k = "bucket key" and ?a = "w_brk w"
  define node where "node = \<lparr>pc_size = 0, pc_count = 0, pc_pool_key = key, pc_next = None, pc_uper = last_ptr (C ?k)\<rparr>"
  note d = cnt_relD [OF rel]
  have absent: "b \<in> set (C ?k) \<Longrightarrow> ckey (w_cnodes w) b \<noteq> Some key" for b
    using none by (auto simp: find_None_iff simp del: map_option_eq_Some)
  obtain h where h: "poke (last (C ?k)) (pc_next_update (\<lambda>_. Some ?a)) ((w_cnodes w)(?a \<mapsto> node)) = Some h"
    "dseg pc_next pc_uper h None (w_counters w ?k) (C ?k @ [?a])"
    using counter_dll.append_dseg [OF d(1) [of ?k] ne d(4), of node] by (auto simp: node_def)
  have data: "map_option cdata (h b) = map_option cdata (((w_cnodes w)(?a \<mapsto> node)) b)" for b
    by (rule poke_data [OF h(1)]) (simp add: cdata_def)
  have "?a \<noteq> last (C ?k)" using d(4) [of ?k] ne by (metis last_in_set)
  then have at: "h ?a = Some node" using poke_other [OF h(1)] by auto
  have "w_counters w ?k \<noteq> None" using d(1) [of ?k] ne by (cases "C ?k") auto
  then have run: "get_connection_pool_counter key w
      = Some (?a, w\<lparr>w_brk := Suc ?a, w_counters := w_counters w, w_cnodes := h\<rparr>)"
    using cnt_rel_find [OF rel, of key] none h(1) ne
    by (auto simp: get_connection_pool_counter_def Let_def node_def last_ptr_def)
  have rel': "cnt_rel (w\<lparr>w_brk := Suc ?a, w_counters := w_counters w, w_cnodes := h\<rparr>) (C(?k := C ?k @ [?a]))"
    by (rule cnt_rel_append [OF rel ne _ absent h]) (simp_all add: node_def)
  have no: "counter_of key w = None" using counter_of_none [OF rel absent] .
  show ?thesis unfolding counter_got_def
    by (intro exI conjI, rule run, rule rel', simp, rule at)
      (use ne no d(4) data in \<open>auto simp: node_def count_of_def size_of_def simp del: map_option_eq_Some\<close>)
qed

lemma get_counter_rel: "cnt_rel w C \<Longrightarrow> counter_got key w C"
  using counter_found counter_first counter_appended
  by (cases "find (\<lambda>a. ckey (w_cnodes w) a = Some key) (C (bucket key))") blast+

text \<open>Writing the count of one node changes no chain and no other counter.\<close>

lemma cnt_rel_set_count:
  fixes c sz :: u64
  assumes rel: "cnt_rel w C" and a: "a \<in> set (C (bucket key))" and n: "w_cnodes w a = Some n"
    and key: "pc_pool_key n = key"
  defines "w' \<equiv> w\<lparr>w_cnodes := (w_cnodes w)(a \<mapsto> n\<lparr>pc_count := c, pc_size := sz\<rparr>)\<rparr>"
  shows "cnt_rel w' C" and "counter_of key w' = Some (n\<lparr>pc_count := c, pc_size := sz\<rparr>)"
    and "key' \<noteq> key \<Longrightarrow> counter_of key' w' = counter_of key' w"
proof -
  have dseg': "dseg pc_next pc_uper (w_cnodes w') u p as = dseg pc_next pc_uper (w_cnodes w) u p as" for u p as
    using n by (induction as arbitrary: u p) (auto simp: w'_def)
  have keys: "ckey (w_cnodes w') b = ckey (w_cnodes w) b" for b
    using n by (simp add: w'_def)
  show rel': "cnt_rel w' C"
    using rel unfolding cnt_rel_def dseg' keys by (simp add: w'_def)
  have "counter_of key w' = w_cnodes w' a"
    by (rule counter_of_node [OF rel' a]) (use n key in \<open>simp add: w'_def\<close>)
  then show "counter_of key w' = Some (n\<lparr>pc_count := c, pc_size := sz\<rparr>)" by (simp add: w'_def)
  assume ne: "key' \<noteq> key"
  show "counter_of key' w' = counter_of key' w"
  proof (cases "\<exists>b \<in> set (C (bucket key')). ckey (w_cnodes w) b = Some key'")
    case True
    then obtain b where b: "b \<in> set (C (bucket key'))" "ckey (w_cnodes w) b = Some key'" by blast
    then have "b \<noteq> a" using n key ne by auto
    have "counter_of key' w = w_cnodes w b" by (rule counter_of_node [OF rel b])
    moreover have "counter_of key' w' = w_cnodes w' b"
      by (rule counter_of_node [OF rel' b(1)]) (use b keys in metis)
    ultimately show ?thesis using \<open>b \<noteq> a\<close> by (simp add: w'_def)
  next
    case False
    have "counter_of key' w = None" by (rule counter_of_none [OF rel]) (use False in blast)
    moreover have "counter_of key' w' = None"
      by (rule counter_of_none [OF rel']) (use False keys in metis)
    ultimately show ?thesis by simp
  qed
qed

text \<open>Finding or creating the counter of a key leaves the value of every counter as it was.\<close>

lemma get_counter_counts:
  assumes ok: "cnt_ok w"
  shows "\<exists>a brk cs h n. get_connection_pool_counter key w
        = Some (a, w\<lparr>w_brk := brk, w_counters := cs, w_cnodes := h\<rparr>)
     \<and> (\<exists>C. cnt_rel (w\<lparr>w_brk := brk, w_counters := cs, w_cnodes := h\<rparr>) C \<and> a \<in> set (C (bucket key)))
     \<and> w_brk w \<le> brk \<and> h a = Some n \<and> pc_pool_key n = key \<and> pc_count n = count_of key w \<and> pc_size n = size_of key w
     \<and> counter_of key (w\<lparr>w_brk := brk, w_counters := cs, w_cnodes := h\<rparr>) = Some n
     \<and> (\<forall>key'. count_of key' (w\<lparr>w_brk := brk, w_counters := cs, w_cnodes := h\<rparr>) = count_of key' w
            \<and> size_of key' (w\<lparr>w_brk := brk, w_counters := cs, w_cnodes := h\<rparr>) = size_of key' w)"
proof -
  obtain C where rel: "cnt_rel w C" using ok by (auto simp: cnt_ok_def)
  obtain a brk cs h C' n where g: "get_connection_pool_counter key w
        = Some (a, w\<lparr>w_brk := brk, w_counters := cs, w_cnodes := h\<rparr>)"
    and rel': "cnt_rel (w\<lparr>w_brk := brk, w_counters := cs, w_cnodes := h\<rparr>) C'"
    and a: "a \<in> set (C' (bucket key))" "h a = Some n" "pc_pool_key n = key"
    and brk: "w_brk w \<le> brk" and cnt: "pc_count n = count_of key w" "pc_size n = size_of key w"
    and C': "\<And>k. k \<noteq> bucket key \<Longrightarrow> C' k = C k" "set (C' (bucket key)) = insert a (set (C (bucket key)))"
    and data: "\<And>k b. b \<in> set (C k) \<Longrightarrow> map_option cdata (h b) = map_option cdata (w_cnodes w b)"
    using get_counter_rel [OF rel, of key] by (auto simp: counter_got_def)
  let ?w' = "w\<lparr>w_brk := brk, w_counters := cs, w_cnodes := h\<rparr>"
  have self: "counter_of key ?w' = Some n"
    using counter_of_node [OF rel' a(1)] a by simp
  have keys: "ckey h b = ckey (w_cnodes w) b" if "b \<in> set (C k)" for b k
    using data [OF that] by (cases "h b"; cases "w_cnodes w b") (auto simp: cdata_def)
  have "count_of key' ?w' = count_of key' w \<and> size_of key' ?w' = size_of key' w" for key'
  proof (cases "key' = key")
    case True
    with self cnt show ?thesis by (simp add: count_of_def size_of_def)
  next
    case False
    have set: "b \<in> set (C' (bucket key')) \<longleftrightarrow> b \<in> set (C (bucket key'))" if "ckey h b = Some key'" for b
      using C' that a False by (cases "bucket key' = bucket key") auto
    show ?thesis
    proof (cases "\<exists>b \<in> set (C (bucket key')). ckey (w_cnodes w) b = Some key'")
      case True
      then obtain b where b: "b \<in> set (C (bucket key'))" "ckey (w_cnodes w) b = Some key'" by blast
      then have b': "ckey h b = Some key'" using keys by metis
      have "counter_of key' w = w_cnodes w b" by (rule counter_of_node [OF rel b])
      moreover have "counter_of key' ?w' = h b"
        using counter_of_node [OF rel', of b key'] b b' set by simp
      ultimately show ?thesis using data [OF b(1)]
        by (cases "h b"; cases "w_cnodes w b") (auto simp: count_of_def size_of_def cdata_def)
    next
      case none: False
      have "counter_of key' w = None" by (rule counter_of_none [OF rel]) (use none in blast)
      moreover have "ckey h b \<noteq> Some key'" if "b \<in> set (C' (bucket key'))" for b
        using none set [of b] keys [of b] that by metis
      then have "counter_of key' ?w' = None" using counter_of_none [OF rel', of key'] by simp
      ultimately show ?thesis by (simp add: count_of_def size_of_def)
    qed
  qed
  with g rel' a brk cnt self show ?thesis
    by (intro exI [of _ a] exI [of _ brk] exI [of _ cs] exI [of _ h] exI [of _ n])
      blast
qed

lemma counter_operate_ok:
  assumes ok: "cnt_ok w"
  shows "\<exists>brk cs h. connection_pool_counter_operate key d w
        = Some (w\<lparr>w_brk := brk, w_counters := cs, w_cnodes := h\<rparr>)
     \<and> w_brk w \<le> brk \<and> cnt_ok (w\<lparr>w_brk := brk, w_counters := cs, w_cnodes := h\<rparr>)
     \<and> (\<forall>key'. count_of key' (w\<lparr>w_brk := brk, w_counters := cs, w_cnodes := h\<rparr>)
             = (if key' = key \<and> key \<noteq> 0 then count_of key' w + word_of_int d else count_of key' w))"
proof (cases "key = 0")
  case True
  with ok show ?thesis
    by (intro exI [of _ "w_brk w"] exI [of _ "w_counters w"] exI [of _ "w_cnodes w"])
      (auto simp: connection_pool_counter_operate_def)
next
  case False
  then have nz: "\<not> key < 1" by (simp add: word_less_nat_alt unat_eq_0)
  obtain a brk cs h n C where g: "get_connection_pool_counter key w
        = Some (a, w\<lparr>w_brk := brk, w_counters := cs, w_cnodes := h\<rparr>)"
    and rel: "cnt_rel (w\<lparr>w_brk := brk, w_counters := cs, w_cnodes := h\<rparr>) C"
    and a: "a \<in> set (C (bucket key))" and brk: "w_brk w \<le> brk"
    and n: "h a = Some n" "pc_pool_key n = key" "pc_count n = count_of key w"
    and same: "\<And>key'. count_of key' (w\<lparr>w_brk := brk, w_counters := cs, w_cnodes := h\<rparr>) = count_of key' w"
    using get_counter_counts [OF ok, of key] by blast
  let ?h = "h(a \<mapsto> n\<lparr>pc_count := pc_count n + word_of_int d\<rparr>)"
  have run: "connection_pool_counter_operate key d w
      = Some (w\<lparr>w_brk := brk, w_counters := cs, w_cnodes := ?h\<rparr>)"
    using nz g n by (simp add: connection_pool_counter_operate_def poke_def)
  let ?w1 = "w\<lparr>w_brk := brk, w_counters := cs, w_cnodes := h\<rparr>"
    and ?w' = "w\<lparr>w_brk := brk, w_counters := cs, w_cnodes := ?h\<rparr>"
  have rel': "cnt_rel ?w' C"
    and self: "counter_of key ?w' = Some (n\<lparr>pc_count := pc_count n + word_of_int d\<rparr>)"
    using cnt_rel_set_count(1,2) [OF rel a, where n = n and c = "pc_count n + word_of_int d" and sz = "pc_size n"]
      n(1,2) by simp_all
  have other: "counter_of key' ?w' = counter_of key' ?w1" if "key' \<noteq> key" for key'
    using cnt_rel_set_count(3) [OF rel a, where n = n and c = "pc_count n + word_of_int d" and sz = "pc_size n"]
      n(1,2) that by simp
  have "count_of key' ?w' = (if key' = key \<and> key \<noteq> 0 then count_of key' w + word_of_int d else count_of key' w)"
    for key'
  proof (cases "key' = key")
    case True
    have "count_of key ?w' = pc_count n + word_of_int d" unfolding count_of_def self by simp
    with True n(3) False show ?thesis by simp
  next
    case ne: False
    then show ?thesis using other [OF ne] same [of key'] by (simp add: count_of_def)
  qed
  then show ?thesis
    by (intro exI [of _ brk] exI [of _ cs] exI [of _ ?h] conjI run brk)
      (use rel' in \<open>auto simp: cnt_ok_def\<close>)
qed

text \<open>
  The contract the handlers rely on: a counter per key, changed only by the operation on that
  key. Its client lemma: opening and closing the same connection leaves every counter as it was.
\<close>

locale key_counters =
  fixes ok :: "'s \<Rightarrow> bool" and val :: "'k \<Rightarrow> 's \<Rightarrow> 'v :: ring_1"
    and operate :: "'k \<Rightarrow> int \<Rightarrow> 's \<Rightarrow> 's option" and counted :: "'k \<Rightarrow> bool"
  assumes operate_law: "ok s \<Longrightarrow> \<exists>s'. operate k d s = Some s' \<and> ok s' \<and>
      (\<forall>j. val j s' = (if j = k \<and> counted k then val j s + of_int d else val j s))"
begin

lemma open_close:
  assumes "ok s"
  shows "\<exists>s' s''. operate k 1 s = Some s' \<and> operate k (- 1) s' = Some s'' \<and> ok s''
     \<and> (\<forall>j. val j s'' = val j s)"
proof -
  obtain s' where s': "operate k 1 s = Some s'" "ok s'"
    "\<forall>j. val j s' = (if j = k \<and> counted k then val j s + of_int 1 else val j s)"
    using operate_law [OF assms] by blast
  obtain s'' where s'': "operate k (- 1) s' = Some s''" "ok s''"
    "\<forall>j. val j s'' = (if j = k \<and> counted k then val j s' + of_int (- 1) else val j s')"
    using operate_law [OF s'(2)] by blast
  from s' s'' show ?thesis by auto
qed

end

interpretation counters: key_counters cnt_ok count_of connection_pool_counter_operate "\<lambda>k. k \<noteq> 0"
proof unfold_locales
  fix w k d
  assume "cnt_ok w"
  from counter_operate_ok [OF this, of k d]
  show "\<exists>w'. connection_pool_counter_operate k d w = Some w' \<and> cnt_ok w' \<and>
      (\<forall>j. count_of j w' = (if j = k \<and> k \<noteq> 0 then count_of j w + of_int d else count_of j w))"
    by blast
qed

end
