(* ===== verification/Read_Buf.thy ===== *)
theory Read_Buf
  imports Co_State
begin

text \<open>
  The read buffer of a socket (\<open>coevent.c\<close>): a chain of 4096-byte links filled by the
  receive loop of \<open>cosocket_be_read\<close> and emptied by \<open>lua_co_read_\<close>. The abstract view is
  one byte stream, the concatenation of the links: receiving appends to it, a read takes a
  line, a number of bytes or everything off its front.
\<close>

section \<open>Taking data out: lua_co_read_\<close>

text \<open>
  The scan for a line end: \<open>oi\<close> bytes are in the links passed already; the result is the
  number of bytes up to and including the first line feed.
\<close>

definition line_index :: "bytes \<Rightarrow> nat" where
  "line_index b = length (takeWhile (\<lambda>c. c \<noteq> LF) b)"

fun scan_line :: "link_buf list \<Rightarrow> nat \<Rightarrow> nat option" where
  "scan_line [] oi = None"
| "scan_line (b # bs) oi =
     (if line_index (lb_buf b) < length (lb_buf b) then Some (line_index (lb_buf b) + oi + 1)
      else scan_line bs (oi + line_index (lb_buf b)))"

text \<open>
  The copy loop: \<open>acc\<close> is what is in \<open>buf2lua\<close> already, \<open>n\<close> the number of bytes wanted.
  The first component is the filled buffer, or \<open>None\<close> when the chain ends first.
\<close>

fun copy_out :: "nat \<Rightarrow> bytes \<Rightarrow> ptr \<Rightarrow> link_buf list \<Rightarrow> bytes option \<times> ptr \<times> link_buf list" where
  "copy_out n acc lst [] = (None, lst, [])"
| "copy_out n acc lst (b # bs) =
     (let this = (if length (lb_buf b) + length acc > n then n - length acc
                  else length (lb_buf b));
          acc' = acc @ take this (lb_buf b);
          b' = b\<lparr>lb_buf := drop this (lb_buf b)\<rparr>
      in if length acc' \<ge> n then (Some acc', lst, b' # bs)
         else if lst = Some (lb_addr b) then (None, None, [])
         else copy_out n acc' lst bs)"

text \<open>
  Cutting the line end. \<open>junk\<close> is the byte in front of the allocated buffer: after an empty
  line the code reads it as \<open>buf2lua[-1]\<close>; if it is a carriage return the length wraps
  around and the result is undefined (\<open>None\<close>).
\<close>

definition cut_line :: "char \<Rightarrow> bytes \<Rightarrow> bytes option" where
  "cut_line junk buf =
     (let be = length buf;
          be = (if buf ! (be - 1) = LF then be - 1 else be);
          c = (if be = 0 then junk else buf ! (be - 1))
      in if c = CR then (if be = 0 then None else Some (take (be - 1) buf))
         else Some (take be buf))"

text \<open>
  \<open>lua_co_read_\<close>: the values pushed (as many as the C function returns) and the socket
  afterwards; \<open>lua_co_popen_read_\<close> is the same text.
\<close>

definition lua_co_read_buf :: "char \<Rightarrow> cosocket \<Rightarrow> (lua_value list \<times> cosocket) option" where
  "lua_co_read_buf junk cok =
     (if ck_total_buf_len cok < 1 then
        Some (if ck_status cok = 0 then [LNil, lstr ''Not connected!''] else [], cok)
      else
        let brl = ck_buf_read_len cok;
            line = (if brl = - 1 then scan_line (ck_read_buf cok) 0 else None)
        in if brl = - 1 \<and> line = None then Some ([], cok)
        else
          let be_copy = (if brl = - 1 then word_of_int (c_int (int (the line)))
                         else if brl = - 2 then ck_total_buf_len cok else brl);
              be_copy = (if ck_status cok = 0 \<and> be_copy > ck_total_buf_len cok
                         then ck_total_buf_len cok else be_copy)
          in if be_copy > 0 \<and> ck_total_buf_len cok \<ge> be_copy then
               (case copy_out (unat be_copy) [] (ck_last_buf cok) (ck_read_buf cok) of
                  (None, lst, bufs) \<Rightarrow>
                    Some ([], cok\<lparr>ck_read_buf := bufs, ck_last_buf := lst\<rparr>)
                | (Some buf, lst, bufs) \<Rightarrow>
                    map_option (\<lambda>s. ([LString s],
                        cok\<lparr>ck_read_buf := bufs, ck_last_buf := lst,
                            ck_total_buf_len := ck_total_buf_len cok - word_of_nat (length buf)\<rparr>))
                      (if brl = - 1 then cut_line junk buf else Some buf))
             else Some ([], cok))"

definition lua_co_popen_read_buf :: "char \<Rightarrow> cosocket \<Rightarrow> (lua_value list \<times> cosocket) option" where
  "lua_co_popen_read_buf junk cok = lua_co_read_buf junk cok"

section \<open>Filling the buffer: the receive loop of cosocket_be_read\<close>

text \<open>
  What ends the loop: nothing more for now (\<open>EAGAIN\<close>), end of file (\<open>n == 0\<close>) or another
  error. The data that arrives is a list of segments: one \<open>recv\<close> (or \<open>SSL_read\<close>, or
  \<open>read\<close> of a pipe) returns at most as many bytes of the current segment as fit.
\<close>

datatype io_end = IO_again | IO_eof | IO_err

definition new_link :: "addr \<Rightarrow> link_buf" where
  "new_link a = \<lparr>lb_addr = a, lb_buf = [], lb_size = 4096\<rparr>"

definition find_link :: "ptr \<Rightarrow> link_buf list \<Rightarrow> link_buf option" where
  "find_link p bufs = (case p of None \<Rightarrow> None | Some l \<Rightarrow> find (\<lambda>b. lb_addr b = l) bufs)"

text \<open>\<open>last_buf->next = nbuf\<close>.\<close>

fun link_after :: "addr \<Rightarrow> link_buf \<Rightarrow> link_buf list \<Rightarrow> link_buf list" where
  "link_after l nbuf [] = []"
| "link_after l nbuf (b # bs) = (if lb_addr b = l then [b, nbuf] else b # link_after l nbuf bs)"

text \<open>The label \<open>init_read_buf\<close>: a new link when there is none or the last one is full.\<close>

definition init_read_buf :: "addr \<Rightarrow> cosocket \<Rightarrow> (addr \<times> cosocket) option" where
  "init_read_buf brk cok =
     (if ck_read_buf cok = [] then
        Some (Suc brk, cok\<lparr>ck_read_buf := [new_link brk], ck_last_buf := Some brk\<rparr>)
      else case find_link (ck_last_buf cok) (ck_read_buf cok) of
        None \<Rightarrow> None
      | Some b \<Rightarrow>
          if length (lb_buf b) \<ge> lb_size b then
            Some (Suc brk, cok\<lparr>ck_read_buf := link_after (lb_addr b) (new_link brk) (ck_read_buf cok),
                               ck_last_buf := Some brk\<rparr>)
          else Some (brk, cok))"

definition store_last :: "addr \<Rightarrow> bytes \<Rightarrow> cosocket \<Rightarrow> cosocket" where
  "store_last l got cok =
     cok\<lparr>ck_read_buf := map (\<lambda>b. if lb_addr b = l then b\<lparr>lb_buf := lb_buf b @ got\<rparr> else b)
                          (ck_read_buf cok),
         ck_total_buf_len := ck_total_buf_len cok + word_of_nat (length got)\<rparr>"

function recv_loop :: "io_end \<Rightarrow> bytes list \<Rightarrow> addr \<Rightarrow> cosocket \<Rightarrow> (io_end \<times> addr \<times> cosocket) option" where
  "recv_loop fin [] brk cok = Some (fin, brk, cok)"
| "recv_loop fin (s # ss) brk cok =
     (if s = [] then recv_loop fin ss brk cok
      else case find_link (ck_last_buf cok) (ck_read_buf cok) of
        None \<Rightarrow> None
      | Some b \<Rightarrow>
          let cap = lb_size b - length (lb_buf b);
              got = take cap s;
              cok' = store_last (lb_addr b) got cok
          in if cap = 0 then Some (IO_eof, brk, cok)
             else if length (lb_buf b) + length got \<ge> lb_size b then
               (case init_read_buf brk cok' of
                  None \<Rightarrow> None
                | Some (brk', cok'') \<Rightarrow> recv_loop fin (drop cap s # ss) brk' cok'')
             else recv_loop fin (drop cap s # ss) brk cok')"
  by pat_completeness auto
termination
  by (relation "measures [\<lambda>(fin, ss, brk, cok). length (concat ss), \<lambda>(fin, ss, brk, cok). length ss]")
     auto

definition fill_buf :: "io_end \<Rightarrow> bytes list \<Rightarrow> addr \<Rightarrow> cosocket \<Rightarrow> (io_end \<times> addr \<times> cosocket) option" where
  "fill_buf fin segs brk cok =
     (case init_read_buf brk cok of None \<Rightarrow> None | Some (brk', cok') \<Rightarrow> recv_loop fin segs brk' cok')"

section \<open>The abstract stream\<close>

definition stream :: "cosocket \<Rightarrow> bytes" where
  "stream cok = concat (map lb_buf (ck_read_buf cok))"

text \<open>
  The invariant of the chain: distinct links, \<open>last_buf\<close> points to the last one, no link
  overflows, and \<open>total_buf_len\<close> is the number of buffered bytes, which an \<open>int\<close> can hold.
\<close>

definition chain_ok :: "ptr \<Rightarrow> link_buf list \<Rightarrow> bool" where
  "chain_ok lst bufs \<longleftrightarrow> distinct (map lb_addr bufs)
     \<and> (bufs \<noteq> [] \<longrightarrow> lst = Some (lb_addr (last bufs)))
     \<and> (\<forall>b \<in> set bufs. length (lb_buf b) \<le> lb_size b)"

definition rb_ok :: "cosocket \<Rightarrow> bool" where
  "rb_ok cok \<longleftrightarrow> chain_ok (ck_last_buf cok) (ck_read_buf cok)
     \<and> unat (ck_total_buf_len cok) = length (stream cok) \<and> length (stream cok) < 2 ^ 31 - 1"

text \<open>
  What a read promises, on the stream alone. A line is what precedes the first line feed,
  less one carriage return; after the peer closed (\<open>eof\<close>) a counted read returns what is
  left. The result is \<open>None\<close> when the reader has to wait.
\<close>

datatype read_mode = ReadLine | ReadAll | ReadN nat

definition chop_cr :: "bytes \<Rightarrow> bytes" where
  "chop_cr l = (if l \<noteq> [] \<and> last l = CR then butlast l else l)"

definition read_spec :: "read_mode \<Rightarrow> bool \<Rightarrow> bytes \<Rightarrow> (bytes \<times> bytes) option" where
  "read_spec m eof s = (case m of
     ReadLine \<Rightarrow> (if LF \<in> set s then Some (chop_cr (takeWhile (\<lambda>c. c \<noteq> LF) s),
                                            tl (dropWhile (\<lambda>c. c \<noteq> LF) s)) else None)
   | ReadAll \<Rightarrow> (if s = [] then None else Some (s, []))
   | ReadN n \<Rightarrow> (if n = 0 \<or> s = [] then None
                 else if n \<le> length s then Some (take n s, drop n s)
                 else if eof then Some (s, []) else None))"

definition mode_of :: "cosocket \<Rightarrow> read_mode" where
  "mode_of cok = (if ck_buf_read_len cok = - 1 then ReadLine
     else if ck_buf_read_len cok = - 2 then ReadAll else ReadN (unat (ck_buf_read_len cok)))"

section \<open>Lemmas\<close>

lemma scan_line_stream:
  "scan_line bufs oi =
     (let s = concat (map lb_buf bufs) in
      if LF \<in> set s then Some (length (takeWhile (\<lambda>c. c \<noteq> LF) s) + oi + 1) else None)"
proof (induction bufs arbitrary: oi)
  case Nil
  then show ?case by simp
next
  case (Cons b bs)
  show ?case
  proof (cases "LF \<in> set (lb_buf b)")
    case True
    then have "takeWhile (\<lambda>c. c \<noteq> LF) (lb_buf b @ concat (map lb_buf bs))
        = takeWhile (\<lambda>c. c \<noteq> LF) (lb_buf b)"
      by (auto intro: takeWhile_append1)
    with True show ?thesis
      using length_takeWhile_less [of LF "lb_buf b" "\<lambda>c. c \<noteq> LF"]
      by (simp add: line_index_def Let_def)
  next
    case False
    then have all: "takeWhile (\<lambda>c. c \<noteq> LF) (lb_buf b @ ys) = lb_buf b @ takeWhile (\<lambda>c. c \<noteq> LF) ys"
      for ys by (intro takeWhile_append2) auto
    from all [of "[]"] have "line_index (lb_buf b) = length (lb_buf b)"
      unfolding line_index_def by (simp only: append_Nil2 takeWhile.simps)
    with False Cons.IH [of "oi + length (lb_buf b)"] show ?thesis
      by (simp add: Let_def all)
  qed
qed

lemma scan_line_cok:
  "scan_line (ck_read_buf cok) 0 =
     (if LF \<in> set (stream cok) then Some (Suc (length (takeWhile (\<lambda>c. c \<noteq> LF) (stream cok)))) else None)"
  unfolding scan_line_stream stream_def Let_def by simp

lemma chain_ok_Cons:
  "chain_ok lst (b # bs) \<longleftrightarrow> lb_addr b \<notin> lb_addr ` set bs \<and> length (lb_buf b) \<le> lb_size b
     \<and> chain_ok lst bs \<and> (bs = [] \<longrightarrow> lst = Some (lb_addr b))"
  by (auto simp: chain_ok_def)

text \<open>The copy loop takes exactly the front of the stream and keeps the chain in order.\<close>

lemma copy_out_stream:
  assumes "chain_ok lst bufs" and "length acc < n"
    and "n \<le> length acc + length (concat (map lb_buf bufs))"
  shows "\<exists>bufs'. copy_out n acc lst bufs
            = (Some (acc @ take (n - length acc) (concat (map lb_buf bufs))), lst, bufs')
          \<and> concat (map lb_buf bufs') = drop (n - length acc) (concat (map lb_buf bufs))
          \<and> chain_ok lst bufs'"
  using assms
proof (induction bufs arbitrary: acc)
  case Nil
  then show ?case by simp
next
  case (Cons b bs)
  show ?case
  proof (cases "n \<le> length acc + length (lb_buf b)")
    case True
    with Cons.prems show ?thesis
      by (auto simp: Let_def chain_ok_Cons intro!: exI)
  next
    case False
    with Cons.prems have "bs \<noteq> []" by auto
    then have mem: "lb_addr (last bs) \<in> lb_addr ` set bs" by simp
    from Cons.prems(1) \<open>bs \<noteq> []\<close> have ok: "chain_ok lst bs"
      and "lst = Some (lb_addr (last bs))" and "lb_addr b \<notin> lb_addr ` set bs"
      by (auto simp: chain_ok_def)
    with mem have "lst \<noteq> Some (lb_addr b)" by (metis option.inject)
    moreover have "\<exists>bufs'. copy_out n (acc @ lb_buf b) lst bs
            = (Some ((acc @ lb_buf b) @ take (n - length (acc @ lb_buf b)) (concat (map lb_buf bs))),
               lst, bufs')
          \<and> concat (map lb_buf bufs') = drop (n - length (acc @ lb_buf b)) (concat (map lb_buf bs))
          \<and> chain_ok lst bufs'"
      by (rule Cons.IH) (use False Cons.prems ok in auto)
    ultimately show ?thesis using False by (auto simp: Let_def)
  qed
qed

text \<open>Cutting the line end off a line taken with its line feed.\<close>

lemma cut_line_eq:
  assumes "junk \<noteq> CR"
  shows "cut_line junk (l @ [LF]) = Some (chop_cr l)"
  using assms by (cases l rule: rev_cases)
    (auto simp: cut_line_def chop_cr_def Let_def nth_append)

text \<open>Taking \<open>n\<close> buffered bytes: the stream loses its front, the invariant is kept.\<close>

lemma take_bytes:
  assumes ok: "rb_ok cok" and n: "0 < n" "n \<le> length (stream cok)"
  shows "\<exists>bufs'. copy_out n [] (ck_last_buf cok) (ck_read_buf cok)
            = (Some (take n (stream cok)), ck_last_buf cok, bufs')
          \<and> (\<forall>cok'. cok' = cok\<lparr>ck_read_buf := bufs', ck_last_buf := ck_last_buf cok,
                    ck_total_buf_len := ck_total_buf_len cok - word_of_nat n\<rparr>
               \<longrightarrow> stream cok' = drop n (stream cok) \<and> rb_ok cok')"
proof -
  from ok have chain: "chain_ok (ck_last_buf cok) (ck_read_buf cok)"
    and total: "unat (ck_total_buf_len cok) = length (stream cok)"
    and small: "length (stream cok) < 2 ^ 31 - 1"
    by (auto simp: rb_ok_def)
  obtain bufs' where copy: "copy_out n [] (ck_last_buf cok) (ck_read_buf cok)
            = (Some (take n (stream cok)), ck_last_buf cok, bufs')"
    and rest: "concat (map lb_buf bufs') = drop n (stream cok)"
    and chain': "chain_ok (ck_last_buf cok) bufs'"
    using copy_out_stream [OF chain, of "[]" n] n by (auto simp: stream_def)
  have "unat (ck_total_buf_len cok - word_of_nat n) = length (stream cok) - n"
    using total n by (simp add: unat_u64_sub)
  with copy rest chain' n small show ?thesis
    by (auto simp: rb_ok_def stream_def)
qed

lemma be_copy_word:
  assumes "n < 2 ^ 31"
  shows "unat (word_of_int (c_int (int n)) :: u64) = n"
  using assms by (simp add: unat_u64_of_nat)

lemma total_le_iff:
  assumes "rb_ok cok"
  shows "ck_total_buf_len cok \<ge> x \<longleftrightarrow> unat x \<le> length (stream cok)"
    and "ck_total_buf_len cok < 1 \<longleftrightarrow> stream cok = []"
  using assms by (auto simp: rb_ok_def word_le_nat_alt word_less_nat_alt)

section \<open>A read refines the stream specification\<close>

lemma read_buf_line:
  assumes ok: "rb_ok cok" and mode: "ck_buf_read_len cok = - 1" and junk: "junk \<noteq> CR"
    and s: "stream cok = l @ LF # r" and l: "LF \<notin> set l"
  shows "\<exists>cok'. lua_co_read_buf junk cok = Some ([LString (chop_cr l)], cok')
           \<and> stream cok' = r \<and> rb_ok cok'"
proof -
  let ?n = "Suc (length l)"
  from l have "x \<in> set l \<Longrightarrow> x \<noteq> LF" for x by auto
  then have tw: "takeWhile (\<lambda>c. c \<noteq> LF) (l @ LF # r) = l"
    by (subst takeWhile_append2) auto
  have scan: "scan_line (ck_read_buf cok) 0 = Some ?n"
    using s tw by (simp add: scan_line_cok)
  have n: "0 < ?n" "?n \<le> length (stream cok)" and lt: "?n < 2 ^ 31"
    using ok s by (auto simp: rb_ok_def)
  have w: "unat (word_of_int (c_int (int ?n)) :: u64) = ?n"
    using lt by (rule be_copy_word)
  have pos: "(word_of_int (c_int (int ?n)) :: u64) > 0" and le: "word_of_int (c_int (int ?n)) \<le> ck_total_buf_len cok"
    using w n by (auto simp: word_less_nat_alt total_le_iff [OF ok])
  from take_bytes [OF ok n] s show ?thesis
    using scan w pos le mode cut_line_eq [OF junk, of l] total_le_iff(2) [OF ok]
    by (auto simp: lua_co_read_buf_def Let_def not_less)
qed

lemma read_buf_count:
  assumes ok: "rb_ok cok" and s: "stream cok \<noteq> []"
    and mode: "mode_of cok \<noteq> ReadLine"
    and n: "n = (case mode_of cok of ReadN k \<Rightarrow>
                   if ck_status cok = 0 then min k (length (stream cok)) else k
                 | _ \<Rightarrow> length (stream cok))"
  shows "if 0 < n \<and> n \<le> length (stream cok)
         then \<exists>cok'. lua_co_read_buf junk cok = Some ([LString (take n (stream cok))], cok')
                \<and> stream cok' = drop n (stream cok) \<and> rb_ok cok'
         else lua_co_read_buf junk cok = Some ([], cok)"
proof -
  let ?brl = "ck_buf_read_len cok" and ?total = "ck_total_buf_len cok"
  define be where "be = (if ck_status cok = 0 \<and> (if ?brl = - 2 then ?total else ?brl) > ?total
                         then ?total else if ?brl = - 2 then ?total else ?brl)"
  have brl: "?brl \<noteq> - 1" using mode by (auto simp: mode_of_def)
  have total: "unat ?total = length (stream cok)" using ok by (simp add: rb_ok_def)
  have be: "unat be = n"
    using n brl total by (auto simp: be_def mode_of_def min_def word_less_nat_alt)
  have guard: "be > 0 \<and> ?total \<ge> be \<longleftrightarrow> 0 < n \<and> n \<le> length (stream cok)"
    using be total_le_iff(1) [OF ok, of be] by (simp add: word_less_nat_alt)
  have unfold: "lua_co_read_buf junk cok =
      (if be > 0 \<and> ?total \<ge> be then
         (case copy_out (unat be) [] (ck_last_buf cok) (ck_read_buf cok) of
            (None, lst, bufs) \<Rightarrow> Some ([], cok\<lparr>ck_read_buf := bufs, ck_last_buf := lst\<rparr>)
          | (Some buf, lst, bufs) \<Rightarrow>
              Some ([LString buf], cok\<lparr>ck_read_buf := bufs, ck_last_buf := lst,
                        ck_total_buf_len := ?total - word_of_nat (length buf)\<rparr>))
       else Some ([], cok))"
    using brl s total_le_iff(2) [OF ok]
    by (simp add: lua_co_read_buf_def Let_def be_def split: prod.split option.split)
  show ?thesis
  proof (cases "0 < n \<and> n \<le> length (stream cok)")
    case True
    with take_bytes [OF ok, of n] show ?thesis
      by (auto simp: unfold guard be min_absorb2)
  next
    case False
    then show ?thesis unfolding unfold guard by auto
  qed
qed

lemma read_buf_spec:
  assumes "rb_ok cok" and "stream cok \<noteq> []" and "junk \<noteq> CR"
  shows "case read_spec (mode_of cok) (ck_status cok = 0) (stream cok) of
           None \<Rightarrow> lua_co_read_buf junk cok = Some ([], cok)
         | Some (out, rest) \<Rightarrow> \<exists>cok'. lua_co_read_buf junk cok = Some ([LString out], cok')
                                 \<and> stream cok' = rest \<and> rb_ok cok'"
proof (cases "mode_of cok = ReadLine")
  case True
  then have mode: "ck_buf_read_len cok = - 1" by (simp add: mode_of_def split: if_splits)
  show ?thesis
  proof (cases "LF \<in> set (stream cok)")
    case True
    then obtain l r where s: "stream cok = l @ LF # r" and l: "LF \<notin> set l"
      by (meson split_list_first)
    then have "x \<in> set l \<Longrightarrow> x \<noteq> LF" for x by auto
    with s \<open>mode_of cok = ReadLine\<close> have "read_spec (mode_of cok) (ck_status cok = 0) (stream cok)
        = Some (chop_cr l, r)"
      by (simp add: read_spec_def takeWhile_append2 dropWhile_append2)
    with read_buf_line [OF assms(1) mode assms(3) s l] show ?thesis by simp
  next
    case False
    then have "scan_line (ck_read_buf cok) 0 = None"
      by (simp add: scan_line_cok)
    with False \<open>mode_of cok = ReadLine\<close> mode assms total_le_iff(2) [OF assms(1)] show ?thesis
      by (simp add: read_spec_def lua_co_read_buf_def)
  qed
next
  case False
  from read_buf_count [OF assms(1,2) False refl, of junk] assms(2) False show ?thesis
    by (cases "mode_of cok") (auto simp: read_spec_def min_def split: if_splits)
qed


text \<open>
  The hazard behind that assumption: reading an empty line when the byte in front of the
  buffer is a carriage return is undefined (the length wraps to \<open>2 ^ 64 - 1\<close>).
\<close>

theorem empty_line_reads_before_buffer:
  assumes "rb_ok cok" and "ck_buf_read_len cok = - 1" and "stream cok = LF # r"
  shows "lua_co_read_buf CR cok = None"
proof -
  have scan: "scan_line (ck_read_buf cok) 0 = Some 1"
    using assms(3) by (simp add: scan_line_cok)
  obtain bufs' where "copy_out 1 [] (ck_last_buf cok) (ck_read_buf cok)
      = (Some [LF], ck_last_buf cok, bufs')"
    using take_bytes [OF assms(1), of 1] assms(3) by auto
  moreover have "(1::u64) \<le> ck_total_buf_len cok"
    using assms(3) by (simp add: total_le_iff(1) [OF assms(1)])
  moreover have "cut_line CR [LF] = None" by (simp add: cut_line_def)
  ultimately show ?thesis
    using scan assms(2,3) total_le_iff(2) [OF assms(1)] by (simp add: lua_co_read_buf_def Let_def)
qed

section \<open>Receiving appends to the stream\<close>

definition links_below :: "addr \<Rightarrow> cosocket \<Rightarrow> bool" where
  "links_below brk cok \<longleftrightarrow> (\<forall>b \<in> set (ck_read_buf cok). lb_addr b < brk)"

text \<open>The chain with room in its last link, as the loop keeps it.\<close>

lemma chain_snoc:
  "chain_ok lst (bs @ [b]) \<longleftrightarrow> distinct (map lb_addr (bs @ [b])) \<and> lst = Some (lb_addr b)
     \<and> (\<forall>x \<in> set (bs @ [b]). length (lb_buf x) \<le> lb_size x)"
  by (auto simp: chain_ok_def)

lemma find_link_snoc:
  "lb_addr b \<notin> lb_addr ` set bs \<Longrightarrow> find_link (Some (lb_addr b)) (bs @ [b]) = Some b"
  by (induction bs) (auto simp: find_link_def)

lemma link_after_snoc:
  "lb_addr b \<notin> lb_addr ` set bs \<Longrightarrow> link_after (lb_addr b) n (bs @ [b]) = bs @ [b, n]"
  by (induction bs) auto

lemma map_upd_snoc:
  "lb_addr b \<notin> lb_addr ` set bs \<Longrightarrow>
     map (\<lambda>x. if lb_addr x = lb_addr b then f x else x) (bs @ [b]) = bs @ [f b]"
  by (induction bs) auto

definition room :: "cosocket \<Rightarrow> bool" where
  "room cok \<longleftrightarrow> ck_read_buf cok \<noteq> [] \<and> length (lb_buf (last (ck_read_buf cok))) < lb_size (last (ck_read_buf cok))"

text \<open>Everything of the socket but the three members of the read buffer.\<close>

definition unbuffered :: "cosocket \<Rightarrow> cosocket" where
  "unbuffered c = c\<lparr>ck_read_buf := [], ck_last_buf := None, ck_total_buf_len := 0\<rparr>"

lemma init_read_buf_ok:
  assumes "rb_ok cok" and "links_below brk cok"
  shows "\<exists>brk' cok'. init_read_buf brk cok = Some (brk', cok') \<and> stream cok' = stream cok
     \<and> rb_ok cok' \<and> links_below brk' cok' \<and> room cok' \<and> unbuffered cok' = unbuffered cok"
proof (cases "ck_read_buf cok" rule: rev_cases)
  case Nil
  with assms show ?thesis
    by (auto simp: init_read_buf_def rb_ok_def links_below_def room_def stream_def chain_ok_def
        new_link_def unbuffered_def)
next
  case (snoc bs b)
  with assms have chain: "lb_addr b \<notin> lb_addr ` set bs" "ck_last_buf cok = Some (lb_addr b)"
    "length (lb_buf b) \<le> lb_size b"
    by (auto simp: rb_ok_def chain_ok_def)
  have link: "find_link (ck_last_buf cok) (ck_read_buf cok) = Some b"
    using chain snoc by (simp add: find_link_snoc)
  show ?thesis
  proof (cases "length (lb_buf b) \<ge> lb_size b")
    case True
    have "init_read_buf brk cok = Some (Suc brk,
        cok\<lparr>ck_read_buf := bs @ [b, new_link brk], ck_last_buf := Some brk\<rparr>)"
      using True snoc link chain by (simp add: init_read_buf_def link_after_snoc)
    with assms snoc show ?thesis
      by (fastforce simp: rb_ok_def links_below_def room_def stream_def chain_ok_def new_link_def
          unbuffered_def)
  next
    case False
    then have "init_read_buf brk cok = Some (brk, cok)"
      using snoc link by (simp add: init_read_buf_def)
    with False assms snoc show ?thesis by (auto simp: room_def)
  qed
qed

text \<open>One \<open>recv\<close> into the last link.\<close>

lemma store_last_ok:
  assumes ok: "rb_ok cok" and below: "links_below brk cok"
    and snoc: "ck_read_buf cok = bs @ [b]"
    and fits: "length (lb_buf b) + length got \<le> lb_size b"
    and small: "length (stream cok) + length got < 2 ^ 31 - 1"
  shows "find_link (ck_last_buf cok) (ck_read_buf cok) = Some b"
    and "stream (store_last (lb_addr b) got cok) = stream cok @ got"
    and "rb_ok (store_last (lb_addr b) got cok)"
    and "links_below brk (store_last (lb_addr b) got cok)"
    and "unbuffered (store_last (lb_addr b) got cok) = unbuffered cok"
    and "ck_read_buf (store_last (lb_addr b) got cok) = bs @ [b\<lparr>lb_buf := lb_buf b @ got\<rparr>]"
proof -
  from ok snoc have new: "lb_addr b \<notin> lb_addr ` set bs" and lst: "ck_last_buf cok = Some (lb_addr b)"
    and total: "unat (ck_total_buf_len cok) = length (stream cok)"
    by (auto simp: rb_ok_def chain_ok_def)
  show "find_link (ck_last_buf cok) (ck_read_buf cok) = Some b"
    using new lst snoc by (simp add: find_link_snoc)
  show bufs: "ck_read_buf (store_last (lb_addr b) got cok) = bs @ [b\<lparr>lb_buf := lb_buf b @ got\<rparr>]"
    using map_upd_snoc [OF new, of "\<lambda>x. x\<lparr>lb_buf := lb_buf x @ got\<rparr>"] snoc
    by (simp add: store_last_def)
  then show str: "stream (store_last (lb_addr b) got cok) = stream cok @ got"
    by (simp add: stream_def snoc)
  show "links_below brk (store_last (lb_addr b) got cok)"
    using below bufs snoc by (auto simp: links_below_def)
  show "unbuffered (store_last (lb_addr b) got cok) = unbuffered cok"
    by (simp add: unbuffered_def store_last_def)
  have "unat (ck_total_buf_len cok + word_of_nat (length got)) = length (stream cok) + length got"
    using small total by (simp add: unat_u64_add)
  then show "rb_ok (store_last (lb_addr b) got cok)"
    unfolding rb_ok_def bufs str using ok snoc fits small new lst
    by (auto simp: rb_ok_def chain_ok_def store_last_def)
qed

lemma recv_loop_ok:
  assumes "rb_ok cok" and "links_below brk cok" and "room cok"
    and "length (stream cok) + length (concat segs) < 2 ^ 31 - 1"
  shows "\<exists>brk' cok'. recv_loop fin segs brk cok = Some (fin, brk', cok')
     \<and> stream cok' = stream cok @ concat segs \<and> rb_ok cok' \<and> links_below brk' cok'
     \<and> unbuffered cok' = unbuffered cok"
  using assms
proof (induction fin segs brk cok rule: recv_loop.induct)
  case (1 fin brk cok)
  then show ?case by simp
next
  case (2 fin s ss brk cok)
  show ?case
  proof (cases "s = []")
    case True
    with 2 show ?thesis by simp
  next
    case False
    obtain bs b where snoc: "ck_read_buf cok = bs @ [b]"
      using 2(6) by (cases "ck_read_buf cok" rule: rev_cases) (auto simp: room_def)
    define cap where "cap = lb_size b - length (lb_buf b)"
    define got where "got = take cap s"
    define cok1 where "cok1 = store_last (lb_addr b) got cok"
    have cap: "0 < cap" using 2(6) snoc by (simp add: room_def cap_def)
    have len: "length (concat (drop cap s # ss)) + length got = length (concat (s # ss))"
      by (simp add: got_def)
    have fits: "length (lb_buf b) + length got \<le> lb_size b"
      using cap by (auto simp: got_def cap_def)
    have small: "length (stream cok) + length got < 2 ^ 31 - 1"
      using 2(7) by (auto simp: got_def)
    note st = store_last_ok [OF 2(4,5) snoc fits small, folded cok1_def]
    have split: "stream cok1 @ concat (drop cap s # ss) = stream cok @ concat (s # ss)"
      using st(2) by (simp add: got_def)
    have bound: "length (stream cok1) + length (concat (drop cap s # ss)) < 2 ^ 31 - 1"
      using st(2) len 2(7) by simp
    show ?thesis
    proof (cases "length (lb_buf b) + length got \<ge> lb_size b")
      case True
      obtain brk' cok2 where init: "init_read_buf brk cok1 = Some (brk', cok2)"
        and i2: "stream cok2 = stream cok1" "rb_ok cok2" "links_below brk' cok2" "room cok2"
          "unbuffered cok2 = unbuffered cok1"
        using init_read_buf_ok [OF st(3,4)] by blast
      have "recv_loop fin (s # ss) brk cok = recv_loop fin (drop cap s # ss) brk' cok2"
        using False True cap st(1) init by (simp add: Let_def cap_def [symmetric] got_def [symmetric] cok1_def [symmetric])
      moreover have "\<exists>brk'' cok'. recv_loop fin (drop cap s # ss) brk' cok2 = Some (fin, brk'', cok')
         \<and> stream cok' = stream cok2 @ concat (drop cap s # ss) \<and> rb_ok cok' \<and> links_below brk'' cok'
         \<and> unbuffered cok' = unbuffered cok2"
        by (rule 2(2) [OF False st(1) cap_def got_def cok1_def _ True init refl])
          (use cap i2 bound in auto)
      ultimately show ?thesis using split i2 st(5) by (simp del: recv_loop.simps concat.simps)
    next
      case full: False
      have "recv_loop fin (s # ss) brk cok = recv_loop fin (drop cap s # ss) brk cok1"
        using False full cap st(1) by (simp add: Let_def cap_def [symmetric] got_def [symmetric] cok1_def [symmetric])
      moreover have "room cok1" using full st(6) by (simp add: room_def)
      moreover have "\<exists>brk'' cok'. recv_loop fin (drop cap s # ss) brk cok1 = Some (fin, brk'', cok')
         \<and> stream cok' = stream cok1 @ concat (drop cap s # ss) \<and> rb_ok cok' \<and> links_below brk'' cok'
         \<and> unbuffered cok' = unbuffered cok1"
        by (rule 2(3) [OF False st(1) cap_def got_def cok1_def _ full])
          (use cap st bound \<open>room cok1\<close> in auto)
      ultimately show ?thesis using split st(5) by (simp del: recv_loop.simps concat.simps)
    qed
  qed
qed

lemma fill_buf_ok:
  assumes "rb_ok cok" and "links_below brk cok"
    and "length (stream cok) + length (concat segs) < 2 ^ 31 - 1"
  shows "\<exists>brk' cok'. fill_buf fin segs brk cok = Some (fin, brk', cok')
     \<and> stream cok' = stream cok @ concat segs \<and> rb_ok cok' \<and> links_below brk' cok'
     \<and> unbuffered cok' = unbuffered cok"
proof -
  obtain brk1 cok1 where i: "init_read_buf brk cok = Some (brk1, cok1)" "stream cok1 = stream cok"
    "rb_ok cok1" "links_below brk1 cok1" "room cok1" "unbuffered cok1 = unbuffered cok"
    using init_read_buf_ok [OF assms(1,2)] by blast
  with recv_loop_ok [OF i(3,4,5), of segs fin] assms(3) show ?thesis
    by (simp add: fill_buf_def)
qed

text \<open>
  (C18) Receiving appends: whatever segments arrive, the receive loop stores them behind the
  bytes already buffered, allocating links as they fill up, keeps the buffer invariant,
  touches nothing else of the socket and reports the condition that ended it.
\<close>

theorem fill_buf_appends:
  assumes "rb_ok cok" and "links_below brk cok"
    and "length (stream cok) + length (concat segs) < 2 ^ 31 - 1"
  shows "\<exists>brk' cok'. fill_buf fin segs brk cok = Some (fin, brk', cok')
     \<and> stream cok' = stream cok @ concat segs \<and> rb_ok cok' \<and> links_below brk' cok'
     \<and> unbuffered cok' = unbuffered cok"
  by (rule fill_buf_ok [OF assms])

text \<open>The socket the witnesses use: two links, 6 bytes buffered, asked for a line.\<close>

definition demo_cok :: "bytes \<Rightarrow> cosocket" where
  "demo_cok s = cosocket_zero\<lparr>ck_status := 2, ck_buf_read_len := - 1,
     ck_read_buf := [\<lparr>lb_addr = 1, lb_buf = take 1 s, lb_size = 4096\<rparr>,
                     \<lparr>lb_addr = 2, lb_buf = drop 1 s, lb_size = 4096\<rparr>],
     ck_last_buf := Some 2, ck_total_buf_len := word_of_nat (length s)\<rparr>"

lemma demo_cok_ok:
  assumes "1 \<le> length s" and "length s < 4096"
  shows "rb_ok (demo_cok s)" and "stream (demo_cok s) = s" and "links_below 3 (demo_cok s)"
  using assms by (auto simp: demo_cok_def rb_ok_def chain_ok_def stream_def links_below_def
      unat_u64_of_nat)


theorem empty_line_reads_before_buffer_witness:
  "lua_co_read_buf CR (demo_cok [LF, CHR ''x'']) = None"
  by (rule empty_line_reads_before_buffer [of _ "[CHR ''x'']"])
     (use demo_cok_ok [of "[LF, CHR ''x'']"] in \<open>simp_all add: demo_cok_def\<close>)

theorem fill_buf_appends_witness:
  "\<exists>brk' cok'. fill_buf IO_again [''cd'', ''e''] 3 (demo_cok ''ab'') = Some (IO_again, brk', cok')
     \<and> stream cok' = ''abcde'' \<and> rb_ok cok'"
  using fill_buf_appends [of "demo_cok ''ab''" 3 "[''cd'', ''e'']" IO_again] demo_cok_ok [of "''ab''"]
  by auto

end
