(* ===== verification/Table_Str.thy ===== *)
theory Table_Str
  imports Lua_Api
begin

text \<open>
  Joining the strings of a table (\<open>lua-util.c\<close>): \<open>lua_calc_strlen_in_table\<close> computes the
  size of the buffer, \<open>lua_copy_str_in_table\<close> fills it. Both walk the table once for its
  largest index and then read the indices from 1 on. An error raised in Lua is \<open>Inl\<close>; the sizes are
  the mathematical sums, reduced modulo \<open>2 ^ 64\<close> where the caller stores them in a \<open>size_t\<close>.
\<close>

section \<open>Keys\<close>

text \<open>Raw equality of keys: numbers by value.\<close>

definition rawgeti :: "(lua_value \<times> lua_value) list \<Rightarrow> int \<Rightarrow> lua_value" where
  "rawgeti kvs i = (case map_of kvs (LNumber (of_int i)) of None \<Rightarrow> LNil | Some v \<Rightarrow> v)"

definition rawgetis :: "(lua_value \<times> lua_value) list \<Rightarrow> int \<Rightarrow> lua_value list" where
  "rawgetis kvs mx = map (rawgeti kvs) [1..mx]"

text \<open>\<open>if(key > max) max = key;\<close> with a \<open>double\<close> key and an \<open>int\<close> maximum.\<close>

definition max_step :: "rat \<Rightarrow> int \<Rightarrow> int" where
  "max_step key mx = (if key > of_int mx then int_of_number key else mx)"

text \<open>The first loop of the size computation: \<open>None\<close> is the early return for a key that is no positive integer.\<close>

fun calc_max :: "(lua_value \<times> lua_value) list \<Rightarrow> int \<Rightarrow> int option" where
  "calc_max [] mx = Some mx"
| "calc_max ((LNumber key, v) # kvs) mx =
     (if of_int \<lfloor>key\<rfloor> = key \<and> key \<ge> 1 then calc_max kvs (max_step key mx) else None)"
| "calc_max ((k, v) # kvs) mx = None"

text \<open>The first loop of the copy: every key is read with \<open>lua_tonumber\<close>.\<close>

fun copy_max :: "lua_lib \<Rightarrow> (lua_value \<times> lua_value) list \<Rightarrow> int \<Rightarrow> int" where
  "copy_max lib [] mx = mx"
| "copy_max lib ((k, v) # kvs) mx = copy_max lib kvs (max_step (tonumber lib k) mx)"

section \<open>Sizes\<close>

text \<open>The largest value of a list; both recursions descend from a table to its entries.\<close>

definition max_size :: "lua_value list \<Rightarrow> nat" where
  "max_size vs = foldr (\<lambda>v m. max (size v) m) vs 0"

lemma max_size_simps [simp]:
  "max_size [] = 0" "max_size (v # vs) = max (size v) (max_size vs)"
  by (simp_all add: max_size_def)

lemma max_size_less: "0 < n \<Longrightarrow> (\<And>v. v \<in> set vs \<Longrightarrow> size v < n) \<Longrightarrow> max_size vs < n"
  by (induction vs) auto

lemma size_entry: "(k, v) \<in> set kvs \<Longrightarrow> size v < size (LTable kvs)"
proof -
  assume "(k, v) \<in> set kvs"
  then have "size_prod size size (k, v) \<le> size_list (size_prod size size) kvs"
    by (intro size_list_estimation') auto
  then show ?thesis by simp
qed

lemma rawgetis_size: "max_size (rawgetis kvs mx) < size (LTable kvs)"
proof (rule max_size_less)
  fix v
  assume "v \<in> set (rawgetis kvs mx)"
  then obtain i where "v = rawgeti kvs i" by (auto simp: rawgetis_def)
  then show "size v < size (LTable kvs)"
    using size_entry by (fastforce simp: rawgeti_def dest: map_of_SomeD split: option.splits)
qed simp

datatype table_err = Bad_type | Impossible

text \<open>The result of one entry, then that of the rest; the first error ends the walk.\<close>

definition seq_res :: "('a \<Rightarrow> 'a \<Rightarrow> 'a) \<Rightarrow> table_err + 'a \<Rightarrow> table_err + 'a \<Rightarrow> table_err + 'a" where
  "seq_res f r1 r2 = (case r1 of Inl e \<Rightarrow> Inl e
     | Inr a \<Rightarrow> (case r2 of Inl e \<Rightarrow> Inl e | Inr b \<Rightarrow> Inr (f a b)))"

lemma seq_res_Inr: "seq_res f r1 r2 = Inr c \<longleftrightarrow> (\<exists>a b. r1 = Inr a \<and> r2 = Inr b \<and> c = f a b)"
  by (auto simp: seq_res_def split: sum.splits)

text \<open>
  The second loop over the values at \<open>1 \<dots> max\<close>: \<open>calc_vals\<close> adds up their lengths,
  \<open>copy_vals\<close> the bytes it writes through \<open>dst\<close>.
\<close>

function calc_vals :: "lua_lib \<Rightarrow> bool \<Rightarrow> lua_value list \<Rightarrow> table_err + nat" where
  "calc_vals lib strict [] = Inr 0"
| "calc_vals lib strict (v # vs) =
     seq_res (+)
           (case v of
              LNumber r \<Rightarrow> Inr (length (number2str lib r))
            | LString s \<Rightarrow> Inr (length s)
            | LNil \<Rightarrow> (if strict then Inl Bad_type else Inr 3)
            | LBool b \<Rightarrow> (if strict then Inl Bad_type else Inr (if b then 4 else 5))
            | LTable kvs \<Rightarrow> (case calc_max kvs 0 of
                               None \<Rightarrow> Inr 0
                             | Some mx \<Rightarrow> calc_vals lib strict (rawgetis kvs mx))
            | LLight a \<Rightarrow> (if strict then Inl Bad_type else if a = 0 then Inr 4 else Inr 0)
            | _ \<Rightarrow> Inl Bad_type)
           (calc_vals lib strict vs)"
  by pat_completeness auto
termination
proof (relation "measures [\<lambda>(lib, strict, vs). max_size vs, \<lambda>(lib, strict, vs). length vs]", goal_cases)
  case 1
  then show ?case by simp
next
  case (2 lib strict v vs kvs mx)
  then show ?case using rawgetis_size [of kvs mx] by auto
next
  case (3 lib strict v vs)
  then show ?case by auto
qed

function copy_vals :: "lua_lib \<Rightarrow> lua_value list \<Rightarrow> table_err + bytes" where
  "copy_vals lib [] = Inr []"
| "copy_vals lib (v # vs) =
     seq_res (@)
           (case v of
              LNumber r \<Rightarrow> Inr (number2str lib r)
            | LString s \<Rightarrow> Inr s
            | LNil \<Rightarrow> Inr ''nil''
            | LBool b \<Rightarrow> Inr (if b then ''true'' else ''false'')
            | LTable kvs \<Rightarrow> copy_vals lib (rawgetis kvs (copy_max lib kvs 0))
            | LLight a \<Rightarrow> Inr ''null''
            | _ \<Rightarrow> Inl Impossible)
           (copy_vals lib vs)"
  by pat_completeness auto
termination
proof (relation "measures [\<lambda>(lib, vs). max_size vs, \<lambda>(lib, vs). length vs]", goal_cases)
  case 1
  then show ?case by simp
next
  case (2 lib v vs kvs)
  then show ?case using rawgetis_size [of kvs "copy_max lib kvs 0"] by auto
next
  case (3 lib v vs)
  then show ?case by auto
qed

definition lua_calc_strlen_in_table :: "lua_lib \<Rightarrow> bool \<Rightarrow> (lua_value \<times> lua_value) list \<Rightarrow> table_err + nat" where
  "lua_calc_strlen_in_table lib strict kvs =
     (case calc_max kvs 0 of None \<Rightarrow> Inr 0 | Some mx \<Rightarrow> calc_vals lib strict (rawgetis kvs mx))"

definition lua_copy_str_in_table :: "lua_lib \<Rightarrow> (lua_value \<times> lua_value) list \<Rightarrow> table_err + bytes" where
  "lua_copy_str_in_table lib kvs = copy_vals lib (rawgetis kvs (copy_max lib kvs 0))"

section \<open>The buffer is large enough\<close>

text \<open>
  The tables on which the two walks agree: every table in the value has only positive integer
  keys, and no light userdata other than \<open>NULL\<close> (which only the copy writes).
\<close>

function plain_vals :: "lua_value list \<Rightarrow> bool" where
  "plain_vals [] = True"
| "plain_vals (v # vs) =
     ((case v of
         LTable kvs \<Rightarrow> (case calc_max kvs 0 of None \<Rightarrow> False | Some mx \<Rightarrow> plain_vals (rawgetis kvs mx))
       | LLight a \<Rightarrow> a = 0
       | _ \<Rightarrow> True) \<and> plain_vals vs)"
  by pat_completeness auto
termination
proof (relation "measures [\<lambda>vs. max_size vs, \<lambda>vs. length vs]", goal_cases)
  case 1
  then show ?case by simp
next
  case (2 v vs kvs mx)
  then show ?case using rawgetis_size [of kvs mx] by auto
next
  case (3 v vs)
  then show ?case by auto
qed

lemma calc_max_copy_max: "calc_max kvs mx = Some m \<Longrightarrow> copy_max lib kvs mx = m"
  by (induction kvs mx rule: calc_max.induct) (auto simp: tonumber_def split: if_splits)

lemma calc_copy_vals:
  "calc_vals lib strict vs = Inr n \<Longrightarrow> plain_vals vs \<Longrightarrow> \<exists>s. copy_vals lib vs = Inr s \<and> length s = n"
proof (induction lib strict vs arbitrary: n rule: calc_vals.induct)
  case (1 lib strict)
  then show ?case by simp
next
  case (2 lib strict v vs)
  from 2(3) obtain a b where ab: "n = a + b" "calc_vals lib strict vs = Inr b"
    "(case v of
              LNumber r \<Rightarrow> Inr (length (number2str lib r))
            | LString s \<Rightarrow> Inr (length s)
            | LNil \<Rightarrow> (if strict then Inl Bad_type else Inr 3)
            | LBool b \<Rightarrow> (if strict then Inl Bad_type else Inr (if b then 4 else 5))
            | LTable kvs \<Rightarrow> (case calc_max kvs 0 of
                               None \<Rightarrow> Inr 0
                             | Some mx \<Rightarrow> calc_vals lib strict (rawgetis kvs mx))
            | LLight a \<Rightarrow> (if strict then Inl Bad_type else if a = 0 then Inr 4 else Inr 0)
            | _ \<Rightarrow> Inl Bad_type) = Inr a"
    by (simp only: calc_vals.simps seq_res_Inr) blast
  obtain t where t: "copy_vals lib vs = Inr t" "length t = b"
    using 2(2) [OF ab(2)] 2(4) by auto
  show ?case
  proof (cases v)
    case (LTable kvs)
    then obtain mx where mx: "calc_max kvs 0 = Some mx" "plain_vals (rawgetis kvs mx)"
      using 2(4) by (auto split: option.splits)
    then have "calc_vals lib strict (rawgetis kvs mx) = Inr a" using ab(3) LTable by simp
    then obtain s where "copy_vals lib (rawgetis kvs mx) = Inr s" "length s = a"
      using 2(1) [OF LTable mx(1)] mx(2) by auto
    with LTable mx t ab(1) calc_max_copy_max [OF mx(1), of lib] show ?thesis
      by (auto simp: seq_res_Inr)
  qed (use t ab 2(4) in \<open>auto simp: seq_res_Inr split: if_splits\<close>)
qed

text \<open>
  (C28) For a table of strings and numbers, nested as deep as one likes, in which every table has only
  positive integer keys, the copy writes exactly as many bytes as the size computation
  reserved, and it raises no error.
\<close>

theorem lua_copy_str_fits:
  assumes "lua_calc_strlen_in_table lib strict kvs = Inr n" and "plain_vals [LTable kvs]"
  shows "\<exists>s. lua_copy_str_in_table lib kvs = Inr s \<and> length s = n"
proof -
  from assms(2) obtain mx where mx: "calc_max kvs 0 = Some mx" "plain_vals (rawgetis kvs mx)"
    by (auto split: option.splits)
  with assms(1) have "calc_vals lib strict (rawgetis kvs mx) = Inr n"
    by (simp add: lua_calc_strlen_in_table_def)
  from calc_copy_vals [OF this mx(2)] calc_max_copy_max [OF mx(1)] show ?thesis
    by (simp add: lua_copy_str_in_table_def)
qed

text \<open>The conversions, as far as the concrete examples use them.\<close>

definition demo_lib :: lua_lib where
  "demo_lib = \<lparr>str2number = (\<lambda>s. None), number2str = (\<lambda>r. ''7'')\<rparr>"

theorem lua_copy_str_fits_witness:
  "\<exists>s. lua_copy_str_in_table demo_lib
      [(LNumber 1, LString ''GET /''), (LNumber 2, LTable [(LNumber 1, LNumber 7), (LNumber 2, LString ''x'')])] = Inr s
    \<and> length s = 7"
  using lua_copy_str_fits [of demo_lib True
      "[(LNumber 1, LString ''GET /''), (LNumber 2, LTable [(LNumber 1, LNumber 7), (LNumber 2, LString ''x'')])]" 7]
  by (simp add: lua_calc_strlen_in_table_def rawgetis_def rawgeti_def max_step_def int_of_number_def
      upto.simps demo_lib_def seq_res_def)

text \<open>
  A nested table with a key that is no positive integer is counted as empty, but its
  indexed strings are copied: the copy writes past the buffer that was sized for it.
\<close>

theorem lua_copy_str_overruns:
  "let t = [(LNumber 1, LString ''a''), (LNumber 2, LTable [(LNumber 1, LString s), (LBool True, LBool True)])]
   in lua_calc_strlen_in_table lib True t = Inr 1 \<and> lua_copy_str_in_table lib t = Inr (''a'' @ s)"
  by (simp add: lua_calc_strlen_in_table_def lua_copy_str_in_table_def rawgetis_def rawgeti_def
      max_step_def int_of_number_def tonumber_def upto.simps seq_res_def)

end
