(* ===== verification/Sock_Ops.thy ===== *)
theory Sock_Ops
  imports Conn_Pool Read_Buf Table_Str
begin

text \<open>
  The TCP socket object (\<open>coevent.c\<close>): connecting, writing, reading, closing and the
  callbacks of the event loop and of the timers. A handler takes the address of the socket (or of
  its registration) and the state; what the system, OpenSSL and the event loop answer is in
  the arguments (\<open>net_env\<close>, \<open>se_api\<close>, the results of \<open>send\<close> and \<open>recv\<close>). A function
  registered with Lua also takes its arguments and the coroutine it runs in.
\<close>

section \<open>The environment\<close>

record net_env =
  ne_fnv1a_32 :: "bytes \<Rightarrow> u32"
  ne_se_connect :: "bytes \<Rightarrow> int \<Rightarrow> int \<Rightarrow> int"
  ne_strerror :: bytes
  ne_ctx_new :: ptr
  ne_ssl_new :: ptr
  ne_ssl_connect :: int
  ne_malloc :: bool
  ne_use_cert :: int
  ne_use_key :: int
  ne_check_key :: int

datatype se_error = SE_DNS_QUERY_TIMEOUT | SE_CONNECT_TIMEOUT | SE_OTHER

text \<open>Decimal printing of an \<open>int\<close> or \<open>long\<close> (\<open>%d\<close>, \<open>%ld\<close>).\<close>

function digits :: "nat \<Rightarrow> string" where
  "digits n = (if n < 10 then [char_of (n + 48)] else digits (n div 10) @ [char_of (n mod 10 + 48)])"
  by auto
termination by (relation "measure id") auto

declare digits.simps [simp del]

definition fmt_int :: "int \<Rightarrow> string" where
  "fmt_int i = (if i < 0 then CHR ''-'' # digits (nat (- i)) else digits (nat i))"

section \<open>Steps the handlers share\<close>

definition cok_of :: "addr \<Rightarrow> world \<Rightarrow> (addr \<times> cosocket) option" where
  "cok_of p w = do {
     sp \<leftarrow> w_se w p;
     ca \<leftarrow> (case sp_data sp of DCok a \<Rightarrow> Some a | _ \<Rightarrow> None);
     c \<leftarrow> w_coks w ca;
     Some (ca, c) }"

text \<open>\<open>cok->timeout_ptr = add_timeout(cok, cok->timeout, timeout_handle)\<close>\<close>

definition start_timeout :: "addr \<Rightarrow> cosocket \<Rightarrow> world \<Rightarrow> cosocket \<times> world" where
  "start_timeout ca c w =
     (c\<lparr>ck_timeout_ptr := Some (w_brk w)\<rparr>, emit (E_add_timeout ca (ck_timeout c)) (w\<lparr>w_brk := Suc (w_brk w)\<rparr>))"

text \<open>\<open>delete_timeout(cok->timeout_ptr); cok->timeout_ptr = NULL\<close>\<close>

definition stop_timeout :: "cosocket \<Rightarrow> world \<Rightarrow> cosocket \<times> world" where
  "stop_timeout c w = (c\<lparr>ck_timeout_ptr := None\<rparr>, emit (E_delete_timeout (ck_timeout_ptr c)) w)"

text \<open>The connection is given up: registration, counter and descriptor go, in this order.\<close>

definition drop_connection :: "se_api \<Rightarrow> cosocket \<Rightarrow> world \<Rightarrow> (cosocket \<times> world) option" where
  "drop_connection api c w = do {
     let w = se_delete api (ck_ptr c) w;
     w \<leftarrow> connection_pool_counter_operate (ck_pool_key c) (- 1) w;
     let w = emit (E_close (ck_fd c)) w;
     Some (c\<lparr>ck_ptr := None, ck_fd := - 1, ck_status := 0\<rparr>, w) }"

definition free_ptr :: "ptr \<Rightarrow> world \<Rightarrow> world" where
  "free_ptr p w = (if p \<noteq> None then emit (E_free p) w else w)"

definition se_be_pri :: "se_api \<Rightarrow> ptr \<Rightarrow> world \<Rightarrow> world" where
  "se_be_pri api p w = w\<lparr>w_se := api_se_be_pri api p (w_se w)\<rparr>"

definition se_be_read :: "se_api \<Rightarrow> ptr \<Rightarrow> handler \<Rightarrow> world \<Rightarrow> int \<times> world" where
  "se_be_read api p f w = (case api_se_be_read api p f (w_se w) of (r, h) \<Rightarrow> (r, w\<lparr>w_se := h\<rparr>))"

definition se_be_write :: "se_api \<Rightarrow> ptr \<Rightarrow> handler \<Rightarrow> world \<Rightarrow> int \<times> world" where
  "se_be_write api p f w = (case api_se_be_write api p f (w_se w) of (r, h) \<Rightarrow> (r, w\<lparr>w_se := h\<rparr>))"

definition se_add :: "se_api \<Rightarrow> int \<Rightarrow> se_data \<Rightarrow> world \<Rightarrow> ptr \<times> world" where
  "se_add api fd d w = (case api_se_add api (w_loop_fd w) fd d (w_se w) of (p, h) \<Rightarrow> (p, w\<lparr>w_se := h\<rparr>))"

section \<open>Timeouts\<close>

definition timeout_msg :: "cosocket \<Rightarrow> world \<Rightarrow> string option" where
  "timeout_msg c w = (case ck_ptr c of
     None \<Rightarrow> Some (if ck_status c = 3 then ''Connect error!(wait pool timeout)'' else ''Timeout!'')
   | Some p \<Rightarrow>
       if ck_status c = 3 then Some ''Connect error!(wait pool timeout)''
       else do {
         sp \<leftarrow> w_se w p;
         Some (if sp_wfunc sp = Some H_ssl_connected then ''SSL Connect timeout!''
               else if sp_wfunc sp = Some H_be_write then ''Send timeout!''
               else if sp_rfunc sp = Some H_be_read then ''Read timeout!''
               else ''Timeout!'') })"

definition timeout_handle :: "se_api \<Rightarrow> resume_fn \<Rightarrow> addr \<Rightarrow> world \<Rightarrow> world option" where
  "timeout_handle api resume ca w = do {
     c \<leftarrow> w_coks w ca;
     let (c, w) = stop_timeout c w;
     w \<leftarrow> (case ck_pool_wait c of None \<Rightarrow> Some w | Some n \<Rightarrow> delete_in_waiting_get_connection n w);
     let c = c\<lparr>ck_pool_wait := None\<rparr>;
     msg \<leftarrow> timeout_msg c w;
     let w = se_delete api (ck_ptr c) w;
     (c, w) \<leftarrow> (if ck_fd c > - 1 then do {
                    w \<leftarrow> connection_pool_counter_operate (ck_pool_key c) (- 1) w;
                    Some (c\<lparr>ck_fd := - 1\<rparr>, emit (E_close (ck_fd c)) w) }
                  else Some (c, w));
     let c = c\<lparr>ck_ptr := None, ck_status := 0\<rparr>;
     let (c, w) = (if ck_ssl c \<noteq> None
                   then (c\<lparr>ck_ssl := None, ck_ctx := None\<rparr>,
                         emit (E_ssl_ctx_free (ck_ctx c)) (emit (E_ssl_free (ck_ssl c)) (emit (E_ssl_shutdown (ck_ssl c)) w)))
                   else (c, w));
     let c = c\<lparr>ck_read_buf := []\<rparr>;
     let w = free_ptr (ck_send_buf_need_free c) w;
     let c = c\<lparr>ck_send_buf_need_free := None, ck_inuse := False\<rparr>;
     Some (snd (resume (ck_L c) [LNil, lstr msg] (put_cok ca c w))) }"

section \<open>Connecting\<close>

text \<open>\<open>if(SSL_connect(cok->ssl))\<close>: any result but 0 counts as connected.\<close>

definition cosocket_be_ssl_connected :: "net_env \<Rightarrow> se_api \<Rightarrow> resume_fn \<Rightarrow> addr \<Rightarrow> world \<Rightarrow> (int \<times> world) option" where
  "cosocket_be_ssl_connected env api resume p w = do {
     (ca, c) \<leftarrow> cok_of p w;
     if ne_ssl_connect env \<noteq> 0 then do {
       let (c, w) = stop_timeout c w;
       let w = se_be_pri api (ck_ptr c) w;
       Some (1, snd (resume (ck_L c) [LBool True] (put_cok ca (c\<lparr>ck_inuse := False\<rparr>) w)))
     } else Some (0, w) }"

text \<open>
  The PEM password callback: the bytes stored in \<open>buf\<close> and the result. The size is compared as a
  \<open>size_t\<close>.
\<close>

definition ssl_password_cb :: "int \<Rightarrow> bytes option \<Rightarrow> bytes option \<times> int" where
  "ssl_password_cb num userdata =
     (let pw = (case userdata of None \<Rightarrow> [] | Some s \<Rightarrow> c_str s)
      in if (word_of_int num :: u64) < word_of_nat (length pw) + 1 then (None, 0) else (Some (pw @ [CHR 0x00]), int (length pw)))"

text \<open>
  \<open>_be_connect\<close>: the values pushed on the coroutine's stack, or \<open>None\<close> for the result -2
  (the handshake goes on).
\<close>

definition be_connect_fd :: "net_env \<Rightarrow> se_api \<Rightarrow> addr \<Rightarrow> int \<Rightarrow> world \<Rightarrow> (lua_value list option \<times> world) option" where
  "be_connect_fd env api ca fd w = do {
     c \<leftarrow> w_coks w ca;
     let w = emit (E_setsockopt fd) w;
     let (p, w) = se_add api fd (DCok ca) w;
     let c = c\<lparr>ck_fd := fd, ck_ptr := p, ck_status := 2, ck_in_read_action := False\<rparr>;
     if ck_use_ssl c then do {
       let c = (if ck_ctx c = None then c\<lparr>ck_ctx := ne_ctx_new env\<rparr> else c);
       if ck_ctx c = None then do {
         w \<leftarrow> connection_pool_counter_operate (ck_pool_key c) (- 1) w;
         let w = emit (E_close (ck_fd c)) (se_delete api (ck_ptr c) w);
         Some (Some [LNil, lstr ''SSL_CTX_new Error''],
               put_cok ca (c\<lparr>ck_ptr := None, ck_fd := - 1, ck_status := 0\<rparr>) w)
       } else do {
         let c = c\<lparr>ck_ssl := ne_ssl_new env\<rparr>;
         if ck_ssl c = None then do {
           w \<leftarrow> connection_pool_counter_operate (ck_pool_key c) (- 1) w;
           let w = emit (E_close (ck_fd c)) (se_delete api (ck_ptr c) w);
           let w = emit (E_ssl_ctx_free (ck_ctx c)) w;
           Some (Some [LNil, lstr ''SSL_new Error''],
                 put_cok ca (c\<lparr>ck_ptr := None, ck_fd := - 1, ck_status := 0, ck_ctx := None\<rparr>) w)
         } else do {
           let w = emit (E_ssl_set_fd (ck_ssl c) (ck_fd c)) w;
           let (r, w) = se_be_read api (ck_ptr c) H_ssl_connected w;
           if r = - 1 then
             (let w = emit (E_close (ck_fd c)) (se_delete api (ck_ptr c) w);
                  w = emit (E_ssl_ctx_free (ck_ctx c)) (emit (E_ssl_free (ck_ssl c)) (emit (E_ssl_shutdown (ck_ssl c)) w))
              in Some (Some [LNil, lstr ''Network Error''],
                       put_cok ca (c\<lparr>ck_ptr := None, ck_fd := - 1, ck_status := 0, ck_ssl := None, ck_ctx := None\<rparr>) w))
           else if ne_ssl_connect env = 1 then
             Some (Some [LBool True], put_cok ca (c\<lparr>ck_inuse := False\<rparr>) (se_be_pri api (ck_ptr c) w))
           else
             (let (c, w) = start_timeout ca c w in Some (None, put_cok ca c w)) } }
     } else
       Some (Some [LBool True], put_cok ca (c\<lparr>ck_inuse := False\<rparr>) (se_be_pri api (ck_ptr c) w)) }"

definition be_connect :: "net_env \<Rightarrow> se_api \<Rightarrow> resume_fn \<Rightarrow> se_error \<Rightarrow> addr \<Rightarrow> int \<Rightarrow> world \<Rightarrow> world option" where
  "be_connect env api resume err ca fd w = do {
     c \<leftarrow> w_coks w ca;
     if fd < 0 then do {
       w \<leftarrow> connection_pool_counter_operate (ck_pool_key c) (- 1) w;
       let msg = (case err of
                    SE_DNS_QUERY_TIMEOUT \<Rightarrow> ''Connect error!(dns query timeout)''
                  | SE_CONNECT_TIMEOUT \<Rightarrow> ''Connect error!(timeout)''
                  | SE_OTHER \<Rightarrow> ''Connect error!(unknow)'');
       let w = put_cok ca (c\<lparr>ck_status := 0, ck_inuse := False\<rparr>) w;
       Some (snd (resume (ck_L c) [LNil, lstr msg] w))
     } else do {
       (r, w) \<leftarrow> be_connect_fd env api ca fd w;
       case r of
         None \<Rightarrow> Some w
       | Some vs \<Rightarrow> Some (snd (resume (ck_L c) vs w)) } }"

text \<open>The pool options of \<open>connect\<close>: the arguments from index \<open>pn\<close> on.\<close>

definition clamp_size :: "int \<Rightarrow> int" where
  "clamp_size n = (if n < 0 then 0 else if n > 4096 then 4096 else n)"

definition keepalive_opts :: "lua_lib \<Rightarrow> net_env \<Rightarrow> lua_value list \<Rightarrow> nat \<Rightarrow> cosocket \<Rightarrow> cosocket" where
  "keepalive_opts lib env st pn c =
     (if lua_gettop st \<ge> pn then
        let num = lua_isnumber lib st pn;
            c = (if num then c\<lparr>ck_pool_size := clamp_size (int_of_number (lua_tonumber lib st pn))\<rparr> else c);
            pn = (if num then pn + 1 else pn)
        in if ck_pool_size c > 0 \<and> lua_gettop st = pn \<and> lua_isstring st pn
           then (case lua_tolstring lib st pn of
                   Some key \<Rightarrow> c\<lparr>ck_pool_key := ucast (ne_fnv1a_32 env key)\<rparr>
                 | None \<Rightarrow> c)
           else c
      else c)"

definition normal_key :: "net_env \<Rightarrow> bytes \<Rightarrow> int \<Rightarrow> cosocket \<Rightarrow> u64" where
  "normal_key env host port c = ucast (ne_fnv1a_32 env
     ((if port > 0 then ''tcp://'' else ''unix://'') @ c_str host @ '':'' @ fmt_int port @ '':''
        @ fmt_int (sint (ck_ssl_sign c))))"

text \<open>
  The part of \<open>connect\<close> that opens a new connection. \<open>se_connect\<close> is logged with the host, the port
  and the time it may take, on which its answer depends: a descriptor, -2 if the answer comes later
  through \<open>be_connect\<close>, or another negative number for an error.
\<close>

definition connect_time :: "cosocket \<Rightarrow> int" where
  "connect_time c = (if ck_timeout c > 0 then ck_timeout c else 30000)"

definition open_connection :: "net_env \<Rightarrow> se_api \<Rightarrow> bytes \<Rightarrow> int \<Rightarrow> addr \<Rightarrow> u64 \<Rightarrow> world \<Rightarrow> (lua_ret \<times> world) option" where
  "open_connection env api host port ca key w = do {
     c \<leftarrow> w_coks w ca;
     let fd = ne_se_connect env (c_str host) port (connect_time c);
     let w = emit (E_connect (c_str host) port (connect_time c)) w;
     if fd = - 2 then do {
       w \<leftarrow> connection_pool_counter_operate key 1 w;
       Some (Yield, w)
     } else if fd > - 1 then do {
       w \<leftarrow> connection_pool_counter_operate key 1 w;
       (r, w) \<leftarrow> be_connect_fd env api ca fd w;
       Some (case r of None \<Rightarrow> (Yield, w) | Some vs \<Rightarrow> (Ret vs, w))
     } else Some (Ret [LNil, LString (ne_strerror env)], w) }"

text \<open>A pooled connection is taken over, or the socket queues up for one.\<close>

definition reuse_connection :: "se_api \<Rightarrow> addr \<Rightarrow> addr \<Rightarrow> world \<Rightarrow> (lua_ret \<times> world) option" where
  "reuse_connection api ca p w = do {
     c \<leftarrow> w_coks w ca;
     h \<leftarrow> poke p (\<lambda>sp. sp\<lparr>sp_data := DCok ca\<rparr>) (w_se w);
     sp \<leftarrow> h p;
     let w = se_be_pri api (Some p) (w\<lparr>w_se := h\<rparr>);
     Some (Ret [LBool True], put_cok ca (c\<lparr>ck_ptr := Some p, ck_status := 2, ck_reusedtimes := 1, ck_fd := sp_fd sp\<rparr>) w) }"

definition wait_connection :: "net_env \<Rightarrow> addr \<Rightarrow> world \<Rightarrow> (lua_ret \<times> world) option" where
  "wait_connection env ca w = do {
     (n, w) \<leftarrow> add_waiting_get_connection (ne_malloc env) ca w;
     c \<leftarrow> w_coks w ca;
     let c = c\<lparr>ck_pool_wait := n\<rparr>;
     if n \<noteq> None then
       (let (c, w) = start_timeout ca (c\<lparr>ck_status := 3\<rparr>) w
        in Some (Yield, put_cok ca (c\<lparr>ck_inuse := True\<rparr>) w))
     else Some (Ret [LNil, lstr ''pool error''], put_cok ca c w) }"

text \<open>What follows the lookup in the pool; \<open>pc\<close> is the counter of the key.\<close>

definition pooled_rest :: "net_env \<Rightarrow> se_api \<Rightarrow> bytes \<Rightarrow> int \<Rightarrow> addr \<Rightarrow> addr \<Rightarrow> ptr \<times> world \<Rightarrow> (lua_ret \<times> world) option" where
  "pooled_rest env api host port ca pc rw = (case rw of (r, w) \<Rightarrow> do {
     c \<leftarrow> w_coks w ca;
     let w = put_cok ca (c\<lparr>ck_ptr := r\<rparr>) w;
     case r of
       Some p \<Rightarrow> reuse_connection api ca p w
     | None \<Rightarrow> do {
         n \<leftarrow> w_cnodes w pc;
         if pc_count n > 0 \<and> pc_count n \<ge> word_of_int (ck_pool_size c div w_process_count w)
         then wait_connection env ca w
         else open_connection env api host port ca (ck_pool_key c) w } })"

text \<open>The end of \<open>lua_co_connect\<close>, from the check of the pool counter on.\<close>

definition connect_pooled ::
    "net_env \<Rightarrow> se_api \<Rightarrow> nat \<Rightarrow> resume_fn \<Rightarrow> bytes \<Rightarrow> int \<Rightarrow> addr \<Rightarrow> world \<Rightarrow> (lua_ret \<times> world) option" where
  "connect_pooled env api f resume host port ca w = do {
     c \<leftarrow> w_coks w ca;
     (pc, w) \<leftarrow> get_connection_pool_counter (ck_pool_key c) w;
     n \<leftarrow> w_cnodes w pc;
     let c = (if pc_size n > word_of_int (ck_pool_size c)
              then c\<lparr>ck_pool_size := c_int (uint (pc_size n))\<rparr> else c);
     let w = put_cok ca c w;
     if ck_pool_size c > 0 then do {
       rw \<leftarrow> get_connection_in_pool f api resume (ck_pool_key c) (Some ca) w;
       pooled_rest env api host port ca pc rw
     } else open_connection env api host port ca (ck_pool_key c) w }"

definition lua_co_connect ::
    "lua_lib \<Rightarrow> net_env \<Rightarrow> se_api \<Rightarrow> nat \<Rightarrow> resume_fn \<Rightarrow> lthread \<Rightarrow> lua_value list \<Rightarrow> world \<Rightarrow> (lua_ret \<times> world) option" where
  "lua_co_connect lib env api f resume L st w =
     (case (arg st 1, lua_isstring st 2) of
        (Some (LUserdata ca), True) \<Rightarrow> do {
          c \<leftarrow> w_coks w ca;
          if ck_status c > 0 then Some (Ret [LNil, lstr ''Aleady connected!''], w)
          else if ck_inuse c then Some (Ret [LNil, lstr ''socket busy!''], w)
          else do {
            host \<leftarrow> lua_tolstring lib st 2;
            let unix = (host \<noteq> [] \<and> hd host = CHR ''/'');
            if length host > (if unix then 108 else 60)
            then Some (Ret [LNil, lstr ''hostname length must be <= 60!''], w)
            else do {
              let port = (if unix then 0 else int_of_number (lua_tonumber lib st 3));
              if \<not> unix \<and> port < 1 then Some (Ret [LNil, lstr ''port must be > 0''], w)
              else do {
                let c = keepalive_opts lib env st (if unix then 3 else 4) c;
                let c = (if ck_pool_key c = 0 then c\<lparr>ck_pool_key := normal_key env host port c\<rparr> else c);
                let c = c\<lparr>ck_status := 1, ck_L := Some L, ck_read_buf := [], ck_last_buf := None,
                          ck_total_buf_len := 0, ck_buf_read_len := 0\<rparr>;
                connect_pooled env api f resume host port ca (put_cok ca c w) } } } }
      | (Some (LLight _), True) \<Rightarrow> None
      | _ \<Rightarrow> Some (Ret [LNil, lstr ''Error params!''], w))"

section \<open>Writing\<close>

text \<open>
  The send loop: \<open>ns\<close> are the positive results of \<open>send\<close> (or \<open>SSL_write\<close>) in order; the
  bytes of each go to the wire.
\<close>

fun send_loop :: "nat list \<Rightarrow> cosocket \<Rightarrow> world \<Rightarrow> cosocket \<times> world" where
  "send_loop [] c w = (c, w)"
| "send_loop (n # ns) c w =
     send_loop ns (c\<lparr>ck_send_buf_ed := ck_send_buf_ed c + word_of_nat n\<rparr>)
       (emit (E_send (ck_fd c) (take n (drop (unat (ck_send_buf_ed c)) (ck_send_buf c)))) w)"

text \<open>
  \<open>cosocket_be_write\<close>; \<open>e\<close> is what ended the loop. The values are those pushed for a caller
  in the same coroutine; in the callback they are passed to the waiting coroutine instead.
\<close>

definition be_write_result :: "cosocket \<Rightarrow> lua_value list" where
  "be_write_result c =
     (if ck_send_buf_ed c \<ge> ck_send_buf_len c then [LNumber (of_nat (unat (ck_send_buf_ed c)))]
      else if ck_fd c = - 1 then [LNil, lstr ''connection closed!'']
      else [LBool False])"

definition cosocket_be_write ::
    "se_api \<Rightarrow> resume_fn \<Rightarrow> nat list \<Rightarrow> io_end \<Rightarrow> addr \<Rightarrow> world \<Rightarrow> (int \<times> lua_value list \<times> world) option" where
  "cosocket_be_write api resume ns e p w = do {
     (ca, c) \<leftarrow> cok_of p w;
     let (c, w) = send_loop ns (c\<lparr>ck_in_read_action := False\<rparr>) w;
     if ck_send_buf_ed c = ck_send_buf_len c \<or> e = IO_err then do {
       (c, w) \<leftarrow> (if e = IO_err then do {
                      (c, w) \<leftarrow> drop_connection api c w;
                      Some (c\<lparr>ck_send_buf_ed := 0\<rparr>, w) }
                    else Some (c, w));
       let w = free_ptr (ck_send_buf_need_free c) w;
       let c = c\<lparr>ck_send_buf_need_free := None\<rparr>;
       let (c, w) = stop_timeout c w;
       let vs = be_write_result c;
       if ck_inuse c then
         (let w = se_be_pri api (ck_ptr c) w
          in Some (0, [], snd (resume (ck_L c) vs (put_cok ca (c\<lparr>ck_inuse := False\<rparr>) w))))
       else Some (- int (length vs), vs, put_cok ca c w)
     } else Some (c_int (uint (ck_send_buf_len c - ck_send_buf_ed c)), [], put_cok ca c w) }"

text \<open>
  The buffer \<open>send\<close> fills: the one inside the socket object for short data, an allocated one
  otherwise. Copying more than it holds is undefined.
\<close>

definition buffer_room :: "nat \<Rightarrow> nat option" where
  "buffer_room n = (if n < SENDBUF_SIZE then Some SENDBUF_SIZE else large_malloc n)"

definition fill_send_buf :: "nat \<Rightarrow> bytes \<Rightarrow> cosocket \<Rightarrow> world \<Rightarrow> (cosocket \<times> world) option" where
  "fill_send_buf n data c w = do {
     room \<leftarrow> buffer_room n;
     if length data > room then None
     else if n < SENDBUF_SIZE then Some (c\<lparr>ck_send_buf := data, ck_send_buf_need_free := None\<rparr>, w)
     else Some (c\<lparr>ck_send_buf := data, ck_send_buf_need_free := Some (w_brk w)\<rparr>, w\<lparr>w_brk := Suc (w_brk w)\<rparr>) }"

definition load_send_buf :: "lua_lib \<Rightarrow> lua_value \<Rightarrow> cosocket \<Rightarrow> world \<Rightarrow> (table_err + cosocket \<times> world) option" where
  "load_send_buf lib v c w =
     (case v of
        LTable kvs \<Rightarrow>
          (case lua_calc_strlen_in_table lib True kvs of
             Inl e \<Rightarrow> Some (Inl e)
           | Inr n \<Rightarrow>
               let c = c\<lparr>ck_send_buf_len := word_of_nat n\<rparr> in
               if n = 0 then Some (Inr (c, w))
               else (case lua_copy_str_in_table lib kvs of
                       Inl e \<Rightarrow> Some (Inl e)
                     | Inr s \<Rightarrow> map_option Inr (fill_send_buf n s c w)))
      | LString s \<Rightarrow> map_option Inr (fill_send_buf (length s) s (c\<lparr>ck_send_buf_len := word_of_nat (length s)\<rparr>) w)
      | _ \<Rightarrow> None)"

text \<open>
  The end of \<open>lua_co_send\<close>: what is left is written by the callback while the coroutine waits. A result of
  zero or less is negated and taken as the number of values on the stack to return: those pushed for a
  finished write, but other ones if the result is the remainder of 2 GB or more cut to an \<open>int\<close>.
\<close>

definition after_write :: "se_api \<Rightarrow> addr \<Rightarrow> lua_value list \<Rightarrow> int \<times> lua_value list \<times> world \<Rightarrow> (lua_ret \<times> world) option" where
  "after_write api ca st rvw = (case rvw of (ret, vs, w) \<Rightarrow>
     if ret > 0 then do {
       c \<leftarrow> w_coks w ca;
       let (r, w) = se_be_write api (ck_ptr c) H_be_write w;
       if r = - 1 then
         (let w = emit (E_close (ck_fd c)) (se_delete api (ck_ptr c) w)
          in Some (Ret [LNil, lstr ''Network Error''],
                   put_cok ca (c\<lparr>ck_ptr := None, ck_fd := - 1, ck_status := 0\<rparr>) w))
       else
         (let (c, w) = start_timeout ca c w
          in Some (Yield, put_cok ca (c\<lparr>ck_inuse := True\<rparr>) w))
     } else
       (let n = nat (- ret)
        in if n \<le> length (st @ vs) then Some (Ret (drop (length (st @ vs) - n) (st @ vs)), w) else None))"

definition lua_co_send ::
    "lua_lib \<Rightarrow> se_api \<Rightarrow> resume_fn \<Rightarrow> nat list \<Rightarrow> io_end \<Rightarrow> lthread \<Rightarrow> lua_value list \<Rightarrow> world \<Rightarrow> (lua_ret \<times> world) option" where
  "lua_co_send lib api resume ns e L st w =
     (if lua_gettop st < 2 then Some (Ret [], w)
      else case (arg st 1, arg st 2) of
        (Some (LUserdata ca), Some v) \<Rightarrow>
          (if \<not> (case v of LString _ \<Rightarrow> True | LTable _ \<Rightarrow> True | _ \<Rightarrow> False)
           then Some (Ret [LBool False, lstr ''Error params!''], w)
           else do {
             c \<leftarrow> w_coks w ca;
             if ck_status c \<noteq> 2 \<or> ck_fd c = - 1 \<or> ck_ptr c = None
             then Some (Ret [LBool False, lstr ''Not connected!''], w)
             else if ck_inuse c then Some (Ret [LNil, lstr ''socket busy!''], w)
             else do {
               let c = c\<lparr>ck_L := Some L, ck_send_buf_ed := 0\<rparr>;
               r \<leftarrow> load_send_buf lib v c w;
               case r of
                 Inl _ \<Rightarrow> Some (Raise ''bad data type found'', put_cok ca c w)
               | Inr (c, w) \<Rightarrow>
                   if ck_send_buf_len c < 1
                   then Some (Ret [LBool False, lstr ''content empty!''], put_cok ca c w)
                   else do {
                     p \<leftarrow> ck_ptr c;
                     r \<leftarrow> cosocket_be_write api resume ns e p (put_cok ca (c\<lparr>ck_inuse := False\<rparr>) w);
                     after_write api ca st r } } })
      | (Some (LLight _), Some v) \<Rightarrow>
          (case v of LString _ \<Rightarrow> None | LTable _ \<Rightarrow> None | _ \<Rightarrow> Some (Ret [LBool False, lstr ''Error params!''], w))
      | _ \<Rightarrow> Some (Ret [LBool False, lstr ''Error params!''], w))"

section \<open>Reading\<close>

text \<open>What follows a failed resume: the connection is given up, whatever is left of it.\<close>

definition after_resume :: "se_api \<Rightarrow> addr \<Rightarrow> int \<times> world \<Rightarrow> world option" where
  "after_resume api ca rw = (case rw of (ret, w) \<Rightarrow>
     if ret = LUA_ERRRUN then do {
       c \<leftarrow> w_coks w ca;
       (c, w) \<leftarrow> drop_connection api c w;
       Some (put_cok ca c w)
     } else Some w)"

text \<open>
  \<open>cosocket_be_read\<close>: fill the buffer from the descriptor, then serve the waiting reader. On end
  of file or an error the connection is closed first, and the reader gets what is there.
\<close>

definition cosocket_be_read ::
    "char \<Rightarrow> se_api \<Rightarrow> resume_fn \<Rightarrow> io_end \<Rightarrow> bytes list \<Rightarrow> addr \<Rightarrow> world \<Rightarrow> world option" where
  "cosocket_be_read junk api resume fin segs p w = do {
     (ca, c) \<leftarrow> cok_of p w;
     (e, brk, c) \<leftarrow> fill_buf fin segs (w_brk w) c;
     let w = w\<lparr>w_brk := brk\<rparr>;
     if e \<noteq> IO_again then do {
       let (c, w) = stop_timeout c w;
       (c, w) \<leftarrow> drop_connection api c w;
       if ck_in_read_action c then do {
         (vs, c) \<leftarrow> lua_co_read_buf junk (c\<lparr>ck_in_read_action := False\<rparr>);
         let w = put_cok ca (c\<lparr>ck_inuse := False\<rparr>) w;
         if vs \<noteq> [] then after_resume api ca (resume (ck_L c) vs w)
         else if e = IO_eof then after_resume api ca (resume (ck_L c) [LNil] w)
         else Some w
       } else Some (put_cok ca c w)
     } else if ck_in_read_action c then do {
       (vs, c) \<leftarrow> lua_co_read_buf junk c;
       if vs \<noteq> [] then
         (let (c, w) = stop_timeout (c\<lparr>ck_in_read_action := False\<rparr>) w
          in after_resume api ca (resume (ck_L c) vs (put_cok ca (c\<lparr>ck_inuse := False\<rparr>) w)))
       else Some (put_cok ca c w)
     } else Some (put_cok ca c w) }"

text \<open>The second argument of \<open>read\<close>; the test for a negative count is on a \<open>size_t\<close> and never holds.\<close>

definition read_len :: "lua_lib \<Rightarrow> lua_value list \<Rightarrow> u64" where
  "read_len lib st =
     (if lua_isnumber lib st 2 then size_of_number (lua_tonumber lib st 2)
      else if lua_isstring st 2 \<and> lua_tostring lib st 2 = Some ''*a'' then - 2
      else - 1)"

definition lua_co_read ::
    "char \<Rightarrow> lua_lib \<Rightarrow> se_api \<Rightarrow> lthread \<Rightarrow> lua_value list \<Rightarrow> world \<Rightarrow> (lua_ret \<times> world) option" where
  "lua_co_read junk lib api L st w =
     (case arg st 1 of
        Some (LUserdata ca) \<Rightarrow> do {
          c \<leftarrow> w_coks w ca;
          if (ck_status c \<noteq> 2 \<or> ck_fd c = - 1 \<or> ck_ptr c = None) \<and> ck_total_buf_len c < 1
          then Some (Ret [LNil, lstr ''Not connected!''], w)
          else if ck_inuse c then Some (Ret [LNil, lstr ''socket busy!''], w)
          else do {
            (vs, c) \<leftarrow> lua_co_read_buf junk (c\<lparr>ck_L := Some L, ck_buf_read_len := read_len lib st\<rparr>);
            if vs \<noteq> [] then Some (Ret vs, put_cok ca c w)
            else if ck_fd c = - 1 then Some (Ret [LNil, lstr ''Not connected!''], put_cok ca c w)
            else do {
              let (r, w) = (if \<not> ck_in_read_action c then se_be_read api (ck_ptr c) H_be_read w else (0, w));
              let c = c\<lparr>ck_in_read_action := True\<rparr>;
              if r = - 1 then
                Some (Ret [LNil, lstr ''Network Error!''],
                      put_cok ca (c\<lparr>ck_fd := - 1\<rparr>) (emit (E_close (ck_fd c)) w))
              else
                (let (c, w) = start_timeout ca c w
                 in Some (Yield, put_cok ca (c\<lparr>ck_inuse := True\<rparr>) w)) } } }
      | Some (LLight _) \<Rightarrow> None
      | _ \<Rightarrow> Some (Ret [LNil, lstr ''Error params!''], w))"

section \<open>Closing\<close>

definition free_ssl :: "cosocket \<Rightarrow> world \<Rightarrow> world option" where
  "free_ssl c w = do {
     let w = (if ck_ssl c \<noteq> None then emit (E_ssl_free (ck_ssl c)) w else w);
     let w = (if ck_ctx c \<noteq> None then emit (E_ssl_ctx_free (ck_ctx c)) w else w);
     case ck_ssl_pw c of Garbage \<Rightarrow> None | Init q \<Rightarrow> Some (free_ptr q w) }"

text \<open>
  \<open>_lua_co_close\<close>: an open connection goes back to the pool if the socket has one with room,
  and is closed otherwise.
\<close>

definition lua_co_close_cok :: "net_env \<Rightarrow> se_api \<Rightarrow> addr \<Rightarrow> world \<Rightarrow> world option" where
  "lua_co_close_cok env api ca w = do {
     c \<leftarrow> w_coks w ca;
     let w = free_ptr (ck_send_buf_need_free c) w;
     w \<leftarrow> (case ck_pool_wait c of None \<Rightarrow> Some w | Some n \<Rightarrow> delete_in_waiting_get_connection n w);
     let (c, w) = stop_timeout (c\<lparr>ck_read_buf := [], ck_send_buf_need_free := None, ck_pool_wait := None\<rparr>) w;
     let c = c\<lparr>ck_status := 0\<rparr>;
     if ck_fd c > - 1 then do {
       p \<leftarrow> ck_ptr c;
       h \<leftarrow> poke p (\<lambda>sp. sp\<lparr>sp_fd := ck_fd c\<rparr>) (w_se w);
       let w = w\<lparr>w_se := h\<rparr>;
       (kept, w) \<leftarrow> (if ck_pool_size c < 1 then Some (0, w)
                       else add_connection_to_pool api (ne_malloc env) (ck_pool_key c) (ck_pool_size c) (ck_ptr c)
                              (ck_ssl c) (ck_ctx c) (ck_ssl_pw c) w);
       w \<leftarrow> (if kept = 0 then do {
                let w = se_delete api (ck_ptr c) w;
                w \<leftarrow> connection_pool_counter_operate (ck_pool_key c) (- 1) w;
                free_ssl c (emit (E_close (ck_fd c)) w) }
              else Some w);
       Some (put_cok ca (c\<lparr>ck_ssl := None, ck_ctx := None, ck_ssl_pw := Init None, ck_ptr := None, ck_fd := - 1\<rparr>) w)
     } else Some (put_cok ca c w) }"

definition lua_co_close :: "net_env \<Rightarrow> se_api \<Rightarrow> lua_value list \<Rightarrow> world \<Rightarrow> (lua_ret \<times> world) option" where
  "lua_co_close env api st w =
     (case arg st 1 of
        Some (LUserdata ca) \<Rightarrow> do {
          c \<leftarrow> w_coks w ca;
          if ck_status c \<noteq> 2 then Some (Ret [LNil, lstr ''Not connected!''], w)
          else if ck_inuse c then Some (Ret [LNil, lstr ''socket busy!''], w)
          else do { w \<leftarrow> lua_co_close_cok env api ca w; Some (Ret [], w) } }
      | Some (LLight _) \<Rightarrow> None
      | _ \<Rightarrow> Some (Ret [LNil, lstr ''Error params!''], w))"

definition lua_co_gc :: "net_env \<Rightarrow> se_api \<Rightarrow> lua_value list \<Rightarrow> world \<Rightarrow> (lua_ret \<times> world) option" where
  "lua_co_gc env api st w =
     (case arg st 1 of
        Some (LUserdata ca) \<Rightarrow> do { w \<leftarrow> lua_co_close_cok env api ca w; Some (Ret [], w) }
      | _ \<Rightarrow> None)"

definition lua_co_getreusedtimes :: "lua_value list \<Rightarrow> world \<Rightarrow> (lua_ret \<times> world) option" where
  "lua_co_getreusedtimes st w =
     (case arg st 1 of
        Some (LUserdata ca) \<Rightarrow> do { c \<leftarrow> w_coks w ca; Some (Ret [lint (ck_reusedtimes c)], w) }
      | _ \<Rightarrow> None)"

definition lua_co_settimeout :: "lua_lib \<Rightarrow> lua_value list \<Rightarrow> world \<Rightarrow> (lua_ret \<times> world) option" where
  "lua_co_settimeout lib st w =
     (if \<not> lua_isuserdata st 1 \<or> \<not> lua_isnumber lib st 2
      then Some (Ret [LNil, lstr ''Error params!''], w)
      else case arg st 1 of
        Some (LUserdata ca) \<Rightarrow> do {
          c \<leftarrow> w_coks w ca;
          Some (Ret [], put_cok ca (c\<lparr>ck_timeout := int_of_number (lua_tonumber lib st 2)\<rparr>) w) }
      | _ \<Rightarrow> None)"

definition lua_co_setkeepalive :: "lua_lib \<Rightarrow> net_env \<Rightarrow> se_api \<Rightarrow> lua_value list \<Rightarrow> world \<Rightarrow> (lua_ret \<times> world) option" where
  "lua_co_setkeepalive lib env api st w =
     (if \<not> lua_isuserdata st 1 \<or> \<not> lua_isnumber lib st 2
      then Some (Ret [LNil, lstr ''Error params!''], w)
      else case arg st 1 of
        Some (LUserdata ca) \<Rightarrow> do {
          c \<leftarrow> w_coks w ca;
          let c = c\<lparr>ck_pool_size := clamp_size (int_of_number (lua_tonumber lib st 2))\<rparr>;
          (pc, w) \<leftarrow> get_connection_pool_counter (ck_pool_key c) w;
          h \<leftarrow> poke pc (\<lambda>n. if word_of_int (ck_pool_size c) > pc_size n
                              then n\<lparr>pc_size := word_of_int (ck_pool_size c)\<rparr> else n) (w_cnodes w);
          let w = w\<lparr>w_cnodes := h\<rparr>;
          let c = (if lua_gettop st = 3 \<and> lua_isstring st 3
                   then (case lua_tolstring lib st 3 of
                           Some key \<Rightarrow> c\<lparr>ck_pool_key := ucast (ne_fnv1a_32 env key)\<rparr> | None \<Rightarrow> c)
                   else c);
          w \<leftarrow> lua_co_close_cok env api ca (put_cok ca c w);
          Some (Ret [LBool True], w) }
      | _ \<Rightarrow> None)"

section \<open>Creating sockets\<close>

text \<open>
  \<open>lua_co_tcp\<close>. The new object is pushed above the arguments; the error branches push onto
  \<open>cok->L\<close>, which is still \<open>NULL\<close> there.
\<close>

definition cert_arg :: "lua_lib \<Rightarrow> lua_value list \<Rightarrow> bytes option" where
  "cert_arg lib st = do {
     a \<leftarrow> lua_tostring lib st 1;
     b \<leftarrow> lua_tostring lib st 2;
     Some (a @ '':'' @ b @ '':'' @ (if lua_isstring st 3 then c_str (the (lua_tolstring lib st 3)) else [])) }"

text \<open>
  \<open>snprintf\<close> into the 4096 bytes of \<open>temp_buf\<close> returns the untruncated length, which is
  then hashed: beyond 4096 that reads past the buffer.
\<close>

definition temp_buf_key :: "bytes \<Rightarrow> bytes option" where
  "temp_buf_key s = (if length s < 4096 then Some s
     else if length s = 4096 then Some (take 4095 s @ [CHR 0x00]) else None)"

definition lua_co_tcp :: "lua_lib \<Rightarrow> net_env \<Rightarrow> lthread \<Rightarrow> lua_value list \<Rightarrow> world \<Rightarrow> (lua_ret \<times> world) option" where
  "lua_co_tcp lib env L st w = do {
     let ca = w_brk w;
     let w = w\<lparr>w_brk := Suc ca\<rparr>;
     let st = st @ [LUserdata ca];
     let c = cosocket_zero;
     (c, w) \<leftarrow>
       (if lua_isstring st 1 \<and> lua_isstring st 2 then do {
          let c = c\<lparr>ck_ctx := ne_ctx_new env\<rparr>;
          if ck_ctx c = None then None
          else do {
            sign \<leftarrow> cert_arg lib st;
            sign \<leftarrow> temp_buf_key sign;
            let (c, w) = (if lua_isstring st 3 \<and> ne_malloc env
                          then (c\<lparr>ck_ssl_pw := Init (Some (w_brk w))\<rparr>, w\<lparr>w_brk := Suc (w_brk w)\<rparr>) else (c, w));
            let c = c\<lparr>ck_ssl_sign := ucast (ne_fnv1a_32 env sign)\<rparr>;
            if ne_use_cert env \<noteq> 1 \<or> ne_use_key env \<noteq> 1 \<or> ne_check_key env = 0 then None
            else Some (c\<lparr>ck_use_ssl := True\<rparr>, w) }
        } else if lua_isboolean st 1 \<and> lua_toboolean st 1 then Some (c\<lparr>ck_use_ssl := True\<rparr>, w)
        else Some (c, w));
     Some (Ret [LUserdata ca], put_cok ca (c\<lparr>ck_L := Some L, ck_fd := - 1, ck_timeout := 30000\<rparr>) w) }"

end
