(* ===== verification/Idle_Pool.thy ===== *)
theory Idle_Pool
  imports Conn_Pool
begin

text \<open>
  The idle connections of the pool: the chains of the two generations refine lists of nodes.
  Closing, taking, adding and ageing connections are each shown to change exactly the list
  they should, to keep the counters in step and to release exactly what they should.
\<close>

section \<open>The idle connections refine one list of nodes per generation and bucket\<close>

text \<open>Everything of a pool node but its links.\<close>

definition pdata :: "pool_node \<Rightarrow> ptr \<times> u64 \<times> ptr \<times> ptr \<times> ptr cell \<times> int" where
  "pdata n = (cp_ptr n, cp_pool_key n, cp_ctx n, cp_ssl n, cp_ssl_pw n, cp_z n)"

abbreviation pbucket :: "(addr \<Rightarrow> pool_node option) \<Rightarrow> addr \<Rightarrow> nat option" where
  "pbucket h a \<equiv> map_option (\<lambda>n. bucket (cp_pool_key n)) (h a)"

definition pool_rel :: "(nat \<Rightarrow> nat \<Rightarrow> ptr) \<Rightarrow> (addr \<Rightarrow> pool_node option) \<Rightarrow> addr
    \<Rightarrow> (nat \<Rightarrow> nat \<Rightarrow> addr list) \<Rightarrow> bool" where
  "pool_rel pl h brk P \<longleftrightarrow>
     (\<forall>g k. dseg cp_next cp_uper h None (pl g k) (P g k)
        \<and> (\<forall>a \<in> set (P g k). a < brk \<and> pbucket h a = Some k))
     \<and> (\<forall>g g' k. g \<noteq> g' \<longrightarrow> set (P g k) \<inter> set (P g' k) = {})
     \<and> (\<forall>g k. 2 \<le> g \<longrightarrow> P g k = [])"

definition upd2 :: "(nat \<Rightarrow> nat \<Rightarrow> 'a) \<Rightarrow> nat \<Rightarrow> nat \<Rightarrow> 'a \<Rightarrow> nat \<Rightarrow> nat \<Rightarrow> 'a" where
  "upd2 f g k v = f(g := (f g)(k := v))"

lemma upd2_apply: "upd2 f g k v g' k' = (if g' = g \<and> k' = k then v else f g' k')"
  by (simp add: upd2_def)

lemma pbucket_of_pdata:
  "map_option pdata (h' b) = map_option pdata (h b) \<Longrightarrow> pbucket h' b = pbucket h b"
  by (cases "h' b"; cases "h b") (auto simp: pdata_def)

lemma pool_rel_unique:
  assumes "pool_rel pl h brk P" and "a \<in> set (P g k)" and "a \<in> set (P g' k')"
  shows "g = g' \<and> k = k'"
proof -
  have "pbucket h a = Some k" "pbucket h a = Some k'" using assms by (auto simp: pool_rel_def)
  then have "k = k'" by simp
  with assms show ?thesis unfolding pool_rel_def by blast
qed

lemma pool_rel_gen: "pool_rel pl h brk P \<Longrightarrow> a \<in> set (P g k) \<Longrightarrow> g = 0 \<or> g = 1"
  unfolding pool_rel_def by (metis One_nat_def empty_iff less_2_cases linorder_not_less list.set(1))

text \<open>
  Changing the chain of one bucket: the chains of the other buckets survive if their nodes do.
\<close>

lemma pool_rel_upd:
  assumes rel: "pool_rel pl h brk P" and g: "g < 2" and brk: "brk \<le> brk'"
    and seg: "dseg cp_next cp_uper h' None v as"
    and new: "\<And>a. a \<in> set as \<Longrightarrow> a < brk' \<and> pbucket h' a = Some k"
    and disj: "\<And>g' k' a. a \<in> set (P g' k') \<Longrightarrow> (g', k') \<noteq> (g, k) \<Longrightarrow> a \<notin> set as \<and> h' a = h a"
  shows "pool_rel (upd2 pl g k v) h' brk' (upd2 P g k as)"
proof -
  have old: "dseg cp_next cp_uper h' None (pl g' k') (P g' k')
      \<and> (\<forall>a \<in> set (P g' k'). a < brk' \<and> pbucket h' a = Some k')" if "(g', k') \<noteq> (g, k)" for g' k'
  proof -
    have "dseg cp_next cp_uper h' None (pl g' k') (P g' k')"
      using rel disj [OF _ that] by (subst dseg_cong [of "P g' k'" h' h]) (auto simp: pool_rel_def)
    with rel brk disj [OF _ that] show ?thesis by (fastforce simp: pool_rel_def)
  qed
  show ?thesis
    unfolding pool_rel_def
  proof (intro conjI allI impI, goal_cases)
    case (1 g' k')
    then show ?case using old [of g' k'] seg by (auto simp: upd2_apply)
  next
    case (2 g' k')
    then show ?case using old [of g' k'] new by (auto simp: upd2_apply simp del: map_option_eq_Some)
  next
    case (3 g1 g2 k')
    then show ?case using rel disj [of _ g1 k'] disj [of _ g2 k']
      by (auto simp: upd2_apply pool_rel_def split: if_splits)
  next
    case (4 g' k')
    then show ?case using rel g by (auto simp: upd2_apply pool_rel_def)
  qed
qed

text \<open>Unlinking a node, in the two shapes the code has: the head of its bucket, or not.\<close>

lemma pool_unlink:
  assumes rel: "pool_rel pl h brk P" and at: "P g k = xs @ a # ys" and n: "h a = Some n"
  shows "\<exists>h2. (xs = [] \<longrightarrow> pl g k = Some a \<and> poke_if (cp_next n) (cp_uper_update (\<lambda>_. None)) h = Some h2)
      \<and> (xs \<noteq> [] \<longrightarrow> pl g k \<noteq> Some a \<and> (\<exists>u h1. cp_uper n = Some u
          \<and> poke u (cp_next_update (\<lambda>_. cp_next n)) h = Some h1
          \<and> poke_if (cp_next n) (cp_uper_update (\<lambda>_. cp_uper n)) h1 = Some h2))
      \<and> pool_rel (upd2 pl g k (if xs = [] then cp_next n else pl g k)) (h2(a := None)) brk
         (upd2 P g k (xs @ ys))
      \<and> (\<forall>b. map_option pdata (h2 b) = map_option pdata (h b))"
proof -
  have seg: "dseg cp_next cp_uper h None (pl g k) (xs @ a # ys)"
    and nodes: "\<And>b. b \<in> set (P g k) \<Longrightarrow> b < brk \<and> pbucket h b = Some k"
    using rel at [symmetric] by (auto simp: pool_rel_def simp del: map_option_eq_Some)
  have g: "g < 2" using pool_rel_gen [OF rel, of a g k] at by auto
  have dist: "distinct (xs @ a # ys)" using seg by (rule dseg_distinct)
  note ul = pool_dll.unlink_dseg [OF seg n]
  obtain h1 h2 where h: "poke_if (cp_uper n) (cp_next_update (\<lambda>_. cp_next n)) h = Some h1"
    "poke_if (cp_next n) (cp_uper_update (\<lambda>_. cp_uper n)) h1 = Some h2"
    "dseg cp_next cp_uper h2 None (if xs = [] then cp_next n else pl g k) (xs @ ys)"
    using ul(3) by auto
  have data: "map_option pdata (h2 b) = map_option pdata (h b)" for b
    using poke_if_data [OF h(1), of pdata b] poke_if_data [OF h(2), of pdata b] by (simp add: pdata_def)
  have frame: "h2 b = h b" if "b \<notin> set (xs @ ys)" for b
  proof -
    have "cp_uper n \<noteq> Some b" "cp_next n \<noteq> Some b"
      using ul(1,2) that by (auto simp: last_ptr_def split: if_splits list.splits)
    then show ?thesis using poke_if_other [OF h(1)] poke_if_other [OF h(2)] by simp
  qed
  have head: "pl g k = Some a \<longleftrightarrow> xs = []"
    using dseg_head [OF seg] dist by (cases xs) auto
  have "pool_rel (upd2 pl g k (if xs = [] then cp_next n else pl g k)) (h2(a := None)) brk
         (upd2 P g k (xs @ ys))"
  proof (rule pool_rel_upd [OF rel g])
    show "dseg cp_next cp_uper (h2(a := None)) None (if xs = [] then cp_next n else pl g k) (xs @ ys)"
      using h(3) dist by simp
    show "b < brk \<and> pbucket (h2(a := None)) b = Some k" if "b \<in> set (xs @ ys)" for b
      using that nodes [of b] at dist pbucket_of_pdata [of h2 b h, OF data]
      by (auto simp del: map_option_eq_Some)
    show "b \<notin> set (xs @ ys) \<and> (h2(a := None)) b = h b" if "b \<in> set (P g' k')" "(g', k') \<noteq> (g, k)" for b g' k'
    proof -
      have "b \<notin> set (P g k)" using pool_rel_unique [OF rel that(1)] that(2) by blast
      then show ?thesis using at frame [of b] by auto
    qed
  qed simp
  then show ?thesis
    using h head ul(1) data by (intro exI [of _ h2]) (auto simp: poke_if_def last_ptr_def split: option.splits)
qed

section \<open>Frame lemmas\<close>

abbreviation pool_at :: "world \<Rightarrow> (nat \<Rightarrow> nat \<Rightarrow> addr list) \<Rightarrow> bool" where
  "pool_at w P \<equiv> pool_rel (w_pool w) (w_pnodes w) (w_brk w) P"

lemma pool_rel_mono: "pool_rel pl h brk P \<Longrightarrow> brk \<le> brk' \<Longrightarrow> pool_rel pl h brk' P"
  unfolding pool_rel_def by (meson less_le_trans)

text \<open>The counters only depend on their own chains; allocating elsewhere does not move them.\<close>

lemma cnt_frame:
  assumes "w_counters w' = w_counters w" and "w_cnodes w' = w_cnodes w" and "w_brk w \<le> w_brk w'"
    and ok: "cnt_ok w"
  shows "cnt_ok w'" and "count_of key w' = count_of key w" and "size_of key w' = size_of key w"
proof -
  obtain C where rel: "cnt_rel w C" using ok by (auto simp: cnt_ok_def)
  have rel': "cnt_rel w' C"
    using rel assms(1-3) unfolding cnt_rel_def by (auto intro: less_le_trans)
  then show "cnt_ok w'" by (auto simp: cnt_ok_def)
  have "counter_of key w' = counter_of key w"
    using cnt_rel_find [OF rel, of key] cnt_rel_find [OF rel', of key] assms(1,2)
    by (auto simp: counter_of_def)
  then show "count_of key w' = count_of key w" "size_of key w' = size_of key w"
    by (simp_all add: count_of_def size_of_def)
qed

lemma set_pool_upd2: "set_pool g k v w = w\<lparr>w_pool := upd2 (w_pool w) g k v\<rparr>"
  by (simp add: set_pool_def upd2_def)

lemma emit_ssl_free_simps [simp]:
  "w_counters (emit_ssl_free s c w) = w_counters w" "w_cnodes (emit_ssl_free s c w) = w_cnodes w"
  "w_brk (emit_ssl_free s c w) = w_brk w" "w_pool (emit_ssl_free s c w) = w_pool w"
  "w_pnodes (emit_ssl_free s c w) = w_pnodes w" "w_se (emit_ssl_free s c w) = w_se w"
  "w_coks (emit_ssl_free s c w) = w_coks w" "w_waiting (emit_ssl_free s c w) = w_waiting w"
  "w_now (emit_ssl_free s c w) = w_now w" "w_loop_fd (emit_ssl_free s c w) = w_loop_fd w"
  "w_process_count (emit_ssl_free s c w) = w_process_count w"
  "w_waiting_end (emit_ssl_free s c w) = w_waiting_end w" "w_wnodes (emit_ssl_free s c w) = w_wnodes w"
  "w_trace (emit_ssl_free s c w) = w_trace w @ (if s \<noteq> None then [E_ssl_free s, E_ssl_ctx_free c] else [])"
  by (simp_all add: emit_ssl_free_def)

text \<open>What the pool operations leave alone.\<close>

definition other_parts :: "world \<Rightarrow> world \<Rightarrow> bool" where
  "other_parts w w' \<longleftrightarrow> w_coks w' = w_coks w \<and> w_waiting w' = w_waiting w
     \<and> w_waiting_end w' = w_waiting_end w \<and> w_wnodes w' = w_wnodes w \<and> w_now w' = w_now w
     \<and> w_loop_fd w' = w_loop_fd w \<and> w_process_count w' = w_process_count w"

text \<open>The counters after one connection with the key is gone.\<close>

definition one_less :: "u64 \<Rightarrow> world \<Rightarrow> world \<Rightarrow> bool" where
  "one_less key w w' \<longleftrightarrow> (\<forall>j. count_of j w' = (if j = key \<and> key \<noteq> 0 then count_of j w - 1 else count_of j w))"

section \<open>Closing an idle connection\<close>

text \<open>Both unlink shapes on a represented pool: the pool heads and the nodes after them.\<close>

lemma unlink_ok:
  assumes rel: "pool_at w P" and at: "P g k = xs @ a # ys" and n: "w_pnodes w a = Some n"
  shows "\<exists>h2. (if w_pool w g k = Some a then unlink_head g k n w else unlink_inner n w)
          = Some (w\<lparr>w_pool := upd2 (w_pool w) g k (if xs = [] then cp_next n else w_pool w g k),
                    w_pnodes := h2\<rparr>)
     \<and> pool_rel (upd2 (w_pool w) g k (if xs = [] then cp_next n else w_pool w g k)) (h2(a := None))
          (w_brk w) (upd2 P g k (xs @ ys))
     \<and> (\<forall>b. map_option pdata (h2 b) = map_option pdata (w_pnodes w b))
     \<and> unlink_idle a k n w = (if w_pool w g k = Some a then unlink_head g k n w else unlink_inner n w)"
proof -
  have seg: "dseg cp_next cp_uper (w_pnodes w) None (w_pool w g' k) (P g' k)" for g'
    using rel by (simp add: pool_rel_def)
  have a: "a \<in> set (P g k)" using at by simp
  have g: "g = 0 \<or> g = 1" using pool_rel_gen [OF rel a] .
  have other: "w_pool w g' k \<noteq> Some a" if "g' \<noteq> g" for g'
    using dseg_head [OF seg [of g']] pool_rel_unique [OF rel a, of g' k] that
    by (auto split: list.splits)
  have idle: "unlink_idle a k n w = (if w_pool w g k = Some a then unlink_head g k n w else unlink_inner n w)"
    using g other [of 0] other [of 1] by (auto simp: unlink_idle_def)
  have self: "upd2 (w_pool w) g k (w_pool w g k) = w_pool w"
    by (simp add: upd2_def)
  obtain h2 where u:
    "xs = [] \<longrightarrow> w_pool w g k = Some a \<and> poke_if (cp_next n) (cp_uper_update (\<lambda>_. None)) (w_pnodes w) = Some h2"
    "xs \<noteq> [] \<longrightarrow> w_pool w g k \<noteq> Some a \<and> (\<exists>u h1. cp_uper n = Some u
          \<and> poke u (cp_next_update (\<lambda>_. cp_next n)) (w_pnodes w) = Some h1
          \<and> poke_if (cp_next n) (cp_uper_update (\<lambda>_. cp_uper n)) h1 = Some h2)"
    "pool_rel (upd2 (w_pool w) g k (if xs = [] then cp_next n else w_pool w g k)) (h2(a := None))
          (w_brk w) (upd2 P g k (xs @ ys))"
    "\<forall>b. map_option pdata (h2 b) = map_option pdata (w_pnodes w b)"
    using pool_unlink [OF rel at n] by (elim exE conjE) 
  have run: "(if w_pool w g k = Some a then unlink_head g k n w else unlink_inner n w)
      = Some (w\<lparr>w_pool := upd2 (w_pool w) g k (if xs = [] then cp_next n else w_pool w g k), w_pnodes := h2\<rparr>)"
  proof (cases "xs = []")
    case True
    with u(1) show ?thesis by (simp add: unlink_head_def poke_pool_if_def set_pool_upd2)
  next
    case False
    with u(2) obtain ua h1 where "cp_uper n = Some ua" "w_pool w g k \<noteq> Some a"
      "poke ua (cp_next_update (\<lambda>_. cp_next n)) (w_pnodes w) = Some h1"
      "poke_if (cp_next n) (cp_uper_update (\<lambda>_. Some ua)) h1 = Some h2"
      by auto
    with False self show ?thesis by (simp add: unlink_inner_def poke_pool_def poke_pool_if_def)
  qed
  show ?thesis by (rule exI [of _ h2]) (intro conjI run idle u(3,4))
qed

lemma be_close_ok:
  assumes "pool_at w P" and "cnt_ok w" and "w_se w p = Some sp" and "sp_data sp = DPool a"
    and "a \<in> set (P g k)" and "w_pnodes w a = Some n"
  shows "\<exists>w'. cosocket_be_close api p w = Some w' \<and> pool_at w' (upd2 P g k (remove1 a (P g k)))
     \<and> w_pnodes w' a = None \<and> cnt_ok w' \<and> one_less (cp_pool_key n) w w'
     \<and> w_trace w' = w_trace w @ (if cp_ssl n \<noteq> None then [E_ssl_free (cp_ssl n), E_ssl_ctx_free (cp_ctx n)] else [])
                       @ [E_close (sp_fd sp)]
     \<and> w_se w' = api_se_delete api (cp_ptr n) (w_se w) \<and> other_parts w w' \<and> w_brk w \<le> w_brk w'
     \<and> (\<forall>b. b \<noteq> a \<longrightarrow> map_option pdata (w_pnodes w' b) = map_option pdata (w_pnodes w b))"
proof -
  obtain xs ys where at: "P g k = xs @ a # ys" using assms(5) by (meson split_list)
  have dist: "distinct (P g k)"
    using assms(1) dseg_distinct unfolding pool_rel_def by blast
  have rem: "remove1 a (P g k) = xs @ ys" using at dist by (simp add: remove1_append)
  have "pbucket (w_pnodes w) a = Some k" using assms(1,5) unfolding pool_rel_def by blast
  then have k: "bucket (cp_pool_key n) = k" using assms(6) by simp
  let ?pl = "upd2 (w_pool w) g k (if xs = [] then cp_next n else w_pool w g k)"
  from unlink_ok [OF assms(1) at assms(6)] obtain h2 where
    ul: "unlink_idle a k n w = Some (w\<lparr>w_pool := ?pl, w_pnodes := h2\<rparr>)"
    and rel': "pool_rel ?pl (h2(a := None)) (w_brk w) (upd2 P g k (xs @ ys))"
    and data: "\<forall>b. map_option pdata (h2 b) = map_option pdata (w_pnodes w b)"
    by auto
  define w1 where "w1 = emit_ssl_free (cp_ssl n) (cp_ctx n)
      (se_delete api (cp_ptr n) (w\<lparr>w_pool := ?pl, w_pnodes := h2\<rparr>))"
  have ok1: "cnt_ok w1" and cnt1: "\<And>j. count_of j w1 = count_of j w"
    using cnt_frame [of w1 w] assms(2) by (simp_all add: w1_def se_delete_def)
  obtain brk cs h where op: "connection_pool_counter_operate (cp_pool_key n) (- 1) w1
        = Some (w1\<lparr>w_brk := brk, w_counters := cs, w_cnodes := h\<rparr>)"
    and brk: "w_brk w1 \<le> brk" and ok2: "cnt_ok (w1\<lparr>w_brk := brk, w_counters := cs, w_cnodes := h\<rparr>)"
    and cnt2: "\<And>j. count_of j (w1\<lparr>w_brk := brk, w_counters := cs, w_cnodes := h\<rparr>)
        = (if j = cp_pool_key n \<and> cp_pool_key n \<noteq> 0 then count_of j w1 + word_of_int (- 1) else count_of j w1)"
    using counter_operate_ok [OF ok1, of "cp_pool_key n" "- 1"] by blast
  let ?w2 = "w1\<lparr>w_brk := brk, w_counters := cs, w_cnodes := h\<rparr>"
  define w' where "w' = (emit (E_close (sp_fd sp)) ?w2)\<lparr>w_pnodes := (w_pnodes w1)(a := None)\<rparr>"
  have run: "cosocket_be_close api p w = Some w'"
    using assms(3,4,6) k ul op by (simp add: cosocket_be_close_def Let_def w1_def w'_def)
  have "cnt_ok w'" and "\<And>j. count_of j w' = count_of j ?w2"
    using cnt_frame [of w' ?w2] ok2 by (simp_all add: w'_def)
  moreover have "pool_at w' (upd2 P g k (xs @ ys))"
    using pool_rel_mono [OF rel' brk [unfolded w1_def, simplified se_delete_def, simplified]]
    by (simp add: w'_def w1_def se_delete_def)
  ultimately show ?thesis
    using run rem cnt1 cnt2 data brk
    by (intro exI [of _ w'] conjI)
      (auto simp: w'_def w1_def se_delete_def one_less_def other_parts_def)
qed

text \<open>
  (C15) When the peer of an idle connection closes it, exactly its node leaves its list, exactly
  its descriptor is closed and its SSL objects are freed once, the registration is deleted,
  and the counter of its key goes down by one while every other counter stays.
\<close>

theorem cosocket_be_close_removes:
  assumes "pool_at w P" and "cnt_ok w" and "w_se w p = Some sp" and "sp_data sp = DPool a"
    and "a \<in> set (P g k)" and "w_pnodes w a = Some n"
  shows "\<exists>w'. cosocket_be_close api p w = Some w' \<and> pool_at w' (upd2 P g k (remove1 a (P g k)))
     \<and> w_pnodes w' a = None \<and> cnt_ok w' \<and> one_less (cp_pool_key n) w w'
     \<and> w_trace w' = w_trace w @ (if cp_ssl n \<noteq> None then [E_ssl_free (cp_ssl n), E_ssl_ctx_free (cp_ctx n)] else [])
                       @ [E_close (sp_fd sp)]
     \<and> w_se w' = api_se_delete api (cp_ptr n) (w_se w) \<and> other_parts w w'"
  using be_close_ok [OF assms] by blast

section \<open>Taking an idle connection\<close>

abbreviation pkey :: "(addr \<Rightarrow> pool_node option) \<Rightarrow> addr \<Rightarrow> u64 option" where
  "pkey h a \<equiv> map_option cp_pool_key (h a)"

lemma find_key_spec:
  assumes "dseg cp_next cp_uper h u q as" and "length as \<le> f"
  shows "find_key h key f q = Some (find (\<lambda>a. pkey h a = Some key) as)"
  using assms
proof (induction as arbitrary: u q f)
  case Nil
  then show ?case by simp
next
  case (Cons a as)
  then obtain f' where "f = Suc f'" by (cases f) auto
  with Cons show ?case by auto
qed

lemma pool_chain:
  assumes "pool_at w P"
  shows "dseg cp_next cp_uper (w_pnodes w) None (w_pool w g k) (P g k)" and "length (P g k) \<le> w_brk w"
    and "distinct (P g k)"
proof -
  show seg: "dseg cp_next cp_uper (w_pnodes w) None (w_pool w g k) (P g k)"
    using assms by (simp add: pool_rel_def)
  show "length (P g k) \<le> w_brk w"
    by (rule dseg_length [OF seg]) (use assms in \<open>auto simp: pool_rel_def\<close>)
  show "distinct (P g k)" using seg by (rule dseg_distinct)
qed

text \<open>The socket objects after \<open>adopt_ssl\<close>.\<close>

definition adopt :: "ptr \<Rightarrow> pool_node \<Rightarrow> (addr \<Rightarrow> cosocket option) \<Rightarrow> addr \<Rightarrow> cosocket option" where
  "adopt ca n coks a = (if ca = Some a
     then map_option (\<lambda>c. c\<lparr>ck_ctx := cp_ctx n, ck_ssl := cp_ssl n, ck_ssl_pw := cp_ssl_pw n\<rparr>) (coks a)
     else coks a)"

definition ssl_ready :: "ptr \<Rightarrow> world \<Rightarrow> bool" where
  "ssl_ready ca w = (case ca of None \<Rightarrow> True | Some a \<Rightarrow>
     (case w_coks w a of None \<Rightarrow> False | Some c \<Rightarrow> ck_ssl_pw c \<noteq> Garbage))"

lemma ssl_ready_frame: "w_coks w' = w_coks w \<Longrightarrow> ssl_ready ca w' = ssl_ready ca w"
  unfolding ssl_ready_def by (rule arg_cong2 [of _ _ _ _ "case_option True"]) auto

lemma adopt_ssl_ok:
  assumes "ssl_ready ca w"
  shows "\<exists>t. adopt_ssl ca n w = Some (w\<lparr>w_coks := adopt ca n (w_coks w), w_trace := w_trace w @ t\<rparr>)
     \<and> (\<forall>e \<in> set t. (\<exists>x. e = E_ssl_ctx_free x) \<or> (\<exists>x. e = E_free x))"
proof (cases ca)
  case None
  then have "adopt_ssl ca n w = Some (w\<lparr>w_coks := adopt ca n (w_coks w), w_trace := w_trace w @ []\<rparr>)"
    by (simp add: adopt_ssl_def adopt_def [abs_def])
  then show ?thesis by fastforce
next
  case (Some a)
  then obtain c where c: "w_coks w a = Some c" "ck_ssl_pw c \<noteq> Garbage"
    using assms by (auto simp: ssl_ready_def split: option.splits)
  then obtain q where q: "ck_ssl_pw c = Init q" by (cases "ck_ssl_pw c") auto
  have up: "(w_coks w)(a \<mapsto> c\<lparr>ck_ctx := cp_ctx n, ck_ssl := cp_ssl n, ck_ssl_pw := cp_ssl_pw n\<rparr>)
      = adopt ca n (w_coks w)"
    using Some c by (auto simp: adopt_def fun_eq_iff)
  let ?t = "(if ck_ctx c \<noteq> None then [E_ssl_ctx_free (ck_ctx c)] else [])
      @ (case q of None \<Rightarrow> [] | Some z \<Rightarrow> [E_free (Some z)])"
  have "adopt_ssl ca n w = Some (w\<lparr>w_coks := adopt ca n (w_coks w), w_trace := w_trace w @ ?t\<rparr>)"
    using Some c q up
    by (cases q; cases "ck_ctx c") (simp_all add: adopt_ssl_def Let_def put_cok_def emit_def)
  then show ?thesis by (intro exI [of _ ?t]) (auto split: option.splits if_splits)
qed

text \<open>Between the two states no descriptor was closed and no connection was opened.\<close>

definition same_fds :: "world \<Rightarrow> world \<Rightarrow> bool" where
  "same_fds w w' \<longleftrightarrow> (\<exists>t. w_trace w' = w_trace w @ t \<and> (\<forall>e \<in> set t. (\<forall>fd. e \<noteq> E_close fd) \<and> (\<forall>h p d. e \<noteq> E_connect h p d)))"

lemma take_conn_ok:
  assumes rel: "pool_at w P" and ready: "ssl_ready ca w"
  shows "case find (\<lambda>a. pkey (w_pnodes w) a = Some key) (P g (bucket key)) of
      None \<Rightarrow> take_conn g key ca w = Some (None, w)
    | Some a \<Rightarrow> \<exists>n w'. w_pnodes w a = Some n \<and> take_conn g key ca w = Some (cp_ptr n, w')
        \<and> pool_at w' (upd2 P g (bucket key) (remove1 a (P g (bucket key))))
        \<and> w_pnodes w' a = None
        \<and> (\<forall>b. b \<noteq> a \<longrightarrow> map_option pdata (w_pnodes w' b) = map_option pdata (w_pnodes w b))
        \<and> w_coks w' = adopt ca n (w_coks w) \<and> w_se w' = w_se w \<and> w_brk w' = w_brk w
        \<and> w_counters w' = w_counters w \<and> w_cnodes w' = w_cnodes w \<and> same_fds w w'"
proof -
  let ?k = "bucket key"
  have fk: "find_key (w_pnodes w) key (w_brk w) (w_pool w g ?k)
      = Some (find (\<lambda>a. pkey (w_pnodes w) a = Some key) (P g ?k))"
    by (rule find_key_spec [OF pool_chain(1) [OF rel] pool_chain(2) [OF rel]])
  show ?thesis
  proof (cases "find (\<lambda>a. pkey (w_pnodes w) a = Some key) (P g ?k)")
    case None
    with fk show ?thesis by (simp add: take_conn_def Let_def)
  next
    case (Some a)
    then have a: "a \<in> set (P g ?k)" "pkey (w_pnodes w) a = Some key"
      by (auto simp: find_Some_iff simp del: map_option_eq_Some)
    then obtain n where n: "w_pnodes w a = Some n" by auto
    obtain xs ys where at: "P g ?k = xs @ a # ys" using a(1) by (meson split_list)
    have rem: "remove1 a (P g ?k) = xs @ ys"
      using at pool_chain(3) [OF rel, of g ?k] by (simp add: remove1_append)
    let ?pl = "upd2 (w_pool w) g ?k (if xs = [] then cp_next n else w_pool w g ?k)"
    obtain h2 where h2: "(if w_pool w g ?k = Some a then unlink_head g ?k n w else unlink_inner n w)
          = Some (w\<lparr>w_pool := ?pl, w_pnodes := h2\<rparr>)"
      "pool_rel ?pl (h2(a := None)) (w_brk w) (upd2 P g ?k (xs @ ys))"
      "\<forall>b. map_option pdata (h2 b) = map_option pdata (w_pnodes w b)"
      using unlink_ok [OF rel at n] by blast
    let ?w1 = "w\<lparr>w_pool := ?pl, w_pnodes := h2\<rparr>"
    have "ssl_ready ca ?w1" using ready ssl_ready_frame [of ?w1 w ca] by simp
    then obtain t where t: "adopt_ssl ca n ?w1 = Some (?w1\<lparr>w_coks := adopt ca n (w_coks w), w_trace := w_trace w @ t\<rparr>)"
      "\<forall>e \<in> set t. (\<forall>fd. e \<noteq> E_close fd) \<and> (\<forall>h p d. e \<noteq> E_connect h p d)"
      using adopt_ssl_ok [of ca ?w1 n] by fastforce
    let ?w' = "w\<lparr>w_pool := ?pl, w_pnodes := h2(a := None), w_coks := adopt ca n (w_coks w), w_trace := w_trace w @ t\<rparr>"
    have "take_conn g key ca w = Some (cp_ptr n, ?w')"
      using fk Some n h2(1) t(1) by (simp add: take_conn_def Let_def)
    moreover have "same_fds w ?w'" using t(2) by (auto simp: same_fds_def)
    ultimately have "\<exists>w'. take_conn g key ca w = Some (cp_ptr n, w')
        \<and> pool_at w' (upd2 P g ?k (remove1 a (P g ?k))) \<and> w_pnodes w' a = None
        \<and> (\<forall>b. b \<noteq> a \<longrightarrow> map_option pdata (w_pnodes w' b) = map_option pdata (w_pnodes w b))
        \<and> w_coks w' = adopt ca n (w_coks w) \<and> w_se w' = w_se w \<and> w_brk w' = w_brk w
        \<and> w_counters w' = w_counters w \<and> w_cnodes w' = w_cnodes w \<and> same_fds w w'"
      using h2(2,3) rem by (intro exI [of _ ?w']) simp
    with Some n show ?thesis by simp
  qed
qed

text \<open>
  Taking a connection out of a generation gives the first one with the key, in the order of
  the bucket, removes exactly that node, hands its SSL objects to the socket and leaves every
  other idle connection and every counter as it was; without a match nothing changes.
\<close>

theorem take_conn_refines:
  assumes rel: "pool_at w P" and ready: "ssl_ready ca w"
  shows "case find (\<lambda>a. pkey (w_pnodes w) a = Some key) (P g (bucket key)) of
      None \<Rightarrow> take_conn g key ca w = Some (None, w)
    | Some a \<Rightarrow> \<exists>n w'. w_pnodes w a = Some n \<and> take_conn g key ca w = Some (cp_ptr n, w')
        \<and> pool_at w' (upd2 P g (bucket key) (remove1 a (P g (bucket key))))
        \<and> w_pnodes w' a = None
        \<and> (\<forall>b. b \<noteq> a \<longrightarrow> map_option pdata (w_pnodes w' b) = map_option pdata (w_pnodes w b))
        \<and> w_coks w' = adopt ca n (w_coks w) \<and> w_se w' = w_se w \<and> w_brk w' = w_brk w
        \<and> w_counters w' = w_counters w \<and> w_cnodes w' = w_cnodes w \<and> same_fds w w'"
  by (rule take_conn_ok [OF rel ready])

section \<open>Ageing\<close>

text \<open>The registration and the descriptor behind a node, and that a set of nodes has its own.\<close>

definition ptr_of :: "world \<Rightarrow> addr \<Rightarrow> ptr" where
  "ptr_of w a = (case w_pnodes w a of None \<Rightarrow> None | Some n \<Rightarrow> cp_ptr n)"

definition fd_of :: "world \<Rightarrow> addr \<Rightarrow> int option" where
  "fd_of w a = (case ptr_of w a of None \<Rightarrow> None | Some p \<Rightarrow> map_option sp_fd (w_se w p))"

definition live :: "world \<Rightarrow> addr set \<Rightarrow> bool" where
  "live w A \<longleftrightarrow> (\<forall>a \<in> A. fd_of w a \<noteq> None) \<and> inj_on (ptr_of w) A"

definition young :: "world \<Rightarrow> addr \<Rightarrow> bool" where
  "young w a \<longleftrightarrow> map_option cp_z (w_pnodes w a) = Some 0"

text \<open>Deleting one registration of the event loop leaves the others.\<close>

definition se_delete_local :: "se_api \<Rightarrow> bool" where
  "se_delete_local api \<longleftrightarrow> (\<forall>p h a. p \<noteq> Some a \<longrightarrow> api_se_delete api p h a = h a)"

lemma upd2_commute:
  "(g, k) \<noteq> (g', k') \<Longrightarrow> upd2 (upd2 f g k v) g' k' v' = upd2 (upd2 f g' k' v') g k v"
  by (auto simp: upd2_apply fun_eq_iff)

lemma clear_node_young:
  assumes rel: "pool_rel (upd2 (w_pool w) q i None) (w_pnodes w) (w_brk w) P" and pq: "p < 2" "p \<noteq> q"
    and m: "\<And>g k. m \<notin> set (P g k)" "m < w_brk w" "w_pnodes w m = Some n"
    and n: "bucket (cp_pool_key n) = i" "cp_z n = 0"
  shows "\<exists>h'. clear_node api p m w = Some (w\<lparr>w_pnodes := h', w_pool := upd2 (w_pool w) p i (Some m)\<rparr>)
     \<and> pool_rel (upd2 (upd2 (w_pool w) p i (Some m)) q i None) h' (w_brk w) (upd2 P p i (m # P p i))
     \<and> (\<forall>b. b \<noteq> m \<longrightarrow> map_option pdata (h' b) = map_option pdata (w_pnodes w b))
     \<and> (\<forall>b. b \<noteq> m \<longrightarrow> b \<notin> set (P p i) \<longrightarrow> h' b = w_pnodes w b)
     \<and> map_option pdata (h' m) = Some (pdata (n\<lparr>cp_z := 1\<rparr>))"
proof -
  let ?nn = "w_pool w p i" and ?n' = "n\<lparr>cp_z := 1, cp_uper := None, cp_next := w_pool w p i\<rparr>"
  have seg: "dseg cp_next cp_uper (w_pnodes w) None ?nn (P p i)"
    using rel pq by (auto simp: pool_rel_def upd2_apply dest: spec [of _ p])
  then have seg1: "dseg cp_next cp_uper ((w_pnodes w)(m \<mapsto> ?n')) None ?nn (P p i)"
    using m(1) by simp
  obtain h' where h': "poke_if ?nn (cp_uper_update (\<lambda>_. Some m)) ((w_pnodes w)(m \<mapsto> ?n')) = Some h'"
    "dseg cp_next cp_uper h' None (Some m) (m # P p i)"
    using pool_dll.push_dseg [OF seg1 m(1), of ?n'] by auto
  have data: "map_option pdata (h' b) = map_option pdata (((w_pnodes w)(m \<mapsto> ?n')) b)" for b
    by (rule poke_if_data [OF h'(1)]) (simp add: pdata_def)
  have out: "h' b = w_pnodes w b" if "b \<noteq> m" "b \<notin> set (P p i)" for b
    using poke_if_other [OF h'(1), of b] dseg_head [OF seg] that by (auto split: list.splits)
  have nodes: "\<And>b. b \<in> set (P p i) \<Longrightarrow> b < w_brk w \<and> pbucket (w_pnodes w) b = Some i"
    using rel unfolding pool_rel_def by blast
  have "pool_rel (upd2 (upd2 (w_pool w) q i None) p i (Some m)) h' (w_brk w) (upd2 P p i (m # P p i))"
  proof (rule pool_rel_upd [OF rel pq(1)])
    show "dseg cp_next cp_uper h' None (Some m) (m # P p i)" by (rule h'(2))
    show "a < w_brk w \<and> pbucket h' a = Some i" if "a \<in> set (m # P p i)" for a
    proof (cases "a = m")
      case True
      with data [of m] m n show ?thesis by (auto simp: pdata_def)
    next
      case False
      with that nodes [of a] pbucket_of_pdata [of h' a "w_pnodes w"] data [of a] show ?thesis
        by (simp del: map_option_eq_Some)
    qed
    show "a \<notin> set (m # P p i) \<and> h' a = w_pnodes w a" if "a \<in> set (P g' k')" "(g', k') \<noteq> (p, i)" for g' k' a
      using that m(1) out [of a] pool_rel_unique [OF rel that(1), of p i] by auto
  qed simp
  then have "pool_rel (upd2 (upd2 (w_pool w) p i (Some m)) q i None) h' (w_brk w) (upd2 P p i (m # P p i))"
    using pq(2) upd2_commute [of q i p i] by (metis prod.inject)
  moreover have "clear_node api p m w = Some (w\<lparr>w_pnodes := h', w_pool := upd2 (w_pool w) p i (Some m)\<rparr>)"
    using m(3) n h'(1) by (simp add: clear_node_def Let_def poke_pool_def poke_pool_if_def poke_def set_pool_upd2)
  ultimately show ?thesis
    using data out by (intro exI [of _ h']) (auto simp: pdata_def)
qed

lemma clear_node_old:
  assumes ok: "cnt_ok w" and n: "w_pnodes w m = Some n" "cp_z n \<noteq> 0" and fd: "fd_of w m = Some fd"
  shows "\<exists>w'. clear_node api p m w = Some w' \<and> w_pnodes w' = (w_pnodes w)(m := None)
     \<and> w_pool w' = w_pool w \<and> w_se w' = api_se_delete api (cp_ptr n) (w_se w) \<and> w_brk w \<le> w_brk w'
     \<and> cnt_ok w' \<and> one_less (cp_pool_key n) w w' \<and> w_trace w' = w_trace w @ [E_close fd] \<and> other_parts w w'"
proof -
  obtain pa sp where sp: "cp_ptr n = Some pa" "w_se w pa = Some sp" "sp_fd sp = fd"
    using fd n by (auto simp: fd_of_def ptr_of_def split: option.splits)
  define w1 where "w1 = se_delete api (cp_ptr n) w"
  have w1: "cnt_ok w1" "\<And>j. count_of j w1 = count_of j w"
    using cnt_frame [of w1 w] ok by (simp_all add: w1_def se_delete_def)
  obtain brk cs h where op: "connection_pool_counter_operate (cp_pool_key n) (- 1) w1
        = Some (w1\<lparr>w_brk := brk, w_counters := cs, w_cnodes := h\<rparr>)"
    and brk: "w_brk w1 \<le> brk" and ok2: "cnt_ok (w1\<lparr>w_brk := brk, w_counters := cs, w_cnodes := h\<rparr>)"
    and cnt2: "\<And>j. count_of j (w1\<lparr>w_brk := brk, w_counters := cs, w_cnodes := h\<rparr>)
        = (if j = cp_pool_key n \<and> cp_pool_key n \<noteq> 0 then count_of j w1 + word_of_int (- 1) else count_of j w1)"
    using counter_operate_ok [OF w1(1), of "cp_pool_key n" "- 1"] by blast
  let ?w2 = "w1\<lparr>w_brk := brk, w_counters := cs, w_cnodes := h\<rparr>"
  define w' where "w' = (emit (E_close fd) ?w2)\<lparr>w_pnodes := (w_pnodes w1)(m := None)\<rparr>"
  have "clear_node api p m w = Some w'"
    using n sp op by (simp add: clear_node_def Let_def w1_def w'_def)
  moreover have "cnt_ok w'" and "\<And>j. count_of j w' = count_of j ?w2"
    using cnt_frame [of w' ?w2] ok2 by (simp_all add: w'_def)
  ultimately show ?thesis
    using w1(2) cnt2 brk
    by (intro exI [of _ w'] conjI) (auto simp: w'_def w1_def se_delete_def one_less_def other_parts_def)
qed

text \<open>
  What clearing a list of nodes does beside moving them: the old ones are closed and counted
  off, the young ones are marked, nothing else changes.
\<close>

definition dropped :: "world \<Rightarrow> addr list \<Rightarrow> u64 \<Rightarrow> nat" where
  "dropped w as j = (if j = 0 then 0
     else length (filter (\<lambda>a. \<not> young w a \<and> pkey (w_pnodes w) a = Some j) as))"

definition marked :: "pool_node option \<Rightarrow> pool_node option" where
  "marked v = map_option (cp_z_update (\<lambda>_. 1)) v"

definition cleared :: "world \<Rightarrow> addr list \<Rightarrow> world \<Rightarrow> bool" where
  "cleared w as w' \<longleftrightarrow> w_brk w \<le> w_brk w' \<and> cnt_ok w'
     \<and> (\<forall>j. count_of j w' = count_of j w - of_nat (dropped w as j))
     \<and> w_trace w' = w_trace w @ map (\<lambda>a. E_close (the (fd_of w a))) (filter (\<lambda>a. \<not> young w a) as)
     \<and> (\<forall>b. b \<notin> set as \<longrightarrow> map_option pdata (w_pnodes w' b) = map_option pdata (w_pnodes w b))
     \<and> (\<forall>a \<in> set as. young w a \<longrightarrow> map_option pdata (w_pnodes w' a) = map_option pdata (marked (w_pnodes w a)))
     \<and> (\<forall>a \<in> set as. \<not> young w a \<longrightarrow> w_pnodes w' a = None)
     \<and> (\<forall>x. Some x \<notin> ptr_of w ` {a \<in> set as. \<not> young w a} \<longrightarrow> w_se w' x = w_se w x)
     \<and> other_parts w w'"

lemma of_pdata:
  assumes "map_option pdata (w_pnodes w' b) = map_option pdata (w_pnodes w b)"
  shows "young w' b = young w b" "pkey (w_pnodes w') b = pkey (w_pnodes w) b" "ptr_of w' b = ptr_of w b"
  using assms by (cases "w_pnodes w' b"; cases "w_pnodes w b"; simp add: young_def ptr_of_def pdata_def)+

lemma marked_ptr: "map_option pdata (w_pnodes w' b) = map_option pdata (marked (w_pnodes w b)) \<Longrightarrow> ptr_of w' b = ptr_of w b"
  by (auto simp: ptr_of_def pdata_def marked_def split: option.splits)

lemma cleared_fd:
  assumes c: "cleared w as w'" and "live w A" and "set as \<subseteq> A" and "b \<in> A" and b: "b \<notin> set as \<or> young w b"
  shows "ptr_of w' b = ptr_of w b" and "fd_of w' b = fd_of w b"
proof -
  show p: "ptr_of w' b = ptr_of w b"
  proof (cases "b \<in> set as")
    case True
    with c b show ?thesis by (intro marked_ptr) (simp add: cleared_def)
  next
    case False
    with c show ?thesis by (intro of_pdata(3)) (simp add: cleared_def)
  qed
  have "ptr_of w b \<notin> ptr_of w ` {a \<in> set as. \<not> young w a}"
    using assms by (auto simp: live_def inj_on_def)
  then have "w_se w' x = w_se w x" if "ptr_of w b = Some x" for x
    using c that by (auto simp: cleared_def)
  with p show "fd_of w' b = fd_of w b" by (auto simp: fd_of_def split: option.splits)
qed

lemma cleared_live:
  assumes "cleared w as w'" and "live w A" and "set as \<subseteq> A"
  shows "live w' (A - {a \<in> set as. \<not> young w a})"
  using assms(2) cleared_fd [OF assms] by (auto simp: live_def inj_on_def)

text \<open>What clearing one part of the nodes leaves as it was for the others.\<close>

lemma cleared_others:
  assumes c1: "cleared w as w1" and l: "live w A" "set as \<subseteq> A" "b \<in> A" and b: "b \<notin> set as"
  shows "map_option pdata (w_pnodes w1 b) = map_option pdata (w_pnodes w b)"
    "young w1 b = young w b" "pkey (w_pnodes w1) b = pkey (w_pnodes w) b" "ptr_of w1 b = ptr_of w b" "fd_of w1 b = fd_of w b"
    "map_option pdata (marked (w_pnodes w1 b)) = map_option pdata (marked (w_pnodes w b))"
proof -
  show pd: "map_option pdata (w_pnodes w1 b) = map_option pdata (w_pnodes w b)"
    using c1 b by (auto simp: cleared_def)
  show "young w1 b = young w b" "pkey (w_pnodes w1) b = pkey (w_pnodes w) b" "ptr_of w1 b = ptr_of w b"
    using of_pdata [OF pd] by auto
  show "fd_of w1 b = fd_of w b" using cleared_fd(2) [OF c1 l(1,2)] b l(3) by auto
  show "map_option pdata (marked (w_pnodes w1 b)) = map_option pdata (marked (w_pnodes w b))"
    using pd by (cases "w_pnodes w1 b"; cases "w_pnodes w b") (auto simp: marked_def pdata_def)
qed

lemma cleared_append:
  assumes c1: "cleared w as w1" and c2: "cleared w1 bs w2" and l: "live w A" "set as \<subseteq> A" "set bs \<subseteq> A"
    and disj: "set as \<inter> set bs = {}"
  shows "cleared w (as @ bs) w2"
proof -
  have "b \<in> A \<and> b \<notin> set as" if "b \<in> set bs" for b using l(3) disj that by blast
  note o = cleared_others [OF c1 l(1,2) conjunct1 [OF this] conjunct2 [OF this]]
  have f: "filter (\<lambda>a. \<not> young w1 a) bs = filter (\<lambda>a. \<not> young w a) bs"
    by (rule filter_cong) (use o(2) in auto)
  have d: "dropped w (as @ bs) j = dropped w as j + dropped w1 bs j" for j
  proof -
    have "filter (\<lambda>a. \<not> young w1 a \<and> pkey (w_pnodes w1) a = Some j) bs
        = filter (\<lambda>a. \<not> young w a \<and> pkey (w_pnodes w) a = Some j) bs"
      by (rule filter_cong) (use o(2,3) in \<open>auto simp del: map_option_eq_Some\<close>)
    then show ?thesis by (simp add: dropped_def)
  qed
  have im: "ptr_of w1 ` {a \<in> set bs. \<not> young w1 a} = ptr_of w ` {a \<in> set bs. \<not> young w a}"
    using o(2,4) by force
  have as2: "map_option pdata (w_pnodes w2 a) = map_option pdata (w_pnodes w1 a)" if "a \<in> set as" for a
    using c2 disj that by (auto simp: cleared_def)
  show ?thesis
    unfolding cleared_def
  proof (intro conjI allI ballI impI, goal_cases)
    case (6 a)
    then show ?case using c1 c2 as2 o(2,6) by (cases "a \<in> set as") (simp_all add: cleared_def)
  next
    case (7 a)
    then show ?case using c1 c2 as2 [of a] o(2) [of a] by (cases "a \<in> set as") (simp_all add: cleared_def)
  next
    case (8 x)
    then have "Some x \<notin> ptr_of w ` {a \<in> set as. \<not> young w a}" "Some x \<notin> ptr_of w1 ` {a \<in> set bs. \<not> young w1 a}"
      unfolding im by auto
    then show ?case using c1 c2 by (auto simp: cleared_def)
  qed (use c1 c2 d f o(5) in \<open>auto simp: cleared_def other_parts_def\<close>)
qed

lemma live_mono: "live w A \<Longrightarrow> B \<subseteq> A \<Longrightarrow> live w B"
  by (auto simp: live_def intro: inj_on_subset)

lemma clear_node_ok:
  assumes rel: "pool_rel (upd2 (w_pool w) q i None) (w_pnodes w) (w_brk w) P" and pq: "p < 2" "p \<noteq> q"
    and m: "\<And>g k. m \<notin> set (P g k)" "m < w_brk w" "w_pnodes w m = Some n" and key: "bucket (cp_pool_key n) = i"
    and ok: "cnt_ok w" and fd: "fd_of w m \<noteq> None" and loc: "se_delete_local api"
  shows "\<exists>w'. clear_node api p m w = Some w' \<and> cleared w [m] w'
     \<and> pool_rel (upd2 (w_pool w') q i None) (w_pnodes w') (w_brk w')
          (upd2 P p i ((if young w m then [m] else []) @ P p i))
     \<and> (\<forall>b. b \<noteq> m \<longrightarrow> b \<notin> set (P p i) \<longrightarrow> w_pnodes w' b = w_pnodes w b)"
proof (cases "cp_z n = 0")
  case True
  then have y: "young w m" using m(3) by (simp add: young_def)
  obtain h' where h': "clear_node api p m w = Some (w\<lparr>w_pnodes := h', w_pool := upd2 (w_pool w) p i (Some m)\<rparr>)"
    "pool_rel (upd2 (upd2 (w_pool w) p i (Some m)) q i None) h' (w_brk w) (upd2 P p i (m # P p i))"
    "\<forall>b. b \<noteq> m \<longrightarrow> map_option pdata (h' b) = map_option pdata (w_pnodes w b)"
    "\<forall>b. b \<noteq> m \<longrightarrow> b \<notin> set (P p i) \<longrightarrow> h' b = w_pnodes w b"
    "map_option pdata (h' m) = Some (pdata (n\<lparr>cp_z := 1\<rparr>))"
    using clear_node_young [OF rel pq m key True] by blast
  let ?w' = "w\<lparr>w_pnodes := h', w_pool := upd2 (w_pool w) p i (Some m)\<rparr>"
  have "cnt_ok ?w'" "\<And>j. count_of j ?w' = count_of j w" using cnt_frame [of ?w' w] ok by simp_all
  then have "cleared w [m] ?w'"
    using y h'(3,5) m(3) by (simp add: cleared_def dropped_def other_parts_def marked_def)
  with h'(1,2,4) y show ?thesis by (intro exI [of _ ?w']) simp
next
  case False
  then have y: "\<not> young w m" using m(3) by (simp add: young_def)
  obtain f where f: "fd_of w m = Some f" using fd by auto
  obtain w' where w': "clear_node api p m w = Some w'" "w_pnodes w' = (w_pnodes w)(m := None)"
    "w_pool w' = w_pool w" "w_se w' = api_se_delete api (cp_ptr n) (w_se w)" "w_brk w \<le> w_brk w'"
    "cnt_ok w'" "one_less (cp_pool_key n) w w'" "w_trace w' = w_trace w @ [E_close f]" "other_parts w w'"
    using clear_node_old [OF ok m(3) False f] by blast
  have "count_of j w' = count_of j w - of_nat (dropped w [m] j)" for j
    using w'(7) y m(3) by (auto simp: one_less_def dropped_def)
  moreover have "w_se w' x = w_se w x" if "Some x \<notin> ptr_of w ` {a \<in> set [m]. \<not> young w a}" for x
  proof -
    have "ptr_of w m \<in> ptr_of w ` {a \<in> set [m]. \<not> young w a}" using y by auto
    with that m(3) have "cp_ptr n \<noteq> Some x" by (auto simp: ptr_of_def)
    with loc w'(4) show ?thesis by (simp add: se_delete_local_def)
  qed
  ultimately have c: "cleared w [m] w'"
    using w'(2,5,6,8,9) y f m(3) by (simp add: cleared_def)
  have "pool_rel (upd2 (w_pool w') q i None) ((w_pnodes w)(m := None)) (w_brk w') P"
  proof -
    have seg: "dseg cp_next cp_uper ((w_pnodes w)(m := None)) u v (P g k) = dseg cp_next cp_uper (w_pnodes w) u v (P g k)"
      for u v g k using m(1) by simp
    have "\<forall>a \<in> set (P g k). a < w_brk w' \<and> pbucket ((w_pnodes w)(m := None)) a = Some k" for g k
      using rel w'(5) m(1) [of g k] unfolding pool_rel_def
      by (metis fun_upd_apply less_le_trans)
    then show ?thesis using rel w'(3) unfolding pool_rel_def seg by simp
  qed
  then have "pool_rel (upd2 (w_pool w') q i None) (w_pnodes w') (w_brk w') (upd2 P p i (P p i))"
    using w'(2) by (simp add: upd2_def)
  with w'(1,2) c y show ?thesis by (intro exI [of _ w']) simp
qed

lemma clear_chain_ok:
  assumes "pool_rel (upd2 (w_pool w) q i None) (w_pnodes w) (w_brk w) P" and pq: "p < 2" "p \<noteq> q"
    and "dseg cp_next cp_uper (w_pnodes w) u np as"
    and "\<And>a. a \<in> set as \<Longrightarrow> a < w_brk w \<and> pbucket (w_pnodes w) a = Some i \<and> (\<forall>g k. a \<notin> set (P g k))"
    and "live w (set as)" and "cnt_ok w" and loc: "se_delete_local api" and "length as \<le> f"
  shows "\<exists>w'. clear_chain api p f np w = Some w' \<and> cleared w as w'
     \<and> pool_rel (upd2 (w_pool w') q i None) (w_pnodes w') (w_brk w')
          (upd2 P p i (rev (filter (young w) as) @ P p i))"
  using assms(1,4-7,9)
proof (induction as arbitrary: w u np P f)
  case Nil
  moreover have "upd2 P p i (P p i) = P" by (simp add: upd2_def)
  ultimately show ?case
    by (simp add: cleared_def dropped_def other_parts_def)
next
  case (Cons m as)
  obtain f' where f': "f = Suc f'" "length as \<le> f'" using Cons.prems(6) by (cases f) auto
  obtain n where n: "np = Some m" "w_pnodes w m = Some n" "cp_uper n = u"
    "dseg cp_next cp_uper (w_pnodes w) (Some m) (cp_next n) as"
    using Cons.prems(2) by auto
  have dist: "m \<notin> set as" using dseg_distinct [OF Cons.prems(2)] by simp
  have key: "bucket (cp_pool_key n) = i" using Cons.prems(3) [of m] n(2) by simp
  have fd: "fd_of w m \<noteq> None" using Cons.prems(4) by (simp add: live_def)
  let ?P = "upd2 P p i ((if young w m then [m] else []) @ P p i)"
  obtain w1 where w1: "clear_node api p m w = Some w1" "cleared w [m] w1"
    "pool_rel (upd2 (w_pool w1) q i None) (w_pnodes w1) (w_brk w1) ?P"
    "\<forall>b. b \<noteq> m \<longrightarrow> b \<notin> set (P p i) \<longrightarrow> w_pnodes w1 b = w_pnodes w b"
    using clear_node_ok [OF Cons.prems(1) pq, of m n api] Cons.prems(3) [of m] n(2) key Cons.prems(5) fd loc
    by auto
  have same: "w_pnodes w1 b = w_pnodes w b" if "b \<in> set as" for b
    using w1(4) Cons.prems(3) [of b] dist that by auto
  have seg1: "dseg cp_next cp_uper (w_pnodes w1) (Some m) (cp_next n) as"
    using n(4) same by (subst dseg_cong [of as "w_pnodes w1" "w_pnodes w"]) auto
  have nodes1: "a < w_brk w1 \<and> pbucket (w_pnodes w1) a = Some i \<and> (\<forall>g k. a \<notin> set (?P g k))" if "a \<in> set as" for a
    using Cons.prems(3) [of a] same [OF that] that dist w1(2)
    by (auto simp: cleared_def upd2_apply simp del: map_option_eq_Some)
  have live1: "live w1 (set as)"
    by (rule live_mono [OF cleared_live [OF w1(2) Cons.prems(4)]]) (use dist in auto)
  have ok1: "cnt_ok w1" using w1(2) by (simp add: cleared_def)
  obtain w' where w': "clear_chain api p f' (cp_next n) w1 = Some w'" "cleared w1 as w'"
    "pool_rel (upd2 (w_pool w') q i None) (w_pnodes w') (w_brk w') (upd2 ?P p i (rev (filter (young w1) as) @ ?P p i))"
    using Cons.IH [OF w1(3) seg1 nodes1 live1 ok1 f'(2)] by blast
  have "filter (young w1) as = filter (young w) as"
    by (rule filter_cong) (use same in \<open>auto simp: young_def\<close>)
  then have "upd2 ?P p i (rev (filter (young w1) as) @ ?P p i) = upd2 P p i (rev (filter (young w) (m # as)) @ P p i)"
    by (simp add: upd2_def)
  moreover have "cleared w (m # as) w'"
    using cleared_append [OF w1(2) w'(2) Cons.prems(4)] dist by (simp add: subset_insertI)
  moreover have "clear_chain api p f np w = Some w'" using f' n(1,2) w1(1) w'(1) by simp
  ultimately show ?case using w'(3) by auto
qed

text \<open>The lists after the buckets \<open>is\<close> of generation \<open>q\<close> were cleared into generation \<open>p\<close>.\<close>

definition aged :: "world \<Rightarrow> nat \<Rightarrow> nat \<Rightarrow> nat set \<Rightarrow> (nat \<Rightarrow> nat \<Rightarrow> addr list) \<Rightarrow> nat \<Rightarrow> nat \<Rightarrow> addr list" where
  "aged w p q I P g k =
     (if k \<notin> I then P g k
      else if g = q then []
      else if g = p then rev (filter (young w) (P q k)) @ P p k
      else P g k)"

definition idle_nodes :: "(nat \<Rightarrow> nat \<Rightarrow> addr list) \<Rightarrow> addr set" where
  "idle_nodes P = (\<Union>g k. set (P g k))"

lemma idle_nodesI: "a \<in> set (P g k) \<Longrightarrow> a \<in> idle_nodes P"
  by (auto simp: idle_nodes_def)

lemma clear_bucket_ok:
  assumes rel: "pool_at w P" and pq: "p < 2" "q < 2" "p \<noteq> q" and live: "live w (idle_nodes P)"
    and ok: "cnt_ok w" and loc: "se_delete_local api"
  shows "\<exists>w'. clear_chain api p (w_brk w) (w_pool w q i) w = Some w' \<and> cleared w (P q i) (set_pool q i None w')
     \<and> pool_at (set_pool q i None w') (aged w p q {i} P)"
proof -
  let ?P = "upd2 P q i []"
  have rel0: "pool_rel (upd2 (w_pool w) q i None) (w_pnodes w) (w_brk w) ?P"
    by (rule pool_rel_upd [OF rel pq(2)]) auto
  have nodes: "a < w_brk w \<and> pbucket (w_pnodes w) a = Some i \<and> (\<forall>g k. a \<notin> set (?P g k))"
    if "a \<in> set (P q i)" for a
  proof -
    have "a \<notin> set (?P g k)" for g k
      using pool_rel_unique [OF rel that, of g k] by (auto simp: upd2_apply)
    then show ?thesis using rel that unfolding pool_rel_def by blast
  qed
  have lv: "live w (set (P q i))" using live by (rule live_mono) (auto intro: idle_nodesI)
  obtain w' where w': "clear_chain api p (w_brk w) (w_pool w q i) w = Some w'" "cleared w (P q i) w'"
    "pool_rel (upd2 (w_pool w') q i None) (w_pnodes w') (w_brk w')
          (upd2 ?P p i (rev (filter (young w) (P q i)) @ ?P p i))"
    using clear_chain_ok [OF rel0 pq(1,3) pool_chain(1) [OF rel] nodes lv ok loc pool_chain(2) [OF rel]] by blast
  have "upd2 ?P p i (rev (filter (young w) (P q i)) @ ?P p i) = aged w p q {i} P"
    using pq by (auto simp: aged_def upd2_apply fun_eq_iff)
  moreover have "cleared w (P q i) (set_pool q i None w')"
  proof -
    let ?w = "set_pool q i None w'"
    have "cnt_ok w'" using w'(2) by (simp add: cleared_def)
    then have "cnt_ok ?w" "\<And>j. count_of j ?w = count_of j w'"
      using cnt_frame [of ?w w'] by (simp_all add: set_pool_upd2)
    with w'(2) show ?thesis by (simp add: cleared_def other_parts_def set_pool_upd2)
  qed
  ultimately show ?thesis using w' by (auto simp: set_pool_upd2)
qed

lemma clear_buckets_ok:
  assumes "pool_at w P" and pq: "p < 2" "q < 2" "p \<noteq> q" and "live w (idle_nodes P)"
    and "cnt_ok w" and loc: "se_delete_local api" and "distinct is"
  shows "\<exists>w'. clear_buckets api p q is w = Some w' \<and> cleared w (concat (map (P q) is)) w'
     \<and> pool_at w' (aged w p q (set is) P)"
  using assms(1,5,6,8)
proof (induction "is" arbitrary: w P)
  case Nil
  moreover have "aged w p q {} P = P" by (simp add: aged_def fun_eq_iff)
  ultimately show ?case by (simp add: cleared_def dropped_def other_parts_def)
next
  case (Cons i "is")
  obtain w1 where w1: "clear_chain api p (w_brk w) (w_pool w q i) w = Some w1"
    "cleared w (P q i) (set_pool q i None w1)" "pool_at (set_pool q i None w1) (aged w p q {i} P)"
    using clear_bucket_ok [OF Cons.prems(1) pq Cons.prems(2,3) loc] by blast
  let ?w = "set_pool q i None w1" and ?P = "aged w p q {i} P"
  have "set (P q i) \<subseteq> idle_nodes P" by (auto intro: idle_nodesI)
  note live1 = cleared_live [OF w1(2) Cons.prems(2) this]
  have sub: "idle_nodes ?P \<subseteq> idle_nodes P - {a \<in> set (P q i). \<not> young w a}"
  proof
    fix a
    assume "a \<in> idle_nodes ?P"
    then obtain g k where gk: "a \<in> set (?P g k)" by (auto simp: idle_nodes_def)
    show "a \<in> idle_nodes P - {a \<in> set (P q i). \<not> young w a}"
    proof (cases "k = i \<and> g = p \<and> a \<in> set (P q i)")
      case True
      then have "young w a" using gk pq pool_rel_unique [OF Cons.prems(1), of a p i q i]
        by (auto simp: aged_def)
      with True show ?thesis by (auto intro: idle_nodesI)
    next
      case False
      then have a: "a \<in> set (P g k)" "(g, k) \<noteq> (q, i)" using gk by (auto simp: aged_def split: if_splits)
      then have "a \<notin> set (P q i)" using pool_rel_unique [OF Cons.prems(1), of a g k q i] by auto
      with a show ?thesis by (auto intro: idle_nodesI)
    qed
  qed
  have ok1: "cnt_ok ?w" using w1(2) by (simp add: cleared_def)
  obtain w' where w': "clear_buckets api p q is ?w = Some w'" "cleared ?w (concat (map (?P q) is)) w'"
    "pool_at w' (aged ?w p q (set is) ?P)"
    using Cons.IH [OF w1(3) live_mono [OF live1 sub] ok1] Cons.prems(4) by auto
  have Pq: "?P q k = P q k" if "k \<in> set is" for k
    using that Cons.prems(4) by (auto simp: aged_def)
  then have cc: "concat (map (?P q) is) = concat (map (P q) is)" by (metis map_cong)
  have disj: "set (P q i) \<inter> set (concat (map (P q) is)) = {}"
    using Cons.prems(4) pool_rel_unique [OF Cons.prems(1), of _ q i q] by auto
  have "cleared w (P q i @ concat (map (P q) is)) w'"
    by (rule cleared_append [OF w1(2) w'(2) [unfolded cc] Cons.prems(2)])
      (use disj in \<open>auto intro: idle_nodesI\<close>)
  moreover have "aged ?w p q (set is) ?P = aged w p q (set (i # is)) P"
  proof -
    have "young ?w b = young w b" if "b \<in> set (P q k)" "k \<in> set is" for b k
    proof -
      have "b \<notin> set (P q i)" using disj that by auto
      then show ?thesis using w1(2) by (intro of_pdata(1)) (simp add: cleared_def)
    qed
    then have "filter (young ?w) (P q k) = filter (young w) (P q k)" if "k \<in> set is" for k
      using that by (intro filter_cong) auto
    then show ?thesis using Cons.prems(4) pq by (auto simp: aged_def fun_eq_iff)
  qed
  ultimately show ?case using w1(1) w'(1,3) by auto
qed

lemma cur_gen_less: "cur_gen w < 2" "(cur_gen w + 1) mod 2 < 2" "cur_gen w \<noteq> (cur_gen w + 1) mod 2"
proof -
  show c: "cur_gen w < 2" by (simp add: cur_gen_def)
  show "(cur_gen w + 1) mod 2 < 2" by simp
  show "cur_gen w \<noteq> (cur_gen w + 1) mod 2" using less_2_cases [OF c] by auto
qed

lemma bucket_less: "bucket key < 64"
  by (simp add: bucket_def)

abbreviation all_buckets :: "nat list" where "all_buckets \<equiv> [0..<64]"

lemma get_connection_ok:
  assumes rel: "pool_at w P" and live: "live w (idle_nodes P)" and ok: "cnt_ok w"
    and loc: "se_delete_local api" and key: "key \<noteq> 0" and ready: "ssl_ready ca w"
    and p: "p = cur_gen w" and q: "q = (cur_gen w + 1) mod 2" and P': "P' = aged w p q (set all_buckets) P"
  shows "\<exists>w1. cleared w (concat (map (P q) all_buckets)) w1 \<and> pool_at w1 P'
     \<and> (case find (\<lambda>a. pkey (w_pnodes w1) a = Some key) (P' p (bucket key)) of
          None \<Rightarrow> get_connection_in_pool (Suc f) api resume key ca w = Some (None, w1)
        | Some a \<Rightarrow> \<exists>n r sp w'. w_se w' r = Some sp \<and> fd_of w a = Some (sp_fd sp) \<and> w_pnodes w1 a = Some n \<and> cp_ptr n = Some r
            \<and> get_connection_in_pool (Suc f) api resume key ca w = Some (Some r, w')
            \<and> pool_at w' (upd2 P' p (bucket key) (remove1 a (P' p (bucket key))))
            \<and> w_coks w' = adopt ca n (w_coks w) \<and> w_se w' = w_se w1 \<and> w_brk w' = w_brk w1
            \<and> w_counters w' = w_counters w1 \<and> w_cnodes w' = w_cnodes w1 \<and> same_fds w1 w')"
proof -
  have pq: "p < 2" "q < 2" "p \<noteq> q" using cur_gen_less p q by auto
  have gen: "cur_gen w = p" "Suc p mod 2 = q" using p q by simp_all
  obtain w1 where w1: "clear_buckets api p q all_buckets w = Some w1"
    "cleared w (concat (map (P q) all_buckets)) w1" "pool_at w1 P'"
    using clear_buckets_ok [OF rel pq live ok loc, of all_buckets] P' by auto
  have ready1: "ssl_ready ca w1"
    using ready ssl_ready_frame [of w1 w ca] w1(2) by (simp add: cleared_def other_parts_def)
  have Pq: "P' q (bucket key) = []" using P' bucket_less [of key] by (simp add: aged_def)
  have tq: "take_conn q key ca w1 = Some (None, w1)"
    using take_conn_ok [OF w1(3) ready1, where key = key and g = q] Pq by simp
  let ?k = "bucket key"
  note tp = take_conn_ok [OF w1(3) ready1, where key = key and g = p]
  show ?thesis
  proof (cases "find (\<lambda>a. pkey (w_pnodes w1) a = Some key) (P' p ?k)")
    case None
    with tp have "take_conn p key ca w1 = Some (None, w1)" by simp
    then have "get_connection_in_pool (Suc f) api resume key ca w = Some (None, w1)"
      using key w1(1) tq pq(3) by (simp add: gen Let_def)
    with None w1 show ?thesis by auto
  next
    case (Some a)
    obtain n w' where n: "w_pnodes w1 a = Some n" "take_conn p key ca w1 = Some (cp_ptr n, w')"
      "pool_at w' (upd2 P' p ?k (remove1 a (P' p ?k)))" "w_coks w' = adopt ca n (w_coks w1)"
      "w_se w' = w_se w1" "w_brk w' = w_brk w1" "w_counters w' = w_counters w1" "w_cnodes w' = w_cnodes w1" "same_fds w1 w'"
      using tp Some by auto
    have "set (concat (map (P q) all_buckets)) \<subseteq> idle_nodes P" by (auto intro: idle_nodesI)
    note live1 = cleared_live [OF w1(2) live this]
    have a: "a \<in> set (P' p ?k)" using Some by (auto simp: find_Some_iff)
    have left: "a \<in> idle_nodes P - {a \<in> set (concat (map (P q) all_buckets)). \<not> young w a}"
    proof (cases "a \<in> set (P q ?k)")
      case True
      then have "young w a" using a P' pq bucket_less [of key] pool_rel_unique [OF rel True, of p ?k]
        by (auto simp: aged_def)
      with True show ?thesis by (auto intro: idle_nodesI)
    next
      case False
      then have ap: "a \<in> set (P p ?k)" using a P' pq by (auto simp: aged_def split: if_splits)
      then have "a \<notin> set (P q j)" for j using pool_rel_unique [OF rel ap, of q j] pq by auto
      with ap show ?thesis by (auto intro: idle_nodesI)
    qed
    then have fd: "fd_of w1 a \<noteq> None" using live1 by (auto simp: live_def)
    then obtain r sp where r: "cp_ptr n = Some r" "w_se w1 r = Some sp" "fd_of w1 a = Some (sp_fd sp)"
      using n(1) by (auto simp: fd_of_def ptr_of_def split: option.splits)
    have "fd_of w1 a = fd_of w a"
      by (rule cleared_fd(2) [OF w1(2) live]) (use left in \<open>auto intro: idle_nodesI\<close>)
    with r(3) have fdw: "fd_of w a = Some (sp_fd sp)" by simp
    have "get_connection_in_pool (Suc f) api resume key ca w = Some (Some r, w')"
      using key w1(1) n(2) r by (simp add: gen Let_def)
    moreover have "w_coks w1 = w_coks w" using w1(2) by (simp add: cleared_def other_parts_def)
    ultimately have "\<exists>n r sp w'. w_se w' r = Some sp \<and> fd_of w a = Some (sp_fd sp) \<and> w_pnodes w1 a = Some n \<and> cp_ptr n = Some r
            \<and> get_connection_in_pool (Suc f) api resume key ca w = Some (Some r, w')
            \<and> pool_at w' (upd2 P' p (bucket key) (remove1 a (P' p (bucket key))))
            \<and> w_coks w' = adopt ca n (w_coks w) \<and> w_se w' = w_se w1 \<and> w_brk w' = w_brk w1
            \<and> w_counters w' = w_counters w1 \<and> w_cnodes w' = w_cnodes w1 \<and> same_fds w1 w'"
      using n r fdw by (intro exI [of _ n] exI [of _ r] exI [of _ sp] exI [of _ w']) simp
    with Some w1(2,3) show ?thesis by (intro exI [of _ w1]) simp
  qed
qed

text \<open>
  (C4) A lookup with a key: first the generation of the previous minute is emptied -- its connections that
  were there for the first time move, marked, to the front of the current generation, the
  others are closed and counted off -- then the first connection with the key, if there is one, leaves
  the pool and the socket takes over its SSL objects. The lookup always ends with one unit of fuel.
\<close>

theorem get_connection_in_pool_refines:
  assumes rel: "pool_at w P" and live: "live w (idle_nodes P)" and ok: "cnt_ok w"
    and loc: "se_delete_local api" and key: "key \<noteq> 0" and ready: "ssl_ready ca w"
    and p: "p = cur_gen w" and q: "q = (cur_gen w + 1) mod 2" and P': "P' = aged w p q (set all_buckets) P"
  shows "\<exists>w1. cleared w (concat (map (P q) all_buckets)) w1 \<and> pool_at w1 P'
     \<and> (case find (\<lambda>a. pkey (w_pnodes w1) a = Some key) (P' p (bucket key)) of
          None \<Rightarrow> get_connection_in_pool (Suc f) api resume key ca w = Some (None, w1)
        | Some a \<Rightarrow> \<exists>n r sp w'. w_se w' r = Some sp \<and> fd_of w a = Some (sp_fd sp) \<and> w_pnodes w1 a = Some n \<and> cp_ptr n = Some r
            \<and> get_connection_in_pool (Suc f) api resume key ca w = Some (Some r, w')
            \<and> pool_at w' (upd2 P' p (bucket key) (remove1 a (P' p (bucket key))))
            \<and> w_coks w' = adopt ca n (w_coks w) \<and> w_se w' = w_se w1 \<and> w_brk w' = w_brk w1
            \<and> w_counters w' = w_counters w1 \<and> w_cnodes w' = w_cnodes w1 \<and> same_fds w1 w')"
  by (rule get_connection_ok [OF assms])

section \<open>Adding an idle connection\<close>

definition same_key :: "(addr \<Rightarrow> pool_node option) \<Rightarrow> u64 \<Rightarrow> addr list \<Rightarrow> addr list" where
  "same_key h key as = filter (\<lambda>a. pkey h a = Some key) as"

definition pool_full :: "(addr \<Rightarrow> pool_node option) \<Rightarrow> u64 \<Rightarrow> int \<Rightarrow> int \<Rightarrow> addr list \<Rightarrow> bool" where
  "pool_full h key psize c as \<longleftrightarrow> same_key h key as \<noteq> [] \<and> c + int (length (same_key h key as)) > psize"

lemma scan_bucket_spec:
  assumes "dseg cp_next cp_uper h u (Some a) as" and "length as \<le> f"
  shows "scan_bucket h key psize f c a = Some (if pool_full h key psize c as then Inl () else Inr (last as))"
  using assms
proof (induction as arbitrary: u a f c)
  case Nil
  then show ?case by simp
next
  case (Cons b as)
  obtain f' where f': "f = Suc f'" "length as \<le> f'" using Cons.prems(2) by (cases f) auto
  obtain n where n: "b = a" "h a = Some n" "dseg cp_next cp_uper h (Some a) (cp_next n) as"
    using Cons.prems(1) by auto
  show ?case
  proof (cases as)
    case Nil
    with n f' show ?thesis by (auto simp: pool_full_def same_key_def)
  next
    case (Cons b' as')
    with n have nx: "cp_next n = Some b'" by auto
    then have IH: "scan_bucket h key psize f' c' b' = Some (if pool_full h key psize c' as then Inl () else Inr (last as))" for c'
      using Cons.IH [of "Some a" b' f' c'] n(3) f'(2) by simp
    show ?thesis using n f' nx IH Cons by (auto simp: pool_full_def same_key_def)
  qed
qed

text \<open>Registering the new node: on success only the registration changes.\<close>

lemma watch_idle_ok:
  assumes "w_se w p = Some sp" and "api_se_be_read api (Some p) H_be_close ((w_se w)(p \<mapsto> sp\<lparr>sp_data := DPool m\<rparr>)) = (r, se')"
    and "r \<noteq> - 1"
  shows "watch_idle api p m w = Some (w\<lparr>w_se := se'\<rparr>)"
  using assms by (simp add: watch_idle_def poke_def Let_def)

text \<open>A node behind the last one of a chain keeps the relation.\<close>

lemma pool_rel_append:
  assumes rel: "pool_at w P" and g2: "g < 2" and ne: "P g k \<noteq> []" and k: "k = bucket key" and m: "m = w_brk w"
    and node: "cp_pool_key n = key"
    and h: "poke (last (P g k)) (cp_next_update (\<lambda>_. Some m)) ((w_pnodes w)(m \<mapsto> n)) = Some h"
      "dseg cp_next cp_uper h None (w_pool w g k) (P g k @ [m])"
  shows "pool_rel (w_pool w) h (Suc m) (upd2 P g k (P g k @ [m]))"
proof -
  have fresh: "m \<notin> set (P g' k')" for g' k' using rel m unfolding pool_rel_def by blast
  have nodes: "\<And>b. b \<in> set (P g k) \<Longrightarrow> b < m \<and> pbucket (w_pnodes w) b = Some k"
    using rel m unfolding pool_rel_def by blast
  have keys: "pkey h b = pkey ((w_pnodes w)(m \<mapsto> n)) b" for b by (rule poke_data [OF h(1)]) simp
  have data: "map_option pdata (h b) = map_option pdata (((w_pnodes w)(m \<mapsto> n)) b)" for b
    by (rule poke_data [OF h(1)]) (simp add: pdata_def)
  have "pool_rel (upd2 (w_pool w) g k (w_pool w g k)) h (Suc m) (upd2 P g k (P g k @ [m]))"
  proof (rule pool_rel_upd [OF rel g2])
    show "w_brk w \<le> Suc m" using m by simp
    show "dseg cp_next cp_uper h None (w_pool w g k) (P g k @ [m])" by (rule h(2))
    show "b < Suc m \<and> pbucket h b = Some k" if "b \<in> set (P g k @ [m])" for b
    proof (cases "b = m")
      case True
      have "pkey h m = Some key" using keys [of m] node by simp
      with True k show ?thesis by auto
    next
      case False
      with that nodes [of b] pbucket_of_pdata [of h b "w_pnodes w"] data [of b] show ?thesis
        by (auto simp del: map_option_eq_Some)
    qed
    show "b \<notin> set (P g k @ [m]) \<and> h b = w_pnodes w b" if "b \<in> set (P g' k')" "(g', k') \<noteq> (g, k)" for g' k' b
    proof -
      have "b \<notin> set (P g k)" using pool_rel_unique [OF rel that(1), of g k] that(2) by auto
      moreover have "b \<noteq> m" using that fresh by auto
      moreover have "b \<noteq> last (P g k)" using calculation(1) last_in_set [OF ne] by auto
      ultimately show ?thesis using poke_other [OF h(1), of b] by auto
    qed
  qed
  then show ?thesis by (simp add: upd2_def)
qed

lemma add_connection_ok:
  assumes rel: "pool_at w P" and sp: "w_se w p = Some sp" "0 \<le> sp_fd sp"
    and g: "g = cur_gen w" and k: "k = bucket key" and m: "m = w_brk w"
    and reg: "api_se_be_read api (Some p) H_be_close ((w_se w)(p \<mapsto> sp\<lparr>sp_data := DPool m\<rparr>)) = (r, se')" "r \<noteq> - 1"
  shows "if pool_full (w_pnodes w) key psize 0 (P g k)
     then add_connection_to_pool api True key psize (Some p) ssl ctx pw w = Some (0, emit (E_setsockopt (sp_fd sp)) w)
     else \<exists>h. let w' = w\<lparr>w_brk := Suc m, w_pnodes := h, w_pool := upd2 (w_pool w) g k (case P g k of [] \<Rightarrow> Some m | a # _ \<Rightarrow> Some a),
                        w_se := se', w_trace := w_trace w @ [E_setsockopt (sp_fd sp)]\<rparr> in
        add_connection_to_pool api True key psize (Some p) ssl ctx pw w = Some (1, w')
        \<and> pool_at w' (upd2 P g k (P g k @ [m]))
        \<and> (same_key h key (P g k @ [m]) = [m] \<or> int (length (same_key h key (P g k @ [m]))) \<le> psize + 1)
        \<and> map_option pdata (h m) = Some (Some p, key, ctx, ssl, (if P g k = [] then pw else Garbage), 0)
        \<and> (\<forall>b. b \<noteq> m \<longrightarrow> map_option pdata (h b) = map_option pdata (w_pnodes w b))"
proof -
  have seg: "dseg cp_next cp_uper (w_pnodes w) None (w_pool w g k) (P g k)" and len: "length (P g k) \<le> w_brk w"
    by (rule pool_chain [OF rel])+
  have g2: "g < 2" using g cur_gen_less(1) by simp
  have fresh: "m \<notin> set (P g' k')" for g' k' using rel m unfolding pool_rel_def by blast
  let ?node = "\<lparr>cp_ptr = Some p, cp_pool_key = key, cp_next = None, cp_uper = None,
       cp_ctx = ctx, cp_ssl = ssl, cp_ssl_pw = pw, cp_z = 0\<rparr>"
  let ?e = "emit (E_setsockopt (sp_fd sp)) w"
  show ?thesis
  proof (cases "P g k")
    case Nil
    let ?h = "(w_pnodes w)(m \<mapsto> ?node)"
    let ?w' = "w\<lparr>w_brk := Suc m, w_pnodes := ?h, w_pool := upd2 (w_pool w) g k (Some m), w_se := se',
       w_trace := w_trace w @ [E_setsockopt (sp_fd sp)]\<rparr>"
    have empty: "w_pool w g k = None" using seg Nil by simp
    let ?w1 = "set_pool g k (Some m) (?e\<lparr>w_brk := Suc m, w_pnodes := ?h\<rparr>)"
    have "watch_idle api p m ?w1 = Some (?w1\<lparr>w_se := se'\<rparr>)"
      by (rule watch_idle_ok [OF _ _ reg(2), of _ _ sp]) (use sp reg in \<open>simp_all add: set_pool_upd2\<close>)
    then have run: "add_connection_to_pool api True key psize (Some p) ssl ctx pw w = Some (1, ?w')"
      using sp g k m empty by (simp add: add_connection_to_pool_def Let_def cur_gen_def set_pool_upd2 emit_def)
    have "pool_rel (upd2 (w_pool w) g k (Some m)) ?h (Suc m) (upd2 P g k [m])"
      by (rule pool_rel_upd [OF rel g2]) (use fresh k m in auto)
    moreover have "\<not> pool_full (w_pnodes w) key psize 0 (P g k)" "same_key ?h key [m] = [m]"
      using Nil by (simp_all add: pool_full_def same_key_def)
    ultimately show ?thesis using run Nil
      by (intro iffD2 [OF if_not_P] exI [of _ ?h]) (simp_all add: Let_def pdata_def)
  next
    case (Cons a as)
    have head: "w_pool w g k = Some a" using seg Cons by simp
    have scan: "scan_bucket (w_pnodes w) key psize (w_brk w) 0 a
        = Some (if pool_full (w_pnodes w) key psize 0 (P g k) then Inl () else Inr (last (P g k)))"
      using seg head len by (intro scan_bucket_spec) auto
    show ?thesis
    proof (cases "pool_full (w_pnodes w) key psize 0 (P g k)")
      case True
      then show ?thesis using sp g k head scan
        by (simp add: add_connection_to_pool_def Let_def cur_gen_def)
    next
      case False
      let ?n = "?node\<lparr>cp_uper := last_ptr (P g k), cp_ssl_pw := Garbage\<rparr>"
      have ne: "P g k \<noteq> []" using Cons by simp
      obtain h where h: "poke (last (P g k)) (cp_next_update (\<lambda>_. Some m)) ((w_pnodes w)(m \<mapsto> ?n)) = Some h"
        "dseg cp_next cp_uper h None (w_pool w g k) (P g k @ [m])"
        using pool_dll.append_dseg [OF seg ne fresh, of ?n] by auto
      have data: "map_option pdata (h b) = map_option pdata (((w_pnodes w)(m \<mapsto> ?n)) b)" for b
        by (rule poke_data [OF h(1)]) (simp add: pdata_def)
      have keys: "pkey h b = pkey ((w_pnodes w)(m \<mapsto> ?n)) b" for b
        by (rule poke_data [OF h(1)]) simp
      have self: "upd2 (w_pool w) g k (w_pool w g k) = w_pool w" by (simp add: upd2_def)
      let ?w' = "w\<lparr>w_brk := Suc m, w_pnodes := h, w_se := se', w_trace := w_trace w @ [E_setsockopt (sp_fd sp)]\<rparr>"
      let ?w1 = "?e\<lparr>w_brk := Suc m, w_pnodes := h\<rparr>"
      have "watch_idle api p m ?w1 = Some (?w1\<lparr>w_se := se'\<rparr>)"
        by (rule watch_idle_ok [OF _ _ reg(2), of _ _ sp]) (use sp reg in simp_all)
      then have run: "add_connection_to_pool api True key psize (Some p) ssl ctx pw w = Some (1, ?w')"
        using sp g k m head scan False ne h(1)
        by (simp add: add_connection_to_pool_def Let_def cur_gen_def last_ptr_def emit_def)
      have rel': "pool_rel (w_pool w) h (Suc m) (upd2 P g k (P g k @ [m]))"
        using pool_rel_append [OF rel g2 ne k m _ h] by simp
      have "same_key h key (P g k) = same_key (w_pnodes w) key (P g k)"
        unfolding same_key_def by (rule filter_cong) (use keys fresh [of g k] in \<open>auto simp del: map_option_eq_Some\<close>)
      then have size: "same_key h key (P g k @ [m]) = [m] \<or> int (length (same_key h key (P g k @ [m]))) \<le> psize + 1"
        using False keys [of m] by (auto simp: pool_full_def same_key_def)
      have pl: "upd2 (w_pool w) g k (case P g k of [] \<Rightarrow> Some m | a # _ \<Rightarrow> Some a) = w_pool w"
        using self head Cons by simp
      show ?thesis using False run rel' size data ne unfolding pl
        by (intro iffD2 [OF if_not_P] exI [of _ h]) (simp_all add: Let_def pdata_def)
    qed
  qed
qed

text \<open>
  (C5) Returning a connection to the pool appends exactly one node for it to the current
  generation of its bucket, unless more than \<open>pool_size\<close> connections of its key are there
  already, in which case nothing is pooled. So a pool of size \<open>n\<close> holds up to \<open>n + 1\<close> idle
  connections of a key per generation. The password pointer is kept only by the first node
  of a bucket.
\<close>

theorem add_connection_to_pool_refines:
  assumes rel: "pool_at w P" and sp: "w_se w p = Some sp" "0 \<le> sp_fd sp"
    and g: "g = cur_gen w" and k: "k = bucket key" and m: "m = w_brk w"
    and reg: "api_se_be_read api (Some p) H_be_close ((w_se w)(p \<mapsto> sp\<lparr>sp_data := DPool m\<rparr>)) = (r, se')" "r \<noteq> - 1"
  shows "if pool_full (w_pnodes w) key psize 0 (P g k)
     then add_connection_to_pool api True key psize (Some p) ssl ctx pw w = Some (0, emit (E_setsockopt (sp_fd sp)) w)
     else \<exists>h. let w' = w\<lparr>w_brk := Suc m, w_pnodes := h, w_pool := upd2 (w_pool w) g k (case P g k of [] \<Rightarrow> Some m | a # _ \<Rightarrow> Some a),
                        w_se := se', w_trace := w_trace w @ [E_setsockopt (sp_fd sp)]\<rparr> in
        add_connection_to_pool api True key psize (Some p) ssl ctx pw w = Some (1, w')
        \<and> pool_at w' (upd2 P g k (P g k @ [m]))
        \<and> (same_key h key (P g k @ [m]) = [m] \<or> int (length (same_key h key (P g k @ [m]))) \<le> psize + 1)
        \<and> map_option pdata (h m) = Some (Some p, key, ctx, ssl, (if P g k = [] then pw else Garbage), 0)
        \<and> (\<forall>b. b \<noteq> m \<longrightarrow> map_option pdata (h b) = map_option pdata (w_pnodes w b))"
  by (rule add_connection_ok [OF assms])

section \<open>A concrete pool\<close>

text \<open>
  A pool in the second minute with one connection of the current generation and two of the
  previous one, a young and an old one, and an event loop that keeps a plain table.
\<close>

definition demo_api :: se_api where
  "demo_api = \<lparr>api_se_add = (\<lambda>lfd fd d h. (Some 77, h(77 \<mapsto> \<lparr>sp_fd = fd, sp_data = d, sp_rfunc = None, sp_wfunc = None\<rparr>))),
     api_se_delete = (\<lambda>p h. case p of None \<Rightarrow> h | Some a \<Rightarrow> h(a := None)),
     api_se_be_read = (\<lambda>p f h. case p of None \<Rightarrow> (- 1, h)
        | Some a \<Rightarrow> (0, h(a := map_option (\<lambda>sp. sp\<lparr>sp_rfunc := Some f, sp_wfunc := None\<rparr>) (h a)))),
     api_se_be_write = (\<lambda>p f h. case p of None \<Rightarrow> (- 1, h)
        | Some a \<Rightarrow> (0, h(a := map_option (\<lambda>sp. sp\<lparr>sp_rfunc := None, sp_wfunc := Some f\<rparr>) (h a)))),
     api_se_be_pri = (\<lambda>p h. case p of None \<Rightarrow> h
        | Some a \<Rightarrow> h(a := map_option (\<lambda>sp. sp\<lparr>sp_rfunc := None, sp_wfunc := None\<rparr>) (h a)))\<rparr>"

definition demo_node :: "addr \<Rightarrow> u64 \<Rightarrow> ptr \<Rightarrow> ptr \<Rightarrow> int \<Rightarrow> pool_node" where
  "demo_node p key nx up z = \<lparr>cp_ptr = Some p, cp_pool_key = key, cp_next = nx, cp_uper = up, cp_ctx = None,
     cp_ssl = None, cp_ssl_pw = Init None, cp_z = z\<rparr>"

definition demo_reg :: "int \<Rightarrow> addr \<Rightarrow> se_ptr" where
  "demo_reg fd a = \<lparr>sp_fd = fd, sp_data = DPool a, sp_rfunc = Some H_be_close, sp_wfunc = None\<rparr>"

definition demo_pool :: world where
  "demo_pool = world0\<lparr>w_brk := 10, w_now := 60,
     w_se := [5 \<mapsto> demo_reg 9 1, 6 \<mapsto> demo_reg 10 2, 7 \<mapsto> demo_reg 11 3, 8 \<mapsto> demo_reg 12 0],
     w_pool := (\<lambda>g k. if k = 7 \<and> g = 0 then Some 1 else if k = 7 \<and> g = 1 then Some 2 else None),
     w_pnodes := [1 \<mapsto> demo_node 5 7 (Some 3) None 0, 2 \<mapsto> demo_node 6 7 None None 1,
                  3 \<mapsto> demo_node 7 71 None (Some 1) 1]\<rparr>"

definition demo_lists :: "nat \<Rightarrow> nat \<Rightarrow> addr list" where
  "demo_lists g k = (if k = 7 \<and> g = 0 then [1, 3] else if k = 7 \<and> g = 1 then [2] else [])"

lemmas demo_defs = demo_pool_def demo_node_def demo_reg_def demo_lists_def world0_def

lemma demo_pool_at: "pool_at demo_pool demo_lists"
  by (auto simp: pool_rel_def demo_defs bucket_def)

lemma demo_cnt_ok: "cnt_ok demo_pool"
  unfolding cnt_ok_def by (rule exI [of _ "\<lambda>_. []"]) (simp add: cnt_rel_def demo_defs)

lemma demo_idle_nodes: "idle_nodes demo_lists = {1, 2, 3}"
proof
  show "idle_nodes demo_lists \<subseteq> {1, 2, 3}" by (auto simp: idle_nodes_def demo_lists_def split: if_splits)
  have "1 \<in> set (demo_lists 0 7)" "3 \<in> set (demo_lists 0 7)" "2 \<in> set (demo_lists 1 7)"
    by (simp_all add: demo_lists_def)
  then show "{1, 2, 3} \<subseteq> idle_nodes demo_lists" using idle_nodesI by blast
qed

lemma demo_live: "live demo_pool (idle_nodes demo_lists)"
  unfolding demo_idle_nodes by (simp add: live_def fd_of_def ptr_of_def demo_defs)

lemma demo_delete_local: "se_delete_local demo_api"
  by (auto simp: se_delete_local_def demo_api_def split: option.splits)

theorem cosocket_be_close_removes_witness:
  "\<exists>w'. cosocket_be_close demo_api 5 demo_pool = Some w'
     \<and> pool_at w' (upd2 demo_lists 0 7 (remove1 1 (demo_lists 0 7)))
     \<and> w_trace w' = [E_close 9]"
  using cosocket_be_close_removes [OF demo_pool_at demo_cnt_ok, of 5 "demo_reg 9 1" 1 0 7 "demo_node 5 7 (Some 3) None 0" demo_api]
  by (auto simp: demo_defs)

theorem take_conn_refines_witness:
  "\<exists>w'. take_conn 1 7 None demo_pool = Some (Some 6, w')
     \<and> pool_at w' (upd2 demo_lists 1 7 [])"
  using take_conn_refines [OF demo_pool_at, where ca = None and key = 7 and g = 1]
  by (auto simp: demo_defs ssl_ready_def bucket_def)

lemma demo_gen: "cur_gen demo_pool = 1"
  by (simp add: cur_gen_def demo_defs connect_pool_ttl_def)

theorem get_connection_in_pool_refines_witness:
  "\<exists>w1 r w'. cleared demo_pool [1, 3] w1 \<and> pool_at w1 (aged demo_pool 1 0 (set all_buckets) demo_lists)
     \<and> get_connection_in_pool 1 demo_api (\<lambda>_ _ w. (0, w)) 7 None demo_pool = Some (r, w')"
proof -
  have c: "concat (map (demo_lists 0) all_buckets) = [1, 3]" by code_simp
  have "ssl_ready None demo_pool" by (simp add: ssl_ready_def)
  then have "\<exists>w1. cleared demo_pool [1, 3] w1 \<and> pool_at w1 (aged demo_pool 1 0 (set all_buckets) demo_lists)
     \<and> (case find (\<lambda>a. pkey (w_pnodes w1) a = Some 7) (aged demo_pool 1 0 (set all_buckets) demo_lists 1 (bucket 7)) of
          None \<Rightarrow> get_connection_in_pool (Suc 0) demo_api (\<lambda>_ _ w. (0, w)) 7 None demo_pool = Some (None, w1)
        | Some a \<Rightarrow> \<exists>n r w'. get_connection_in_pool (Suc 0) demo_api (\<lambda>_ _ w. (0, w)) 7 None demo_pool = Some (Some r, w'))"
    using get_connection_in_pool_refines [OF demo_pool_at demo_live demo_cnt_ok demo_delete_local, of 7 None 1 0
        "aged demo_pool 1 0 (set all_buckets) demo_lists" 0 "\<lambda>_ _ w. (0, w)"]
    unfolding demo_gen c by (fastforce split: option.split_asm option.split)
  then show ?thesis by (auto split: option.splits)
qed

theorem add_connection_to_pool_refines_witness:
  "\<exists>w'. add_connection_to_pool demo_api True 7 5 (Some 8) None None (Init None) demo_pool = Some (1, w')
     \<and> pool_at w' (upd2 demo_lists 1 7 [2, 10])"
proof -
  have se: "w_se demo_pool 8 = Some (demo_reg 12 0)" "0 \<le> sp_fd (demo_reg 12 0)" by (simp_all add: demo_defs)
  obtain se' where reg: "api_se_be_read demo_api (Some 8) H_be_close
      ((w_se demo_pool)(8 \<mapsto> (demo_reg 12 0)\<lparr>sp_data := DPool 10\<rparr>)) = (0, se')"
    by (simp add: demo_api_def)
  have "\<not> pool_full (w_pnodes demo_pool) 7 5 0 (demo_lists 1 7)"
    by (simp add: pool_full_def same_key_def demo_defs)
  moreover have "demo_lists 1 7 = [2]" "bucket 7 = 7" "w_brk demo_pool = 10"
    by (simp_all add: demo_defs bucket_def)
  ultimately show ?thesis
    using add_connection_to_pool_refines [OF demo_pool_at se, of 1 7 7 10 demo_api 0 se' 5 None None "Init None"] reg demo_gen
    by (auto simp: Let_def)
qed

end
