(* ===== verification/Sock_Write.thy ===== *)
theory Sock_Write
  imports Sock_Ops Idle_Pool
begin

text \<open>
  Sending: whatever pieces the system accepts, in however many rounds, the bytes on the wire are
  those of the string, in order and once; a failed write closes the connection and takes it
  off its counter.
\<close>

section \<open>Giving up a connection\<close>

lemma drop_connection_ok:
  assumes "cnt_ok w"
  shows "\<exists>w'. drop_connection api c w = Some (c\<lparr>ck_ptr := None, ck_fd := - 1, ck_status := 0\<rparr>, w')
     \<and> cnt_ok w' \<and> one_less (ck_pool_key c) w w' \<and> w_trace w' = w_trace w @ [E_close (ck_fd c)]
     \<and> w_se w' = api_se_delete api (ck_ptr c) (w_se w) \<and> w_pool w' = w_pool w \<and> w_pnodes w' = w_pnodes w
     \<and> w_brk w \<le> w_brk w' \<and> other_parts w w'"
proof -
  define w1 where "w1 = se_delete api (ck_ptr c) w"
  have w1: "cnt_ok w1" "\<And>j. count_of j w1 = count_of j w"
    using cnt_frame [of w1 w] assms by (simp_all add: w1_def se_delete_def)
  obtain brk cs h where op: "connection_pool_counter_operate (ck_pool_key c) (- 1) w1
        = Some (w1\<lparr>w_brk := brk, w_counters := cs, w_cnodes := h\<rparr>)"
    and brk: "w_brk w1 \<le> brk" and ok2: "cnt_ok (w1\<lparr>w_brk := brk, w_counters := cs, w_cnodes := h\<rparr>)"
    and cnt2: "\<And>j. count_of j (w1\<lparr>w_brk := brk, w_counters := cs, w_cnodes := h\<rparr>)
        = (if j = ck_pool_key c \<and> ck_pool_key c \<noteq> 0 then count_of j w1 + word_of_int (- 1) else count_of j w1)"
    using counter_operate_ok [OF w1(1), of "ck_pool_key c" "- 1"] by blast
  let ?w2 = "w1\<lparr>w_brk := brk, w_counters := cs, w_cnodes := h\<rparr>"
  let ?w' = "emit (E_close (ck_fd c)) ?w2"
  have "cnt_ok ?w'" and "\<And>j. count_of j ?w' = count_of j ?w2"
    using cnt_frame [of ?w' ?w2] ok2 by simp_all
  moreover have "drop_connection api c w = Some (c\<lparr>ck_ptr := None, ck_fd := - 1, ck_status := 0\<rparr>, ?w')"
    using op by (simp add: drop_connection_def w1_def Let_def)
  ultimately show ?thesis
    using w1(2) cnt2 brk
    by (intro exI [of _ ?w'] conjI) (auto simp: w1_def se_delete_def one_less_def other_parts_def)
qed

section \<open>The send loop\<close>

text \<open>The bytes that went to a descriptor.\<close>

fun sent_on :: "int \<Rightarrow> effect list \<Rightarrow> bytes" where
  "sent_on fd [] = []"
| "sent_on fd (E_send f b # es) = (if f = fd then b @ sent_on fd es else sent_on fd es)"
| "sent_on fd (e # es) = sent_on fd es"

lemma sent_on_append [simp]: "sent_on fd (es @ es') = sent_on fd es @ sent_on fd es'"
  by (induction fd es rule: sent_on.induct) auto

text \<open>What \<open>send\<close> guarantees: it never reports more than it was given.\<close>

definition accepts :: "nat list \<Rightarrow> cosocket \<Rightarrow> bool" where
  "accepts ns c \<longleftrightarrow> unat (ck_send_buf_ed c) + sum_list ns \<le> unat (ck_send_buf_len c)"

definition buf_ready :: "cosocket \<Rightarrow> bool" where
  "buf_ready c \<longleftrightarrow> length (ck_send_buf c) = unat (ck_send_buf_len c)"

lemma send_loop_ok:
  assumes "accepts ns c" and "buf_ready c"
  shows "\<exists>es. send_loop ns c w = (c\<lparr>ck_send_buf_ed := ck_send_buf_ed c + word_of_nat (sum_list ns)\<rparr>, w\<lparr>w_trace := w_trace w @ es\<rparr>)
     \<and> sent_on (ck_fd c) es = take (sum_list ns) (drop (unat (ck_send_buf_ed c)) (ck_send_buf c))"
  using assms
proof (induction ns arbitrary: c w)
  case Nil
  then show ?case by (intro exI [of _ "[]"]) simp
next
  case (Cons n ns)
  let ?c = "c\<lparr>ck_send_buf_ed := ck_send_buf_ed c + word_of_nat n\<rparr>"
  let ?e = "E_send (ck_fd c) (take n (drop (unat (ck_send_buf_ed c)) (ck_send_buf c)))"
  have "unat (ck_send_buf_ed c) + n < 2 ^ 64"
    using Cons.prems(1) unsigned_less [where ?'a = nat and w = "ck_send_buf_len c"] by (simp add: accepts_def)
  then have ed: "unat (ck_send_buf_ed ?c) = unat (ck_send_buf_ed c) + n" by (simp add: unat_u64_add)
  then have "accepts ns ?c" "buf_ready ?c" using Cons.prems by (simp_all add: accepts_def buf_ready_def)
  from Cons.IH [OF this, of "emit ?e w"] obtain es where
    es: "send_loop ns ?c (emit ?e w) = (?c\<lparr>ck_send_buf_ed := ck_send_buf_ed ?c + word_of_nat (sum_list ns)\<rparr>,
          (emit ?e w)\<lparr>w_trace := w_trace (emit ?e w) @ es\<rparr>)"
      "sent_on (ck_fd ?c) es = take (sum_list ns) (drop (unat (ck_send_buf_ed ?c)) (ck_send_buf ?c))" by blast
  have "sent_on (ck_fd c) (?e # es) = take (sum_list (n # ns)) (drop (unat (ck_send_buf_ed c)) (ck_send_buf c))"
    using es(2) ed by (simp add: take_add add.commute)
  with es(1) show ?case
    by (intro exI [of _ "?e # es"]) (simp add: emit_def add.assoc)
qed

section \<open>One round of writing\<close>

lemma c_int_nat: "n < 2 ^ 31 \<Longrightarrow> c_int (int n) = int n"
  by (rule c_int_id) simp_all

lemma uint_unat: "uint x = int (unat x)"
  by simp

lemma be_write_more:
  assumes at: "cok_of p w = Some (ca, c)" and ok: "accepts ns c" "buf_ready c"
    and part: "unat (ck_send_buf_ed c) + sum_list ns < unat (ck_send_buf_len c)" and e: "e \<noteq> IO_err"
  shows "\<exists>es. cosocket_be_write api resume ns e p w
      = Some (c_int (int (unat (ck_send_buf_len c) - (unat (ck_send_buf_ed c) + sum_list ns))), [],
          put_cok ca (c\<lparr>ck_in_read_action := False, ck_send_buf_ed := ck_send_buf_ed c + word_of_nat (sum_list ns)\<rparr>)
            (w\<lparr>w_trace := w_trace w @ es\<rparr>))
     \<and> sent_on (ck_fd c) es = take (sum_list ns) (drop (unat (ck_send_buf_ed c)) (ck_send_buf c))"
proof -
  let ?c = "c\<lparr>ck_in_read_action := False\<rparr>" and ?ed = "ck_send_buf_ed c + word_of_nat (sum_list ns)"
  have "accepts ns ?c" "buf_ready ?c" using ok by (simp_all add: accepts_def buf_ready_def)
  from send_loop_ok [OF this, of w] obtain es where es: "send_loop ns ?c w = (?c\<lparr>ck_send_buf_ed := ?ed\<rparr>, w\<lparr>w_trace := w_trace w @ es\<rparr>)"
    "sent_on (ck_fd c) es = take (sum_list ns) (drop (unat (ck_send_buf_ed c)) (ck_send_buf c))" by auto
  have len: "unat (ck_send_buf_len c) < 2 ^ 64" using unsigned_less [where ?'a = nat and w = "ck_send_buf_len c"] by simp
  then have ed: "unat ?ed = unat (ck_send_buf_ed c) + sum_list ns" using part by (intro unat_u64_add) simp
  then have ne: "?ed \<noteq> ck_send_buf_len c" using part by auto
  have "?ed \<le> ck_send_buf_len c" using ed part by (simp add: word_le_nat_alt)
  then have "uint (ck_send_buf_len c - ?ed) = int (unat (ck_send_buf_len c) - (unat (ck_send_buf_ed c) + sum_list ns))"
    using unat_sub [of ?ed "ck_send_buf_len c"] ed by (simp only: uint_unat)
  then show ?thesis using at es ne e by (auto simp: cosocket_be_write_def Let_def)
qed

text \<open>The trace of a round that completes: the bytes, and no descriptor is closed.\<close>

definition quiet :: "effect list \<Rightarrow> bool" where
  "quiet t \<longleftrightarrow> (\<forall>x. E_close x \<notin> set t \<and> (\<forall>q. E_pclose q \<notin> set t))"

lemma sends_quiet: "quiet (drop (length (w_trace w)) (w_trace (snd (send_loop ns c w))))"
proof -
  have "\<exists>es. w_trace (snd (send_loop ns c w)) = w_trace w @ es \<and> quiet es"
  proof (induction ns arbitrary: c w)
    case Nil
    then show ?case by (auto simp: quiet_def)
  next
    case (Cons n ns)
    let ?e = "E_send (ck_fd c) (take n (drop (unat (ck_send_buf_ed c)) (ck_send_buf c)))"
    obtain es where "w_trace (snd (send_loop (n # ns) c w)) = w_trace (emit ?e w) @ es" "quiet es"
      using Cons.IH [of "c\<lparr>ck_send_buf_ed := ck_send_buf_ed c + word_of_nat n\<rparr>" "emit ?e w"] by auto
    then show ?case by (intro exI [of _ "?e # es"]) (auto simp: quiet_def)
  qed
  then show ?thesis by auto
qed

definition written :: "cosocket \<Rightarrow> cosocket" where
  "written c = c\<lparr>ck_in_read_action := False, ck_send_buf_ed := ck_send_buf_len c,
     ck_send_buf_need_free := None, ck_timeout_ptr := None\<rparr>"

lemma be_write_done:
  assumes at: "cok_of p w = Some (ca, c)" and ok: "buf_ready c"
    and all: "unat (ck_send_buf_ed c) + sum_list ns = unat (ck_send_buf_len c)" and e: "e \<noteq> IO_err"
  shows "\<exists>t. let w' = w\<lparr>w_trace := w_trace w @ t\<rparr>; vs = [LNumber (of_nat (unat (ck_send_buf_len c)))] in
     cosocket_be_write api resume ns e p w
      = Some (if ck_inuse c
              then (0, [], snd (resume (ck_L c) vs (put_cok ca ((written c)\<lparr>ck_inuse := False\<rparr>) (se_be_pri api (ck_ptr c) w'))))
              else (- 1, vs, put_cok ca (written c) w'))
     \<and> sent_on (ck_fd c) t = drop (unat (ck_send_buf_ed c)) (ck_send_buf c) \<and> quiet t"
proof -
  let ?c = "c\<lparr>ck_in_read_action := False\<rparr>"
  have acc: "accepts ns ?c" "buf_ready ?c" using ok all by (simp_all add: accepts_def buf_ready_def)
  obtain es where es: "send_loop ns ?c w = (?c\<lparr>ck_send_buf_ed := ck_send_buf_ed ?c + word_of_nat (sum_list ns)\<rparr>, w\<lparr>w_trace := w_trace w @ es\<rparr>)"
    "sent_on (ck_fd ?c) es = take (sum_list ns) (drop (unat (ck_send_buf_ed ?c)) (ck_send_buf ?c))"
    using send_loop_ok [OF acc, of w] by blast
  have "ck_send_buf_ed c + word_of_nat (sum_list ns) = word_of_nat (unat (ck_send_buf_ed c) + sum_list ns)" by simp
  then have ed: "ck_send_buf_ed c + word_of_nat (sum_list ns) = ck_send_buf_len c" unfolding all by simp
  have q: "quiet es" using sends_quiet [of w ns ?c] es(1) by simp
  have sent: "sent_on (ck_fd c) es = drop (unat (ck_send_buf_ed c)) (ck_send_buf c)"
    using es(2) ok all by (simp add: buf_ready_def)
  let ?t = "es @ (if ck_send_buf_need_free c \<noteq> None then [E_free (ck_send_buf_need_free c)] else [])
      @ [E_delete_timeout (ck_timeout_ptr c)]"
  have "quiet ?t" using q by (auto simp: quiet_def)
  moreover have "sent_on (ck_fd c) ?t = drop (unat (ck_send_buf_ed c)) (ck_send_buf c)" using sent by simp
  moreover have "send_loop ns ?c w = (?c\<lparr>ck_send_buf_ed := ck_send_buf_len c\<rparr>, w\<lparr>w_trace := w_trace w @ es\<rparr>)"
    using es(1) ed by simp
  then have "cosocket_be_write api resume ns e p w
      = Some (if ck_inuse c
              then (0, [], snd (resume (ck_L c) [LNumber (of_nat (unat (ck_send_buf_len c)))]
                (put_cok ca ((written c)\<lparr>ck_inuse := False\<rparr>) (se_be_pri api (ck_ptr c) (w\<lparr>w_trace := w_trace w @ ?t\<rparr>)))))
              else (- 1, [LNumber (of_nat (unat (ck_send_buf_len c)))], put_cok ca (written c) (w\<lparr>w_trace := w_trace w @ ?t\<rparr>)))"
    using at e by (simp add: cosocket_be_write_def Let_def be_write_result_def stop_timeout_def free_ptr_def
        written_def emit_def)
  ultimately show ?thesis by (intro exI [of _ ?t]) (simp add: Let_def)
qed

definition write_failed :: "cosocket \<Rightarrow> cosocket" where
  "write_failed c = c\<lparr>ck_in_read_action := False, ck_ptr := None, ck_fd := - 1, ck_status := 0, ck_send_buf_ed := 0,
     ck_send_buf_need_free := None, ck_timeout_ptr := None\<rparr>"

text \<open>A failed write: the connection is closed and taken off its counter; the writer is told.\<close>

lemma be_write_failed:
  assumes at: "cok_of p w = Some (ca, c)" and ok: "accepts ns c" "buf_ready c" and cnt: "cnt_ok w"
    and len: "0 < ck_send_buf_len c"
  shows "\<exists>w'. cosocket_be_write api resume ns IO_err p w
      = Some (if ck_inuse c
              then (0, [], snd (resume (ck_L c) [LNil, lstr ''connection closed!''] (put_cok ca
                 ((write_failed c)\<lparr>ck_inuse := False\<rparr>) (se_be_pri api None w'))))
              else (- 2, [LNil, lstr ''connection closed!''], put_cok ca (write_failed c) w'))
     \<and> cnt_ok w' \<and> one_less (ck_pool_key c) w w' \<and> w_se w' = api_se_delete api (ck_ptr c) (w_se w)
     \<and> filter (\<lambda>x. \<exists>f. x = E_close f) (drop (length (w_trace w)) (w_trace w')) = [E_close (ck_fd c)]"
proof -
  let ?c = "c\<lparr>ck_in_read_action := False\<rparr>"
  have "accepts ns ?c" "buf_ready ?c" using ok by (simp_all add: accepts_def buf_ready_def)
  from send_loop_ok [OF this, of w] obtain es where
    es: "send_loop ns ?c w = (?c\<lparr>ck_send_buf_ed := ck_send_buf_ed c + word_of_nat (sum_list ns)\<rparr>, w\<lparr>w_trace := w_trace w @ es\<rparr>)"
    by auto
  have q: "filter (\<lambda>x. \<exists>f. x = E_close f) es = []"
    using sends_quiet [of w ns ?c] es by (auto simp: quiet_def filter_empty_conv)
  let ?w1 = "w\<lparr>w_trace := w_trace w @ es\<rparr>" and ?c1 = "?c\<lparr>ck_send_buf_ed := ck_send_buf_ed c + word_of_nat (sum_list ns)\<rparr>"
  have cnt1: "cnt_ok ?w1" "\<And>j. count_of j ?w1 = count_of j w" using cnt_frame [of ?w1 w] cnt by simp_all
  obtain w2 where w2: "drop_connection api ?c1 ?w1 = Some (?c1\<lparr>ck_ptr := None, ck_fd := - 1, ck_status := 0\<rparr>, w2)"
    "cnt_ok w2" "one_less (ck_pool_key c) ?w1 w2" "w_trace w2 = w_trace w @ es @ [E_close (ck_fd c)]"
    "w_se w2 = api_se_delete api (ck_ptr c) (w_se w)"
    using drop_connection_ok [OF cnt1(1), of api ?c1] by auto
  let ?w' = "emit (E_delete_timeout (ck_timeout_ptr c)) (free_ptr (ck_send_buf_need_free c) w2)"
  have "cnt_ok ?w'" "\<And>j. count_of j ?w' = count_of j w2"
    using cnt_frame [of ?w' w2] w2(2) by (simp_all add: free_ptr_def)
  moreover have "\<not> ck_send_buf_len c \<le> 0" using len by simp
  ultimately show ?thesis
    using at es w2 cnt1(2) q
    by (intro exI [of _ ?w'])
      (auto simp: cosocket_be_write_def Let_def be_write_result_def stop_timeout_def free_ptr_def one_less_def
        write_failed_def)
qed

section \<open>Sending a string\<close>

text \<open>An open connection that nobody is using.\<close>

definition idle_socket :: "world \<Rightarrow> addr \<Rightarrow> cosocket \<Rightarrow> addr \<Rightarrow> bool" where
  "idle_socket w ca c p \<longleftrightarrow> w_coks w ca = Some c \<and> ck_status c = 2 \<and> ck_fd c \<noteq> - 1 \<and> ck_ptr c = Some p
     \<and> \<not> ck_inuse c \<and> map_option sp_data (w_se w p) = Some (DCok ca)"

text \<open>A send in progress: of the string \<open>s\<close> the bytes on the wire since \<open>t0\<close> are a front part.\<close>

definition sending :: "bytes \<Rightarrow> nat \<Rightarrow> addr \<Rightarrow> addr \<Rightarrow> cosocket \<Rightarrow> world \<Rightarrow> bool" where
  "sending s t0 p ca c w \<longleftrightarrow> cok_of p w = Some (ca, c) \<and> ck_inuse c \<and> ck_send_buf c = s
     \<and> unat (ck_send_buf_len c) = length s \<and> unat (ck_send_buf_ed c) < length s \<and> t0 \<le> length (w_trace w)
     \<and> sent_on (ck_fd c) (drop t0 (w_trace w)) = take (unat (ck_send_buf_ed c)) s"

lemma cok_of_put: "cok_of p w = Some (ca, c) \<Longrightarrow> w_se w' = w_se w \<Longrightarrow> cok_of p (put_cok ca c' w') = Some (ca, c')"
  by (auto simp: cok_of_def split: bind_splits se_data.splits)

lemma cok_of_idle: "idle_socket w ca c p \<Longrightarrow> w_se w' = w_se w \<Longrightarrow> cok_of p (put_cok ca c' w') = Some (ca, c')"
  by (auto simp: cok_of_def idle_socket_def)

lemma buffer_room_ok:
  assumes "n < 2 ^ 31 - 4096"
  shows "\<exists>room. buffer_room n = Some room \<and> n \<le> room"
  using large_malloc_room [OF assms] by (cases "n < SENDBUF_SIZE") (simp_all add: buffer_room_def)

lemma load_string:
  assumes "length s < 2 ^ 31 - 4096"
  shows "\<exists>c' brk. load_send_buf lib (LString s) c w = Some (Inr (c', w\<lparr>w_brk := brk\<rparr>)) \<and> w_brk w \<le> brk
     \<and> ck_send_buf c' = s \<and> unat (ck_send_buf_len c') = length s
     \<and> (\<exists>q. c' = c\<lparr>ck_send_buf_len := word_of_nat (length s), ck_send_buf := s, ck_send_buf_need_free := q\<rparr>)"
proof -
  obtain room where room: "buffer_room (length s) = Some room" "length s \<le> room" using buffer_room_ok [OF assms] by blast
  have n: "unat (word_of_nat (length s) :: u64) = length s" using assms by (intro unat_u64_of_nat) simp
  show ?thesis
  proof (cases "length s < SENDBUF_SIZE")
    case True
    with room n show ?thesis
      by (intro exI [of _ "c\<lparr>ck_send_buf_len := word_of_nat (length s), ck_send_buf := s, ck_send_buf_need_free := None\<rparr>"]
          exI [of _ "w_brk w"]) (auto simp: load_send_buf_def fill_send_buf_def)
  next
    case False
    with room n show ?thesis
      by (intro exI [of _ "c\<lparr>ck_send_buf_len := word_of_nat (length s), ck_send_buf := s, ck_send_buf_need_free := Some (w_brk w)\<rparr>"]
          exI [of _ "Suc (w_brk w)"]) (auto simp: load_send_buf_def fill_send_buf_def)
  qed
qed

text \<open>The socket once the string is in its send buffer.\<close>

definition loaded :: "bytes \<Rightarrow> lthread \<Rightarrow> cosocket \<Rightarrow> cosocket \<Rightarrow> bool" where
  "loaded s L c c' \<longleftrightarrow> (\<exists>q. c' = c\<lparr>ck_L := Some L, ck_send_buf_ed := 0, ck_send_buf_len := word_of_nat (length s),
     ck_send_buf := s, ck_send_buf_need_free := q, ck_inuse := False\<rparr>)"

lemma loadedD:
  assumes "loaded s L c c'" and "length s < 2 ^ 31 - 4096"
  shows "buf_ready c'" "ck_send_buf c' = s" "unat (ck_send_buf_len c') = length s" "ck_send_buf_ed c' = 0"
    "\<not> ck_inuse c'" "ck_fd c' = ck_fd c" "ck_pool_key c' = ck_pool_key c" "ck_ptr c' = ck_ptr c" "ck_L c' = Some L"
    "ck_status c' = ck_status c" "ck_timeout c' = ck_timeout c"
  using assms by (auto simp: loaded_def buf_ready_def unat_u64_of_nat)

lemma lua_co_send_start:
  assumes idle: "idle_socket w ca c p" and s: "s \<noteq> []" "length s < 2 ^ 31 - 4096"
  shows "\<exists>c' brk. loaded s L c c' \<and> w_brk w \<le> brk \<and> cok_of p (put_cok ca c' (w\<lparr>w_brk := brk\<rparr>)) = Some (ca, c')
     \<and> lua_co_send lib api resume ns e L [LUserdata ca, LString s] w =
         Option.bind (cosocket_be_write api resume ns e p (put_cok ca c' (w\<lparr>w_brk := brk\<rparr>))) (after_write api ca [LUserdata ca, LString s])"
proof -
  let ?c = "c\<lparr>ck_L := Some L, ck_send_buf_ed := 0\<rparr>"
  from load_string [OF s(2), of lib ?c w] obtain c' brk q where
    ld: "load_send_buf lib (LString s) ?c w = Some (Inr (c', w\<lparr>w_brk := brk\<rparr>))" "w_brk w \<le> brk"
    "unat (ck_send_buf_len c') = length s"
    "c' = ?c\<lparr>ck_send_buf_len := word_of_nat (length s), ck_send_buf := s, ck_send_buf_need_free := q\<rparr>"
    by blast
  let ?c' = "c'\<lparr>ck_inuse := False\<rparr>"
  have nz: "\<not> ck_send_buf_len c' < 1" using ld(3) s(1) by (auto simp: word_less_nat_alt)
  have "cok_of p (put_cok ca ?c' (w\<lparr>w_brk := brk\<rparr>)) = Some (ca, ?c')"
    by (rule cok_of_idle [OF idle]) simp
  moreover have "loaded s L c ?c'" using ld(4) by (auto simp: loaded_def)
  moreover have "ck_ptr c' = Some p" using ld(4) idle by (simp add: idle_socket_def)
  then have "lua_co_send lib api resume ns e L [LUserdata ca, LString s] w =
         Option.bind (cosocket_be_write api resume ns e p (put_cok ca ?c' (w\<lparr>w_brk := brk\<rparr>))) (after_write api ca [LUserdata ca, LString s])"
    using idle nz ld(1) by (simp add: lua_co_send_def lua_gettop_def arg_def idle_socket_def Let_def)
  ultimately show ?thesis using ld(2) by blast
qed

text \<open>
  Sending a string that the system takes at once: the call returns its length, exactly the
  bytes of the string went to the descriptor, nothing was closed, and the socket is idle again.
\<close>

theorem lua_co_send_whole:
  assumes idle: "idle_socket w ca c p" and s: "s \<noteq> []" "length s < 2 ^ 31 - 4096" and all: "sum_list ns = length s" and e: "e \<noteq> IO_err"
  shows "\<exists>w' t c'. lua_co_send lib api resume ns e L [LUserdata ca, LString s] w = Some (Ret [LNumber (of_nat (length s))], w')
     \<and> w_trace w' = w_trace w @ t \<and> sent_on (ck_fd c) t = s \<and> quiet t \<and> idle_socket w' ca c' p \<and> ck_fd c' = ck_fd c"
proof -
  obtain c' brk where c': "loaded s L c c'" "cok_of p (put_cok ca c' (w\<lparr>w_brk := brk\<rparr>)) = Some (ca, c')"
    and run: "lua_co_send lib api resume ns e L [LUserdata ca, LString s] w =
         Option.bind (cosocket_be_write api resume ns e p (put_cok ca c' (w\<lparr>w_brk := brk\<rparr>))) (after_write api ca [LUserdata ca, LString s])"
    using lua_co_send_start [OF idle s, of L lib api resume ns e] by blast
  note ld = loadedD [OF c'(1) s(2)]
  have "unat (ck_send_buf_ed c') + sum_list ns = unat (ck_send_buf_len c')" using ld all by simp
  from be_write_done [OF c'(2) ld(1) this e, of api resume] ld
  obtain t where t: "cosocket_be_write api resume ns e p (put_cok ca c' (w\<lparr>w_brk := brk\<rparr>))
      = Some (- 1, [LNumber (of_nat (length s))], put_cok ca (written c') ((put_cok ca c' (w\<lparr>w_brk := brk\<rparr>))\<lparr>w_trace := w_trace w @ t\<rparr>))"
    "sent_on (ck_fd c) t = s" "quiet t" by (auto simp: Let_def)
  let ?w' = "put_cok ca (written c') ((put_cok ca c' (w\<lparr>w_brk := brk\<rparr>))\<lparr>w_trace := w_trace w @ t\<rparr>)"
  have "idle_socket ?w' ca (written c') p" using idle ld by (simp add: idle_socket_def written_def)
  with run t ld show ?thesis
    by (intro exI [of _ ?w'] exI [of _ t] exI [of _ "written c'"]) (simp add: after_write_def written_def)
qed

text \<open>
  Sending a string of which the system takes only a part: the coroutine yields, the socket is
  marked busy and registered for writing, exactly that part is on the wire, and a timer runs.
\<close>

theorem lua_co_send_part:
  assumes idle: "idle_socket w ca c p" and s: "length s < 2 ^ 31 - 4096" and part: "sum_list ns < length s" and e: "e \<noteq> IO_err"
    and reg: "api_se_be_write api (Some p) H_be_write (w_se w) = (r, se')" "r \<noteq> - 1" "map_option sp_data (se' p) = Some (DCok ca)"
  shows "\<exists>w' c'. lua_co_send lib api resume ns e L [LUserdata ca, LString s] w = Some (Yield, w')
     \<and> sending s (length (w_trace w)) p ca c' w' \<and> ck_L c' = Some L \<and> unat (ck_send_buf_ed c') = sum_list ns
     \<and> ck_timeout_ptr c' \<noteq> None \<and> w_se w' = se'"
proof -
  have ne: "s \<noteq> []" using part by auto
  obtain c' brk where c': "loaded s L c c'" "cok_of p (put_cok ca c' (w\<lparr>w_brk := brk\<rparr>)) = Some (ca, c')"
    and run: "lua_co_send lib api resume ns e L [LUserdata ca, LString s] w =
         Option.bind (cosocket_be_write api resume ns e p (put_cok ca c' (w\<lparr>w_brk := brk\<rparr>))) (after_write api ca [LUserdata ca, LString s])"
    using lua_co_send_start [OF idle ne s, of L lib api resume ns e] by blast
  note ld = loadedD [OF c'(1) s]
  let ?w1 = "put_cok ca c' (w\<lparr>w_brk := brk\<rparr>)"
  have acc: "accepts ns c'" and pt: "unat (ck_send_buf_ed c') + sum_list ns < unat (ck_send_buf_len c')"
    using ld part by (simp_all add: accepts_def)
  let ?c2 = "c'\<lparr>ck_in_read_action := False, ck_send_buf_ed := ck_send_buf_ed c' + word_of_nat (sum_list ns)\<rparr>"
  obtain es where es: "cosocket_be_write api resume ns e p ?w1
      = Some (c_int (int (length s - sum_list ns)), [], put_cok ca ?c2 (?w1\<lparr>w_trace := w_trace ?w1 @ es\<rparr>))"
    "sent_on (ck_fd c) es = take (sum_list ns) s"
    using be_write_more [OF c'(2) acc ld(1) pt e, of api resume] ld by auto
  have pos: "c_int (int (length s - sum_list ns)) > 0" using s part by (subst c_int_id) auto
  have ed: "unat (ck_send_buf_ed ?c2) = sum_list ns" using ld part s by (simp add: unat_u64_of_nat)
  let ?w2 = "put_cok ca ?c2 (?w1\<lparr>w_trace := w_trace ?w1 @ es\<rparr>)"
  let ?c3 = "?c2\<lparr>ck_timeout_ptr := Some brk, ck_inuse := True\<rparr>"
  let ?w3 = "put_cok ca ?c3 (emit (E_add_timeout ca (ck_timeout c')) (?w2\<lparr>w_se := se', w_brk := Suc brk\<rparr>))"
  have ptr: "ck_ptr c' = Some p" using ld(8) idle by (simp add: idle_socket_def)
  have "lua_co_send lib api resume ns e L [LUserdata ca, LString s] w = Some (Yield, ?w3)"
    using run es(1) pos reg(1,2) ptr
    by (simp add: after_write_def se_be_write_def start_timeout_def Let_def put_cok_def emit_def)
  moreover have "sending s (length (w_trace w)) p ca ?c3 ?w3"
    using ld ed part es(2) reg(3) by (auto simp: sending_def cok_of_def)
  ultimately show ?thesis using ed ld(9) by (intro exI [of _ ?w3] exI [of _ ?c3]) simp
qed

section \<open>The rounds of the callback\<close>

text \<open>The write events of one send, until the coroutine is resumed.\<close>

fun write_rounds :: "se_api \<Rightarrow> resume_fn \<Rightarrow> addr \<Rightarrow> (nat list \<times> io_end) list \<Rightarrow> world \<Rightarrow> world option" where
  "write_rounds api resume p [] w = Some w"
| "write_rounds api resume p ((ns, e) # rs) w =
     (case cosocket_be_write api resume ns e p w of
        None \<Rightarrow> None
      | Some (r, vs, w') \<Rightarrow> if r = 0 then Some w' else write_rounds api resume p rs w')"

lemma last_round:
  assumes "sending s t0 p ca c w" and "e \<noteq> IO_err" and "unat (ck_send_buf_ed c) + sum_list ns = length s"
  shows "\<exists>wf c'. cosocket_be_write api resume ns e p w = Some (0, [], snd (resume (ck_L c) [LNumber (of_nat (length s))] wf))
     \<and> sent_on (ck_fd c) (drop t0 (w_trace wf)) = s \<and> w_coks wf ca = Some c' \<and> \<not> ck_inuse c' \<and> ck_fd c' = ck_fd c"
proof -
  have snd: "cok_of p w = Some (ca, c)" "ck_inuse c" "ck_send_buf c = s" "unat (ck_send_buf_len c) = length s"
    "unat (ck_send_buf_ed c) < length s" "t0 \<le> length (w_trace w)"
    "sent_on (ck_fd c) (drop t0 (w_trace w)) = take (unat (ck_send_buf_ed c)) s"
    using assms(1) by (auto simp: sending_def)
  have rdy: "buf_ready c" using snd by (simp add: buf_ready_def)
  from be_write_done [OF snd(1) rdy _ assms(2), of ns api resume] assms(3) snd
  obtain t where t: "cosocket_be_write api resume ns e p w
      = Some (0, [], snd (resume (ck_L c) [LNumber (of_nat (length s))]
          (put_cok ca ((written c)\<lparr>ck_inuse := False\<rparr>) (se_be_pri api (ck_ptr c) (w\<lparr>w_trace := w_trace w @ t\<rparr>)))))"
    "sent_on (ck_fd c) t = drop (unat (ck_send_buf_ed c)) s" by (auto simp: Let_def)
  let ?wf = "put_cok ca ((written c)\<lparr>ck_inuse := False\<rparr>) (se_be_pri api (ck_ptr c) (w\<lparr>w_trace := w_trace w @ t\<rparr>))"
  show ?thesis using t snd
    by (intro exI [of _ ?wf] exI [of _ "(written c)\<lparr>ck_inuse := False\<rparr>"]) (simp add: se_be_pri_def written_def)
qed

lemma inner_round:
  assumes "sending s t0 p ca c w" and "e \<noteq> IO_err" and s: "length s < 2 ^ 31" and "unat (ck_send_buf_ed c) + sum_list ns < length s"
  shows "\<exists>r c' w'. cosocket_be_write api resume ns e p w = Some (r, [], w') \<and> r \<noteq> 0 \<and> sending s t0 p ca c' w'
     \<and> ck_L c' = ck_L c \<and> ck_fd c' = ck_fd c \<and> unat (ck_send_buf_ed c') = unat (ck_send_buf_ed c) + sum_list ns"
proof -
  have snd: "cok_of p w = Some (ca, c)" "ck_inuse c" "ck_send_buf c = s" "unat (ck_send_buf_len c) = length s"
    "unat (ck_send_buf_ed c) < length s" "t0 \<le> length (w_trace w)"
    "sent_on (ck_fd c) (drop t0 (w_trace w)) = take (unat (ck_send_buf_ed c)) s"
    using assms(1) by (auto simp: sending_def)
  have rdy: "buf_ready c" using snd by (simp add: buf_ready_def)
  have pt: "unat (ck_send_buf_ed c) + sum_list ns < unat (ck_send_buf_len c)" using assms(4) snd by simp
  then have acc: "accepts ns c" by (simp add: accepts_def)
  let ?c2 = "c\<lparr>ck_in_read_action := False, ck_send_buf_ed := ck_send_buf_ed c + word_of_nat (sum_list ns)\<rparr>"
  define d where "d = length s - (unat (ck_send_buf_ed c) + sum_list ns)"
  obtain es where es: "cosocket_be_write api resume ns e p w = Some (c_int (int d), [], put_cok ca ?c2 (w\<lparr>w_trace := w_trace w @ es\<rparr>))"
    "sent_on (ck_fd c) es = take (sum_list ns) (drop (unat (ck_send_buf_ed c)) s)"
    using be_write_more [OF snd(1) acc rdy pt assms(2), of api resume] snd by (auto simp: d_def)
  have d: "0 < d" "d < 2 ^ 31" using s pt snd(4) by (simp_all add: d_def)
  then have pos: "c_int (int d) \<noteq> 0" using c_int_nat [OF d(2)] by simp
  have ed: "unat (ck_send_buf_ed ?c2) = unat (ck_send_buf_ed c) + sum_list ns"
    using pt snd s by (simp add: unat_u64_add)
  have "sending s t0 p ca ?c2 (put_cok ca ?c2 (w\<lparr>w_trace := w_trace w @ es\<rparr>))"
    using snd pt ed es(2) cok_of_put [OF snd(1), of "w\<lparr>w_trace := w_trace w @ es\<rparr>" ?c2]
    by (simp add: sending_def take_add)
  with es(1) pos ed show ?thesis by (intro exI conjI) (assumption | simp)+
qed

text \<open>
  (C3) A send that is in progress ends right: however the system cuts the rest into pieces and
  rounds, when the last piece is taken the coroutine is resumed once, with the length of the
  string, and the bytes on the wire since the call are exactly the string.
\<close>

theorem write_rounds_deliver:
  assumes "sending s t0 p ca c w" and s: "length s < 2 ^ 31"
    and "\<forall>(ns, e) \<in> set rs. e \<noteq> IO_err \<and> sum_list ns > 0"
    and "unat (ck_send_buf_ed c) + sum_list (map (sum_list \<circ> fst) rs) = length s"
  shows "\<exists>wf c'. write_rounds api resume p rs w = Some (snd (resume (ck_L c) [LNumber (of_nat (length s))] wf))
     \<and> sent_on (ck_fd c) (drop t0 (w_trace wf)) = s \<and> w_coks wf ca = Some c' \<and> \<not> ck_inuse c' \<and> ck_fd c' = ck_fd c"
  using assms(1,3,4)
proof (induction rs arbitrary: c w)
  case Nil
  then show ?case by (simp add: sending_def)
next
  case (Cons r rs)
  obtain ns e where r: "r = (ns, e)" by (cases r)
  have e: "e \<noteq> IO_err" using Cons.prems(2) r by auto
  show ?case
  proof (cases "unat (ck_send_buf_ed c) + sum_list ns = length s")
    case True
    then show ?thesis using last_round [OF Cons.prems(1) e, of ns api resume] r by auto
  next
    case False
    then have "unat (ck_send_buf_ed c) + sum_list ns < length s" using Cons.prems(3) r by simp
    from inner_round [OF Cons.prems(1) e s this]
    obtain q c2 w2 where w2: "cosocket_be_write api resume ns e p w = Some (q, [], w2)" "q \<noteq> 0" "sending s t0 p ca c2 w2"
      "ck_L c2 = ck_L c" "ck_fd c2 = ck_fd c" "unat (ck_send_buf_ed c2) = unat (ck_send_buf_ed c) + sum_list ns" by blast
    have "\<forall>(ns, e) \<in> set rs. e \<noteq> IO_err \<and> sum_list ns > 0" using Cons.prems(2) by simp
    moreover have "unat (ck_send_buf_ed c2) + sum_list (map (sum_list \<circ> fst) rs) = length s" using Cons.prems(3) r w2(6) by (simp add: o_def)
    ultimately show ?thesis using Cons.IH [OF w2(3)] w2 r by (simp add: o_def)
  qed
qed

text \<open>
  A write error in the middle of a send: the waiting coroutine is resumed with nil and
  \<open>connection closed!\<close>, exactly the descriptor of the socket is closed, its registration is
  deleted and the counter of its pool key goes down by one.
\<close>

theorem be_write_error:
  assumes "sending s t0 p ca c w" and "accepts ns c" and "cnt_ok w"
  shows "\<exists>w' c'. cosocket_be_write api resume ns IO_err p w
        = Some (0, [], snd (resume (ck_L c) [LNil, lstr ''connection closed!''] (put_cok ca c' (se_be_pri api None w'))))
     \<and> ck_fd c' = - 1 \<and> ck_status c' = 0 \<and> \<not> ck_inuse c' \<and> ck_timeout_ptr c' = None
     \<and> cnt_ok w' \<and> one_less (ck_pool_key c) w w' \<and> w_se w' = api_se_delete api (ck_ptr c) (w_se w)
     \<and> filter (\<lambda>x. \<exists>f. x = E_close f) (drop (length (w_trace w)) (w_trace w')) = [E_close (ck_fd c)]"
proof -
  have snd: "cok_of p w = Some (ca, c)" "ck_inuse c" "buf_ready c" "0 < ck_send_buf_len c"
    using assms(1) by (auto simp: sending_def buf_ready_def word_less_nat_alt)
  from be_write_failed [OF snd(1) assms(2) snd(3) assms(3) snd(4), of api resume] snd(2)
  show ?thesis by (auto simp: write_failed_def intro!: exI [of _ "(write_failed c)\<lparr>ck_inuse := False\<rparr>"])
qed

section \<open>A concrete socket\<close>

definition demo_sock :: cosocket where
  "demo_sock = cosocket_zero\<lparr>ck_status := 2, ck_fd := 5, ck_ptr := Some 30, ck_timeout := 30000, ck_pool_key := 7, ck_L := Some 3\<rparr>"

definition demo_net :: "cosocket \<Rightarrow> world" where
  "demo_net c = world0\<lparr>w_brk := 40, w_coks := [20 \<mapsto> c],
     w_se := [30 \<mapsto> \<lparr>sp_fd = 5, sp_data = DCok 20, sp_rfunc = None, sp_wfunc = None\<rparr>]\<rparr>"

definition demo_writer :: cosocket where
  "demo_writer = demo_sock\<lparr>ck_send_buf := ''hello'', ck_send_buf_len := 5, ck_inuse := True\<rparr>"

lemma demo_idle: "idle_socket (demo_net demo_sock) 20 demo_sock 30"
  by (simp add: idle_socket_def demo_net_def demo_sock_def cosocket_zero_def)

lemma demo_sending: "sending ''hello'' 0 30 20 demo_writer (demo_net demo_writer)"
  by (simp add: sending_def demo_net_def demo_writer_def demo_sock_def cosocket_zero_def cok_of_def world0_def)

lemma demo_net_cnt: "cnt_ok (demo_net c)"
  unfolding cnt_ok_def by (rule exI [of _ "\<lambda>_. []"]) (simp add: cnt_rel_def demo_net_def world0_def)

theorem lua_co_send_whole_witness:
  "\<exists>w' t c'. lua_co_send demo_lib demo_api (\<lambda>_ _ w. (0, w)) [3, 2] IO_eof 3 [LUserdata 20, LString ''hello''] (demo_net demo_sock)
        = Some (Ret [LNumber 5], w')
     \<and> w_trace w' = w_trace (demo_net demo_sock) @ t \<and> sent_on 5 t = ''hello'' \<and> quiet t \<and> idle_socket w' 20 c' 30"
  using lua_co_send_whole [OF demo_idle, of "''hello''" "[3, 2]" IO_eof demo_lib demo_api "\<lambda>_ _ w. (0, w)" 3]
  by (auto simp: demo_sock_def)

theorem lua_co_send_part_witness:
  "\<exists>w' c'. lua_co_send demo_lib demo_api (\<lambda>_ _ w. (0, w)) [3] IO_again 3 [LUserdata 20, LString ''hello''] (demo_net demo_sock)
        = Some (Yield, w')
     \<and> sending ''hello'' 0 30 20 c' w' \<and> unat (ck_send_buf_ed c') = 3"
proof -
  obtain se' where "api_se_be_write demo_api (Some 30) H_be_write (w_se (demo_net demo_sock)) = (0, se')"
    "map_option sp_data (se' 30) = Some (DCok 20)"
    by (simp add: demo_api_def demo_net_def)
  then show ?thesis
    using lua_co_send_part [OF demo_idle, of "''hello''" "[3]" IO_again demo_api 0 se' demo_lib "\<lambda>_ _ w. (0, w)" 3]
    by (auto simp: demo_net_def world0_def)
qed

theorem write_rounds_deliver_witness:
  "\<exists>wf c'. write_rounds demo_api (\<lambda>_ _ w. (0, w)) 30 [([2], IO_again), ([1, 2], IO_eof)] (demo_net demo_writer) = Some wf
     \<and> sent_on 5 (drop 0 (w_trace wf)) = ''hello'' \<and> w_coks wf 20 = Some c' \<and> \<not> ck_inuse c'"
  using write_rounds_deliver [OF demo_sending, of "[([2], IO_again), ([1, 2], IO_eof)]" demo_api "\<lambda>_ _ w. (0, w)"]
  by (auto simp: demo_writer_def demo_sock_def cosocket_zero_def)

theorem be_write_error_witness:
  "\<exists>w'. cosocket_be_write demo_api (\<lambda>_ _ w. (0, w)) [2] IO_err 30 (demo_net demo_writer) = Some (0, [], w')"
  using be_write_error [OF demo_sending _ demo_net_cnt, of "[2]" demo_api "\<lambda>_ _ w. (0, w)"]
  by (auto simp: demo_writer_def demo_sock_def cosocket_zero_def accepts_def)

end
