(* ===== verification/Sock_Read.thy ===== *)
theory Sock_Read
  imports Sock_Write
begin

text \<open>
  Reading: what arrives is delivered to the reading coroutine as the mode of the read asks
  for, piece by piece and in order; the end of the stream closes the connection first.
\<close>

section \<open>Reading touches the buffer only\<close>

lemma read_buf_unbuffered:
  "lua_co_read_buf junk c = Some (vs, c') \<Longrightarrow> unbuffered c' = unbuffered c"
  by (auto simp: lua_co_read_buf_def unbuffered_def Let_def split: if_splits prod.splits option.splits)

lemma unbuffered_eq:
  assumes "unbuffered c' = unbuffered c"
  shows "ck_L c' = ck_L c" "ck_fd c' = ck_fd c" "ck_ptr c' = ck_ptr c" "ck_status c' = ck_status c"
    "ck_inuse c' = ck_inuse c" "ck_in_read_action c' = ck_in_read_action c" "ck_timeout_ptr c' = ck_timeout_ptr c"
    "ck_pool_key c' = ck_pool_key c" "ck_buf_read_len c' = ck_buf_read_len c" "ck_timeout c' = ck_timeout c"
    "mode_of c' = mode_of c"
  using assms by (cases c'; cases c; simp add: unbuffered_def mode_of_def)+

lemma stream_simps [simp]:
  "stream (c\<lparr>ck_in_read_action := a\<rparr>) = stream c" "stream (c\<lparr>ck_inuse := b\<rparr>) = stream c"
  "stream (c\<lparr>ck_timeout_ptr := t\<rparr>) = stream c" "stream (c\<lparr>ck_ptr := p\<rparr>) = stream c"
  "stream (c\<lparr>ck_fd := d\<rparr>) = stream c" "stream (c\<lparr>ck_status := s\<rparr>) = stream c"
  "stream (c\<lparr>ck_L := l\<rparr>) = stream c" "stream (c\<lparr>ck_buf_read_len := n\<rparr>) = stream c"
  by (simp_all add: stream_def)

lemma rb_ok_simps [simp]:
  "rb_ok (c\<lparr>ck_in_read_action := a\<rparr>) = rb_ok c" "rb_ok (c\<lparr>ck_inuse := b\<rparr>) = rb_ok c"
  "rb_ok (c\<lparr>ck_timeout_ptr := t\<rparr>) = rb_ok c" "rb_ok (c\<lparr>ck_ptr := p\<rparr>) = rb_ok c"
  "rb_ok (c\<lparr>ck_fd := d\<rparr>) = rb_ok c" "rb_ok (c\<lparr>ck_status := s\<rparr>) = rb_ok c"
  "rb_ok (c\<lparr>ck_L := l\<rparr>) = rb_ok c" "rb_ok (c\<lparr>ck_buf_read_len := n\<rparr>) = rb_ok c"
  by (simp_all add: rb_ok_def)

lemma mode_of_simps [simp]:
  "mode_of (c\<lparr>ck_in_read_action := a\<rparr>) = mode_of c" "mode_of (c\<lparr>ck_inuse := b\<rparr>) = mode_of c"
  "mode_of (c\<lparr>ck_timeout_ptr := t\<rparr>) = mode_of c" "mode_of (c\<lparr>ck_ptr := p\<rparr>) = mode_of c"
  "mode_of (c\<lparr>ck_fd := d\<rparr>) = mode_of c" "mode_of (c\<lparr>ck_status := s\<rparr>) = mode_of c"
  by (simp_all add: mode_of_def)

text \<open>One attempt to serve a reader, the empty buffer included.\<close>

definition no_data :: "cosocket \<Rightarrow> lua_value list" where
  "no_data c = (if stream c = [] \<and> ck_status c = 0 then [LNil, lstr ''Not connected!''] else [])"

lemma serve_reader:
  assumes "rb_ok c" and "junk \<noteq> CR"
  shows "\<exists>c'. lua_co_read_buf junk c = Some (case read_spec (mode_of c) (ck_status c = 0) (stream c) of
             None \<Rightarrow> no_data c | Some (out, _) \<Rightarrow> [LString out], c')
     \<and> stream c' = (case read_spec (mode_of c) (ck_status c = 0) (stream c) of None \<Rightarrow> stream c | Some (_, rest) \<Rightarrow> rest)
     \<and> rb_ok c' \<and> unbuffered c' = unbuffered c"
proof (cases "stream c = []")
  case True
  then have "read_spec (mode_of c) b [] = None" for b by (simp add: read_spec_def split: read_mode.splits)
  moreover have "ck_total_buf_len c < 1" using assms(1) True by (simp add: rb_ok_def word_less_nat_alt)
  ultimately show ?thesis using True assms(1) by (auto simp: lua_co_read_buf_def no_data_def)
next
  case False
  show ?thesis
  proof (cases "read_spec (mode_of c) (ck_status c = 0) (stream c)")
    case None
    with read_buf_spec [OF assms(1) False assms(2)] False assms(1) show ?thesis by (simp add: no_data_def)
  next
    case (Some r)
    obtain out rest where r: "r = (out, rest)" by (cases r)
    with read_buf_spec [OF assms(1) False assms(2)] Some obtain c' where
      "lua_co_read_buf junk c = Some ([LString out], c')" "stream c' = rest" "rb_ok c'" by auto
    with Some r read_buf_unbuffered show ?thesis by (intro exI [of _ c']) auto
  qed
qed

lemma init_read_buf_brk: "init_read_buf brk c = Some (brk', c') \<Longrightarrow> brk \<le> brk'"
  by (auto simp: init_read_buf_def split: if_splits option.splits)

lemma recv_loop_brk: "recv_loop fin segs brk c = Some (e, brk', c') \<Longrightarrow> brk \<le> brk'"
proof (induction fin segs brk c rule: recv_loop.induct)
  case (1 fin brk cok)
  then show ?case by simp
next
  case (2 fin s ss brk cok)
  show ?case
  proof (cases "s = []")
    case True
    with 2 show ?thesis by simp
  next
    case False
    then obtain b where b: "find_link (ck_last_buf cok) (ck_read_buf cok) = Some b" using 2(4) by (auto split: option.splits)
    show ?thesis
    proof (cases "lb_size b - length (lb_buf b) = 0 \<or> \<not> length (lb_buf b) + length (take (lb_size b - length (lb_buf b)) s) \<ge> lb_size b")
      case True
      with 2(3,4) False b show ?thesis by (auto simp: Let_def split: if_splits)
    next
      case full: False
      then obtain k c2 where i: "init_read_buf brk (store_last (lb_addr b) (take (lb_size b - length (lb_buf b)) s) cok) = Some (k, c2)"
        "recv_loop fin (drop (lb_size b - length (lb_buf b)) s # ss) k c2 = Some (e, brk', c')"
        using 2(4) False b by (auto simp: Let_def split: option.splits if_splits)
      then have "k \<le> brk'" using 2(2) [OF False b refl refl refl] full by auto
      with init_read_buf_brk [OF i(1)] show ?thesis by simp
    qed
  qed
qed

lemma fill_buf_brk: "fill_buf fin segs brk c = Some (e, brk', c') \<Longrightarrow> brk \<le> brk'"
  using recv_loop_brk init_read_buf_brk by (fastforce simp: fill_buf_def split: option.splits)

section \<open>Data arrives\<close>

text \<open>A coroutine waits in a read of this socket.\<close>

definition reading :: "addr \<Rightarrow> addr \<Rightarrow> cosocket \<Rightarrow> world \<Rightarrow> bool" where
  "reading p ca c w \<longleftrightarrow> cok_of p w = Some (ca, c) \<and> ck_in_read_action c \<and> ck_status c = 2 \<and> rb_ok c \<and> links_below (w_brk w) c"


section \<open>The end of the stream\<close>

text \<open>What the reader gets when the peer has closed.\<close>

definition last_words :: "read_mode \<Rightarrow> bytes \<Rightarrow> lua_value list" where
  "last_words m s = (case read_spec m True s of
     Some (out, _) \<Rightarrow> [LString out]
   | None \<Rightarrow> if s = [] then [LNil, lstr ''Not connected!''] else [LNil])"

lemma be_read_closed:
  assumes rd: "reading p ca c w" and junk: "junk \<noteq> CR" and len: "length (stream c) + length (concat segs) < 2 ^ 31 - 1"
    and cnt: "cnt_ok w" and e: "e \<noteq> IO_again" and all: "s = stream c @ concat segs"
  shows "\<exists>c' w'. rb_ok c' \<and> ck_fd c' = - 1 \<and> ck_ptr c' = None \<and> ck_status c' = 0 \<and> \<not> ck_inuse c' \<and> ck_timeout_ptr c' = None
     \<and> ck_pool_key c' = ck_pool_key c
     \<and> stream c' = (case read_spec (mode_of c) True s of None \<Rightarrow> s | Some (_, rest) \<Rightarrow> rest)
     \<and> cnt_ok w' \<and> one_less (ck_pool_key c) w w' \<and> w_se w' = api_se_delete api (ck_ptr c) (w_se w)
     \<and> w_trace w' = w_trace w @ [E_delete_timeout (ck_timeout_ptr c), E_close (ck_fd c)] \<and> w_brk w \<le> w_brk w' \<and> other_parts w w'
     \<and> cosocket_be_read junk api resume e segs p w =
         (if e = IO_err \<and> last_words (mode_of c) s = [LNil] then Some (put_cok ca c' w')
          else after_resume api ca (resume (ck_L c) (last_words (mode_of c) s) (put_cok ca c' w')))"
proof -
  have r: "cok_of p w = Some (ca, c)" "ck_in_read_action c" "ck_status c = 2" "rb_ok c" "links_below (w_brk w) c"
    using rd by (auto simp: reading_def)
  obtain brk c1 where f: "fill_buf e segs (w_brk w) c = Some (e, brk, c1)"
    "stream c1 = s" "rb_ok c1" "unbuffered c1 = unbuffered c" "links_below brk c1"
    using fill_buf_ok [OF r(4,5) len, of e] all by blast
  note u1 = unbuffered_eq [OF f(4)]
  have brk: "w_brk w \<le> brk" using fill_buf_brk [OF f(1)] .
  let ?w1 = "emit (E_delete_timeout (ck_timeout_ptr c)) (w\<lparr>w_brk := brk\<rparr>)" and ?c1 = "c1\<lparr>ck_timeout_ptr := None\<rparr>"
  have cnt1: "cnt_ok ?w1" "\<And>j. count_of j ?w1 = count_of j w" using cnt_frame [of ?w1 w] cnt brk by simp_all
  obtain w2 where w2: "drop_connection api ?c1 ?w1 = Some (?c1\<lparr>ck_ptr := None, ck_fd := - 1, ck_status := 0\<rparr>, w2)"
    "cnt_ok w2" "one_less (ck_pool_key c) ?w1 w2" "w_trace w2 = w_trace w @ [E_delete_timeout (ck_timeout_ptr c), E_close (ck_fd c)]"
    "w_se w2 = api_se_delete api (ck_ptr c) (w_se w)" "brk \<le> w_brk w2" "other_parts ?w1 w2"
    using drop_connection_ok [OF cnt1(1), of api ?c1] u1 by auto
  let ?c2 = "?c1\<lparr>ck_ptr := None, ck_fd := - 1, ck_status := 0, ck_in_read_action := False\<rparr>"
  have ok2: "rb_ok ?c2" "stream ?c2 = s" "mode_of ?c2 = mode_of c" "ck_status ?c2 = 0" using f u1 by simp_all
  obtain c3 where s: "lua_co_read_buf junk ?c2 = Some (case read_spec (mode_of c) True s of
             None \<Rightarrow> no_data ?c2 | Some (out, _) \<Rightarrow> [LString out], c3)"
    "stream c3 = (case read_spec (mode_of c) True s of None \<Rightarrow> s | Some (_, rest) \<Rightarrow> rest)"
    "rb_ok c3" "unbuffered c3 = unbuffered ?c2"
    using serve_reader [OF ok2(1) junk, unfolded ok2(2,3,4)] by auto
  note u3 = unbuffered_eq [OF s(4)]
  have nd: "no_data ?c2 = (if s = [] then [LNil, lstr ''Not connected!''] else [])" using ok2 by (simp add: no_data_def)
  let ?c' = "c3\<lparr>ck_inuse := False\<rparr>"
  have L: "ck_L c3 = ck_L c" using u3 u1 by simp
  have run: "cosocket_be_read junk api resume e segs p w =
         (if e = IO_err \<and> last_words (mode_of c) s = [LNil] then Some (put_cok ca ?c' w2)
          else after_resume api ca (resume (ck_L c) (last_words (mode_of c) s) (put_cok ca ?c' w2)))"
    using r f(1) u1 w2(1) s(1) e nd L
    by (cases e; cases "read_spec (mode_of c) True s")
      (auto simp: cosocket_be_read_def stop_timeout_def Let_def last_words_def)
  show ?thesis
    using run s(2,3) w2 u1 u3 cnt1(2) brk
    by (intro exI [of _ ?c'] exI [of _ w2]) (auto simp: one_less_def other_parts_def)
qed


text \<open>
  A receive error while a line is incomplete: the connection is closed, but the waiting
  coroutine is not resumed, and its timer is gone -- nothing in this program wakes it again.
\<close>

theorem be_read_error_strands_reader:
  assumes "reading p ca c w" and "junk \<noteq> CR" and "length (stream c) < 2 ^ 31 - 1" and "cnt_ok w"
    and "mode_of c = ReadLine" and "stream c \<noteq> []" and "LF \<notin> set (stream c)"
  shows "\<exists>c' w'. cosocket_be_read junk api resume IO_err [] p w = Some (put_cok ca c' w')
     \<and> ck_fd c' = - 1 \<and> ck_timeout_ptr c' = None \<and> stream c' = stream c"
  using be_read_closed [OF assms(1,2) _ assms(4) _ refl, of "[]" IO_err api resume] assms(3,5,6,7)
  by (auto simp: last_words_def read_spec_def)

text \<open>
  If the coroutine resumed at the end of the stream fails with an error, the connection is
  given up a second time: the counter of the pool key goes down twice for one connection and
  the descriptor -1 is closed.
\<close>

theorem be_read_eof_counts_twice:
  assumes "reading p ca c w" and "junk \<noteq> CR" and "length (stream c) < 2 ^ 31 - 1" and "cnt_ok w"
    and "\<And>L vs v. resume L vs v = (LUA_ERRRUN, v)" and "ck_pool_key c \<noteq> 0"
  shows "\<exists>w'. cosocket_be_read junk api resume IO_eof [] p w = Some w' \<and> count_of (ck_pool_key c) w' = count_of (ck_pool_key c) w - 2
     \<and> w_trace w' = w_trace w @ [E_delete_timeout (ck_timeout_ptr c), E_close (ck_fd c), E_close (- 1)]"
proof -
  obtain c' w1 where c': "ck_fd c' = - 1" "ck_pool_key c' = ck_pool_key c" and w1: "cnt_ok w1" "one_less (ck_pool_key c) w w1"
    "w_trace w1 = w_trace w @ [E_delete_timeout (ck_timeout_ptr c), E_close (ck_fd c)]"
    and run: "cosocket_be_read junk api resume IO_eof [] p w =
        after_resume api ca (resume (ck_L c) (last_words (mode_of c) (stream c)) (put_cok ca c' w1))"
    using be_read_closed [OF assms(1,2) _ assms(4) _ refl, of "[]" IO_eof api resume] assms(3) by auto
  let ?w1 = "put_cok ca c' w1"
  have ok: "cnt_ok ?w1" "\<And>j. count_of j ?w1 = count_of j w1" using cnt_frame [of ?w1 w1] w1(1) by simp_all
  obtain w2 where w2: "drop_connection api c' ?w1 = Some (c'\<lparr>ck_ptr := None, ck_fd := - 1, ck_status := 0\<rparr>, w2)"
    "cnt_ok w2" "one_less (ck_pool_key c) ?w1 w2" "w_trace w2 = w_trace w1 @ [E_close (- 1)]"
    using drop_connection_ok [OF ok(1), of api c'] c' by auto
  let ?w2 = "put_cok ca (c'\<lparr>ck_ptr := None, ck_fd := - 1, ck_status := 0\<rparr>) w2"
  have ok2: "\<And>j. count_of j ?w2 = count_of j w2" using cnt_frame [of ?w2 w2] w2(2) by simp
  have "cosocket_be_read junk api resume IO_eof [] p w = Some ?w2"
    using run w2(1) assms(5) by (simp add: after_resume_def)
  then show ?thesis using ok(2) ok2 w1 w2 assms(6) by (intro exI [of _ ?w2]) (simp add: one_less_def)
qed

section \<open>The call\<close>

lemma read_waits:
  assumes idle: "idle_socket w ca c p" and ok: "rb_ok c" "links_below (w_brk w) c" and junk: "junk \<noteq> CR"
    and st: "arg st 1 = Some (LUserdata ca)" and m: "m = mode_of (c\<lparr>ck_buf_read_len := read_len lib st\<rparr>)"
    and nr: "\<not> ck_in_read_action c" and none: "read_spec m False (stream c) = None"
    and reg: "api_se_be_read api (Some p) H_be_read (w_se w) = (r, se')" "r \<noteq> - 1" "map_option sp_data (se' p) = Some (DCok ca)"
  shows "\<exists>c' w'. lua_co_read junk lib api L st w = Some (Yield, w') \<and> reading p ca c' w' \<and> ck_inuse c'
        \<and> ck_L c' = Some L \<and> stream c' = stream c \<and> mode_of c' = m \<and> ck_timeout_ptr c' \<noteq> None
        \<and> w_se w' = se' \<and> ck_in_read_action c' \<and> w_trace w' = w_trace w @ [E_add_timeout ca (ck_timeout c)]"
proof -
  let ?c1 = "c\<lparr>ck_L := Some L, ck_buf_read_len := read_len lib st\<rparr>"
  have i: "w_coks w ca = Some c" "ck_status c = 2" "ck_fd c \<noteq> - 1" "ck_ptr c = Some p" "\<not> ck_inuse c"
    using idle by (auto simp: idle_socket_def)
  have m1: "mode_of ?c1 = m" using m by (simp add: mode_of_def)
  have rb: "lua_co_read_buf junk ?c1 = Some ([], ?c1)"
  proof (cases "stream c = []")
    case True
    then have "ck_total_buf_len c < 1" using ok(1) by (simp add: rb_ok_def word_less_nat_alt)
    then show ?thesis using i by (simp add: lua_co_read_buf_def)
  next
    case False
    then show ?thesis using read_buf_spec [of ?c1 junk] none ok(1) junk m1 i(2) by simp
  qed
  let ?c3 = "?c1\<lparr>ck_in_read_action := True, ck_timeout_ptr := Some (w_brk w), ck_inuse := True\<rparr>"
  let ?w3 = "put_cok ca ?c3 (emit (E_add_timeout ca (ck_timeout c)) (w\<lparr>w_se := se', w_brk := Suc (w_brk w)\<rparr>))"
  have "lua_co_read junk lib api L st w = Some (Yield, ?w3)"
    using rb i st nr reg(1,2) by (simp add: lua_co_read_def se_be_read_def start_timeout_def Let_def)
  moreover have "reading p ca ?c3 ?w3"
    using i ok reg(3) by (auto simp: reading_def cok_of_def links_below_def)
  moreover have "mode_of ?c3 = m" using m1 by simp
  ultimately show ?thesis by (intro exI [of _ ?c3] exI [of _ ?w3]) simp
qed


section \<open>Concrete readers\<close>

definition demo_reader :: "bytes \<Rightarrow> cosocket" where
  "demo_reader s = demo_sock\<lparr>ck_in_read_action := True, ck_inuse := True, ck_timeout_ptr := Some 39, ck_buf_read_len := - 1,
     ck_read_buf := [\<lparr>lb_addr = 1, lb_buf = s, lb_size = 4096\<rparr>], ck_last_buf := Some 1,
     ck_total_buf_len := word_of_nat (length s)\<rparr>"

lemma demo_reading:
  assumes "length s < 4096"
  shows "reading 30 20 (demo_reader s) (demo_net (demo_reader s))" and "stream (demo_reader s) = s"
    and "mode_of (demo_reader s) = ReadLine" and "ck_pool_key (demo_reader s) = 7"
  using assms by (auto simp: reading_def demo_reader_def demo_net_def cok_of_def demo_sock_def cosocket_zero_def rb_ok_def
      chain_ok_def stream_def links_below_def unat_u64_of_nat mode_of_def)



theorem be_read_error_strands_reader_witness:
  "\<exists>c' w'. cosocket_be_read (CHR 0x00) demo_api (\<lambda>_ _ w. (0, w)) IO_err [] 30 (demo_net (demo_reader ''a'')) = Some (put_cok 20 c' w')
     \<and> ck_fd c' = - 1 \<and> ck_timeout_ptr c' = None \<and> stream c' = ''a''"
  using be_read_error_strands_reader [OF demo_reading(1) _ _ demo_net_cnt, of "''a''" "CHR 0x00" demo_api "\<lambda>_ _ w. (0, w)"]
    demo_reading [of "''a''"] by simp

theorem be_read_eof_counts_twice_witness:
  "\<exists>w'. cosocket_be_read (CHR 0x00) demo_api (\<lambda>_ _ w. (LUA_ERRRUN, w)) IO_eof [] 30 (demo_net (demo_reader ''a'')) = Some w'
     \<and> count_of 7 w' = count_of 7 (demo_net (demo_reader ''a'')) - 2"
  using be_read_eof_counts_twice [OF demo_reading(1) _ _ demo_net_cnt, of "''a''" "CHR 0x00" "\<lambda>_ _ w. (LUA_ERRRUN, w)" demo_api]
    demo_reading [of "''a''"] by auto


end
