(* ===== verification/Sock_Close.thy ===== *)
theory Sock_Close
  imports Sock_Read
begin

text \<open>
  The life cycle of a connection around the pool: timeouts, closing, and connecting through the
  pool. An open descriptor is closed exactly once and counted off once, or kept by the pool and
  still counted; a socket that waits for a connection leaves the queue when its timer fires.
\<close>

section \<open>What the counters depend on\<close>

lemma counter_of_cong:
  assumes "w_counters w' = w_counters w" "w_cnodes w' = w_cnodes w" "w_brk w' = w_brk w"
  shows "counter_of key w' = counter_of key w" "cnt_rel w' C = cnt_rel w C"
  unfolding counter_of_def cnt_rel_def assms by (rule refl)+

lemma counters_simps [simp]:
  "cnt_rel (emit e w) C = cnt_rel w C" "counter_of key (emit e w) = counter_of key w"
  "cnt_rel (put_cok a c w) C = cnt_rel w C" "counter_of key (put_cok a c w) = counter_of key w"
  "cnt_rel (w\<lparr>w_se := h\<rparr>) C = cnt_rel w C" "counter_of key (w\<lparr>w_se := h\<rparr>) = counter_of key w"
  "cnt_rel (w\<lparr>w_waiting := x, w_waiting_end := y, w_wnodes := z\<rparr>) C = cnt_rel w C"
  "counter_of key (w\<lparr>w_waiting := x, w_waiting_end := y, w_wnodes := z\<rparr>) = counter_of key w"
  by (rule counter_of_cong; simp)+

lemma counts_simps [simp]:
  "cnt_ok (emit e w) = cnt_ok w" "count_of j (emit e w) = count_of j w" "size_of j (emit e w) = size_of j w"
  "cnt_ok (put_cok a c w) = cnt_ok w" "count_of j (put_cok a c w) = count_of j w" "size_of j (put_cok a c w) = size_of j w"
  "cnt_ok (w\<lparr>w_se := h\<rparr>) = cnt_ok w" "count_of j (w\<lparr>w_se := h\<rparr>) = count_of j w"
  "cnt_ok (w\<lparr>w_waiting := x, w_waiting_end := y, w_wnodes := z\<rparr>) = cnt_ok w"
  "count_of j (w\<lparr>w_waiting := x, w_waiting_end := y, w_wnodes := z\<rparr>) = count_of j w"
  by (simp_all add: cnt_ok_def count_of_def size_of_def)

lemma one_less_simps [simp]:
  "one_less key w (emit e w') = one_less key w w'" "one_less key (emit e w) w' = one_less key w w'"
  "one_less key w (put_cok a c w') = one_less key w w'" "one_less key (put_cok a c w) w' = one_less key w w'"
  "one_less key (w\<lparr>w_se := h\<rparr>) w' = one_less key w w'"
  by (simp_all add: one_less_def)

text \<open>The descriptors a stretch of the trace closes.\<close>

definition closes :: "world \<Rightarrow> world \<Rightarrow> int list" where
  "closes w w' = concat (map (\<lambda>e. case e of E_close fd \<Rightarrow> [fd] | _ \<Rightarrow> []) (drop (length (w_trace w)) (w_trace w')))"

text \<open>The connections asked for, by host and port.\<close>

definition opens :: "world \<Rightarrow> world \<Rightarrow> (bytes \<times> int) list" where
  "opens w w' = concat (map (\<lambda>e. case e of E_connect h p d \<Rightarrow> [(h, p)] | _ \<Rightarrow> []) (drop (length (w_trace w)) (w_trace w')))"

lemma closes_append: "w_trace w' = w_trace w @ t \<Longrightarrow>
    closes w w' = concat (map (\<lambda>e. case e of E_close fd \<Rightarrow> [fd] | _ \<Rightarrow> []) t)"
  by (simp add: closes_def)

text \<open>Deleting the registration and counting the connection off, the step all closing paths share.\<close>

lemma count_off:
  assumes "cnt_ok w"
  shows "\<exists>w'. connection_pool_counter_operate key (- 1) (se_delete api p w) = Some w'
     \<and> cnt_ok w' \<and> one_less key w w' \<and> w_trace w' = w_trace w \<and> w_se w' = api_se_delete api p (w_se w)
     \<and> w_pool w' = w_pool w \<and> w_pnodes w' = w_pnodes w \<and> w_brk w \<le> w_brk w' \<and> other_parts w w'"
proof -
  obtain w' where w': "drop_connection api (cosocket_zero\<lparr>ck_ptr := p, ck_pool_key := key\<rparr>) w
       = Some ((cosocket_zero\<lparr>ck_ptr := p, ck_pool_key := key\<rparr>)\<lparr>ck_ptr := None, ck_fd := - 1, ck_status := 0\<rparr>, w')"
    "cnt_ok w'" "one_less key w w'" "w_trace w' = w_trace w @ [E_close 0]"
    "w_se w' = api_se_delete api p (w_se w)" "w_pool w' = w_pool w" "w_pnodes w' = w_pnodes w"
    "w_brk w \<le> w_brk w'" "other_parts w w'"
    using drop_connection_ok [OF assms, of api "cosocket_zero\<lparr>ck_ptr := p, ck_pool_key := key\<rparr>"]
    by (auto simp: cosocket_zero_def)
  then obtain w2 where "connection_pool_counter_operate key (- 1) (se_delete api p w) = Some w2"
    "w' = emit (E_close 0) w2"
    by (auto simp: drop_connection_def Let_def cosocket_zero_def split: bind_splits)
  with w' show ?thesis by (auto simp: other_parts_def)
qed

section \<open>Timeouts\<close>

text \<open>The socket after its connection is gone.\<close>

definition gone :: "cosocket \<Rightarrow> bool" where
  "gone c \<longleftrightarrow> ck_fd c = - 1 \<and> ck_ptr c = None \<and> ck_status c = 0 \<and> ck_timeout_ptr c = None
     \<and> ck_pool_wait c = None \<and> ck_read_buf c = [] \<and> ck_send_buf_need_free c = None"

lemma timeout_msg_frame:
  "timeout_msg (c\<lparr>ck_timeout_ptr := t, ck_pool_wait := p\<rparr>) w = timeout_msg c w"
  "w_se w' = w_se w \<Longrightarrow> timeout_msg c w' = timeout_msg c w"
  by (simp_all add: timeout_msg_def split: option.split)

text \<open>
  A timer that fires on an open connection closes exactly its descriptor, deletes its
  registration, takes it off the counter of its key and resumes the coroutine with nil and the
  message for the action that was going on; the socket can then connect again.
\<close>

theorem timeout_handle_closes:
  assumes cok: "w_coks w ca = Some c" and wait: "ck_pool_wait c = None" and fd: "0 \<le> ck_fd c"
    and msg: "timeout_msg c w = Some msg" and ok: "cnt_ok w"
  shows "\<exists>w' c'. timeout_handle api resume ca w = Some (snd (resume (ck_L c) [LNil, lstr msg] w'))
     \<and> w_coks w' ca = Some c' \<and> (\<forall>b. b \<noteq> ca \<longrightarrow> w_coks w' b = w_coks w b) \<and> gone c' \<and> \<not> ck_inuse c' \<and> closes w w' = [ck_fd c]
     \<and> w_se w' = api_se_delete api (ck_ptr c) (w_se w) \<and> cnt_ok w' \<and> one_less (ck_pool_key c) w w'"
proof -
  let ?w1 = "emit (E_delete_timeout (ck_timeout_ptr c)) w"
  obtain w2 where w2: "connection_pool_counter_operate (ck_pool_key c) (- 1) (se_delete api (ck_ptr c) ?w1) = Some w2"
    "cnt_ok w2" "one_less (ck_pool_key c) w w2" "w_trace w2 = w_trace ?w1" "w_coks w2 = w_coks w"
    "w_se w2 = api_se_delete api (ck_ptr c) (w_se w)"
    using count_off [of ?w1 "ck_pool_key c" api "ck_ptr c"] ok by (auto simp: other_parts_def)
  have m: "timeout_msg (c\<lparr>ck_timeout_ptr := None, ck_pool_wait := None\<rparr>) ?w1 = Some msg"
    using msg by (simp add: timeout_msg_frame(1) timeout_msg_frame(2) [of ?w1 w])
  show ?thesis
    by (insert cok wait fd m w2, cases "ck_ssl c"; cases "ck_send_buf_need_free c")
      (simp add: timeout_handle_def stop_timeout_def Let_def free_ptr_def,
        rule exI, rule conjI, rule refl, simp add: gone_def closes_def)+
qed

text \<open>A socket that waits for a connection of its key: its node is in the queue.\<close>

definition awaiting :: "(nat \<Rightarrow> addr list) \<Rightarrow> addr \<Rightarrow> cosocket \<Rightarrow> nat \<Rightarrow> addr \<Rightarrow> world \<Rightarrow> bool" where
  "awaiting Q ca c k n w \<longleftrightarrow> w_coks w ca = Some c \<and> ck_status c = 3 \<and> ck_fd c = - 1 \<and> ck_ptr c = None
     \<and> ck_pool_wait c = Some n \<and> wait_rel w Q \<and> n \<in> set (Q k)"

lemma wait_rel_cong:
  assumes "w_waiting w' = w_waiting w" "w_waiting_end w' = w_waiting_end w" "w_wnodes w' = w_wnodes w" "w_brk w' = w_brk w"
  shows "wait_rel w' Q = wait_rel w Q"
  unfolding wait_rel_def assms by (rule refl)

lemma wait_rel_simps [simp]:
  "wait_rel (emit e w) Q = wait_rel w Q" "wait_rel (put_cok a c w) Q = wait_rel w Q" "wait_rel (w\<lparr>w_se := h\<rparr>) Q = wait_rel w Q"
  by (rule wait_rel_cong; simp)+

text \<open>
  A timer that fires on a socket waiting for a pooled connection takes exactly its node out
  of the queue, keeping the order of the others, closes nothing and leaves every counter; the
  coroutine gets nil and the message for this case.
\<close>

theorem timeout_handle_dequeues:
  assumes aw: "awaiting Q ca c k n w" and ok: "cnt_ok w"
  shows "\<exists>w' c'. timeout_handle api resume ca w
        = Some (snd (resume (ck_L c) [LNil, lstr ''Connect error!(wait pool timeout)''] w'))
     \<and> w_coks w' ca = Some c' \<and> gone c' \<and> \<not> ck_inuse c' \<and> wait_rel w' (Q(k := remove1 n (Q k)))
     \<and> closes w w' = [] \<and> cnt_ok w' \<and> (\<forall>j. count_of j w' = count_of j w)"
proof -
  let ?w1 = "emit (E_delete_timeout (ck_timeout_ptr c)) w"
  obtain hd en h where d: "delete_in_waiting_get_connection n ?w1 = Some (?w1\<lparr>w_waiting := hd, w_waiting_end := en, w_wnodes := h\<rparr>)"
    "wait_rel (?w1\<lparr>w_waiting := hd, w_waiting_end := en, w_wnodes := h\<rparr>) (Q(k := remove1 n (Q k)))"
    using delete_waiting_rel [of ?w1 Q n k] aw by (auto simp: awaiting_def)
  show ?thesis
    by (insert aw ok d, cases "ck_ssl c"; cases "ck_send_buf_need_free c")
      (simp add: awaiting_def timeout_handle_def stop_timeout_def timeout_msg_def se_delete_def Let_def free_ptr_def,
        rule exI, rule conjI, rule refl, simp add: gone_def closes_def)+
qed

section \<open>Closing\<close>

text \<open>An open connection as the socket that owns it sees it.\<close>

definition owns :: "addr \<Rightarrow> cosocket \<Rightarrow> addr \<Rightarrow> se_ptr \<Rightarrow> world \<Rightarrow> bool" where
  "owns ca c p sp w \<longleftrightarrow> w_coks w ca = Some c \<and> 0 \<le> ck_fd c \<and> ck_ptr c = Some p \<and> w_se w p = Some sp
     \<and> ck_pool_wait c = None \<and> ck_ssl_pw c \<noteq> Garbage"

text \<open>The first half of \<open>_lua_co_close\<close>, which does not touch the connection.\<close>

definition close_prefix :: "cosocket \<Rightarrow> world \<Rightarrow> world" where
  "close_prefix c w = emit (E_delete_timeout (ck_timeout_ptr c)) (free_ptr (ck_send_buf_need_free c) w)"

lemma free_ptr_simps [simp]:
  "w_coks (free_ptr q w) = w_coks w" "w_se (free_ptr q w) = w_se w" "w_pool (free_ptr q w) = w_pool w"
  "w_pnodes (free_ptr q w) = w_pnodes w" "w_brk (free_ptr q w) = w_brk w" "cnt_ok (free_ptr q w) = cnt_ok w"
  "count_of j (free_ptr q w) = count_of j w" "w_now (free_ptr q w) = w_now w"
  by (simp_all add: free_ptr_def)

lemma close_prefix_simps [simp]:
  "w_coks (close_prefix c w) = w_coks w" "w_se (close_prefix c w) = w_se w" "w_pool (close_prefix c w) = w_pool w"
  "w_pnodes (close_prefix c w) = w_pnodes w" "w_brk (close_prefix c w) = w_brk w" "cnt_ok (close_prefix c w) = cnt_ok w"
  "count_of j (close_prefix c w) = count_of j w" "w_now (close_prefix c w) = w_now w"
  by (simp_all add: close_prefix_def)

lemma closes_prefix:
  "w_trace w' = w_trace (close_prefix c w) @ t \<Longrightarrow> closes w w' = concat (map (\<lambda>e. case e of E_close fd \<Rightarrow> [fd] | _ \<Rightarrow> []) t)"
  by (simp add: closes_def close_prefix_def free_ptr_def)

definition closed_cok :: "cosocket \<Rightarrow> cosocket" where
  "closed_cok c = c\<lparr>ck_read_buf := [], ck_send_buf_need_free := None, ck_pool_wait := None, ck_timeout_ptr := None, ck_status := 0,
     ck_ssl := None, ck_ctx := None, ck_ssl_pw := Init None, ck_ptr := None, ck_fd := - 1\<rparr>"

lemma gone_closed [simp]: "gone (closed_cok c)"
  by (simp add: gone_def closed_cok_def)

lemma free_ssl_ok:
  assumes "ck_ssl_pw c \<noteq> Garbage"
  shows "\<exists>t. free_ssl c w = Some (w\<lparr>w_trace := w_trace w @ t\<rparr>) \<and> (\<forall>e \<in> set t. \<forall>fd. e \<noteq> E_close fd)"
proof -
  obtain q where q: "ck_ssl_pw c = Init q" using assms by (cases "ck_ssl_pw c") auto
  let ?t = "(if ck_ssl c \<noteq> None then [E_ssl_free (ck_ssl c)] else []) @ (if ck_ctx c \<noteq> None then [E_ssl_ctx_free (ck_ctx c)] else [])
     @ (if q \<noteq> None then [E_free q] else [])"
  have "free_ssl c w = Some (w\<lparr>w_trace := w_trace w @ ?t\<rparr>)"
    using q by (simp add: free_ssl_def free_ptr_def emit_def Let_def)
  then show ?thesis by (intro exI [of _ ?t] conjI) auto
qed

lemma no_closes: "\<forall>e \<in> set t. \<forall>fd. e \<noteq> E_close fd \<Longrightarrow>
    concat (map (\<lambda>e. case e of E_close fd \<Rightarrow> [fd] | _ \<Rightarrow> []) t) = []"
  by (induction t) (auto split: effect.splits)

text \<open>The second half, for a connection that the pool has taken (\<open>kept\<close> is 1) or not.\<close>

definition close_rest :: "se_api \<Rightarrow> addr \<Rightarrow> cosocket \<Rightarrow> int \<times> world \<Rightarrow> world option" where
  "close_rest api ca c kw = (case kw of (kept, w) \<Rightarrow> do {
     w \<leftarrow> (if kept = 0 then do {
              w \<leftarrow> connection_pool_counter_operate (ck_pool_key c) (- 1) (se_delete api (ck_ptr c) w);
              free_ssl c (emit (E_close (ck_fd c)) w) }
            else Some w);
     Some (put_cok ca (closed_cok c) w) })"

lemma free_ssl_cong: "ck_ssl c' = ck_ssl c \<Longrightarrow> ck_ctx c' = ck_ctx c \<Longrightarrow> ck_ssl_pw c' = ck_ssl_pw c \<Longrightarrow> free_ssl c' w = free_ssl c w"
  unfolding free_ssl_def by (simp only:)

lemma close_cok_unfold:
  assumes own: "owns ca c p sp w"
    and w1: "w1 = (close_prefix c w)\<lparr>w_se := (w_se w)(p \<mapsto> sp\<lparr>sp_fd := ck_fd c\<rparr>)\<rparr>"
  shows "lua_co_close_cok env api ca w
    = Option.bind (if ck_pool_size c < 1 then Some (0, w1)
                   else add_connection_to_pool api (ne_malloc env) (ck_pool_key c) (ck_pool_size c) (Some p)
                          (ck_ssl c) (ck_ctx c) (ck_ssl_pw c) w1) (close_rest api ca c)"
proof -
  let ?c = "c\<lparr>ck_read_buf := [], ck_send_buf_need_free := None, ck_pool_wait := None, ck_timeout_ptr := None, ck_status := 0\<rparr>"
  have f: "free_ssl ?c v = free_ssl c v" for v by (rule free_ssl_cong) simp_all
  show ?thesis
    using own w1
    by (simp add: lua_co_close_cok_def owns_def stop_timeout_def poke_def Let_def close_prefix_def f closed_cok_def
        close_rest_def [abs_def] cong: if_cong)
qed

lemma close_rest_ok:
  assumes ok: "cnt_ok w" and pw: "ck_ssl_pw c \<noteq> Garbage"
  shows "\<exists>w' t. close_rest api ca c (0, w) = Some (put_cok ca (closed_cok c) w') \<and> cnt_ok w' \<and> one_less (ck_pool_key c) w w'
     \<and> w_trace w' = w_trace w @ E_close (ck_fd c) # t \<and> (\<forall>e \<in> set t. \<forall>fd. e \<noteq> E_close fd)
     \<and> w_pool w' = w_pool w \<and> w_pnodes w' = w_pnodes w \<and> w_se w' = api_se_delete api (ck_ptr c) (w_se w) \<and> other_parts w w'"
proof -
  obtain w2 where w2: "connection_pool_counter_operate (ck_pool_key c) (- 1) (se_delete api (ck_ptr c) w) = Some w2"
    "cnt_ok w2" "one_less (ck_pool_key c) w w2" "w_trace w2 = w_trace w" "other_parts w w2"
    "w_se w2 = api_se_delete api (ck_ptr c) (w_se w)" "w_pool w2 = w_pool w" "w_pnodes w2 = w_pnodes w"
    using count_off [OF ok, of "ck_pool_key c" api "ck_ptr c"] by auto
  let ?w3 = "emit (E_close (ck_fd c)) w2"
  obtain t where t: "free_ssl c ?w3 = Some (?w3\<lparr>w_trace := w_trace ?w3 @ t\<rparr>)" "\<forall>e \<in> set t. \<forall>fd. e \<noteq> E_close fd"
    using free_ssl_ok [OF pw] by blast
  let ?w4 = "?w3\<lparr>w_trace := w_trace ?w3 @ t\<rparr>"
  have "close_rest api ca c (0, w) = Some (put_cok ca (closed_cok c) ?w4)"
    using w2(1) t(1) by (simp add: close_rest_def)
  moreover have "cnt_ok ?w4" "one_less (ck_pool_key c) w ?w4"
    using w2(2,3) cnt_frame [of ?w4 w2] by (simp_all add: one_less_def)
  ultimately show ?thesis using w2 t(2)
    by (intro exI [of _ ?w4] exI [of _ t]) (simp add: other_parts_def)
qed

text \<open>Closing a socket whose connection is gone closes nothing.\<close>

lemma close_gone:
  assumes "w_coks w ca = Some c" and "gone c"
  shows "\<exists>w' c'. lua_co_close_cok env api ca w = Some w' \<and> closes w w' = [] \<and> w_se w' = w_se w \<and> w_coks w' ca = Some c'
     \<and> gone c' \<and> w_pool w' = w_pool w \<and> w_counters w' = w_counters w \<and> w_cnodes w' = w_cnodes w \<and> w_brk w' = w_brk w"
  using assms by (simp add: gone_def lua_co_close_cok_def stop_timeout_def free_ptr_def closes_def)

text \<open>
  (C13) Closing a socket that keeps no pool closes exactly its descriptor, deletes its registration
  and takes the connection off the counter of its key once; closing it again (or collecting it)
  closes nothing and counts nothing.
\<close>

theorem lua_co_close_once:
  assumes own: "owns ca c p sp w" and ok: "cnt_ok w" and nopool: "ck_pool_size c < 1"
  shows "\<exists>w' w''. lua_co_close_cok env api ca w = Some w' \<and> closes w w' = [ck_fd c] \<and> cnt_ok w' \<and> one_less (ck_pool_key c) w w'
     \<and> w_pnodes w' = w_pnodes w \<and> w_se w' = api_se_delete api (Some p) ((w_se w)(p \<mapsto> sp\<lparr>sp_fd := ck_fd c\<rparr>))
     \<and> lua_co_close_cok env api ca w' = Some w'' \<and> closes w' w'' = [] \<and> w_se w'' = w_se w'
     \<and> (\<forall>j. count_of j w'' = count_of j w')"
proof -
  let ?w1 = "(close_prefix c w)\<lparr>w_se := (w_se w)(p \<mapsto> sp\<lparr>sp_fd := ck_fd c\<rparr>)\<rparr>"
  obtain w2 t where w2: "close_rest api ca c (0, ?w1) = Some (put_cok ca (closed_cok c) w2)" "cnt_ok w2" "one_less (ck_pool_key c) ?w1 w2"
    "w_trace w2 = w_trace ?w1 @ E_close (ck_fd c) # t" "\<forall>e \<in> set t. \<forall>fd. e \<noteq> E_close fd"
    "w_pnodes w2 = w_pnodes ?w1" "w_se w2 = api_se_delete api (ck_ptr c) (w_se ?w1)"
    using close_rest_ok [of ?w1 c api ca] own ok by (auto simp: owns_def)
  let ?w' = "put_cok ca (closed_cok c) w2"
  have cl: "closes w ?w' = [ck_fd c]"
    using w2(4) no_closes [OF w2(5)] by (subst closes_prefix [of _ c w "E_close (ck_fd c) # t"]) simp_all
  have run: "lua_co_close_cok env api ca w = Some ?w'"
    using close_cok_unfold [OF own refl] nopool w2(1) by simp
  have less: "one_less (ck_pool_key c) w ?w'" using w2(3) by (simp add: one_less_def)
  obtain w'' where w'': "lua_co_close_cok env api ca ?w' = Some w''" "closes ?w' w'' = []" "w_se w'' = w_se ?w'"
    "w_counters w'' = w_counters ?w'" "w_cnodes w'' = w_cnodes ?w'" "w_brk w'' = w_brk ?w'"
    using close_gone [of ?w' ca "closed_cok c"] by auto
  then have "count_of j w'' = count_of j ?w'" for j
    using counter_of_cong(1) [OF w''(4-6)] by (simp add: count_of_def)
  with run cl less w2 w'' own show ?thesis by (intro exI [of _ ?w'] exI [of _ w'']) (simp add: owns_def)
qed

text \<open>
  A connection that its socket is about to hand to a pool laid out as \<open>P\<close>; watching it as an idle
  connection succeeds and leaves the registrations \<open>se'\<close>.
\<close>

definition poolable :: "net_env \<Rightarrow> se_api \<Rightarrow> (nat \<Rightarrow> nat \<Rightarrow> addr list) \<Rightarrow> addr \<Rightarrow> cosocket \<Rightarrow> addr \<Rightarrow> se_ptr \<Rightarrow> (addr \<Rightarrow> se_ptr option) \<Rightarrow> world \<Rightarrow> bool" where
  "poolable env api P ca c p sp se' w \<longleftrightarrow> owns ca c p sp w \<and> cnt_ok w \<and> pool_at w P \<and> 1 \<le> ck_pool_size c \<and> ne_malloc env
     \<and> (\<exists>r. r \<noteq> - 1 \<and> api_se_be_read api (Some p) H_be_close
          ((w_se w)(p \<mapsto> sp\<lparr>sp_fd := ck_fd c, sp_data := DPool (w_brk w)\<rparr>)) = (r, se'))"

text \<open>The state in which the second half of \<open>_lua_co_close\<close> starts.\<close>

abbreviation closing_world :: "cosocket \<Rightarrow> addr \<Rightarrow> se_ptr \<Rightarrow> world \<Rightarrow> world" where
  "closing_world c p sp w \<equiv> (close_prefix c w)\<lparr>w_se := (w_se w)(p \<mapsto> sp\<lparr>sp_fd := ck_fd c\<rparr>)\<rparr>"

lemma poolable_add:
  assumes "poolable env api P ca c p sp se' w" and g: "g = cur_gen w" and k: "k = bucket (ck_pool_key c)"
  defines "w1 \<equiv> closing_world c p sp w"
  shows "if pool_full (w_pnodes w) (ck_pool_key c) (ck_pool_size c) 0 (P g k)
     then add_connection_to_pool api True (ck_pool_key c) (ck_pool_size c) (Some p) (ck_ssl c) (ck_ctx c) (ck_ssl_pw c) w1
        = Some (0, emit (E_setsockopt (ck_fd c)) w1)
     else \<exists>h. let w2 = w1\<lparr>w_brk := Suc (w_brk w), w_pnodes := h,
            w_pool := upd2 (w_pool w) g k (case P g k of [] \<Rightarrow> Some (w_brk w) | a # _ \<Rightarrow> Some a),
            w_se := se', w_trace := w_trace w1 @ [E_setsockopt (ck_fd c)]\<rparr> in
          add_connection_to_pool api True (ck_pool_key c) (ck_pool_size c) (Some p) (ck_ssl c) (ck_ctx c) (ck_ssl_pw c) w1 = Some (1, w2)
        \<and> pool_at w2 (upd2 P g k (P g k @ [w_brk w]))
        \<and> map_option pdata (h (w_brk w)) = Some (Some p, ck_pool_key c, ck_ctx c, ck_ssl c, (if P g k = [] then ck_ssl_pw c else Garbage), 0)
        \<and> (\<forall>b. b \<noteq> w_brk w \<longrightarrow> map_option pdata (h b) = map_option pdata (w_pnodes w b))"
proof -
  obtain r where r: "r \<noteq> - 1" and reg: "api_se_be_read api (Some p) H_be_close
       ((w_se w1)(p \<mapsto> (sp\<lparr>sp_fd := ck_fd c\<rparr>)\<lparr>sp_data := DPool (w_brk w)\<rparr>)) = (r, se')"
    using assms(1) by (auto simp: poolable_def w1_def)
  have env: "pool_at w1 P" "w_se w1 p = Some (sp\<lparr>sp_fd := ck_fd c\<rparr>)" "0 \<le> sp_fd (sp\<lparr>sp_fd := ck_fd c\<rparr>)" "g = cur_gen w1" "w_brk w = w_brk w1"
    using assms(1) g by (simp_all add: poolable_def owns_def w1_def cur_gen_def)
  have fr: "w_pnodes w1 = w_pnodes w" "w_pool w1 = w_pool w" "sp_fd (sp\<lparr>sp_fd := ck_fd c\<rparr>) = ck_fd c" by (simp_all add: w1_def)
  note add = add_connection_ok [OF env(1-4) k env(5) reg r, of "ck_pool_size c" "ck_ssl c" "ck_ctx c" "ck_ssl_pw c", unfolded fr Let_def]
  show ?thesis
  proof (cases "pool_full (w_pnodes w) (ck_pool_key c) (ck_pool_size c) 0 (P g k)")
    case True
    with add show ?thesis by (simp only: if_True)
  next
    case False
    from add show ?thesis unfolding if_not_P [OF False] Let_def by blast
  qed
qed

lemma close_full:
  assumes pl: "poolable env api P ca c p sp se' w" 
    and full: "pool_full (w_pnodes w) (ck_pool_key c) (ck_pool_size c) 0 (P (cur_gen w) (bucket (ck_pool_key c)))"
  shows "\<exists>w'. lua_co_close_cok env api ca w = Some w' \<and> w_coks w' ca = Some (closed_cok c) \<and> cnt_ok w'
     \<and> closes w w' = [ck_fd c] \<and> one_less (ck_pool_key c) w w' \<and> w_pnodes w' = w_pnodes w"
proof -
  let ?w2 = "emit (E_setsockopt (ck_fd c)) (closing_world c p sp w)"
  have own: "owns ca c p sp w" and ok: "cnt_ok ?w2" and size: "\<not> ck_pool_size c < 1" "ne_malloc env" and pw: "ck_ssl_pw c \<noteq> Garbage"
    using pl by (auto simp: poolable_def owns_def)
  obtain w3 t where w3: "close_rest api ca c (0, ?w2) = Some (put_cok ca (closed_cok c) w3)" "cnt_ok w3" "one_less (ck_pool_key c) ?w2 w3"
    "w_trace w3 = w_trace ?w2 @ E_close (ck_fd c) # t" "\<forall>e \<in> set t. \<forall>fd. e \<noteq> E_close fd" "w_pnodes w3 = w_pnodes ?w2"
    using close_rest_ok [OF ok pw, of api ca] by auto
  let ?w' = "put_cok ca (closed_cok c) w3"
  have "lua_co_close_cok env api ca w = Some ?w'"
    using close_cok_unfold [OF own refl, of env api] poolable_add [OF pl refl refl] full size w3(1) by simp
  moreover have "closes w ?w' = [ck_fd c]"
    using w3(4) no_closes [OF w3(5)]
    by (subst closes_prefix [of _ c w "E_setsockopt (ck_fd c) # E_close (ck_fd c) # t"]) simp_all
  moreover have "one_less (ck_pool_key c) w ?w'" using w3(3) by (simp add: one_less_def)
  ultimately show ?thesis using w3 by (intro exI [of _ ?w']) simp
qed

text \<open>The connection of \<open>c\<close> became the newest idle node of its bucket and nothing else changed.\<close>

definition pooled :: "(nat \<Rightarrow> nat \<Rightarrow> addr list) \<Rightarrow> addr \<Rightarrow> cosocket \<Rightarrow> addr \<Rightarrow> (addr \<Rightarrow> se_ptr option) \<Rightarrow> world \<Rightarrow> world \<Rightarrow> bool" where
  "pooled P ca c p se' w w' \<longleftrightarrow> w_coks w' = (w_coks w)(ca \<mapsto> closed_cok c) \<and> cnt_ok w' \<and> closes w w' = []
     \<and> (\<forall>j. count_of j w' = count_of j w \<and> size_of j w' = size_of j w)
     \<and> pool_at w' (upd2 P (cur_gen w) (bucket (ck_pool_key c)) (P (cur_gen w) (bucket (ck_pool_key c)) @ [w_brk w]))
     \<and> ptr_of w' (w_brk w) = Some p \<and> pkey (w_pnodes w') (w_brk w) = Some (ck_pool_key c) \<and> w_se w' = se'
     \<and> (\<forall>b. b \<noteq> w_brk w \<longrightarrow> map_option pdata (w_pnodes w' b) = map_option pdata (w_pnodes w b)) \<and> w_now w' = w_now w"

lemma close_room:
  assumes pl: "poolable env api P ca c p sp se' w"
    and room: "\<not> pool_full (w_pnodes w) (ck_pool_key c) (ck_pool_size c) 0 (P (cur_gen w) (bucket (ck_pool_key c)))"
  shows "\<exists>w'. lua_co_close_cok env api ca w = Some w' \<and> pooled P ca c p se' w w'"
proof -
  let ?g = "cur_gen w" and ?k = "bucket (ck_pool_key c)" and ?w1 = "closing_world c p sp w"
  let ?w2 = "\<lambda>h. ?w1\<lparr>w_brk := Suc (w_brk w), w_pnodes := h,
      w_pool := upd2 (w_pool w) ?g ?k (case P ?g ?k of [] \<Rightarrow> Some (w_brk w) | a # _ \<Rightarrow> Some a),
      w_se := se', w_trace := w_trace ?w1 @ [E_setsockopt (ck_fd c)]\<rparr>"
  obtain h where h: "add_connection_to_pool api True (ck_pool_key c) (ck_pool_size c) (Some p) (ck_ssl c) (ck_ctx c) (ck_ssl_pw c) ?w1
      = Some (1, ?w2 h)" "pool_at (?w2 h) (upd2 P ?g ?k (P ?g ?k @ [w_brk w]))"
    "map_option pdata (h (w_brk w)) = Some (Some p, ck_pool_key c, ck_ctx c, ck_ssl c, (if P ?g ?k = [] then ck_ssl_pw c else Garbage), 0)"
    "\<forall>b. b \<noteq> w_brk w \<longrightarrow> map_option pdata (h b) = map_option pdata (w_pnodes w b)"
    using poolable_add [OF pl refl refl] room by (auto simp: Let_def simp del: map_option_eq_Some)
  have pre: "owns ca c p sp w" "cnt_ok w" "\<not> ck_pool_size c < 1" "ne_malloc env" using pl by (auto simp: poolable_def)
  let ?w' = "put_cok ca (closed_cok c) (?w2 h)"
  have "lua_co_close_cok env api ca w = Some ?w'"
    using close_cok_unfold [OF pre(1) refl, of env api] h(1) pre by (simp add: close_rest_def)
  moreover have "closes w ?w' = []"
    by (subst closes_prefix [of _ c w "[E_setsockopt (ck_fd c)]"]) simp_all
  moreover have "cnt_ok (?w2 h)" "\<And>j. count_of j (?w2 h) = count_of j w" "\<And>j. size_of j (?w2 h) = size_of j w"
    using cnt_frame [of "?w2 h" w] pre(2) by (simp_all add: close_prefix_def free_ptr_def)
  moreover have "ptr_of ?w' (w_brk w) = Some p" "pkey h (w_brk w) = Some (ck_pool_key c)"
    using h(3) by (cases "h (w_brk w)"; simp add: ptr_of_def pdata_def)+
  ultimately show ?thesis using h(2,4)
    by (intro exI [of _ ?w']) (simp add: pooled_def close_prefix_def free_ptr_def)
qed

text \<open>
  (C14) Closing a socket with a pool hands the open connection to the pool: while the pool of its key
  has room, one idle node for it is appended to the current generation, nothing is closed and every
  counter stays, since the connection is still open; once the pool is full the connection is closed
  and counted off instead. Either way the socket no longer refers to it.
\<close>

theorem lua_co_close_pools:
  assumes "poolable env api P ca c p sp se' w" and "g = cur_gen w" and "k = bucket (ck_pool_key c)"
  shows "\<exists>w' c'. lua_co_close_cok env api ca w = Some w' \<and> w_coks w' ca = Some c' \<and> gone c' \<and> cnt_ok w'
     \<and> (if pool_full (w_pnodes w) (ck_pool_key c) (ck_pool_size c) 0 (P g k)
        then closes w w' = [ck_fd c] \<and> one_less (ck_pool_key c) w w' \<and> w_pnodes w' = w_pnodes w
        else closes w w' = [] \<and> (\<forall>j. count_of j w' = count_of j w) \<and> pool_at w' (upd2 P g k (P g k @ [w_brk w]))
          \<and> ptr_of w' (w_brk w) = Some p \<and> w_se w' = se')"
proof (cases "pool_full (w_pnodes w) (ck_pool_key c) (ck_pool_size c) 0 (P g k)")
  case True
  then show ?thesis using close_full [OF assms(1)] assms(2,3) gone_closed by auto
next
  case False
  then show ?thesis using close_room [OF assms(1)] assms(2,3) gone_closed by (auto simp: pooled_def)
qed

section \<open>The counter a socket looks at\<close>

text \<open>Address \<open>a\<close> holds the counter of \<open>key\<close>; counting on any key keeps it there.\<close>

definition counter_at :: "u64 \<Rightarrow> addr \<Rightarrow> world \<Rightarrow> bool" where
  "counter_at key a w \<longleftrightarrow> (\<exists>C. cnt_rel w C \<and> a \<in> set (C (bucket key)) \<and> ckey (w_cnodes w) a = Some key)"

lemma counter_at_count:
  assumes "counter_at key a w"
  shows "\<exists>n. w_cnodes w a = Some n \<and> pc_count n = count_of key w"
proof -
  obtain C where "cnt_rel w C" "a \<in> set (C (bucket key))" "ckey (w_cnodes w) a = Some key"
    using assms by (auto simp: counter_at_def simp del: map_option_eq_Some)
  from counter_of_node [OF this] this(3) show ?thesis by (auto simp: count_of_def)
qed

lemma counter_at_cong:
  assumes "w_counters w' = w_counters w" "w_cnodes w' = w_cnodes w" "w_brk w' = w_brk w"
  shows "counter_at key a w' = counter_at key a w"
  unfolding counter_at_def assms(2) counter_of_cong(2) [OF assms] by (rule refl)

lemma counter_operate_at:
  assumes at: "counter_at key a w" and op: "connection_pool_counter_operate key' d w = Some w'"
  shows "counter_at key a w'"
proof (cases "key' < 1")
  case True
  with at op show ?thesis by (simp add: connection_pool_counter_operate_def)
next
  case False
  obtain C where C: "cnt_rel w C" "a \<in> set (C (bucket key))" "ckey (w_cnodes w) a = Some key"
    using at by (auto simp: counter_at_def simp del: map_option_eq_Some)
  obtain b brk cs h C' n where g: "get_connection_pool_counter key' w = Some (b, w\<lparr>w_brk := brk, w_counters := cs, w_cnodes := h\<rparr>)"
    and rel: "cnt_rel (w\<lparr>w_brk := brk, w_counters := cs, w_cnodes := h\<rparr>) C'"
    and b: "b \<in> set (C' (bucket key'))" "h b = Some n" "pc_pool_key n = key'"
    and C': "\<forall>k. k \<noteq> bucket key' \<longrightarrow> C' k = C k" "set (C' (bucket key')) = insert b (set (C (bucket key')))"
    and data: "\<forall>k. \<forall>x \<in> set (C k). map_option cdata (h x) = map_option cdata (w_cnodes w x)"
    using get_counter_rel [OF C(1), of key'] unfolding counter_got_def by blast
  let ?n = "n\<lparr>pc_count := pc_count n + word_of_int d\<rparr>"
  have w': "w' = w\<lparr>w_brk := brk, w_counters := cs, w_cnodes := h(b \<mapsto> ?n)\<rparr>"
    using op False g b by (simp add: connection_pool_counter_operate_def poke_def)
  have rel': "cnt_rel w' C'"
    using cnt_rel_set_count(1) [OF rel b(1), where n = n and c = "pc_count n + word_of_int d" and sz = "pc_size n"] b w' by simp
  have a': "a \<in> set (C' (bucket key))" using C' C(2) by (cases "bucket key = bucket key'") auto
  have "ckey h a = Some key"
    using data C(2,3) by (cases "h a"; cases "w_cnodes w a") (force simp: cdata_def)+
  then have "ckey (w_cnodes w') a = Some key" using w' b by auto
  with rel' a' show ?thesis by (auto simp: counter_at_def simp del: map_option_eq_Some)
qed

lemma poke_pool_counters:
  "poke_pool m f w = Some w' \<Longrightarrow> counter_at key a w' = counter_at key a w"
  "poke_pool_if q f w = Some w' \<Longrightarrow> counter_at key a w' = counter_at key a w"
  by (rule counter_at_cong; auto simp: poke_pool_def poke_pool_if_def split: bind_splits)+

lemma counter_at_simps [simp]:
  "counter_at key a (set_pool p k v w) = counter_at key a w" "counter_at key a (emit e w) = counter_at key a w"
  "counter_at key a (se_delete api q w) = counter_at key a w" "counter_at key a (w\<lparr>w_pnodes := h\<rparr>) = counter_at key a w"
  "counter_at key a (put_cok ca c w) = counter_at key a w"
  by (rule counter_at_cong; simp add: set_pool_def se_delete_def)+

lemma clear_node_at: "clear_node api p m w = Some w' \<Longrightarrow> counter_at key a w \<Longrightarrow> counter_at key a w'"
  by (auto simp: clear_node_def Let_def poke_pool_counters split: bind_splits if_splits dest!: counter_operate_at [rotated])

lemma clear_chain_at: "clear_chain api p f q w = Some w' \<Longrightarrow> counter_at key a w \<Longrightarrow> counter_at key a w'"
  by (induction api p f q w rule: clear_chain.induct) (auto split: option.splits dest: clear_node_at)

lemma clear_buckets_at: "clear_buckets api p q is w = Some w' \<Longrightarrow> counter_at key a w \<Longrightarrow> counter_at key a w'"
  by (induction api p q "is" w rule: clear_buckets.induct) (auto split: option.splits dest: clear_chain_at)

lemma take_conn_at: "take_conn g key' ca w = Some (r, w') \<Longrightarrow> counter_at key a w' = counter_at key a w"
  by (auto simp: take_conn_def Let_def unlink_head_def unlink_inner_def adopt_ssl_def poke_pool_counters
      split: bind_splits option.splits if_splits cell.splits)

lemma get_connection_at:
  assumes "get_connection_in_pool (Suc f) api resume key' ca w = Some (r, w')" and "key' \<noteq> 0" and "counter_at key a w"
  shows "counter_at key a w'"
proof -
  let ?p = "cur_gen w" and ?q = "(cur_gen w + 1) mod 2"
  obtain w1 where w1: "clear_buckets api ?p ?q [0..<64] w = Some w1"
    using assms(1) by (auto simp: Let_def simp del: upt.simps split: option.splits)
  then have "counter_at key a w1" using clear_buckets_at assms(3) by blast
  moreover obtain w2 r2 where "take_conn ?p key' ca w1 = Some (r2, w2)" "w' = w2 \<or> (\<exists>r'. take_conn ?q key' ca w2 = Some (r', w'))"
    using assms(1,2) w1 by (auto simp: Let_def split: option.splits if_splits)
  ultimately show ?thesis using take_conn_at by blast
qed

end
