(* ===== verification/Sock_Connect.thy ===== *)
theory Sock_Connect
  imports Sock_Close
begin

text \<open>
  Connecting through the pool: a socket reuses an idle connection of its key if there is one,
  queues up if the key has as many connections as its pool allows, and opens a counted
  connection otherwise.
\<close>

section \<open>What a socket finds\<close>

text \<open>The size of the pool a socket goes by: its own or that of its key, whichever is larger.\<close>

definition pool_limit :: "cosocket \<Rightarrow> world \<Rightarrow> int" where
  "pool_limit c w = (if size_of (ck_pool_key c) w > word_of_int (ck_pool_size c)
     then c_int (uint (size_of (ck_pool_key c) w)) else ck_pool_size c)"

text \<open>
  The nodes of the old generation, the descriptors of those that were there for the second time, and
  the usable connections of a key once the generation is cleared.
\<close>

definition expired :: "world \<Rightarrow> (nat \<Rightarrow> nat \<Rightarrow> addr list) \<Rightarrow> addr list" where
  "expired w P = concat (map (P ((cur_gen w + 1) mod 2)) all_buckets)"

definition expired_fds :: "world \<Rightarrow> (nat \<Rightarrow> nat \<Rightarrow> addr list) \<Rightarrow> int list" where
  "expired_fds w P = map (\<lambda>a. the (fd_of w a)) (filter (\<lambda>a. \<not> young w a) (expired w P))"

definition aged_pool :: "world \<Rightarrow> (nat \<Rightarrow> nat \<Rightarrow> addr list) \<Rightarrow> nat \<Rightarrow> nat \<Rightarrow> addr list" where
  "aged_pool w P = aged w (cur_gen w) ((cur_gen w + 1) mod 2) (set all_buckets) P"

definition candidates :: "u64 \<Rightarrow> world \<Rightarrow> (nat \<Rightarrow> nat \<Rightarrow> addr list) \<Rightarrow> addr list" where
  "candidates key w P = filter (\<lambda>a. pkey (w_pnodes w) a = Some key) (aged_pool w P (cur_gen w) (bucket key))"

definition left_count :: "u64 \<Rightarrow> world \<Rightarrow> (nat \<Rightarrow> nat \<Rightarrow> addr list) \<Rightarrow> u64" where
  "left_count key w P = count_of key w - of_nat (dropped w (expired w P) key)"

lemma find_filter: "find f xs = (case filter f xs of [] \<Rightarrow> None | a # _ \<Rightarrow> Some a)"
  by (induction xs) auto

lemma survivor:
  assumes rel: "pool_at w P" and c: "cleared w (expired w P) w1" and a: "a \<in> set (aged_pool w P (cur_gen w) (bucket key))"
  shows "pkey (w_pnodes w1) a = pkey (w_pnodes w) a \<and> ptr_of w1 a = ptr_of w a"
proof -
  let ?p = "cur_gen w" and ?q = "(cur_gen w + 1) mod 2" and ?k = "bucket key"
  show ?thesis
  proof (cases "a \<in> set (P ?q ?k)")
    case True
    then have y: "young w a" using a pool_rel_unique [OF rel True, of ?p ?k] cur_gen_less(3) [of w] bucket_less [of key]
      by (auto simp: aged_pool_def aged_def)
    have "a \<in> set (expired w P)" using True bucket_less [of key] by (auto simp: expired_def)
    with c y have "map_option pdata (w_pnodes w1 a) = map_option pdata (marked (w_pnodes w a))" by (auto simp: cleared_def)
    then show ?thesis by (cases "w_pnodes w1 a"; cases "w_pnodes w a") (auto simp: marked_def pdata_def ptr_of_def)
  next
    case False
    then have ap: "a \<in> set (P ?p ?k)" using a by (auto simp: aged_pool_def aged_def split: if_splits)
    have "a \<notin> set (P ?q j)" for j using pool_rel_unique [OF rel ap, of ?q j] cur_gen_less(3) [of w] by auto
    then have "a \<notin> set (expired w P)" by (auto simp: expired_def)
    with c have "map_option pdata (w_pnodes w1 a) = map_option pdata (w_pnodes w a)" by (simp add: cleared_def)
    from of_pdata [OF this] show ?thesis by simp
  qed
qed

lemma find_candidates:
  assumes rel: "pool_at w P" and c: "cleared w (expired w P) w1"
  shows "find (\<lambda>a. pkey (w_pnodes w1) a = Some key) (aged_pool w P (cur_gen w) (bucket key))
    = (case candidates key w P of [] \<Rightarrow> None | a # _ \<Rightarrow> Some a)"
proof -
  have "filter (\<lambda>a. pkey (w_pnodes w1) a = Some key) (aged_pool w P (cur_gen w) (bucket key)) = candidates key w P"
    unfolding candidates_def using survivor [OF rel c] by (intro filter_cong refl) metis
  then show ?thesis by (simp add: find_filter)
qed

section \<open>The counter comes first\<close>

text \<open>The state after the counter of the key was found or created.\<close>

definition with_counter :: "addr \<Rightarrow> cosocket \<Rightarrow> world \<Rightarrow> addr \<Rightarrow> world \<Rightarrow> bool" where
  "with_counter ca c w pc w0 \<longleftrightarrow> (\<exists>brk cs h. w0 = put_cok ca (c\<lparr>ck_pool_size := pool_limit c w\<rparr>) (w\<lparr>w_brk := brk, w_counters := cs, w_cnodes := h\<rparr>)
       \<and> w_brk w \<le> brk) \<and> cnt_ok w0 \<and> counter_at (ck_pool_key c) pc w0 \<and> (\<forall>j. count_of j w0 = count_of j w)"

lemma connect_counter:
  assumes cok: "w_coks w ca = Some c" and ok: "cnt_ok w"
  shows "\<exists>pc w0. with_counter ca c w pc w0 \<and> connect_pooled env api f resume host port ca w
      = (if pool_limit c w > 0 then Option.bind (get_connection_in_pool f api resume (ck_pool_key c) (Some ca) w0) (pooled_rest env api host port ca pc)
         else open_connection env api host port ca (ck_pool_key c) w0)"
proof -
  let ?key = "ck_pool_key c"
  obtain pc brk cs h n C where g: "get_connection_pool_counter ?key w = Some (pc, w\<lparr>w_brk := brk, w_counters := cs, w_cnodes := h\<rparr>)"
    and rel: "cnt_rel (w\<lparr>w_brk := brk, w_counters := cs, w_cnodes := h\<rparr>) C" "pc \<in> set (C (bucket ?key))"
    and n: "h pc = Some n" "pc_pool_key n = ?key" "pc_size n = size_of ?key w" and brk: "w_brk w \<le> brk"
    and counts: "\<forall>j. count_of j (w\<lparr>w_brk := brk, w_counters := cs, w_cnodes := h\<rparr>) = count_of j w
      \<and> size_of j (w\<lparr>w_brk := brk, w_counters := cs, w_cnodes := h\<rparr>) = size_of j w"
    using get_counter_counts [OF ok, of ?key] by blast
  let ?w1 = "w\<lparr>w_brk := brk, w_counters := cs, w_cnodes := h\<rparr>" and ?c = "c\<lparr>ck_pool_size := pool_limit c w\<rparr>"
  have "counter_at ?key pc ?w1" using rel n by (auto simp: counter_at_def)
  then have wc: "with_counter ca c w pc (put_cok ca ?c ?w1)"
    using rel(1) brk counts unfolding with_counter_def by (intro conjI exI [of _ brk] exI [of _ cs] exI [of _ h]) (auto simp: cnt_ok_def)
  have "(if pc_size n > word_of_int (ck_pool_size c) then c\<lparr>ck_pool_size := c_int (uint (pc_size n))\<rparr> else c) = ?c"
    using n(3) by (simp add: pool_limit_def)
  then have "connect_pooled env api f resume host port ca w
      = (if pool_limit c w > 0 then Option.bind (get_connection_in_pool f api resume ?key (Some ca) (put_cok ca ?c ?w1)) (pooled_rest env api host port ca pc)
         else open_connection env api host port ca ?key (put_cok ca ?c ?w1))"
    using cok g n(1) by (simp add: connect_pooled_def Let_def cong: if_cong)
  with wc show ?thesis by blast
qed

lemma wait_rel_mono:
  assumes "wait_rel w Q" and "w_waiting w' = w_waiting w" "w_waiting_end w' = w_waiting_end w" "w_wnodes w' = w_wnodes w" "w_brk w \<le> w_brk w'"
  shows "wait_rel w' Q"
  using assms unfolding wait_rel_def bq_def by (auto intro: less_le_trans)

lemma wait_rel_other: "other_parts w w' \<Longrightarrow> w_brk w \<le> w_brk w' \<Longrightarrow> wait_rel w Q \<Longrightarrow> wait_rel w' Q"
  by (rule wait_rel_mono) (simp_all add: other_parts_def)

lemma with_counter_frame:
  assumes "with_counter ca c w pc w0"
  shows "cur_gen w0 = cur_gen w" "w_pnodes w0 = w_pnodes w" "w_se w0 = w_se w" "w_process_count w0 = w_process_count w"
    "ptr_of w0 a = ptr_of w a" "fd_of w0 a = fd_of w a" "live w0 A = live w A" "aged_pool w0 P = aged_pool w P"
    "expired w0 P = expired w P" "candidates key w0 P = candidates key w P" "left_count key w0 P = left_count key w P"
    "pool_at w P \<Longrightarrow> pool_at w0 P" "wait_rel w Q \<Longrightarrow> wait_rel w0 Q" "w_coks w0 ca = Some (c\<lparr>ck_pool_size := pool_limit c w\<rparr>)"
    "cnt_ok w0" "counter_at (ck_pool_key c) pc w0" "w_trace w0 = w_trace w" "expired_fds w0 P = expired_fds w P"
proof -
  from assms obtain brk cs h where w0: "w0 = put_cok ca (c\<lparr>ck_pool_size := pool_limit c w\<rparr>) (w\<lparr>w_brk := brk, w_counters := cs, w_cnodes := h\<rparr>)"
    "w_brk w \<le> brk" and cnt: "cnt_ok w0" "counter_at (ck_pool_key c) pc w0" "\<forall>j. count_of j w0 = count_of j w"
    by (auto simp: with_counter_def)
  show f: "cur_gen w0 = cur_gen w" "w_pnodes w0 = w_pnodes w" "w_se w0 = w_se w" "w_process_count w0 = w_process_count w"
    "w_coks w0 ca = Some (c\<lparr>ck_pool_size := pool_limit c w\<rparr>)" "cnt_ok w0" "counter_at (ck_pool_key c) pc w0"
    "w_trace w0 = w_trace w"
    using w0 cnt by (simp_all add: cur_gen_def)
  show p: "ptr_of w0 a = ptr_of w a" for a using f(2) by (simp add: ptr_of_def)
  show fd: "fd_of w0 a = fd_of w a" for a by (simp add: fd_of_def p f(3) cong: option.case_cong)
  show "live w0 A = live w A" using p fd by (simp add: live_def inj_on_def)
  have y: "young w0 = young w" using f(2) by (auto simp: young_def)
  show a: "aged_pool w0 P = aged_pool w P" by (intro ext) (simp add: aged_pool_def aged_def f y)
  show e: "expired w0 P = expired w P" by (simp add: expired_def f)
  show "expired_fds w0 P = expired_fds w P" by (simp add: expired_fds_def e y fd)
  show "candidates key w0 P = candidates key w P" by (simp add: candidates_def a f)
  show "left_count key w0 P = left_count key w P" using cnt(3) by (simp add: left_count_def e dropped_def y f)
  show "pool_at w P \<Longrightarrow> pool_at w0 P" using w0 pool_rel_mono by auto
  show "wait_rel w Q \<Longrightarrow> wait_rel w0 Q" by (rule wait_rel_mono [of w]) (use w0 in simp_all)
qed

section \<open>The three outcomes\<close>

text \<open>A socket about to connect, in a state where pool and counters are in order.\<close>

definition connecting :: "se_api \<Rightarrow> (nat \<Rightarrow> nat \<Rightarrow> addr list) \<Rightarrow> addr \<Rightarrow> cosocket \<Rightarrow> world \<Rightarrow> bool" where
  "connecting api P ca c w \<longleftrightarrow> w_coks w ca = Some c \<and> ck_pool_key c \<noteq> 0 \<and> ck_ssl_pw c \<noteq> Garbage \<and> cnt_ok w
     \<and> pool_at w P \<and> live w (idle_nodes P) \<and> se_delete_local api"

text \<open>Connection node \<open>a\<close> left the pool for the socket at \<open>ca\<close>: its registration is \<open>r\<close>.\<close>

definition taken_over :: "(nat \<Rightarrow> nat \<Rightarrow> addr list) \<Rightarrow> addr \<Rightarrow> cosocket \<Rightarrow> world \<Rightarrow> world \<Rightarrow> world \<Rightarrow> addr \<Rightarrow> addr \<Rightarrow> se_ptr \<Rightarrow> world \<Rightarrow> bool" where
  "taken_over P ca c w w0 w1 a r sp w' \<longleftrightarrow> w_se w' r = Some sp \<and> fd_of w a = Some (sp_fd sp) \<and> ptr_of w1 a = Some r
     \<and> pool_at w' (upd2 (aged_pool w P) (cur_gen w) (bucket (ck_pool_key c)) (remove1 a (aged_pool w P (cur_gen w) (bucket (ck_pool_key c)))))
     \<and> (\<exists>n. w_coks w' = adopt (Some ca) n (w_coks w0)) \<and> w_brk w' = w_brk w1 \<and> w_counters w' = w_counters w1 \<and> w_cnodes w' = w_cnodes w1
     \<and> same_fds w1 w'"

lemma connect_lookup:
  assumes cn: "connecting api P ca c w" and limit: "0 < pool_limit c w"
  shows "\<exists>pc w0 w1. with_counter ca c w pc w0 \<and> cleared w0 (expired w P) w1 \<and> pool_at w1 (aged_pool w P)
     \<and> connect_pooled env api (Suc f) resume host port ca w
         = Option.bind (get_connection_in_pool (Suc f) api resume (ck_pool_key c) (Some ca) w0) (pooled_rest env api host port ca pc)
     \<and> (case candidates (ck_pool_key c) w P of
          [] \<Rightarrow> get_connection_in_pool (Suc f) api resume (ck_pool_key c) (Some ca) w0 = Some (None, w1)
        | a # _ \<Rightarrow> \<exists>r sp w'. taken_over P ca c w w0 w1 a r sp w'
            \<and> get_connection_in_pool (Suc f) api resume (ck_pool_key c) (Some ca) w0 = Some (Some r, w'))"
proof -
  let ?key = "ck_pool_key c"
  have as: "w_coks w ca = Some c" "?key \<noteq> 0" "ck_ssl_pw c \<noteq> Garbage" "cnt_ok w" "pool_at w P" "live w (idle_nodes P)" "se_delete_local api"
    using cn by (auto simp: connecting_def)
  obtain pc w0 where w0: "with_counter ca c w pc w0" and run: "connect_pooled env api (Suc f) resume host port ca w
      = Option.bind (get_connection_in_pool (Suc f) api resume ?key (Some ca) w0) (pooled_rest env api host port ca pc)"
    using connect_counter [OF as(1,4)] limit by metis
  note fr = with_counter_frame [OF w0]
  have ready: "ssl_ready (Some ca) w0" using as(3) fr(14) by (simp add: ssl_ready_def)
  obtain w1 where w1: "cleared w0 (expired w0 P) w1" "pool_at w1 (aged_pool w0 P)"
    and res: "case find (\<lambda>a. pkey (w_pnodes w1) a = Some ?key) (aged_pool w0 P (cur_gen w0) (bucket ?key)) of
          None \<Rightarrow> get_connection_in_pool (Suc f) api resume ?key (Some ca) w0 = Some (None, w1)
        | Some a \<Rightarrow> \<exists>n r sp w'. w_se w' r = Some sp \<and> fd_of w0 a = Some (sp_fd sp) \<and> w_pnodes w1 a = Some n \<and> cp_ptr n = Some r
            \<and> get_connection_in_pool (Suc f) api resume ?key (Some ca) w0 = Some (Some r, w')
            \<and> pool_at w' (upd2 (aged_pool w0 P) (cur_gen w0) (bucket ?key) (remove1 a (aged_pool w0 P (cur_gen w0) (bucket ?key))))
            \<and> w_coks w' = adopt (Some ca) n (w_coks w0) \<and> w_se w' = w_se w1 \<and> w_brk w' = w_brk w1
            \<and> w_counters w' = w_counters w1 \<and> w_cnodes w' = w_cnodes w1 \<and> same_fds w1 w'"
    using get_connection_ok [OF fr(12) [OF as(5)] as(6) [folded fr(7)] fr(15) as(7,2) ready refl refl refl, of f resume]
    unfolding expired_def aged_pool_def by blast
  note res = res [unfolded find_candidates [OF fr(12) [OF as(5)] w1(1)], unfolded fr]
  show ?thesis
  proof (intro exI conjI, rule w0, rule w1(1) [unfolded fr], rule w1(2) [unfolded fr], rule run,
      goal_cases)
    case 1
    show ?case
    proof (cases "candidates ?key w P")
      case Nil
      show ?thesis using res unfolding Nil list.case option.case .
    next
      case (Cons a as')
      show ?thesis using res unfolding Cons list.case option.case taken_over_def ptr_of_def by force
    qed
  qed
qed

lemma cleared_left_count:
  assumes w0: "with_counter ca c w pc w0" and w1: "cleared w0 (expired w P) w1"
  shows "cnt_ok w1" "count_of key w1 = left_count key w P"
  using w1 with_counter_frame(9,11) [OF w0, where P = P] by (simp_all add: cleared_def left_count_def)

lemma cleared_trace:
  assumes w0: "with_counter ca c w pc w0" and w1: "cleared w0 (expired w P) w1"
  shows "w_trace w1 = w_trace w @ map E_close (expired_fds w P)"
proof -
  have "map E_close (expired_fds w0 P) = map (\<lambda>a. E_close (the (fd_of w0 a))) (filter (\<lambda>a. \<not> young w0 a) (expired w P))"
    by (simp add: expired_fds_def with_counter_frame(9) [OF w0])
  then show ?thesis using w1 with_counter_frame(17,18) [OF w0] by (simp add: cleared_def)
qed

lemma closes_cleared:
  assumes "w_trace w1 = w_trace w @ map E_close fds" and "same_fds w1 w'"
  shows "closes w w' = fds" "opens w w' = []"
proof -
  obtain t where t: "w_trace w' = w_trace w @ map E_close fds @ t" "\<forall>e \<in> set t. \<forall>fd. e \<noteq> E_close fd" "\<forall>e \<in> set t. \<forall>h p d. e \<noteq> E_connect h p d"
    using assms by (auto simp: same_fds_def)
  have "concat (map (\<lambda>e. case e of E_close fd \<Rightarrow> [fd] | _ \<Rightarrow> []) t) = []"
    using t(2) by (auto split: effect.split)
  moreover have "concat (map (\<lambda>e. case e of E_close fd \<Rightarrow> [fd] | _ \<Rightarrow> []) (map E_close fds)) = fds" by (induction fds) simp_all
  ultimately show "closes w w' = fds" using closes_append [OF t(1)] by (simp only: map_append concat_append append_Nil2)
  have "concat (map (\<lambda>e. case e of E_connect h p d \<Rightarrow> [(h, p)] | _ \<Rightarrow> []) t) = []"
    using t(3) by (auto split: effect.split)
  moreover have "concat (map (\<lambda>e. case e of E_connect h p d \<Rightarrow> [(h, p)] | _ \<Rightarrow> []) (map E_close fds)) = []" by (induction fds) simp_all
  ultimately show "opens w w' = []" using t(1) by (simp add: opens_def)
qed

lemma connect_idle:
  assumes "connecting api P ca c w" and "0 < pool_limit c w" and cand: "candidates (ck_pool_key c) w P = a # as"
  shows "\<exists>w' c'. connect_pooled env api (Suc f) resume host port ca w = Some (Ret [LBool True], w') \<and> w_coks w' ca = Some c'
     \<and> ck_status c' = 2 \<and> ck_reusedtimes c' = 1 \<and> fd_of w a = Some (ck_fd c') \<and> ptr_of w a = ck_ptr c'
     \<and> pool_at w' (upd2 (aged_pool w P) (cur_gen w) (bucket (ck_pool_key c)) (remove1 a (aged_pool w P (cur_gen w) (bucket (ck_pool_key c)))))
     \<and> cnt_ok w' \<and> (\<forall>j. count_of j w' = left_count j w P) \<and> closes w w' = expired_fds w P \<and> opens w w' = []"
proof -
  let ?key = "ck_pool_key c"
  obtain pc w0 w1 r sp v where w0: "with_counter ca c w pc w0" and w1: "cleared w0 (expired w P) w1" and v: "taken_over P ca c w w0 w1 a r sp v"
    and run: "connect_pooled env api (Suc f) resume host port ca w
        = Option.bind (get_connection_in_pool (Suc f) api resume ?key (Some ca) w0) (pooled_rest env api host port ca pc)"
      "get_connection_in_pool (Suc f) api resume ?key (Some ca) w0 = Some (Some r, v)"
    using connect_lookup [OF assms(1,2)] unfolding cand list.case by blast
  note fr = with_counter_frame [OF w0]
  have cnt: "cnt_ok v" "\<And>j. count_of j v = left_count j w P"
    using cnt_frame(1) [of v w1] cnt_frame(2) [of v w1] cleared_left_count [OF w0 w1] v by (simp_all add: taken_over_def)
  have "same_fds w1 v" using v by (simp add: taken_over_def)
  from closes_cleared [OF cleared_trace [OF w0 w1] this] have cl: "closes w v = expired_fds w P" "opens w v = []" .
  have "a \<in> set (candidates ?key w P)" using cand by simp
  then have "a \<in> set (aged_pool w0 P (cur_gen w0) (bucket ?key))" by (simp add: candidates_def fr)
  then have ptr: "ptr_of w a = Some r"
    using survivor [OF fr(12)] w1 v assms(1) fr by (metis connecting_def taken_over_def)
  obtain c1 where "w_coks v ca = Some c1" using v fr(14) by (auto simp: taken_over_def adopt_def)
  then have "pooled_rest env api host port ca pc (Some r, v) = Some (Ret [LBool True],
      put_cok ca (c1\<lparr>ck_ptr := Some r, ck_status := 2, ck_reusedtimes := 1, ck_fd := sp_fd sp\<rparr>)
        ((put_cok ca (c1\<lparr>ck_ptr := Some r\<rparr>) v)\<lparr>w_se := api_se_be_pri api (Some r) ((w_se v)(r \<mapsto> sp\<lparr>sp_data := DCok ca\<rparr>))\<rparr>))"
    using v by (simp add: taken_over_def pooled_rest_def reuse_connection_def poke_def se_be_pri_def Let_def)
  moreover have "closes w (put_cok ca x (y\<lparr>w_se := z\<rparr>)) = closes w y" "closes w (put_cok ca x y) = closes w y"
      "opens w (put_cok ca x (y\<lparr>w_se := z\<rparr>)) = opens w y" "opens w (put_cok ca x y) = opens w y" for x y z by (simp_all add: closes_def opens_def)
  ultimately show ?thesis using cnt ptr v cl unfolding run Option.bind.simps by (auto simp: taken_over_def)
qed

text \<open>
  (C6) If an idle connection of the key is left after the old generation was cleared, \<open>connect\<close>
  returns at once with the first one: the socket gets its descriptor and registration, the pool
  loses exactly this node, and the connection stays counted; nothing is opened, and only expired connections are closed.
\<close>

theorem connect_reuses_idle:
  assumes "connecting api P ca c w" and "0 < pool_limit c w" and cand: "candidates (ck_pool_key c) w P = a # as"
  shows "\<exists>w' c'. connect_pooled env api (Suc f) resume host port ca w = Some (Ret [LBool True], w') \<and> w_coks w' ca = Some c'
     \<and> ck_status c' = 2 \<and> ck_reusedtimes c' = 1 \<and> fd_of w a = Some (ck_fd c') \<and> ptr_of w a = ck_ptr c'
     \<and> pool_at w' (upd2 (aged_pool w P) (cur_gen w) (bucket (ck_pool_key c)) (remove1 a (aged_pool w P (cur_gen w) (bucket (ck_pool_key c)))))
     \<and> cnt_ok w' \<and> (\<forall>j. count_of j w' = left_count j w P) \<and> closes w w' = expired_fds w P \<and> opens w w' = []"
  using assms by (rule connect_idle)

text \<open>The key has as many connections as this process may keep.\<close>

definition pool_busy :: "cosocket \<Rightarrow> world \<Rightarrow> (nat \<Rightarrow> nat \<Rightarrow> addr list) \<Rightarrow> bool" where
  "pool_busy c w P \<longleftrightarrow> 0 < left_count (ck_pool_key c) w P
     \<and> word_of_int (pool_limit c w div w_process_count w) \<le> left_count (ck_pool_key c) w P"

lemma connect_none:
  assumes cn: "connecting api P ca c w" and "0 < pool_limit c w" and cand: "candidates (ck_pool_key c) w P = []"
  shows "\<exists>w1 c1. connect_pooled env api (Suc f) resume host port ca w
        = (if pool_busy c w P then wait_connection env ca w1 else open_connection env api host port ca (ck_pool_key c) w1)
     \<and> w_coks w1 ca = Some c1 \<and> c1 = c\<lparr>ck_pool_size := pool_limit c w, ck_ptr := None\<rparr> \<and> pool_at w1 (aged_pool w P)
     \<and> cnt_ok w1 \<and> (\<forall>j. count_of j w1 = left_count j w P) \<and> (\<forall>Q. wait_rel w Q \<longrightarrow> wait_rel w1 Q)
     \<and> w_trace w1 = w_trace w @ map E_close (expired_fds w P)"
proof -
  let ?key = "ck_pool_key c"
  obtain pc w0 w1 where w0: "with_counter ca c w pc w0" and w1: "cleared w0 (expired w P) w1" "pool_at w1 (aged_pool w P)"
    and run: "connect_pooled env api (Suc f) resume host port ca w
        = Option.bind (get_connection_in_pool (Suc f) api resume ?key (Some ca) w0) (pooled_rest env api host port ca pc)"
      "get_connection_in_pool (Suc f) api resume ?key (Some ca) w0 = Some (None, w1)"
    using connect_lookup [OF assms(1,2)] unfolding cand list.case by blast
  note fr = with_counter_frame [OF w0]
  have "counter_at ?key pc w1" by (rule get_connection_at [OF run(2) _ fr(16)]) (use cn in \<open>simp add: connecting_def\<close>)
  then obtain n where n: "w_cnodes w1 pc = Some n" "pc_count n = left_count ?key w P"
    using counter_at_count cleared_left_count(2) [OF w0 w1(1)] by metis
  have op: "other_parts w0 w1" "w_brk w0 \<le> w_brk w1" using w1(1) by (simp_all add: cleared_def)
  then have other: "w_coks w1 = w_coks w0" "w_process_count w1 = w_process_count w" using fr(4) by (simp_all add: other_parts_def)
  have wr: "\<And>Q. wait_rel w Q \<Longrightarrow> wait_rel w1 Q" using wait_rel_other [OF op] fr(13) by blast
  let ?c = "c\<lparr>ck_pool_size := pool_limit c w, ck_ptr := None\<rparr>" and ?w1 = "\<lambda>c. put_cok ca c w1"
  have "connect_pooled env api (Suc f) resume host port ca w
      = (if pool_busy c w P then wait_connection env ca (?w1 ?c) else open_connection env api host port ca ?key (?w1 ?c))"
    unfolding run Option.bind.simps using n other fr(14) by (simp add: pooled_rest_def pool_busy_def Let_def)
  moreover have "\<forall>j. count_of j (?w1 ?c) = left_count j w P" "cnt_ok (?w1 ?c)"
    using cleared_left_count [OF w0 w1(1)] by simp_all
  ultimately show ?thesis using w1(2) other wr cleared_trace [OF w0 w1(1)] by (intro exI [of _ "?w1 ?c"] exI [of _ ?c]) simp
qed


text \<open>
  What comes of a connection once its descriptor is there: the answer of \<open>connect\<close>, whether the
  connection stays open and whether it stays counted. \<open>r\<close> is the answer of \<open>se_be_read\<close> for the
  SSL handshake; if it fails, the closed connection stays counted.
\<close>

definition handshake :: "net_env \<Rightarrow> cosocket \<Rightarrow> int \<Rightarrow> lua_ret \<times> bool \<times> bool" where
  "handshake env c r =
     (if \<not> ck_use_ssl c then (Ret [LBool True], True, True)
      else if ck_ctx c = None \<and> ne_ctx_new env = None then (Ret [LNil, lstr ''SSL_CTX_new Error''], False, False)
      else if ne_ssl_new env = None then (Ret [LNil, lstr ''SSL_new Error''], False, False)
      else if r = - 1 then (Ret [LNil, lstr ''Network Error''], False, True)
      else if ne_ssl_connect env = 1 then (Ret [LBool True], True, True)
      else (Yield, True, True))"

text \<open>The socket afterwards: open with its descriptor and usable or with the timer of the handshake, or without connection.\<close>

definition handed :: "lua_ret \<Rightarrow> bool \<Rightarrow> int \<Rightarrow> cosocket \<Rightarrow> bool" where
  "handed r keep fd c \<longleftrightarrow> (if keep then ck_status c = 2 \<and> ck_fd c = fd \<and> (if r = Yield then ck_timeout_ptr c \<noteq> None else \<not> ck_inuse c)
     else ck_status c = 0 \<and> ck_fd c = - 1 \<and> ck_ptr c = None)"

definition uncounted :: "bool \<Rightarrow> u64 \<Rightarrow> world \<Rightarrow> world \<Rightarrow> bool" where
  "uncounted b key w w' \<longleftrightarrow> (\<forall>j. count_of j w' = (if b \<and> j = key \<and> key \<noteq> 0 then count_of j w - 1 else count_of j w))"

definition set_up :: "net_env \<Rightarrow> cosocket \<Rightarrow> int \<Rightarrow> addr \<Rightarrow> int \<Rightarrow> world \<Rightarrow> lua_ret \<Rightarrow> world \<Rightarrow> bool" where
  "set_up env c r ca fd w v w' \<longleftrightarrow> (case handshake env c r of (u, keep, counted) \<Rightarrow> v = u
     \<and> (\<exists>c'. w_coks w' ca = Some c' \<and> handed u keep fd c') \<and> uncounted (\<not> counted) (ck_pool_key c) w w'
     \<and> (\<exists>t. w_trace w' = w_trace w @ t) \<and> closes w w' = (if keep then [] else [fd]))"

lemma cnt_frame_emit:
  assumes "cnt_ok w"
  shows "cnt_ok (emit e w\<lparr>w_se := h\<rparr>)" "count_of j (emit e w\<lparr>w_se := h\<rparr>) = count_of j w"
  using cnt_frame [of "emit e w\<lparr>w_se := h\<rparr>" w] assms by simp_all

lemma uncounted_frame:
  assumes "cnt_ok w" "w_counters w' = w_counters w" "w_cnodes w' = w_cnodes w" "w_brk w \<le> w_brk w'"
  shows "uncounted False key w w'"
  using cnt_frame(2) [OF assms(2-4,1)] by (simp add: uncounted_def)

lemma be_connect_plain:
  assumes cok: "w_coks w ca = Some c" and cnt: "cnt_ok w" and plain: "\<not> ck_use_ssl c"
  shows "\<exists>vs w'. be_connect_fd env api ca fd w = Some (Some vs, w') \<and> set_up env c r ca fd w (Ret vs) w'"
proof -
  obtain p se' where se: "api_se_add api (w_loop_fd w) fd (DCok ca) (w_se w) = (p, se')"
    by (cases "api_se_add api (w_loop_fd w) fd (DCok ca) (w_se w)")
  let ?c' = "c\<lparr>ck_fd := fd, ck_ptr := p, ck_status := 2, ck_in_read_action := False, ck_inuse := False\<rparr>"
  let ?w' = "put_cok ca ?c' ((emit (E_setsockopt fd) w)\<lparr>w_se := api_se_be_pri api p se'\<rparr>)"
  have "be_connect_fd env api ca fd w = Some (Some [LBool True], ?w')"
    using cok plain se by (simp add: be_connect_fd_def se_add_def se_be_pri_def Let_def)
  moreover have "uncounted False (ck_pool_key c) w ?w'" by (rule uncounted_frame [OF cnt]) simp_all
  ultimately show ?thesis using plain by (simp add: set_up_def handshake_def handed_def closes_def)
qed

lemma be_connect_ssl:
  assumes cok: "w_coks w ca = Some c" and cnt: "cnt_ok w" and ssl: "ck_use_ssl c"
    and watch: "\<forall>p h. fst (api_se_be_read api p H_ssl_connected h) = r"
  shows "\<exists>vs w'. be_connect_fd env api ca fd w = Some (vs, w') \<and> set_up env c r ca fd w (case vs of None \<Rightarrow> Yield | Some vs \<Rightarrow> Ret vs) w'"
proof -
  obtain p se' where se: "api_se_add api (w_loop_fd w) fd (DCok ca) (w_se w) = (p, se')"
    by (cases "api_se_add api (w_loop_fd w) fd (DCok ca) (w_se w)")
  let ?w1 = "(emit (E_setsockopt fd) w)\<lparr>w_se := se'\<rparr>"
  note defs = be_connect_fd_def se_add_def se_be_pri_def se_be_read_def start_timeout_def se_delete_def Let_def
  have ok: "cnt_ok ?w1" "\<And>j. count_of j ?w1 = count_of j w" using cnt_frame_emit [OF cnt] by simp_all
  obtain brk cs h where op: "connection_pool_counter_operate (ck_pool_key c) (- 1) ?w1 = Some (?w1\<lparr>w_brk := brk, w_counters := cs, w_cnodes := h\<rparr>)"
    "cnt_ok (?w1\<lparr>w_brk := brk, w_counters := cs, w_cnodes := h\<rparr>)"
    "\<forall>j. count_of j (?w1\<lparr>w_brk := brk, w_counters := cs, w_cnodes := h\<rparr>)
        = (if j = ck_pool_key c \<and> ck_pool_key c \<noteq> 0 then count_of j ?w1 + word_of_int (- 1) else count_of j ?w1)"
    using counter_operate_ok [OF ok(1), of "ck_pool_key c" "- 1"] by blast
  let ?w2 = "?w1\<lparr>w_brk := brk, w_counters := cs, w_cnodes := h\<rparr>"
  have off: "uncounted True (ck_pool_key c) w w'" if "w_counters w' = cs" "w_cnodes w' = h" "w_brk w' = brk" for w'
    using cnt_frame(2) [of w' ?w2] that op(2,3) ok(2) by (simp add: uncounted_def)
  have keep: "uncounted False (ck_pool_key c) w w'" if "w_counters w' = w_counters w" "w_cnodes w' = w_cnodes w" "w_brk w \<le> w_brk w'" for w'
    by (rule uncounted_frame [OF cnt that])
  obtain b where b: "api_se_be_read api p H_ssl_connected se' = (r, b)" using watch by (metis prod.collapse)
  consider "ck_ctx c = None" "ne_ctx_new env = None" | "\<not> (ck_ctx c = None \<and> ne_ctx_new env = None)" "ne_ssl_new env = None"
    | "\<not> (ck_ctx c = None \<and> ne_ctx_new env = None)" "ne_ssl_new env \<noteq> None" "r = - 1"
    | "\<not> (ck_ctx c = None \<and> ne_ctx_new env = None)" "ne_ssl_new env \<noteq> None" "r \<noteq> - 1" by metis
  then show ?thesis
  proof cases
    case 1
    then show ?thesis using cok ssl se op(1) off by (simp add: defs set_up_def handshake_def handed_def closes_def)
  next
    case 2
    then show ?thesis using cok ssl se op(1) off by (auto simp: defs set_up_def handshake_def handed_def closes_def)
  next
    case 3
    then show ?thesis using cok ssl se b keep by (auto simp: defs set_up_def handshake_def handed_def closes_def)
  next
    case 4
    then show ?thesis using cok ssl se b keep
      by (cases "ne_ssl_connect env = 1") (auto simp: defs set_up_def handshake_def handed_def closes_def)
  qed
qed

lemma be_connect_fd_set_up:
  assumes "w_coks w ca = Some c" and "cnt_ok w" and "\<forall>p h. fst (api_se_be_read api p H_ssl_connected h) = r"
  shows "\<exists>vs w'. be_connect_fd env api ca fd w = Some (vs, w') \<and> set_up env c r ca fd w (case vs of None \<Rightarrow> Yield | Some vs \<Rightarrow> Ret vs) w'"
  using be_connect_plain [OF assms(1,2), of env api fd r] be_connect_ssl [OF assms(1,2) _ assms(3), of env fd]
  by (cases "ck_use_ssl c") fastforce+


section \<open>Serving the queue\<close>

text \<open>A lookup does not touch the queue of waiting sockets.\<close>

definition same_wait :: "world \<Rightarrow> world \<Rightarrow> bool" where
  "same_wait w w' \<longleftrightarrow> w_waiting w' = w_waiting w \<and> w_waiting_end w' = w_waiting_end w \<and> w_wnodes w' = w_wnodes w"

lemma counter_operate_wait: "connection_pool_counter_operate key d w = Some w' \<Longrightarrow> same_wait w w'"
  by (auto simp: same_wait_def connection_pool_counter_operate_def get_connection_pool_counter_def Let_def
      split: if_splits bind_splits option.splits)

lemma poke_pool_wait:
  "poke_pool m f w = Some w' \<Longrightarrow> same_wait w w'" "poke_pool_if q f w = Some w' \<Longrightarrow> same_wait w w'"
  by (auto simp: same_wait_def poke_pool_def poke_pool_if_def split: bind_splits)

lemma take_conn_wait: "take_conn g key ca w = Some (r, w') \<Longrightarrow> same_wait w w'"
  by (auto simp: take_conn_def Let_def unlink_head_def unlink_inner_def adopt_ssl_def same_wait_def set_pool_def
      split: bind_splits option.splits if_splits cell.splits dest!: poke_pool_wait)

lemma clear_node_wait: "clear_node api p m w = Some w' \<Longrightarrow> same_wait w w'"
  by (auto simp: clear_node_def Let_def same_wait_def set_pool_def se_delete_def split: bind_splits if_splits
      dest!: poke_pool_wait counter_operate_wait)

lemma clear_chain_wait: "clear_chain api p f q w = Some w' \<Longrightarrow> same_wait w w'"
  by (induction api p f q w rule: clear_chain.induct) (auto simp: same_wait_def split: option.splits dest!: clear_node_wait)

lemma clear_buckets_wait: "clear_buckets api p q is w = Some w' \<Longrightarrow> same_wait w w'"
  by (induction api p q "is" w rule: clear_buckets.induct)
    (auto simp: same_wait_def set_pool_def split: option.splits dest!: clear_chain_wait)

lemma get_connection_wait:
  assumes "get_connection_in_pool (Suc f) api resume key ca w = Some (r, w')" and "key \<noteq> 0"
  shows "same_wait w w'"
proof -
  let ?p = "cur_gen w" and ?q = "(cur_gen w + 1) mod 2"
  obtain w1 where w1: "clear_buckets api ?p ?q [0..<64] w = Some w1"
    using assms(1) by (auto simp: Let_def simp del: upt.simps split: option.splits)
  moreover obtain w2 r2 where "take_conn ?p key ca w1 = Some (r2, w2)" "w' = w2 \<or> (\<exists>r'. take_conn ?q key ca w2 = Some (r', w'))"
    using assms w1 by (auto simp: Let_def split: option.splits if_splits)
  ultimately show ?thesis by (auto simp: same_wait_def dest!: clear_buckets_wait take_conn_wait)
qed

lemma lookup_ok:
  assumes cn: "connecting api P ca c w" and cand: "candidates (ck_pool_key c) w P = a # as"
  shows "\<exists>w' n r sp. get_connection_in_pool (Suc f) api resume (ck_pool_key c) (Some ca) w = Some (Some r, w')
     \<and> w_se w' r = Some sp \<and> fd_of w a = Some (sp_fd sp) \<and> ptr_of w a = Some r
     \<and> pool_at w' (upd2 (aged_pool w P) (cur_gen w) (bucket (ck_pool_key c)) (remove1 a (aged_pool w P (cur_gen w) (bucket (ck_pool_key c)))))
     \<and> w_coks w' = adopt (Some ca) n (w_coks w) \<and> same_wait w w' \<and> w_brk w \<le> w_brk w'
     \<and> cnt_ok w' \<and> (\<forall>j. count_of j w' = left_count j w P)"
proof -
  let ?key = "ck_pool_key c" and ?p = "cur_gen w" and ?q = "(cur_gen w + 1) mod 2"
  have as: "w_coks w ca = Some c" "?key \<noteq> 0" "ck_ssl_pw c \<noteq> Garbage" "cnt_ok w" "pool_at w P" "live w (idle_nodes P)" "se_delete_local api"
    using cn by (auto simp: connecting_def)
  have ready: "ssl_ready (Some ca) w" using as(1,3) by (simp add: ssl_ready_def)
  obtain w1 where w1: "cleared w (expired w P) w1" and res: "case find (\<lambda>a. pkey (w_pnodes w1) a = Some ?key) (aged_pool w P ?p (bucket ?key)) of
          None \<Rightarrow> get_connection_in_pool (Suc f) api resume ?key (Some ca) w = Some (None, w1)
        | Some a \<Rightarrow> \<exists>n r sp w'. w_se w' r = Some sp \<and> fd_of w a = Some (sp_fd sp) \<and> w_pnodes w1 a = Some n \<and> cp_ptr n = Some r
            \<and> get_connection_in_pool (Suc f) api resume ?key (Some ca) w = Some (Some r, w')
            \<and> pool_at w' (upd2 (aged_pool w P) ?p (bucket ?key) (remove1 a (aged_pool w P ?p (bucket ?key))))
            \<and> w_coks w' = adopt (Some ca) n (w_coks w) \<and> w_se w' = w_se w1 \<and> w_brk w' = w_brk w1
            \<and> w_counters w' = w_counters w1 \<and> w_cnodes w' = w_cnodes w1 \<and> same_fds w1 w'"
    using get_connection_ok [OF as(5,6,4,7,2) ready refl refl refl, of f resume] unfolding expired_def aged_pool_def by blast
  obtain n r sp w' where r: "w_se w' r = Some sp" "fd_of w a = Some (sp_fd sp)" "w_pnodes w1 a = Some n" "cp_ptr n = Some r"
      "get_connection_in_pool (Suc f) api resume ?key (Some ca) w = Some (Some r, w')"
      "pool_at w' (upd2 (aged_pool w P) ?p (bucket ?key) (remove1 a (aged_pool w P ?p (bucket ?key))))"
      "w_coks w' = adopt (Some ca) n (w_coks w)" "w_brk w' = w_brk w1" "w_counters w' = w_counters w1" "w_cnodes w' = w_cnodes w1"
    using res unfolding find_candidates [OF as(5) w1] cand list.case option.case by blast
  have "a \<in> set (candidates ?key w P)" using cand by simp
  then have "a \<in> set (aged_pool w P ?p (bucket ?key))" by (simp add: candidates_def)
  from survivor [OF as(5) w1 this] r(3,4) have ptr: "ptr_of w a = Some r" by (simp add: ptr_of_def)
  have "cnt_ok w1" "\<And>j. count_of j w1 = left_count j w P" "w_brk w \<le> w_brk w1" using w1 by (simp_all add: cleared_def left_count_def)
  then have cnt: "cnt_ok w'" "\<And>j. count_of j w' = left_count j w P" "w_brk w \<le> w_brk w'"
    using cnt_frame(1) [of w' w1] cnt_frame(2) [of w' w1] r(8-10) by simp_all
  have wait: "same_wait w w'"
    by (rule get_connection_wait [OF r(5) as(2)])
  show ?thesis
    by (intro exI conjI, rule r(5), rule r(1), rule r(2), rule ptr, rule r(6), rule r(7), rule wait, rule cnt(3), rule cnt(1))
      (use cnt(2) in blast)
qed

text \<open>
  (C12) When the periodic job comes to a bucket whose first waiting socket can have a connection of
  its key, that socket is taken out of the queue, gets the connection (descriptor and
  registration), its timer is stopped and its coroutine is resumed with true; the others keep
  their order and the counters are unchanged, the connection having been counted all along.
\<close>

theorem resume_in_waiting_serves:
  assumes cn: "connecting api P ca c w" and cand: "candidates (ck_pool_key c) w P = a # as"
    and q: "wait_rel w Q" "Q k = m # ns" "map_option wg_cok (w_wnodes w m) = Some ca"
  shows "\<exists>w' c'. resume_in_waiting_get_connection (Suc f) api resume (k # ks) w = Some (snd (resume (ck_L c) [LBool True] w'))
     \<and> w_coks w' ca = Some c' \<and> ck_status c' = 2 \<and> \<not> ck_inuse c' \<and> ck_pool_wait c' = None \<and> ck_timeout_ptr c' = None
     \<and> fd_of w a = Some (ck_fd c') \<and> ptr_of w a = ck_ptr c' \<and> wait_rel w' (Q(k := ns))
     \<and> pool_at w' (upd2 (aged_pool w P) (cur_gen w) (bucket (ck_pool_key c)) (remove1 a (aged_pool w P (cur_gen w) (bucket (ck_pool_key c)))))
     \<and> (\<forall>j. count_of j w' = left_count j w P)"
proof -
  let ?key = "ck_pool_key c" and ?P = "upd2 (aged_pool w P) (cur_gen w) (bucket (ck_pool_key c)) (remove1 a (aged_pool w P (cur_gen w) (bucket (ck_pool_key c))))"
  obtain v n r sp where v: "get_connection_in_pool (Suc f) api resume ?key (Some ca) w = Some (Some r, v)"
     "w_se v r = Some sp" "fd_of w a = Some (sp_fd sp)" "ptr_of w a = Some r" "pool_at v ?P"
     "w_coks v = adopt (Some ca) n (w_coks w)" "same_wait w v" "w_brk w \<le> w_brk v" "cnt_ok v" "\<forall>j. count_of j v = left_count j w P"
    using lookup_ok [OF cn cand] by blast
  obtain wn where wn: "w_wnodes w m = Some wn" "wg_cok wn = ca" using q(3) by auto
  have head: "w_waiting w k = Some m" using q(1,2) unfolding wait_rel_def bq_def by (metis dseg.simps(2))
  have ca: "w_coks w ca = Some c" using cn by (simp add: connecting_def)
  define c1 where "c1 = c\<lparr>ck_ctx := cp_ctx n, ck_ssl := cp_ssl n, ck_ssl_pw := cp_ssl_pw n\<rparr>"
  have c1: "w_coks v ca = Some c1" "ck_L c1 = ck_L c" using v(6) ca by (simp_all add: adopt_def c1_def)
  have rel: "wait_rel v Q" by (rule wait_rel_mono [OF q(1)]) (use v(7,8) in \<open>simp_all add: same_wait_def\<close>)
  let ?v1 = "put_cok ca (c1\<lparr>ck_ptr := Some r, ck_pool_wait := None\<rparr>) v"
  obtain hd en h where d: "delete_in_waiting_get_connection m ?v1 = Some (?v1\<lparr>w_waiting := hd, w_waiting_end := en, w_wnodes := h\<rparr>)"
    "wait_rel (?v1\<lparr>w_waiting := hd, w_waiting_end := en, w_wnodes := h\<rparr>) (Q(k := ns))"
    using delete_waiting_rel [of ?v1 Q m k] rel q(2) by auto
  let ?v2 = "?v1\<lparr>w_waiting := hd, w_waiting_end := en, w_wnodes := h\<rparr>"
  let ?c' = "c1\<lparr>ck_ptr := Some r, ck_pool_wait := None, ck_status := 2, ck_inuse := False,
               ck_reusedtimes := 1, ck_in_read_action := False, ck_fd := sp_fd sp, ck_timeout_ptr := None\<rparr>"
  let ?v3 = "put_cok ca ?c' (emit (E_delete_timeout (ck_timeout_ptr c1)) (?v2\<lparr>w_se := (w_se v)(r \<mapsto> sp\<lparr>sp_data := DCok ca\<rparr>)\<rparr>))"
  let ?w' = "?v3\<lparr>w_se := api_se_be_pri api (Some r) (w_se ?v3)\<rparr>"
  have wake: "wake_waiting api resume ca m r v = Some (snd (resume (ck_L c) [LBool True] ?w'))"
    using c1 d(1) v(2) by (simp add: wake_waiting_def poke_def Let_def)
  have "w_waiting v k = Some m" using head v(7) by (simp add: same_wait_def)
  then have run: "resume_in_waiting_get_connection (Suc f) api resume (k # ks) w = Some (snd (resume (ck_L c) [LBool True] ?w'))"
    using head wn ca v(1) wake by (simp del: get_connection_in_pool.simps)
  have "wait_rel ?w' (Q(k := ns))" by (rule wait_rel_mono [OF d(2)]) simp_all
  with run v(3-5,10) show ?thesis by (intro exI [of _ ?w'] exI [of _ ?c']) simp
qed

section \<open>Concrete states\<close>

definition demo_env :: net_env where
  "demo_env = \<lparr>ne_fnv1a_32 = (\<lambda>_. 7), ne_se_connect = (\<lambda>_ _ _. 9), ne_strerror = ''refused'', ne_ctx_new = Some 50, ne_ssl_new = Some 51,
     ne_ssl_connect = 1, ne_malloc = True, ne_use_cert = 1, ne_use_key = 1, ne_check_key = 1\<rparr>"

text \<open>A socket that waits for a connection of key 7, alone in its queue; the key has one connection.\<close>

definition demo_queue :: "nat \<Rightarrow> addr list" where
  "demo_queue k = (if k = 7 then [25] else [])"

definition demo_waiter :: cosocket where
  "demo_waiter = cosocket_zero\<lparr>ck_status := 3, ck_fd := - 1, ck_pool_wait := Some 25, ck_pool_key := 7, ck_pool_size := 1,
     ck_inuse := True, ck_L := Some 4\<rparr>"

definition demo_client :: cosocket where
  "demo_client = cosocket_zero\<lparr>ck_status := 1, ck_fd := - 1, ck_pool_key := 7, ck_pool_size := 1, ck_L := Some 5\<rparr>"

definition demo_busy :: world where
  "demo_busy = world0\<lparr>w_brk := 40, w_coks := [20 \<mapsto> demo_waiter, 21 \<mapsto> demo_client],
     w_counters := (\<lambda>k. if k = 7 then Some 26 else None),
     w_cnodes := [26 \<mapsto> \<lparr>pc_size = 1, pc_count = 1, pc_pool_key = 7, pc_next = None, pc_uper = None\<rparr>],
     w_waiting := (\<lambda>k. if k = 7 then Some 25 else None), w_waiting_end := (\<lambda>k. if k = 7 then Some 25 else None),
     w_wnodes := [25 \<mapsto> \<lparr>wg_cok = 20, wg_next = None, wg_uper = None, wg_k = 7\<rparr>]\<rparr>"

text \<open>The pool of \<open>demo_pool\<close> with the same two sockets.\<close>

definition demo_ready :: world where
  "demo_ready = demo_pool\<lparr>w_brk := 40, w_coks := [20 \<mapsto> demo_waiter, 21 \<mapsto> demo_client],
     w_waiting := (\<lambda>k. if k = 7 then Some 25 else None), w_waiting_end := (\<lambda>k. if k = 7 then Some 25 else None),
     w_wnodes := [25 \<mapsto> \<lparr>wg_cok = 20, wg_next = None, wg_uper = None, wg_k = 7\<rparr>]\<rparr>"

abbreviation no_idle :: "nat \<Rightarrow> nat \<Rightarrow> addr list" where "no_idle \<equiv> \<lambda>_ _. []"

lemma demo_busy_queue: "wait_rel demo_busy demo_queue" "wait_rel demo_ready demo_queue"
  by (auto simp: wait_rel_def bq_def demo_busy_def demo_ready_def demo_queue_def world0_def demo_pool_def last_ptr_def)

lemma demo_busy_rel: "cnt_rel demo_busy (\<lambda>k. if k = 7 then [26] else [])"
  by (simp add: cnt_rel_def demo_busy_def world0_def bucket_def)

lemma demo_busy_cnt: "cnt_ok demo_busy"
  using demo_busy_rel unfolding cnt_ok_def by blast

lemma expired_none [simp]: "expired w (\<lambda>_ _. []) = []"
proof -
  have "concat (map (\<lambda>_. []) ks) = ([] :: addr list)" for ks :: "nat list" by (induction ks) auto
  then show ?thesis by (simp only: expired_def)
qed

lemma demo_ready_cnt: "cnt_ok demo_ready"
  unfolding cnt_ok_def by (rule exI [of _ "\<lambda>_. []"]) (simp add: cnt_rel_def demo_ready_def demo_defs)

lemma no_idle_pool: "w_pool w = (\<lambda>_ _. None) \<Longrightarrow> pool_at w no_idle"
  by (simp add: pool_rel_def)

lemma no_idle_live: "live w (idle_nodes no_idle)"
  by (simp add: live_def idle_nodes_def)

theorem timeout_handle_closes_witness:
  "\<exists>w' c'. timeout_handle demo_api (\<lambda>_ _ w. (0, w)) 20 (demo_net demo_sock) = Some w' \<and> w_coks w' 20 = Some c'
     \<and> gone c' \<and> closes (demo_net demo_sock) w' = [5] \<and> one_less 7 (demo_net demo_sock) w'"
proof -
  have "w_coks (demo_net demo_sock) 20 = Some demo_sock" "ck_pool_wait demo_sock = None" "0 \<le> ck_fd demo_sock"
    "timeout_msg demo_sock (demo_net demo_sock) = Some ''Timeout!''" "ck_fd demo_sock = 5" "ck_pool_key demo_sock = 7"
    by (simp_all add: demo_net_def demo_sock_def cosocket_zero_def timeout_msg_def)
  with timeout_handle_closes [of "demo_net demo_sock" 20 demo_sock "''Timeout!''" demo_api "\<lambda>_ _ w. (0, w)"] demo_net_cnt
  show ?thesis by auto
qed

theorem timeout_handle_dequeues_witness:
  "\<exists>w' c'. timeout_handle demo_api (\<lambda>_ _ w. (0, w)) 20 demo_busy = Some w' \<and> w_coks w' 20 = Some c'
     \<and> gone c' \<and> closes demo_busy w' = [] \<and> wait_rel w' (demo_queue(7 := []))"
proof -
  have "awaiting demo_queue 20 demo_waiter 7 25 demo_busy"
    unfolding awaiting_def using demo_busy_queue
    by (simp add: demo_busy_def demo_waiter_def cosocket_zero_def demo_queue_def)
  from timeout_handle_dequeues [OF this demo_busy_cnt, of demo_api "\<lambda>_ _ w. (0, w)"]
  show ?thesis by (auto simp: demo_queue_def)
qed

lemma demo_owns: "owns 20 (demo_sock\<lparr>ck_pool_size := n\<rparr>) 30 \<lparr>sp_fd = 5, sp_data = DCok 20, sp_rfunc = None, sp_wfunc = None\<rparr>
    (demo_net (demo_sock\<lparr>ck_pool_size := n\<rparr>))"
  by (simp add: owns_def demo_net_def demo_sock_def cosocket_zero_def)

theorem lua_co_close_once_witness:
  "\<exists>w' w''. lua_co_close_cok demo_env demo_api 20 (demo_net (demo_sock\<lparr>ck_pool_size := 0\<rparr>)) = Some w'
     \<and> closes (demo_net (demo_sock\<lparr>ck_pool_size := 0\<rparr>)) w' = [5]
     \<and> lua_co_close_cok demo_env demo_api 20 w' = Some w'' \<and> closes w' w'' = []"
  using lua_co_close_once [OF demo_owns demo_net_cnt, of 0 demo_env demo_api] by (auto simp: demo_sock_def)

abbreviation demo_keeper :: cosocket where "demo_keeper \<equiv> demo_sock\<lparr>ck_pool_size := 2\<rparr>"

lemma demo_keeper_simps:
  "cur_gen (demo_net c) = 0" "bucket (ck_pool_key demo_keeper) = 7" "w_brk (demo_net c) = 40" "ck_fd demo_keeper = 5"
  "ck_pool_key demo_keeper = 7" "1 \<le> ck_pool_size demo_keeper" "ne_malloc demo_env" "pool_at (demo_net c) no_idle"
  by (simp_all add: cur_gen_def demo_net_def world0_def demo_sock_def bucket_def demo_env_def connect_pool_ttl_def pool_rel_def)

lemma demo_poolable:
  "\<exists>se'. poolable demo_env demo_api no_idle 20 demo_keeper 30 \<lparr>sp_fd = 5, sp_data = DCok 20, sp_rfunc = None, sp_wfunc = None\<rparr> se' (demo_net demo_keeper)
     \<and> (\<forall>q. q \<noteq> 30 \<longrightarrow> se' q = w_se (demo_net demo_keeper) q) \<and> map_option sp_fd (se' 30) = Some 5"
  using demo_owns [of 2] demo_net_cnt demo_keeper_simps by (simp add: poolable_def demo_api_def)

theorem lua_co_close_pools_witness:
  "\<exists>w'. lua_co_close_cok demo_env demo_api 20 (demo_net demo_keeper) = Some w'
     \<and> closes (demo_net demo_keeper) w' = [] \<and> pool_at w' (upd2 no_idle 0 7 [40])"
proof -
  obtain se' where "poolable demo_env demo_api no_idle 20 demo_keeper 30 \<lparr>sp_fd = 5, sp_data = DCok 20, sp_rfunc = None, sp_wfunc = None\<rparr> se' (demo_net demo_keeper)"
    using demo_poolable by blast
  from lua_co_close_pools [OF this refl refl] demo_keeper_simps show ?thesis
    by (auto simp: pool_full_def same_key_def)
qed

lemma demo_ready_connecting:
  "connecting demo_api demo_lists 20 demo_waiter demo_ready" "connecting demo_api demo_lists 21 demo_client demo_ready"
proof -
  have p: "pool_at demo_ready demo_lists"
    using demo_pool_at pool_rel_mono [of _ _ 10 demo_lists 40] by (simp add: demo_ready_def demo_pool_def world0_def)
  have "live demo_ready (idle_nodes demo_lists)"
    using demo_live by (simp add: demo_idle_nodes live_def fd_of_def ptr_of_def demo_ready_def demo_defs)
  with p demo_ready_cnt demo_delete_local
  show "connecting demo_api demo_lists 20 demo_waiter demo_ready" "connecting demo_api demo_lists 21 demo_client demo_ready"
    by (simp_all add: connecting_def demo_ready_def demo_waiter_def demo_client_def cosocket_zero_def)
qed

lemma demo_busy_connecting: "connecting demo_api no_idle 21 demo_client demo_busy"
  using no_idle_pool [of demo_busy] no_idle_live demo_busy_cnt demo_delete_local
  by (simp add: connecting_def demo_busy_def demo_client_def cosocket_zero_def world0_def)

lemma demo_ready_candidates: "candidates 7 demo_ready demo_lists = [1, 2]" "cur_gen demo_ready = 1"
proof -
  show g: "cur_gen demo_ready = 1" using demo_gen by (simp add: demo_ready_def cur_gen_def)
  have y: "young demo_ready 1" "\<not> young demo_ready 3" by (simp_all add: young_def demo_ready_def demo_defs)
  have "aged_pool demo_ready demo_lists 1 7 = [1, 2]"
    using y by (simp add: aged_pool_def aged_def g demo_lists_def)
  then show "candidates 7 demo_ready demo_lists = [1, 2]"
    by (simp add: candidates_def g bucket_def) (simp add: demo_ready_def demo_defs)
qed

lemma demo_keys [simp]:
  "ck_pool_key demo_waiter = 7" "ck_pool_key demo_client = 7" "ck_pool_size demo_client = 1" "\<not> ck_use_ssl demo_client"
  by (simp_all add: demo_waiter_def demo_client_def cosocket_zero_def)

theorem connect_reuses_idle_witness:
  "\<exists>w' c'. connect_pooled demo_env demo_api 1 (\<lambda>_ _ w. (0, w)) ''a'' 80 21 demo_ready = Some (Ret [LBool True], w')
     \<and> w_coks w' 21 = Some c' \<and> ck_status c' = 2 \<and> ck_fd c' = 9"
proof -
  have "size_of 7 demo_ready = 0" by (simp add: size_of_def counter_of_def demo_ready_def demo_defs)
  then have "0 < pool_limit demo_client demo_ready" by (simp add: pool_limit_def)
  moreover have "fd_of demo_ready 1 = Some 9" by (simp add: fd_of_def ptr_of_def demo_ready_def demo_defs)
  ultimately show ?thesis
    using connect_reuses_idle [OF demo_ready_connecting(2), of 1 "[2]" demo_env 0 "\<lambda>_ _ w. (0, w)" "''a''" 80] demo_ready_candidates(1)
    by (auto simp: One_nat_def [symmetric] simp del: One_nat_def)
qed

theorem resume_in_waiting_serves_witness:
  "\<exists>w' c'. resume_in_waiting_get_connection 1 demo_api (\<lambda>_ _ w. (0, w)) [7] demo_ready = Some w'
     \<and> w_coks w' 20 = Some c' \<and> ck_status c' = 2 \<and> ck_fd c' = 9 \<and> wait_rel w' (demo_queue(7 := []))"
proof -
  have "fd_of demo_ready 1 = Some 9" by (simp add: fd_of_def ptr_of_def demo_ready_def demo_defs)
  moreover have "demo_queue 7 = 25 # []" "map_option wg_cok (w_wnodes demo_ready 25) = Some 20"
    by (simp_all add: demo_queue_def demo_ready_def)
  ultimately show ?thesis
    using resume_in_waiting_serves [OF demo_ready_connecting(1) _ demo_busy_queue(2), of 1 "[2]" 7 25 "[]" 0 "\<lambda>_ _ w. (0, w)" "[]"]
      demo_ready_candidates(1)
    by (auto simp: One_nat_def [symmetric] simp del: One_nat_def resume_in_waiting_get_connection.simps)
qed

lemma demo_busy_counts: "count_of 7 demo_busy = 1" "size_of 7 demo_busy = 1" "left_count 7 demo_busy no_idle = 1"
proof -
  have "counter_of 7 demo_busy = Some \<lparr>pc_size = 1, pc_count = 1, pc_pool_key = 7, pc_next = None, pc_uper = None\<rparr>"
    using counter_of_node [OF demo_busy_rel, of 26 7] by (simp add: demo_busy_def bucket_def)
  then show c: "count_of 7 demo_busy = 1" "size_of 7 demo_busy = 1" by (simp_all add: count_of_def size_of_def)
  then show "left_count 7 demo_busy no_idle = 1" by (simp add: left_count_def dropped_def)
qed

lemma no_candidates: "candidates key w no_idle = []"
  by (simp add: candidates_def aged_pool_def aged_def)


text \<open>A socket with SSL whose handshake is not over at once; its key has no connection.\<close>

definition demo_tls :: cosocket where
  "demo_tls = demo_client\<lparr>ck_use_ssl := True\<rparr>"

definition demo_tls_net :: world where
  "demo_tls_net = world0\<lparr>w_brk := 40, w_coks := [21 \<mapsto> demo_tls]\<rparr>"

definition demo_tls_api :: se_api where
  "demo_tls_api = demo_api\<lparr>api_se_be_read := (\<lambda>_ _ h. (0, h))\<rparr>"


end
