(* ===== verification/Pool_Cycle.thy ===== *)
theory Pool_Cycle
  imports Sock_Connect
begin

text \<open>
  The pool seen across operations: what a socket returns by closing, the next socket with the same
  key gets by connecting; and changing the key of an open connection, which breaks the counting.
\<close>

section \<open>Close, then connect\<close>

text \<open>No idle connection of the key, in either generation.\<close>

definition no_idle_of :: "u64 \<Rightarrow> (nat \<Rightarrow> nat \<Rightarrow> addr list) \<Rightarrow> world \<Rightarrow> bool" where
  "no_idle_of key P w \<longleftrightarrow> (\<forall>a \<in> idle_nodes P. pkey (w_pnodes w) a \<noteq> Some key)"

text \<open>Watching one connection leaves the other registrations and the descriptor.\<close>

definition watch_local :: "addr \<Rightarrow> int \<Rightarrow> (addr \<Rightarrow> se_ptr option) \<Rightarrow> (addr \<Rightarrow> se_ptr option) \<Rightarrow> bool" where
  "watch_local p fd se se' \<longleftrightarrow> (\<forall>q. q \<noteq> p \<longrightarrow> se' q = se q) \<and> map_option sp_fd (se' p) = Some fd"

text \<open>The lists of idle nodes after the connection of \<open>c\<close> was appended.\<close>

abbreviation pool_with :: "(nat \<Rightarrow> nat \<Rightarrow> addr list) \<Rightarrow> cosocket \<Rightarrow> world \<Rightarrow> nat \<Rightarrow> nat \<Rightarrow> addr list" where
  "pool_with P c w \<equiv> upd2 P (cur_gen w) (bucket (ck_pool_key c)) (P (cur_gen w) (bucket (ck_pool_key c)) @ [w_brk w])"

lemma idle_nodes_iff: "a \<in> idle_nodes P \<longleftrightarrow> (\<exists>g k. a \<in> set (P g k))"
  by (auto simp: idle_nodes_def)

lemma idle_nodes_upd2: "idle_nodes (upd2 P g k (P g k @ [m])) = insert m (idle_nodes P)"
proof (rule set_eqI)
  fix a
  have "a \<in> set (upd2 P g k (P g k @ [m]) i j) \<longleftrightarrow> a \<in> set (P i j) \<or> (i = g \<and> j = k \<and> a = m)" for i j
    by (auto simp: upd2_apply)
  then show "a \<in> idle_nodes (upd2 P g k (P g k @ [m])) \<longleftrightarrow> a \<in> insert m (idle_nodes P)"
    by (simp only: insert_iff idle_nodes_iff) blast
qed

lemma pooled_same:
  assumes "pooled P ca c p se' w w1" and "pool_at w P" and "a \<in> idle_nodes P"
  shows "a \<noteq> w_brk w" "pkey (w_pnodes w1) a = pkey (w_pnodes w) a" "ptr_of w1 a = ptr_of w a"
proof -
  show a: "a \<noteq> w_brk w" using assms(2,3) by (auto simp: pool_rel_def idle_nodes_def)
  with assms(1) have "map_option pdata (w_pnodes w1 a) = map_option pdata (w_pnodes w a)" by (simp add: pooled_def)
  from of_pdata [OF this] show "pkey (w_pnodes w1) a = pkey (w_pnodes w) a" "ptr_of w1 a = ptr_of w a" by simp_all
qed

lemma pooled_live:
  assumes pd: "pooled P ca c p se' w w1" and rel: "pool_at w P" and live: "live w (idle_nodes P)"
    and alone: "Some p \<notin> ptr_of w ` idle_nodes P" and loc: "watch_local p fd (w_se w) se'"
  shows "live w1 (idle_nodes (pool_with P c w))" "fd_of w1 (w_brk w) = Some fd"
proof -
  have new: "ptr_of w1 (w_brk w) = Some p" "w_se w1 = se'" using pd by (auto simp: pooled_def)
  then show fd: "fd_of w1 (w_brk w) = Some fd" using loc by (simp add: fd_of_def watch_local_def)
  note same = pooled_same [OF pd rel]
  have "fd_of w1 a = fd_of w a" if "a \<in> idle_nodes P" for a
  proof -
    have "ptr_of w a \<noteq> Some p" using alone that by (metis imageI)
    then show ?thesis using same(3) [OF that] new(2) loc by (cases "ptr_of w a") (simp_all add: fd_of_def watch_local_def)
  qed
  moreover have "inj_on (ptr_of w1) (insert (w_brk w) (idle_nodes P))"
    using live alone same new(1) by (auto simp: live_def inj_on_def rev_image_eqI)
  ultimately show "live w1 (idle_nodes (pool_with P c w))"
    using live fd by (auto simp: live_def idle_nodes_upd2)
qed

lemma pooled_candidate:
  assumes pd: "pooled P ca c p se' w w1" and rel: "pool_at w P" and none: "no_idle_of (ck_pool_key c) P w"
  shows "candidates (ck_pool_key c) w1 (pool_with P c w) = [w_brk w]"
    "left_count (ck_pool_key c) w1 (pool_with P c w) = count_of (ck_pool_key c) w1"
proof -
  let ?key = "ck_pool_key c" and ?g = "cur_gen w" and ?q = "(cur_gen w + 1) mod 2"
  have g: "cur_gen w1 = cur_gen w" using pd by (simp add: pooled_def cur_gen_def)
  have no: "pkey (w_pnodes w1) a \<noteq> Some ?key" if "a \<in> set (P i j)" for i j a
    using pooled_same(2) [OF pd rel] none that by (metis idle_nodesI no_idle_of_def)
  have new: "pkey (w_pnodes w1) (w_brk w) = Some ?key" using pd by (simp add: pooled_def)
  have "aged_pool w1 (pool_with P c w) ?g (bucket ?key) = rev (filter (young w1) (P ?q (bucket ?key))) @ P ?g (bucket ?key) @ [w_brk w]"
    using cur_gen_less(3) [of w] bucket_less [of ?key] by (simp add: aged_pool_def aged_def g upd2_apply)
  then show "candidates ?key w1 (pool_with P c w) = [w_brk w]"
    unfolding candidates_def g using no new by (auto simp: filter_empty_conv simp del: map_option_eq_Some)
  have "expired w1 (pool_with P c w) = concat (map (P ?q) all_buckets)"
    using cur_gen_less(3) [of w] by (auto simp: expired_def g upd2_apply simp del: upt.simps intro!: arg_cong [of _ _ concat])
  then have "dropped w1 (expired w1 (pool_with P c w)) ?key = 0"
    using no by (auto simp: dropped_def filter_empty_conv simp del: map_option_eq_Some)
  then show "left_count ?key w1 (pool_with P c w) = count_of ?key w1" by (simp add: left_count_def)
qed

lemma pooled_expiry:
  assumes pd: "pooled P ca c p se' w w1" and rel: "pool_at w P" and live: "live w (idle_nodes P)"
    and alone: "Some p \<notin> ptr_of w ` idle_nodes P" and loc: "watch_local p fd (w_se w) se'"
  shows "expired_fds w1 (pool_with P c w) = expired_fds w P" "left_count j w1 (pool_with P c w) = left_count j w P"
    "aged_pool w1 (pool_with P c w) = pool_with (aged_pool w P) c w"
proof -
  let ?q = "(cur_gen w + 1) mod 2"
  have g: "cur_gen w1 = cur_gen w" using pd by (simp add: pooled_def cur_gen_def)
  note same = pooled_same [OF pd rel]
  have young: "young w1 a = young w a" if "a \<in> idle_nodes P" for a
    using of_pdata(1) [of w1 a w] same(1) [OF that] pd by (simp add: pooled_def)
  have fd: "fd_of w1 a = fd_of w a" if "a \<in> idle_nodes P" for a
  proof -
    have "ptr_of w a \<noteq> Some p" using alone that by (metis imageI)
    moreover have "w_se w1 = se'" using pd by (simp add: pooled_def)
    ultimately show ?thesis using same(3) [OF that] loc by (cases "ptr_of w a") (simp_all add: fd_of_def watch_local_def)
  qed
  have ex: "expired w1 (pool_with P c w) = expired w P"
    using cur_gen_less(3) [of w] by (auto simp: expired_def g upd2_apply simp del: upt.simps intro!: arg_cong [of _ _ concat])
  have idle: "a \<in> idle_nodes P" if "a \<in> set (expired w P)" for a using that by (auto simp: expired_def intro: idle_nodesI)
  have fy: "filter (\<lambda>a. \<not> young w1 a) (expired w P) = filter (\<lambda>a. \<not> young w a) (expired w P)"
    by (rule filter_cong) (use young idle in auto)
  then show "expired_fds w1 (pool_with P c w) = expired_fds w P"
    unfolding expired_fds_def ex by (auto intro: map_cong simp: fd idle)
  have "filter (\<lambda>a. \<not> young w1 a \<and> pkey (w_pnodes w1) a = Some j) (expired w P) = filter (\<lambda>a. \<not> young w a \<and> pkey (w_pnodes w) a = Some j) (expired w P)"
    by (rule filter_cong) (use young same(2) idle in \<open>auto simp del: map_option_eq_Some\<close>)
  then have "dropped w1 (expired w P) j = dropped w (expired w P) j" by (simp add: dropped_def del: map_option_eq_Some)
  then show "left_count j w1 (pool_with P c w) = left_count j w P" using pd by (simp add: left_count_def ex pooled_def)
  have "filter (young w1) (P i k) = filter (young w) (P i k)" for i k
    by (rule filter_cong) (use young in \<open>auto intro: idle_nodesI\<close>)
  then show "aged_pool w1 (pool_with P c w) = pool_with (aged_pool w P) c w"
    using cur_gen_less(3) [of w] bucket_less [of "ck_pool_key c"] by (intro ext) (auto simp: aged_pool_def aged_def g upd2_apply)
qed

text \<open>
  (C7) What goes into the pool comes out of it. A socket that closes an open connection while no
  other one of its key is idle puts it into the pool without closing it; the next socket with that key that connects
  (the same one or another) gets exactly this connection, the same descriptor under the same
  registration, at once and without opening a new one, and the key's counter has not moved. Afterwards the pool is
  what it was before, aged as every lookup ages it: only connections that had expired are closed and counted off.
\<close>

theorem close_then_connect:
  assumes pl: "poolable env api P ca c p sp se' w" and del: "se_delete_local api"
    and live: "live w (idle_nodes P)" and alone: "Some p \<notin> ptr_of w ` idle_nodes P" and loc: "watch_local p (ck_fd c) (w_se w) se'"
    and none: "no_idle_of (ck_pool_key c) P w" and key: "ck_pool_key c \<noteq> 0"
    and d: "((w_coks w)(ca \<mapsto> closed_cok c)) cb = Some d" "ck_pool_key d = ck_pool_key c" "0 < pool_limit d w" "ck_ssl_pw d \<noteq> Garbage"
  shows "\<exists>w1 w2 d'. lua_co_close_cok env api ca w = Some w1 \<and> closes w w1 = []
     \<and> connect_pooled env' api (Suc f) resume host port cb w1 = Some (Ret [LBool True], w2)
     \<and> w_coks w2 cb = Some d' \<and> ck_status d' = 2 \<and> ck_fd d' = ck_fd c \<and> ck_ptr d' = Some p
     \<and> opens w1 w2 = [] \<and> closes w1 w2 = expired_fds w P \<and> pool_at w2 (aged_pool w P)
     \<and> cnt_ok w2 \<and> count_of (ck_pool_key c) w2 = count_of (ck_pool_key c) w \<and> (\<forall>j. count_of j w2 = left_count j w P)"
proof -
  let ?key = "ck_pool_key c"
  have rel: "pool_at w P" using pl by (simp add: poolable_def)
  have "same_key (w_pnodes w) ?key (P i j) = []" for i j
    using none by (auto simp: same_key_def no_idle_of_def filter_empty_conv idle_nodesI simp del: map_option_eq_Some)
  then obtain w1 where w1: "lua_co_close_cok env api ca w = Some w1" "pooled P ca c p se' w w1"
    using close_room [OF pl] by (auto simp: pool_full_def)
  have cn: "connecting api (pool_with P c w) cb d w1"
    using w1(2) d key del pooled_live(1) [OF w1(2) rel live alone loc] by (simp add: connecting_def pooled_def)
  have "size_of (ck_pool_key d) w1 = size_of (ck_pool_key d) w" using w1(2) by (simp add: pooled_def)
  then have lim: "0 < pool_limit d w1" using d(3) by (simp only: pool_limit_def)
  note ex = pooled_expiry [OF w1(2) rel live alone loc]
  let ?A = "aged_pool w P" and ?k = "bucket ?key"
  obtain w2 d' where r: "connect_pooled env' api (Suc f) resume host port cb w1 = Some (Ret [LBool True], w2)" "w_coks w2 cb = Some d'"
    "ck_status d' = 2" "fd_of w1 (w_brk w) = Some (ck_fd d')" "ptr_of w1 (w_brk w) = ck_ptr d'" "cnt_ok w2"
    "\<forall>j. count_of j w2 = left_count j w P" "opens w1 w2 = []" "closes w1 w2 = expired_fds w P"
    and at: "pool_at w2 (upd2 (pool_with ?A c w) (cur_gen w1) ?k (remove1 (w_brk w) (pool_with ?A c w (cur_gen w1) ?k)))"
    using connect_idle [OF cn lim, of "w_brk w" "[]" env' f resume host port] pooled_candidate(1) [OF w1(2) rel none] d(2) unfolding ex by auto
  have "w_brk w \<notin> set (P i j)" for i j using pooled_same(1) [OF w1(2) rel] by (metis idle_nodesI)
  then have "w_brk w \<notin> set (?A i j)" for i j by (auto simp: aged_pool_def aged_def)
  moreover have "cur_gen w1 = cur_gen w" using w1(2) by (simp add: pooled_def cur_gen_def)
  ultimately have "upd2 (pool_with ?A c w) (cur_gen w1) ?k (remove1 (w_brk w) (pool_with ?A c w (cur_gen w1) ?k)) = ?A"
    by (intro ext) (auto simp: upd2_apply remove1_append)
  with at have "pool_at w2 ?A" by simp
  moreover have "count_of ?key w2 = count_of ?key w"
    using r(7) ex(2) [of ?key] pooled_candidate(2) [OF w1(2) rel none] w1(2) by (simp add: pooled_def)
  ultimately show ?thesis
    using w1 r pooled_live(2) [OF w1(2) rel live alone loc] by (auto simp: pooled_def)
qed

section \<open>Keeping a connection alive under another key\<close>

text \<open>\<open>setkeepalive\<close> finds the counter of the old key and raises its size; no count changes.\<close>

lemma keepalive_counter:
  assumes "cnt_ok w"
  shows "\<exists>pc brk cs h h'. get_connection_pool_counter key w = Some (pc, w\<lparr>w_brk := brk, w_counters := cs, w_cnodes := h\<rparr>)
     \<and> w_brk w \<le> brk \<and> poke pc (\<lambda>n. if sz > pc_size n then n\<lparr>pc_size := sz\<rparr> else n) h = Some h'
     \<and> cnt_ok (w\<lparr>w_brk := brk, w_counters := cs, w_cnodes := h'\<rparr>)
     \<and> (\<forall>j. count_of j (w\<lparr>w_brk := brk, w_counters := cs, w_cnodes := h'\<rparr>) = count_of j w)"
proof -
  obtain pc brk cs h n C where g: "get_connection_pool_counter key w = Some (pc, w\<lparr>w_brk := brk, w_counters := cs, w_cnodes := h\<rparr>)"
    and rel: "cnt_rel (w\<lparr>w_brk := brk, w_counters := cs, w_cnodes := h\<rparr>) C" "pc \<in> set (C (bucket key))" "w_brk w \<le> brk"
    and n: "h pc = Some n" "pc_pool_key n = key" "counter_of key (w\<lparr>w_brk := brk, w_counters := cs, w_cnodes := h\<rparr>) = Some n"
    and counts: "\<forall>j. count_of j (w\<lparr>w_brk := brk, w_counters := cs, w_cnodes := h\<rparr>) = count_of j w"
    using get_counter_counts [OF assms, of key] by blast
  let ?w1 = "w\<lparr>w_brk := brk, w_counters := cs, w_cnodes := h\<rparr>"
  let ?n = "n\<lparr>pc_count := pc_count n, pc_size := max sz (pc_size n)\<rparr>"
  let ?w2 = "w\<lparr>w_brk := brk, w_counters := cs, w_cnodes := h(pc \<mapsto> ?n)\<rparr>"
  have n': "w_cnodes ?w1 pc = Some n" using n(1) by simp
  note set = cnt_rel_set_count [OF rel(1,2) n' n(2), where c = "pc_count n" and sz = "max sz (pc_size n)"]
  have w2: "?w1\<lparr>w_cnodes := (w_cnodes ?w1)(pc \<mapsto> ?n)\<rparr> = ?w2" by simp
  have "poke pc (\<lambda>n. if sz > pc_size n then n\<lparr>pc_size := sz\<rparr> else n) h = Some (h(pc \<mapsto> ?n))"
    using n(1) by (auto simp: poke_def max_def)
  moreover have "cnt_ok ?w2" using set(1) unfolding w2 cnt_ok_def by blast
  moreover have "count_of j ?w2 = count_of j ?w1" for j
    using set(2,3) n(3) unfolding w2 by (cases "j = key") (simp_all add: count_of_def)
  ultimately show ?thesis using g rel(3) counts
    by (intro exI [of _ pc] exI [of _ brk] exI [of _ cs] exI [of _ h] exI [of _ "h(pc \<mapsto> ?n)"]) (simp only: simp_thms)
qed

text \<open>
  \<open>setkeepalive\<close> with a pool name moves an open connection to the key of that name but leaves it
  counted on the old key, which nothing ever counts off again, while the new key never counted
  it: either the connection is pooled under a key whose counter does not include it, or, if
  that pool is full, it is closed and the counter of the new key loses a connection it did not have.
\<close>

theorem setkeepalive_miscounts:
  assumes own: "owns ca c p sp w" "cnt_ok w" "pool_at w P" "ne_malloc env"
    and watch: "\<forall>h. fst (api_se_be_read api (Some p) H_be_close h) \<noteq> - 1"
    and n: "n = clamp_size (int_of_number x)" "1 \<le> n"
    and key: "key' = ucast (ne_fnv1a_32 env name)" "key' \<noteq> ck_pool_key c" "key' \<noteq> 0"
  shows "\<exists>w'. lua_co_setkeepalive lib env api [LUserdata ca, LNumber x, LString name] w = Some (Ret [LBool True], w') \<and> cnt_ok w'
     \<and> count_of (ck_pool_key c) w' = count_of (ck_pool_key c) w
     \<and> (if pool_full (w_pnodes w) key' n 0 (P (cur_gen w) (bucket key'))
        then closes w w' = [ck_fd c] \<and> count_of key' w' = count_of key' w - 1
        else closes w w' = [] \<and> count_of key' w' = count_of key' w \<and> (\<exists>m. ptr_of w' m = Some p \<and> pkey (w_pnodes w') m = Some key'))"
proof -
  let ?c = "c\<lparr>ck_pool_size := n, ck_pool_key := key'\<rparr>"
  have cok: "w_coks w ca = Some c" using own(1) by (simp add: owns_def)
  obtain pc brk cs h h' where g: "get_connection_pool_counter (ck_pool_key c) w = Some (pc, w\<lparr>w_brk := brk, w_counters := cs, w_cnodes := h\<rparr>)"
    "w_brk w \<le> brk" "poke pc (\<lambda>m. if word_of_int n > pc_size m then m\<lparr>pc_size := word_of_int n\<rparr> else m) h = Some h'"
    and cnt: "cnt_ok (w\<lparr>w_brk := brk, w_counters := cs, w_cnodes := h'\<rparr>)"
      "\<forall>j. count_of j (w\<lparr>w_brk := brk, w_counters := cs, w_cnodes := h'\<rparr>) = count_of j w"
    using keepalive_counter [OF own(2), of "ck_pool_key c" "word_of_int n"] by blast
  let ?w1 = "put_cok ca ?c (w\<lparr>w_brk := brk, w_counters := cs, w_cnodes := h'\<rparr>)"
  have run: "lua_co_setkeepalive lib env api [LUserdata ca, LNumber x, LString name] w
      = map_option (Pair (Ret [LBool True])) (lua_co_close_cok env api ca ?w1)"
    using cok g(1,3) n(1) key(1)
    by (simp add: lua_co_setkeepalive_def c_defs Let_def numeral_2_eq_2 numeral_3_eq_3 cong: if_cong)
      (simp add: map_option_case split: option.split)
  obtain r se' where "r \<noteq> - 1" "api_se_be_read api (Some p) H_be_close
      ((w_se ?w1)(p \<mapsto> sp\<lparr>sp_fd := ck_fd c, sp_data := DPool (w_brk ?w1)\<rparr>)) = (r, se')"
    using watch by (metis fst_conv surj_pair)
  then have pl: "poolable env api P ca ?c p sp se' ?w1"
    using own n(2) cnt(1) pool_rel_mono [OF own(3) g(2)] by (auto simp: poolable_def owns_def)
  have same: "closes ?w1 v = closes w v" "cur_gen ?w1 = cur_gen w" for v by (simp_all add: closes_def cur_gen_def)
  show ?thesis
  proof (cases "pool_full (w_pnodes w) key' n 0 (P (cur_gen w) (bucket key'))")
    case True
    then obtain w' where "lua_co_close_cok env api ca ?w1 = Some w'" "closes ?w1 w' = [ck_fd c]" "cnt_ok w'" "one_less key' ?w1 w'"
      using close_full [OF pl] same(2) by auto
    with True key same cnt(2) show ?thesis unfolding run by (auto simp: one_less_def)
  next
    case False
    then obtain w' where "lua_co_close_cok env api ca ?w1 = Some w'" "pooled P ca ?c p se' ?w1 w'"
      using close_room [OF pl] same(2) by auto
    with False same cnt(2) show ?thesis unfolding run by (auto simp: pooled_def simp del: map_option_eq_Some)
  qed
qed

section \<open>Concrete states\<close>

theorem close_then_connect_witness:
  "\<exists>w1 w2 d'. lua_co_close_cok demo_env demo_api 20 (demo_net demo_keeper) = Some w1 \<and> closes (demo_net demo_keeper) w1 = []
     \<and> connect_pooled demo_env demo_api 1 (\<lambda>_ _ w. (0, w)) ''a'' 80 20 w1 = Some (Ret [LBool True], w2)
     \<and> w_coks w2 20 = Some d' \<and> ck_fd d' = 5 \<and> ck_ptr d' = Some 30 \<and> closes w1 w2 = []"
proof -
  obtain se' where se: "poolable demo_env demo_api no_idle 20 demo_keeper 30 \<lparr>sp_fd = 5, sp_data = DCok 20, sp_rfunc = None, sp_wfunc = None\<rparr> se' (demo_net demo_keeper)"
    "watch_local 30 (ck_fd demo_keeper) (w_se (demo_net demo_keeper)) se'"
    using demo_poolable demo_keeper_simps(4) by (auto simp: watch_local_def)
  have none: "no_idle_of (ck_pool_key demo_keeper) no_idle (demo_net demo_keeper)" "Some 30 \<notin> ptr_of (demo_net demo_keeper) ` idle_nodes no_idle"
    by (simp_all add: no_idle_of_def idle_nodes_def)
  have "size_of 7 (demo_net demo_keeper) = 0" by (simp add: size_of_def counter_of_def demo_net_def world0_def)
  then have d: "((w_coks (demo_net demo_keeper))(20 \<mapsto> closed_cok demo_keeper)) 20 = Some (closed_cok demo_keeper)"
    "ck_pool_key (closed_cok demo_keeper) = ck_pool_key demo_keeper" "0 < pool_limit (closed_cok demo_keeper) (demo_net demo_keeper)"
    "ck_ssl_pw (closed_cok demo_keeper) \<noteq> Garbage" "ck_pool_key demo_keeper \<noteq> 0"
    by (simp_all add: closed_cok_def pool_limit_def demo_sock_def)
  from close_then_connect [OF se(1) demo_delete_local no_idle_live none(2) se(2) none(1) d(5,1-4), of demo_env 0 "\<lambda>_ _ w. (0, w)" "''a''" 80]
  show ?thesis using demo_keeper_simps(4) by (auto simp: One_nat_def [symmetric] expired_fds_def simp del: One_nat_def)
qed

theorem setkeepalive_miscounts_witness:
  "\<exists>w' m. lua_co_setkeepalive demo_lib (demo_env\<lparr>ne_fnv1a_32 := \<lambda>_. 8\<rparr>) demo_api [LUserdata 20, LNumber 2, LString ''pool''] (demo_net demo_keeper)
       = Some (Ret [LBool True], w') \<and> closes (demo_net demo_keeper) w' = [] \<and> count_of 8 w' = 0 \<and> pkey (w_pnodes w') m = Some 8"
proof -
  let ?env = "demo_env\<lparr>ne_fnv1a_32 := \<lambda>_. 8\<rparr>"
  have "\<forall>h. fst (api_se_be_read demo_api (Some 30) H_be_close h) \<noteq> - 1" by (simp add: demo_api_def)
  moreover have "ne_malloc ?env" "(8::u64) = ucast (ne_fnv1a_32 ?env ''pool'')" "(8::u64) \<noteq> ck_pool_key demo_keeper"
    "2 = clamp_size (int_of_number 2)"
    using int_of_number_int [of 2] by (simp_all add: demo_keeper_simps demo_env_def clamp_size_def)
  moreover have "count_of 8 (demo_net demo_keeper) = 0" by (simp add: count_of_def counter_of_def demo_net_def world0_def)
  ultimately show ?thesis
    using setkeepalive_miscounts [OF demo_owns demo_net_cnt demo_keeper_simps(8), of ?env demo_api 2 2 8 "''pool''" 2 demo_lib]
    by (auto simp: pool_full_def same_key_def simp del: map_option_eq_Some)
qed

end
