(* ===== verification/Pool_Inv.thy ===== *)
theory Pool_Inv
  imports Pool_Cycle
begin

text \<open>
  The pool as a state machine: the operations that change the idle connections, the counters and
  the queue of waiting sockets, in any order and interleaved with anything else the program does.
  In every state reached this way the chained buckets are well formed, no node is in two of them,
  every idle node has a live registration of its own, and a lookup returns without touching a
  freed node.
\<close>

section \<open>The invariant\<close>

definition pool_ok :: "world \<Rightarrow> bool" where
  "pool_ok w \<longleftrightarrow> (\<exists>P. pool_at w P \<and> live w (idle_nodes P)) \<and> cnt_ok w \<and> (\<exists>Q. wait_rel w Q)"

text \<open>The parts the invariant talks about.\<close>

definition same_pool :: "world \<Rightarrow> world \<Rightarrow> bool" where
  "same_pool w w' \<longleftrightarrow> w_pool w' = w_pool w \<and> w_pnodes w' = w_pnodes w \<and> w_counters w' = w_counters w
     \<and> w_cnodes w' = w_cnodes w \<and> same_wait w w' \<and> w_brk w \<le> w_brk w'"

text \<open>The registrations the idle nodes refer to are as they were.\<close>

definition keeps_idle :: "world \<Rightarrow> world \<Rightarrow> bool" where
  "keeps_idle w w' \<longleftrightarrow> (\<forall>a n q. w_pnodes w a = Some n \<longrightarrow> cp_ptr n = Some q \<longrightarrow> w_se w' q = w_se w q)"

lemma live_cong:
  assumes "live w A" and "\<And>a. a \<in> A \<Longrightarrow> ptr_of w' a = ptr_of w a \<and> fd_of w' a = fd_of w a"
  shows "live w' A"
  using assms by (auto simp: live_def inj_on_def)

lemma fd_of_cong:
  assumes "ptr_of w' a = ptr_of w a" and "\<And>q. ptr_of w a = Some q \<Longrightarrow> w_se w' q = w_se w q"
  shows "fd_of w' a = fd_of w a"
  using assms by (cases "ptr_of w a") (auto simp: fd_of_def)

lemma live_frame: "w_pnodes w' = w_pnodes w \<Longrightarrow> w_se w' = w_se w \<Longrightarrow> live w A \<Longrightarrow> live w' A"
  by (erule live_cong) (metis fd_of_cong ptr_of_def)

lemma pool_ok_other:
  assumes "pool_ok w" and "same_pool w w'" and "keeps_idle w w'"
  shows "pool_ok w'"
proof -
  obtain P Q where as: "pool_at w P" "live w (idle_nodes P)" "cnt_ok w" "wait_rel w Q"
    using assms(1) by (auto simp: pool_ok_def)
  have same: "w_pool w' = w_pool w" "w_pnodes w' = w_pnodes w" "w_counters w' = w_counters w" "w_cnodes w' = w_cnodes w"
    "w_brk w \<le> w_brk w'" "same_wait w w'" using assms(2) by (simp_all add: same_pool_def)
  have p: "ptr_of w' a = ptr_of w a" for a using same(2) by (simp add: ptr_of_def)
  have "w_se w' q = w_se w q" if "ptr_of w a = Some q" for a q
    using assms(3) that by (auto simp: keeps_idle_def ptr_of_def split: option.splits)
  then have "live w' (idle_nodes P)" using p fd_of_cong by (intro live_cong [OF as(2)]) blast
  moreover have "pool_at w' P" using pool_rel_mono [OF as(1) same(5)] same(1,2) by simp
  moreover have "wait_rel w' Q" using same by (intro wait_rel_mono [OF as(4)]) (simp_all add: same_wait_def)
  ultimately show ?thesis using cnt_frame(1) [OF same(3,4,5) as(3)] unfolding pool_ok_def by blast
qed

section \<open>Each operation keeps it\<close>

lemma pool_at_unique: "pool_at w P \<Longrightarrow> pool_at w P' \<Longrightarrow> P = P'"
  by (intro ext) (rule dseg_unique [OF pool_chain(1) pool_chain(1)])

lemma live_less:
  assumes "live w A" and "B \<subseteq> A" and "\<And>b. b \<in> B \<Longrightarrow> ptr_of w' b = ptr_of w b"
    and "\<And>b q. b \<in> B \<Longrightarrow> ptr_of w b = Some q \<Longrightarrow> w_se w' q = w_se w q"
  shows "live w' B"
  using live_cong [OF live_mono [OF assms(1,2)]] fd_of_cong assms(3,4) by blast

lemma idle_nodes_remove:
  assumes "pool_at w P" and "a \<in> set (P g k)"
  shows "idle_nodes (upd2 P g k (remove1 a (P g k))) \<subseteq> idle_nodes P - {a}"
proof
  fix b assume "b \<in> idle_nodes (upd2 P g k (remove1 a (P g k)))"
  then obtain i j where b: "b \<in> set (upd2 P g k (remove1 a (P g k)) i j)" by (auto simp: idle_nodes_iff)
  have d: "distinct (P g k)" using pool_chain(3) [OF assms(1)] .
  show "b \<in> idle_nodes P - {a}"
  proof (cases "i = g \<and> j = k")
    case True
    then show ?thesis using b d by (auto simp: upd2_apply idle_nodes_iff)
  next
    case False
    then have "b \<in> set (P i j)" using b by (simp add: upd2_apply split: if_splits)
    with pool_rel_unique [OF assms] False show ?thesis by (auto simp: idle_nodes_iff)
  qed
qed

lemma take_keeps:
  assumes ok: "pool_ok w" and ready: "ssl_ready ca w" and run: "take_conn g key ca w = Some (r, w')"
  shows "pool_ok w'"
proof -
  obtain P Q where as: "pool_at w P" "live w (idle_nodes P)" "cnt_ok w" "wait_rel w Q"
    using ok by (auto simp: pool_ok_def)
  note t = take_conn_ok [OF as(1) ready, where key = key and g = g]
  show ?thesis
  proof (cases "find (\<lambda>a. pkey (w_pnodes w) a = Some key) (P g (bucket key))")
    case None
    with t run ok show ?thesis by simp
  next
    case (Some a)
    let ?P = "upd2 P g (bucket key) (remove1 a (P g (bucket key)))"
    have a: "a \<in> set (P g (bucket key))" using Some by (auto simp: find_Some_iff)
    have n: "pool_at w' ?P" "\<forall>b. b \<noteq> a \<longrightarrow> map_option pdata (w_pnodes w' b) = map_option pdata (w_pnodes w b)"
      "w_se w' = w_se w" "w_brk w' = w_brk w" "w_counters w' = w_counters w" "w_cnodes w' = w_cnodes w"
      using t run Some by auto
    have "live w' (idle_nodes ?P)"
    proof (rule live_less [OF as(2)])
      show "idle_nodes ?P \<subseteq> idle_nodes P" using idle_nodes_remove [OF as(1) a] by blast
      show "ptr_of w' b = ptr_of w b" if "b \<in> idle_nodes ?P" for b
        using idle_nodes_remove [OF as(1) a] that n(2) by (intro of_pdata(3)) blast
    qed (simp add: n(3))
    moreover have "wait_rel w' Q"
      using take_conn_wait [OF run] n(4) by (intro wait_rel_mono [OF as(4)]) (simp_all add: same_wait_def)
    ultimately show ?thesis using n(1) cnt_frame(1) [OF n(5,6) _ as(3)] n(4) unfolding pool_ok_def by auto
  qed
qed

lemma take_conn_miss:
  assumes "pool_ok w" and "ssl_ready ca w" and "take_conn g key ca w = Some (None, w')"
  shows "ssl_ready ca w'"
proof -
  obtain P where P: "pool_at w P" "live w (idle_nodes P)" using assms(1) by (auto simp: pool_ok_def)
  note t = take_conn_ok [OF P(1) assms(2), where key = key and g = g]
  show ?thesis
  proof (cases "find (\<lambda>a. pkey (w_pnodes w) a = Some key) (P g (bucket key))")
    case None
    with t assms show ?thesis by simp
  next
    case (Some a)
    then have "a \<in> set (P g (bucket key))" by (auto simp: find_Some_iff simp del: map_option_eq_Some)
    then have "a \<in> idle_nodes P" by (rule idle_nodesI)
    then have "ptr_of w a \<noteq> None" using P(2) by (auto simp: live_def fd_of_def split: option.splits)
    with t assms(3) Some show ?thesis by (auto simp: ptr_of_def)
  qed
qed

lemma aged_nodes:
  "b \<in> set (aged w p q I P i j) \<Longrightarrow> (b \<in> set (P q j) \<and> young w b) \<or> (b \<in> set (P i j) \<and> (i \<noteq> q \<or> j \<notin> I))"
  by (auto simp: aged_def split: if_splits)

lemma clear_keeps:
  assumes ok: "pool_ok w" and loc: "se_delete_local api" and p: "p = cur_gen w" and q: "q = (cur_gen w + 1) mod 2"
  shows "\<exists>w'. clear_buckets api p q all_buckets w = Some w' \<and> pool_ok w' \<and> w_coks w' = w_coks w"
proof -
  obtain P Q where as: "pool_at w P" "live w (idle_nodes P)" "cnt_ok w" "wait_rel w Q"
    using ok by (auto simp: pool_ok_def)
  have pq: "p < 2" "q < 2" "p \<noteq> q" using cur_gen_less p q by auto
  let ?P = "aged w p q (set all_buckets) P" and ?old = "concat (map (P q) all_buckets)"
  obtain w' where w': "clear_buckets api p q all_buckets w = Some w'" "cleared w ?old w'" "pool_at w' ?P"
    using clear_buckets_ok [OF as(1) pq as(2,3) loc, of all_buckets] by auto
  have sub: "set ?old \<subseteq> idle_nodes P" by (auto intro: idle_nodesI)
  have "idle_nodes ?P \<subseteq> idle_nodes P - {a \<in> set ?old. \<not> young w a}"
  proof
    fix b assume "b \<in> idle_nodes ?P"
    then obtain i j where b: "b \<in> set (?P i j)" by (auto simp: idle_nodes_iff)
    then consider "b \<in> set (P q j)" "young w b" | "b \<in> set (P i j)" "i \<noteq> q \<or> j \<notin> set all_buckets"
      using aged_nodes [OF b] by blast
    then show "b \<in> idle_nodes P - {a \<in> set ?old. \<not> young w a}"
    proof cases
      case 1
      then show ?thesis by (auto intro: idle_nodesI)
    next
      case 2
      then have "b \<notin> set (P q k)" if "k \<in> set all_buckets" for k using pool_rel_unique [OF as(1) 2(1), of q k] that by blast
      then have "b \<notin> set ?old" by (simp del: set_upt upt.simps)
      with 2 show ?thesis by (auto intro: idle_nodesI)
    qed
  qed
  then have "live w' (idle_nodes ?P)" using live_mono [OF cleared_live [OF w'(2) as(2) sub]] by blast
  moreover have "wait_rel w' Q" using w'(2) wait_rel_other [OF _ _ as(4)] by (auto simp: cleared_def)
  ultimately show ?thesis using w' unfolding pool_ok_def by (auto simp: cleared_def other_parts_def)
qed

lemma lookup_keeps:
  assumes ok: "pool_ok w" and loc: "se_delete_local api" and key: "key \<noteq> 0" and ready: "ssl_ready ca w"
  shows "\<exists>r w'. get_connection_in_pool (Suc f) api resume key ca w = Some (r, w') \<and> pool_ok w'"
proof -
  let ?p = "cur_gen w" and ?q = "(cur_gen w + 1) mod 2"
  obtain P where as: "pool_at w P" "live w (idle_nodes P)" "cnt_ok w" using ok by (auto simp: pool_ok_def)
  obtain r w' where run: "get_connection_in_pool (Suc f) api resume key ca w = Some (r, w')"
    using get_connection_ok [OF as loc key ready refl refl refl, of f resume] by (auto split: option.splits)
  obtain w1 where w1: "clear_buckets api ?p ?q all_buckets w = Some w1" "pool_ok w1" "w_coks w1 = w_coks w"
    using clear_keeps [OF ok loc refl refl] by blast
  have ready1: "ssl_ready ca w1" using ready ssl_ready_frame [OF w1(3)] by simp
  obtain r2 w2 where w2: "take_conn ?p key ca w1 = Some (r2, w2)"
    and last: "(r2 \<noteq> None \<and> w' = w2) \<or> (r2 = None \<and> (\<exists>r'. take_conn ?q key ca w2 = Some (r', w')))"
    using run key w1(1) cur_gen_less(3) [of w] by (auto simp: Let_def split: option.splits if_splits)
  have ok2: "pool_ok w2" by (rule take_keeps [OF w1(2) ready1 w2])
  from last show ?thesis
  proof
    assume "r2 \<noteq> None \<and> w' = w2"
    then show ?thesis using run ok2 by blast
  next
    assume miss: "r2 = None \<and> (\<exists>r'. take_conn ?q key ca w2 = Some (r', w'))"
    then have "ssl_ready ca w2" using take_conn_miss [OF w1(2) ready1] w2 by blast
    then show ?thesis using run take_keeps [OF ok2] miss by blast
  qed
qed

lemma close_keeps:
  assumes ok: "pool_ok w" and loc: "se_delete_local api" and sp: "w_se w p = Some sp" "sp_data sp = DPool a"
    and rel: "pool_at w P" "a \<in> idle_nodes P"
  shows "\<exists>w'. cosocket_be_close api p w = Some w' \<and> pool_ok w'"
proof -
  obtain P' Q where as: "pool_at w P'" "live w (idle_nodes P')" "cnt_ok w" "wait_rel w Q"
    using ok by (auto simp: pool_ok_def)
  have P': "P' = P" by (rule pool_at_unique [OF as(1) rel(1)])
  obtain g k where a: "a \<in> set (P g k)" using rel(2) by (auto simp: idle_nodes_iff)
  obtain n where n: "w_pnodes w a = Some n" using dseg_alloc [OF pool_chain(1) [OF rel(1)] a] by blast
  let ?P = "upd2 P g k (remove1 a (P g k))"
  obtain w' where w': "cosocket_be_close api p w = Some w'" "pool_at w' ?P" "cnt_ok w'"
    "w_se w' = api_se_delete api (cp_ptr n) (w_se w)" "other_parts w w'" "w_brk w \<le> w_brk w'"
    "\<forall>b. b \<noteq> a \<longrightarrow> map_option pdata (w_pnodes w' b) = map_option pdata (w_pnodes w b)"
    using be_close_ok [OF rel(1) as(3) sp a n, of api] by blast
  note less = idle_nodes_remove [OF rel(1) a]
  have "live w' (idle_nodes ?P)"
  proof (rule live_less [OF as(2) [unfolded P']])
    show "idle_nodes ?P \<subseteq> idle_nodes P" using less by blast
    show "ptr_of w' b = ptr_of w b" if "b \<in> idle_nodes ?P" for b
      using less that w'(7) by (intro of_pdata(3)) blast
    show "w_se w' q = w_se w q" if "b \<in> idle_nodes ?P" "ptr_of w b = Some q" for b q
    proof -
      have "ptr_of w b \<noteq> ptr_of w a" using as(2) less that rel(2) unfolding P' live_def inj_on_def by blast
      then show ?thesis using loc that(2) n w'(4) by (auto simp: se_delete_local_def ptr_of_def)
    qed
  qed
  with w' wait_rel_other [OF w'(5,6) as(4)] show ?thesis unfolding pool_ok_def by blast
qed

text \<open>An open connection that no idle node refers to, and that the event loop accepts to watch.\<close>

definition addable :: "se_api \<Rightarrow> addr \<Rightarrow> se_ptr \<Rightarrow> world \<Rightarrow> bool" where
  "addable api p sp w \<longleftrightarrow> w_se w p = Some sp \<and> 0 \<le> sp_fd sp \<and> (\<forall>a. ptr_of w a \<noteq> Some p)
     \<and> (\<exists>r se'. api_se_be_read api (Some p) H_be_close ((w_se w)(p \<mapsto> sp\<lparr>sp_data := DPool (w_brk w)\<rparr>)) = (r, se')
          \<and> r \<noteq> - 1 \<and> watch_local p (sp_fd sp) (w_se w) se')"

lemma pool_ok_emit: "pool_ok w \<Longrightarrow> pool_ok (emit e w)"
  by (rule pool_ok_other [of w]) (simp_all add: same_pool_def same_wait_def keeps_idle_def)

lemma add_keeps:
  assumes ok: "pool_ok w" and ad: "addable api p sp w"
  shows "\<exists>r w'. add_connection_to_pool api True key psize (Some p) ssl ctx pw w = Some (r, w') \<and> pool_ok w'"
proof -
  obtain P Q where as: "pool_at w P" "live w (idle_nodes P)" "cnt_ok w" "wait_rel w Q"
    using ok by (auto simp: pool_ok_def)
  obtain r se' where reg: "w_se w p = Some sp" "0 \<le> sp_fd sp" "api_se_be_read api (Some p) H_be_close ((w_se w)(p \<mapsto> sp\<lparr>sp_data := DPool (w_brk w)\<rparr>)) = (r, se')"
      "r \<noteq> - 1" "watch_local p (sp_fd sp) (w_se w) se'" and alone: "\<forall>a. ptr_of w a \<noteq> Some p"
    using ad by (auto simp: addable_def)
  let ?g = "cur_gen w" and ?k = "bucket key"
  note add = add_connection_ok [OF as(1) reg(1,2) refl refl refl reg(3,4), of key psize ssl ctx pw]
  show ?thesis
  proof (cases "pool_full (w_pnodes w) key psize 0 (P ?g ?k)")
    case True
    with add pool_ok_emit [OF ok] show ?thesis by auto
  next
    case False
    let ?P = "upd2 P ?g ?k (P ?g ?k @ [w_brk w])"
      and ?w' = "\<lambda>h. w\<lparr>w_brk := Suc (w_brk w), w_pnodes := h, w_pool := upd2 (w_pool w) ?g ?k (case P ?g ?k of [] \<Rightarrow> Some (w_brk w) | a # _ \<Rightarrow> Some a),
          w_se := se', w_trace := w_trace w @ [E_setsockopt (sp_fd sp)]\<rparr>"
    obtain h where h: "add_connection_to_pool api True key psize (Some p) ssl ctx pw w = Some (1, ?w' h)" "pool_at (?w' h) ?P"
      "map_option pdata (h (w_brk w)) = Some (Some p, key, ctx, ssl, (if P ?g ?k = [] then pw else Garbage), 0)"
      "\<forall>b. b \<noteq> w_brk w \<longrightarrow> map_option pdata (h b) = map_option pdata (w_pnodes w b)"
      using add unfolding if_not_P [OF False] Let_def by blast
    obtain w' where w': "add_connection_to_pool api True key psize (Some p) ssl ctx pw w = Some (1, w')"
      "w_pnodes w' = h" "w_se w' = se'" "w_brk w' = Suc (w_brk w)" "w_counters w' = w_counters w" "w_cnodes w' = w_cnodes w" "same_wait w w'"
      "pool_at w' ?P" "map_option pdata (h (w_brk w)) = Some (Some p, key, ctx, ssl, (if P ?g ?k = [] then pw else Garbage), 0)"
      "\<forall>b. b \<noteq> w_brk w \<longrightarrow> map_option pdata (h b) = map_option pdata (w_pnodes w b)"
      using h by (intro that [of "?w' h"]) (simp_all add: same_wait_def del: map_option_eq_Some)
    have new: "ptr_of w' (w_brk w) = Some p" using w'(2,9) by (cases "h (w_brk w)") (simp_all add: ptr_of_def pdata_def)
    have old: "ptr_of w' a = ptr_of w a \<and> fd_of w' a = fd_of w a" if "a \<noteq> w_brk w" for a
    proof -
      have p: "ptr_of w' a = ptr_of w a" using that w'(2,10) by (intro of_pdata(3)) simp
      moreover have "fd_of w' a = fd_of w a" using alone reg(5) w'(3) by (intro fd_of_cong [OF p]) (auto simp: watch_local_def)
      ultimately show ?thesis ..
    qed
    have fresh: "w_brk w \<notin> idle_nodes P" using as(1) by (auto simp: idle_nodes_iff pool_rel_def)
    have "fd_of w' (w_brk w) = Some (sp_fd sp)" using new reg(5) w'(3) by (simp add: fd_of_def watch_local_def)
    moreover have "live w' (idle_nodes P)" using old fresh by (intro live_cong [OF as(2)]) metis
    moreover have "Some p \<notin> ptr_of w' ` idle_nodes P" using old fresh alone by (metis imageE)
    ultimately have "live w' (idle_nodes ?P)" using new fresh by (simp add: live_def idle_nodes_upd2)
    moreover have "wait_rel w' Q" using w'(4,7) by (intro wait_rel_mono [OF as(4)]) (simp_all add: same_wait_def)
    ultimately show ?thesis using w'(1,8) cnt_frame(1) [OF w'(5,6) _ as(3)] w'(4) unfolding pool_ok_def by auto
  qed
qed

lemma count_keeps:
  assumes "pool_ok w"
  shows "\<exists>w'. connection_pool_counter_operate key d w = Some w' \<and> pool_ok w'"
proof -
  obtain P Q where as: "pool_at w P" "live w (idle_nodes P)" "cnt_ok w" "wait_rel w Q"
    using assms by (auto simp: pool_ok_def)
  obtain brk cs h where op: "connection_pool_counter_operate key d w = Some (w\<lparr>w_brk := brk, w_counters := cs, w_cnodes := h\<rparr>)"
    "w_brk w \<le> brk" "cnt_ok (w\<lparr>w_brk := brk, w_counters := cs, w_cnodes := h\<rparr>)"
    using counter_operate_ok [OF as(3), of key d] by blast
  let ?w' = "w\<lparr>w_brk := brk, w_counters := cs, w_cnodes := h\<rparr>"
  have "live ?w' (idle_nodes P)" by (rule live_frame [OF _ _ as(2)]) simp_all
  moreover have "wait_rel ?w' Q" by (rule wait_rel_mono [OF as(4)]) (use op in simp_all)
  moreover have "pool_at ?w' P" using pool_rel_mono [OF as(1) op(2)] by simp
  ultimately show ?thesis using op unfolding pool_ok_def by blast
qed

lemma enqueue_frame:
  "add_waiting_get_connection b ca w = Some (r, w') \<Longrightarrow> w_pool w' = w_pool w \<and> w_pnodes w' = w_pnodes w \<and> w_counters w' = w_counters w
     \<and> w_cnodes w' = w_cnodes w \<and> w_se w' = w_se w \<and> w_brk w \<le> w_brk w'"
  by (auto simp: add_waiting_get_connection_def Let_def split: bind_splits if_splits option.splits)

lemma queue_keeps:
  assumes "pool_ok w" and "wait_rel w' Q" and "w_pool w' = w_pool w \<and> w_pnodes w' = w_pnodes w \<and> w_counters w' = w_counters w
     \<and> w_cnodes w' = w_cnodes w \<and> w_se w' = w_se w \<and> w_brk w \<le> w_brk w'"
  shows "pool_ok w'"
proof -
  obtain P where as: "pool_at w P" "live w (idle_nodes P)" "cnt_ok w" using assms(1) by (auto simp: pool_ok_def)
  have "live w' (idle_nodes P)" by (rule live_frame [OF _ _ as(2)]) (simp_all add: assms(3))
  moreover have "pool_at w' P" using pool_rel_mono [OF as(1)] assms(3) by simp
  ultimately show ?thesis using assms(2,3) cnt_frame(1) [of w' w] as(3) unfolding pool_ok_def by blast
qed

section \<open>The state machine\<close>

text \<open>
  One step: a lookup, adding a connection to the pool, the peer closing an idle one, counting a connection, a
  socket joining or leaving the queue, or any step of the program that touches none of this.
\<close>

inductive pool_step :: "se_api \<Rightarrow> world \<Rightarrow> world \<Rightarrow> bool" for api where
  Lookup: "key \<noteq> 0 \<Longrightarrow> ssl_ready ca w \<Longrightarrow> get_connection_in_pool (Suc f) api resume key ca w = Some (r, w') \<Longrightarrow> pool_step api w w'"
| Add: "addable api p sp w \<Longrightarrow> add_connection_to_pool api True key psize (Some p) ssl ctx pw w = Some (k, w') \<Longrightarrow> pool_step api w w'"
| Peer_close: "w_se w p = Some sp \<Longrightarrow> sp_data sp = DPool a \<Longrightarrow> pool_at w P \<Longrightarrow> a \<in> idle_nodes P
    \<Longrightarrow> cosocket_be_close api p w = Some w' \<Longrightarrow> pool_step api w w'"
| Count: "connection_pool_counter_operate key d w = Some w' \<Longrightarrow> pool_step api w w'"
| Enqueue: "wait_slot ca w = Some i \<Longrightarrow> add_waiting_get_connection True ca w = Some (r, w') \<Longrightarrow> pool_step api w w'"
| Dequeue: "wait_rel w Q \<Longrightarrow> a \<in> set (Q i) \<Longrightarrow> delete_in_waiting_get_connection a w = Some w' \<Longrightarrow> pool_step api w w'"
| Other: "same_pool w w' \<Longrightarrow> keeps_idle w w' \<Longrightarrow> pool_step api w w'"

inductive pool_reachable :: "se_api \<Rightarrow> world \<Rightarrow> bool" for api where
  Start: "pool_reachable api world0"
| Step: "pool_reachable api w \<Longrightarrow> pool_step api w w' \<Longrightarrow> pool_reachable api w'"

lemma pool_ok_start: "pool_ok world0"
proof -
  have "pool_at world0 (\<lambda>_ _. [])" "wait_rel world0 (\<lambda>_. [])" "cnt_rel world0 (\<lambda>_. [])"
    by (simp_all add: world0_def pool_rel_def wait_rel_def bq_def cnt_rel_def last_ptr_def)
  moreover have "live world0 (idle_nodes (\<lambda>_ _. []))" by (simp add: live_def idle_nodes_def)
  ultimately show ?thesis unfolding pool_ok_def cnt_ok_def by blast
qed

lemma pool_step_ok:
  assumes step: "pool_step api w w'" and loc: "se_delete_local api" and ok: "pool_ok w"
  shows "pool_ok w'"
  using step
proof cases
  case (Lookup key ca f resume r)
  then show ?thesis using lookup_keeps [OF ok loc Lookup(1,2), of f resume] by (metis option.inject prod.inject)
next
  case (Add p sp key psize ssl ctx pw k)
  then show ?thesis using add_keeps [OF ok, of api p sp key psize ssl ctx pw] by auto
next
  case (Peer_close p sp a P)
  then show ?thesis using close_keeps [OF ok loc, of p sp a P] by auto
next
  case (Count key d)
  then show ?thesis using count_keeps [OF ok, of key d] by auto
next
  case (Enqueue ca i r)
  obtain Q where "wait_rel w Q" using ok by (auto simp: pool_ok_def)
  then obtain Q' where "wait_rel w' Q'" using add_waiting_rel [of w Q ca i] Enqueue by auto
  then show ?thesis using queue_keeps [OF ok] enqueue_frame [OF Enqueue(2)] by blast
next
  case (Dequeue Q a i)
  obtain hd en h where r: "w' = w\<lparr>w_waiting := hd, w_waiting_end := en, w_wnodes := h\<rparr>" "wait_rel w' (Q(i := remove1 a (Q i)))"
    using delete_waiting_rel [OF Dequeue(1,2)] Dequeue(3) by auto
  then show ?thesis using queue_keeps [OF ok r(2)] by simp
next
  case Other
  then show ?thesis by (rule pool_ok_other [OF ok])
qed

lemma reachable_ok: "pool_reachable api w \<Longrightarrow> se_delete_local api \<Longrightarrow> pool_ok w"
  by (induction rule: pool_reachable.induct) (auto intro: pool_ok_start pool_step_ok)

text \<open>
  (C8) Whatever order the pool is used in, in every reachable state the buckets of idle connections
  are well-formed lists that share no node, every idle node has an open registration of its
  own, the counters hold one node per key and the queues of waiting sockets are consistent.
\<close>

theorem pool_reachable_invariant:
  assumes "pool_reachable api w" and "se_delete_local api"
  shows "pool_ok w"
  using assms by (rule reachable_ok)

text \<open>
  (C9) In every reachable state these run to their end, following no dangling pointer and not looping: a lookup with a key other
  than 0, if the socket it is for (if any) exists and its SSL password is initialised; the return of a live connection that is not
  idle and can be watched, with memory at hand; and the bookkeeping of a counter. A socket that took over a node whose
  password \<open>add_connection_to_pool\<close> left uninitialised does not meet the condition of the lookup.
\<close>

theorem pool_operations_return:
  assumes "pool_reachable api w" and "se_delete_local api"
  shows "(key \<noteq> 0 \<and> ssl_ready ca w \<longrightarrow>
       (\<exists>r w'. get_connection_in_pool (Suc f) api resume key ca w = Some (r, w') \<and> pool_step api w w'))
     \<and> (addable api p sp w \<longrightarrow>
       (\<exists>r w'. add_connection_to_pool api True key' psize (Some p) ssl ctx pw w = Some (r, w') \<and> pool_step api w w'))
     \<and> (\<exists>w'. connection_pool_counter_operate key'' d w = Some w' \<and> pool_step api w w')"
proof (intro conjI impI)
  note ok = reachable_ok [OF assms]
  show "\<exists>r w'. get_connection_in_pool (Suc f) api resume key ca w = Some (r, w') \<and> pool_step api w w'" if "key \<noteq> 0 \<and> ssl_ready ca w"
    using lookup_keeps [OF ok assms(2), of key ca f resume] pool_step.Lookup [of key ca w] that by blast
  show "\<exists>r w'. add_connection_to_pool api True key' psize (Some p) ssl ctx pw w = Some (r, w') \<and> pool_step api w w'" if "addable api p sp w"
    using add_keeps [OF ok that, of key' psize ssl ctx pw] that by (auto intro: pool_step.Add)
  show "\<exists>w'. connection_pool_counter_operate key'' d w = Some w' \<and> pool_step api w w'"
    using count_keeps [OF ok, of key'' d] by (auto intro: pool_step.Count)
qed

section \<open>Concrete states\<close>

lemma demo_pool_reachable: "pool_reachable demo_api (demo_net demo_keeper)"
proof (rule pool_reachable.Step [OF pool_reachable.Start pool_step.Other])
  show "same_pool world0 (demo_net demo_keeper)" by (simp add: same_pool_def same_wait_def demo_net_def world0_def)
  show "keeps_idle world0 (demo_net demo_keeper)" by (simp add: keeps_idle_def world0_def)
qed

lemma demo_addable:
  "addable demo_api 30 \<lparr>sp_fd = 5, sp_data = DCok 20, sp_rfunc = None, sp_wfunc = None\<rparr> (demo_net demo_keeper)"
  by (simp add: addable_def demo_net_def world0_def ptr_of_def demo_api_def watch_local_def)

theorem pool_reachable_invariant_witness:
  "\<exists>r w'. add_connection_to_pool demo_api True 7 2 (Some 30) None None (Init None) (demo_net demo_keeper) = Some (r, w') \<and> pool_ok w'"
proof -
  obtain r w' where run: "add_connection_to_pool demo_api True 7 2 (Some 30) None None (Init None) (demo_net demo_keeper) = Some (r, w')"
    using add_keeps [OF reachable_ok [OF demo_pool_reachable demo_delete_local] demo_addable] by blast
  have "pool_reachable demo_api w'"
    by (rule pool_reachable.Step [OF demo_pool_reachable pool_step.Add [OF demo_addable run]])
  from run pool_reachable_invariant [OF this demo_delete_local] show ?thesis by blast
qed

theorem pool_operations_return_witness:
  "\<exists>r w'. get_connection_in_pool 1 demo_api (\<lambda>_ _ w. (0, w)) 7 (Some 20) (demo_net demo_keeper) = Some (r, w')
     \<and> pool_step demo_api (demo_net demo_keeper) w'"
proof -
  have "ssl_ready (Some 20) (demo_net demo_keeper)"
    by (simp add: ssl_ready_def demo_net_def demo_sock_def cosocket_zero_def)
  with pool_operations_return [OF demo_pool_reachable demo_delete_local, of 7 "Some 20" 0 "\<lambda>_ _ w. (0, w)"]
  show ?thesis by (simp del: get_connection_in_pool.simps)
qed

end
