(* ===== verification/Sleep_Wheel.thy ===== *)
theory Sleep_Wheel
  imports Co_State Dll
begin

text \<open>
  The sleep wheel (\<open>lua-util.c\<close>): 6000 buckets of 10 milliseconds, each a doubly linked list of
  sleeping coroutines. \<open>now_4sleep\<close> is the bucket time processed next, \<open>l_now\<close> the current
  time in units of 10 milliseconds. The clock (\<open>longtime()\<close>) is the component \<open>sw_ms\<close>;
  resuming a coroutine may let time pass and may put coroutines to sleep, so it is a
  parameter that acts on the whole state.
\<close>

record sleep_node =
  sn_L :: "lthread option"
  sn_timeout :: nat
  sn_uper :: ptr
  sn_next :: ptr

record sleep_world =
  sw_ms :: nat
  sw_brk :: addr
  sw_links :: "nat \<Rightarrow> ptr"
  sw_link_ends :: "nat \<Rightarrow> ptr"
  sw_nodes :: "addr \<Rightarrow> sleep_node option"
  sw_now4sleep :: nat
  sw_lnow :: nat
  sw_woken :: "(lthread \<times> nat \<times> nat) list" \<comment> \<open>coroutines resumed: which, its timeout, the time\<close>

definition TIME_BUCKET_SIZE :: nat where "TIME_BUCKET_SIZE = 6000"

type_synonym sleep_resume = "lthread \<Rightarrow> sleep_world \<Rightarrow> sleep_world"

section \<open>Operations\<close>

text \<open>The bucket of a node; its C expression is \<open>timeout % TIME_BUCKET_SIZE\<close>.\<close>

definition sn_slot :: "sleep_node \<Rightarrow> nat" where
  "sn_slot n = sn_timeout n mod TIME_BUCKET_SIZE"

text \<open>\<open>_lua_sleep\<close>; \<open>ok\<close> is whether \<open>malloc\<close> succeeds.\<close>

definition lua_sleep :: "bool \<Rightarrow> lthread \<Rightarrow> nat \<Rightarrow> sleep_world \<Rightarrow> (lua_ret \<times> sleep_world) option" where
  "lua_sleep ok L msec w =
     (if \<not> ok then Some (Ret [], w)
      else do {
        let a = sw_brk w;
        let n = \<lparr>sn_L = Some L, sn_timeout = (sw_ms w + msec) div 10, sn_uper = None, sn_next = None\<rparr>;
        let k = sn_slot n;
        if sw_link_ends w k = None then
          Some (Yield, w\<lparr>sw_brk := Suc a, sw_nodes := (sw_nodes w)(a \<mapsto> n),
                         sw_links := (sw_links w)(k := Some a),
                         sw_link_ends := (sw_link_ends w)(k := Some a)\<rparr>)
        else do {
          e \<leftarrow> sw_link_ends w k;
          h \<leftarrow> poke e (sn_next_update (\<lambda>_. Some a)) ((sw_nodes w)(a \<mapsto> n\<lparr>sn_uper := sw_link_ends w k\<rparr>));
          Some (Yield, w\<lparr>sw_brk := Suc a, sw_nodes := h, sw_link_ends := (sw_link_ends w)(k := Some a)\<rparr>) } })"

text \<open>\<open>lua_f_sleep\<close>: below one millisecond the coroutine only gives way (\<open>swop\<close>).\<close>

datatype sleep_call = Sleep_nothing | Sleep_swop | Sleep_ms nat

definition lua_f_sleep :: "lua_lib \<Rightarrow> lua_value list \<Rightarrow> sleep_call" where
  "lua_f_sleep lib st =
     (if \<not> lua_isnumber lib st 1 then Sleep_nothing
      else let msec = int_of_number (lua_tonumber lib st 1)
           in if msec < 1 then Sleep_swop else Sleep_ms (nat msec))"

text \<open>Taking a node out of bucket \<open>k\<close> and freeing it.\<close>

definition sleep_unlink :: "nat \<Rightarrow> addr \<Rightarrow> sleep_node \<Rightarrow> sleep_world \<Rightarrow> sleep_world option" where
  "sleep_unlink k a n w = do {
     h \<leftarrow> poke_if (sn_uper n) (sn_next_update (\<lambda>_. sn_next n)) (sw_nodes w);
     let lk = (if sn_uper n = None then (sw_links w)(k := sn_next n) else sw_links w);
     h \<leftarrow> poke_if (sn_next n) (sn_uper_update (\<lambda>_. sn_uper n)) h;
     let en = (if sn_next n = None then (sw_link_ends w)(k := sn_uper n) else sw_link_ends w);
     Some (w\<lparr>sw_nodes := h(a := None), sw_links := lk, sw_link_ends := en\<rparr>) }"

definition wake :: "sleep_resume \<Rightarrow> sleep_node \<Rightarrow> sleep_world \<Rightarrow> sleep_world" where
  "wake resume n w = (case sn_L n of
     None \<Rightarrow> w
   | Some L \<Rightarrow> let w = resume L (w\<lparr>sw_woken := sw_woken w @ [(L, sn_timeout n, sw_lnow w)]\<rparr>)
               in w\<lparr>sw_lnow := sw_ms w div 10\<rparr>)"

text \<open>The inner loop: \<open>m\<close> walks the bucket; the successor is read before the node is freed.\<close>

fun run_bucket :: "nat \<Rightarrow> sleep_resume \<Rightarrow> nat \<Rightarrow> ptr \<Rightarrow> sleep_world \<Rightarrow> sleep_world option" where
  "run_bucket f resume k None w = Some w"
| "run_bucket 0 resume k (Some a) w = None"
| "run_bucket (Suc f) resume k (Some a) w =
     (case sw_nodes w a of
        None \<Rightarrow> None
      | Some n \<Rightarrow>
          if sw_lnow w \<ge> sn_timeout n then
            (case sleep_unlink k a n w of
               None \<Rightarrow> None
             | Some w' \<Rightarrow> run_bucket f resume k (sn_next n) (wake resume n w'))
          else run_bucket f resume k (sn_next n) w)"

text \<open>The outer \<open>do \<dots> while\<close>: the bucket, then one step of \<open>now_4sleep\<close> up to \<open>l_now\<close>.\<close>

fun run_wheel :: "nat \<Rightarrow> sleep_resume \<Rightarrow> sleep_world \<Rightarrow> sleep_world option" where
  "run_wheel 0 resume w = None"
| "run_wheel (Suc f) resume w =
     (let k = sw_now4sleep w mod TIME_BUCKET_SIZE
      in case run_bucket f resume k (sw_links w k) w of
           None \<Rightarrow> None
         | Some w \<Rightarrow>
             let w = (if sw_now4sleep w < sw_lnow w then w\<lparr>sw_now4sleep := sw_now4sleep w + 1\<rparr> else w)
             in if sw_now4sleep w < sw_lnow w then run_wheel f resume w else Some w)"

text \<open>On the first call \<open>now_4sleep\<close> starts five buckets in the past (as an \<open>unsigned long\<close>).\<close>

definition check_lua_sleep_timeouts :: "nat \<Rightarrow> sleep_resume \<Rightarrow> sleep_world \<Rightarrow> sleep_world option" where
  "check_lua_sleep_timeouts f resume w =
     (let w = w\<lparr>sw_lnow := sw_ms w div 10\<rparr>;
          w = (if sw_now4sleep w = 0 then w\<lparr>sw_now4sleep := (sw_lnow w + 2 ^ 64 - 5) mod 2 ^ 64\<rparr> else w)
      in run_wheel f resume w)"

section \<open>The wheel refines one list of sleepers per bucket\<close>

interpretation sleep_dll: dll_bucket sn_next sn_uper
    "\<lambda>p. sn_next_update (\<lambda>_. p)" "\<lambda>p. sn_uper_update (\<lambda>_. p)" sn_slot
  by unfold_locales (simp_all add: sn_slot_def)

definition wheel_rel :: "sleep_world \<Rightarrow> (nat \<Rightarrow> addr list) \<Rightarrow> bool" where
  "wheel_rel w Q \<longleftrightarrow> bq sn_next sn_uper sn_slot (sw_links w) (sw_link_ends w) (sw_nodes w) (sw_brk w) Q"

abbreviation sdata :: "sleep_node \<Rightarrow> lthread option \<times> nat" where
  "sdata n \<equiv> (sn_L n, sn_timeout n)"

abbreviation sinfo :: "sleep_world \<Rightarrow> addr \<Rightarrow> (lthread option \<times> nat) option" where
  "sinfo w a \<equiv> map_option sdata (sw_nodes w a)"

text \<open>
  A stretch of the check: the sleepers \<open>D\<close> are gone, the others are as they were and in the
  same order, and those that came since are at the ends of their buckets and sleep beyond
  the current time.
\<close>

definition wheel_done :: "sleep_world \<Rightarrow> (nat \<Rightarrow> addr list) \<Rightarrow> addr set \<Rightarrow> sleep_world \<Rightarrow> (nat \<Rightarrow> addr list) \<Rightarrow> bool" where
  "wheel_done w Q D w' Q' \<longleftrightarrow> wheel_rel w' Q' \<and> sw_brk w \<le> sw_brk w' \<and> sw_ms w' = sw_ms w
     \<and> sw_lnow w' = sw_lnow w \<and> sw_now4sleep w' = sw_now4sleep w
     \<and> (\<forall>k. \<exists>new. Q' k = filter (\<lambda>a. a \<notin> D) (Q k) @ new \<and> (\<forall>a \<in> set new. sw_brk w \<le> a
          \<and> (\<exists>n. sw_nodes w' a = Some n \<and> sw_ms w div 10 < sn_timeout n)))
     \<and> (\<forall>k. \<forall>a \<in> set (Q k). a \<notin> D \<longrightarrow> sinfo w' a = sinfo w a)"

text \<open>
  What a resumed coroutine may do to the wheel: put coroutines to sleep, for at least the
  10 milliseconds of a bucket. Time stands still here, so one check sees one time.
\<close>

definition only_sleeps :: "sleep_resume \<Rightarrow> bool" where
  "only_sleeps resume \<longleftrightarrow> (\<forall>L w Q. wheel_rel w Q \<longrightarrow>
     (\<exists>Q'. wheel_done w Q {} (resume L w) Q') \<and> sw_woken (resume L w) = sw_woken w)"

lemma wheel_rel_brk: "wheel_rel w Q \<Longrightarrow> a \<in> set (Q k) \<Longrightarrow> a < sw_brk w"
  by (auto simp: wheel_rel_def bq_def)

lemma wheel_done_trans:
  assumes d1: "wheel_done w Q D1 w1 Q1" and d2: "wheel_done w1 Q1 D2 w2 Q2" and old: "\<And>a. a \<in> D2 \<Longrightarrow> a < sw_brk w"
  shows "wheel_done w Q (D1 \<union> D2) w2 Q2"
proof -
  have "\<exists>new. Q2 k = filter (\<lambda>a. a \<notin> D1 \<union> D2) (Q k) @ new \<and> (\<forall>a \<in> set new. sw_brk w \<le> a
          \<and> (\<exists>n. sw_nodes w2 a = Some n \<and> sw_ms w div 10 < sn_timeout n))" for k
  proof -
    obtain n1 where n1: "Q1 k = filter (\<lambda>a. a \<notin> D1) (Q k) @ n1"
      "\<forall>a \<in> set n1. sw_brk w \<le> a \<and> (\<exists>n. sw_nodes w1 a = Some n \<and> sw_ms w div 10 < sn_timeout n)"
      using d1 unfolding wheel_done_def by blast
    obtain n2 where n2: "Q2 k = filter (\<lambda>a. a \<notin> D2) (Q1 k) @ n2"
      "\<forall>a \<in> set n2. sw_brk w1 \<le> a \<and> (\<exists>n. sw_nodes w2 a = Some n \<and> sw_ms w1 div 10 < sn_timeout n)"
      using d2 unfolding wheel_done_def by blast
    have keep: "a \<notin> D2" if "a \<in> set n1" for a using n1(2) old [of a] that by auto
    have "\<exists>n. sw_nodes w2 a = Some n \<and> sw_ms w div 10 < sn_timeout n" if "a \<in> set n1" for a
    proof -
      have "a \<in> set (Q1 k)" using n1(1) that by simp
      then have "sinfo w2 a = sinfo w1 a" using d2 keep [OF that] unfolding wheel_done_def by blast
      with n1(2) that show ?thesis by (cases "sw_nodes w2 a") auto
    qed
    with n1 n2 d1 keep show ?thesis
      by (intro exI [of _ "n1 @ n2"]) (auto simp: wheel_done_def filter_id_conv intro: le_trans)
  qed
  moreover have "sinfo w2 a = sinfo w a" if "a \<in> set (Q k)" "a \<notin> D1 \<union> D2" for a k
  proof -
    obtain new where "Q1 k = filter (\<lambda>a. a \<notin> D1) (Q k) @ new" using d1 unfolding wheel_done_def by blast
    then have "a \<in> set (Q1 k)" using that by simp
    then have "sinfo w2 a = sinfo w1 a" using d2 that unfolding wheel_done_def by blast
    also have "\<dots> = sinfo w a" using d1 that unfolding wheel_done_def by blast
    finally show ?thesis .
  qed
  ultimately show ?thesis using d1 d2 unfolding wheel_done_def by auto
qed

text \<open>Putting a coroutine to sleep appends it to its bucket; nobody else moves.\<close>

lemma lua_sleep_rel:
  assumes rel: "wheel_rel w Q" and k: "k = ((sw_ms w + msec) div 10) mod TIME_BUCKET_SIZE"
  shows "\<exists>w'. lua_sleep True L msec w = Some (Yield, w') \<and> wheel_rel w' (Q(k := Q k @ [sw_brk w]))
     \<and> sinfo w' (sw_brk w) = Some (Some L, (sw_ms w + msec) div 10)
     \<and> (\<forall>j. \<forall>a \<in> set (Q j). sinfo w' a = sinfo w a)
     \<and> sw_brk w' = Suc (sw_brk w) \<and> sw_ms w' = sw_ms w \<and> sw_lnow w' = sw_lnow w
     \<and> sw_now4sleep w' = sw_now4sleep w \<and> sw_woken w' = sw_woken w"
proof -
  define n where "n = \<lparr>sn_L = Some L, sn_timeout = (sw_ms w + msec) div 10, sn_uper = None, sn_next = None\<rparr>"
  let ?a = "sw_brk w"
  have n: "sn_slot n = k" "sn_next n = None" "sn_uper n = None" by (simp_all add: n_def sn_slot_def k)
  note rel = rel [unfolded wheel_rel_def]
  have fresh: "?a \<notin> set (Q j)" for j using rel by (rule bq_fresh)
  show ?thesis
  proof (cases "Q k = []")
    case True
    let ?w' = "w\<lparr>sw_brk := Suc ?a, sw_nodes := (sw_nodes w)(?a \<mapsto> n),
        sw_links := (sw_links w)(k := Some ?a), sw_link_ends := (sw_link_ends w)(k := Some ?a)\<rparr>"
    note f = sleep_dll.bq_append_first [OF rel n True]
    have "lua_sleep True L msec w = Some (Yield, ?w')"
      using f(2) n(1) by (simp add: lua_sleep_def Let_def n_def [symmetric])
    with f(3) fresh show ?thesis by (intro exI [of _ ?w']) (auto simp: wheel_rel_def n_def)
  next
    case False
    note f = sleep_dll.bq_append_last [OF rel n(1,2) False]
    obtain h' where h': "poke (last (Q k)) (sn_next_update (\<lambda>_. Some ?a))
        ((sw_nodes w)(?a \<mapsto> n\<lparr>sn_uper := sw_link_ends w k\<rparr>)) = Some h'"
      "bq sn_next sn_uper sn_slot (sw_links w) ((sw_link_ends w)(k := Some ?a)) h' (Suc ?a) (Q(k := Q k @ [?a]))"
      using f(3) by blast
    let ?w' = "w\<lparr>sw_brk := Suc ?a, sw_nodes := h', sw_link_ends := (sw_link_ends w)(k := Some ?a)\<rparr>"
    have data: "map_option sdata (h' b) = map_option sdata (((sw_nodes w)(?a \<mapsto> n\<lparr>sn_uper := sw_link_ends w k\<rparr>)) b)" for b
      by (rule poke_data [OF h'(1)]) simp
    have new: "map_option sdata (h' ?a) = Some (Some L, (sw_ms w + msec) div 10)"
      using data [of ?a] by (simp add: n_def)
    have old: "map_option sdata (h' b) = map_option sdata (sw_nodes w b)" if "b \<in> set (Q j)" for b j
      using data [of b] fresh [of j] that by auto
    have "lua_sleep True L msec w = Some (Yield, ?w')"
      using f(2) n(1) h'(1) by (simp add: lua_sleep_def Let_def n_def [symmetric])
    with h'(2) new old show ?thesis
      by (intro exI [of _ ?w']) (simp add: wheel_rel_def del: map_option_eq_Some)
  qed
qed

lemma sleep_unlink_rel:
  assumes rel: "wheel_rel w Q" and a: "a \<in> set (Q k)" and n: "sw_nodes w a = Some n"
  shows "\<exists>lk en h. sleep_unlink k a n w = Some (w\<lparr>sw_nodes := h, sw_links := lk, sw_link_ends := en\<rparr>)
     \<and> wheel_rel (w\<lparr>sw_nodes := h, sw_links := lk, sw_link_ends := en\<rparr>) (Q(k := remove1 a (Q k)))
     \<and> (\<forall>b. b \<noteq> a \<longrightarrow> map_option sdata (h b) = sinfo w b)"
proof -
  note rel = rel [unfolded wheel_rel_def]
  obtain h1 h2 where h: "poke_if (sn_uper n) (sn_next_update (\<lambda>_. sn_next n)) (sw_nodes w) = Some h1"
    "poke_if (sn_next n) (sn_uper_update (\<lambda>_. sn_uper n)) h1 = Some h2"
    "bq sn_next sn_uper sn_slot (if sn_uper n = None then (sw_links w)(k := sn_next n) else sw_links w)
       (if sn_next n = None then (sw_link_ends w)(k := sn_uper n) else sw_link_ends w)
       (h2(a := None)) (sw_brk w) (Q(k := remove1 a (Q k)))"
    using sleep_dll.bq_unlink(3) [OF rel a n] by blast
  have data: "map_option sdata (h2 b) = sinfo w b" for b
    using poke_if_data [OF h(1), of sdata b] poke_if_data [OF h(2), of sdata b] by simp
  let ?lk = "if sn_uper n = None then (sw_links w)(k := sn_next n) else sw_links w"
    and ?en = "if sn_next n = None then (sw_link_ends w)(k := sn_uper n) else sw_link_ends w"
  have run: "sleep_unlink k a n w = Some (w\<lparr>sw_nodes := h2(a := None), sw_links := ?lk, sw_link_ends := ?en\<rparr>)"
    using h(1,2) by (simp add: sleep_unlink_def Let_def)
  show ?thesis by (intro exI conjI, rule run, unfold wheel_rel_def, use h(3) data in simp_all)
qed

lemma unlink_done:
  assumes rel: "wheel_rel w Q" and a: "a \<in> set (Q k)" and n: "sw_nodes w a = Some n"
  shows "\<exists>w'. sleep_unlink k a n w = Some w' \<and> wheel_done w Q {a} w' (Q(k := remove1 a (Q k)))
     \<and> sw_woken w' = sw_woken w"
proof -
  obtain lk en h where h: "sleep_unlink k a n w = Some (w\<lparr>sw_nodes := h, sw_links := lk, sw_link_ends := en\<rparr>)"
    "wheel_rel (w\<lparr>sw_nodes := h, sw_links := lk, sw_link_ends := en\<rparr>) (Q(k := remove1 a (Q k)))"
    "\<forall>b. b \<noteq> a \<longrightarrow> map_option sdata (h b) = sinfo w b"
    using sleep_unlink_rel [OF assms] by blast
  note bq = rel [unfolded wheel_rel_def]
  have "remove1 a (Q k) = filter (\<lambda>b. b \<notin> {a}) (Q k)"
    using bq_distinct [OF bq, of k]
    by (auto simp: distinct_remove1_removeAll removeAll_filter_not_eq intro: filter_cong)
  moreover have "filter (\<lambda>b. b \<notin> {a}) (Q j) = Q j" if "j \<noteq> k" for j
    using bq_same [OF bq a, of j] that by (auto simp: filter_id_conv)
  ultimately have "wheel_done w Q {a} (w\<lparr>sw_nodes := h, sw_links := lk, sw_link_ends := en\<rparr>) (Q(k := remove1 a (Q k)))"
    using h(2,3) unfolding wheel_done_def by simp
  with h(1) show ?thesis by (intro exI [of _ "w\<lparr>sw_nodes := h, sw_links := lk, sw_link_ends := en\<rparr>"]) simp
qed

lemma wake_done:
  assumes rel: "wheel_rel w Q" and only: "only_sleeps resume" and T: "sw_lnow w = sw_ms w div 10"
  shows "\<exists>Q'. wheel_done w Q {} (wake resume n w) Q'"
    and "sw_woken (wake resume n w) = sw_woken w
       @ (case sn_L n of None \<Rightarrow> [] | Some L \<Rightarrow> [(L, sn_timeout n, sw_lnow w)])"
proof -
  show "\<exists>Q'. wheel_done w Q {} (wake resume n w) Q'"
  proof (cases "sn_L n")
    case None
    with rel show ?thesis by (intro exI [of _ Q]) (simp add: wake_def wheel_done_def)
  next
    case (Some L)
    let ?w = "w\<lparr>sw_woken := sw_woken w @ [(L, sn_timeout n, sw_lnow w)]\<rparr>"
    have "wheel_rel ?w Q" using rel by (simp add: wheel_rel_def)
    then obtain Q' where "wheel_done ?w Q {} (resume L ?w) Q'"
      using only unfolding only_sleeps_def by blast
    with Some T have "wheel_done w Q {} (wake resume n w) Q'"
      by (simp add: wake_def wheel_done_def wheel_rel_def)
    then show ?thesis by blast
  qed
  have rel': "wheel_rel (w\<lparr>sw_woken := x\<rparr>) Q" for x using rel by (simp add: wheel_rel_def)
  have "sw_woken (resume L (w\<lparr>sw_woken := x\<rparr>)) = sw_woken (w\<lparr>sw_woken := x\<rparr>)" for L x
    using only rel' [of x] unfolding only_sleeps_def by blast
  then have woken: "sw_woken (resume L (w\<lparr>sw_woken := x\<rparr>)) = x" for L x by simp
  show "sw_woken (wake resume n w) = sw_woken w
       @ (case sn_L n of None \<Rightarrow> [] | Some L \<Rightarrow> [(L, sn_timeout n, sw_lnow w)])"
    by (simp add: wake_def Let_def woken split: option.split)
qed

section \<open>One check\<close>

definition due :: "sleep_world \<Rightarrow> addr \<Rightarrow> bool" where
  "due w a \<longleftrightarrow> (\<exists>n. sw_nodes w a = Some n \<and> sn_timeout n \<le> sw_ms w div 10)"

text \<open>The record of a resumed sleeper.\<close>

definition woke :: "sleep_world \<Rightarrow> addr \<Rightarrow> (lthread \<times> nat \<times> nat) list" where
  "woke w a = (case sinfo w a of Some (Some L, t) \<Rightarrow> [(L, t, sw_ms w div 10)] | _ \<Rightarrow> [])"

lemma due_sinfo: "due w a = (case sinfo w a of None \<Rightarrow> False | Some (L, t) \<Rightarrow> t \<le> sw_ms w div 10)"
  by (auto simp: due_def split: option.splits)

lemma sinfo_due:
  assumes "sinfo w' a = sinfo w a" and "sw_ms w' = sw_ms w"
  shows "due w' a = due w a" and "woke w' a = woke w a"
  unfolding due_sinfo woke_def assms by simp_all

text \<open>Waking one sleeper: its node goes, the rest of its bucket stays, newcomers are not due.\<close>

lemma wake_step:
  assumes rel: "wheel_rel w Q" and only: "only_sleeps resume" and T: "sw_lnow w = sw_ms w div 10"
    and Qk: "Q k = pre @ a # suf" and n: "sw_nodes w a = Some n"
  obtains w1 Q2 new where "sleep_unlink k a n w = Some w1" "wheel_done w Q {a} (wake resume n w1) Q2"
    "sw_woken (wake resume n w1) = sw_woken w @ woke w a" "Q2 k = (pre @ suf) @ new"
    "\<And>b. b \<in> set new \<Longrightarrow> \<not> due (wake resume n w1) b"
    "\<And>b. b \<in> set suf \<Longrightarrow> due (wake resume n w1) b = due w b \<and> woke (wake resume n w1) b = woke w b"
proof -
  have aQ: "a \<in> set (Q k)" using Qk by simp
  have dist: "distinct (pre @ a # suf)" using bq_distinct [OF rel [unfolded wheel_rel_def], of k] Qk by simp
  obtain w1 where w1: "sleep_unlink k a n w = Some w1" "wheel_done w Q {a} w1 (Q(k := remove1 a (Q k)))"
    "sw_woken w1 = sw_woken w" using unlink_done [OF rel aQ n] by blast
  have rel1: "wheel_rel w1 (Q(k := remove1 a (Q k)))" and T1: "sw_lnow w1 = sw_ms w1 div 10"
    and ms1: "sw_ms w1 = sw_ms w"
    using w1(2) T by (auto simp: wheel_done_def)
  let ?w2 = "wake resume n w1"
  obtain Q2 where d2: "wheel_done w1 (Q(k := remove1 a (Q k))) {} ?w2 Q2"
    using wake_done(1) [OF rel1 only T1] by blast
  have d12: "wheel_done w Q {a} ?w2 Q2" using wheel_done_trans [OF w1(2) d2] by simp
  have wk: "sw_woken ?w2 = sw_woken w @ woke w a"
    using wake_done(2) [OF rel1 only T1, of n] w1(3) T1 ms1 n
    by (simp add: woke_def split: option.split)
  have "remove1 a (Q k) = pre @ suf" using Qk dist by (simp add: remove1_append)
  then obtain new where new: "Q2 k = (pre @ suf) @ new"
    "\<forall>b \<in> set new. (\<exists>n. sw_nodes ?w2 b = Some n \<and> sw_ms w1 div 10 < sn_timeout n)"
    using d2 unfolding wheel_done_def by (auto dest!: spec [of _ k])
  have ms: "sw_ms ?w2 = sw_ms w" using d12 by (auto simp: wheel_done_def)
  have nd: "\<not> due ?w2 b" if "b \<in> set new" for b
    using new(2) that ms ms1 by (auto simp: due_def)
  have same: "due ?w2 b = due w b \<and> woke ?w2 b = woke w b" if "b \<in> set suf" for b
  proof -
    have "b \<in> set (Q k)" "b \<notin> {a}" using that Qk dist by auto
    then have "sinfo ?w2 b = sinfo w b" using d12 unfolding wheel_done_def by blast
    then show ?thesis using sinfo_due [OF _ ms] by blast
  qed
  show ?thesis by (rule that [OF w1(1) d12 wk new(1) nd same])
qed

lemma run_bucket_ok:
  assumes only: "only_sleeps resume"
  shows "wheel_rel w Q \<Longrightarrow> sw_lnow w = sw_ms w div 10 \<Longrightarrow> Q k = pre @ suf
     \<Longrightarrow> m = (case suf of [] \<Rightarrow> None | a # _ \<Rightarrow> Some a)
     \<Longrightarrow> \<exists>F w' Q'. (\<forall>f \<ge> F. run_bucket f resume k m w = Some w') \<and> wheel_done w Q {a \<in> set suf. due w a} w' Q'
       \<and> sw_woken w' = sw_woken w @ concat (map (woke w) (filter (due w) suf))"
proof (induction "(length (filter (due w) suf), length suf)" arbitrary: w Q pre suf m rule: wf_induct_rule
    [OF wf_lex_prod [OF wf_less_than wf_less_than]])
  case 1
  note IH = 1(1) and rel = 1(2) and T = 1(3) and Qk = 1(4) and m = 1(5)
  show ?case
  proof (cases suf)
    case Nil
    with m rel show ?thesis
      by (intro exI [of _ 0] exI [of _ w] exI [of _ Q]) (simp add: wheel_done_def)
  next
    case (Cons a suf')
    have seg: "dseg sn_next sn_uper (sw_nodes w) None (sw_links w k) (pre @ a # suf')"
      using rel Qk Cons unfolding wheel_rel_def bq_def by metis
    then obtain n where n: "sw_nodes w a = Some n" "dseg sn_next sn_uper (sw_nodes w) (Some a) (sn_next n) suf'"
      using dseg_suffix by blast
    have nx: "sn_next n = (case suf' of [] \<Rightarrow> None | a # _ \<Rightarrow> Some a)" using dseg_head [OF n(2)] .
    show ?thesis
    proof (cases "sn_timeout n \<le> sw_lnow w")
      case False
      then have nd: "\<not> due w a" using n(1) T by (simp add: due_def)
      obtain F w' Q' where r: "\<forall>f \<ge> F. run_bucket f resume k (sn_next n) w = Some w'"
        "wheel_done w Q {a \<in> set suf'. due w a} w' Q'" "sw_woken w' = sw_woken w @ concat (map (woke w) (filter (due w) suf'))"
        using IH [of w suf' Q "pre @ [a]" "sn_next n"] rel T Qk Cons nx nd by auto
      have "run_bucket f resume k m w = Some w'" if "f \<ge> Suc F" for f
        using that r(1) m Cons n(1) False by (cases f) auto
      moreover have "{a \<in> set suf. due w a} = {a \<in> set suf'. due w a}" using Cons nd by auto
      ultimately show ?thesis using r(2,3) Cons nd by (intro exI [of _ "Suc F"] exI [of _ w'] exI [of _ Q']) auto
    next
      case True
      then have d: "due w a" using n(1) T by (auto simp: due_def)
      obtain w1 Q2 new where w1: "sleep_unlink k a n w = Some w1" and d12: "wheel_done w Q {a} (wake resume n w1) Q2"
        and wk: "sw_woken (wake resume n w1) = sw_woken w @ woke w a" and new: "Q2 k = (pre @ suf') @ new"
        and nd: "\<And>b. b \<in> set new \<Longrightarrow> \<not> due (wake resume n w1) b"
        and same: "\<And>b. b \<in> set suf' \<Longrightarrow> due (wake resume n w1) b = due w b \<and> woke (wake resume n w1) b = woke w b"
        by (rule wake_step [OF rel only T, of k pre a suf' n]) (use Qk Cons n(1) in auto)
      let ?w2 = "wake resume n w1" and ?D = "{b \<in> set suf'. due w b}"
      have rel2: "wheel_rel ?w2 Q2" and T2: "sw_lnow ?w2 = sw_ms ?w2 div 10"
        using d12 T by (auto simp: wheel_done_def)
      let ?suf = "if suf' = [] then [] else suf' @ new" and ?pre = "if suf' = [] then pre @ new else pre"
      have "filter (due ?w2) suf' = filter (due w) suf'" by (rule filter_cong) (use same in auto)
      then have fd: "filter (due ?w2) ?suf = filter (due w) suf'" using nd by (simp add: filter_empty_conv)
      have "{b \<in> set ?suf. due ?w2 b} = set (filter (due ?w2) ?suf)" by auto
      then have ds: "{b \<in> set ?suf. due ?w2 b} = ?D" unfolding fd by auto
      have less: "((length (filter (due ?w2) ?suf), length ?suf), length (filter (due w) suf), length suf)
          \<in> less_than <*lex*> less_than" unfolding fd using Cons d by simp
      have Q2: "Q2 k = ?pre @ ?suf" and nx2: "sn_next n = (case ?suf of [] \<Rightarrow> None | a # _ \<Rightarrow> Some a)"
        using new nx by (auto split: list.splits)
      obtain F w' Q' where r: "\<forall>f \<ge> F. run_bucket f resume k (sn_next n) ?w2 = Some w'"
        "wheel_done ?w2 Q2 ?D w' Q'" "sw_woken w' = sw_woken ?w2 @ concat (map (woke ?w2) (filter (due w) suf'))"
        using IH [OF less rel2 T2 Q2 nx2] unfolding fd ds by blast
      have "run_bucket f resume k m w = Some w'" if "f \<ge> Suc F" for f
        using that r(1) m Cons n(1) True w1 by (cases f) auto
      moreover have "wheel_done w Q ({a} \<union> ?D) w' Q'"
        by (rule wheel_done_trans [OF d12 r(2)]) (use Qk Cons wheel_rel_brk [OF rel, of _ k] in auto)
      moreover have "{a} \<union> ?D = {a \<in> set suf. due w a}" using Cons d by auto
      moreover have "map (woke ?w2) (filter (due w) suf') = map (woke w) (filter (due w) suf')"
        using same by auto
      then have "sw_woken w' = sw_woken w @ concat (map (woke w) (filter (due w) suf))"
        using r(3) wk Cons d by (simp only: filter.simps if_True list.map concat.simps append_assoc)
      ultimately show ?thesis by (intro exI [of _ "Suc F"] exI [of _ w'] exI [of _ Q']) auto
    qed
  qed
qed

text \<open>No sleeper lies behind the bucket that is processed next.\<close>

definition not_past :: "sleep_world \<Rightarrow> (nat \<Rightarrow> addr list) \<Rightarrow> nat \<Rightarrow> bool" where
  "not_past w Q s \<longleftrightarrow> (\<forall>k. \<forall>a \<in> set (Q k). \<exists>n. sw_nodes w a = Some n \<and> s \<le> sn_timeout n)"

text \<open>
  The buckets a check passes, from the time \<open>s\<close> on: the bucket of the current time itself only if the check starts there.
  The due sleepers in the order they are found: bucket after bucket, and in the order of each bucket. A bucket
  that is passed again after a whole turn of the wheel has nobody left who is due.
\<close>

definition passed :: "nat \<Rightarrow> nat \<Rightarrow> nat list" where
  "passed s now = map (\<lambda>t. t mod TIME_BUCKET_SIZE) (if s < now then [s..<now] else [s])"

fun in_order :: "(nat \<Rightarrow> addr list) \<Rightarrow> nat list \<Rightarrow> addr list" where
  "in_order Q [] = []"
| "in_order Q (k # ks) = Q k @ in_order (Q(k := [])) ks"

definition due_order :: "sleep_world \<Rightarrow> (nat \<Rightarrow> addr list) \<Rightarrow> addr list" where
  "due_order w Q = in_order (\<lambda>k. filter (due w) (Q k)) (passed (sw_now4sleep w) (sw_ms w div 10))"

lemma passed_simps:
  "passed s s = [s mod TIME_BUCKET_SIZE]" "passed s (Suc s) = [s mod TIME_BUCKET_SIZE]"
  "Suc s < now \<Longrightarrow> passed s now = s mod TIME_BUCKET_SIZE # passed (Suc s) now"
  by (simp_all add: passed_def upt_conv_Cons)

text \<open>
  The result of a check: exactly the due sleepers \<open>as\<close> of the buckets passed were resumed, each once and in this order;
  everybody whose time is before the current one is among them; nobody is left behind.
\<close>

definition checked :: "sleep_world \<Rightarrow> (nat \<Rightarrow> addr list) \<Rightarrow> addr list \<Rightarrow> sleep_world \<Rightarrow> (nat \<Rightarrow> addr list) \<Rightarrow> bool" where
  "checked w Q as w' Q' \<longleftrightarrow> as = due_order w Q \<and> distinct as \<and> (\<forall>a \<in> set as. due w a \<and> (\<exists>k. a \<in> set (Q k)))
     \<and> (\<forall>k. \<forall>a \<in> set (Q k). \<forall>n. sw_nodes w a = Some n \<longrightarrow> sn_timeout n < sw_ms w div 10 \<longrightarrow> a \<in> set as)
     \<and> sw_woken w' = sw_woken w @ concat (map (woke w) as)
     \<and> wheel_done w Q (set as) (w'\<lparr>sw_now4sleep := sw_now4sleep w\<rparr>) Q'
     \<and> sw_now4sleep w' = sw_ms w div 10 \<and> not_past w' Q' (sw_ms w div 10)"

lemma wheel_done_node:
  assumes "wheel_done w Q D w' Q'" and "a \<in> set (Q' k)"
  shows "(a \<in> set (Q k) \<and> a \<notin> D \<and> sinfo w' a = sinfo w a)
    \<or> (sw_brk w \<le> a \<and> (\<exists>n. sw_nodes w' a = Some n \<and> sw_ms w div 10 < sn_timeout n))"
proof -
  obtain new where new: "Q' k = filter (\<lambda>a. a \<notin> D) (Q k) @ new" "\<forall>a \<in> set new. sw_brk w \<le> a
          \<and> (\<exists>n. sw_nodes w' a = Some n \<and> sw_ms w div 10 < sn_timeout n)"
    using assms(1) unfolding wheel_done_def by blast
  show ?thesis
  proof (cases "a \<in> set new")
    case True
    with new(2) show ?thesis by blast
  next
    case False
    then have "a \<in> set (Q k)" "a \<notin> D" using new(1) assms(2) by auto
    moreover from this have "sinfo w' a = sinfo w a" using assms(1) unfolding wheel_done_def by blast
    ultimately show ?thesis by blast
  qed
qed

text \<open>After the bucket of time \<open>s\<close>, nobody with that time is left.\<close>

lemma bucket_past:
  assumes rel: "wheel_rel w Q" and past: "not_past w Q s" and s: "s < sw_ms w div 10"
    and d: "wheel_done w Q {a \<in> set (Q (s mod TIME_BUCKET_SIZE)). due w a} w' Q'"
  shows "not_past w' Q' (Suc s)"
  unfolding not_past_def
proof (intro allI ballI)
  fix k a
  assume "a \<in> set (Q' k)"
  from wheel_done_node [OF d this] show "\<exists>n. sw_nodes w' a = Some n \<and> Suc s \<le> sn_timeout n"
  proof
    assume a: "a \<in> set (Q k) \<and> a \<notin> {a \<in> set (Q (s mod TIME_BUCKET_SIZE)). due w a} \<and> sinfo w' a = sinfo w a"
    then obtain n where n: "sw_nodes w a = Some n" "s \<le> sn_timeout n" using past unfolding not_past_def by blast
    have "sn_slot n = k" using bq_node [OF rel [unfolded wheel_rel_def], of a k] a n by auto
    then have "sn_timeout n \<noteq> s" using a n s by (auto simp: due_def sn_slot_def)
    with n a show ?thesis by (cases "sw_nodes w' a") auto
  next
    assume "sw_brk w \<le> a \<and> (\<exists>n. sw_nodes w' a = Some n \<and> sw_ms w div 10 < sn_timeout n)"
    with s show ?thesis by (meson Suc_leI less_imp_le less_trans)
  qed
qed

lemma run_wheel_step:
  assumes only: "only_sleeps resume" and rel: "wheel_rel w Q" and T: "sw_lnow w = sw_ms w div 10"
    and s: "sw_now4sleep w = s" and k: "k = s mod TIME_BUCKET_SIZE"
  shows "\<exists>F w1 Q1. (\<forall>f \<ge> F. run_bucket f resume k (sw_links w k) w = Some w1)
    \<and> wheel_done w Q {a \<in> set (Q k). due w a} w1 Q1
    \<and> sw_woken w1 = sw_woken w @ concat (map (woke w) (filter (due w) (Q k)))"
proof -
  have "dseg sn_next sn_uper (sw_nodes w) None (sw_links w k) (Q k)"
    using rel by (simp add: wheel_rel_def bq_def)
  from dseg_head [OF this] show ?thesis
    using run_bucket_ok [OF only rel T, of k "[]" "Q k" "sw_links w k"] by simp
qed

lemma checked_last:
  assumes rel: "wheel_rel w Q" and past: "not_past w Q (sw_now4sleep w)"
    and w1: "wheel_done w Q {a \<in> set (Q k). due w a} w1 Q1"
      "sw_woken w1 = sw_woken w @ concat (map (woke w) (filter (due w) (Q k)))"
    and all: "\<And>j a n. a \<in> set (Q j) \<Longrightarrow> sw_nodes w a = Some n \<Longrightarrow> sn_timeout n < sw_ms w div 10 \<Longrightarrow> j = k"
    and np: "not_past w1 Q1 (sw_ms w div 10)" and one: "passed (sw_now4sleep w) (sw_ms w div 10) = [k]"
  shows "checked w Q (filter (due w) (Q k)) (w1\<lparr>sw_now4sleep := sw_ms w div 10\<rparr>) Q1"
proof -
  have dist: "distinct (Q k)" using rel unfolding wheel_rel_def by (rule bq_distinct)
  have "wheel_done w Q (set (filter (due w) (Q k)))
      (w1\<lparr>sw_now4sleep := sw_ms w div 10, sw_now4sleep := sw_now4sleep w\<rparr>) Q1"
    using w1(1) by (simp add: wheel_done_def wheel_rel_def)
  moreover have "not_past (w1\<lparr>sw_now4sleep := sw_ms w div 10\<rparr>) Q1 (sw_ms w div 10)"
    using np by (simp add: not_past_def)
  moreover have "a \<in> set (filter (due w) (Q k))"
    if "a \<in> set (Q j)" "sw_nodes w a = Some n" "sn_timeout n < sw_ms w div 10" for a j n
    using all [OF that] that by (auto simp: due_def)
  moreover have "due_order w Q = filter (due w) (Q k)" using one by (simp add: due_order_def)
  ultimately show ?thesis using dist w1(2) by (auto simp: checked_def)
qed

text \<open>After a bucket the due sleepers of the others are as before.\<close>

lemma due_left:
  assumes rel: "wheel_rel w Q" and w1: "wheel_done w Q {a \<in> set (Q k). due w a} w1 Q1"
  shows "(\<lambda>j. filter (due (w1\<lparr>sw_now4sleep := s\<rparr>)) (Q1 j)) = (\<lambda>j. filter (due w) (Q j))(k := [])"
proof
  fix j
  let ?D = "{a \<in> set (Q k). due w a}" and ?w1 = "w1\<lparr>sw_now4sleep := s\<rparr>"
  have ms: "sw_ms ?w1 = sw_ms w" using w1 by (simp add: wheel_done_def)
  obtain new where new: "Q1 j = filter (\<lambda>a. a \<notin> ?D) (Q j) @ new"
    "\<forall>a \<in> set new. \<exists>n. sw_nodes w1 a = Some n \<and> sw_ms w div 10 < sn_timeout n" using w1 unfolding wheel_done_def by metis
  have "filter (due ?w1) new = []" using new(2) ms by (auto simp: filter_empty_conv due_def)
  moreover have "due ?w1 a = due w a" if "a \<in> set (Q j)" "a \<notin> ?D" for a
    using w1 that sinfo_due [of ?w1 a w] ms unfolding wheel_done_def by auto
  then have "filter (due ?w1) (filter (\<lambda>a. a \<notin> ?D) (Q j)) = filter (due w) (filter (\<lambda>a. a \<notin> ?D) (Q j))" by (intro filter_cong) auto
  moreover have "filter (due w) (filter (\<lambda>a. a \<notin> ?D) (Q j)) = (if j = k then [] else filter (due w) (Q j))"
    using bq_same [OF rel [unfolded wheel_rel_def], of _ k j] by (auto simp: filter_empty_conv intro!: filter_cong)
  ultimately show "filter (due ?w1) (Q1 j) = ((\<lambda>j. filter (due w) (Q j))(k := [])) j" using new(1) by simp
qed

lemma checked_step:
  assumes rel: "wheel_rel w Q" and w1: "wheel_done w Q {a \<in> set (Q k). due w a} w1 Q1"
      "sw_woken w1 = sw_woken w @ concat (map (woke w) (filter (due w) (Q k)))"
    and c: "checked (w1\<lparr>sw_now4sleep := s\<rparr>) Q1 as w' Q'"
    and pass: "passed (sw_now4sleep w) (sw_ms w div 10) = k # passed s (sw_ms w div 10)"
  shows "checked w Q (filter (due w) (Q k) @ as) w' Q'"
proof -
  let ?D = "{a \<in> set (Q k). due w a}" and ?w1 = "w1\<lparr>sw_now4sleep := s\<rparr>"
  have ms: "sw_ms ?w1 = sw_ms w" using w1(1) by (simp add: wheel_done_def)
  have old: "(\<exists>j. a \<in> set (Q j)) \<and> a \<notin> ?D \<and> sinfo w1 a = sinfo w a" if as: "a \<in> set as" for a
  proof -
    obtain j where j: "a \<in> set (Q1 j)" "due ?w1 a" using c as unfolding checked_def by blast
    have "\<not> (\<exists>n. sw_nodes w1 a = Some n \<and> sw_ms w div 10 < sn_timeout n)" using j(2) ms by (auto simp: due_def)
    then show ?thesis using wheel_done_node [OF w1(1) j(1)] by blast
  qed
  have same: "due ?w1 a = due w a \<and> woke ?w1 a = woke w a" if "sinfo w1 a = sinfo w a" for a
    using sinfo_due [of ?w1 a w] that ms by simp
  have D: "set (filter (due w) (Q k) @ as) = ?D \<union> set as" by auto
  have wd: "wheel_done w Q (?D \<union> set as) (w'\<lparr>sw_now4sleep := sw_now4sleep w\<rparr>) Q'"
  proof (rule wheel_done_trans [OF w1(1)])
    show "wheel_done w1 Q1 (set as) (w'\<lparr>sw_now4sleep := sw_now4sleep w\<rparr>) Q'"
      using c w1(1) unfolding checked_def by (auto simp: wheel_done_def wheel_rel_def)
    show "a < sw_brk w" if "a \<in> set as" for a using old [OF that] wheel_rel_brk [OF rel] by blast
  qed
  have all: "a \<in> ?D \<union> set as"
    if a: "a \<in> set (Q j)" "sw_nodes w a = Some n" "sn_timeout n < sw_ms w div 10" for a j n
  proof (cases "a \<in> ?D")
    case False
    obtain new where "Q1 j = filter (\<lambda>a. a \<notin> ?D) (Q j) @ new" using w1(1) unfolding wheel_done_def by blast
    then have "a \<in> set (Q1 j)" using a False by simp
    moreover have "sinfo w1 a = sinfo w a" using w1(1) a(1) False unfolding wheel_done_def by blast
    then obtain n1 where "sw_nodes w1 a = Some n1" "sn_timeout n1 = sn_timeout n" using a(2) by auto
    ultimately show ?thesis using c a(3) ms unfolding checked_def by auto
  qed simp
  have dist: "distinct (filter (due w) (Q k) @ as)"
    using bq_distinct [OF rel [unfolded wheel_rel_def], of k] c old unfolding checked_def by auto
  have mp: "map (woke ?w1) as = map (woke w) as"
    by (rule map_cong) (use old same in auto)
  have "sw_woken w' = sw_woken ?w1 @ concat (map (woke ?w1) as)"
    using c unfolding checked_def by blast
  then have wk: "sw_woken w' = sw_woken w @ concat (map (woke w) (filter (due w) (Q k) @ as))"
    using w1(2) unfolding mp by simp
  have ok: "due w a \<and> (\<exists>j. a \<in> set (Q j))" if "a \<in> ?D \<union> set as" for a
  proof (cases "a \<in> set as")
    case True
    then have "due ?w1 a" using c unfolding checked_def by blast
    with old [OF True] same show ?thesis by blast
  qed (use that in auto)
  have fin: "sw_now4sleep w' = sw_ms w div 10" "not_past w' Q' (sw_ms w div 10)"
    using c ms unfolding checked_def by auto
  have "as = due_order ?w1 Q1" using c unfolding checked_def by blast
  then have ord: "filter (due w) (Q k) @ as = due_order w Q"
    using due_left [OF rel w1(1), of s] pass ms by (simp add: due_order_def)
  show ?thesis
    unfolding checked_def D using ord dist wd all wk ok fin by blast
qed

lemma run_wheel_ok:
  assumes only: "only_sleeps resume"
  shows "wheel_rel w Q \<Longrightarrow> sw_lnow w = sw_ms w div 10 \<Longrightarrow> sw_now4sleep w \<le> sw_ms w div 10 \<Longrightarrow> not_past w Q (sw_now4sleep w)
     \<Longrightarrow> \<exists>F as w' Q'. (\<forall>f \<ge> F. run_wheel f resume w = Some w') \<and> checked w Q as w' Q'"
proof (induction "sw_ms w div 10 - sw_now4sleep w" arbitrary: w Q rule: less_induct)
  case less
  note rel = less.prems(1) and T = less.prems(2) and past = less.prems(4)
  define s k where "s = sw_now4sleep w" and "k = s mod TIME_BUCKET_SIZE"
  obtain F w1 Q1 where r: "\<And>f. f \<ge> F \<Longrightarrow> run_bucket f resume k (sw_links w k) w = Some w1"
    and w1: "wheel_done w Q {a \<in> set (Q k). due w a} w1 Q1"
      "sw_woken w1 = sw_woken w @ concat (map (woke w) (filter (due w) (Q k)))"
    using run_wheel_step [OF only rel T s_def [symmetric] k_def] by blast
  have eq: "sw_ms w1 = sw_ms w" "sw_lnow w1 = sw_lnow w" "sw_now4sleep w1 = s"
    using w1(1) by (auto simp: wheel_done_def s_def)
  consider "s = sw_ms w div 10" | "Suc s = sw_ms w div 10" | "Suc s < sw_ms w div 10"
    using less.prems(3) s_def by linarith
  then show ?case
  proof cases
    case 1
    have "not_past w1 Q1 (sw_ms w div 10)"
      unfolding not_past_def
    proof (intro allI ballI)
      fix j a
      assume "a \<in> set (Q1 j)"
      from wheel_done_node [OF w1(1) this] show "\<exists>n. sw_nodes w1 a = Some n \<and> sw_ms w div 10 \<le> sn_timeout n"
        using past 1 by (fastforce simp: not_past_def s_def)
    qed
    then have "checked w Q (filter (due w) (Q k)) (w1\<lparr>sw_now4sleep := sw_ms w div 10\<rparr>) Q1"
      by (rule checked_last [OF rel past w1, rotated]) (use past 1 passed_simps(1) [of s] in \<open>auto simp: not_past_def s_def k_def, fastforce\<close>)
    moreover have "w1\<lparr>sw_now4sleep := sw_ms w div 10\<rparr> = w1" using eq 1 by simp
    moreover have "run_wheel f resume w = Some w1" if "f \<ge> Suc F" for f
      using that r [of "f - 1"] eq T 1 by (cases f) (auto simp: k_def s_def [symmetric] Let_def)
    ultimately show ?thesis by (intro exI [of _ "Suc F"] exI [of _ "filter (due w) (Q k)"] exI [of _ w1] exI [of _ Q1]) auto
  next
    case 2
    then have "not_past w1 Q1 (sw_ms w div 10)"
      using bucket_past [OF rel past [folded s_def], of w1 Q1] w1(1) k_def by simp
    then have "checked w Q (filter (due w) (Q k)) (w1\<lparr>sw_now4sleep := sw_ms w div 10\<rparr>) Q1"
    proof (rule checked_last [OF rel past w1, rotated])
      show "passed (sw_now4sleep w) (sw_ms w div 10) = [k]" using 2 passed_simps(2) [of s] by (simp add: k_def s_def)
    next
      fix j a n
      assume a: "a \<in> set (Q j)" "sw_nodes w a = Some n" "sn_timeout n < sw_ms w div 10"
      then have "sn_timeout n = s" using past 2 by (fastforce simp: not_past_def s_def)
      then show "j = k" using bq_node [OF rel [unfolded wheel_rel_def] a(1)] a(2) by (auto simp: sn_slot_def k_def)
    qed
    moreover have "run_wheel f resume w = Some (w1\<lparr>sw_now4sleep := sw_ms w div 10\<rparr>)" if "f \<ge> Suc F" for f
      using that r [of "f - 1"] eq T 2 by (cases f) (auto simp: k_def s_def [symmetric] Let_def)
    ultimately show ?thesis
      by (intro exI [of _ "Suc F"] exI [of _ "filter (due w) (Q k)"] exI [of _ "w1\<lparr>sw_now4sleep := sw_ms w div 10\<rparr>"] exI [of _ Q1]) auto
  next
    case 3
    let ?w1 = "w1\<lparr>sw_now4sleep := Suc s\<rparr>"
    have "not_past ?w1 Q1 (Suc s)"
      using bucket_past [OF rel past [folded s_def], of w1 Q1] w1(1) k_def 3 by (simp add: not_past_def)
    moreover have "wheel_rel ?w1 Q1" using w1(1) by (simp add: wheel_done_def wheel_rel_def)
    moreover have "sw_ms ?w1 div 10 - sw_now4sleep ?w1 < sw_ms w div 10 - sw_now4sleep w"
      using 3 eq s_def by simp
    ultimately obtain F' as w' Q' where w': "\<forall>f \<ge> F'. run_wheel f resume ?w1 = Some w'" "checked ?w1 Q1 as w' Q'"
      using less.hyps [of ?w1 Q1] 3 eq T by auto
    have "run_wheel f resume w = Some w'" if "f \<ge> Suc (max F F')" for f
      using that r [of "f - 1"] w'(1) eq T 3 by (cases f) (auto simp: k_def s_def [symmetric] Let_def)
    moreover have "passed (sw_now4sleep w) (sw_ms w div 10) = k # passed (Suc s) (sw_ms w div 10)"
      using 3 passed_simps(3) [of s] by (simp add: k_def s_def)
    ultimately show ?thesis
      by (intro exI [of _ "Suc (max F F')"] exI [of _ "filter (due w) (Q k) @ as"] exI [of _ w'] exI [of _ Q']) (use checked_step [OF rel w1 w'(2)] in blast)
  qed
qed

lemma sleep_check_ok:
  assumes "only_sleeps resume" and "wheel_rel w Q" and "0 < sw_now4sleep w"
    and "sw_now4sleep w \<le> sw_ms w div 10" and "not_past w Q (sw_now4sleep w)"
  shows "\<exists>F as w' Q'. (\<forall>f \<ge> F. check_lua_sleep_timeouts f resume w = Some w')
     \<and> checked (w\<lparr>sw_lnow := sw_ms w div 10\<rparr>) Q as w' Q'"
proof -
  let ?w = "w\<lparr>sw_lnow := sw_ms w div 10\<rparr>"
  have "wheel_rel ?w Q" "not_past ?w Q (sw_now4sleep ?w)"
    using assms(2,5) by (simp_all add: wheel_rel_def not_past_def)
  from run_wheel_ok [OF assms(1) this(1) _ _ this(2)] assms(3,4) show ?thesis
    by (simp add: check_lua_sleep_timeouts_def Let_def)
qed


text \<open>A wheel with two sleepers in one bucket, one of them due.\<close>

definition demo_sleeper :: "nat \<Rightarrow> nat \<Rightarrow> ptr \<Rightarrow> ptr \<Rightarrow> sleep_node" where
  "demo_sleeper L t up nx = \<lparr>sn_L = Some L, sn_timeout = t, sn_uper = up, sn_next = nx\<rparr>"

definition demo_wheel :: sleep_world where
  "demo_wheel = \<lparr>sw_ms = 1025, sw_brk = 3, sw_links = (\<lambda>k. if k = 101 then Some 1 else None),
     sw_link_ends = (\<lambda>k. if k = 101 then Some 2 else None),
     sw_nodes = [1 \<mapsto> demo_sleeper 7 101 None (Some 2), 2 \<mapsto> demo_sleeper 8 6101 (Some 1) None],
     sw_now4sleep = 100, sw_lnow = 0, sw_woken = []\<rparr>"

definition demo_sleepers :: "nat \<Rightarrow> addr list" where
  "demo_sleepers k = (if k = 101 then [1, 2] else [])"

lemma demo_wheel_ok:
  "only_sleeps (\<lambda>L w. w)" "wheel_rel demo_wheel demo_sleepers" "not_past demo_wheel demo_sleepers (sw_now4sleep demo_wheel)"
  "sw_ms demo_wheel div 10 = 102" "sw_now4sleep demo_wheel = 100"
  by (auto simp: only_sleeps_def wheel_done_def wheel_rel_def bq_def demo_wheel_def demo_sleepers_def demo_sleeper_def sn_slot_def
      TIME_BUCKET_SIZE_def last_ptr_def not_past_def)


definition late_wheel :: sleep_world where
  "late_wheel = \<lparr>sw_ms = 1200, sw_brk = 1, sw_links = (\<lambda>k. if k = 100 then Some 0 else None),
     sw_link_ends = (\<lambda>k. if k = 100 then Some 0 else None), sw_nodes = [0 \<mapsto> demo_sleeper 7 100 None None],
     sw_now4sleep = 0, sw_lnow = 0, sw_woken = []\<rparr>"

lemma run_wheel_empty:
  assumes "sw_links w (sw_now4sleep w mod TIME_BUCKET_SIZE) = None" and "sw_now4sleep w < sw_lnow w"
  shows "run_wheel (Suc f) resume w = (if Suc (sw_now4sleep w) < sw_lnow w
     then run_wheel f resume (w\<lparr>sw_now4sleep := Suc (sw_now4sleep w)\<rparr>) else Some (w\<lparr>sw_now4sleep := Suc (sw_now4sleep w)\<rparr>))"
  using assms by (simp add: Let_def)

text \<open>
  The first check starts five buckets in the past: a coroutine that was put to sleep
  earlier and was due more than five buckets before the first check is not resumed by it.
\<close>

theorem first_check_misses_sleeper:
  "due late_wheel 0 \<and> map_option sw_woken (check_lua_sleep_timeouts (f + 5) resume late_wheel) = Some []"
proof -
  have f5: "f + 5 = Suc (Suc (Suc (Suc (Suc f))))" by simp
  have c: "check_lua_sleep_timeouts g resume late_wheel
      = run_wheel g resume (late_wheel\<lparr>sw_lnow := 120, sw_now4sleep := 115\<rparr>)" for g
    by (simp add: check_lua_sleep_timeouts_def late_wheel_def Let_def)
  show ?thesis
    unfolding f5 c
    by (simp add: due_def late_wheel_def demo_sleeper_def TIME_BUCKET_SIZE_def run_wheel_empty del: run_wheel.simps)
qed

end
