(* ===== verification/Co_Loop.thy ===== *)
theory Co_Loop
  imports Conn_Pool Sleep_Wheel
begin

text \<open>
  The scheduler (\<open>coevent.c\<close>): the queue of coroutines that gave way (\<open>swop\<close>) and the jobs
  that run after every round of the event loop. The queue is a singly linked list behind a
  dummy node; \<open>sq_first\<close> is the \<open>next\<close> of that node, \<open>sq_lat\<close> points to the last entry.
\<close>

section \<open>Giving way\<close>

record swop_node =
  so_L :: lthread
  so_next :: ptr

record swop_world =
  sq_counter :: int
  sq_first :: ptr
  sq_lat :: ptr
  sq_nodes :: "addr \<Rightarrow> swop_node option"
  sq_brk :: addr

definition swop_init :: swop_world where
  "swop_init = \<lparr>sq_counter = 0, sq_first = None, sq_lat = None, sq_nodes = (\<lambda>_. None), sq_brk = 0\<rparr>"

definition lua_f_coroutine_swop :: "bool \<Rightarrow> lthread \<Rightarrow> swop_world \<Rightarrow> (lua_ret \<times> swop_world) option" where
  "lua_f_coroutine_swop ok L w =
     (let go = sq_counter w < 800; w = w\<lparr>sq_counter := c_int (sq_counter w + 1)\<rparr> in
      if go then Some (Ret [LBool False], w)
      else if \<not> ok then Some (Ret [LBool False], w)
      else do {
        let a = sq_brk w;
        let w = w\<lparr>sq_counter := 0, sq_brk := Suc a\<rparr>;
        let h = (sq_nodes w)(a \<mapsto> \<lparr>so_L = L, so_next = None\<rparr>);
        w \<leftarrow> (case sq_lat w of
                 Some l \<Rightarrow> do { h \<leftarrow> poke l (so_next_update (\<lambda>_. Some a)) h; Some (w\<lparr>sq_nodes := h\<rparr>) }
               | None \<Rightarrow> Some (w\<lparr>sq_nodes := h, sq_first := Some a\<rparr>));
        Some (Yield, w\<lparr>sq_lat := Some a\<rparr>) })"

text \<open>Taking the first entry: the coroutine to resume.\<close>

definition swop_take :: "swop_world \<Rightarrow> (lthread option \<times> swop_world) option" where
  "swop_take w = (case sq_first w of
     None \<Rightarrow> Some (None, w)
   | Some a \<Rightarrow> do {
       n \<leftarrow> sq_nodes w a;
       let w = w\<lparr>sq_first := so_next n\<rparr>;
       let w = (if sq_first w = None then w\<lparr>sq_lat := None\<rparr> else w);
       Some (Some (so_L n), w\<lparr>sq_nodes := (sq_nodes w)(a := None)\<rparr>) })"

section \<open>The jobs after a round\<close>

record jobs =
  jb_net :: world
  jb_sleep :: sleep_world
  jb_swop :: swop_world
  jb_status :: "lthread \<Rightarrow> int" \<comment> \<open>\<open>lua_status\<close> of the coroutines\<close>

definition set_loop_fd :: "int \<Rightarrow> int \<Rightarrow> world \<Rightarrow> world" where
  "set_loop_fd fd n w = w\<lparr>w_loop_fd := fd, w_process_count := (if n > 1 then n else w_process_count w)\<rparr>"

text \<open>C division truncates; the counter is never negative.\<close>

definition coevnet_module_do_other_jobs ::
    "nat \<Rightarrow> se_api \<Rightarrow> resume_fn \<Rightarrow> sleep_resume \<Rightarrow> (lthread \<Rightarrow> jobs \<Rightarrow> jobs) \<Rightarrow> jobs \<Rightarrow> jobs option" where
  "coevnet_module_do_other_jobs f api resume_net resume_sleep resume j = do {
     let sq = jb_swop j;
     let j = j\<lparr>jb_swop := sq\<lparr>sq_counter := sq_counter sq div 2\<rparr>\<rparr>;
     (_, w) \<leftarrow> get_connection_in_pool f api resume_net 0 None (jb_net j);
     let j = j\<lparr>jb_net := w\<rparr>;
     sw \<leftarrow> check_lua_sleep_timeouts f resume_sleep (jb_sleep j);
     let j = j\<lparr>jb_sleep := sw\<rparr>;
     (L, sq) \<leftarrow> swop_take (jb_swop j);
     let j = j\<lparr>jb_swop := sq\<rparr>;
     Some (case L of
             None \<Rightarrow> j
           | Some L \<Rightarrow> if jb_status j L = LUA_YIELD then resume L j else j) }"

text \<open>The result tells the event loop whether to go on: the main coroutine still waits.\<close>

definition do_other_jobs ::
    "nat \<Rightarrow> se_api \<Rightarrow> resume_fn \<Rightarrow> sleep_resume \<Rightarrow> (lthread \<Rightarrow> jobs \<Rightarrow> jobs) \<Rightarrow> lthread \<Rightarrow> jobs \<Rightarrow> (bool \<times> jobs) option" where
  "do_other_jobs f api resume_net resume_sleep resume job_L j = do {
     j \<leftarrow> coevnet_module_do_other_jobs f api resume_net resume_sleep resume j;
     Some (jb_status j job_L = LUA_YIELD, j) }"

section \<open>The queue refines a list of coroutines\<close>

primrec sseg :: "(addr \<Rightarrow> swop_node option) \<Rightarrow> ptr \<Rightarrow> addr list \<Rightarrow> bool" where
  "sseg h p [] \<longleftrightarrow> p = None"
| "sseg h p (a # as) \<longleftrightarrow> p = Some a \<and> (\<exists>n. h a = Some n \<and> sseg h (so_next n) as)"

definition swop_rel :: "swop_world \<Rightarrow> addr list \<Rightarrow> bool" where
  "swop_rel w as \<longleftrightarrow> sseg (sq_nodes w) (sq_first w) as \<and> sq_lat w = last_ptr as \<and> distinct as
     \<and> (\<forall>a \<in> set as. a < sq_brk w) \<and> 0 \<le> sq_counter w \<and> sq_counter w \<le> 801"

definition swop_list :: "swop_world \<Rightarrow> addr list \<Rightarrow> lthread list" where
  "swop_list w as = map (\<lambda>a. case map_option so_L (sq_nodes w a) of Some L \<Rightarrow> L | None \<Rightarrow> 0) as"

lemma sseg_cong: "(\<And>a. a \<in> set as \<Longrightarrow> h a = h' a) \<Longrightarrow> sseg h p as = sseg h' p as"
  by (induction as arbitrary: p) auto

lemma sseg_append_node:
  assumes "sseg h p as" and "as \<noteq> []" and "a \<notin> set as" and "distinct as" and "so_next n = None"
  shows "\<exists>h'. poke (last as) (so_next_update (\<lambda>_. Some a)) (h(a \<mapsto> n)) = Some h' \<and> sseg h' p (as @ [a])"
  using assms
proof (induction as arbitrary: p)
  case Nil
  then show ?case by simp
next
  case (Cons b as)
  then obtain m where m: "p = Some b" "h b = Some m" "sseg h (so_next m) as" by auto
  show ?case
  proof (cases "as = []")
    case True
    with Cons.prems m show ?thesis by (auto simp: poke_def)
  next
    case False
    have "a \<notin> set as" "distinct as" using Cons.prems by auto
    then obtain h' where h': "poke (last as) (so_next_update (\<lambda>_. Some a)) (h(a \<mapsto> n)) = Some h'"
      "sseg h' (so_next m) (as @ [a])"
      using Cons.IH [OF m(3) False _ _ Cons.prems(5)] by blast
    moreover have "b \<noteq> last as" using Cons.prems(4) last_in_set [OF False] by auto
    then have "h' b = h b" using poke_other [OF h'(1), of b] Cons.prems(3) by auto
    moreover have "last (b # as) = last as" using False by simp
    ultimately show ?thesis using m by (metis append_Cons sseg.simps(2))
  qed
qed

lemma swop_enqueue:
  assumes rel: "swop_rel w as" and full: "800 \<le> sq_counter w"
  shows "\<exists>w'. lua_f_coroutine_swop True L w = Some (Yield, w') \<and> swop_rel w' (as @ [sq_brk w])
     \<and> swop_list w' (as @ [sq_brk w]) = swop_list w as @ [L] \<and> sq_counter w' = 0"
proof -
  let ?a = "sq_brk w" and ?n = "\<lparr>so_L = L, so_next = None\<rparr>"
  have fresh: "?a \<notin> set as" and seg: "sseg (sq_nodes w) (sq_first w) as" and dist: "distinct as"
    and lat: "sq_lat w = last_ptr as" and brk: "\<forall>a \<in> set as. a < ?a"
    using rel by (auto simp: swop_rel_def)
  show ?thesis
  proof (cases "as = []")
    case True
    let ?w' = "w\<lparr>sq_counter := 0, sq_brk := Suc ?a, sq_nodes := (sq_nodes w)(?a \<mapsto> ?n), sq_first := Some ?a, sq_lat := Some ?a\<rparr>"
    have "lua_f_coroutine_swop True L w = Some (Yield, ?w')"
      using full lat True by (simp add: lua_f_coroutine_swop_def Let_def)
    with True show ?thesis by (auto simp: swop_rel_def swop_list_def)
  next
    case False
    obtain h' where h': "poke (last as) (so_next_update (\<lambda>_. Some ?a)) ((sq_nodes w)(?a \<mapsto> ?n)) = Some h'"
      "sseg h' (sq_first w) (as @ [?a])"
      using sseg_append_node [OF seg False fresh dist, of ?n] by auto
    let ?w' = "w\<lparr>sq_counter := 0, sq_brk := Suc ?a, sq_nodes := h', sq_lat := Some ?a\<rparr>"
    have "lua_f_coroutine_swop True L w = Some (Yield, ?w')"
      using full lat False h'(1) by (simp add: lua_f_coroutine_swop_def Let_def last_ptr_def)
    moreover have L: "map_option so_L (h' b) = map_option so_L (((sq_nodes w)(?a \<mapsto> ?n)) b)" for b
      by (rule poke_data [OF h'(1)]) simp
    have "swop_list ?w' (as @ [?a]) = swop_list w as @ [L]"
      using fresh unfolding swop_list_def by (auto simp: L)
    moreover have "swop_rel ?w' (as @ [?a])"
      using h'(2) dist fresh brk by (auto simp: swop_rel_def)
    ultimately show ?thesis by auto
  qed
qed

lemma swop_dequeue:
  assumes rel: "swop_rel w as"
  shows "\<exists>w'. swop_take w = Some (case swop_list w as of [] \<Rightarrow> None | L # _ \<Rightarrow> Some L, w')
     \<and> swop_rel w' (tl as) \<and> swop_list w' (tl as) = tl (swop_list w as)"
proof (cases as)
  case Nil
  with rel show ?thesis by (auto simp: swop_rel_def swop_take_def swop_list_def)
next
  case (Cons a as')
  then obtain n where n: "sq_first w = Some a" "sq_nodes w a = Some n" "sseg (sq_nodes w) (so_next n) as'"
    and a: "a \<notin> set as'"
    using rel by (auto simp: swop_rel_def)
  have nx: "so_next n = None \<longleftrightarrow> as' = []" using n(3) by (cases as') auto
  have seg: "sseg ((sq_nodes w)(a := None)) (so_next n) as'"
    using n(3) a by (subst sseg_cong [of as' _ "sq_nodes w"]) auto
  show ?thesis
    using Cons n rel nx seg a by (auto simp: swop_rel_def swop_take_def swop_list_def Let_def last_ptr_Cons)
qed

text \<open>
  The queue of coroutines that gave way is first in, first out: a coroutine that yields is
  entered behind all others, each round resumes the first, and nobody is lost or entered
  twice. A coroutine yields only after 800 calls since the last one that did.
\<close>

theorem swop_fifo:
  assumes "swop_rel w as" and "L # Ls = swop_list w as @ [M]"
  shows "\<exists>w1 w2 bs. lua_f_coroutine_swop True M (w\<lparr>sq_counter := 800\<rparr>) = Some (Yield, w1)
     \<and> swop_take w1 = Some (Some L, w2) \<and> swop_rel w2 bs \<and> swop_list w2 bs = Ls \<and> sq_counter w2 = 0"
proof -
  have "swop_rel (w\<lparr>sq_counter := 800\<rparr>) as" using assms(1) by (simp add: swop_rel_def)
  then obtain w1 where w1: "lua_f_coroutine_swop True M (w\<lparr>sq_counter := 800\<rparr>) = Some (Yield, w1)"
    "swop_rel w1 (as @ [sq_brk w])" "swop_list w1 (as @ [sq_brk w]) = swop_list w as @ [M]" "sq_counter w1 = 0"
    using swop_enqueue [of "w\<lparr>sq_counter := 800\<rparr>" as M] by (auto simp: swop_list_def)
  obtain w2 where w2: "swop_take w1 = Some (Some L, w2)" "swop_rel w2 (tl (as @ [sq_brk w]))"
    "swop_list w2 (tl (as @ [sq_brk w])) = Ls"
    using swop_dequeue [OF w1(2)] w1(3) assms(2) [symmetric] by auto
  have "sq_counter w2 = 0"
    using w2(1) w1(4) by (auto simp: swop_take_def Let_def split: option.splits bind_splits if_splits)
  with w1 w2 show ?thesis by blast
qed

text \<open>
  Calls to \<open>swop\<close> below the limit return false at once, count up and change nothing else.
\<close>

theorem swop_below_limit:
  assumes "swop_rel w as" and "sq_counter w < 800"
  shows "\<exists>w'. lua_f_coroutine_swop ok L w = Some (Ret [LBool False], w') \<and> swop_rel w' as
     \<and> swop_list w' as = swop_list w as \<and> sq_counter w' = sq_counter w + 1"
  using assms by (auto simp: lua_f_coroutine_swop_def Let_def swop_rel_def swop_list_def)

definition demo_swop :: swop_world where
  "demo_swop = \<lparr>sq_counter = 3, sq_first = Some 0, sq_lat = Some 0, sq_nodes = [0 \<mapsto> \<lparr>so_L = 5, so_next = None\<rparr>], sq_brk = 1\<rparr>"

theorem swop_fifo_witness:
  "\<exists>w1 w2 bs. lua_f_coroutine_swop True 6 (demo_swop\<lparr>sq_counter := 800\<rparr>) = Some (Yield, w1)
     \<and> swop_take w1 = Some (Some 5, w2) \<and> swop_rel w2 bs \<and> swop_list w2 bs = [6] \<and> sq_counter w2 = 0"
  by (rule swop_fifo [of demo_swop "[0]" 5 "[6]" 6]) (simp_all add: swop_rel_def demo_swop_def swop_list_def)

theorem swop_below_limit_witness:
  "\<exists>w'. lua_f_coroutine_swop True 6 demo_swop = Some (Ret [LBool False], w') \<and> swop_rel w' [0]
     \<and> swop_list w' [0] = swop_list demo_swop [0] \<and> sq_counter w' = 4"
  using swop_below_limit [of demo_swop "[0]" True 6] by (simp add: swop_rel_def demo_swop_def)

end
