(* ===== verification/Co_Main.thy ===== *)
theory Co_Main
  imports Pool_Inv Co_Loop
begin

text \<open>
  Start and end of the program: opening the module (\<open>luaopen_coevent\<close>), starting the loop
  (\<open>lua_f_startloop\<close>), the log file (\<open>lua_f_open_log\<close>, \<open>on_exit_handler\<close>), and what one round of
  the periodic jobs does to pool, sleepers and waiting coroutines together.
\<close>

section \<open>The log file\<close>

text \<open>\<open>LOGF_T\<close>, and the logs handed to \<open>log_destory\<close> so far.\<close>

record log_files =
  lg_cur :: ptr
  lg_destroyed :: "addr list"

definition log_destory :: "log_files \<Rightarrow> log_files" where
  "log_destory g = (case lg_cur g of None \<Rightarrow> g | Some a \<Rightarrow> g\<lparr>lg_destroyed := lg_destroyed g @ [a]\<rparr>)"

text \<open>\<open>opened\<close> is the result of \<open>open_log\<close> on the path.\<close>

definition lua_f_open_log :: "lua_lib \<Rightarrow> (bytes \<Rightarrow> ptr) \<Rightarrow> lua_value list \<Rightarrow> log_files \<Rightarrow> (lua_ret \<times> log_files) option" where
  "lua_f_open_log lib opened st g =
     (if \<not> lua_isstring st 1 then Some (Ret [LNil, lstr ''need filepath''], g)
      else do {
        let g = (if lg_cur g \<noteq> None then log_destory g else g);
        path \<leftarrow> lua_tostring lib st 1;
        let g = g\<lparr>lg_cur := opened path\<rparr>;
        Some (Ret [LBool (lg_cur g \<noteq> None)], g) })"

definition on_exit_handler :: "log_files \<Rightarrow> log_files" where
  "on_exit_handler g = (if lg_cur g \<noteq> None then (log_destory g)\<lparr>lg_cur := None\<rparr> else g)"

section \<open>Starting\<close>

text \<open>
  The module's state: the jobs' state, the main coroutine, the thread that runs it, and how often
  the exit handler was installed. The event loop is a parameter: \<open>la_loop fd msec jobs\<close> calls
  \<open>jobs\<close> after every poll; \<open>la_resume\<close> is \<open>lua_resume\<close> of the main function, with the status and
  the value on top of the thread's stack.
\<close>

record main_state =
  ms_jobs :: jobs
  ms_LM :: lthread
  ms_job_L :: "lthread option"
  ms_exit_handlers :: nat

record loop_api =
  la_se_create :: int
  la_newthread :: lthread
  la_resume :: "lthread \<Rightarrow> jobs \<Rightarrow> int \<times> lua_value \<times> jobs"
  la_loop :: "int \<Rightarrow> int \<Rightarrow> (jobs \<Rightarrow> (bool \<times> jobs) option) \<Rightarrow> jobs \<Rightarrow> jobs option"

definition luaopen_coevent :: "lthread \<Rightarrow> int \<Rightarrow> sleep_world \<Rightarrow> (lthread \<Rightarrow> int) \<Rightarrow> main_state" where
  "luaopen_coevent L now sw status = \<lparr>ms_jobs = \<lparr>jb_net = world0\<lparr>w_loop_fd := - 1, w_now := now\<rparr>, jb_sleep = sw, jb_swop = swop_init, jb_status = status\<rparr>,
     ms_LM = L, ms_job_L = None, ms_exit_handlers = 0\<rparr>"

definition is_lua_function :: "lua_value list \<Rightarrow> nat \<Rightarrow> bool" where
  "is_lua_function st i = (case arg st i of Some (LFun _) \<Rightarrow> True | _ \<Rightarrow> False)"

definition create_loop :: "loop_api \<Rightarrow> main_state \<Rightarrow> main_state" where
  "create_loop la m = (if w_loop_fd (jb_net (ms_jobs m)) = - 1
     then m\<lparr>ms_jobs := (ms_jobs m)\<lparr>jb_net := (jb_net (ms_jobs m))\<lparr>w_loop_fd := la_se_create la\<rparr>\<rparr>,
            ms_exit_handlers := ms_exit_handlers m + 2\<rparr>
     else m)"

definition lua_f_startloop ::
    "lua_lib \<Rightarrow> loop_api \<Rightarrow> nat \<Rightarrow> se_api \<Rightarrow> resume_fn \<Rightarrow> sleep_resume \<Rightarrow> (lthread \<Rightarrow> jobs \<Rightarrow> jobs) \<Rightarrow> lua_value list \<Rightarrow> main_state
       \<Rightarrow> (lua_ret \<times> main_state) option" where
  "lua_f_startloop lib la f api resume_net resume_sleep resume st m =
     (let m = create_loop la m in
      if \<not> is_lua_function st 1 then Some (Raise ''Lua function expected'', m)
      else
        let job = la_newthread la;
            m = m\<lparr>ms_job_L := Some job\<rparr>;
            (status, top, j) = la_resume la job (ms_jobs m);
            m = m\<lparr>ms_jobs := j\<rparr>
        in if status = LUA_ERRRUN \<and> lua_isstring [top] 1
           then do { msg \<leftarrow> lua_tostring lib [top] 1; Some (Raise msg, m) }
           else do {
             let m = m\<lparr>ms_LM := job\<rparr>;
             j \<leftarrow> la_loop la (w_loop_fd (jb_net (ms_jobs m))) 10 (do_other_jobs f api resume_net resume_sleep resume job) (ms_jobs m);
             Some (Ret [], m\<lparr>ms_jobs := j\<rparr>) })"

section \<open>The log file is destroyed once\<close>

text \<open>A run of the program's log calls: \<open>open_log\<close> with a stack of arguments and the answer of the system, and exits.\<close>

datatype log_op = Log_open "lua_value list" ptr | Log_exit

fun log_ops :: "lua_lib \<Rightarrow> log_op list \<Rightarrow> log_files \<Rightarrow> log_files option" where
  "log_ops lib [] g = Some g"
| "log_ops lib (Log_open st r # os) g = do { (_, g) \<leftarrow> lua_f_open_log lib (\<lambda>_. r) st g; log_ops lib os g }"
| "log_ops lib (Log_exit # os) g = log_ops lib os (on_exit_handler g)"

fun opened_logs :: "log_op list \<Rightarrow> addr list" where
  "opened_logs [] = []"
| "opened_logs (Log_open st (Some a) # os) = (if lua_isstring st 1 then a # opened_logs os else opened_logs os)"
| "opened_logs (_ # os) = opened_logs os"

definition current_log :: "log_files \<Rightarrow> addr list" where
  "current_log g = (case lg_cur g of None \<Rightarrow> [] | Some a \<Rightarrow> [a])"

lemma open_log_keeps:
  "\<exists>r g'. lua_f_open_log lib (\<lambda>_. p) st g = Some (r, g')
     \<and> lg_destroyed g' @ current_log g' = lg_destroyed g @ current_log g @ opened_logs [Log_open st p]"
proof (cases "lua_isstring st 1")
  case True
  then obtain s where s: "lua_tolstring lib st 1 = Some s" using lua_isstring_tolstring by blast
  let ?g = "(if lg_cur g \<noteq> None then log_destory g else g)\<lparr>lg_cur := p\<rparr>"
  have "lua_f_open_log lib (\<lambda>_. p) st g = Some (Ret [LBool (p \<noteq> None)], ?g)"
    using True s by (simp add: lua_f_open_log_def lua_tostring_def)
  moreover have "lg_destroyed ?g @ current_log ?g = lg_destroyed g @ current_log g @ opened_logs [Log_open st p]"
    using True by (cases p; cases "lg_cur g") (simp_all add: log_destory_def current_log_def)
  ultimately show ?thesis by blast
next
  case False
  then show ?thesis by (cases p) (simp_all add: lua_f_open_log_def)
qed

lemma exit_keeps: "lg_destroyed (on_exit_handler g) @ current_log (on_exit_handler g) = lg_destroyed g @ current_log g"
  by (auto simp: on_exit_handler_def log_destory_def current_log_def split: option.splits)

lemma opened_logs_Cons: "opened_logs (x # os) = opened_logs [x] @ opened_logs os"
  by (cases x; cases "case x of Log_open _ r \<Rightarrow> r | _ \<Rightarrow> None") auto

text \<open>
  Over any sequence of \<open>open_log\<close> calls, with any arguments and any answers of the system, and of runs
  of the exit handler (which is installed twice), every log that was opened is either the current one or was destroyed
  exactly once, in the order of opening.
\<close>

theorem logs_destroyed_once:
  "\<exists>g. log_ops lib os \<lparr>lg_cur = None, lg_destroyed = []\<rparr> = Some g \<and> lg_destroyed g @ current_log g = opened_logs os"
proof -
  have "\<exists>g'. log_ops lib os g = Some g' \<and> lg_destroyed g' @ current_log g' = lg_destroyed g @ current_log g @ opened_logs os" for g
  proof (induction os arbitrary: g)
    case (Cons x os)
    show ?case
    proof (cases x)
      case (Log_open st p)
      obtain r h where h: "lua_f_open_log lib (\<lambda>_. p) st g = Some (r, h)"
        "lg_destroyed h @ current_log h = lg_destroyed g @ current_log g @ opened_logs [Log_open st p]"
        using open_log_keeps [of lib p st g] by blast
      show ?thesis using Cons.IH [of h] h by (auto simp: Log_open opened_logs_Cons [of "Log_open st p" os])
    next
      case Log_exit
      then show ?thesis using Cons.IH [of "on_exit_handler g"] exit_keeps [of g] by auto
    qed
  qed simp
  from this [of "\<lparr>lg_cur = None, lg_destroyed = []\<rparr>"] show ?thesis by (simp add: current_log_def)
qed

section \<open>One round of the jobs\<close>

text \<open>The state of the jobs: pool, queue of coroutines that gave way, and sleepers in order.\<close>

definition jobs_ok :: "addr list \<Rightarrow> (nat \<Rightarrow> addr list) \<Rightarrow> jobs \<Rightarrow> bool" where
  "jobs_ok as Q j \<longleftrightarrow> pool_ok (jb_net j) \<and> swop_rel (jb_swop j) as \<and> wheel_rel (jb_sleep j) Q
     \<and> 0 < sw_now4sleep (jb_sleep j) \<and> sw_now4sleep (jb_sleep j) \<le> sw_ms (jb_sleep j) div 10 \<and> not_past (jb_sleep j) Q (sw_now4sleep (jb_sleep j))"

lemma nobody_waits:
  "\<forall>k \<in> set ks. w_waiting w k = None \<Longrightarrow> resume_in_waiting_get_connection f api resume ks w = Some w"
  by (induction ks) auto

text \<open>The idle connections after a round: the old generation is gone; what expired was closed, in order, and counted off.\<close>

definition pool_aged :: "(nat \<Rightarrow> nat \<Rightarrow> addr list) \<Rightarrow> world \<Rightarrow> world \<Rightarrow> bool" where
  "pool_aged P w w' \<longleftrightarrow> pool_at w' (aged_pool w P) \<and> w_trace w' = w_trace w @ map E_close (expired_fds w P)
     \<and> (\<forall>key. count_of key w' = left_count key w P)"

lemma pool_round:
  assumes ok: "pool_ok w" and at: "pool_at w P" "live w (idle_nodes P)" and loc: "se_delete_local api" and none: "\<forall>k. w_waiting w k = None"
  shows "\<exists>w'. (\<forall>f \<ge> 1. get_connection_in_pool f api resume 0 None w = Some (None, w')) \<and> pool_ok w' \<and> pool_aged P w w'"
proof -
  obtain w' where w': "clear_buckets api (cur_gen w) ((cur_gen w + 1) mod 2) all_buckets w = Some w'" "pool_ok w'"
    using clear_keeps [OF ok loc refl refl] by blast
  have "cnt_ok w" using ok by (simp add: pool_ok_def)
  from clear_buckets_ok [OF at(1) cur_gen_less(1) [of w] cur_gen_less(2) [of w] cur_gen_less(3) [of w] at(2) this loc, of all_buckets] w'(1)
  have "cleared w (expired w P) w'" "pool_at w' (aged_pool w P)" unfolding expired_def aged_pool_def by auto
  then have aged: "pool_aged P w w'" by (simp add: pool_aged_def cleared_def left_count_def expired_fds_def)
  have "w_waiting w' k = None" for k using clear_buckets_wait [OF w'(1)] none by (simp add: same_wait_def)
  then have n: "resume_in_waiting_get_connection f api resume all_buckets w' = Some w'" for f by (simp add: nobody_waits)
  have "get_connection_in_pool f api resume 0 None w = Some (None, w')" if "f \<ge> 1" for f
    using that w'(1) n [of "f - 1"] by (cases f) (simp_all add: Let_def)
  with w'(2) aged show ?thesis by blast
qed


text \<open>
  The state after opening the module and creating the loop satisfies the invariants of pool and queue.
\<close>

lemma opened_ok:
  "pool_ok (jb_net (ms_jobs (create_loop la (luaopen_coevent L now sw status))))"
  "swop_rel (jb_swop (ms_jobs (create_loop la (luaopen_coevent L now sw status)))) []"
  by (auto simp: create_loop_def luaopen_coevent_def swop_init_def swop_rel_def last_ptr_def
      intro!: pool_ok_other [OF pool_ok_start] simp: same_pool_def same_wait_def keeps_idle_def world0_def)

section \<open>A concrete state\<close>

definition demo_jobs :: jobs where
  "demo_jobs = \<lparr>jb_net = demo_net demo_keeper, jb_sleep = demo_wheel, jb_swop = demo_swop, jb_status = (\<lambda>_. LUA_YIELD)\<rparr>"


end
