(* ===== verification/Sock_Ext.thy ===== *)
theory Sock_Ext
  imports Sock_Ops
begin

text \<open>
  The other kinds of socket objects (\<open>coevent.c\<close>): UDP sockets and the pipes of \<open>popen\<close>. They
  share the structure, the read buffer and the close routine of the TCP sockets.
\<close>

section \<open>UDP\<close>

text \<open>
  What the resolver and the socket calls answer: whether the host is an address or can be
  looked up (its address then), the new descriptor or -1, and the other results.
\<close>

record udp_env =
  ue_addr :: "bytes option"
  ue_socket :: int
  ue_nonblocking :: bool
  ue_sendto :: int

text \<open>\<open>htons\<close> of a \<open>double\<close>: the low 16 bits of the integer.\<close>

definition port_of :: "rat \<Rightarrow> int" where
  "port_of r = int_of_number r mod 2 ^ 16"

definition lua_co_dup_setpeername ::
    "lua_lib \<Rightarrow> udp_env \<Rightarrow> se_api \<Rightarrow> lua_value list \<Rightarrow> world \<Rightarrow> (lua_ret \<times> world) option" where
  "lua_co_dup_setpeername lib ue api st w =
     (if \<not> lua_isuserdata st 1 \<or> \<not> lua_isstring st 2 then Some (Ret [LNil, lstr ''Error params!''], w)
      else case arg st 1 of
        Some (LUserdata ca) \<Rightarrow> do {
          c \<leftarrow> w_coks w ca;
          let (c, w) = (if ck_fd c > - 1
                        then (c\<lparr>ck_ptr := None\<rparr>, emit (E_close (ck_fd c)) (se_delete api (ck_ptr c) w)) else (c, w));
          if lua_isnumber lib st 3 then
            (case ue_addr ue of
               None \<Rightarrow> Some (Ret [LNil, lstr ''Nslookup Error!''], put_cok ca c w)
             | Some ip \<Rightarrow> do {
                 let c = c\<lparr>ck_addr := Some (ip, port_of (lua_tonumber lib st 3))\<rparr>;
                 if ue_socket ue = - 1 then Some (Ret [LNil, lstr ''Connect Error!''], put_cok ca c w)
                 else if \<not> ue_nonblocking ue
                 then Some (Ret [LNil, lstr ''Connect Error!''], put_cok ca c (emit (E_close (ue_socket ue)) w))
                 else
                   (let (p, w) = se_add api (ue_socket ue) (DCok ca) w
                    in Some (Ret [LBool True], put_cok ca (c\<lparr>ck_ptr := p, ck_fd := ue_socket ue, ck_status := 2\<rparr>) w)) })
          else Some (Ret [], put_cok ca c w) }
      | _ \<Rightarrow> None)"

definition lua_co_udp_send :: "lua_lib \<Rightarrow> udp_env \<Rightarrow> lua_value list \<Rightarrow> world \<Rightarrow> (lua_ret \<times> world) option" where
  "lua_co_udp_send lib ue st w =
     (if \<not> lua_isuserdata st 1 \<or> \<not> lua_isstring st 2 then Some (Ret [LNil, lstr ''Error params!''], w)
      else case arg st 1 of
        Some (LUserdata ca) \<Rightarrow> do {
          c \<leftarrow> w_coks w ca;
          if ck_fd c < 0 then Some (Ret [LNil, lstr ''Not Connected!''], w)
          else do {
            buf \<leftarrow> lua_tolstring lib st 2;
            if ue_sendto ue = - 1 then Some (Ret [LNil, lstr ''Send Error!''], w)
            else Some (Ret [LBool True], emit (E_send (ck_fd c) buf) w) } }
      | _ \<Rightarrow> None)"

definition lua_co_udp :: "lthread \<Rightarrow> lua_value list \<Rightarrow> world \<Rightarrow> (lua_ret \<times> world) option" where
  "lua_co_udp L st w =
     (let ca = w_brk w;
          st = st @ [LUserdata ca];
          c = cosocket_zero\<lparr>ck_use_ssl := lua_isboolean st 1 \<and> lua_toboolean st 1, ck_L := Some L,
                            ck_fd := - 1, ck_timeout := 30000\<rparr>
      in Some (Ret [LUserdata ca], put_cok ca c (w\<lparr>w_brk := Suc ca\<rparr>)))"

section \<open>Pipes\<close>

definition popen_timeout_handle :: "se_api \<Rightarrow> resume_fn \<Rightarrow> addr \<Rightarrow> world \<Rightarrow> world option" where
  "popen_timeout_handle api resume ca w = do {
     c \<leftarrow> w_coks w ca;
     let (c, w) = stop_timeout c w;
     w \<leftarrow> (case ck_pool_wait c of None \<Rightarrow> Some w | Some n \<Rightarrow> delete_in_waiting_get_connection n w);
     let c = c\<lparr>ck_pool_wait := None\<rparr>;
     msg \<leftarrow> timeout_msg c w;
     let w = se_delete api (ck_ptr c) w;
     let (c, w) = (if ck_fd c > - 1 then (c\<lparr>ck_fd := - 1\<rparr>, emit (E_pclose (ck_fp c)) w) else (c, w));
     let w = free_ptr (ck_send_buf_need_free c) w;
     let c = c\<lparr>ck_ptr := None, ck_status := 0, ck_read_buf := [], ck_send_buf_need_free := None, ck_inuse := False\<rparr>;
     Some (snd (resume (ck_L c) [LNil, lstr msg] (put_cok ca c w))) }"

definition drop_pipe :: "se_api \<Rightarrow> cosocket \<Rightarrow> world \<Rightarrow> cosocket \<times> world" where
  "drop_pipe api c w =
     (c\<lparr>ck_ptr := None, ck_fd := - 1, ck_status := 0\<rparr>, emit (E_pclose (ck_fp c)) (se_delete api (ck_ptr c) w))"

definition after_resume_pipe :: "se_api \<Rightarrow> addr \<Rightarrow> int \<times> world \<Rightarrow> world option" where
  "after_resume_pipe api ca rw = (case rw of (ret, w) \<Rightarrow>
     if ret = LUA_ERRRUN then do {
       c \<leftarrow> w_coks w ca;
       let (c, w) = drop_pipe api c w;
       Some (put_cok ca c w)
     } else Some w)"

definition cosocket_be_popen_read ::
    "char \<Rightarrow> se_api \<Rightarrow> resume_fn \<Rightarrow> io_end \<Rightarrow> bytes list \<Rightarrow> addr \<Rightarrow> world \<Rightarrow> world option" where
  "cosocket_be_popen_read junk api resume fin segs p w = do {
     (ca, c) \<leftarrow> cok_of p w;
     (e, brk, c) \<leftarrow> fill_buf fin segs (w_brk w) c;
     let w = w\<lparr>w_brk := brk\<rparr>;
     if e \<noteq> IO_again then do {
       let (c, w) = stop_timeout c w;
       let (c, w) = drop_pipe api c w;
       if ck_in_read_action c then do {
         (vs, c) \<leftarrow> lua_co_popen_read_buf junk (c\<lparr>ck_in_read_action := False\<rparr>);
         let w = put_cok ca (c\<lparr>ck_inuse := False\<rparr>) w;
         if vs \<noteq> [] then after_resume_pipe api ca (resume (ck_L c) vs w)
         else if e = IO_eof then after_resume_pipe api ca (resume (ck_L c) [LNil] w)
         else Some w
       } else Some (put_cok ca c w)
     } else if ck_in_read_action c then do {
       (vs, c) \<leftarrow> lua_co_popen_read_buf junk c;
       if vs \<noteq> [] then
         (let (c, w) = stop_timeout (c\<lparr>ck_in_read_action := False\<rparr>) w
          in after_resume_pipe api ca (resume (ck_L c) vs (put_cok ca (c\<lparr>ck_inuse := False\<rparr>) w)))
       else Some (put_cok ca c w)
     } else Some (put_cok ca c w) }"

definition lua_co_popen_read ::
    "char \<Rightarrow> lua_lib \<Rightarrow> se_api \<Rightarrow> lthread \<Rightarrow> lua_value list \<Rightarrow> world \<Rightarrow> (lua_ret \<times> world) option" where
  "lua_co_popen_read junk lib api L st w =
     (case arg st 1 of
        Some (LUserdata ca) \<Rightarrow> do {
          c \<leftarrow> w_coks w ca;
          if (ck_status c \<noteq> 2 \<or> ck_fd c = - 1 \<or> ck_ptr c = None) \<and> ck_total_buf_len c < 1
          then Some (Ret [LNil, lstr ''Not connected!''], w)
          else if ck_inuse c then Some (Ret [LNil, lstr ''socket busy!''], w)
          else do {
            (vs, c) \<leftarrow> lua_co_popen_read_buf junk (c\<lparr>ck_L := Some L, ck_buf_read_len := read_len lib st\<rparr>);
            if vs \<noteq> [] then Some (Ret vs, put_cok ca c w)
            else if ck_fd c = - 1 then Some (Ret [LNil, lstr ''Not connected!''], put_cok ca c w)
            else do {
              let (r, w) = (if \<not> ck_in_read_action c then se_be_read api (ck_ptr c) H_be_popen_read w else (0, w));
              let c = c\<lparr>ck_in_read_action := True\<rparr>;
              if r = - 1 then
                Some (Ret [LNil, lstr ''Network Error!''],
                      put_cok ca (c\<lparr>ck_fd := - 1\<rparr>) (emit (E_pclose (ck_fp c)) w))
              else
                (let (c, w) = start_timeout ca c w
                 in Some (Yield, put_cok ca (c\<lparr>ck_inuse := True\<rparr>) w)) } } }
      | Some (LLight _) \<Rightarrow> None
      | _ \<Rightarrow> Some (Ret [LNil, lstr ''Error params!''], w))"

text \<open>\<open>popen\<close> itself: \<open>fp\<close> is its result, \<open>fd\<close> the descriptor of the pipe.\<close>

definition lua_co_popen :: "se_api \<Rightarrow> ptr \<Rightarrow> int \<Rightarrow> lthread \<Rightarrow> lua_value list \<Rightarrow> world \<Rightarrow> (lua_ret \<times> world) option" where
  "lua_co_popen api fp fd L st w =
     (if lua_gettop st < 1 then Some (Ret [LNil, lstr ''Error params!''], w)
      else if fp = None then Some (Ret [LNil, lstr ''popen error!''], w)
      else
        (let ca = w_brk w;
             (p, w) = se_add api fd (DCok ca) (w\<lparr>w_brk := Suc ca\<rparr>);
             w = se_be_pri api p w;
             c = cosocket_zero\<lparr>ck_fp := fp, ck_L := Some L, ck_fd := fd, ck_ptr := p, ck_status := 2, ck_timeout := 30000\<rparr>
         in Some (Ret [LUserdata ca], put_cok ca c w)))"

definition close_pipe :: "net_env \<Rightarrow> se_api \<Rightarrow> addr \<Rightarrow> cosocket \<Rightarrow> world \<Rightarrow> (lua_ret \<times> world) option" where
  "close_pipe env api ca c w =
     (if ck_status c \<noteq> 2 then Some (Ret [LNil, lstr ''Not connected!''], w)
      else if ck_inuse c then Some (Ret [LNil, lstr ''socket busy!''], w)
      else do {
        let (c, w) = (if ck_fd c > - 1
                      then (c\<lparr>ck_ptr := None, ck_fd := - 1\<rparr>, emit (E_pclose (ck_fp c)) (se_delete api (ck_ptr c) w))
                      else (c, w));
        w \<leftarrow> lua_co_close_cok env api ca (put_cok ca c w);
        Some (Ret [], w) })"

definition lua_co_popen_close :: "net_env \<Rightarrow> se_api \<Rightarrow> lua_value list \<Rightarrow> world \<Rightarrow> (lua_ret \<times> world) option" where
  "lua_co_popen_close env api st w =
     (case arg st 1 of
        Some (LUserdata ca) \<Rightarrow> do { c \<leftarrow> w_coks w ca; close_pipe env api ca c w }
      | Some (LLight _) \<Rightarrow> None
      | _ \<Rightarrow> Some (Ret [LNil, lstr ''Error params!''], w))"

definition lua_co_popen_gc :: "net_env \<Rightarrow> se_api \<Rightarrow> lua_value list \<Rightarrow> world \<Rightarrow> (lua_ret \<times> world) option" where
  "lua_co_popen_gc env api st w =
     (case arg st 1 of
        Some (LUserdata ca) \<Rightarrow> do { c \<leftarrow> w_coks w ca; close_pipe env api ca c w }
      | Some (LLight _) \<Rightarrow> None
      | _ \<Rightarrow> Some (Ret [LNil, lstr ''Error params!''], w))"

end
