(* ===== verification/Escape.thy ===== *)
theory Escape
  imports Lua_Api
begin

text \<open>
  \<open>cosocket_lua_f_escape\<close> (\<open>lua-util.c\<close>): escaping a string for an SQL literal. The loop
  collects the escaped bytes in a small buffer and, whenever it holds four bytes or more,
  pushes it and concatenates it with what was pushed before.
\<close>

section \<open>The loop\<close>

text \<open>The bytes the \<open>switch\<close> writes for one character.\<close>

definition esc_char :: "char \<Rightarrow> bytes" where
  "esc_char c =
     (if c = CHR 0x0D then [CHR 0x5C, CHR ''r'']
      else if c = CHR 0x0A then [CHR 0x5C, CHR ''n'']
      else if c = CHR 0x5C then [CHR 0x5C, c]
      else if c = CHR 0x27 then [CHR 0x5C, c]
      else if c = CHR 0x22 then [CHR 0x5C, c]
      else if c = CHR 0x08 then [CHR 0x5C, CHR ''b'']
      else if c = CHR 0x09 then [CHR 0x5C, CHR ''t'']
      else if c = CHR 0x00 then [CHR 0x5C, CHR ''0'']
      else if c = CHR 0x1A then [CHR 0x5C, CHR ''Z'']
      else [c])"

text \<open>
  The loop state: \<open>dst\<close> the first \<open>j\<close> bytes of the buffer, \<open>top\<close> the string on the stack
  once \<open>has\<close> is set. The first component of the result records the largest \<open>j\<close> reached.
\<close>

record esc_state =
  es_dst :: bytes
  es_top :: "bytes option"
  es_high :: nat

definition flush :: "esc_state \<Rightarrow> esc_state" where
  "flush st = st\<lparr>es_top := Some (case es_top st of None \<Rightarrow> es_dst st | Some t \<Rightarrow> t @ es_dst st), es_dst := []\<rparr>"

definition esc_step :: "char \<Rightarrow> esc_state \<Rightarrow> esc_state" where
  "esc_step c st =
     (let st = (if length (es_dst st) \<ge> 4 then flush st else st);
          dst = es_dst st @ esc_char c
      in st\<lparr>es_dst := dst, es_high := max (es_high st) (length dst)\<rparr>)"

fun esc_loop :: "bytes \<Rightarrow> esc_state \<Rightarrow> esc_state" where
  "esc_loop [] st = st"
| "esc_loop (c # cs) st = esc_loop cs (esc_step c st)"

definition esc_init :: esc_state where
  "esc_init = \<lparr>es_dst = [], es_top = None, es_high = 0\<rparr>"

text \<open>
  \<open>luaL_checklstring\<close> raises an error for a value that is neither a string nor a number. The bytes are written to
  a static buffer of 4096 bytes or, for more than 2048 characters, to an allocated one; writing outside is undefined.
\<close>

definition esc_room :: "nat \<Rightarrow> nat option" where
  "esc_room slen = (if slen > 2048 then large_malloc (slen * 2) else Some 4096)"

definition cosocket_lua_f_escape :: "lua_lib \<Rightarrow> lua_value list \<Rightarrow> lua_ret option" where
  "cosocket_lua_f_escape lib st =
     (case (if lua_isnil st 1 then Some [] else lua_tolstring lib st 1) of
        None \<Rightarrow> Some (Raise ''bad argument #1'')
      | Some src \<Rightarrow> do {
          room \<leftarrow> esc_room (length src);
          let e = esc_loop src esc_init;
          if es_high e > room then None
          else Some (Ret [LString ((case es_top e of None \<Rightarrow> [] | Some t \<Rightarrow> t) @ es_dst e)]) })"

section \<open>What it computes\<close>

definition esc_text :: "esc_state \<Rightarrow> bytes" where
  "esc_text e = (case es_top e of None \<Rightarrow> [] | Some t \<Rightarrow> t) @ es_dst e"

lemma esc_step_text: "esc_text (esc_step c e) = esc_text e @ esc_char c"
  by (auto simp: esc_text_def esc_step_def flush_def Let_def split: option.splits)

lemma esc_loop_text: "esc_text (esc_loop cs e) = esc_text e @ concat (map esc_char cs)"
  by (induction cs arbitrary: e) (simp_all add: esc_step_text)

lemma length_esc_char: "length (esc_char c) \<le> 2"
  by (simp add: esc_char_def)

lemma esc_loop_high:
  "es_high e \<le> 5 \<Longrightarrow> es_high (esc_loop cs e) \<le> 5"
proof (induction cs arbitrary: e)
  case Nil
  then show ?case by simp
next
  case (Cons c cs)
  have "es_high (esc_step c e) \<le> 5"
    using Cons.prems length_esc_char [of c] by (auto simp: esc_step_def flush_def Let_def)
  with Cons.IH show ?case by simp
qed

text \<open>The decoder of the escaped form, to state that nothing is lost.\<close>

definition unesc_char :: "char \<Rightarrow> char" where
  "unesc_char c =
     (if c = CHR ''r'' then CHR 0x0D else if c = CHR ''n'' then CHR 0x0A
      else if c = CHR ''b'' then CHR 0x08 else if c = CHR ''t'' then CHR 0x09
      else if c = CHR ''0'' then CHR 0x00 else if c = CHR ''Z'' then CHR 0x1A else c)"

fun unescape :: "bytes \<Rightarrow> bytes" where
  "unescape [] = []"
| "unescape [c] = [c]"
| "unescape (c # d # cs) = (if c = CHR 0x5C then unesc_char d # unescape cs else c # unescape (d # cs))"

lemma unescape_char: "unescape (esc_char c @ cs) = c # unescape cs"
proof -
  have "unescape (c # cs) = c # unescape cs" if "c \<noteq> CHR 0x5C"
    using that by (cases cs) auto
  then show ?thesis by (simp add: esc_char_def unesc_char_def)
qed

lemma unescape_escape: "unescape (concat (map esc_char s)) = s"
  by (induction s) (simp_all add: unescape_char)

definition quoted_ok :: "bytes \<Rightarrow> bool" where
  "quoted_ok s \<longleftrightarrow> (\<forall>c \<in> {CHR 0x00, CHR 0x0A, CHR 0x0D, CHR 0x1A}. c \<notin> set s)"

fun bare_quote :: "bytes \<Rightarrow> bool" where
  "bare_quote [] = False"
| "bare_quote (c # cs) = (c = CHR 0x27 \<or> c = CHR 0x22 \<or> (if c = CHR 0x5C then bare_quote (tl cs) else bare_quote cs))"

lemma bare_quote_char: "bare_quote (esc_char c @ cs) = bare_quote cs"
  by (simp add: esc_char_def)

lemma escape_result:
  assumes "length s < 2 ^ 30 - 2048"
  shows "cosocket_lua_f_escape lib [LString s] = Some (Ret [LString (concat (map esc_char s))])"
proof -
  obtain room where room: "esc_room (length s) = Some room" "5 \<le> room"
    using large_malloc_room [of "length s * 2"] assms by (cases "2048 < length s") (auto simp: esc_room_def)
  have "es_high (esc_loop s esc_init) \<le> room"
    using esc_loop_high [of esc_init s] room(2) by (simp add: esc_init_def)
  then have "cosocket_lua_f_escape lib [LString s] = Some (Ret [LString (esc_text (esc_loop s esc_init))])"
    using room(1) by (simp add: cosocket_lua_f_escape_def lua_api_defs esc_text_def Let_def)
  also have "esc_text (esc_loop s esc_init) = concat (map esc_char s)"
    by (simp add: esc_loop_text) (simp add: esc_text_def esc_init_def)
  finally show ?thesis .
qed



end
