(* ===== verification/Uthread.thy ===== *)
theory Uthread
  imports Co_State
begin

text \<open>
  The coroutine library (\<open>lua-uthread.c\<close>): every coroutine the program knows has an entry that
  holds the coroutines waiting for its end, the number of coroutines it waits for itself and
  its reference in the Lua registry. The red-black tree that finds the entries belongs to
  the submodule; it is a parameter. So is \<open>lua_resume\<close>, which runs Lua code that may call back
  into this library.
\<close>

section \<open>State\<close>

text \<open>\<open>rb_key_t\<close>; \<open>rk_waiting\<close> holds the first \<open>n\<close> entries of the array \<open>waiting[6]\<close>.\<close>

record rb_key =
  rk_co :: lthread
  rk_waiting :: "lthread list"
  rk_wd :: bool
  rk_w :: "16 word"
  rk_ref :: u32

text \<open>The tree: \<open>None\<close> stands for a result other than \<open>RB_OK\<close>.\<close>

record 't rb_api =
  rb_tree_find :: "'t \<Rightarrow> lthread \<Rightarrow> addr option"
  rb_tree_insert :: "'t \<Rightarrow> lthread \<Rightarrow> addr \<Rightarrow> 't option"
  rb_tree_remove :: "'t \<Rightarrow> lthread \<Rightarrow> 't option"

text \<open>\<open>u_status\<close> is \<open>lua_status\<close>, \<open>u_log\<close> the calls of \<open>lua_resume\<close> with their arguments.\<close>

record 't uworld =
  u_tree :: 't
  u_keys :: "addr \<Rightarrow> rb_key option"
  u_brk :: nat
  u_refs :: u32
  u_unref :: "u32 list"
  u_status :: "lthread \<Rightarrow> int"
  u_stack :: "lthread \<Rightarrow> lua_value list"
  u_log :: "(lthread \<times> lua_value list) list"

type_synonym 't run_fn = "lthread \<Rightarrow> nat \<Rightarrow> 't uworld \<Rightarrow> int \<times> 't uworld"

definition poke_key :: "addr \<Rightarrow> (rb_key \<Rightarrow> rb_key) \<Rightarrow> 't uworld \<Rightarrow> 't uworld option" where
  "poke_key a f w = (case u_keys w a of None \<Rightarrow> None | Some k \<Rightarrow> Some (w\<lparr>u_keys := (u_keys w)(a \<mapsto> f k)\<rparr>))"

definition set_stack :: "lthread \<Rightarrow> lua_value list \<Rightarrow> 't uworld \<Rightarrow> 't uworld" where
  "set_stack L st w = w\<lparr>u_stack := (u_stack w)(L := st)\<rparr>"

section \<open>Operations\<close>

text \<open>The key of \<open>corotinue_rbtree_compare\<close> is the address of the coroutine.\<close>

definition corotinue_rbtree_compare :: "lthread \<Rightarrow> lthread \<Rightarrow> int" where
  "corotinue_rbtree_compare l r = (if l > r then 1 else if l < r then - 1 else 0)"

definition get_thread_rbtree_key :: "'t rb_api \<Rightarrow> lthread \<Rightarrow> 't uworld \<Rightarrow> ptr \<times> 't uworld" where
  "get_thread_rbtree_key rb co w =
     (case rb_tree_find rb (u_tree w) co of
        Some a \<Rightarrow> (Some a, w)
      | None \<Rightarrow>
          (let a = u_brk w; k = \<lparr>rk_co = co, rk_waiting = [], rk_wd = False, rk_w = 0, rk_ref = 0\<rparr>
           in case rb_tree_insert rb (u_tree w) co a of
                Some t \<Rightarrow> (Some a, w\<lparr>u_tree := t, u_brk := Suc a, u_keys := (u_keys w)(a \<mapsto> k)\<rparr>)
              | None \<Rightarrow> (None, w\<lparr>u_brk := Suc a\<rparr>)))"

text \<open>
  \<open>lua_newthread\<close>, the entry of the new coroutine with its reference, and the entry function
  on its stack: the common part of \<open>create\<close> and \<open>spawn\<close>.
\<close>

definition new_coroutine :: "'t rb_api \<Rightarrow> lua_value \<Rightarrow> 't uworld \<Rightarrow> (lthread \<times> 't uworld) option" where
  "new_coroutine rb fn w = do {
     let co = u_brk w;
     let w = w\<lparr>u_brk := Suc co, u_status := (u_status w)(co := 0)\<rparr>;
     let (key, w) = get_thread_rbtree_key rb co w;
     w \<leftarrow> (case key of
             None \<Rightarrow> Some w
           | Some a \<Rightarrow> poke_key a (rk_ref_update (\<lambda>_. u_refs w + 1)) (w\<lparr>u_refs := u_refs w + 1\<rparr>));
     Some (co, set_stack co [fn] w) }"

definition lua_f_lua_uthread_create :: "'t rb_api \<Rightarrow> lua_value list \<Rightarrow> 't uworld \<Rightarrow> (lua_ret \<times> 't uworld) option" where
  "lua_f_lua_uthread_create rb st w =
     (case arg st 1 of
        Some (LFun f) \<Rightarrow> do { (co, w) \<leftarrow> new_coroutine rb (LFun f) w; Some (Ret [LThread co], w) }
      | _ \<Rightarrow> Some (Raise ''Lua function expected'', w))"

text \<open>One coroutine of the list of \<open>wait\<close>: \<open>L\<close> is entered as waiting for \<open>co\<close>.\<close>

definition wait_one :: "'t rb_api \<Rightarrow> lthread \<Rightarrow> lua_value \<Rightarrow> nat \<times> 't uworld \<Rightarrow> (nat \<times> 't uworld) option" where
  "wait_one rb L v nw = (case nw of (waited, w) \<Rightarrow>
     case v of
       LThread co \<Rightarrow>
         if u_status w co = LUA_YIELD then
           (let (key, w) = get_thread_rbtree_key rb co w
            in case key of
                 None \<Rightarrow> Some (waited, w)
               | Some a \<Rightarrow> do {
                   k \<leftarrow> u_keys w a;
                   if length (rk_waiting k) < 6 then do {
                     w \<leftarrow> poke_key a (\<lambda>k. k\<lparr>rk_waiting := rk_waiting k @ [L]\<rparr>) w;
                     let (key, w) = get_thread_rbtree_key rb L w;
                     b \<leftarrow> key;
                     w \<leftarrow> poke_key b (\<lambda>k. k\<lparr>rk_w := rk_w k + 1, rk_wd := (rk_wd k \<or> rk_w k + 1 > 1)\<rparr>) w;
                     Some (Suc waited, w)
                   } else Some (waited, w) })
         else Some (waited, w)
     | _ \<Rightarrow> Some (waited, w))"

fun wait_all :: "'t rb_api \<Rightarrow> lthread \<Rightarrow> lua_value list \<Rightarrow> nat \<times> 't uworld \<Rightarrow> (nat \<times> 't uworld) option" where
  "wait_all rb L [] nw = Some nw"
| "wait_all rb L (v # vs) nw = Option.bind (wait_one rb L v nw) (wait_all rb L vs)"

text \<open>
  \<open>wait\<close>: \<open>items\<close> are the values the loop visits, the array part of a table (up to the
  border \<open>luaL_getn\<close> reports, a parameter) or all arguments.
\<close>

definition wait_items :: "nat \<Rightarrow> lua_value list \<Rightarrow> lua_value list" where
  "wait_items getn st = (case arg st 1 of
     Some (LTable kvs) \<Rightarrow>
       map (\<lambda>i. case map_of kvs (lint (int i)) of Some v \<Rightarrow> v | None \<Rightarrow> LNil) [1..<Suc getn]
   | Some (LThread _) \<Rightarrow> st
   | _ \<Rightarrow> [])"

definition lua_f_lua_uthread_wait :: "'t rb_api \<Rightarrow> nat \<Rightarrow> lthread \<Rightarrow> lua_value list \<Rightarrow> 't uworld \<Rightarrow> (lua_ret \<times> 't uworld) option" where
  "lua_f_lua_uthread_wait rb getn L st w = do {
     (waited, w) \<leftarrow> wait_all rb L (wait_items getn st) (0, w);
     Some (if waited > 0 then Yield else Ret [lint (int waited)], w) }"

text \<open>The stack after a failed \<open>lua_resume\<close>: nil and the error message, if there is room for both.\<close>

definition tidy_error :: "lua_value list \<Rightarrow> lua_value list" where
  "tidy_error st = (case drop (length st - 2) st of [] \<Rightarrow> [] | _ # r \<Rightarrow> LNil # r)"

definition run_logged :: "'t run_fn \<Rightarrow> lthread \<Rightarrow> nat \<Rightarrow> 't uworld \<Rightarrow> int \<times> 't uworld" where
  "run_logged run L nargs w =
     run L nargs (w\<lparr>u_log := u_log w @ [(L, drop (length (u_stack w L) - nargs) (u_stack w L))]\<rparr>)"

definition ref_of :: "ptr \<Rightarrow> 't uworld \<Rightarrow> u32 option" where
  "ref_of key w = (case key of None \<Rightarrow> Some 0 | Some a \<Rightarrow> map_option rk_ref (u_keys w a))"

definition drop_ref :: "u32 \<Rightarrow> 't uworld \<Rightarrow> 't uworld" where
  "drop_ref ref w = (if ref > 0 then w\<lparr>u_unref := u_unref w @ [ref]\<rparr> else w)"

text \<open>
  The loop over the coroutines that wait for \<open>L\<close>, whose entry is at \<open>a\<close>; \<open>n\<close> is the number of
  values \<open>L\<close> left on its stack and \<open>resume\<close> the function that resumes a waiting coroutine. The
  array has six places, so six steps are enough.
\<close>

type_synonym 't resume_in_c = "lthread \<Rightarrow> nat \<Rightarrow> 't uworld \<Rightarrow> (int \<times> 't uworld) option"

text \<open>What a waiting coroutine gets: the values of \<open>L\<close> if it waits for nobody else, a boolean otherwise.\<close>

definition wake_values :: "bool \<Rightarrow> nat \<Rightarrow> lua_value list \<Rightarrow> rb_key \<Rightarrow> lua_value list" where
  "wake_values deaded n st k = (if n > 0 \<and> \<not> rk_wd k then take n st else [LBool (rk_wd k \<or> deaded)])"

definition tell_one :: "'t rb_api \<Rightarrow> 't resume_in_c \<Rightarrow> lthread \<Rightarrow> bool \<Rightarrow> nat \<Rightarrow> lthread \<Rightarrow> 't uworld \<Rightarrow> 't uworld option" where
  "tell_one rb resume L deaded n co w = do {
     let (key, w) = get_thread_rbtree_key rb co w;
     if u_status w co = LUA_YIELD then do {
       b \<leftarrow> key;
       k \<leftarrow> u_keys w b;
       let w = w\<lparr>u_keys := (u_keys w)(b \<mapsto> k\<lparr>rk_w := rk_w k - 1\<rparr>)\<rparr>;
       if rk_w k - 1 = 0 then do {
         let vs = wake_values deaded n (u_stack w L) k;
         let w = w\<lparr>u_keys := (u_keys w)(b \<mapsto> k\<lparr>rk_w := 0, rk_wd := False\<rparr>)\<rparr>;
         (_, w) \<leftarrow> resume co (length vs) (set_stack co (u_stack w co @ vs) w);
         Some w
       } else Some w
     } else Some w }"

primrec tell_waiting :: "nat \<Rightarrow> 't rb_api \<Rightarrow> 't resume_in_c \<Rightarrow> lthread \<Rightarrow> bool \<Rightarrow> nat \<Rightarrow> addr \<Rightarrow> nat \<Rightarrow> 't uworld \<Rightarrow> 't uworld option" where
  "tell_waiting 0 rb resume L deaded n a i w = do {
     k \<leftarrow> u_keys w a;
     if i < length (rk_waiting k) then None else Some w }"
| "tell_waiting (Suc m) rb resume L deaded n a i w = do {
     k \<leftarrow> u_keys w a;
     if i < length (rk_waiting k) then do {
       w \<leftarrow> tell_one rb resume L deaded n (rk_waiting k ! i) w;
       tell_waiting m rb resume L deaded n a (Suc i) w
     } else Some w }"

definition lua_f_lua_uthread_resume_waitings ::
    "'t rb_api \<Rightarrow> 't resume_in_c \<Rightarrow> lthread \<Rightarrow> bool \<Rightarrow> 't uworld \<Rightarrow> 't uworld option" where
  "lua_f_lua_uthread_resume_waitings rb resume L deaded w =
     (case rb_tree_find rb (u_tree w) L of
        None \<Rightarrow> Some w
      | Some a \<Rightarrow> do {
          w \<leftarrow> tell_waiting 6 rb resume L deaded (length (u_stack w L)) a 0 w;
          Some (case rb_tree_remove rb (u_tree w) L of
                  None \<Rightarrow> w
                | Some t \<Rightarrow> w\<lparr>u_tree := t, u_keys := (u_keys w)(a := None)\<rparr>) })"

text \<open>A coroutine ended or failed: its entry goes, those that waited are told, its reference is dropped.\<close>

definition coroutine_over :: "'t rb_api \<Rightarrow> 't resume_in_c \<Rightarrow> lthread \<Rightarrow> int \<Rightarrow> 't uworld \<Rightarrow> 't uworld option" where
  "coroutine_over rb resume L status w = do {
     let w = (if status \<noteq> 0 then set_stack L (tidy_error (u_stack w L)) w else w);
     let (key, w) = get_thread_rbtree_key rb L w;
     ref \<leftarrow> ref_of key w;
     w \<leftarrow> lua_f_lua_uthread_resume_waitings rb resume L (status = 0) w;
     Some (drop_ref ref w) }"

text \<open>Resuming and telling the waiting coroutines call each other; the fuel counts the nesting.\<close>

primrec lua_f_lua_uthread_resume_in_c :: "nat \<Rightarrow> 't rb_api \<Rightarrow> 't run_fn \<Rightarrow> 't resume_in_c" where
  "lua_f_lua_uthread_resume_in_c 0 rb run = (\<lambda>L nargs w. None)"
| "lua_f_lua_uthread_resume_in_c (Suc f) rb run = (\<lambda>L nargs w. do {
     let (status, w) = run_logged run L nargs w;
     if status = LUA_YIELD then Some (status, w)
     else do {
       w \<leftarrow> coroutine_over rb (lua_f_lua_uthread_resume_in_c f rb run) L status w;
       Some (status, w) } })"

declare lua_f_lua_uthread_resume_in_c.simps [simp del]

definition error_value :: "lua_lib \<Rightarrow> lua_value list \<Rightarrow> lua_value" where
  "error_value lib st = (case lua_tostring lib st (length st) of Some s \<Rightarrow> LString s | None \<Rightarrow> LNil)"

definition lua_f_lua_uthread_resume ::
    "lua_lib \<Rightarrow> nat \<Rightarrow> 't rb_api \<Rightarrow> 't run_fn \<Rightarrow> lua_value list \<Rightarrow> 't uworld \<Rightarrow> (lua_ret \<times> 't uworld) option" where
  "lua_f_lua_uthread_resume lib f rb run st w =
     (case arg st 1 of
        Some (LThread co) \<Rightarrow>
          if u_status w co \<noteq> LUA_YIELD \<and> u_stack w co = []
          then Some (Ret [LBool False, lstr ''cannot resume dead coroutine''], w)
          else do {
            let w = set_stack co (u_stack w co @ tl st) w;
            let (status, w) = run_logged run co (length (tl st)) w;
            if status = LUA_YIELD then Some (Ret (LBool True # u_stack w co), set_stack co [] w)
            else do {
              let err = error_value lib (u_stack w co);
              w \<leftarrow> coroutine_over rb (lua_f_lua_uthread_resume_in_c f rb run) co status w;
              if status \<noteq> 0 then Some (Ret [LNil, err], w)
              else Some (Ret (LBool True # u_stack w co), set_stack co [] w) } }
      | _ \<Rightarrow> Some (Raise ''coroutine expected'', w))"

definition lua_f_lua_uthread_spawn ::
    "lua_lib \<Rightarrow> nat \<Rightarrow> 't rb_api \<Rightarrow> 't run_fn \<Rightarrow> lua_value list \<Rightarrow> 't uworld \<Rightarrow> (lua_ret \<times> 't uworld) option" where
  "lua_f_lua_uthread_spawn lib f rb run st w =
     (case arg st 1 of
        Some (LFun fn) \<Rightarrow> do {
          (co, w) \<leftarrow> new_coroutine rb (LFun fn) w;
          let w = set_stack co (u_stack w co @ tl st) w;
          (status, w) \<leftarrow> lua_f_lua_uthread_resume_in_c f rb run co (length (tl st)) w;
          if status \<noteq> LUA_YIELD \<and> status \<noteq> 0 then Some (Ret [LNil, error_value lib (u_stack w co)], w)
          else Some (Ret [LThread co], w) }
      | _ \<Rightarrow> Some (Raise ''Lua function expected'', w))"

section \<open>The entries\<close>

text \<open>What the library relies on of the tree: it is a dictionary.\<close>

definition rb_laws :: "'t rb_api \<Rightarrow> bool" where
  "rb_laws rb \<longleftrightarrow>
     (\<forall>t L a. rb_tree_find rb t L = None \<longrightarrow> (\<exists>t'. rb_tree_insert rb t L a = Some t'
        \<and> (\<forall>M. rb_tree_find rb t' M = (if M = L then Some a else rb_tree_find rb t M))))
     \<and> (\<forall>t L a. rb_tree_find rb t L = Some a \<longrightarrow> (\<exists>t'. rb_tree_remove rb t L = Some t'
        \<and> (\<forall>M. rb_tree_find rb t' M = (if M = L then None else rb_tree_find rb t M))))"

definition entry :: "'t rb_api \<Rightarrow> 't uworld \<Rightarrow> lthread \<Rightarrow> rb_key option" where
  "entry rb w L = Option.bind (rb_tree_find rb (u_tree w) L) (u_keys w)"

text \<open>The invariant: every entry of the tree is allocated, belongs to its coroutine and has at most six waiting.\<close>

definition u_ok :: "'t rb_api \<Rightarrow> 't uworld \<Rightarrow> bool" where
  "u_ok rb w \<longleftrightarrow> (\<forall>L a. rb_tree_find rb (u_tree w) L = Some a \<longrightarrow>
     a < u_brk w \<and> (\<exists>k. u_keys w a = Some k \<and> rk_co k = L \<and> length (rk_waiting k) \<le> 6))"

abbreviation blank :: "lthread \<Rightarrow> rb_key" where
  "blank L \<equiv> \<lparr>rk_co = L, rk_waiting = [], rk_wd = False, rk_w = 0, rk_ref = 0\<rparr>"

definition key_of :: "'t rb_api \<Rightarrow> 't uworld \<Rightarrow> lthread \<Rightarrow> rb_key" where
  "key_of rb w L = (case entry rb w L of None \<Rightarrow> blank L | Some k \<Rightarrow> k)"

lemma entry_unique:
  assumes "u_ok rb w" and "rb_tree_find rb (u_tree w) L = Some a" and "rb_tree_find rb (u_tree w) M = Some a"
  shows "L = M"
  using assms unfolding u_ok_def by (metis option.inject)

lemma get_key_ok:
  assumes laws: "rb_laws rb" and ok: "u_ok rb w"
  shows "\<exists>a t brk h. get_thread_rbtree_key rb L w = (Some a, w\<lparr>u_tree := t, u_brk := brk, u_keys := h\<rparr>)
     \<and> u_ok rb (w\<lparr>u_tree := t, u_brk := brk, u_keys := h\<rparr>) \<and> rb_tree_find rb t L = Some a \<and> h a = Some (key_of rb w L)
     \<and> (\<forall>M. key_of rb (w\<lparr>u_tree := t, u_brk := brk, u_keys := h\<rparr>) M = key_of rb w M)
     \<and> (entry rb w L \<noteq> None \<longrightarrow> t = u_tree w \<and> brk = u_brk w \<and> h = u_keys w)"
proof (cases "rb_tree_find rb (u_tree w) L")
  case (Some a)
  then obtain k where "u_keys w a = Some k" using ok unfolding u_ok_def by blast
  with Some ok show ?thesis
    by (intro exI [of _ a] exI [of _ "u_tree w"] exI [of _ "u_brk w"] exI [of _ "u_keys w"])
      (simp add: get_thread_rbtree_key_def key_of_def entry_def)
next
  case None
  let ?a = "u_brk w"
  obtain t where t: "rb_tree_insert rb (u_tree w) L ?a = Some t"
    "\<And>M. rb_tree_find rb t M = (if M = L then Some ?a else rb_tree_find rb (u_tree w) M)"
    using laws None unfolding rb_laws_def by blast
  let ?h = "(u_keys w)(?a \<mapsto> blank L)" and ?w' = "w\<lparr>u_tree := t, u_brk := Suc ?a, u_keys := (u_keys w)(?a \<mapsto> blank L)\<rparr>"
  have below: "b < ?a" if "rb_tree_find rb (u_tree w) M = Some b" for M b using ok that unfolding u_ok_def by blast
  have "u_ok rb ?w'"
    unfolding u_ok_def
  proof (intro allI impI, goal_cases)
    case (1 M b)
    show ?case
    proof (cases "M = L")
      case True
      with 1 t(2) show ?thesis by auto
    next
      case False
      then have "rb_tree_find rb (u_tree w) M = Some b" using 1 t(2) by simp
      moreover from this have "b < ?a" by (rule below)
      ultimately show ?thesis using ok unfolding u_ok_def by (auto simp: less_Suc_eq)
    qed
  qed
  moreover have "key_of rb ?w' M = key_of rb w M" for M
  proof (cases "M = L")
    case True
    then show ?thesis using t(2) None by (simp add: key_of_def entry_def)
  next
    case False
    then have "entry rb ?w' M = entry rb w M"
      using t(2) below by (cases "rb_tree_find rb (u_tree w) M") (auto simp: entry_def)
    then show ?thesis by (simp add: key_of_def)
  qed
  moreover have "get_thread_rbtree_key rb L w = (Some ?a, ?w')"
    using None t(1) by (simp add: get_thread_rbtree_key_def Let_def)
  moreover have "?h ?a = Some (key_of rb w L)" using None by (simp add: key_of_def entry_def)
  ultimately show ?thesis using t(2) None
    by (intro exI [of _ ?a] exI [of _ t] exI [of _ "Suc ?a"] exI [of _ ?h]) (simp add: entry_def)
qed

text \<open>Changing one entry in place.\<close>

lemma poke_key_ok:
  assumes ok: "u_ok rb w" and at: "rb_tree_find rb (u_tree w) L = Some a" "u_keys w a = Some k"
    and k': "rk_co k' = rk_co k" "length (rk_waiting k') \<le> 6"
  shows "u_ok rb (w\<lparr>u_keys := (u_keys w)(a \<mapsto> k')\<rparr>)"
    and "key_of rb (w\<lparr>u_keys := (u_keys w)(a \<mapsto> k')\<rparr>) M = (if M = L then k' else key_of rb w M)"
    and "entry rb (w\<lparr>u_keys := (u_keys w)(a \<mapsto> k')\<rparr>) M = (if M = L then Some k' else entry rb w M)"
proof -
  have other: "M = L" if "rb_tree_find rb (u_tree w) M = Some a" for M by (rule entry_unique [OF ok that at(1)])
  show "u_ok rb (w\<lparr>u_keys := (u_keys w)(a \<mapsto> k')\<rparr>)"
    unfolding u_ok_def
  proof (intro allI impI, goal_cases)
    case (1 M b)
    with ok have "b < u_brk w \<and> (\<exists>k. u_keys w b = Some k \<and> rk_co k = M \<and> length (rk_waiting k) \<le> 6)"
      by (simp add: u_ok_def)
    then show ?case using at(2) k' by auto
  qed
  show e: "entry rb (w\<lparr>u_keys := (u_keys w)(a \<mapsto> k')\<rparr>) M = (if M = L then Some k' else entry rb w M)"
  proof (cases "M = L")
    case False
    then have "rb_tree_find rb (u_tree w) M \<noteq> Some a" using other by blast
    then have "Option.bind (rb_tree_find rb (u_tree w) M) ((u_keys w)(a \<mapsto> k')) = Option.bind (rb_tree_find rb (u_tree w) M) (u_keys w)"
      by (cases "rb_tree_find rb (u_tree w) M") auto
    with False show ?thesis by (simp add: entry_def)
  qed (simp add: entry_def at)
  show "key_of rb (w\<lparr>u_keys := (u_keys w)(a \<mapsto> k')\<rparr>) M = (if M = L then k' else key_of rb w M)"
    using e by (simp add: key_of_def)
qed

section \<open>Waiting\<close>

text \<open>One registration: \<open>co\<close> has one more waiting for it, \<open>L\<close> waits for one more.\<close>

definition registered :: "lthread \<Rightarrow> lthread \<Rightarrow> (lthread \<Rightarrow> rb_key) \<Rightarrow> lthread \<Rightarrow> rb_key" where
  "registered L co K =
     (let K = K(co := (K co)\<lparr>rk_waiting := rk_waiting (K co) @ [L]\<rparr>)
      in K(L := (K L)\<lparr>rk_w := rk_w (K L) + 1, rk_wd := (rk_wd (K L) \<or> rk_w (K L) + 1 > 1)\<rparr>))"

definition takes_waiter :: "'t uworld \<Rightarrow> (lthread \<Rightarrow> rb_key) \<Rightarrow> lua_value \<Rightarrow> lthread option" where
  "takes_waiter w K v = (case v of
     LThread co \<Rightarrow> if u_status w co = LUA_YIELD \<and> length (rk_waiting (K co)) < 6 then Some co else None
   | _ \<Rightarrow> None)"

definition same_lua :: "'t uworld \<Rightarrow> 't uworld \<Rightarrow> bool" where
  "same_lua w w' \<longleftrightarrow> u_status w' = u_status w \<and> u_stack w' = u_stack w \<and> u_log w' = u_log w"

lemma wait_one_ok:
  assumes laws: "rb_laws rb" and ok: "u_ok rb w"
  shows "\<exists>w'. u_ok rb w' \<and> same_lua w w' \<and>
     (case takes_waiter w (key_of rb w) v of
        None \<Rightarrow> wait_one rb L v (n, w) = Some (n, w') \<and> key_of rb w' = key_of rb w
      | Some co \<Rightarrow> wait_one rb L v (n, w) = Some (Suc n, w') \<and> key_of rb w' = registered L co (key_of rb w))"
proof (cases "\<exists>co. v = LThread co \<and> u_status w co = LUA_YIELD")
  case False
  then have "takes_waiter w (key_of rb w) v = None" "wait_one rb L v (n, w) = Some (n, w)"
    by (auto simp: takes_waiter_def wait_one_def split: lua_value.splits)
  with ok show ?thesis by (intro exI [of _ w]) (simp add: same_lua_def)
next
  case True
  then obtain co where co: "v = LThread co" "u_status w co = LUA_YIELD" by blast
  obtain a t brk h where g: "get_thread_rbtree_key rb co w = (Some a, w\<lparr>u_tree := t, u_brk := brk, u_keys := h\<rparr>)"
    "u_ok rb (w\<lparr>u_tree := t, u_brk := brk, u_keys := h\<rparr>)" "rb_tree_find rb t co = Some a" "h a = Some (key_of rb w co)"
    "\<And>M. key_of rb (w\<lparr>u_tree := t, u_brk := brk, u_keys := h\<rparr>) M = key_of rb w M"
    using get_key_ok [OF laws ok, of co] by blast
  let ?w1 = "w\<lparr>u_tree := t, u_brk := brk, u_keys := h\<rparr>" and ?k = "key_of rb w co"
  show ?thesis
  proof (cases "length (rk_waiting ?k) < 6")
    case False
    then have "takes_waiter w (key_of rb w) v = None" "wait_one rb L v (n, w) = Some (n, ?w1)"
      using co g by (simp_all add: takes_waiter_def wait_one_def)
    with g show ?thesis by (intro exI [of _ ?w1]) (auto simp: same_lua_def)
  next
    case room: True
    let ?k1 = "?k\<lparr>rk_waiting := rk_waiting ?k @ [L]\<rparr>"
    define w2 where "w2 = ?w1\<lparr>u_keys := h(a \<mapsto> ?k1)\<rparr>"
    have ok2: "u_ok rb w2" and key2: "\<And>M. key_of rb w2 M = (if M = co then ?k1 else key_of rb w M)"
      using poke_key_ok(1,2) [of rb ?w1 co a ?k ?k1] g room by (simp_all add: w2_def)
    obtain b t' brk' h' where g2: "get_thread_rbtree_key rb L w2 = (Some b, w2\<lparr>u_tree := t', u_brk := brk', u_keys := h'\<rparr>)"
      "u_ok rb (w2\<lparr>u_tree := t', u_brk := brk', u_keys := h'\<rparr>)" "rb_tree_find rb t' L = Some b" "h' b = Some (key_of rb w2 L)"
      "\<And>M. key_of rb (w2\<lparr>u_tree := t', u_brk := brk', u_keys := h'\<rparr>) M = key_of rb w2 M"
      using get_key_ok [OF laws ok2, of L] by blast
    let ?w3 = "w2\<lparr>u_tree := t', u_brk := brk', u_keys := h'\<rparr>" and ?l = "key_of rb w2 L"
    let ?l1 = "?l\<lparr>rk_w := rk_w ?l + 1, rk_wd := (rk_wd ?l \<or> rk_w ?l + 1 > 1)\<rparr>"
    define w4 where "w4 = ?w3\<lparr>u_keys := h'(b \<mapsto> ?l1)\<rparr>"
    have "length (rk_waiting ?l) \<le> 6" using g2 unfolding u_ok_def by fastforce
    then have ok4: "u_ok rb w4" and key4: "\<And>M. key_of rb w4 M = (if M = L then ?l1 else key_of rb w2 M)"
      using poke_key_ok(1,2) [of rb ?w3 L b ?l ?l1] g2 by (simp_all add: w4_def)
    have "wait_one rb L v (n, w) = Some (Suc n, w4)"
      using co g(1,4) room g2(1,4) by (simp add: wait_one_def poke_key_def w4_def w2_def)
    moreover have "key_of rb w4 = registered L co (key_of rb w)"
      by (rule ext) (simp add: key4 key2 registered_def Let_def)
    moreover have "takes_waiter w (key_of rb w) v = Some co" using co room by (simp add: takes_waiter_def)
    ultimately show ?thesis using ok4 by (intro exI [of _ w4]) (simp add: same_lua_def w4_def w2_def)
  qed
qed

text \<open>All registrations of a call, in order, against the entries as they were left by the ones before.\<close>

fun register_all :: "'t uworld \<Rightarrow> lthread \<Rightarrow> lua_value list \<Rightarrow> (lthread \<Rightarrow> rb_key) \<Rightarrow> (lthread \<Rightarrow> rb_key) \<times> nat" where
  "register_all w L [] K = (K, 0)"
| "register_all w L (v # vs) K = (case takes_waiter w K v of
     None \<Rightarrow> register_all w L vs K
   | Some co \<Rightarrow> (case register_all w L vs (registered L co K) of (K', n) \<Rightarrow> (K', Suc n)))"

lemma takes_waiter_cong: "same_lua w w' \<Longrightarrow> takes_waiter w' K v = takes_waiter w K v"
  by (simp add: takes_waiter_def same_lua_def split: lua_value.splits)

lemma register_all_cong: "same_lua w w' \<Longrightarrow> register_all w' L vs K = register_all w L vs K"
  by (induction vs arbitrary: K) (simp_all add: takes_waiter_cong split: option.split)

lemma wait_all_ok:
  assumes "rb_laws rb" and "u_ok rb w"
  shows "\<exists>w'. wait_all rb L vs (n, w) = Some (n + snd (register_all w L vs (key_of rb w)), w') \<and> u_ok rb w' \<and> same_lua w w'
     \<and> key_of rb w' = fst (register_all w L vs (key_of rb w))"
  using assms(2)
proof (induction vs arbitrary: n w)
  case Nil
  then show ?case by (simp add: same_lua_def)
next
  case (Cons v vs)
  from wait_one_ok [OF assms(1) Cons.prems, where v = v and L = L and n = n] obtain w1 where
    w1: "u_ok rb w1" "same_lua w w1" and run: "case takes_waiter w (key_of rb w) v of
        None \<Rightarrow> wait_one rb L v (n, w) = Some (n, w1) \<and> key_of rb w1 = key_of rb w
      | Some co \<Rightarrow> wait_one rb L v (n, w) = Some (Suc n, w1) \<and> key_of rb w1 = registered L co (key_of rb w)" by blast
  have trans: "same_lua w1 w' \<Longrightarrow> same_lua w w'" for w' using w1(2) by (simp add: same_lua_def)
  from Cons.IH [OF w1(1), of n] Cons.IH [OF w1(1), of "Suc n"] run trans show ?case
    by (cases "takes_waiter w (key_of rb w) v")
      (fastforce simp: register_all_cong [OF w1(2)] split: prod.split)+
qed

lemma registered_pending [simp]: "rk_w (registered L co K L) = rk_w (K L) + 1"
  by (simp add: registered_def Let_def)

lemma register_all_pending:
  "rk_w (fst (register_all w L vs K) L) = rk_w (K L) + of_nat (snd (register_all w L vs K))"
  by (induction vs arbitrary: K) (simp_all add: case_prod_beta split: option.split)


section \<open>The end of a coroutine\<close>

text \<open>Lua code that, once resumed, suspends itself again without using this library.\<close>

definition suspends :: "'t run_fn \<Rightarrow> bool" where
  "suspends run \<longleftrightarrow> (\<forall>L n w. \<exists>st. run L n w = (LUA_YIELD, set_stack L st w))"

definition told :: "rb_key \<Rightarrow> rb_key" where
  "told k = (if rk_w k = 1 then k\<lparr>rk_w := 0, rk_wd := False\<rparr> else k\<lparr>rk_w := rk_w k - 1\<rparr>)"

lemma told_simps [simp]: "rk_co (told k) = rk_co k" "rk_waiting (told k) = rk_waiting k"
  by (simp_all add: told_def)

definition wake_log :: "bool \<Rightarrow> lua_value list \<Rightarrow> lthread \<Rightarrow> rb_key option \<Rightarrow> (lthread \<times> lua_value list) list" where
  "wake_log deaded vs co e = (case e of
     None \<Rightarrow> []
   | Some k \<Rightarrow> if rk_w k = 1 then [(co, wake_values deaded (length vs) vs k)] else [])"

lemma entry_find:
  assumes "u_ok rb w" and "entry rb w co = Some k"
  shows "\<exists>a. rb_tree_find rb (u_tree w) co = Some a \<and> u_keys w a = Some k \<and> length (rk_waiting k) \<le> 6"
  using assms unfolding u_ok_def entry_def by (cases "rb_tree_find rb (u_tree w) co") fastforce+

lemma tell_one_ok:
  assumes laws: "rb_laws rb" and ok: "u_ok rb w" and run: "suspends run" and e: "entry rb w co = Some k"
    and susp: "u_status w co = LUA_YIELD" and ne: "co \<noteq> L" and n: "n = length (u_stack w L)"
  shows "\<exists>w'. tell_one rb (lua_f_lua_uthread_resume_in_c (Suc f) rb run) L deaded n co w = Some w' \<and> u_ok rb w'
     \<and> (\<forall>M. entry rb w' M = (if M = co then Some (told k) else entry rb w M)) \<and> u_tree w' = u_tree w
     \<and> u_status w' = u_status w \<and> u_stack w' L = u_stack w L \<and> u_unref w' = u_unref w
     \<and> u_log w' = u_log w @ wake_log deaded (u_stack w L) co (Some k)"
proof -
  obtain b where b: "rb_tree_find rb (u_tree w) co = Some b" "u_keys w b = Some k" "length (rk_waiting k) \<le> 6"
    using entry_find [OF ok e] by blast
  have get: "get_thread_rbtree_key rb co w = (Some b, w)" using b by (simp add: get_thread_rbtree_key_def)
  have upd: "u_ok rb (w\<lparr>u_keys := (u_keys w)(b \<mapsto> told k)\<rparr>)"
    "entry rb (w\<lparr>u_keys := (u_keys w)(b \<mapsto> told k)\<rparr>) M = (if M = co then Some (told k) else entry rb w M)" for M
    using poke_key_ok(1,3) [OF ok b(1,2), of "told k"] b(3) by simp_all
  have frame: "u_ok rb (w'\<lparr>u_stack := s, u_log := l\<rparr>) = u_ok rb w'" "entry rb (w'\<lparr>u_stack := s, u_log := l\<rparr>) M = entry rb w' M" for w' s l M
    by (simp_all add: u_ok_def entry_def)
  show ?thesis
  proof (cases "rk_w k = 1")
    case False
    then have "rk_w k - 1 \<noteq> 0" by simp
    then have "tell_one rb (lua_f_lua_uthread_resume_in_c (Suc f) rb run) L deaded n co w = Some (w\<lparr>u_keys := (u_keys w)(b \<mapsto> told k)\<rparr>)"
      using get susp b False by (simp add: tell_one_def told_def)
    with upd False show ?thesis by (simp add: wake_log_def)
  next
    case True
    let ?vs = "wake_values deaded n (u_stack w L) k"
    define w2 where "w2 = w\<lparr>u_keys := (u_keys w)(b \<mapsto> told k)\<rparr>"
    define w3 where "w3 = set_stack co (u_stack w co @ ?vs) w2"
    obtain st where st: "run co (length ?vs) (w3\<lparr>u_log := u_log w3 @ [(co, ?vs)]\<rparr>)
        = (LUA_YIELD, set_stack co st (w3\<lparr>u_log := u_log w3 @ [(co, ?vs)]\<rparr>))"
      using run unfolding suspends_def by blast
    let ?w' = "set_stack co st (w3\<lparr>u_log := u_log w3 @ [(co, ?vs)]\<rparr>)"
    have "lua_f_lua_uthread_resume_in_c (Suc f) rb run co (length ?vs) w3 = Some (LUA_YIELD, ?w')"
      using st by (simp add: lua_f_lua_uthread_resume_in_c.simps run_logged_def w3_def set_stack_def Let_def)
    then have "tell_one rb (lua_f_lua_uthread_resume_in_c (Suc f) rb run) L deaded n co w = Some ?w'"
      using get susp b True
      by (simp add: tell_one_def told_def w3_def w2_def set_stack_def Let_def)
    moreover have "u_ok rb ?w'" "\<And>M. entry rb ?w' M = entry rb w2 M"
      using upd(1) by (simp_all add: set_stack_def w3_def w2_def u_ok_def entry_def)
    ultimately show ?thesis using upd(2) True ne n
      by (intro exI [of _ ?w']) (simp add: wake_log_def w3_def w2_def set_stack_def)
  qed
qed

lemma tell_waiting_ok:
  assumes laws: "rb_laws rb" and run: "suspends run" and fnd: "rb_tree_find rb (u_tree w) L = Some a"
    and kL: "u_keys w a = Some kL" and "length (rk_waiting kL) \<le> i + m" and ok: "u_ok rb w"
    and "distinct (drop i (rk_waiting kL))" and "L \<notin> set (rk_waiting kL)"
    and "\<forall>co \<in> set (drop i (rk_waiting kL)). u_status w co = LUA_YIELD \<and> entry rb w co \<noteq> None"
  shows "\<exists>w'. tell_waiting m rb (lua_f_lua_uthread_resume_in_c (Suc f) rb run) L deaded (length (u_stack w L)) a i w = Some w'
     \<and> u_ok rb w' \<and> u_tree w' = u_tree w \<and> u_unref w' = u_unref w
     \<and> (\<forall>M. entry rb w' M = (if M \<in> set (drop i (rk_waiting kL)) then map_option told (entry rb w M) else entry rb w M))
     \<and> u_log w' = u_log w @ concat (map (\<lambda>co. wake_log deaded (u_stack w L) co (entry rb w co)) (drop i (rk_waiting kL)))"
  using assms(3-)
proof (induction m arbitrary: i w)
  case 0
  then show ?case by simp
next
  case (Suc m)
  show ?case
  proof (cases "i < length (rk_waiting kL)")
    case False
    with Suc.prems show ?thesis by simp
  next
    case True
    let ?co = "rk_waiting kL ! i"
    have dr: "drop i (rk_waiting kL) = ?co # drop (Suc i) (rk_waiting kL)" using True by (simp add: Cons_nth_drop_Suc)
    have ne: "?co \<noteq> L" using Suc.prems(6) True nth_mem by metis
    obtain k where k: "entry rb w ?co = Some k" "u_status w ?co = LUA_YIELD" using Suc.prems(7) dr by auto
    obtain w1 where w1: "tell_one rb (lua_f_lua_uthread_resume_in_c (Suc f) rb run) L deaded (length (u_stack w L)) ?co w = Some w1"
      "u_ok rb w1" "\<And>M. entry rb w1 M = (if M = ?co then Some (told k) else entry rb w M)" "u_tree w1 = u_tree w"
      "u_status w1 = u_status w" "u_stack w1 L = u_stack w L" "u_unref w1 = u_unref w"
      "u_log w1 = u_log w @ wake_log deaded (u_stack w L) ?co (Some k)"
      using tell_one_ok [OF laws Suc.prems(4) run k ne refl, of f deaded] by blast
    have "entry rb w1 L = Some kL" using w1(3) [of L] ne Suc.prems(1,2) by (simp add: entry_def)
    then have kL1: "u_keys w1 a = Some kL" using Suc.prems(1) w1(4) by (simp add: entry_def)
    have rest: "?co \<notin> set (drop (Suc i) (rk_waiting kL))" using Suc.prems(5) dr by simp
    have "\<forall>co \<in> set (drop (Suc i) (rk_waiting kL)). u_status w1 co = LUA_YIELD \<and> entry rb w1 co \<noteq> None"
      using Suc.prems(7) w1(3,5) dr rest by auto
    note IH = Suc.IH [OF _ kL1 _ w1(2) _ Suc.prems(6) this, unfolded w1(4), OF Suc.prems(1)]
    obtain w' where
      w': "tell_waiting m rb (lua_f_lua_uthread_resume_in_c (Suc f) rb run) L deaded (length (u_stack w1 L)) a (Suc i) w1 = Some w'"
        "u_ok rb w'" "u_tree w' = u_tree w" "u_unref w' = u_unref w1"
        "\<And>M. entry rb w' M = (if M \<in> set (drop (Suc i) (rk_waiting kL)) then map_option told (entry rb w1 M) else entry rb w1 M)"
        "u_log w' = u_log w1 @ concat (map (\<lambda>co. wake_log deaded (u_stack w1 L) co (entry rb w1 co)) (drop (Suc i) (rk_waiting kL)))"
      using IH Suc.prems(3,5) dr by fastforce
    have same: "map (\<lambda>co. wake_log deaded (u_stack w L) co (entry rb w1 co)) (drop (Suc i) (rk_waiting kL))
        = map (\<lambda>co. wake_log deaded (u_stack w L) co (entry rb w co)) (drop (Suc i) (rk_waiting kL))"
      using rest w1(3) by (intro map_cong refl) metis
    have log: "u_log w' = u_log w @ concat (map (\<lambda>co. wake_log deaded (u_stack w L) co (entry rb w co)) (drop i (rk_waiting kL)))"
      unfolding w'(6) w1(6) same w1(8) dr using k by simp
    have "entry rb w' M = (if M \<in> set (drop i (rk_waiting kL)) then map_option told (entry rb w M) else entry rb w M)" for M
      using w'(5) [of M] w1(3) [of M] rest k dr by auto
    with w1 w' log Suc.prems(2) True show ?thesis
      by (intro exI [of _ w']) (simp)
  qed
qed

text \<open>The entry goes when the loop is done.\<close>

lemma resume_waitings_ok:
  assumes laws: "rb_laws rb" and run: "suspends run" and ok: "u_ok rb w" and e: "entry rb w L = Some kL"
    and dis: "distinct (rk_waiting kL)" "L \<notin> set (rk_waiting kL)"
    and susp: "\<forall>co \<in> set (rk_waiting kL). u_status w co = LUA_YIELD \<and> entry rb w co \<noteq> None"
  shows "\<exists>w'. lua_f_lua_uthread_resume_waitings rb (lua_f_lua_uthread_resume_in_c (Suc f) rb run) L deaded w = Some w'
     \<and> u_ok rb w' \<and> u_unref w' = u_unref w
     \<and> (\<forall>M. entry rb w' M = (if M = L then None else if M \<in> set (rk_waiting kL) then map_option told (entry rb w M) else entry rb w M))
     \<and> u_log w' = u_log w @ concat (map (\<lambda>co. wake_log deaded (u_stack w L) co (entry rb w co)) (rk_waiting kL))"
proof -
  obtain a where a: "rb_tree_find rb (u_tree w) L = Some a" "u_keys w a = Some kL" "length (rk_waiting kL) \<le> 6"
    using entry_find [OF ok e] by blast
  obtain w1 where w1: "tell_waiting 6 rb (lua_f_lua_uthread_resume_in_c (Suc f) rb run) L deaded (length (u_stack w L)) a 0 w = Some w1"
     "u_ok rb w1" "u_tree w1 = u_tree w" "u_unref w1 = u_unref w"
     "\<And>M. entry rb w1 M = (if M \<in> set (rk_waiting kL) then map_option told (entry rb w M) else entry rb w M)"
     "u_log w1 = u_log w @ concat (map (\<lambda>co. wake_log deaded (u_stack w L) co (entry rb w co)) (rk_waiting kL))"
    using tell_waiting_ok [OF laws run a(1,2), of 0 6 f deaded] a(3) ok dis susp by auto
  obtain t where t: "rb_tree_remove rb (u_tree w1) L = Some t"
    "\<And>M. rb_tree_find rb t M = (if M = L then None else rb_tree_find rb (u_tree w1) M)"
    using laws a(1) w1(3) unfolding rb_laws_def by metis
  define w' where "w' = w1\<lparr>u_tree := t, u_keys := (u_keys w1)(a := None)\<rparr>"
  have ne: "rb_tree_find rb (u_tree w1) M \<noteq> Some a" if "M \<noteq> L" for M
    using entry_unique [OF w1(2), of M a L] that a(1) w1(3) by auto
  have ent: "entry rb w' M = (if M = L then None else entry rb w1 M)" for M
    using t(2) ne [of M] by (cases "rb_tree_find rb (u_tree w1) M") (auto simp: entry_def w'_def)
  have "u_ok rb w'"
    using w1(2) t(2) ne unfolding u_ok_def w'_def by (auto split: if_splits)
  moreover have "lua_f_lua_uthread_resume_waitings rb (lua_f_lua_uthread_resume_in_c (Suc f) rb run) L deaded w = Some w'"
    using a(1) w1(1) t(1) by (simp add: lua_f_lua_uthread_resume_waitings_def w'_def)
  moreover have "u_unref w' = u_unref w" "u_log w' = u_log w1" using w1(4) by (simp_all add: w'_def)
  ultimately show ?thesis using w1(5,6) ent by (intro exI [of _ w']) simp
qed


section \<open>A concrete tree\<close>

text \<open>A dictionary as the tree; coroutine 1 is suspended, coroutine 2 waits for it.\<close>

definition demo_rb :: "(lthread \<Rightarrow> addr option) rb_api" where
  "demo_rb = \<lparr>rb_tree_find = (\<lambda>t L. t L), rb_tree_insert = (\<lambda>t L a. Some (t(L \<mapsto> a))), rb_tree_remove = (\<lambda>t L. Some (t(L := None)))\<rparr>"

definition demo_threads :: "(lthread \<Rightarrow> addr option) uworld" where
  "demo_threads = \<lparr>u_tree = [1 \<mapsto> 11, 2 \<mapsto> 12], u_keys = [11 \<mapsto> (blank 1)\<lparr>rk_waiting := [2], rk_ref := 5\<rparr>, 12 \<mapsto> (blank 2)\<lparr>rk_w := 1\<rparr>],
     u_brk = 20, u_refs = 5, u_unref = [], u_status = (\<lambda>_. LUA_YIELD), u_stack = (\<lambda>_. []), u_log = []\<rparr>"

abbreviation demo_run :: "(lthread \<Rightarrow> addr option) run_fn" where
  "demo_run \<equiv> \<lambda>L n w. (LUA_YIELD, set_stack L [] w)"

lemma demo_rb_laws: "rb_laws demo_rb"
  by (simp add: rb_laws_def demo_rb_def)

lemma demo_threads_ok: "u_ok demo_rb demo_threads"
  by (simp add: u_ok_def demo_rb_def demo_threads_def)

lemma demo_suspends: "suspends demo_run"
  by (auto simp: suspends_def)



end
