(* ===== verification/Resolver.thy ===== *)
theory Resolver
  imports Sock_Ops
begin

text \<open>
  The DNS helper (\<open>lua-resolver.c\<close>): building a query packet for a host name and reading the
  addresses out of an answer. Packets are byte strings; positions are indices into them. The
  struct \<open>dns_query_header_t\<close> of the submodule overlays the twelve bytes of the DNS header (six
  big-endian 16-bit fields), its member \<open>data\<close> is what follows. An access outside the memory
  of a buffer or a read of an uninitialised byte is \<open>None\<close>.
\<close>

section \<open>Bytes\<close>

abbreviation byte :: "nat \<Rightarrow> char" where "byte n \<equiv> char_of n"

definition be16 :: "nat \<Rightarrow> bytes" where
  "be16 n = [byte (n div 256), byte n]"

definition get16 :: "bytes \<Rightarrow> nat \<Rightarrow> nat" where
  "get16 s i = of_char (s ! i) * 256 + of_char (s ! Suc i)"

text \<open>A Lua string is followed by a NUL byte, which the code may read but nothing beyond.\<close>

definition rd :: "bytes \<Rightarrow> nat \<Rightarrow> nat option" where
  "rd s i = (if i < length s then Some (of_char (s ! i)) else if i = length s then Some 0 else None)"

definition rd16 :: "bytes \<Rightarrow> nat \<Rightarrow> nat option" where
  "rd16 s i = do { a \<leftarrow> rd s i; b \<leftarrow> rd s (Suc i); Some (a * 256 + b) }"

section \<open>Building a query\<close>

text \<open>\<open>if(++dns_tid > 65535 - 1) dns_tid = 1\<close> on an unsigned 16-bit variable\<close>

definition next_tid :: "16 word \<Rightarrow> 16 word" where
  "next_tid t = (if t + 1 > 65534 then 1 else t + 1)"

text \<open>
  The \<open>do \<dots> while\<close> that encodes the name: each chunk up to the next dot, or to the end of the
  string if no dot comes before a NUL, is preceded by its length.
\<close>

function encode_name :: "bytes \<Rightarrow> bytes" where
  "encode_name name =
     (let n = length (takeWhile (\<lambda>c. c \<noteq> CHR ''.'' \<and> c \<noteq> CHR 0x00) name)
      in if n < length name \<and> name ! n = CHR ''.''
         then byte n # take n name @ encode_name (drop (Suc n) name)
         else byte (length name) # name)"
  by auto
termination by (relation "measure length") auto

declare encode_name.simps [simp del]

definition query_header :: "16 word \<Rightarrow> bytes" where
  "query_header tid = be16 (unat tid) @ be16 0x100 @ be16 1 @ be16 0 @ be16 0 @ be16 0"

text \<open>The EDNS record with the client subnet; \<open>ip\<close> are the bytes of \<open>inet_addr\<close>.\<close>

definition client_subnet :: "bytes \<Rightarrow> bytes" where
  "client_subnet ip =
     map byte [0, 0, 41, 16, 0, 0, 0, 128, 0, 0, 12, 0, 8, 0, 8, 0, 1, 18, 0] @ [ip ! 0, ip ! 1, ip ! 2, byte 0]"

definition query_packet :: "16 word \<Rightarrow> bytes \<Rightarrow> bytes option \<Rightarrow> bytes" where
  "query_packet tid name client =
     (let q = query_header tid @ encode_name name @ map byte [0, 0, 1, 0, 1]
      in case client of None \<Rightarrow> q | Some ip \<Rightarrow> q[11 := byte 1] @ client_subnet ip)"

definition lua_co_build_dns_query_packet ::
    "lua_lib \<Rightarrow> (bytes \<Rightarrow> bytes) \<Rightarrow> lua_value list \<Rightarrow> 16 word \<Rightarrow> (lua_ret \<times> 16 word) option" where
  "lua_co_build_dns_query_packet lib inet_addr st dns_tid = do {
     name \<leftarrow> lua_tolstring lib st 1;
     let client = (if lua_gettop st > 1 then lua_tostring lib st 2 else None);
     let tid = next_tid dns_tid;
     let q = query_packet tid name (map_option inet_addr client);
     if length q > 4096 then None else Some (Ret [LString q], tid) }"

section \<open>Reading an answer\<close>

text \<open>Skipping the host name of the question: the position of the first NUL byte at or after \<open>p\<close>.\<close>

function skip_name :: "bytes \<Rightarrow> nat \<Rightarrow> nat" where
  "skip_name s p = (if p < length s \<and> s ! p \<noteq> CHR 0x00 then skip_name s (Suc p) else p)"
  by auto
termination by (relation "measure (\<lambda>(s, p). length s - p)") auto

declare skip_name.simps [simp del]

text \<open>\<open>while(*p && &p[12] < e) p++\<close>\<close>

function skip_cname :: "bytes \<Rightarrow> nat \<Rightarrow> nat" where
  "skip_cname s p = (if p + 12 < length s \<and> s ! p \<noteq> CHR 0x00 then skip_cname s (Suc p) else p)"
  by auto
termination by (relation "measure (\<lambda>(s, p). length s - p)") auto

declare skip_cname.simps [simp del]

text \<open>
  The addresses \<open>ips[10]\<close> as forty bytes, not initialised at first. Copying an answer writes
  \<open>dlen\<close> bytes from the place of the next address on; past the array is undefined.
\<close>

definition store_ip :: "char cell list \<Rightarrow> nat \<Rightarrow> bytes \<Rightarrow> char cell list option" where
  "store_ip ips found d =
     (if 4 * found + length d > length ips then None
      else Some (take (4 * found) ips @ map Init d @ drop (4 * found + length d) ips))"

text \<open>
  Where the fixed part of the answer at \<open>p\<close> starts: at the compression pointer, or at the last
  byte of a spelled-out name.
\<close>

definition answer_at :: "bytes \<Rightarrow> nat \<Rightarrow> nat" where
  "answer_at s p = (if s ! p \<noteq> CHR 0xC0 then skip_cname s p - 1 else p)"

lemma skip_cname_ge: "p \<le> skip_cname s p"
proof (induction s p rule: skip_cname.induct)
  case (1 s p)
  then show ?case
    by (cases "p + 12 < length s \<and> s ! p \<noteq> CHR 0x00") (subst skip_cname.simps, simp)+
qed

lemma answer_at_ge: "p < answer_at s p + 12"
  using skip_cname_ge [of p s] by (auto simp: answer_at_def)

text \<open>
  The loop over the answers: \<open>nans\<close> is the number of answers as it is in memory (in network
  byte order); the result is the number of addresses and the array.
\<close>

function parse_answers :: "bytes \<Rightarrow> nat \<Rightarrow> nat \<Rightarrow> nat \<Rightarrow> char cell list \<Rightarrow> (nat \<times> char cell list) option" where
  "parse_answers s nans p found ips =
     (if p + 12 < length s then
        (let q = answer_at s p; typ = get16 s (q + 2); dlen = get16 s (q + 10)
         in if typ = 5 then parse_answers s nans (q + 12 + dlen) found ips
            else if typ = 1 then
              (case (if q + 12 + dlen \<le> length s then store_ip ips found (take dlen (drop (q + 12) s)) else Some ips) of
                 None \<Rightarrow> None
               | Some ips' \<Rightarrow>
                   if Suc found = nans \<or> Suc found \<ge> 10 then Some (Suc found, ips')
                   else parse_answers s nans (q + 12 + dlen) (Suc found) ips')
            else Some (found, ips))
      else Some (found, ips))"
  by auto
termination
proof (relation "measure (\<lambda>(s, nans, p, found, ips). length s - p)", goal_cases)
  case (2 s nans p found ips)
  then show ?case using answer_at_ge [of p s] by simp
next
  case (3 s nans p found ips)
  then show ?case using answer_at_ge [of p s] by simp
qed simp

declare parse_answers.simps [simp del]

definition ip_at :: "char cell list \<Rightarrow> nat \<Rightarrow> bytes option" where
  "ip_at ips i = those (map (\<lambda>c. case c of Init b \<Rightarrow> Some b | Garbage \<Rightarrow> None) (take 4 (drop (4 * i) ips)))"

definition inet_ntoa :: "bytes \<Rightarrow> string" where
  "inet_ntoa ip = digits (of_char (ip ! 0)) @ ''.'' @ digits (of_char (ip ! 1)) @ ''.'' @ digits (of_char (ip ! 2))
     @ ''.'' @ digits (of_char (ip ! 3))"

text \<open>The values returned: the first address and, if there are several, the table of all.\<close>

definition ip_results :: "nat \<Rightarrow> char cell list \<Rightarrow> lua_value list option" where
  "ip_results found ips = do {
     as \<leftarrow> those (map (ip_at ips) [0..<found]);
     Some (case as of
             [] \<Rightarrow> []
           | [a] \<Rightarrow> [LString (inet_ntoa a)]
           | a # _ \<Rightarrow> [LString (inet_ntoa a), LTable (zip (map (\<lambda>i. lint (int i)) [1..<Suc found]) (map (LString \<circ> inet_ntoa) as))]) }"

definition swap_tid :: "bytes \<Rightarrow> bytes" where
  "swap_tid s = (case s of a # b # r \<Rightarrow> b # a # r | _ \<Rightarrow> s)"

text \<open>
  \<open>parse_dns_result\<close>: the values and the bytes of the argument afterwards, since the id is
  swapped in place. The fields are read before the length is looked at.
\<close>

definition lua_co_parse_dns_result :: "lua_lib \<Rightarrow> lua_value list \<Rightarrow> 16 word \<Rightarrow> (lua_value list \<times> bytes) option" where
  "lua_co_parse_dns_result lib st dns_tid = do {
     s \<leftarrow> lua_tolstring lib st 1;
     nq \<leftarrow> rd16 s 4;
     tid \<leftarrow> rd16 s 0;
     let s' = swap_tid s;
     if nq \<noteq> 1 \<or> tid \<noteq> unat dns_tid then Some ([], s')
     else do {
       let p = skip_name s 12;
       if p + 5 > length s \<or> get16 s (p + 1) \<noteq> 1 then Some ([], s')
       else do {
         (found, ips) \<leftarrow> parse_answers s (of_char (s ! 7) * 256 + of_char (s ! 6)) (p + 5) 0 (replicate 40 Garbage);
         vs \<leftarrow> ip_results found ips;
         Some (vs, s') } } }"

section \<open>The query\<close>

lemma byte_0 [simp]: "byte 0 = CHR 0x00"
  by code_simp

lemma of_char_byte [simp]: "of_char (byte n) = n mod 256"
  by simp

lemma be16_length [simp]: "length (be16 n) = 2"
  by (simp add: be16_def)

lemma get16_be16: "n < 65536 \<Longrightarrow> get16 (pre @ be16 n @ post) (length pre) = n"
  by (simp add: get16_def be16_def nth_append)

text \<open>A host name as its labels; on the wire each label is preceded by its length.\<close>

definition label_ok :: "bytes \<Rightarrow> bool" where
  "label_ok l = (0 < length l \<and> length l < 64 \<and> CHR ''.'' \<notin> set l \<and> CHR 0x00 \<notin> set l)"

fun dotted :: "bytes list \<Rightarrow> bytes" where
  "dotted [] = []"
| "dotted [l] = l"
| "dotted (l # ls) = l @ CHR ''.'' # dotted ls"

definition wire_labels :: "bytes list \<Rightarrow> bytes" where
  "wire_labels ls = concat (map (\<lambda>l. byte (length l) # l) ls)"

lemma takeWhile_label:
  assumes "label_ok l"
  shows "takeWhile (\<lambda>c. c \<noteq> CHR ''.'' \<and> c \<noteq> CHR 0x00) l = l"
    and "takeWhile (\<lambda>c. c \<noteq> CHR ''.'' \<and> c \<noteq> CHR 0x00) (l @ CHR ''.'' # r) = l"
proof -
  have ok: "\<And>c. c \<in> set l \<Longrightarrow> c \<noteq> CHR ''.'' \<and> c \<noteq> CHR 0x00"
    using assms by (auto simp: label_ok_def)
  show "takeWhile (\<lambda>c. c \<noteq> CHR ''.'' \<and> c \<noteq> CHR 0x00) l = l"
    using ok by (simp add: takeWhile_eq_all_conv)
  show "takeWhile (\<lambda>c. c \<noteq> CHR ''.'' \<and> c \<noteq> CHR 0x00) (l @ CHR ''.'' # r) = l"
    using ok by (subst takeWhile_append2) auto
qed

lemma encode_dotted:
  "ls \<noteq> [] \<Longrightarrow> list_all label_ok ls \<Longrightarrow> encode_name (dotted ls) = wire_labels ls"
proof (induction ls rule: dotted.induct)
  case (2 l)
  then show ?case by (subst encode_name.simps) (simp add: takeWhile_label wire_labels_def Let_def)
next
  case (3 l m ls)
  then show ?case by (subst encode_name.simps) (simp add: takeWhile_label wire_labels_def Let_def)
qed simp

text \<open>Reading labels back as a name server does: up to the empty label.\<close>

fun read_labels :: "nat \<Rightarrow> bytes \<Rightarrow> (bytes list \<times> bytes) option" where
  "read_labels 0 s = None"
| "read_labels (Suc k) [] = None"
| "read_labels (Suc k) (c # s) =
     (let n = of_char c in
      if n = 0 then Some ([], s)
      else if length s < n then None
      else map_option (apfst ((#) (take n s))) (read_labels k (drop n s)))"

lemma read_wire_labels:
  "list_all label_ok ls \<Longrightarrow> length ls < k \<Longrightarrow> read_labels k (wire_labels ls @ CHR 0x00 # r) = Some (ls, r)"
proof (induction ls arbitrary: k)
  case Nil
  then show ?case by (cases k) (simp_all add: wire_labels_def)
next
  case (Cons l ls)
  then show ?case by (cases k) (simp_all add: wire_labels_def label_ok_def)
qed

lemma no_nul_in_labels: "list_all label_ok ls \<Longrightarrow> CHR 0x00 \<notin> set (wire_labels ls)"
proof (induction ls)
  case (Cons l ls)
  have "of_char (byte (length l)) \<noteq> (0 :: nat)"
    using Cons.prems by (simp add: label_ok_def)
  then have "byte (length l) \<noteq> CHR 0x00" by (auto simp del: of_char_byte of_char_of)
  then show ?case using Cons by (simp add: wire_labels_def label_ok_def)
qed (simp add: wire_labels_def)

lemma wire_labels_length: "ls \<noteq> [] \<Longrightarrow> length (wire_labels ls) = Suc (length (dotted ls))"
  by (induction ls rule: dotted.induct) (simp_all add: wire_labels_def)

lemma length_wire_labels_ge: "length ls \<le> length (wire_labels ls)"
  by (induction ls) (simp_all add: wire_labels_def)

lemma next_tid_range: "t \<le> 65534 \<Longrightarrow> 0 < next_tid t \<and> next_tid t \<le> 65534"
proof -
  assume "t \<le> 65534"
  then have "unat t \<le> 65534" by (simp add: word_le_nat_alt)
  then have "unat (t + 1) = unat t + 1" by (simp add: unat_word_ariths)
  then show ?thesis by (auto simp: next_tid_def word_less_nat_alt word_le_nat_alt)
qed

lemma query_header_fields:
  "get16 (query_header t @ r) 0 = unat t" "get16 (query_header t @ r) 2 = 0x100" "get16 (query_header t @ r) 4 = 1"
  "get16 (query_header t @ r) 6 = 0" "get16 (query_header t @ r) 8 = 0" "get16 (query_header t @ r) 10 = 0"
proof -
  have "unat t < 65536" using unsigned_less [where ?'a = nat and w = t] by simp
  then show "get16 (query_header t @ r) 0 = unat t"
    by (simp add: query_header_def get16_def be16_def)
qed (simp_all add: query_header_def get16_def be16_def)

lemma query_header_length [simp]: "length (query_header t) = 12"
  by (simp add: query_header_def)

lemma query_packet_dotted:
  assumes "ls \<noteq> []" "list_all label_ok ls"
  shows "query_packet t (dotted ls) None = query_header t @ wire_labels ls @ CHR 0x00 # be16 1 @ be16 1"
  using assms by (simp add: query_packet_def encode_dotted be16_def Let_def)

text \<open>
  (C31) The packet built for a host name is a DNS query for it: the id is the next one of the
  counter (never 0), the flags ask for recursion, there is one question and nothing else, and a name server
  that reads the question gets back the labels of the name, type A and class IN.
\<close>

theorem dns_query_roundtrip:
  assumes "ls \<noteq> []" "list_all label_ok ls" "length (dotted ls) \<le> 4078" "t \<le> 65534"
  shows "\<exists>q. lua_co_build_dns_query_packet lib inet_addr [LString (dotted ls)] t = Some (Ret [LString q], next_tid t)
     \<and> length q = length (dotted ls) + 18 \<and> 0 < next_tid t \<and> next_tid t \<le> 65534
     \<and> get16 q 0 = unat (next_tid t) \<and> get16 q 2 = 0x100 \<and> get16 q 4 = 1
     \<and> get16 q 6 = 0 \<and> get16 q 8 = 0 \<and> get16 q 10 = 0
     \<and> read_labels (length q) (drop 12 q) = Some (ls, be16 1 @ be16 1)"
proof -
  define q where "q = query_packet (next_tid t) (dotted ls) None"
  have q: "q = query_header (next_tid t) @ wire_labels ls @ CHR 0x00 # be16 1 @ be16 1"
    unfolding q_def using assms(1,2) by (rule query_packet_dotted)
  have len: "length q = length (dotted ls) + 18"
    using wire_labels_length [OF assms(1)] by (simp add: q)
  have "lua_co_build_dns_query_packet lib inet_addr [LString (dotted ls)] t = Some (Ret [LString q], next_tid t)"
    using assms(3) len by (simp add: lua_co_build_dns_query_packet_def lua_api_defs q_def [symmetric] Let_def)
  moreover have "length ls < length q"
    using len wire_labels_length [OF assms(1)] length_wire_labels_ge [of ls] by simp
  then have "read_labels (length q) (drop 12 q) = Some (ls, be16 1 @ be16 1)"
    using assms(2) by (simp add: q read_wire_labels)
  ultimately show ?thesis
    using len next_tid_range [OF assms(4)] query_header_fields [of "next_tid t"] unfolding q by blast
qed

theorem dns_query_roundtrip_witness:
  "\<exists>q. lua_co_build_dns_query_packet demo_lib (\<lambda>_. replicate 4 CHR 0x00) [LString ''www.a.io''] 18202 = Some (Ret [LString q], 18203)
     \<and> read_labels (length q) (drop 12 q) = Some ([''www'', ''a'', ''io''], be16 1 @ be16 1)"
  using dns_query_roundtrip [of "[''www'', ''a'', ''io'']" 18202 demo_lib "\<lambda>_. replicate 4 CHR 0x00"]
  by (auto simp: label_ok_def next_tid_def)

section \<open>The answer\<close>

text \<open>
  The answer section as a server writes it: each record names its owner by a compression
  pointer (\<open>0xC0\<close> and an offset) and carries an alias or an address.
\<close>

datatype answer = Alias char bytes bytes | Addr char bytes bytes

fun answer_bytes :: "answer \<Rightarrow> bytes" where
  "answer_bytes (Alias n ttl d) = [CHR 0xC0, n] @ be16 5 @ be16 1 @ ttl @ be16 (length d) @ d"
| "answer_bytes (Addr n ttl ip) = [CHR 0xC0, n] @ be16 1 @ be16 1 @ ttl @ be16 4 @ ip"

fun answer_ok :: "answer \<Rightarrow> bool" where
  "answer_ok (Alias n ttl d) = (length ttl = 4 \<and> length d < 65536)"
| "answer_ok (Addr n ttl ip) = (length ttl = 4 \<and> length ip = 4)"

fun addresses :: "answer list \<Rightarrow> bytes list" where
  "addresses [] = []"
| "addresses (Alias n ttl d # rs) = addresses rs"
| "addresses (Addr n ttl ip # rs) = ip # addresses rs"

abbreviation answer_section :: "answer list \<Rightarrow> bytes" where
  "answer_section rs \<equiv> concat (map answer_bytes rs)"

definition reply :: "bytes \<Rightarrow> bytes \<Rightarrow> answer list \<Rightarrow> bytes" where
  "reply q flags rs = take 2 q @ flags @ be16 1 @ be16 (length rs) @ be16 0 @ be16 0 @ drop 12 q @ answer_section rs"

text \<open>The array of addresses with those found so far at its front.\<close>

definition ip_array :: "bytes list \<Rightarrow> char cell list" where
  "ip_array as = map Init (concat as) @ replicate (40 - 4 * length as) Garbage"

lemma concat_fours: "list_all (\<lambda>a. length a = 4) as \<Longrightarrow> length (concat as) = 4 * length as"
  by (induction as) simp_all

lemma store_ip_next:
  assumes "list_all (\<lambda>a. length a = 4) as" "length as < 10" "length ip = 4"
  shows "store_ip (ip_array as) (length as) ip = Some (ip_array (as @ [ip]))"
  using assms by (simp add: store_ip_def ip_array_def concat_fours drop_replicate)

text \<open>The fields of a record that starts at the end of \<open>pre\<close>.\<close>

lemma get16_skip: "get16 (pre @ xs) (length pre + k) = get16 xs k"
  using nth_append_length_plus [of pre xs "Suc k"] by (simp add: get16_def)

lemma get16_data: "length d < 65536 \<Longrightarrow> length ttl = 4 \<Longrightarrow> get16 (a # b # c # e # f # g # ttl @ be16 (length d) @ r) 10 = length d"
  using get16_be16 [of "length d" "[a, b, c, e, f, g] @ ttl" r] by simp

lemma answer_fields:
  assumes "answer_ok a"
  shows "answer_at (pre @ answer_bytes a @ post) (length pre) = length pre"
    "get16 (pre @ answer_bytes a @ post) (length pre + 2) = (case a of Alias _ _ _ \<Rightarrow> 5 | Addr _ _ _ \<Rightarrow> 1)"
    "get16 (pre @ answer_bytes a @ post) (length pre + 10) + 12 = length (answer_bytes a)"
proof -
  show "answer_at (pre @ answer_bytes a @ post) (length pre) = length pre"
    by (cases a) (simp_all add: answer_at_def)
  show "get16 (pre @ answer_bytes a @ post) (length pre + 2) = (case a of Alias _ _ _ \<Rightarrow> 5 | Addr _ _ _ \<Rightarrow> 1)"
    unfolding get16_skip by (cases a) (simp_all add: get16_def be16_def)
  show "get16 (pre @ answer_bytes a @ post) (length pre + 10) + 12 = length (answer_bytes a)"
    unfolding get16_skip
  proof (cases a)
    case (Alias n ttl d)
    then show "get16 (answer_bytes a @ post) 10 + 12 = length (answer_bytes a)"
      using assms get16_data [of d ttl] by (simp add: be16_def [of 5] be16_def [of "Suc 0"])
  next
    case (Addr n ttl ip)
    then show "get16 (answer_bytes a @ post) 10 + 12 = length (answer_bytes a)"
      using assms get16_data [of ip ttl] by (simp add: be16_def [of "Suc 0"])
  qed
qed

lemma parse_answers_alias:
  assumes "p + 12 < length s" "answer_at s p = p" "get16 s (p + 2) = 5"
  shows "parse_answers s nans p found ips = parse_answers s nans (p + (get16 s (p + 10) + 12)) found ips"
  using assms by (subst parse_answers.simps) (simp add: ac_simps Let_def)

lemma parse_answers_addr:
  assumes "p + 16 \<le> length s" "answer_at s p = p" "get16 s (p + 2) = 1" "get16 s (p + 10) = 4"
    and "store_ip ips found (take 4 (drop (p + 12) s)) = Some ips'" "found < 10" "nans = 0 \<or> 10 < nans"
  shows "parse_answers s nans p found ips =
    (if found = 9 then Some (10, ips') else parse_answers s nans (p + 16) (Suc found) ips')"
proof -
  have "Suc found \<noteq> nans" "Suc found \<ge> 10 \<longleftrightarrow> found = 9" "p + 12 < length s" "p + 12 + 4 \<le> length s"
    using assms by auto
  then show ?thesis using assms(2-5)
    by (cases "found = 9") (simp_all add: parse_answers.simps [of s nans p] add.commute Let_def)
qed

text \<open>The loop collects the addresses of the records in order, ten at most.\<close>

lemma parse_answers_all:
  assumes "list_all answer_ok rs" "list_all (\<lambda>a. length a = 4) as" "length as < 10" "nans = 0 \<or> 10 < nans"
  shows "parse_answers (pre @ answer_section rs) nans (length pre) (length as) (ip_array as)
    = (let all = take 10 (as @ addresses rs) in Some (length all, ip_array all))"
  using assms
proof (induction rs arbitrary: pre as)
  case Nil
  then show ?case by (subst parse_answers.simps) simp
next
  case (Cons a rs)
  define s where "s = pre @ answer_bytes a @ answer_section rs"
  have ok: "answer_ok a" using Cons.prems(1) by simp
  note f = answer_fields [OF ok, of pre "answer_section rs", folded s_def]
  note IH = Cons.IH [of _ "pre @ answer_bytes a", simplified, folded s_def]
  have "parse_answers s nans (length pre) (length as) (ip_array as)
    = (let all = take 10 (as @ addresses (a # rs)) in Some (length all, ip_array all))"
  proof (cases a)
    case (Alias n ttl d)
    show ?thesis
    proof (cases "length pre + 12 < length s")
      case True
      then show ?thesis
        using parse_answers_alias [OF True] f IH [of as] Alias Cons.prems by simp
    next
      case False
      then have "rs = []" using Alias ok by (cases rs; cases "hd rs") (auto simp: s_def)
      with False show ?thesis using Alias Cons.prems(3) by (subst parse_answers.simps) simp
    qed
  next
    case (Addr n ttl ip)
    have d: "get16 s (length pre + 10) = 4" using f(3) Addr ok by simp
    have "take 4 (drop (length pre + 12) s) = ip" "length pre + 16 \<le> length s"
      using Addr ok by (simp_all add: be16_def s_def)
    moreover have "10 - length as = Suc (9 - length as)" using Cons.prems(3) by simp
    ultimately show ?thesis using d f Addr
        parse_answers_addr [of "length pre" s "ip_array as" "length as" "ip_array (as @ [ip])" nans]
        store_ip_next [of as ip] IH [of "as @ [ip]"] Cons.prems ok by (cases "length as = 9") simp_all
  qed
  then show ?case by (simp add: s_def)
qed

lemma concat_at:
  "list_all (\<lambda>a. length a = 4) as \<Longrightarrow> i < length as \<Longrightarrow> take 4 (drop (4 * i) (concat as)) = as ! i"
proof (induction as arbitrary: i)
  case (Cons a as)
  then show ?case by (cases i) simp_all
qed simp

lemma those_map_Some: "those (map Some xs) = Some xs"
  by (induction xs) simp_all

lemma ip_at_array:
  assumes "list_all (\<lambda>a. length a = 4) as" "i < length as"
  shows "ip_at (ip_array as) i = Some (as ! i)"
proof -
  have "take 4 (drop (4 * i) (ip_array as)) = map Init (as ! i)"
    using assms concat_at [OF assms] concat_fours [OF assms(1)] by (simp add: ip_array_def drop_map take_map)
  then show ?thesis by (simp add: ip_at_def comp_def those_map_Some)
qed

definition ip_values :: "bytes list \<Rightarrow> lua_value list" where
  "ip_values as = (case as of
       [] \<Rightarrow> []
     | [a] \<Rightarrow> [LString (inet_ntoa a)]
     | a # _ \<Rightarrow> [LString (inet_ntoa a), LTable (zip (map (\<lambda>i. lint (int i)) [1..<Suc (length as)]) (map (LString \<circ> inet_ntoa) as))])"

lemma ip_results_array:
  assumes "list_all (\<lambda>a. length a = 4) as"
  shows "ip_results (length as) (ip_array as) = Some (ip_values as)"
proof -
  have "map (ip_at (ip_array as)) [0..<length as] = map Some as"
    using assms by (intro nth_equalityI) (simp_all add: ip_at_array)
  then show ?thesis by (simp add: ip_results_def ip_values_def those_map_Some)
qed

lemma skip_name_stops:
  "CHR 0x00 \<notin> set w \<Longrightarrow> skip_name (pre @ w @ CHR 0x00 # r) (length pre) = length pre + length w"
proof (induction w arbitrary: pre)
  case Nil
  then show ?case by (subst skip_name.simps) simp
next
  case (Cons c w)
  then show ?case using Cons.IH [of "pre @ [c]"] by (subst skip_name.simps) auto
qed

lemma addresses_ok: "list_all answer_ok rs \<Longrightarrow> list_all (\<lambda>a. length a = 4) (addresses rs)"
  by (induction rs rule: addresses.induct) simp_all

text \<open>What the parser sees of a message with the header, the question and the answers in their places.\<close>

definition message :: "bytes \<Rightarrow> bytes \<Rightarrow> bytes \<Rightarrow> bytes \<Rightarrow> bytes \<Rightarrow> bytes" where
  "message tid flags counts qname answers =
     tid @ flags @ be16 1 @ counts @ qname @ CHR 0x00 # be16 1 @ be16 1 @ answers"

lemma parse_message:
  assumes "length tid = 2" "length flags = 2" "length counts = 6" "CHR 0x00 \<notin> set qname"
  shows "lua_co_parse_dns_result lib [LString (message tid flags counts qname answers)] t =
    (if get16 tid 0 = unat t then
       Option.bind (parse_answers (message tid flags counts qname answers) (of_char (counts ! 1) * 256 + of_char (counts ! 0))
                      (length qname + 17) 0 (replicate 40 Garbage))
         (\<lambda>(found, ips). Option.bind (ip_results found ips) (\<lambda>vs. Some (vs, swap_tid (message tid flags counts qname answers))))
     else Some ([], swap_tid (message tid flags counts qname answers)))"
proof -
  define s where "s = message tid flags counts qname answers"
  obtain a b where tid: "tid = [a, b]" using assms(1) by (auto simp: length_Suc_conv numeral_2_eq_2)
  obtain c d where flags: "flags = [c, d]" using assms(2) by (auto simp: length_Suc_conv numeral_2_eq_2)
  obtain e f r where counts: "counts = e # f # r" "length r = 4"
    using assms(3) by (auto simp: length_Suc_conv eval_nat_numeral)
  have s: "s = ([a, b, c, d] @ be16 1 @ counts) @ qname @ CHR 0x00 # be16 1 @ be16 1 @ answers"
    by (simp add: s_def message_def tid flags)
  have len: "length s = length qname + 17 + length answers" using assms(3) by (simp add: s)
  have nq: "rd16 s 4 = Some 1" "rd16 s 0 = Some (get16 tid 0)" "s ! 6 = counts ! 0" "s ! 7 = counts ! 1"
    using counts(2) by (simp_all add: rd16_def rd_def len get16_def tid) (simp_all add: s be16_def counts)
  have skip: "skip_name s 12 = 12 + length qname"
    using skip_name_stops [OF assms(4), of "[a, b, c, d] @ be16 1 @ counts"] assms(3) unfolding s by simp
  have "s = (([a, b, c, d] @ be16 1 @ counts) @ qname @ [CHR 0x00]) @ be16 1 @ be16 1 @ answers" by (simp add: s)
  then have cls: "get16 s (12 + length qname + 1) = 1"
    using get16_be16 [of 1 "([a, b, c, d] @ be16 1 @ counts) @ qname @ [CHR 0x00]" "be16 1 @ answers"] assms(3) by simp
  show ?thesis
    using nq skip cls len unfolding s_def [symmetric]
    by (auto simp: lua_co_parse_dns_result_def lua_api_defs Let_def add.commute split: option.splits prod.splits)
qed

lemma reply_message:
  assumes "ls \<noteq> []" "list_all label_ok ls"
  shows "reply (query_packet t (dotted ls) None) flags rs =
    message (be16 (unat t)) flags (be16 (length rs) @ be16 0 @ be16 0) (wire_labels ls) (answer_section rs)"
  using query_packet_dotted [OF assms] by (simp add: reply_def message_def query_header_def)

lemma get16_tid: "get16 (be16 (unat (t :: 16 word))) 0 = unat t"
  using get16_be16 [of "unat t" "[]" "[]"] unsigned_less [where ?'a = nat and w = t] by simp

text \<open>
  (C32) A server's reply to the query that was built (the same id and question, then any number of
  aliases and addresses below 256) is read back as exactly the addresses of the reply, in order and
  ten at most: nothing if there is none, the dotted address if there is one, otherwise the first
  and the table of all.
\<close>

theorem dns_reply_addresses:
  assumes "ls \<noteq> []" "list_all label_ok ls" "length (dotted ls) \<le> 4078" "length flags = 2"
    and "list_all answer_ok rs" "length rs < 256"
    and "lua_co_build_dns_query_packet lib inet_addr [LString (dotted ls)] t = Some (Ret [LString q], t')"
  shows "\<exists>s'. lua_co_parse_dns_result lib [LString (reply q flags rs)] t' = Some (ip_values (take 10 (addresses rs)), s')"
proof -
  have q: "q = query_packet t' (dotted ls) None"
    using assms(7) by (auto simp: lua_co_build_dns_query_packet_def lua_api_defs Let_def split: if_splits)
  let ?counts = "be16 (length rs) @ be16 0 @ be16 0" and ?n = "length rs * 256"
  define pre where "pre = be16 (unat t') @ flags @ be16 1 @ ?counts @ wire_labels ls @ CHR 0x00 # be16 1 @ be16 1"
  have s: "reply q flags rs = pre @ answer_section rs"
    unfolding q reply_message [OF assms(1,2)] by (simp add: message_def pre_def)
  have n: "of_char (?counts ! 1) * 256 + of_char (?counts ! 0) = ?n" using assms(6) by (simp add: be16_def)
  have "?n = 0 \<or> 10 < ?n" by (cases "length rs") simp_all
  from parse_answers_all [OF assms(5) _ _ this, of "[]" pre]
  have "parse_answers (reply q flags rs) ?n (length (wire_labels ls) + 17) 0 (replicate 40 Garbage)
     = Some (length (take 10 (addresses rs)), ip_array (take 10 (addresses rs)))"
    using assms(4) by (simp add: s ip_array_def [of "[]"] pre_def Let_def add.commute)
  moreover have "list_all (\<lambda>a. length a = 4) (take 10 (addresses rs))"
    using addresses_ok [OF assms(5)] by (auto simp: list_all_iff dest: in_set_takeD)
  ultimately show ?thesis
    using parse_message [of "be16 (unat t')" flags ?counts "wire_labels ls" lib "answer_section rs" t'] assms(4)
      no_nul_in_labels [OF assms(2)] n
    unfolding q reply_message [OF assms(1,2)] by (simp add: get16_tid ip_results_array del: length_take)
qed

text \<open>
  An answer is not checked against the room for the addresses: a record of type A that carries
  more than forty bytes is copied past the end of the array of ten addresses.
\<close>

theorem dns_long_record_overruns:
  assumes "length flags = 2" "length counts = 6" "CHR 0x00 \<notin> set qname" "length ttl = 4"
    and "40 < length d" "length d < 65536"
  shows "lua_co_parse_dns_result lib
    [LString (message (be16 (unat t)) flags counts qname ([CHR 0xC0, n] @ be16 1 @ be16 1 @ ttl @ be16 (length d) @ d))] t = None"
proof -
  define a where "a = [CHR 0xC0, n] @ be16 1 @ be16 1 @ ttl @ be16 (length d) @ d"
  define pre where "pre = be16 (unat t) @ flags @ be16 1 @ counts @ qname @ CHR 0x00 # be16 1 @ be16 1"
  define s where "s = message (be16 (unat t)) flags counts qname a"
  have s: "s = pre @ a" by (simp add: s_def message_def pre_def)
  have len: "length a = 12 + length d" "length pre = length qname + 17" using assms by (simp_all add: a_def pre_def)
  have f: "answer_at s (length pre) = length pre" "get16 s (length pre + 2) = 1"
    by (simp_all only: s get16_skip) (simp_all add: answer_at_def a_def get16_def be16_def)
  have "get16 s (length pre + 10) = length d"
    unfolding s get16_skip using get16_data [OF assms(6,4)] by (simp add: a_def be16_def [of "Suc 0"])
  moreover have "store_ip (replicate 40 Garbage) 0 (take (length d) (drop (length pre + 12) s)) = None"
    using len assms(5) by (simp add: s store_ip_def)
  ultimately have "parse_answers s m (length pre) 0 (replicate 40 Garbage) = None" for m
    using f len assms(5) by (subst parse_answers.simps) (auto simp: Let_def s)
  then show ?thesis
    using parse_message [of "be16 (unat t)" flags counts qname lib a t] assms(1-3) len(2)
    unfolding a_def [symmetric] s_def [symmetric] by (simp add: get16_tid)
qed

lemma digits_demo: "digits 10 = ''10''" "digits 0 = ''0''" "digits (Suc 0) = ''1''"
  by code_simp+

theorem dns_reply_addresses_witness:
  "\<exists>s'. lua_co_parse_dns_result demo_lib
      [LString (reply (query_packet 7 ''a.io'' None) [CHR 0x81, CHR 0x80]
         [Alias (byte 12) (replicate 4 CHR 0x00) ''b'', Addr (byte 12) (replicate 4 CHR 0x00) (map byte [10, 0, 0, 1])])] 7
    = Some ([LString ''10.0.0.1''], s')"
  using dns_reply_addresses [of "[''a'', ''io'']" "[CHR 0x81, CHR 0x80]"
      "[Alias (byte 12) (replicate 4 CHR 0x00) ''b'', Addr (byte 12) (replicate 4 CHR 0x00) (map byte [10, 0, 0, 1])]"
      demo_lib "\<lambda>_. []" 6 "query_packet 7 ''a.io'' None" 7]
    query_packet_dotted [of "[''a'', ''io'']" 7]
  by (simp add: label_ok_def ip_values_def inet_ntoa_def lua_co_build_dns_query_packet_def lua_api_defs next_tid_def
      wire_labels_def digits_demo)

theorem dns_long_record_overruns_witness:
  "lua_co_parse_dns_result demo_lib
    [LString (message (be16 (unat (7 :: 16 word))) ''..'' ''......'' ''a'' ([CHR 0xC0, byte 12] @ be16 1 @ be16 1 @ ''....'' @ be16 (length (replicate 41 (byte 1))) @ replicate 41 (byte 1)))] 7 = None"
  using dns_long_record_overruns [of "''..''" "''......''" "''a''" "''....''" "replicate 41 (byte 1)" demo_lib 7 "byte 12"]
  by simp

end
