(* ===== verification/Crc32.thy ===== *)
theory Crc32
  imports Lua_Api
begin

text \<open>
  The \<open>crc32\<close> module (\<open>lua-crc32.c\<close>): the two table driven CRC-32 routines, the incremental
  interface on a userdata holding the running value, and the set-up that moves the small table to
  a cache line. All arithmetic is on 32-bit words. The reference is the bit-serial CRC of the
  polynomial \<open>0xEDB88320\<close>.
\<close>

section \<open>Tables\<close>

definition ngx_crc32_table16 :: "u32 list" where
  "ngx_crc32_table16 = [
    0x00000000, 0x1db71064, 0x3b6e20c8, 0x26d930ac,
    0x76dc4190, 0x6b6b51f4, 0x4db26158, 0x5005713c,
    0xedb88320, 0xf00f9344, 0xd6d6a3e8, 0xcb61b38c,
    0x9b64c2b0, 0x86d3d2d4, 0xa00ae278, 0xbdbdf21c]"

definition ngx_crc32_table256 :: "u32 list" where
  "ngx_crc32_table256 = [
    0x00000000, 0x77073096, 0xee0e612c, 0x990951ba,
    0x076dc419, 0x706af48f, 0xe963a535, 0x9e6495a3,
    0x0edb8832, 0x79dcb8a4, 0xe0d5e91e, 0x97d2d988,
    0x09b64c2b, 0x7eb17cbd, 0xe7b82d07, 0x90bf1d91,
    0x1db71064, 0x6ab020f2, 0xf3b97148, 0x84be41de,
    0x1adad47d, 0x6ddde4eb, 0xf4d4b551, 0x83d385c7,
    0x136c9856, 0x646ba8c0, 0xfd62f97a, 0x8a65c9ec,
    0x14015c4f, 0x63066cd9, 0xfa0f3d63, 0x8d080df5,
    0x3b6e20c8, 0x4c69105e, 0xd56041e4, 0xa2677172,
    0x3c03e4d1, 0x4b04d447, 0xd20d85fd, 0xa50ab56b,
    0x35b5a8fa, 0x42b2986c, 0xdbbbc9d6, 0xacbcf940,
    0x32d86ce3, 0x45df5c75, 0xdcd60dcf, 0xabd13d59,
    0x26d930ac, 0x51de003a, 0xc8d75180, 0xbfd06116,
    0x21b4f4b5, 0x56b3c423, 0xcfba9599, 0xb8bda50f,
    0x2802b89e, 0x5f058808, 0xc60cd9b2, 0xb10be924,
    0x2f6f7c87, 0x58684c11, 0xc1611dab, 0xb6662d3d,
    0x76dc4190, 0x01db7106, 0x98d220bc, 0xefd5102a,
    0x71b18589, 0x06b6b51f, 0x9fbfe4a5, 0xe8b8d433,
    0x7807c9a2, 0x0f00f934, 0x9609a88e, 0xe10e9818,
    0x7f6a0dbb, 0x086d3d2d, 0x91646c97, 0xe6635c01,
    0x6b6b51f4, 0x1c6c6162, 0x856530d8, 0xf262004e,
    0x6c0695ed, 0x1b01a57b, 0x8208f4c1, 0xf50fc457,
    0x65b0d9c6, 0x12b7e950, 0x8bbeb8ea, 0xfcb9887c,
    0x62dd1ddf, 0x15da2d49, 0x8cd37cf3, 0xfbd44c65,
    0x4db26158, 0x3ab551ce, 0xa3bc0074, 0xd4bb30e2,
    0x4adfa541, 0x3dd895d7, 0xa4d1c46d, 0xd3d6f4fb,
    0x4369e96a, 0x346ed9fc, 0xad678846, 0xda60b8d0,
    0x44042d73, 0x33031de5, 0xaa0a4c5f, 0xdd0d7cc9,
    0x5005713c, 0x270241aa, 0xbe0b1010, 0xc90c2086,
    0x5768b525, 0x206f85b3, 0xb966d409, 0xce61e49f,
    0x5edef90e, 0x29d9c998, 0xb0d09822, 0xc7d7a8b4,
    0x59b33d17, 0x2eb40d81, 0xb7bd5c3b, 0xc0ba6cad,
    0xedb88320, 0x9abfb3b6, 0x03b6e20c, 0x74b1d29a,
    0xead54739, 0x9dd277af, 0x04db2615, 0x73dc1683,
    0xe3630b12, 0x94643b84, 0x0d6d6a3e, 0x7a6a5aa8,
    0xe40ecf0b, 0x9309ff9d, 0x0a00ae27, 0x7d079eb1,
    0xf00f9344, 0x8708a3d2, 0x1e01f268, 0x6906c2fe,
    0xf762575d, 0x806567cb, 0x196c3671, 0x6e6b06e7,
    0xfed41b76, 0x89d32be0, 0x10da7a5a, 0x67dd4acc,
    0xf9b9df6f, 0x8ebeeff9, 0x17b7be43, 0x60b08ed5,
    0xd6d6a3e8, 0xa1d1937e, 0x38d8c2c4, 0x4fdff252,
    0xd1bb67f1, 0xa6bc5767, 0x3fb506dd, 0x48b2364b,
    0xd80d2bda, 0xaf0a1b4c, 0x36034af6, 0x41047a60,
    0xdf60efc3, 0xa867df55, 0x316e8eef, 0x4669be79,
    0xcb61b38c, 0xbc66831a, 0x256fd2a0, 0x5268e236,
    0xcc0c7795, 0xbb0b4703, 0x220216b9, 0x5505262f,
    0xc5ba3bbe, 0xb2bd0b28, 0x2bb45a92, 0x5cb36a04,
    0xc2d7ffa7, 0xb5d0cf31, 0x2cd99e8b, 0x5bdeae1d,
    0x9b64c2b0, 0xec63f226, 0x756aa39c, 0x026d930a,
    0x9c0906a9, 0xeb0e363f, 0x72076785, 0x05005713,
    0x95bf4a82, 0xe2b87a14, 0x7bb12bae, 0x0cb61b38,
    0x92d28e9b, 0xe5d5be0d, 0x7cdcefb7, 0x0bdbdf21,
    0x86d3d2d4, 0xf1d4e242, 0x68ddb3f8, 0x1fda836e,
    0x81be16cd, 0xf6b9265b, 0x6fb077e1, 0x18b74777,
    0x88085ae6, 0xff0f6a70, 0x66063bca, 0x11010b5c,
    0x8f659eff, 0xf862ae69, 0x616bffd3, 0x166ccf45,
    0xa00ae278, 0xd70dd2ee, 0x4e048354, 0x3903b3c2,
    0xa7672661, 0xd06016f7, 0x4969474d, 0x3e6e77db,
    0xaed16a4a, 0xd9d65adc, 0x40df0b66, 0x37d83bf0,
    0xa9bcae53, 0xdebb9ec5, 0x47b2cf7f, 0x30b5ffe9,
    0xbdbdf21c, 0xcabac28a, 0x53b39330, 0x24b4a3a6,
    0xbad03605, 0xcdd70693, 0x54de5729, 0x23d967bf,
    0xb3667a2e, 0xc4614ab8, 0x5d681b02, 0x2a6f2b94,
    0xb40bbe37, 0xc30c8ea1, 0x5a05df1b, 0x2d02ef8d]"

section \<open>The routines\<close>

definition crc32_short_step :: "u32 list \<Rightarrow> u32 \<Rightarrow> char \<Rightarrow> u32" where
  "crc32_short_step table_short crc ch =
     (let c = of_char ch;
          crc = table_short ! unat ((crc XOR (c AND 0xf)) AND 0xf) XOR drop_bit 4 crc
      in table_short ! unat ((crc XOR drop_bit 4 c) AND 0xf) XOR drop_bit 4 crc)"

definition ngx_crc32_short :: "u32 list \<Rightarrow> bytes \<Rightarrow> u32" where
  "ngx_crc32_short table_short p = foldl (crc32_short_step table_short) 0xffffffff p XOR 0xffffffff"

definition crc32_long_step :: "u32 \<Rightarrow> char \<Rightarrow> u32" where
  "crc32_long_step crc ch = ngx_crc32_table256 ! unat ((crc XOR of_char ch) AND 0xff) XOR drop_bit 8 crc"

definition ngx_crc32_long :: "bytes \<Rightarrow> u32" where
  "ngx_crc32_long p = foldl crc32_long_step 0xffffffff p XOR 0xffffffff"

definition ngx_crc32_update :: "u32 \<Rightarrow> bytes \<Rightarrow> u32" where
  "ngx_crc32_update crc p = foldl crc32_long_step crc p"

definition ngx_crc32_init :: u32 where
  "ngx_crc32_init = 0xffffffff"

definition ngx_crc32_final :: "u32 \<Rightarrow> u32" where
  "ngx_crc32_final crc = crc XOR 0xffffffff"

section \<open>Set-up\<close>

text \<open>The bytes of a word in memory order.\<close>

definition le32 :: "u32 \<Rightarrow> bytes" where
  "le32 w = map (\<lambda>i. char_of (unat (drop_bit (8 * i) w))) [0, 1, 2, 3]"

text \<open>\<open>ngx_cpuinfo\<close>; \<open>cpuid i\<close> are the registers \<open>(eax, ebx, ecx, edx)\<close> of the instruction.\<close>

definition ngx_cpuinfo :: "(u32 \<Rightarrow> u32 \<times> u32 \<times> u32 \<times> u32) \<Rightarrow> u64 \<Rightarrow> u64" where
  "ngx_cpuinfo cpuid cacheline_size =
     (let (eax, ebx, ecx, edx) = cpuid 0; vendor = c_str (le32 ebx @ le32 edx @ le32 ecx @ le32 0);
          cpu0 = fst (cpuid 1)
      in if eax = 0 then cacheline_size
         else if vendor = ''GenuineIntel'' then
           (let family = drop_bit 8 (cpu0 AND 0xf00); model = drop_bit 8 (cpu0 AND 0xf0000) OR (cpu0 AND 0xf0)
            in if family = 5 then 32
               else if family = 6 then (if model \<ge> 0xd0 then 64 else 32)
               else if family = 15 then 128
               else cacheline_size)
         else if vendor = ''AuthenticAMD'' then 64
         else cacheline_size)"

definition ngx_align_ptr :: "u64 \<Rightarrow> u64 \<Rightarrow> u64" where
  "ngx_align_ptr p a = (p + (a - 1)) AND NOT (a - 1)"

record crc_lib =
  crc_inited :: bool
  crc_cacheline :: u64
  crc_short_at :: u64          \<comment> \<open>\<open>ngx_crc32_table_short\<close>\<close>
  crc_short :: "u32 list"      \<comment> \<open>the words there\<close>

text \<open>\<open>malloc\<close>'s answer is an argument; the result is the C return value and the new state.\<close>

definition ngx_crc32_table_init :: "(u32 \<Rightarrow> u32 \<times> u32 \<times> u32 \<times> u32) \<Rightarrow> u64 option \<Rightarrow> crc_lib \<Rightarrow> bool \<times> crc_lib" where
  "ngx_crc32_table_init cpuid malloc l =
     (let l = l\<lparr>crc_cacheline := ngx_cpuinfo cpuid (crc_cacheline l)\<rparr>
      in if crc_inited l then (False, l)
         else let l = l\<lparr>crc_inited := True\<rparr>
              in if crc_short_at l AND NOT (crc_cacheline l - 1) = crc_short_at l then (True, l)
                 else case malloc of
                        None \<Rightarrow> (False, l)
                      | Some p \<Rightarrow> (True, l\<lparr>crc_short := ngx_crc32_table16, crc_short_at := ngx_align_ptr p (crc_cacheline l)\<rparr>))"

section \<open>The Lua interface\<close>

text \<open>
  The userdata of running values is a heap of words. \<open>luaL_checklstring\<close> raises an error for an
  argument that is no string; a userdata that is none of the module's is foreign memory (\<open>None\<close>).
\<close>

type_synonym crc_heap = "addr \<Rightarrow> u32 option"

abbreviation lua_u32 :: "u32 \<Rightarrow> lua_value" where
  "lua_u32 w \<equiv> lint (uint w)"

abbreviation params_error :: lua_ret where
  "params_error \<equiv> Ret [LNil, lstr ''Error params!'']"

definition check_one_string :: "lua_lib \<Rightarrow> lua_value list \<Rightarrow> (bytes \<Rightarrow> lua_ret) \<Rightarrow> lua_ret" where
  "check_one_string lib st k =
     (if lua_gettop st \<noteq> 1 then Raise ''expecting one argument''
      else case lua_tolstring lib st 1 of None \<Rightarrow> Raise ''string expected'' | Some p \<Rightarrow> k p)"

definition ngx_http_lua_ngx_crc32_short :: "lua_lib \<Rightarrow> crc_lib \<Rightarrow> lua_value list \<Rightarrow> lua_ret" where
  "ngx_http_lua_ngx_crc32_short lib l st = check_one_string lib st (\<lambda>p. Ret [lua_u32 (ngx_crc32_short (crc_short l) p)])"

definition ngx_http_lua_ngx_crc32_long :: "lua_lib \<Rightarrow> lua_value list \<Rightarrow> lua_ret" where
  "ngx_http_lua_ngx_crc32_long lib st = check_one_string lib st (\<lambda>p. Ret [lua_u32 (ngx_crc32_long p)])"

definition crc_cell :: "lua_value list \<Rightarrow> crc_heap \<Rightarrow> (addr \<times> u32) option" where
  "crc_cell st h = (case arg st 1 of Some (LUserdata a) \<Rightarrow> map_option (Pair a) (h a) | _ \<Rightarrow> None)"

definition lua_f_crc32_init :: "addr \<Rightarrow> crc_heap \<Rightarrow> lua_ret \<times> crc_heap" where
  "lua_f_crc32_init new h = (Ret [LUserdata new], h(new \<mapsto> ngx_crc32_init))"

definition lua_f_crc32_update :: "lua_lib \<Rightarrow> lua_value list \<Rightarrow> crc_heap \<Rightarrow> (lua_ret \<times> crc_heap) option" where
  "lua_f_crc32_update lib st h =
     (if \<not> lua_isuserdata st 1 \<or> \<not> lua_isstring st 2 then Some (params_error, h)
      else do { (a, crc) \<leftarrow> crc_cell st h; p \<leftarrow> lua_tolstring lib st 2;
                Some (Ret [], h(a \<mapsto> ngx_crc32_update crc p)) })"

definition lua_f_crc32_final :: "lua_value list \<Rightarrow> crc_heap \<Rightarrow> (lua_ret \<times> crc_heap) option" where
  "lua_f_crc32_final st h =
     (if \<not> lua_isuserdata st 1 then Some (params_error, h)
      else do { (a, crc) \<leftarrow> crc_cell st h;
                let crc = ngx_crc32_final crc;
                Some (Ret [lua_u32 crc], h(a \<mapsto> crc)) })"

section \<open>The bit-serial reference\<close>

definition crc_bit :: "u32 \<Rightarrow> u32" where
  "crc_bit c = (if bit c 0 then drop_bit 1 c XOR 0xEDB88320 else drop_bit 1 c)"

definition crc_byte :: "u32 \<Rightarrow> char \<Rightarrow> u32" where
  "crc_byte c ch = (crc_bit ^^ 8) (c XOR of_char ch)"

definition crc32_ref :: "bytes \<Rightarrow> u32" where
  "crc32_ref p = foldl crc_byte 0xffffffff p XOR 0xffffffff"

lemma crc_bit_xor: "crc_bit (a XOR b) = crc_bit a XOR crc_bit b"
  by (auto simp: crc_bit_def bit_xor_iff drop_bit_xor ac_simps)

lemma crc_bits_xor: "(crc_bit ^^ n) (a XOR b) = (crc_bit ^^ n) a XOR (crc_bit ^^ n) b"
  by (induction n) (simp_all add: crc_bit_xor)

text \<open>Four bits at a time: the small table, and the large one out of it.\<close>

lemma table16_entries: "ngx_crc32_table16 = map (\<lambda>i. (crc_bit ^^ 4) (word_of_nat i)) [0..<16]"
  by code_simp

definition low_nibbles :: "u32 list" where
  "low_nibbles = map (crc_bit ^^ 4) ngx_crc32_table16"

lemma low_nibbles_eq: "low_nibbles = take 16 ngx_crc32_table256"
  by code_simp

lemma table256_rows: "ngx_crc32_table256 = concat (map (\<lambda>h. map ((XOR) h) (take 16 ngx_crc32_table256)) ngx_crc32_table16)"
  by (simp add: ngx_crc32_table256_def ngx_crc32_table16_def)

lemma crc_bit_even: "\<not> bit c 0 \<Longrightarrow> crc_bit c = drop_bit 1 c"
  by (simp add: crc_bit_def)

lemma crc_bits_zero: "(\<And>i. i < n \<Longrightarrow> \<not> bit c i) \<Longrightarrow> (crc_bit ^^ n) c = drop_bit n c"
proof (induction n)
  case (Suc n)
  then have "(crc_bit ^^ n) c = drop_bit n c" "\<not> bit c n" by simp_all
  then show ?case by (simp add: crc_bit_even bit_simps)
qed simp

text \<open>The low bits decide what is folded in, the others only move down.\<close>

lemma crc_bits_split: "(crc_bit ^^ n) c = (crc_bit ^^ n) (take_bit n c) XOR drop_bit n c"
proof -
  define u where "u = c XOR take_bit n c"
  have "drop_bit n u = drop_bit n c" "\<And>i. i < n \<Longrightarrow> \<not> bit u i" "c = take_bit n c XOR u"
    by (auto simp: u_def bit_simps intro!: bit_word_eqI)
  then show ?thesis by (metis crc_bits_xor crc_bits_zero)
qed

lemma and_15: "(c :: u32) AND 0xf = take_bit 4 c"
  by (simp add: take_bit_eq_mask mask_eq_exp_minus_1)

lemma and_255: "(c :: u32) AND 0xff = take_bit 8 c"
  by (simp add: take_bit_eq_mask mask_eq_exp_minus_1)

lemma nibble_less: "unat (take_bit 4 c) < 16" for c :: u32
  unfolding unsigned_take_bit_eq by (simp add: take_bit_eq_mod)

lemma table16_at: "ngx_crc32_table16 ! unat (take_bit 4 c) = (crc_bit ^^ 4) (take_bit 4 c)" for c :: u32
proof -
  show ?thesis using nibble_less [of c] by (simp add: table16_entries)
qed

lemma concat_rows:
  "(\<And>y. y \<in> set ys \<Longrightarrow> length (f y) = k) \<Longrightarrow> h < length ys \<Longrightarrow> l < k \<Longrightarrow> concat (map f ys) ! (h * k + l) = f (ys ! h) ! l"
proof (induction ys arbitrary: h)
  case (Cons y ys)
  then show ?case by (cases h) (simp_all add: nth_append)
qed simp

lemma table256_at: "ngx_crc32_table256 ! unat (take_bit 8 c) = (crc_bit ^^ 8) (take_bit 8 c)" for c :: u32
proof -
  let ?lo = "take_bit 4 c" and ?hi = "take_bit 4 (drop_bit 4 c)"
  have len: "length ngx_crc32_table16 = 16" "length low_nibbles = 16"
    by (simp_all add: low_nibbles_def table16_entries)
  note b = nibble_less [of c] nibble_less [of "drop_bit 4 c"]
  have parts: "take_bit 4 (take_bit 8 c) = ?lo" "drop_bit 4 (take_bit 8 c) = ?hi"
    by (auto simp: bit_simps intro!: bit_word_eqI)
  have "unat (take_bit 8 c) = unat ?hi * 16 + unat ?lo"
    unfolding unsigned_take_bit_eq unsigned_drop_bit_eq
    using mod_mult2_eq [of "unat c" 16 16] unsigned_less [where ?'a = nat and w = c] by (simp add: take_bit_eq_mod drop_bit_eq_div)
  then have "ngx_crc32_table256 ! unat (take_bit 8 c) = ngx_crc32_table16 ! unat ?hi XOR low_nibbles ! unat ?lo"
    using b len by (subst table256_rows) (simp add: concat_rows low_nibbles_eq [symmetric])
  also have "\<dots> = (crc_bit ^^ 4) ?hi XOR (crc_bit ^^ 4) ((crc_bit ^^ 4) ?lo)"
    using b(1) len by (simp add: low_nibbles_def table16_at)
  also have "\<dots> = (crc_bit ^^ 4) ((crc_bit ^^ 4) (take_bit 8 c))"
    by (simp add: crc_bits_split [of 4 "take_bit 8 c"] parts crc_bits_xor ac_simps)
  finally show ?thesis by (simp flip: funpow_add [of 4 4, unfolded comp_def, THEN fun_cong])
qed

lemma of_char_small: "drop_bit 8 (of_char ch :: u32) = 0"
proof -
  have "unat (word_of_nat (of_char ch) :: u32) = of_char ch"
    using order.strict_trans [OF nat_of_char_less_256 [of ch], of "2 ^ 32"]
    by (simp add: unsigned_of_nat take_bit_nat_eq_self_iff)
  then have "unat (drop_bit 8 (word_of_nat (of_char ch) :: u32)) = 0"
    unfolding unsigned_drop_bit_eq
    using order.strict_trans1 [OF mod_less_eq_dividend nat_of_char_less_256, of ch "2 ^ 32"]
    by (simp add: drop_bit_eq_div take_bit_eq_mod)
  then show ?thesis by (simp add: of_nat_of_char unsigned_eq_0_iff)
qed

section \<open>The routines compute the CRC\<close>

lemma crc_bits_8: "(crc_bit ^^ 8) c = (crc_bit ^^ 4) ((crc_bit ^^ 4) c)"
  using funpow_add [of 4 4 crc_bit] by simp

lemma crc32_long_step_eq: "crc32_long_step crc ch = crc_byte crc ch"
proof -
  have "drop_bit 8 (crc XOR of_char ch) = drop_bit 8 crc" by (simp add: drop_bit_xor of_char_small)
  then show ?thesis
    using crc_bits_split [of 8 "crc XOR of_char ch"]
    by (simp only: crc32_long_step_def crc_byte_def and_255 table256_at)
qed

lemma crc32_short_step_eq: "crc32_short_step ngx_crc32_table16 crc ch = crc_byte crc ch"
proof -
  define b :: u32 where "b = of_char ch"
  define mid where "mid = (crc_bit ^^ 4) (take_bit 4 (crc XOR b)) XOR drop_bit 4 crc"
  have first: "(crc_bit ^^ 4) (crc XOR b) = mid XOR drop_bit 4 b"
    using crc_bits_split [of 4 "crc XOR b"] by (simp add: mid_def drop_bit_xor ac_simps)
  have "drop_bit 4 (drop_bit 4 b) = 0" using of_char_small [of ch] by (simp add: b_def)
  then have second: "(crc_bit ^^ 4) (mid XOR drop_bit 4 b) = (crc_bit ^^ 4) (take_bit 4 (mid XOR drop_bit 4 b)) XOR drop_bit 4 mid"
    using crc_bits_split [of 4 "mid XOR drop_bit 4 b"] by (simp only: drop_bit_xor xor.right_neutral)
  have low: "(crc XOR (b AND 0xf)) AND 0xf = take_bit 4 (crc XOR b)"
    unfolding and_15 by (simp add: take_bit_xor)
  show ?thesis
    unfolding crc32_short_step_def b_def [symmetric] Let_def low
    by (simp only: and_15 table16_at mid_def [symmetric] crc_bits_8 crc_byte_def b_def [symmetric] first second)
qed

lemma crc32_check_value: "crc32_ref ''123456789'' = 0xCBF43926"
  by (simp add: crc32_ref_def crc32_long_step_eq [symmetric] crc32_long_step_def ngx_crc32_table256_def)

lemma foldl_update: "foldl ngx_crc32_update c ps = foldl crc_byte c (concat ps)"
  by (induction ps arbitrary: c) (simp_all add: ngx_crc32_update_def crc32_long_step_eq [abs_def])

text \<open>One run of the incremental interface: a fresh value, updates with the given pieces, the result.\<close>

fun feed :: "lua_lib \<Rightarrow> addr \<Rightarrow> bytes list \<Rightarrow> crc_heap \<Rightarrow> crc_heap option" where
  "feed lib a [] h = Some h"
| "feed lib a (p # ps) h = do { (_, h) \<leftarrow> lua_f_crc32_update lib [LUserdata a, LString p] h; feed lib a ps h }"

definition crc_session :: "lua_lib \<Rightarrow> addr \<Rightarrow> bytes list \<Rightarrow> crc_heap \<Rightarrow> (lua_ret \<times> crc_heap) option" where
  "crc_session lib a ps h = do { h \<leftarrow> feed lib a ps (snd (lua_f_crc32_init a h)); lua_f_crc32_final [LUserdata a] h }"

lemma feed_eq: "feed lib a ps (h(a \<mapsto> c)) = Some (h(a \<mapsto> foldl ngx_crc32_update c ps))"
  by (induction ps arbitrary: c)
    (simp_all add: lua_f_crc32_update_def crc_cell_def lua_api_defs)

text \<open>
  (C34) The table driven routines all compute the bit-serial CRC-32: the short one with its table of
  16 words (a nibble at a time), the long one with its table of 256 words (a byte at a time), and a
  session that feeds the string in pieces however it is cut.
\<close>

theorem crc32_routines_agree:
  "ngx_http_lua_ngx_crc32_long lib [LString p] = Ret [lua_u32 (crc32_ref p)]
   \<and> ngx_http_lua_ngx_crc32_short lib (l\<lparr>crc_short := ngx_crc32_table16\<rparr>) [LString p] = Ret [lua_u32 (crc32_ref p)]
   \<and> crc_session lib a ps h = Some (Ret [lua_u32 (crc32_ref (concat ps))], h(a \<mapsto> crc32_ref (concat ps)))"
proof (intro conjI)
  show "ngx_http_lua_ngx_crc32_long lib [LString p] = Ret [lua_u32 (crc32_ref p)]"
    by (simp add: ngx_http_lua_ngx_crc32_long_def check_one_string_def lua_api_defs ngx_crc32_long_def crc32_ref_def
        crc32_long_step_eq [abs_def])
  show "ngx_http_lua_ngx_crc32_short lib (l\<lparr>crc_short := ngx_crc32_table16\<rparr>) [LString p] = Ret [lua_u32 (crc32_ref p)]"
    by (simp add: ngx_http_lua_ngx_crc32_short_def check_one_string_def lua_api_defs ngx_crc32_short_def crc32_ref_def
        crc32_short_step_eq [abs_def])
  show "crc_session lib a ps h = Some (Ret [lua_u32 (crc32_ref (concat ps))], h(a \<mapsto> crc32_ref (concat ps)))"
    by (simp add: crc_session_def lua_f_crc32_init_def feed_eq foldl_update lua_f_crc32_final_def crc_cell_def lua_api_defs
        crc32_ref_def ngx_crc32_init_def ngx_crc32_final_def Let_def)
qed

section \<open>The aligned table\<close>

lemma cacheline_pow2:
  "c \<in> {32, 64, 128} \<Longrightarrow> ngx_cpuinfo cpuid c \<in> {32, 64, 128}"
  by (auto simp: ngx_cpuinfo_def Let_def split: prod.splits)

lemma line_mask:
  assumes "c \<in> {32, 64, 128 :: u64}"
  shows "\<exists>n. c - 1 = mask n \<and> unat c = 2 ^ n \<and> unat (c - 1) = 2 ^ n - 1"
proof -
  have "(32 :: u64) - 1 = mask 5" "(64 :: u64) - 1 = mask 6" "(128 :: u64) - 1 = mask 7"
    by (simp_all add: mask_eq_exp_minus_1)
  moreover have "unat (32 :: u64) = 2 ^ 5" "unat (64 :: u64) = 2 ^ 6" "unat (128 :: u64) = 2 ^ 7"
    "unat ((32 :: u64) - 1) = 2 ^ 5 - 1" "unat ((64 :: u64) - 1) = 2 ^ 6 - 1" "unat ((128 :: u64) - 1) = 2 ^ 7 - 1"
    by simp_all
  ultimately show ?thesis using assms by blast
qed

text \<open>Clearing the low bits of a word: the multiple of the line below it.\<close>

lemma and_not_mask: "unat (x AND NOT (mask n)) = unat x div 2 ^ n * 2 ^ n" for x :: u64
proof -
  have "x AND NOT (mask n) = push_bit n (drop_bit n x)"
    by (auto simp: bit_simps intro!: bit_word_eqI)
  also have "unat \<dots> = unat x div 2 ^ n * 2 ^ n"
    unfolding unsigned_push_bit_eq unsigned_drop_bit_eq
    using unsigned_less [where ?'a = nat and w = x] order.strict_trans1 [OF div_times_less_eq_dividend, of "unat x" "2 ^ 64" "2 ^ n"]
    by (simp add: push_bit_eq_mult drop_bit_eq_div take_bit_eq_mod)
  finally show ?thesis .
qed

lemma round_up:
  fixes x k :: nat
  assumes "0 < k"
  shows "x \<le> (x + (k - 1)) div k * k \<and> (x + (k - 1)) div k * k < x + k"
proof -
  have "(x + (k - 1)) mod k < k" using assms by simp
  then show ?thesis using div_mult_mod_eq [of "x + (k - 1)" k] assms by linarith
qed

lemma align_ptr_bounds:
  assumes m: "c - 1 = mask n" and c: "unat c = 2 ^ n" "unat (c - 1) = 2 ^ n - 1" and "unat p + unat c \<le> 2 ^ 64"
  shows "2 ^ n dvd unat (ngx_align_ptr p c) \<and> unat p \<le> unat (ngx_align_ptr p c) \<and> unat (ngx_align_ptr p c) < unat p + unat c"
proof -
  have "unat (p + (c - 1)) = unat p + (2 ^ n - 1)"
    using assms(4) by (simp only: unat_word_ariths c) (simp add: c)
  then have a: "unat (ngx_align_ptr p c) = (unat p + (2 ^ n - 1)) div 2 ^ n * 2 ^ n"
    unfolding ngx_align_ptr_def by (metis and_not_mask m)
  show ?thesis unfolding a c(1) using round_up [of "2 ^ n" "unat p"] by simp
qed

text \<open>
  Loading the module leaves a short table with the same words, on a cache line of the size the
  processor reports unless \<open>malloc\<close> fails, and inside the block of 64 bytes and one line that was
  allocated for it.
\<close>

theorem crc32_table_init_aligned:
  assumes "crc_short l = ngx_crc32_table16" "crc_cacheline l \<in> {32, 64, 128}" "\<not> crc_inited l"
    and "ngx_crc32_table_init cpuid malloc l = (ok, l')"
    and "\<And>p. malloc = Some p \<Longrightarrow> unat p + 64 + 128 \<le> 2 ^ 64"
  shows "crc_short l' = ngx_crc32_table16 \<and> crc_inited l' \<and> crc_cacheline l' \<in> {32, 64, 128}
    \<and> (ok \<longrightarrow> unat (crc_cacheline l') dvd unat (crc_short_at l')) \<and> (\<not> ok \<longrightarrow> malloc = None)
    \<and> (crc_short_at l' \<noteq> crc_short_at l \<longrightarrow>
         (\<exists>p. malloc = Some p \<and> unat p \<le> unat (crc_short_at l')
            \<and> unat (crc_short_at l') + 64 \<le> unat p + 64 + unat (crc_cacheline l')))"
proof -
  define c where "c = ngx_cpuinfo cpuid (crc_cacheline l)"
  have line: "c \<in> {32, 64, 128}" unfolding c_def using assms(2) by (rule cacheline_pow2)
  from line_mask [OF this] obtain n where n: "c - 1 = mask n" "unat c = 2 ^ n" "unat (c - 1) = 2 ^ n - 1" by blast
  have small: "unat c \<le> 128" using line by auto
  show ?thesis
  proof (cases "crc_short_at l AND NOT (c - 1) = crc_short_at l")
    case True
    then have "unat c dvd unat (crc_short_at l)" unfolding n(1,2) by (metis and_not_mask dvd_triv_right)
    then show ?thesis using assms(1,3,4) line True
      by (auto simp: ngx_crc32_table_init_def c_def [symmetric] Let_def)
  next
    case False
    then show ?thesis
    proof (cases malloc)
      case None
      then show ?thesis using assms(1,3,4) line False by (auto simp: ngx_crc32_table_init_def c_def [symmetric] Let_def)
    next
      case (Some p)
      have "2 ^ n dvd unat (ngx_align_ptr p c) \<and> unat p \<le> unat (ngx_align_ptr p c) \<and> unat (ngx_align_ptr p c) < unat p + unat c"
        using n small assms(5) [OF Some] by (intro align_ptr_bounds) simp_all
      then show ?thesis using Some assms(3,4) line False n(2)
        by (auto simp: ngx_crc32_table_init_def c_def [symmetric] Let_def)
    qed
  qed
qed

theorem crc32_table_init_aligned_witness:
  "snd (ngx_crc32_table_init (\<lambda>_. (0, 0, 0, 0)) (Some 100)
      \<lparr>crc_inited = False, crc_cacheline = 32, crc_short_at = 8, crc_short = ngx_crc32_table16\<rparr>)
   = \<lparr>crc_inited = True, crc_cacheline = 32, crc_short_at = 128, crc_short = ngx_crc32_table16\<rparr>
   \<and> unat (32 :: u64) dvd unat (128 :: u64)"
proof -
  let ?l = "\<lparr>crc_inited = False, crc_cacheline = 32, crc_short_at = 8, crc_short = ngx_crc32_table16\<rparr>"
  have r: "ngx_crc32_table_init (\<lambda>_. (0, 0, 0, 0)) (Some 100) ?l
     = (True, \<lparr>crc_inited = True, crc_cacheline = 32, crc_short_at = 128, crc_short = ngx_crc32_table16\<rparr>)"
    by (simp add: ngx_crc32_table_init_def ngx_cpuinfo_def ngx_align_ptr_def)
  from crc32_table_init_aligned [OF _ _ _ r] r show ?thesis by simp
qed

end
