(* ===== verification/Hash_Fns.thy ===== *)
theory Hash_Fns
  imports Lua_Api
begin

text \<open>
  The \<open>hash\<close> module (\<open>lua-hash.c\<close>): djb2, FNV-1a, the MurmurHash variants, CrapWow and the hash
  of the Lua string table. All arithmetic wraps at its width; multi-byte loads are those of the
  little-endian targets. \<open>CrapWow\<close> exists as inline assembly and as C; both are translated, the
  assembly over a record of the registers it uses.
\<close>

section \<open>Bytes\<close>

text \<open>The value of consecutive bytes as a little-endian word.\<close>

primrec le_word :: "bytes \<Rightarrow> 'a::len word" where
  "le_word [] = 0"
| "le_word (c # cs) = of_char c OR push_bit 8 (le_word cs)"

section \<open>djb2 and FNV-1a\<close>

definition djb2_hash :: "bytes \<Rightarrow> u32" where
  "djb2_hash str = foldl (\<lambda>hash c. (push_bit 5 hash + hash) + of_char c) 5381 (c_str str)"

definition fnv1a_32 :: "bytes \<Rightarrow> u32 \<Rightarrow> u32" where
  "fnv1a_32 key len = foldl (\<lambda>rv c. (rv XOR of_char c) * 16777619) 0x811c9dc5 (take (unat len) key)"

definition fnv1a_64 :: "bytes \<Rightarrow> u32 \<Rightarrow> u32" where
  "fnv1a_64 key len =
     ucast (foldl (\<lambda>rv c. (rv XOR of_char c) * 1099511628211) (0xcbf29ce484222325 :: u64) (take (unat len) key))"

section \<open>MurmurHash\<close>

function murmur64_blocks :: "u64 \<Rightarrow> bytes \<Rightarrow> u64 \<times> bytes" where
  "murmur64_blocks h data =
     (if length data < 8 then (h, data)
      else let k = le_word (take 8 data) * 0xc6a4a7935bd1e995;
               k = (k XOR drop_bit 47 k) * 0xc6a4a7935bd1e995
           in murmur64_blocks ((h XOR k) * 0xc6a4a7935bd1e995) (drop 8 data))"
  by auto
termination by (relation "measure (\<lambda>(h, data). length data)") auto

definition MurmurHash64A :: "bytes \<Rightarrow> u32 \<Rightarrow> u64" where
  "MurmurHash64A key seed =
     (let m = 0xc6a4a7935bd1e995;
          (h, data2) = murmur64_blocks (ucast seed XOR (word_of_nat (length key) * m)) key;
          h = foldr (\<lambda>i h. h XOR push_bit (8 * i) (of_char (data2 ! i))) [0..<length data2] h;
          h = (if data2 = [] then h else h * m);
          h = (h XOR drop_bit 47 h) * m
      in h XOR drop_bit 47 h)"

text \<open>The two 32-bit variants differ in how four bytes are loaded; the rest is written twice in the source.\<close>

definition murmur_load :: "bytes \<Rightarrow> u32" where
  "murmur_load data = le_word (take 4 data)"

definition murmur_load_neutral :: "bytes \<Rightarrow> u32" where
  "murmur_load_neutral data =
     ((of_char (data ! 0) OR push_bit 8 (of_char (data ! 1))) OR push_bit 16 (of_char (data ! 2)))
       OR push_bit 24 (of_char (data ! 3))"

function murmur32_blocks :: "(bytes \<Rightarrow> u32) \<Rightarrow> u32 \<Rightarrow> bytes \<Rightarrow> u32 \<times> bytes" where
  "murmur32_blocks load h data =
     (if length data < 4 then (h, data)
      else let k = load data * 0x5bd1e995;
               k = (k XOR drop_bit 24 k) * 0x5bd1e995
           in murmur32_blocks load ((h * 0x5bd1e995) XOR k) (drop 4 data))"
  by auto
termination by (relation "measure (\<lambda>(load, h, data). length data)") auto

declare murmur64_blocks.simps [simp del] murmur32_blocks.simps [simp del]

definition murmur32 :: "(bytes \<Rightarrow> u32) \<Rightarrow> bytes \<Rightarrow> u32 \<Rightarrow> u32" where
  "murmur32 load key seed =
     (let m = 0x5bd1e995;
          (h, data) = murmur32_blocks load (seed XOR word_of_nat (length key)) key;
          h = foldr (\<lambda>i h. h XOR push_bit (8 * i) (of_char (data ! i))) [0..<length data] h;
          h = (if data = [] then h else h * m);
          h = (h XOR drop_bit 13 h) * m
      in h XOR drop_bit 15 h)"

definition MurmurHash2 :: "bytes \<Rightarrow> u32 \<Rightarrow> u32" where
  "MurmurHash2 = murmur32 murmur_load"

definition MurmurHashNeutral2 :: "bytes \<Rightarrow> u32 \<Rightarrow> u32" where
  "MurmurHashNeutral2 = murmur32 murmur_load_neutral"

section \<open>CrapWow\<close>

text \<open>
  Memory by 64-bit address, where an address that is not mapped has no byte; a load of four bytes, which faults
  (\<open>None\<close>) when one of them is not mapped.
\<close>

type_synonym memory = "u64 \<rightharpoonup> char"

definition load32 :: "memory \<Rightarrow> u64 \<Rightarrow> u32 option" where
  "load32 mem a = do { b0 \<leftarrow> mem a; b1 \<leftarrow> mem (a + 1); b2 \<leftarrow> mem (a + 2); b3 \<leftarrow> mem (a + 3); Some (le_word [b0, b1, b2, b3]) }"

text \<open>The C variant: \<open>cwfold\<close> and the loop over eight bytes, on the pair \<open>(h, k)\<close>.\<close>

definition cwfold :: "u32 \<Rightarrow> u32 \<Rightarrow> u32 \<times> u32 \<Rightarrow> u32 \<times> u32" where
  "cwfold a b lh = (let p = ucast a * ucast b :: u64 in (fst lh XOR ucast p, snd lh XOR ucast (drop_bit 32 p)))"

definition cwmixa :: "u32 \<Rightarrow> u32 \<times> u32 \<Rightarrow> u32 \<times> u32" where
  "cwmixa x hk = (let (k, h) = cwfold x 0x57559429 (snd hk, fst hk) in (h, k))"

definition cwmixb :: "u32 \<Rightarrow> u32 \<times> u32 \<Rightarrow> u32 \<times> u32" where
  "cwmixb x hk = cwfold x 0x5052acdb hk"

function crapwow_loop :: "memory \<Rightarrow> u64 \<Rightarrow> u32 \<Rightarrow> u32 \<times> u32 \<Rightarrow> (u64 \<times> u32 \<times> u32 \<times> u32) option" where
  "crapwow_loop mem key4 len hk =
     (if len \<ge> 8 then do {
        a \<leftarrow> load32 mem key4;
        b \<leftarrow> load32 mem (key4 + 4);
        crapwow_loop mem (key4 + 8) (len - 8) (cwmixa b (cwmixb a hk))
      } else Some (key4, len, hk))"
  by auto
termination
  by (relation "measure (\<lambda>(mem, key4, len, hk). unat len)") (auto simp: word_le_nat_alt unat_sub_if')

declare crapwow_loop.simps [simp del]

text \<open>Behind the loop: at most one whole word, at most three bytes cut out of a word, the last mix.\<close>

definition CrapWow_c :: "memory \<Rightarrow> u64 \<Rightarrow> u32 \<Rightarrow> u32 \<Rightarrow> u32 option" where
  "CrapWow_c mem key len seed = do {
     (key4, len, hk) \<leftarrow> crapwow_loop mem key len (len, len + seed + 0x5052acdb);
     (key4, len, hk) \<leftarrow> (if len \<ge> 4 then do { a \<leftarrow> load32 mem key4; Some (key4 + 4, len - 4, cwmixb a hk) } else Some (key4, len, hk));
     hk \<leftarrow> (if len \<noteq> 0 then do { a \<leftarrow> load32 mem key4; Some (cwmixa (a AND (push_bit (unat len * 8) 1 - 1)) hk) } else Some hk);
     let (h, k) = cwmixb (fst hk XOR (snd hk + 0x5052acdb)) hk;
     Some (k XOR h) }"

text \<open>
  The assembly, block by block (the labels are \<open>QW\<close>, \<open>DW\<close>, \<open>B\<close> and \<open>F\<close>). Every register it names
  has 32 bits, \<open>edi\<close> too: on entry it holds the low half of the pointer, and an operand \<open>d(%edi)\<close> has
  the address \<open>edi + d\<close> in 32 bits, extended with zeros. \<open>mull src\<close> leaves the 64-bit product of \<open>eax\<close>
  and \<open>src\<close> in \<open>edx:eax\<close>.
\<close>

record regs =
  eax :: u32
  ebx :: u32
  ecx :: u32
  edx :: u32
  esi :: u32
  edi :: u32

definition load_edi :: "memory \<Rightarrow> u32 \<Rightarrow> regs \<Rightarrow> u32 option" where
  "load_edi mem d r = load32 mem (ucast (edi r + d))"

definition mull :: "u32 \<Rightarrow> regs \<Rightarrow> regs" where
  "mull src r = (let p = ucast (eax r) * ucast src :: u64 in r\<lparr>eax := ucast p, edx := ucast (drop_bit 32 p)\<rparr>)"

definition asm_enter :: "regs \<Rightarrow> regs" where
  "asm_enter r =
     (let r = r\<lparr>esi := 0x5052acdb + ecx r + esi r\<rparr>
      in r\<lparr>ebx := ecx r\<rparr>)"

definition asm_QW :: "memory \<Rightarrow> regs \<Rightarrow> regs option" where
  "asm_QW mem r = do {
     let r = r\<lparr>eax := 0x5052acdb\<rparr>;
     v \<leftarrow> load_edi mem 0 r;
     let r = mull v r;
     let r = r\<lparr>ecx := ecx r + (- 8)\<rparr>;
     let r = r\<lparr>ebx := ebx r XOR eax r\<rparr>;
     let r = r\<lparr>esi := esi r XOR edx r\<rparr>;
     let r = r\<lparr>eax := 0x57559429\<rparr>;
     v \<leftarrow> load_edi mem 4 r;
     let r = mull v r;
     let r = r\<lparr>esi := esi r XOR eax r\<rparr>;
     let r = r\<lparr>ebx := ebx r XOR edx r\<rparr>;
     Some (r\<lparr>edi := edi r + 8\<rparr>) }"

lemma asm_QW_ecx: "asm_QW mem r = Some r' \<Longrightarrow> ecx r' = ecx r - 8"
  by (auto simp: asm_QW_def mull_def Let_def bind_eq_Some_conv)

text \<open>\<open>cmpl $8, ecx; jb DW\<close> before and \<open>jae QW\<close> after the block\<close>

function asm_loop :: "memory \<Rightarrow> regs \<Rightarrow> regs option" where
  "asm_loop mem r = (if ecx r < 8 then Some r else do { r \<leftarrow> asm_QW mem r; asm_loop mem r })"
  by auto
termination
  by (relation "measure (\<lambda>(mem, r). unat (ecx r))")
    (auto simp: asm_QW_ecx word_less_nat_alt word_le_nat_alt not_less unat_sub_if')

declare asm_loop.simps [simp del]

definition asm_DW :: "memory \<Rightarrow> regs \<Rightarrow> regs option" where
  "asm_DW mem r =
     (if ecx r < 4 then Some r
      else do {
        let r = r\<lparr>eax := 0x5052acdb\<rparr>;
        v \<leftarrow> load_edi mem 0 r;
        let r = mull v r;
        let r = r\<lparr>edi := edi r + 4\<rparr>;
        let r = r\<lparr>ebx := ebx r XOR eax r\<rparr>;
        let r = r\<lparr>ecx := ecx r + (- 4)\<rparr>;
        Some (r\<lparr>esi := esi r XOR edx r\<rparr>) })"

definition asm_B :: "memory \<Rightarrow> regs \<Rightarrow> regs option" where
  "asm_B mem r =
     (if ecx r = 0 then Some r
      else do {
        let r = r\<lparr>ecx := push_bit 3 (ecx r)\<rparr>;
        let r = r\<lparr>edx := 1\<rparr>;
        let r = r\<lparr>eax := 0x57559429\<rparr>;
        let r = r\<lparr>edx := push_bit (unat (ecx r AND 31)) (edx r)\<rparr>;
        let r = r\<lparr>edx := edx r + (- 1)\<rparr>;
        v \<leftarrow> load_edi mem 0 r;
        let r = r\<lparr>edx := v AND edx r\<rparr>;
        let r = mull (edx r) r;
        let r = r\<lparr>esi := esi r XOR eax r\<rparr>;
        Some (r\<lparr>ebx := ebx r XOR edx r\<rparr>) })"

definition asm_F :: "regs \<Rightarrow> regs" where
  "asm_F r =
     (let r = r\<lparr>edx := 0x5052acdb + esi r\<rparr>;
          r = r\<lparr>edx := edx r XOR ebx r\<rparr>;
          r = r\<lparr>eax := 0x5052acdb\<rparr>;
          r = mull (edx r) r;
          r = r\<lparr>eax := eax r XOR ebx r\<rparr>;
          r = r\<lparr>esi := esi r XOR edx r\<rparr>
      in r\<lparr>eax := eax r XOR esi r\<rparr>)"

definition CrapWow :: "memory \<Rightarrow> u64 \<Rightarrow> u32 \<Rightarrow> u32 \<Rightarrow> u32 option" where
  "CrapWow mem key len seed = do {
     r \<leftarrow> asm_loop mem (asm_enter \<lparr>eax = 0, ebx = 0, ecx = len, edx = 0, esi = seed, edi = ucast key\<rparr>);
     r \<leftarrow> asm_DW mem r;
     r \<leftarrow> asm_B mem r;
     Some (eax (asm_F r)) }"

section \<open>The hash of the Lua string table\<close>

function luaS_loop :: "bytes \<Rightarrow> nat \<Rightarrow> nat \<Rightarrow> u32 \<Rightarrow> u32" where
  "luaS_loop str step l1 h =
     (if step = 0 \<or> l1 < step then h
      else luaS_loop str step (l1 - step) (h XOR ((push_bit 5 h + drop_bit 2 h) + of_char (str ! (l1 - 1)))))"
  by auto
termination by (relation "measure (\<lambda>(str, step, l1, h). l1)") auto

declare luaS_loop.simps [simp del]

definition luaS_hash :: "bytes \<Rightarrow> u32 \<Rightarrow> u32" where
  "luaS_hash str seed = luaS_loop str (length str div 32 + 1) (length str) (seed XOR word_of_nat (length str))"

section \<open>The Lua interface\<close>

abbreviation lua_hash_value :: "u32 \<Rightarrow> lua_value" where
  "lua_hash_value w \<equiv> lint (uint w)"

definition need_string :: "lua_lib \<Rightarrow> lua_value list \<Rightarrow> (bytes \<Rightarrow> lua_ret option) \<Rightarrow> lua_ret option" where
  "need_string lib st k =
     (if \<not> lua_isstring st 1 then Some (Ret [LNil, lstr ''need string''])
      else Option.bind (lua_tolstring lib st 1) k)"

definition lua_f_djb2_hash :: "lua_lib \<Rightarrow> lua_value list \<Rightarrow> lua_ret option" where
  "lua_f_djb2_hash lib st = need_string lib st (\<lambda>str. Some (Ret [lua_hash_value
     (foldl (\<lambda>hash c. (push_bit 5 hash + hash) + word_of_int (schar c)) 5381 (c_str str))]))"

definition lua_f_fnv1a_32 :: "lua_lib \<Rightarrow> lua_value list \<Rightarrow> lua_ret option" where
  "lua_f_fnv1a_32 lib st = need_string lib st (\<lambda>str. Some (Ret [lua_hash_value (fnv1a_32 str (word_of_nat (length str)))]))"

definition lua_f_fnv1a_64 :: "lua_lib \<Rightarrow> lua_value list \<Rightarrow> lua_ret option" where
  "lua_f_fnv1a_64 lib st = need_string lib st (\<lambda>str. Some (Ret [lua_hash_value (fnv1a_64 str (word_of_nat (length str)))]))"

text \<open>On x86-64; a length that is negative as an \<open>int\<close> makes the loop run past the string.\<close>

definition lua_f_murmurhash :: "lua_lib \<Rightarrow> lua_value list \<Rightarrow> lua_ret option" where
  "lua_f_murmurhash lib st = need_string lib st (\<lambda>str.
     let len = c_int (int (length str))
     in if len < 0 then None else Some (Ret [lua_hash_value (ucast (MurmurHash64A (take (nat len) str) 0))]))"

text \<open>Where the string lies and what else is mapped are arguments; a NUL follows the string.\<close>

definition string_memory :: "bytes \<Rightarrow> u64 \<Rightarrow> memory \<Rightarrow> memory" where
  "string_memory str ptr beyond a =
     (if unat (a - ptr) < length str then Some (str ! unat (a - ptr)) else if unat (a - ptr) = length str then Some (CHR 0x00) else beyond a)"

definition lua_f_crapwow_hash :: "lua_lib \<Rightarrow> memory \<Rightarrow> u64 \<Rightarrow> lua_value list \<Rightarrow> lua_ret option" where
  "lua_f_crapwow_hash lib beyond ptr st = need_string lib st (\<lambda>str. do {
     h \<leftarrow> CrapWow (string_memory str ptr beyond) ptr (word_of_nat (length str)) 0xabcdef11;
     Some (Ret [lua_hash_value h]) })"

definition lua_f_lua_hash :: "lua_lib \<Rightarrow> lua_value list \<Rightarrow> lua_ret option" where
  "lua_f_lua_hash lib st = need_string lib st (\<lambda>str. Some (Ret [lua_hash_value (luaS_hash str 0x57559429)]))"

section \<open>The assembly computes the C function\<close>

abbreviation hk_of :: "regs \<Rightarrow> u32 \<times> u32" where
  "hk_of r \<equiv> (ebx r, esi r)"

abbreviation addr :: "regs \<Rightarrow> u64" where
  "addr r \<equiv> ucast (edi r)"

text \<open>The block does the two mixes of the C loop, as long as \<open>edi\<close> does not wrap.\<close>

lemma ucast_add32: "unat a + unat d < 2 ^ 32 \<Longrightarrow> (ucast (a + d) :: u64) = ucast a + ucast d" for a d :: u32
  by (rule word_unat_eq_iff [THEN iffD2]) (simp add: unat_word_ariths unsigned_ucast_eq take_bit_nat_eq_self)

lemma asm_QW_mixes:
  assumes "unat (edi r) + unat (ecx r) < 2 ^ 32" and "8 \<le> ecx r"
  shows "map_option (\<lambda>r'. (addr r', ecx r', hk_of r')) (asm_QW mem r) = do {
     a \<leftarrow> load32 mem (addr r);
     b \<leftarrow> load32 mem (addr r + 4);
     Some (addr r + 8, ecx r - 8, cwmixa b (cwmixb a (hk_of r))) }"
proof -
  have "ucast (edi r + 4) = addr r + 4" "ucast (edi r + 8) = addr r + 8"
    using ucast_add32 [of "edi r" 4] ucast_add32 [of "edi r" 8] assms by (simp_all add: word_le_nat_alt)
  then show ?thesis
    by (simp add: asm_QW_def load_edi_def mull_def cwmixa_def cwmixb_def cwfold_def Let_def mult.commute split: bind_split)
qed

lemma asm_QW_edi:
  assumes "asm_QW mem r = Some r'" and "unat (edi r) + unat (ecx r) < 2 ^ 32" and "8 \<le> ecx r"
  shows "unat (edi r') + unat (ecx r') < 2 ^ 32"
proof -
  have r': "edi r' = edi r + 8" "ecx r' = ecx r - 8"
    using assms(1) by (auto simp: asm_QW_def mull_def Let_def bind_eq_Some_conv)
  have "unat (edi r + 8) = unat (edi r) + 8" "unat (ecx r - 8) + 8 = unat (ecx r)"
    using assms(2,3) by (simp_all add: word_le_nat_alt unat_sub_if' unat_word_ariths)
  then show ?thesis using assms(2) r' by simp
qed

lemma asm_loop_mixes:
  assumes "unat (edi r) + unat (ecx r) < 2 ^ 32"
  shows "map_option (\<lambda>r'. (addr r', ecx r', hk_of r')) (asm_loop mem r) = crapwow_loop mem (addr r) (ecx r) (hk_of r)"
  using assms
proof (induction mem r rule: asm_loop.induct)
  case (1 mem r)
  show ?case
  proof (cases "ecx r < 8")
    case True
    then have "\<not> 8 \<le> ecx r" by simp
    with True show ?thesis by (simp add: asm_loop.simps [of mem r] crapwow_loop.simps [of mem "addr r"])
  next
    case False
    then have ge: "8 \<le> ecx r" by simp
    note qw = asm_QW_mixes [OF 1(2) ge, of mem]
    show ?thesis
    proof (cases "asm_QW mem r")
      case None
      with qw have "(do { a \<leftarrow> load32 mem (addr r); b \<leftarrow> load32 mem (addr r + 4); Some (a, b) }) = None"
        by (auto split: bind_splits)
      then show ?thesis using None False ge
        by (auto simp: asm_loop.simps [of mem r] crapwow_loop.simps [of mem "addr r" "ecx r"] split: bind_splits)
    next
      case (Some r')
      have IH: "map_option (\<lambda>r'. (addr r', ecx r', hk_of r')) (asm_loop mem r') = crapwow_loop mem (addr r') (ecx r') (hk_of r')"
        by (rule 1(1) [OF False Some asm_QW_edi [OF Some 1(2) ge]])
      from qw Some obtain a b where ab: "load32 mem (addr r) = Some a" "load32 mem (addr r + 4) = Some b"
        "addr r' = addr r + 8" "ecx r' = ecx r - 8" "hk_of r' = cwmixa b (cwmixb a (hk_of r))"
        by (cases "load32 mem (addr r)"; cases "load32 mem (addr r + 4)") simp_all
      then show ?thesis using IH Some False ge
        by (simp add: asm_loop.simps [of mem r] crapwow_loop.simps [of mem "addr r" "ecx r"])
    qed
  qed
qed

lemma asm_DW_mixes:
  assumes "unat (edi r) + unat (ecx r) < 2 ^ 32"
  shows "map_option (\<lambda>r'. (addr r', ecx r', hk_of r')) (asm_DW mem r) =
    (if ecx r \<ge> 4 then do { a \<leftarrow> load32 mem (addr r); Some (addr r + 4, ecx r - 4, cwmixb a (hk_of r)) } else Some (addr r, ecx r, hk_of r))"
proof (cases "4 \<le> ecx r")
  case True
  then have "ucast (edi r + 4) = addr r + 4" "\<not> ecx r < 4"
    using ucast_add32 [of "edi r" 4] assms by (auto simp: word_le_nat_alt word_less_nat_alt)
  then show ?thesis using True
    by (simp add: asm_DW_def load_edi_def mull_def cwmixb_def cwfold_def Let_def mult.commute split: bind_split)
next
  case False
  then have "ecx r < 4" by simp
  with False show ?thesis by (simp add: asm_DW_def)
qed

text \<open>The rest of at most three bytes: the shift count of the assembly is the number of bits.\<close>

lemma word_below_4: "c < 4 \<Longrightarrow> c = 0 \<or> c = 1 \<or> c = 2 \<or> c = 3" for c :: u32
proof -
  assume "c < 4"
  then have "unat c = 0 \<or> unat c = 1 \<or> unat c = 2 \<or> unat c = 3" by (auto simp: word_less_nat_alt)
  then show ?thesis by (auto simp: word_eq_iff_unsigned [where ?'a = nat])
qed

lemma asm_B_mixes:
  assumes "ecx r < 4"
  shows "map_option hk_of (asm_B mem r) =
    (if ecx r \<noteq> 0 then do { a \<leftarrow> load32 mem (addr r); Some (cwmixa (a AND (push_bit (unat (ecx r) * 8) 1 - 1)) (hk_of r)) } else Some (hk_of r))"
  using word_below_4 [OF assms]
  by (auto simp: asm_B_def load_edi_def mull_def cwmixa_def cwfold_def Let_def mult.commute split: bind_splits)

lemma asm_F_mixes:
  "eax (asm_F r) = (let (h, k) = cwmixb (ebx r XOR (esi r + 0x5052acdb)) (hk_of r) in k XOR h)"
proof -
  define x where "x = (0x5052acdb + esi r) XOR ebx r"
  have x: "ebx r XOR (esi r + 0x5052acdb) = x" by (metis x_def xor.commute add.commute)
  show ?thesis
    unfolding x by (simp add: asm_F_def mull_def x_def [symmetric] cwmixb_def cwfold_def Let_def)
      (metis xor.commute mult.commute)
qed

lemma crapwow_loop_bounds:
  assumes "crapwow_loop mem key4 len hk = Some (key', len', hk')"
  shows "len' < 8 \<and> (\<exists>n. key' = key4 + of_nat n \<and> n + unat len' = unat len)"
  using assms
proof (induction mem key4 len hk rule: crapwow_loop.induct)
  case (1 mem key4 len hk)
  show ?case
  proof (cases "8 \<le> len")
    case True
    then have l: "unat (len - 8) + 8 = unat len" by (simp add: word_le_nat_alt unat_sub_if')
    from 1(2) True obtain a b where ab: "load32 mem key4 = Some a" "load32 mem (key4 + 4) = Some b"
      "crapwow_loop mem (key4 + 8) (len - 8) (cwmixa b (cwmixb a hk)) = Some (key', len', hk')"
      by (auto simp: crapwow_loop.simps [of mem key4 len] bind_eq_Some_conv)
    from 1(1) [OF True ab] obtain n where "len' < 8" "key' = key4 + 8 + of_nat n" "n + unat len' = unat (len - 8)" by blast
    then have "key' = key4 + of_nat (n + 8)" "n + 8 + unat len' = unat len" "len' < 8" using l by simp_all
    then show ?thesis by blast
  next
    case False
    with 1(2) show ?thesis by (auto simp: crapwow_loop.simps [of mem key4 len] intro!: exI [of _ 0])
  qed
qed

lemma minus_4_small: "4 \<le> c \<Longrightarrow> c < 8 \<Longrightarrow> c - 4 < 4 \<and> unat (c - 4) + 4 = unat c" for c :: u32
  by (auto simp: word_le_nat_alt word_less_nat_alt unat_sub_if')

lemma bind_map_option: "Option.bind (map_option f x) g = Option.bind x (\<lambda>y. g (f y))"
  by (cases x) simp_all

lemma asm_loop_post:
  assumes "asm_loop mem r = Some r'" and "unat (edi r) + unat (ecx r) < 2 ^ 32"
  shows "ecx r' < 8 \<and> unat (edi r') + unat (ecx r') < 2 ^ 32"
  using assms
proof (induction mem r rule: asm_loop.induct)
  case (1 mem r)
  show ?case
  proof (cases "ecx r < 8")
    case False
    then have "8 \<le> ecx r" by simp
    from 1(2) False obtain r1 where r1: "asm_QW mem r = Some r1" "asm_loop mem r1 = Some r'"
      by (auto simp: asm_loop.simps [of mem r] bind_eq_Some_conv)
    show ?thesis by (rule 1(1) [OF False r1 asm_QW_edi [OF r1(1) 1(3) \<open>8 \<le> ecx r\<close>]])
  qed (use 1(2,3) in \<open>simp add: asm_loop.simps [of mem r]\<close>)
qed

text \<open>
  What the assembly computes: the C function, of the key at the address the low half of the pointer names.
\<close>

lemma CrapWow_low_half:
  assumes "unat (ucast key :: u32) + unat len < 2 ^ 32"
  shows "CrapWow mem key len seed = CrapWow_c mem (ucast (ucast key :: u32)) len seed"
proof -
  define r0 where "r0 = asm_enter \<lparr>eax = 0, ebx = 0, ecx = len, edx = 0, esi = seed, edi = ucast key\<rparr>"
  have r0: "edi r0 = ucast key" "ecx r0 = len" "hk_of r0 = (len, len + seed + 0x5052acdb)"
    by (simp_all add: r0_def asm_enter_def Let_def ac_simps)
  note asm = CrapWow_def [of mem key len seed, folded r0_def]
  have loop: "crapwow_loop mem (ucast (ucast key :: u32)) len (len, len + seed + 0x5052acdb)
      = map_option (\<lambda>r'. (addr r', ecx r', hk_of r')) (asm_loop mem r0)"
    using asm_loop_mixes [of r0 mem] assms r0 by simp
  show ?thesis
  proof (cases "asm_loop mem r0")
    case None
    then show ?thesis using loop by (simp add: asm CrapWow_c_def)
  next
    case r1: (Some r1)
    have post: "ecx r1 < 8" "unat (edi r1) + unat (ecx r1) < 2 ^ 32" using asm_loop_post [OF r1] assms r0 by simp_all
    note dw = asm_DW_mixes [OF post(2), of mem, symmetric]
    show ?thesis
    proof (cases "asm_DW mem r1")
      case None
      then show ?thesis unfolding asm CrapWow_c_def loop r1 using dw by simp
    next
      case r2: (Some r2)
      have "ecx r2 < 4"
        using dw r2 minus_4_small [of "ecx r1"] post(1) by (auto split: if_splits bind_splits)
      note b = asm_B_mixes [OF this, of mem, symmetric]
      show ?thesis
        unfolding asm CrapWow_c_def loop r1 r2 option.map bind.bind_lunit prod.case dw b bind_map_option asm_F_mixes Let_def fst_conv snd_conv
        by (simp only: prod.case_eq_if)
    qed
  qed
qed

lemma low_half_id: "unat p < 2 ^ 32 \<Longrightarrow> ucast (ucast p :: u32) = p" for p :: u64
  by (intro word_unat_eq_iff [THEN iffD2]) (simp add: unsigned_ucast_eq unsigned_take_bit_eq take_bit_nat_eq_self)

lemma CrapWow_eq_c:
  assumes "unat key + unat len < 2 ^ 32"
  shows "CrapWow mem key len seed = CrapWow_c mem key len seed"
proof -
  have k: "unat key < 2 ^ 32" using assms by simp
  then have "unat (ucast key :: u32) = unat key" by (simp add: unsigned_ucast_eq take_bit_nat_eq_self)
  then show ?thesis using CrapWow_low_half [of key len mem seed] low_half_id [OF k] assms by simp
qed

section \<open>Bytes behind the key do not matter\<close>

lemma of_char_bit: "8 \<le> i \<Longrightarrow> \<not> bit (of_char c :: 'a::len word) i"
  unfolding of_char_def bit_horner_sum_bit_iff by simp

lemma le_word_take: "le_word (take l bs) = (take_bit (8 * l) (le_word bs) :: 'a::len word)"
proof (induction bs arbitrary: l)
  case (Cons c bs)
  show ?case
  proof (cases l)
    case (Suc n)
    have "take_bit (8 * Suc n) (of_char c OR push_bit 8 (le_word bs)) =
        (of_char c OR push_bit 8 (take_bit (8 * n) (le_word bs)) :: 'a word)"
      by (rule bit_word_eqI) (use of_char_bit [where c = c and ?'a = 'a] in \<open>auto simp: bit_simps\<close>)
    with Suc Cons.IH show ?thesis by simp
  qed simp
qed simp

text \<open>Two memories that hold the same key of \<open>n\<close> bytes, and have three bytes behind it mapped.\<close>

definition same_key :: "u64 \<Rightarrow> nat \<Rightarrow> memory \<Rightarrow> memory \<Rightarrow> bool" where
  "same_key p n mem mem' = ((\<forall>i<n. mem (p + of_nat i) = mem' (p + of_nat i))
     \<and> (\<forall>i<n + 3. mem (p + of_nat i) \<noteq> None \<and> mem' (p + of_nat i) \<noteq> None))"

lemma same_key_shift:
  assumes "same_key p (k + n) mem mem'"
  shows "same_key (p + of_nat k) n mem mem'"
proof -
  have "p + of_nat k + of_nat i = p + of_nat (k + i)" for i :: nat by simp
  then show ?thesis using assms unfolding same_key_def by (metis add.assoc nat_add_left_cancel_less)
qed

lemma load32_mapped:
  assumes "same_key p n mem mem'" and "0 < n"
  shows "\<exists>bs bs'. length bs = 4 \<and> length bs' = 4 \<and> load32 mem p = Some (le_word bs) \<and> load32 mem' p = Some (le_word bs') \<and> take n bs = take n bs'"
proof -
  have at: "i < n \<Longrightarrow> mem (p + of_nat i) = mem' (p + of_nat i)" "i < n + 3 \<Longrightarrow> \<exists>a b. mem (p + of_nat i) = Some a \<and> mem' (p + of_nat i) = Some b" for i
    using assms(1) unfolding same_key_def by blast+
  obtain a0 b0 a1 b1 a2 b2 a3 b3 where m: "mem p = Some a0" "mem' p = Some b0" "mem (p + 1) = Some a1" "mem' (p + 1) = Some b1"
    "mem (p + 2) = Some a2" "mem' (p + 2) = Some b2" "mem (p + 3) = Some a3" "mem' (p + 3) = Some b3"
    using at(2) [of 0] at(2) [of 1] at(2) [of 2] at(2) [of 3] assms(2) by auto
  have "take n [a0, a1, a2, a3] = take n [b0, b1, b2, b3]"
  proof (rule nth_equalityI)
    fix i assume "i < length (take n [a0, a1, a2, a3])"
    then have "i < n" "i = 0 \<or> i = 1 \<or> i = 2 \<or> i = 3" by auto
    then show "take n [a0, a1, a2, a3] ! i = take n [b0, b1, b2, b3] ! i"
      using at(1) [of i] m by auto
  qed simp
  with m show ?thesis
    by (intro exI [of _ "[a0, a1, a2, a3]"] exI [of _ "[b0, b1, b2, b3]"]) (simp add: load32_def del: le_word.simps)
qed

lemma load32_same: "same_key p n mem mem' \<Longrightarrow> 4 \<le> n \<Longrightarrow> \<exists>v. load32 mem p = Some v \<and> load32 mem' p = Some v"
  using load32_mapped [of p n mem mem'] by auto

lemma load32_rest:
  assumes "same_key p l mem mem'" and "0 < l" "l < 4"
  shows "\<exists>v v'. load32 mem p = Some v \<and> load32 mem' p = Some v' \<and> v AND (push_bit (l * 8) 1 - 1) = v' AND (push_bit (l * 8) 1 - 1)"
proof -
  have m: "push_bit (l * 8) 1 - 1 = (mask (8 * l) :: u32)"
    by (simp add: mask_eq_exp_minus_1 push_bit_eq_mult mult.commute)
  show ?thesis unfolding m using load32_mapped [OF assms(1,2)] by (metis le_word_take take_bit_eq_mask)
qed

lemma crapwow_loop_same:
  "same_key key4 (unat len) mem mem' \<Longrightarrow> \<exists>r. crapwow_loop mem key4 len hk = Some r \<and> crapwow_loop mem' key4 len hk = Some r"
proof (induction mem key4 len hk rule: crapwow_loop.induct)
  case (1 mem key4 len hk)
  show ?case
  proof (cases "8 \<le> len")
    case True
    then have l: "unat len = 8 + unat (len - 8)" "unat len = 4 + (4 + unat (len - 8))" by (simp_all add: word_le_nat_alt unat_sub_if')
    have s: "same_key (key4 + 8) (unat (len - 8)) mem mem'" "same_key (key4 + 4) (4 + unat (len - 8)) mem mem'"
      using same_key_shift [OF 1(2) [unfolded l(1)]] same_key_shift [OF 1(2) [unfolded l(2)]] by simp_all
    obtain a b where ab: "load32 mem key4 = Some a" "load32 mem' key4 = Some a" "load32 mem (key4 + 4) = Some b" "load32 mem' (key4 + 4) = Some b"
      using load32_same [OF 1(2)] load32_same [OF s(2)] l(1) by auto
    show ?thesis using 1(1) [OF True ab(1,3) s(1)] True ab
      by (simp add: crapwow_loop.simps [of mem key4 len] crapwow_loop.simps [of mem' key4 len])
  next
    case False
    then show ?thesis by (simp add: crapwow_loop.simps [of mem key4 len] crapwow_loop.simps [of mem' key4 len])
  qed
qed

lemma CrapWow_c_same:
  assumes "same_key key (unat len) mem mem'"
  shows "\<exists>h. CrapWow_c mem key len seed = Some h \<and> CrapWow_c mem' key len seed = Some h"
proof -
  obtain p l hk where lp: "crapwow_loop mem key len (len, len + seed + 0x5052acdb) = Some (p, l, hk)"
    "crapwow_loop mem' key len (len, len + seed + 0x5052acdb) = Some (p, l, hk)"
    using crapwow_loop_same [OF assms, of "(len, len + seed + 0x5052acdb)"] by (metis prod.exhaust)
  obtain n where n: "l < 8" "p = key + of_nat n" "unat len = n + unat l" using crapwow_loop_bounds [OF lp(1)] by auto
  have p: "same_key p (unat l) mem mem'" using same_key_shift [of key n "unat l"] assms n(2,3) by simp
  have tail: "\<exists>v v'. load32 mem p' = Some v \<and> load32 mem' p' = Some v' \<and> v AND (push_bit (unat l' * 8) 1 - 1) = v' AND (push_bit (unat l' * 8) 1 - 1)"
    if "same_key p' (unat l') mem mem'" "l' < 4" "l' \<noteq> 0" for p' and l' :: u32
    using that by (intro load32_rest) (auto simp: word_less_nat_alt unat_gt_0)
  show ?thesis
  proof (cases "4 \<le> l")
    case True
    note m4 = minus_4_small [OF True n(1)]
    have p4: "same_key (p + 4) (unat (l - 4)) mem mem'" using same_key_shift [of p 4 "unat (l - 4)" mem mem'] p m4 by (simp add: add.commute)
    obtain v where v: "load32 mem p = Some v" "load32 mem' p = Some v" using load32_same [OF p] True by (auto simp: word_le_nat_alt)
    show ?thesis
      using tail [OF p4] m4 unfolding CrapWow_c_def lp using True v by (cases "l - 4 = 0") (auto split: prod.split)
  next
    case False
    then have "l < 4" by simp
    then show ?thesis using tail [OF p] False unfolding CrapWow_c_def lp by (cases "l = 0") (auto split: prod.split)
  qed
qed

lemma string_memory_same:
  assumes "length s + 3 < 2 ^ 64"
    and "\<And>i. i \<in> {1, 2} \<Longrightarrow> beyond (ptr + of_nat (length s + i)) \<noteq> None \<and> beyond' (ptr + of_nat (length s + i)) \<noteq> None"
  shows "same_key ptr (length s) (string_memory s ptr beyond) (string_memory s ptr beyond')"
proof -
  have u: "unat (ptr + of_nat i - ptr) = i" if "i < length s + 3" for i
    using that assms(1) by (simp add: unat_of_nat)
  have "beyond (ptr + of_nat i) \<noteq> None \<and> beyond' (ptr + of_nat i) \<noteq> None" if "i < length s + 3" "\<not> i < length s" "i \<noteq> length s" for i
  proof -
    have "i = length s + 1 \<or> i = length s + 2" using that by arith
    then show ?thesis using assms(2) [of 1] assms(2) [of 2] by blast
  qed
  moreover have "string_memory s ptr m (ptr + of_nat i) = (if i < length s then Some (s ! i) else if i = length s then Some CHR 0x00 else m (ptr + of_nat i))"
    if "i < length s + 3" for i m
    unfolding string_memory_def u [OF that] ..
  ultimately show ?thesis unfolding same_key_def by simp
qed

text \<open>
  (C38) The inline assembly of CrapWow keeps only the low half of the pointer: whatever the pointer, it computes the
  function its C alternative computes of the bytes at the address with that low half, as long as this key ends below
  \<open>2^32\<close>. So for keys that lie in the first 4 GB, as all do on a 32-bit target, both compute the same hash. And
  although both load four bytes at the end of the key at once, what lies behind the NUL of such a string does not influence
  the hash \<open>crapwow_hash\<close> returns, as long as the two bytes behind it are mapped.
\<close>

theorem crapwow_asm_equals_c:
  assumes "unat (ucast key :: u32) + unat len < 2 ^ 32" and "unat ptr + length s + 3 < 2 ^ 32"
    and "\<And>i. i \<in> {1, 2} \<Longrightarrow> beyond (ptr + of_nat (length s + i)) \<noteq> None \<and> beyond' (ptr + of_nat (length s + i)) \<noteq> None"
  shows "CrapWow mem key len seed = CrapWow_c mem (ucast (ucast key :: u32)) len seed
   \<and> (unat key < 2 ^ 32 \<longrightarrow> CrapWow mem key len seed = CrapWow_c mem key len seed)
   \<and> (\<exists>h. CrapWow_c (string_memory s ptr beyond) ptr (word_of_nat (length s)) 0xabcdef11 = Some h
      \<and> lua_f_crapwow_hash lib beyond ptr [LString s] = Some (Ret [lua_hash_value h])
      \<and> lua_f_crapwow_hash lib beyond' ptr [LString s] = Some (Ret [lua_hash_value h]))"
proof (intro conjI impI)
  show low: "CrapWow mem key len seed = CrapWow_c mem (ucast (ucast key :: u32)) len seed"
    by (rule CrapWow_low_half [OF assms(1)])
  show "CrapWow mem key len seed = CrapWow_c mem key len seed" if "unat key < 2 ^ 32"
    using low low_half_id [OF that] by simp
  have len: "unat (word_of_nat (length s) :: u32) = length s" using assms(2) by (simp add: unat_of_nat)
  have "same_key ptr (length s) (string_memory s ptr beyond) (string_memory s ptr beyond')"
    by (rule string_memory_same) (use assms(2,3) in auto)
  then obtain h where h: "CrapWow_c (string_memory s ptr beyond) ptr (word_of_nat (length s)) 0xabcdef11 = Some h"
    "CrapWow_c (string_memory s ptr beyond') ptr (word_of_nat (length s)) 0xabcdef11 = Some h"
    using CrapWow_c_same [of ptr "word_of_nat (length s)"] len by metis
  have eq: "CrapWow m ptr (word_of_nat (length s)) 0xabcdef11 = CrapWow_c m ptr (word_of_nat (length s)) 0xabcdef11" for m
    by (rule CrapWow_eq_c) (use len assms(2) in simp)
  show "\<exists>h. CrapWow_c (string_memory s ptr beyond) ptr (word_of_nat (length s)) 0xabcdef11 = Some h
      \<and> lua_f_crapwow_hash lib beyond ptr [LString s] = Some (Ret [lua_hash_value h])
      \<and> lua_f_crapwow_hash lib beyond' ptr [LString s] = Some (Ret [lua_hash_value h])"
    using h by (intro exI [of _ h]) (simp add: lua_f_crapwow_hash_def eq need_string_def lua_api_defs)
qed

text \<open>
  A key of three bytes at address \<open>2^32 + 16\<close>: the assembly reads the bytes at 16, and does so when nothing is mapped
  above \<open>2^32\<close>.
\<close>

definition low_memory :: memory where
  "low_memory a = (if a < 2 ^ 32 then Some (char_of (unat a)) else None)"

theorem crapwow_asm_equals_c_witness:
  "CrapWow low_memory (2 ^ 32 + 16) 3 0 = CrapWow_c low_memory 16 3 0
   \<and> (\<exists>h. lua_f_crapwow_hash \<lparr>str2number = \<lambda>_. None, number2str = \<lambda>_. []\<rparr> (\<lambda>_. Some CHR 0x07) 4096 [LString ''abc''] = Some (Ret [lua_hash_value h])
      \<and> lua_f_crapwow_hash \<lparr>str2number = \<lambda>_. None, number2str = \<lambda>_. []\<rparr> (\<lambda>_. Some CHR 0x2A) 4096 [LString ''abc''] = Some (Ret [lua_hash_value h]))"
proof -
  have "unat (ucast (2 ^ 32 + 16 :: u64) :: u32) + unat (3 :: u32) < 2 ^ 32" "unat (4096 :: u64) + length ''abc'' + 3 < 2 ^ 32"
    "ucast (ucast (2 ^ 32 + 16 :: u64) :: u32) = (16 :: u64)" by simp_all
  note low = this
  show ?thesis
    using crapwow_asm_equals_c [OF low(1,2), of "\<lambda>_. Some CHR 0x07" "\<lambda>_. Some CHR 0x2A" low_memory 0 "\<lparr>str2number = \<lambda>_. None, number2str = \<lambda>_. []\<rparr>"]
    unfolding low(3) by blast
qed

text \<open>The endian-neutral MurmurHash2 computes the same hash as the one that loads whole words.\<close>

lemma murmur_loads_agree:
  assumes "4 \<le> length data"
  shows "murmur_load data = murmur_load_neutral data"
proof -
  obtain a b c d r where "data = a # b # c # d # r"
    using assms by (auto simp: Suc_le_length_iff numeral_eq_Suc)
  then show ?thesis
    by (simp add: murmur_load_def murmur_load_neutral_def push_bit_or or.assoc)
qed

lemma murmur_blocks_agree: "murmur32_blocks murmur_load h data = murmur32_blocks murmur_load_neutral h data"
proof (induction murmur_load h data rule: murmur32_blocks.induct)
  case (1 h data)
  show ?case
  proof (cases "length data < 4")
    case False
    then show ?thesis
      using 1 murmur_loads_agree [of data]
      by (simp add: murmur32_blocks.simps [of murmur_load h data] murmur32_blocks.simps [of murmur_load_neutral h data] Let_def)
  qed (simp add: murmur32_blocks.simps [of murmur_load h data] murmur32_blocks.simps [of murmur_load_neutral h data])
qed

lemma MurmurHash2_neutral: "MurmurHash2 key seed = MurmurHashNeutral2 key seed"
  by (simp add: MurmurHash2_def MurmurHashNeutral2_def murmur32_def murmur_blocks_agree)

end
