(* ===== verification/Eio.thy ===== *)
theory Eio
  imports Lua_Api
begin

text \<open>
  The asynchronous file module (\<open>lua-eio.c\<close>). A call checks its arguments, submits a request to
  libeio and yields; when the request is done, its callback resumes the coroutine that issued it.
  The state holds the file handles (userdata with a descriptor), the requests under way and the
  resumptions so far; libeio's answer is an argument of the callbacks. Only \<open>None\<close> stands for
  undefined behaviour: a userdata that is no handle, or a buffer read past its end.
\<close>

section \<open>Requests and answers\<close>

datatype whence = SEEK_CUR | SEEK_SET | SEEK_END

datatype open_flags = RDONLY | APPEND_RDWR_CREAT | RDWR_CREAT

datatype eio_op =
    Op_stat bytes
  | Op_mkdir bytes int
  | Op_readdir bytes
  | Op_rename bytes bytes
  | Op_chmod bytes int
  | Op_unlink bytes
  | Op_rmdir bytes
  | Op_chown bytes u32 u32
  | Op_close int
  | Op_read int int int
  | Op_write int bytes u64
  | Op_seek int u64 whence
  | Op_fsync int
  | Op_open bytes open_flags int

datatype eio_cb = Res_cb | Readdir_cb | Stat_cb | Isdir_cb | Isfile_cb | Exists_cb | Read_cb | Seek_cb | Open_cb

record eio_req =
  rq_op :: eio_op
  rq_cb :: eio_cb
  rq_data :: "lthread option"     \<comment> \<open>\<open>req->data\<close>; \<open>None\<close> is \<open>NULL\<close>\<close>

record eio_stat =
  st_dev :: int
  st_ino :: int
  st_mode :: nat
  st_nlink :: int
  st_uid :: int
  st_gid :: int
  st_rdev :: int
  st_atime :: int
  st_mtime :: int
  st_ctime :: int
  st_size :: int

text \<open>What libeio leaves in the request when it is done.\<close>

record eio_done =
  dn_result :: int
  dn_errorno :: int
  dn_buf :: bytes
  dn_stat :: eio_stat
  dn_offs :: int

record eio_world =
  ew_handles :: "addr \<Rightarrow> int option"
  ew_brk :: addr                                   \<comment> \<open>the next userdata\<close>
  ew_reqs :: "eio_req list"                        \<comment> \<open>under way, oldest first\<close>
  ew_log :: "(lthread \<times> lua_value list) list"      \<comment> \<open>resumptions, with their values\<close>

text \<open>The users and the error texts are the system's.\<close>

record os_env =
  os_uid :: u32
  os_gid :: u32
  os_getpwnam :: "bytes \<Rightarrow> (u32 \<times> u32) option"
  os_strerror :: "int \<Rightarrow> bytes"

definition submit :: "eio_op \<Rightarrow> eio_cb \<Rightarrow> lthread option \<Rightarrow> eio_world \<Rightarrow> eio_world" where
  "submit op cb d w = w\<lparr>ew_reqs := ew_reqs w @ [\<lparr>rq_op = op, rq_cb = cb, rq_data = d\<rparr>]\<rparr>"

definition resumed :: "lthread \<Rightarrow> lua_value list \<Rightarrow> eio_world \<Rightarrow> eio_world" where
  "resumed L vs w = w\<lparr>ew_log := ew_log w @ [(L, vs)]\<rparr>"

section \<open>Modes\<close>

text \<open>\<open>oct2decimal\<close>: the decimal digits of the argument read as octal ones.\<close>

fun oct_loop :: "int \<Rightarrow> string \<Rightarrow> int" where
  "oct_loop decval [] = decval"
| "oct_loop decval (c # cs) =
     (let octval = int (of_char c) - 48
      in if octval > 7 \<or> octval < 0 then - 1 else oct_loop (c_int (c_int (decval * 8) + octval)) cs)"

definition oct2decimal :: "int \<Rightarrow> int" where
  "oct2decimal octal = oct_loop 0 (d_string octal)"

definition atoi :: "string \<Rightarrow> int" where
  "atoi s = foldl (\<lambda>n c. n * 10 + (int (of_char c) - 48)) 0 s"

definition mode_number :: "nat \<Rightarrow> int" where
  "mode_number mode = atoi (base_string 8 (0xfff AND mode))"

definition file_type :: "nat \<Rightarrow> nat" where
  "file_type mode = mode AND 0xf000"

definition mode2string :: "nat \<Rightarrow> string" where
  "mode2string mode =
     (if file_type mode = 0x8000 then ''file''
      else if file_type mode = 0x4000 then ''directory''
      else if file_type mode = 0xa000 then ''link''
      else if file_type mode = 0xc000 then ''socket''
      else if file_type mode = 0x1000 then ''named pipe''
      else if file_type mode = 0x2000 then ''char device''
      else if file_type mode = 0x6000 then ''block device''
      else ''other'')"

section \<open>Callbacks\<close>

abbreviation failure :: "os_env \<Rightarrow> eio_done \<Rightarrow> lua_value list" where
  "failure os d \<equiv> [LNil, lint (dn_errorno d), LString (os_strerror os (dn_errorno d))]"

text \<open>A callback's values for the coroutine, and the state it leaves before resuming it.\<close>

definition eio_res_cb :: "os_env \<Rightarrow> eio_done \<Rightarrow> lua_value list" where
  "eio_res_cb os d = (if dn_result d < 0 then failure os d else [LBool True])"

primrec dir_names :: "nat \<Rightarrow> bytes \<Rightarrow> bytes list option" where
  "dir_names 0 buf = Some []"
| "dir_names (Suc n) buf =
     (if CHR 0x00 \<notin> set buf then None
      else map_option ((#) (c_str buf)) (dir_names n (drop (Suc (length (c_str buf))) buf)))"

definition lua_array :: "lua_value list \<Rightarrow> lua_value" where
  "lua_array vs = LTable (zip (map (\<lambda>i. lint (int i)) [1..<Suc (length vs)]) vs)"

definition eio_readdir_cb :: "os_env \<Rightarrow> eio_done \<Rightarrow> lua_value list option" where
  "eio_readdir_cb os d =
     (if dn_result d > - 1 then map_option (\<lambda>ns. [lua_array (map LString ns)]) (dir_names (nat (dn_result d)) (dn_buf d))
      else Some (failure os d))"

definition stat_table :: "eio_stat \<Rightarrow> lua_value" where
  "stat_table i = LTable
     [(lstr ''dev'', lint (st_dev i)), (lstr ''ino'', lint (st_ino i)), (lstr ''mode'', lint (mode_number (st_mode i))),
      (lstr ''type'', lstr (mode2string (st_mode i))), (lstr ''nlink'', lint (st_nlink i)), (lstr ''uid'', lint (st_uid i)),
      (lstr ''gid'', lint (st_gid i)), (lstr ''rdev'', lint (st_rdev i)), (lstr ''access'', lint (st_atime i)),
      (lstr ''modification'', lint (st_mtime i)), (lstr ''change'', lint (st_ctime i)), (lstr ''size'', lint (st_size i))]"

definition eio_stat_cb :: "os_env \<Rightarrow> eio_done \<Rightarrow> lua_value list" where
  "eio_stat_cb os d = (if dn_result d = 0 then [stat_table (dn_stat d)] else failure os d)"

definition eio_stat_isdir_cb :: "os_env \<Rightarrow> eio_done \<Rightarrow> lua_value list" where
  "eio_stat_isdir_cb os d =
     (if dn_result d = 0 then [LBool (file_type (st_mode (dn_stat d)) = 0x4000)] else failure os d)"

definition eio_stat_isfile_cb :: "os_env \<Rightarrow> eio_done \<Rightarrow> lua_value list" where
  "eio_stat_isfile_cb os d =
     (if dn_result d = 0 then [LBool (file_type (st_mode (dn_stat d)) = 0x8000)] else failure os d)"

definition eio_stat_exists_cb :: "os_env \<Rightarrow> eio_done \<Rightarrow> lua_value list" where
  "eio_stat_exists_cb os d =
     (if dn_result d = 0 then [lstr (if file_type (st_mode (dn_stat d)) = 0x4000 then ''dir'' else ''file'')]
      else failure os d)"

definition eio_read_cb :: "os_env \<Rightarrow> eio_done \<Rightarrow> lua_value list option" where
  "eio_read_cb os d =
     (let rc = c_int (dn_result d)
      in if rc \<ge> 0 then (if nat rc \<le> length (dn_buf d) then Some [LString (take (nat rc) (dn_buf d))] else None)
         else Some (failure os d))"

definition eio_seek_cb :: "os_env \<Rightarrow> eio_done \<Rightarrow> lua_value list" where
  "eio_seek_cb os d = (if dn_result d < 0 then failure os d else [lint (dn_offs d)])"

definition eio_open_cb :: "os_env \<Rightarrow> eio_done \<Rightarrow> eio_world \<Rightarrow> lua_value list \<times> eio_world" where
  "eio_open_cb os d w =
     (let fd = c_int (dn_result d)
      in if fd > - 1 then ([LUserdata (ew_brk w)], w\<lparr>ew_handles := (ew_handles w)(ew_brk w \<mapsto> fd), ew_brk := Suc (ew_brk w)\<rparr>)
         else (failure os d, w))"

definition run_cb :: "os_env \<Rightarrow> eio_cb \<Rightarrow> eio_done \<Rightarrow> eio_world \<Rightarrow> (lua_value list \<times> eio_world) option" where
  "run_cb os cb d w = (case cb of
       Res_cb \<Rightarrow> Some (eio_res_cb os d, w)
     | Readdir_cb \<Rightarrow> map_option (\<lambda>vs. (vs, w)) (eio_readdir_cb os d)
     | Stat_cb \<Rightarrow> Some (eio_stat_cb os d, w)
     | Isdir_cb \<Rightarrow> Some (eio_stat_isdir_cb os d, w)
     | Isfile_cb \<Rightarrow> Some (eio_stat_isfile_cb os d, w)
     | Exists_cb \<Rightarrow> Some (eio_stat_exists_cb os d, w)
     | Read_cb \<Rightarrow> map_option (\<lambda>vs. (vs, w)) (eio_read_cb os d)
     | Seek_cb \<Rightarrow> Some (eio_seek_cb os d, w)
     | Open_cb \<Rightarrow> Some (eio_open_cb os d w))"

text \<open>
  A request is done: its callback resumes the coroutine in \<open>req->data\<close>. Only a request of
  \<open>__gc\<close> has none; its callback does nothing then.
\<close>

definition eio_finish :: "os_env \<Rightarrow> nat \<Rightarrow> eio_done \<Rightarrow> eio_world \<Rightarrow> eio_world option" where
  "eio_finish os i d w =
     (if i < length (ew_reqs w) then
        let r = ew_reqs w ! i; w = w\<lparr>ew_reqs := take i (ew_reqs w) @ drop (Suc i) (ew_reqs w)\<rparr>
        in (case rq_data r of
              None \<Rightarrow> if rq_cb r = Res_cb then Some w else None
            | Some L \<Rightarrow> map_option (\<lambda>(vs, w). resumed L vs w) (run_cb os (rq_cb r) d w))
      else None)"

section \<open>Calls\<close>

abbreviation bad_params :: "lua_ret" where
  "bad_params \<equiv> Ret [LNil, lstr ''Error params!'']"

text \<open>A call with one path: check it, submit, yield.\<close>

definition path_call :: "lua_lib \<Rightarrow> lthread \<Rightarrow> lua_value list \<Rightarrow> (bytes \<Rightarrow> eio_op) \<Rightarrow> eio_cb \<Rightarrow> eio_world \<Rightarrow> (lua_ret \<times> eio_world) option" where
  "path_call lib L st op cb w =
     (if \<not> lua_isstring st 1 then Some (bad_params, w)
      else do { path \<leftarrow> lua_tostring lib st 1; Some (Yield, submit (op path) cb (Some L) w) })"

definition lua_f_eio_isdir :: "lua_lib \<Rightarrow> lthread \<Rightarrow> lua_value list \<Rightarrow> eio_world \<Rightarrow> (lua_ret \<times> eio_world) option" where
  "lua_f_eio_isdir lib L st w = path_call lib L st Op_stat Isdir_cb w"

definition lua_f_eio_isfile :: "lua_lib \<Rightarrow> lthread \<Rightarrow> lua_value list \<Rightarrow> eio_world \<Rightarrow> (lua_ret \<times> eio_world) option" where
  "lua_f_eio_isfile lib L st w = path_call lib L st Op_stat Isfile_cb w"

definition lua_f_eio_exists :: "lua_lib \<Rightarrow> lthread \<Rightarrow> lua_value list \<Rightarrow> eio_world \<Rightarrow> (lua_ret \<times> eio_world) option" where
  "lua_f_eio_exists lib L st w = path_call lib L st Op_stat Exists_cb w"

definition lua_f_eio_readdir :: "lua_lib \<Rightarrow> lthread \<Rightarrow> lua_value list \<Rightarrow> eio_world \<Rightarrow> (lua_ret \<times> eio_world) option" where
  "lua_f_eio_readdir lib L st w = path_call lib L st Op_readdir Readdir_cb w"

definition lua_f_eio_unlink :: "lua_lib \<Rightarrow> lthread \<Rightarrow> lua_value list \<Rightarrow> eio_world \<Rightarrow> (lua_ret \<times> eio_world) option" where
  "lua_f_eio_unlink lib L st w = path_call lib L st Op_unlink Res_cb w"

definition lua_f_eio_rmdir :: "lua_lib \<Rightarrow> lthread \<Rightarrow> lua_value list \<Rightarrow> eio_world \<Rightarrow> (lua_ret \<times> eio_world) option" where
  "lua_f_eio_rmdir lib L st w = path_call lib L st Op_rmdir Res_cb w"

definition lua_f_eio_stat :: "lua_lib \<Rightarrow> lthread \<Rightarrow> lua_value list \<Rightarrow> eio_world \<Rightarrow> (lua_ret \<times> eio_world) option" where
  "lua_f_eio_stat lib L st w = path_call lib L st Op_stat Stat_cb w"

definition lua_f_eio_rename :: "lua_lib \<Rightarrow> lthread \<Rightarrow> lua_value list \<Rightarrow> eio_world \<Rightarrow> (lua_ret \<times> eio_world) option" where
  "lua_f_eio_rename lib L st w =
     (if \<not> lua_isstring st 1 \<or> \<not> lua_isstring st 2 then Some (bad_params, w)
      else do { a \<leftarrow> lua_tostring lib st 1; b \<leftarrow> lua_tostring lib st 2; Some (Yield, submit (Op_rename a b) Res_cb (Some L) w) })"

text \<open>The optional mode of \<open>mkdir\<close>, \<open>chmod\<close> and \<open>open\<close>: an error message or the mode.\<close>

definition mode_arg :: "lua_lib \<Rightarrow> lua_value list \<Rightarrow> nat \<Rightarrow> int \<Rightarrow> int option" where
  "mode_arg lib st i dflt =
     (if lua_isnumber lib st i then
        let mode = oct2decimal (int_of_number (lua_tonumber lib st i)) in (if mode < 0 then None else Some mode)
      else Some dflt)"

definition lua_f_eio_mkdir :: "lua_lib \<Rightarrow> lthread \<Rightarrow> lua_value list \<Rightarrow> eio_world \<Rightarrow> (lua_ret \<times> eio_world) option" where
  "lua_f_eio_mkdir lib L st w =
     (if \<not> lua_isstring st 1 then Some (bad_params, w)
      else case mode_arg lib st 2 0x1c0 of
             None \<Rightarrow> Some (Ret [LNil, lstr ''Invalid mode for mkdir()''], w)
           | Some mode \<Rightarrow> path_call lib L st (\<lambda>path. Op_mkdir path mode) Res_cb w)"

definition lua_f_eio_chmod :: "lua_lib \<Rightarrow> lthread \<Rightarrow> lua_value list \<Rightarrow> eio_world \<Rightarrow> (lua_ret \<times> eio_world) option" where
  "lua_f_eio_chmod lib L st w =
     (if \<not> lua_isstring st 1 then Some (bad_params, w)
      else case mode_arg lib st 2 0x180 of
             None \<Rightarrow> Some (Ret [LNil, lstr ''Invalid mode for chmod()''], w)
           | Some mode \<Rightarrow> path_call lib L st (\<lambda>path. Op_chmod path mode) Res_cb w)"

abbreviation chown_usage :: "lua_ret" where
  "chown_usage \<equiv> Ret [LNil, lstr ''Error params! chown(string, string|int, [string|int])'']"

definition id_of_number :: "rat \<Rightarrow> u32" where
  "id_of_number r = word_of_int (trunc_rat r)"

text \<open>A numeric third argument selects the group, but the second one is read.\<close>

definition lua_f_eio_chown :: "lua_lib \<Rightarrow> os_env \<Rightarrow> lthread \<Rightarrow> lua_value list \<Rightarrow> eio_world \<Rightarrow> (lua_ret \<times> eio_world) option" where
  "lua_f_eio_chown lib os L st w =
     (if \<not> lua_isstring st 1 then Some (chown_usage, w)
      else if \<not> lua_isnumber lib st 2 \<and> \<not> lua_isstring st 2 then Some (chown_usage, w)
      else case (if lua_isnumber lib st 2 then Some (id_of_number (lua_tonumber lib st 2))
                 else map_option fst (Option.bind (lua_tostring lib st 2) (os_getpwnam os))) of
             None \<Rightarrow> Some (Ret [LNil, lstr ''User not found in passwd''], w)
           | Some owner \<Rightarrow>
               (case (if lua_isnumber lib st 3 then Some (id_of_number (lua_tonumber lib st 2))
                      else if lua_isstring st 3 then map_option snd (Option.bind (lua_tostring lib st 3) (os_getpwnam os))
                      else Some (os_gid os)) of
                  None \<Rightarrow> Some (Ret [LNil, lstr ''User not found in passwd''], w)
                | Some grp \<Rightarrow> path_call lib L st (\<lambda>path. Op_chown path owner grp) Res_cb w))"

text \<open>The descriptor in the userdata.\<close>

definition efd_of :: "lua_value list \<Rightarrow> eio_world \<Rightarrow> int option" where
  "efd_of st w = (case arg st 1 of Some (LUserdata a) \<Rightarrow> ew_handles w a | _ \<Rightarrow> None)"

definition lua_f_eio_gc :: "lua_value list \<Rightarrow> eio_world \<Rightarrow> (lua_ret \<times> eio_world) option" where
  "lua_f_eio_gc st w = do {
     efd \<leftarrow> efd_of st w;
     Some (Ret [], if efd > - 1 then submit (Op_close efd) Res_cb None w else w) }"

definition lua_f_eio_close :: "lthread \<Rightarrow> lua_value list \<Rightarrow> eio_world \<Rightarrow> (lua_ret \<times> eio_world) option" where
  "lua_f_eio_close L st w =
     (if \<not> lua_isuserdata st 1 then Some (bad_params, w)
      else do { efd \<leftarrow> efd_of st w;
                Some (Yield, if efd > - 1 then submit (Op_close efd) Res_cb (Some L) w else w) })"

text \<open>A call on a handle: a userdata, with a descriptor that is not negative.\<close>

definition handle_call :: "lua_value list \<Rightarrow> (int \<Rightarrow> (lua_ret \<times> eio_world) option) \<Rightarrow> eio_world \<Rightarrow> (lua_ret \<times> eio_world) option" where
  "handle_call st k w =
     (if \<not> lua_isuserdata st 1 then Some (bad_params, w)
      else do { efd \<leftarrow> efd_of st w;
                if efd < 0 then Some (Ret [LNil, lstr ''File handle closed!''], w) else k efd })"

definition lua_f_eio_read :: "lua_lib \<Rightarrow> lthread \<Rightarrow> lua_value list \<Rightarrow> eio_world \<Rightarrow> (lua_ret \<times> eio_world) option" where
  "lua_f_eio_read lib L st w = handle_call st (\<lambda>efd.
     let len = (if lua_isnumber lib st 2 then int_of_number (lua_tonumber lib st 2) else 0);
         offset = (if lua_isnumber lib st 3 then int_of_number (lua_tonumber lib st 3) else - 1)
     in if len < 1 then Some (Ret [LNil, lstr ''Error params! read(length, [offset])''], w)
        else Some (Yield, submit (Op_read efd len offset) Read_cb (Some L) w)) w"

text \<open>\<open>lua_tolstring\<close> sets the length to 0 when the argument is no string.\<close>

definition lua_f_eio_write :: "lua_lib \<Rightarrow> lthread \<Rightarrow> lua_value list \<Rightarrow> eio_world \<Rightarrow> (lua_ret \<times> eio_world) option" where
  "lua_f_eio_write lib L st w = handle_call st (\<lambda>efd.
     let data = (case lua_tolstring lib st 2 of Some s \<Rightarrow> s | None \<Rightarrow> []);
         offset = (if lua_isnumber lib st 3 then size_of_number (lua_tonumber lib st 3) else - 1)
     in if data = [] then Some (Ret [LNil, lstr ''Error params! read(length, [offset])''], w)
        else Some (Yield, submit (Op_write efd data offset) Res_cb (Some L) w)) w"

definition lua_f_eio_seek :: "lua_lib \<Rightarrow> lthread \<Rightarrow> lua_value list \<Rightarrow> eio_world \<Rightarrow> (lua_ret \<times> eio_world) option" where
  "lua_f_eio_seek lib L st w =
     (if \<not> lua_isnumber lib st 2 \<or> \<not> lua_isstring st 3 then Some (bad_params, w)
      else handle_call st (\<lambda>efd. do {
        wh \<leftarrow> lua_tostring lib st 3;
        let whence = (if wh = ''set'' then SEEK_SET else if wh = ''end'' then SEEK_END else SEEK_CUR);
        Some (Yield, submit (Op_seek efd (size_of_number (lua_tonumber lib st 2)) whence) Seek_cb (Some L) w) }) w)"

definition lua_f_eio_sync :: "lthread \<Rightarrow> lua_value list \<Rightarrow> eio_world \<Rightarrow> (lua_ret \<times> eio_world) option" where
  "lua_f_eio_sync L st w = handle_call st (\<lambda>efd. Some (Yield, submit (Op_fsync efd) Res_cb (Some L) w)) w"

definition lua_f_eio_open :: "lua_lib \<Rightarrow> lthread \<Rightarrow> lua_value list \<Rightarrow> eio_world \<Rightarrow> (lua_ret \<times> eio_world) option" where
  "lua_f_eio_open lib L st w =
     (if \<not> lua_isstring st 1 then Some (bad_params, w)
      else let m = (if lua_isstring st 2 then lua_tostring lib st 2 else None);
               om = (case m of
                       Some (c # _) \<Rightarrow> if c = CHR ''w'' then RDWR_CREAT else if c = CHR ''a'' then APPEND_RDWR_CREAT else RDONLY
                     | _ \<Rightarrow> RDONLY)
           in case mode_arg lib st 3 0x1a4 of
                None \<Rightarrow> Some (Ret [LNil, lstr ''Invalid mode for open()''], w)
              | Some mode \<Rightarrow> path_call lib L st (\<lambda>path. Op_open path om mode) Open_cb w)"

section \<open>The module as a state machine\<close>

text \<open>
  A coroutine that is not suspended calls a function of the module or a method of a handle; the
  collector finalises a handle; libeio finishes a request. The set holds the coroutines that
  yielded in the module and were not resumed yet: a call that yields adds its coroutine, and the resumptions that a
  step logs remove theirs.
\<close>

definition resumed_in :: "eio_world \<Rightarrow> eio_world \<Rightarrow> lthread set" where
  "resumed_in w w' = fst ` set (drop (length (ew_log w)) (ew_log w'))"

datatype eio_fun =
    F_mkdir | F_stat | F_chown | F_chmod | F_unlink | F_rmdir | F_rename | F_readdir | F_isdir | F_isfile
  | F_exists | F_open | F_write | F_read | F_seek | F_sync | F_close

definition eio_call :: "lua_lib \<Rightarrow> os_env \<Rightarrow> eio_fun \<Rightarrow> lthread \<Rightarrow> lua_value list \<Rightarrow> eio_world \<Rightarrow> (lua_ret \<times> eio_world) option" where
  "eio_call lib os f L st w = (case f of
       F_mkdir \<Rightarrow> lua_f_eio_mkdir lib L st w | F_stat \<Rightarrow> lua_f_eio_stat lib L st w
     | F_chown \<Rightarrow> lua_f_eio_chown lib os L st w | F_chmod \<Rightarrow> lua_f_eio_chmod lib L st w
     | F_unlink \<Rightarrow> lua_f_eio_unlink lib L st w | F_rmdir \<Rightarrow> lua_f_eio_rmdir lib L st w
     | F_rename \<Rightarrow> lua_f_eio_rename lib L st w | F_readdir \<Rightarrow> lua_f_eio_readdir lib L st w
     | F_isdir \<Rightarrow> lua_f_eio_isdir lib L st w | F_isfile \<Rightarrow> lua_f_eio_isfile lib L st w
     | F_exists \<Rightarrow> lua_f_eio_exists lib L st w | F_open \<Rightarrow> lua_f_eio_open lib L st w
     | F_write \<Rightarrow> lua_f_eio_write lib L st w | F_read \<Rightarrow> lua_f_eio_read lib L st w
     | F_seek \<Rightarrow> lua_f_eio_seek lib L st w | F_sync \<Rightarrow> lua_f_eio_sync L st w
     | F_close \<Rightarrow> lua_f_eio_close L st w)"

inductive eio_step :: "lua_lib \<Rightarrow> os_env \<Rightarrow> eio_world \<times> lthread set \<Rightarrow> eio_world \<times> lthread set \<Rightarrow> bool"
  for lib os where
  called: "L \<notin> susp \<Longrightarrow> eio_call lib os f L st w = Some (r, w')
    \<Longrightarrow> eio_step lib os (w, susp) (w', (if r = Yield then insert L susp else susp) - resumed_in w w')"
| collected: "lua_f_eio_gc st w = Some (r, w') \<Longrightarrow> eio_step lib os (w, susp) (w', susp - resumed_in w w')"
| finished: "eio_finish os i d w = Some w' \<Longrightarrow> eio_step lib os (w, susp) (w', susp - resumed_in w w')"

definition eio_start :: "eio_world \<times> lthread set" where
  "eio_start = (\<lparr>ew_handles = Map.empty, ew_brk = 0, ew_reqs = [], ew_log = []\<rparr>, {})"

inductive eio_reachable :: "lua_lib \<Rightarrow> os_env \<Rightarrow> eio_world \<times> lthread set \<Rightarrow> bool" for lib os where
  start: "eio_reachable lib os eio_start"
| step: "eio_reachable lib os s \<Longrightarrow> eio_step lib os s s' \<Longrightarrow> eio_reachable lib os s'"

inductive_cases eio_stepE: "eio_step lib os s s'"

text \<open>The coroutines with a request under way, and the invariant.\<close>

definition waiters :: "eio_world \<Rightarrow> lthread list" where
  "waiters w = concat (map (\<lambda>r. case rq_data r of None \<Rightarrow> [] | Some L \<Rightarrow> [L]) (ew_reqs w))"

fun eio_inv :: "eio_world \<times> lthread set \<Rightarrow> bool" where
  "eio_inv (w, susp) = (distinct (waiters w) \<and> set (waiters w) = susp
     \<and> (\<forall>fd \<in> ran (ew_handles w). 0 \<le> fd))"

text \<open>What a call does: it fails and changes nothing, or submits one request of its coroutine and yields.\<close>

definition plain_call :: "lthread \<Rightarrow> eio_world \<Rightarrow> (lua_ret \<times> eio_world) option \<Rightarrow> bool" where
  "plain_call L w res = (res = None \<or> (\<exists>vs. res = Some (Ret vs, w)) \<or> (\<exists>op cb. res = Some (Yield, submit op cb (Some L) w)))"

lemma plain_callI:
  "plain_call L w None" "plain_call L w (Some (Ret vs, w))" "plain_call L w (Some (Yield, submit op cb (Some L) w))"
  by (auto simp: plain_call_def)

lemma plain_bind: "(\<And>x. plain_call L w (k x)) \<Longrightarrow> plain_call L w (Option.bind m k)"
  by (cases m) (simp_all add: plain_callI)

lemma plain_path: "plain_call L w (path_call lib L st op cb w)"
  by (simp add: path_call_def plain_callI plain_bind)

lemma plain_handle: "(\<And>efd. plain_call L w (k efd)) \<Longrightarrow> plain_call L w (handle_call st k w)"
  by (simp add: handle_call_def plain_callI plain_bind)

lemmas plain_intros = plain_callI plain_path plain_handle plain_bind

lemmas eio_call_defs =
  lua_f_eio_mkdir_def lua_f_eio_stat_def lua_f_eio_chown_def lua_f_eio_chmod_def lua_f_eio_unlink_def lua_f_eio_rmdir_def
  lua_f_eio_rename_def lua_f_eio_readdir_def lua_f_eio_isdir_def lua_f_eio_isfile_def lua_f_eio_exists_def
  lua_f_eio_open_def lua_f_eio_write_def lua_f_eio_read_def lua_f_eio_seek_def lua_f_eio_sync_def

lemma plain_calls:
  assumes "f \<noteq> F_close"
  shows "plain_call L w (eio_call lib os f L st w)"
  using assms unfolding eio_call_def
  by (cases f; simp add: eio_call_defs Let_def plain_intros split: option.split)

section \<open>Every suspended coroutine has one request under way\<close>

lemma waiters_submit [simp]:
  "waiters (submit op cb d w) = waiters w @ (case d of None \<Rightarrow> [] | Some L \<Rightarrow> [L])"
  "ew_handles (submit op cb d w) = ew_handles w"
  by (simp_all add: waiters_def submit_def)

lemma resumed_in_submit [simp]: "resumed_in w (submit op cb d w) = {}" "resumed_in w w = {}"
  by (simp_all add: resumed_in_def submit_def)

lemma close_submits:
  assumes "lua_f_eio_close L st w = Some (r, w')" "\<forall>fd \<in> ran (ew_handles w). 0 \<le> fd"
  shows "(\<exists>vs. r = Ret vs \<and> w' = w) \<or> (\<exists>fd. r = Yield \<and> w' = submit (Op_close fd) Res_cb (Some L) w)"
proof -
  have "0 \<le> fd" if "efd_of st w = Some fd" for fd
    using that assms(2) by (auto simp: efd_of_def ran_def split: option.splits lua_value.splits)
  then show ?thesis
    using assms(1) by (auto simp: lua_f_eio_close_def split: if_splits bind_splits)
qed

lemma call_submits:
  assumes "eio_call lib os f L st w = Some (r, w')" "\<forall>fd \<in> ran (ew_handles w). 0 \<le> fd"
  shows "(r \<noteq> Yield \<and> w' = w) \<or> (\<exists>op cb. r = Yield \<and> w' = submit op cb (Some L) w)"
proof (cases "f = F_close")
  case True
  then show ?thesis using close_submits [of L st w r w'] assms by (auto simp: eio_call_def)
next
  case False
  from plain_calls [OF this, of L w lib os st] assms(1) show ?thesis by (auto simp: plain_call_def)
qed

lemma waiters_remove:
  assumes "i < length (ew_reqs w)"
  shows "\<exists>xs ys. waiters w = xs @ (case rq_data (ew_reqs w ! i) of None \<Rightarrow> [] | Some L \<Rightarrow> [L]) @ ys
    \<and> waiters (w\<lparr>ew_reqs := take i (ew_reqs w) @ drop (Suc i) (ew_reqs w)\<rparr>) = xs @ ys"
proof -
  have w: "ew_reqs w = take i (ew_reqs w) @ ew_reqs w ! i # drop (Suc i) (ew_reqs w)"
    using assms by (rule id_take_nth_drop)
  show ?thesis unfolding waiters_def by (subst w) auto
qed

lemma run_cb_frame:
  assumes "run_cb os cb d w = Some (vs, w')" "\<forall>fd \<in> ran (ew_handles w). 0 \<le> fd"
  shows "ew_reqs w' = ew_reqs w \<and> (\<forall>fd \<in> ran (ew_handles w'). 0 \<le> fd)"
  using assms
  by (fastforce simp: run_cb_def eio_open_cb_def Let_def ran_def split: eio_cb.splits if_splits)

lemma run_cb_log: "run_cb os cb d w = Some (vs, w') \<Longrightarrow> ew_log w' = ew_log w"
  by (auto simp: run_cb_def eio_open_cb_def Let_def split: eio_cb.splits if_splits)

lemma finish_resumes:
  assumes "eio_finish os i d w = Some w'"
  shows "map fst (drop (length (ew_log w)) (ew_log w')) = (case rq_data (ew_reqs w ! i) of None \<Rightarrow> [] | Some L \<Rightarrow> [L])"
proof -
  define w1 where "w1 = w\<lparr>ew_reqs := take i (ew_reqs w) @ drop (Suc i) (ew_reqs w)\<rparr>"
  have log: "ew_log w1 = ew_log w" by (simp add: w1_def)
  show ?thesis using assms log run_cb_log [of os _ d w1]
    by (auto simp: eio_finish_def w1_def [symmetric] Let_def resumed_def split: option.splits if_splits)
qed

lemma finish_inv:
  assumes "eio_inv (w, susp)" "eio_finish os i d w = Some w'"
  shows "eio_inv (w', susp - resumed_in w w')"
proof -
  define w1 where "w1 = w\<lparr>ew_reqs := take i (ew_reqs w) @ drop (Suc i) (ew_reqs w)\<rparr>"
  have i: "i < length (ew_reqs w)" using assms(2) by (simp add: eio_finish_def split: if_splits)
  from waiters_remove [OF i] obtain xs ys where
    ws: "waiters w = xs @ (case rq_data (ew_reqs w ! i) of None \<Rightarrow> [] | Some L \<Rightarrow> [L]) @ ys" and w1: "waiters w1 = xs @ ys"
    unfolding w1_def by blast
  have h: "\<forall>fd \<in> ran (ew_handles w1). 0 \<le> fd" using assms(1) by (simp add: w1_def)
  have "waiters w' = waiters w1 \<and> (\<forall>fd \<in> ran (ew_handles w'). 0 \<le> fd)"
    using assms(2) i h run_cb_frame [of os _ d w1]
    by (auto simp: eio_finish_def w1_def [symmetric] Let_def resumed_def waiters_def split: option.splits if_splits)
  moreover have "resumed_in w w' = set_option (rq_data (ew_reqs w ! i))"
    using arg_cong [OF finish_resumes [OF assms(2)], of set] by (cases "rq_data (ew_reqs w ! i)") (simp_all add: resumed_in_def)
  ultimately show ?thesis using assms(1) ws w1 by (cases "rq_data (ew_reqs w ! i)") auto
qed

lemma step_inv: "eio_step lib os s s' \<Longrightarrow> eio_inv s \<Longrightarrow> eio_inv s'"
proof (induction rule: eio_step.induct)
  case (called L susp f st w r w')
  from call_submits [OF called(2)] called show ?case by auto
next
  case (collected st w r w' susp)
  then show ?case by (auto simp: lua_f_eio_gc_def split: bind_splits if_splits)
next
  case (finished i d w w' susp)
  then show ?case by (rule finish_inv [rotated])
qed

text \<open>
  (C33) In every state the module can reach, the coroutines that are suspended in it are exactly
  those with a request under way, each with one request: a call that yields has submitted one, and the callback of a request that is
  done resumes its coroutine and no other, so no coroutine is lost and none that runs is resumed; and every file handle holds a descriptor that
  is not negative, so the test for a closed handle never succeeds.
\<close>

theorem eio_one_request_each:
  assumes "eio_reachable lib os (w, susp)"
  shows "distinct (waiters w) \<and> set (waiters w) = susp \<and> (\<forall>a fd. ew_handles w a = Some fd \<longrightarrow> 0 \<le> fd)
     \<and> (\<forall>i d w'. eio_finish os i d w = Some w' \<longrightarrow>
          map fst (drop (length (ew_log w)) (ew_log w')) = (case rq_data (ew_reqs w ! i) of None \<Rightarrow> [] | Some L \<Rightarrow> [L]))"
proof -
  have "eio_inv s" if "eio_reachable lib os s" for s
    using that
  proof (induction rule: eio_reachable.induct)
    case start
    then show ?case by (simp add: eio_start_def waiters_def)
  next
    case (step s s')
    then show ?case using step_inv by blast
  qed
  from this [OF assms] show ?thesis using finish_resumes by (auto simp: ran_def simp del: map_eq_conv)
qed

text \<open>Coroutine 1 opens a file and gets descriptor 5; coroutine 2 asks for a directory.\<close>

definition demo_os :: os_env where
  "demo_os = \<lparr>os_uid = 0, os_gid = 0, os_getpwnam = (\<lambda>_. None), os_strerror = (\<lambda>_. ''error'')\<rparr>"

definition demo_conv :: lua_lib where
  "demo_conv = \<lparr>str2number = (\<lambda>_. None), number2str = (\<lambda>_. ''0'')\<rparr>"

definition demo_done :: eio_done where
  "demo_done = \<lparr>dn_result = 5, dn_errorno = 0, dn_buf = [],
     dn_stat = \<lparr>st_dev = 0, st_ino = 0, st_mode = 0, st_nlink = 0, st_uid = 0, st_gid = 0, st_rdev = 0, st_atime = 0,
       st_mtime = 0, st_ctime = 0, st_size = 0\<rparr>, dn_offs = 0\<rparr>"

abbreviation demo_opened :: eio_world where
  "demo_opened \<equiv> \<lparr>ew_handles = [0 \<mapsto> 5], ew_brk = 1, ew_reqs = [], ew_log = [(1, [LUserdata 0])]\<rparr>"

lemma demo_reachable:
  "eio_reachable demo_conv demo_os (demo_opened, {})"
  "eio_reachable demo_conv demo_os (submit (Op_readdir ''d'') Readdir_cb (Some 2) demo_opened, {2})"
proof -
  have "eio_step demo_conv demo_os eio_start (submit (Op_open ''f'' RDONLY 0x1a4) Open_cb (Some 1) (fst eio_start), {1})"
    using called [of 1 "{}" demo_conv demo_os F_open "[LString ''f'']" "fst eio_start" Yield]
    by (simp add: resumed_in_def submit_def eio_start_def eio_call_def lua_f_eio_open_def lua_api_defs mode_arg_def path_call_def lua_tostring_def c_str_def)
  from step [OF start this]
  have 1: "eio_reachable demo_conv demo_os (submit (Op_open ''f'' RDONLY 0x1a4) Open_cb (Some 1) (fst eio_start), {1})" .
  have "eio_finish demo_os 0 demo_done (submit (Op_open ''f'' RDONLY 0x1a4) Open_cb (Some 1) (fst eio_start)) = Some demo_opened"
    by (simp add: eio_finish_def submit_def eio_start_def run_cb_def eio_open_cb_def resumed_def demo_done_def c_int_def
        signed_take_bit_int_eq_self)
  from step [OF 1 finished [OF this, of demo_conv "{1}"]]
  show 2: "eio_reachable demo_conv demo_os (demo_opened, {})" by (simp add: resumed_in_def submit_def eio_start_def)
  have "eio_step demo_conv demo_os (demo_opened, {}) (submit (Op_readdir ''d'') Readdir_cb (Some 2) demo_opened, {2})"
    using called [of 2 "{}" demo_conv demo_os F_readdir "[LString ''d'']" demo_opened Yield]
    by (simp add: resumed_in_def submit_def eio_call_def lua_f_eio_readdir_def lua_api_defs path_call_def lua_tostring_def c_str_def)
  from step [OF 2 this]
  show "eio_reachable demo_conv demo_os (submit (Op_readdir ''d'') Readdir_cb (Some 2) demo_opened, {2})" .
qed

theorem eio_one_request_each_witness:
  "set (waiters (submit (Op_readdir ''d'') Readdir_cb (Some 2) demo_opened)) = {2}"
  using eio_one_request_each [OF demo_reachable(2)] by simp

text \<open>
  Closing a handle does not mark it: after \<open>close\<close> its descriptor is still accepted by the
  other methods, and when the handle is collected the same descriptor is closed a second time,
  although the system may have given it to another file by then.
\<close>

theorem eio_closed_twice:
  assumes "ew_handles w a = Some fd" "0 \<le> fd" "lua_f_eio_close L [LUserdata a] w = Some (r, w1)"
    and "eio_finish os (length (ew_reqs w)) d w1 = Some w2"
  shows "\<exists>w3. lua_f_eio_gc [LUserdata a] w2 = Some (Ret [], w3)
    \<and> map rq_op (ew_reqs w1) = map rq_op (ew_reqs w) @ [Op_close fd]
    \<and> map rq_op (ew_reqs w3) = map rq_op (ew_reqs w) @ [Op_close fd]"
proof -
  have w1: "w1 = submit (Op_close fd) Res_cb (Some L) w"
    using assms(1-3) by (auto simp: lua_f_eio_close_def efd_of_def lua_api_defs)
  have "w2 = resumed L (eio_res_cb os d) w"
    using assms(4) by (auto simp: eio_finish_def w1 submit_def run_cb_def)
  then have "lua_f_eio_gc [LUserdata a] w2 = Some (Ret [], submit (Op_close fd) Res_cb None (resumed L (eio_res_cb os d) w))"
    using assms(1,2) by (simp add: lua_f_eio_gc_def efd_of_def lua_api_defs resumed_def)
  then show ?thesis by (simp add: w1 submit_def resumed_def)
qed

theorem eio_closed_twice_witness:
  "\<exists>w3. lua_f_eio_gc [LUserdata 0] (demo_opened\<lparr>ew_log := [(1, [LUserdata 0]), (1, [LBool True])]\<rparr>) = Some (Ret [], w3)
    \<and> map rq_op (ew_reqs w3) = [Op_close 5]"
proof -
  let ?w2 = "demo_opened\<lparr>ew_log := [(1, [LUserdata 0]), (1, [LBool True])]\<rparr>"
  have c: "lua_f_eio_close 1 [LUserdata 0] demo_opened = Some (Yield, submit (Op_close 5) Res_cb (Some 1) demo_opened)"
    by (simp add: lua_f_eio_close_def efd_of_def lua_api_defs)
  have "eio_finish demo_os (length (ew_reqs demo_opened)) demo_done (submit (Op_close 5) Res_cb (Some 1) demo_opened) = Some ?w2"
    by (simp add: eio_finish_def submit_def run_cb_def eio_res_cb_def demo_done_def resumed_def)
  from eio_closed_twice [OF _ _ c this, of 5] show ?thesis by auto
qed

section \<open>Modes survive the way through Lua\<close>

text \<open>The number whose decimal digits are the octal digits of \<open>n\<close>.\<close>

function oct_as_dec :: "nat \<Rightarrow> nat" where
  "oct_as_dec n = (if n < 8 then n else 10 * oct_as_dec (n div 8) + n mod 8)"
  by auto
termination by (relation "measure id") auto

declare oct_as_dec.simps [simp del]

lemma digit_value: "k < 10 \<Longrightarrow> int (of_char (char_of (k + 48) :: char)) - 48 = int k"
  by simp

lemma atoi_snoc: "atoi (s @ [c]) = atoi s * 10 + (int (of_char c) - 48)"
  by (simp add: atoi_def)

lemma atoi_octal: "atoi (base_string 8 n) = int (oct_as_dec n)"
proof (induction n rule: less_induct)
  case (less n)
  show ?case
  proof (cases "n < 8")
    case True
    then show ?thesis by (simp add: base_string.simps [of 8 n] oct_as_dec.simps [of n] atoi_def)
  next
    case False
    have "n mod 8 < 10" using mod_less_divisor [of 8 n] by linarith
    then show ?thesis
      using False less [of "n div 8"] digit_value [of "n mod 8"]
      by (simp add: base_string.simps [of 8 n] oct_as_dec.simps [of n] atoi_snoc)
  qed
qed

lemma oct_as_dec_small: "oct_as_dec n < 10 \<longleftrightarrow> n < 8"
proof -
  have "0 < oct_as_dec m" if "0 < m" for m
    using that by (induction m rule: less_induct) (subst oct_as_dec.simps, auto)
  from this [of "n div 8"] show ?thesis by (subst oct_as_dec.simps) (auto simp: div_greater_zero_iff)
qed

lemma decimal_digits_octal: "base_string 10 (oct_as_dec n) = base_string 8 n"
proof (induction n rule: less_induct)
  case (less n)
  show ?case
  proof (cases "n < 8")
    case True
    then show ?thesis by (simp add: base_string.simps [of 8 n] oct_as_dec.simps [of n] base_string.simps [of 10 n])
  next
    case False
    have m: "n mod 8 < 10" using mod_less_divisor [of 8 n] by linarith
    have "oct_as_dec n = 10 * oct_as_dec (n div 8) + n mod 8" using False by (simp add: oct_as_dec.simps [of n])
    then have "oct_as_dec n div 10 = oct_as_dec (n div 8)" "oct_as_dec n mod 10 = n mod 8" using m by simp_all
    then show ?thesis
      using False less [of "n div 8"] oct_as_dec_small [of n]
      by (simp add: base_string.simps [of 8 n] base_string.simps [of 10 "oct_as_dec n"])
  qed
qed

definition oct_digit :: "char \<Rightarrow> bool" where
  "oct_digit c = (0 \<le> int (of_char c) - 48 \<and> int (of_char c) - 48 \<le> 7)"

lemma oct_loop_append: "list_all oct_digit s \<Longrightarrow> oct_loop acc (s @ t) = oct_loop (oct_loop acc s) t"
  by (induction s arbitrary: acc) (auto simp: oct_digit_def Let_def)

lemma octal_digits: "list_all oct_digit (base_string 8 n)"
proof (induction n rule: less_induct)
  case (less n)
  have "n mod 8 \<le> 7" using mod_less_divisor [of 8 n] by linarith
  then have "n < 8 \<Longrightarrow> oct_digit (char_of (n + 48))" "oct_digit (char_of (n mod 8 + 48))"
    by (simp_all add: oct_digit_def)
  then show ?case
    using less [of "n div 8"] by (subst base_string.simps) (auto simp del: of_char_of)
qed

lemma oct_loop_octal: "n < 2 ^ 28 \<Longrightarrow> oct_loop 0 (base_string 8 n) = int n"
proof (induction n rule: less_induct)
  case (less n)
  show ?case
  proof (cases "n < 8")
    case True
    then show ?thesis by (simp add: base_string.simps [of 8 n] c_int_def signed_take_bit_int_eq_self)
  next
    case False
    have m: "n mod 8 \<le> 7" "int (n div 8) * 8 + int (n mod 8) = int n"
      using mod_less_divisor [of 8 n] div_mult_mod_eq [of n 8] by linarith+
    have "c_int (c_int (int (n div 8) * 8) + int (n mod 8)) = int n"
      using less.prems m by (simp add: c_int_def signed_take_bit_int_eq_self)
    then show ?thesis
      using False less.IH [of "n div 8"] less.prems m(1)
      by (simp add: base_string.simps [of 8 n] oct_loop_append octal_digits)
  qed
qed

lemma oct_as_dec_bound: "n < 8 ^ k \<Longrightarrow> oct_as_dec n < 10 ^ k"
proof (induction k arbitrary: n)
  case (Suc k)
  show ?case
  proof (cases "n < 8")
    case True
    then have "oct_as_dec n < 10" by (simp add: oct_as_dec_small)
    moreover have "(10 :: nat) \<le> 10 ^ Suc k" by simp
    ultimately show ?thesis by linarith
  next
    case False
    have "n div 8 < 8 ^ k" using Suc.prems by (simp add: less_mult_imp_div_less mult.commute)
    from Suc.IH [OF this] have "oct_as_dec (n div 8) + 1 \<le> 10 ^ k" by simp
    moreover have "n mod 8 < 10" using mod_less_divisor [of 8 n] by linarith
    ultimately show ?thesis using False by (simp add: oct_as_dec.simps [of n])
  qed
qed (simp add: oct_as_dec.simps)

lemma mode_number_back: "oct2decimal (int_of_number (of_int (mode_number m))) = int (0xfff AND m)"
proof -
  define n where "n = 0xfff AND m"
  have "n = take_bit 12 m" by (simp add: n_def take_bit_eq_mask mask_eq_exp_minus_1 and.commute)
  then have n: "n < 8 ^ 4" using take_bit_nat_less_exp [of 12 m] by simp
  have "oct_as_dec n < 10 ^ 4" using n by (rule oct_as_dec_bound)
  then have "int_of_number (of_int (int (oct_as_dec n))) = int (oct_as_dec n)"
    by (simp only: int_of_number_def trunc_rat_of_int) simp
  moreover have "oct_loop 0 (base_string 8 n) = int n" using n by (intro oct_loop_octal) simp
  ultimately show ?thesis
    by (simp add: mode_number_def n_def [symmetric] atoi_octal oct2decimal_def d_string_def decimal_digits_octal)
qed

text \<open>
  The mode \<open>stat\<close> reports can be handed back: \<open>chmod\<close> or \<open>mkdir\<close> with that number asks for
  exactly the twelve permission bits of the file (the number shows the octal digits in decimal, and
  \<open>oct2decimal\<close> undoes that).
\<close>

theorem eio_mode_roundtrip:
  "\<exists>kvs v. eio_stat_cb os (d\<lparr>dn_result := 0\<rparr>) = [LTable kvs] \<and> map_of kvs (lstr ''mode'') = Some v
    \<and> lua_f_eio_chmod lib L [LString path, v] w
        = Some (Yield, submit (Op_chmod (c_str path) (int (0xfff AND st_mode (dn_stat d)))) Res_cb (Some L) w)
    \<and> lua_f_eio_mkdir lib L [LString path, v] w
        = Some (Yield, submit (Op_mkdir (c_str path) (int (0xfff AND st_mode (dn_stat d)))) Res_cb (Some L) w)"
proof -
  let ?v = "lint (mode_number (st_mode (dn_stat d)))"
  have m: "mode_arg lib [LString path, ?v] 2 dflt = Some (int (0xfff AND st_mode (dn_stat d)))" for dflt
    by (simp add: mode_arg_def lua_api_defs mode_number_back)
  have "lua_f_eio_chmod lib L [LString path, ?v] w
      = Some (Yield, submit (Op_chmod (c_str path) (int (0xfff AND st_mode (dn_stat d)))) Res_cb (Some L) w)"
    "lua_f_eio_mkdir lib L [LString path, ?v] w
      = Some (Yield, submit (Op_mkdir (c_str path) (int (0xfff AND st_mode (dn_stat d)))) Res_cb (Some L) w)"
    unfolding lua_f_eio_chmod_def lua_f_eio_mkdir_def m
    by (simp_all add: path_call_def lua_api_defs lua_tostring_def)
  then show ?thesis by (simp add: eio_stat_cb_def stat_table_def)
qed

end
