(* ===== verification/Monip.thy ===== *)
theory Monip
  imports Lua_Api
begin

text \<open>
  The \<open>monip\<close> module (\<open>lua-monip.c\<close>): looking up the location of an IPv4 address in a
  \<open>17monipdb.dat\<close> file held in memory. The model is that of a little-endian machine with
  \<open>AUTORELOAD\<close>. Reading a file and \<open>inet_addr\<close> are the system's and are arguments; an access
  outside the loaded file or a buffer is \<open>None\<close>.
\<close>

section \<open>Words in memory\<close>

definition le32_at :: "bytes \<Rightarrow> nat \<Rightarrow> u32 option" where
  "le32_at s i =
     (if i + 4 \<le> length s
      then Some (of_char (s ! i) OR push_bit 8 (of_char (s ! (i + 1))) OR push_bit 16 (of_char (s ! (i + 2)))
                 OR push_bit 24 (of_char (s ! (i + 3))))
      else None)"

definition lb_reverse :: "u32 \<Rightarrow> u32" where
  "lb_reverse a = push_bit 24 (a AND 0xff) OR push_bit 16 (drop_bit 8 a AND 0xff) OR push_bit 8 (drop_bit 16 a AND 0xff)
     OR (drop_bit 24 a AND 0xff)"

definition le_bytes :: "u32 \<Rightarrow> bytes" where
  "le_bytes w = map (\<lambda>i. char_of (unat (drop_bit (8 * i) w))) [0, 1, 2, 3]"

section \<open>Splitting\<close>

text \<open>
  \<open>lb_strsplit\<close> with a delimiter of one byte. Pointers into the string are offsets; \<open>last\<close> is
  \<open>None\<close> for \<open>NULL\<close> and \<open>Some 0\<close>, the string itself, marks that the last piece was handed out.
  The result is the piece (offset and length) or \<open>NULL\<close>, and the new \<open>last\<close>.
\<close>

definition lb_strsplit :: "bytes \<Rightarrow> char \<Rightarrow> nat option \<Rightarrow> (nat \<times> nat) option \<times> nat option" where
  "lb_strsplit s d lst =
     (if length s < 1 then (None, lst)
      else if lst = Some 0 then (None, None)
      else let str = (case lst of Some l \<Rightarrow> l | None \<Rightarrow> 0);
               p = str + length (takeWhile (\<lambda>c. c \<noteq> d) (drop str s))
           in if p = length s then (Some (str, length s - str), Some 0)
              else (Some (str, p - str), Some (p + 1)))"

section \<open>The database\<close>

record monip =
  mn_data :: "bytes option"
  mn_offset :: u32
  mn_len :: u32
  mn_file :: bytes
  mn_check :: u32
  mn_mtime :: u32

text \<open>
  \<open>monipdata_init\<close>: \<open>load file\<close> is the content of the file, \<open>None\<close> if opening, allocating or
  reading fails. The name is kept in a buffer of 1024 bytes.
\<close>

definition monipdata_init :: "(bytes \<Rightarrow> bytes option) \<Rightarrow> bytes \<Rightarrow> monip \<Rightarrow> (bool \<times> monip) option" where
  "monipdata_init load file m =
     (if length file \<ge> 1024 then None
      else let m = m\<lparr>mn_file := file\<rparr>
           in case load file of
                None \<Rightarrow> Some (False, m)
              | Some p \<Rightarrow> do {
                  off \<leftarrow> le32_at p 0;
                  Some (True, m\<lparr>mn_offset := lb_reverse off, mn_len := word_of_nat (length p), mn_data := Some p\<rparr>) })"

definition unknown :: bytes where
  "unknown = (let u = map char_of [0xE6, 0x9C, 0xAA, 0xE7, 0x9F, 0xA5 :: nat] in
     u @ [CHR 0x09] @ u @ [CHR 0x09] @ u @ [CHR 0x09, CHR 0x09] @ u)"

text \<open>The check for a new file, once in more than a million calls; \<open>mtime file\<close> is \<open>None\<close> when \<open>stat\<close> fails.\<close>

definition auto_reload :: "(bytes \<Rightarrow> bytes option) \<Rightarrow> (bytes \<Rightarrow> u32 option) \<Rightarrow> monip \<Rightarrow> monip option" where
  "auto_reload load mtime m =
     (if mn_check m > 1000000 then
        let m = m\<lparr>mn_check := 0\<rparr>
        in case mtime (mn_file m) of
             None \<Rightarrow> Some m
           | Some t \<Rightarrow> if t \<noteq> mn_mtime m then map_option snd (monipdata_init load (mn_file m) (m\<lparr>mn_mtime := t\<rparr>)) else Some m
      else Some (m\<lparr>mn_check := mn_check m + 1\<rparr>))"

text \<open>The first number of the address, from its first one to three characters.\<close>

definition first_number :: "bytes \<Rightarrow> nat option" where
  "first_number ip =
     (if length ip < 3 then None
      else let b4 = (if 3 < length ip \<and> ip ! 3 = CHR ''.'' then take 3 ip
                     else if ip ! 2 = CHR ''.'' then take 2 ip else take 1 ip)
           in Some (foldl (\<lambda>n c. n * 10 + (of_char c - 48)) 0
                      (takeWhile (\<lambda>c. 48 \<le> (of_char c :: nat) \<and> (of_char c :: nat) \<le> 57) b4)))"

text \<open>
  The search: entries of eight bytes, the address in network order first; the first one that is
  not smaller gives a 24-bit offset and a length. The result \<open>(0, _)\<close> means none was found.
  A start that wraps around at 32 bits, possible in a file of four gigabytes only, is \<open>None\<close>.
\<close>

function search :: "bytes \<Rightarrow> bytes \<Rightarrow> nat \<Rightarrow> nat \<Rightarrow> (u32 \<times> nat) option" where
  "search data nip start max_comp_len =
     (if start < max_comp_len then do {
        e \<leftarrow> le32_at data (4 + start);
        key \<leftarrow> le32_at nip 0;
        if lb_reverse e \<ge> lb_reverse key then do {
          v \<leftarrow> le32_at data (4 + start + 4);
          Some (v AND 0xffffff, unat (drop_bit 24 v))
        } else if start + 8 \<ge> 2 ^ 32 then None
        else search data nip (start + 8) max_comp_len
      } else Some (0, 0))"
  by auto
termination by (relation "measure (\<lambda>(data, nip, start, m). m - start)") auto

declare search.simps [simp del]

definition getposbyip ::
    "(bytes \<Rightarrow> u32 option) \<Rightarrow> (bytes \<Rightarrow> bytes option) \<Rightarrow> (bytes \<Rightarrow> u32 option) \<Rightarrow> bytes \<Rightarrow> monip \<Rightarrow> (bytes \<times> monip) option" where
  "getposbyip inet_addr load mtime ip m = do {
     m \<leftarrow> auto_reload load mtime m;
     if ip = [] then Some (unknown, m)
     else case inet_addr ip of
       None \<Rightarrow> Some (unknown, m)
     | Some uip \<Rightarrow> do {
         let lgip = lb_reverse (lb_reverse uip);
         data \<leftarrow> mn_data m;
         n \<leftarrow> first_number ip;
         start \<leftarrow> le32_at data (4 + n * 4);
         let max_comp_len = mn_offset m - 1024;
         (index_offset, pos_len) \<leftarrow> search data (le_bytes lgip) (unat (start * 8 + 1024)) (unat max_comp_len);
         if index_offset < 1 \<or> mn_offset m + index_offset - 1024 + word_of_nat pos_len > mn_len m then Some (unknown, m)
         else do {
           let pos = unat (mn_offset m + index_offset - 1024);
           if pos + pos_len > length data then None else Some (take pos_len (drop pos data), m) } } }"

section \<open>The Lua interface\<close>

definition init :: "lua_lib \<Rightarrow> (bytes \<Rightarrow> bytes option) \<Rightarrow> lua_value list \<Rightarrow> monip \<Rightarrow> (lua_ret \<times> monip) option" where
  "init lib load st m =
     (if \<not> lua_isstring st 1 then Some (Ret [LNil, lstr ''need 17monipdb.dat path''], m)
      else do { f \<leftarrow> lua_tostring lib st 1;
                (ok, m) \<leftarrow> monipdata_init load f m;
                Some (Ret [LBool ok], m) })"

text \<open>The loop of \<open>find\<close> over the pieces; every call but the last moves \<open>last\<close> forward.\<close>

fun pieces :: "nat \<Rightarrow> bytes \<Rightarrow> nat option \<Rightarrow> bytes list option" where
  "pieces 0 s lst = None"
| "pieces (Suc f) s lst =
     (case lb_strsplit s (CHR 0x09) lst of
        (None, _) \<Rightarrow> Some []
      | (Some (p, n), lst') \<Rightarrow> map_option ((#) (take n (drop p s))) (pieces f s lst'))"

definition find_ip ::
    "lua_lib \<Rightarrow> (bytes \<Rightarrow> u32 option) \<Rightarrow> (bytes \<Rightarrow> bytes option) \<Rightarrow> (bytes \<Rightarrow> u32 option) \<Rightarrow> lua_value list \<Rightarrow> monip
      \<Rightarrow> (lua_ret \<times> monip) option" where
  "find_ip lib inet_addr load mtime st m =
     (if \<not> lua_isstring st 1 then Some (Ret [LNil, lstr ''need IP''], m)
      else if mn_data m = None then Some (Ret [LNil, lstr ''monip not inited''], m)
      else do {
        ip \<leftarrow> lua_tostring lib st 1;
        (pos, m) \<leftarrow> getposbyip inet_addr load mtime ip m;
        vs \<leftarrow> pieces (length pos + 2) pos None;
        Some (Ret (map LString vs), m) })"

section \<open>The pieces of a record\<close>

text \<open>The split_fields between delimiters; joined with the delimiter they are the record again.\<close>

primrec split_fields :: "char \<Rightarrow> bytes \<Rightarrow> bytes list" where
  "split_fields d [] = [[]]"
| "split_fields d (c # cs) = (if c = d then [] # split_fields d cs else (c # hd (split_fields d cs)) # tl (split_fields d cs))"

fun joined :: "char \<Rightarrow> bytes list \<Rightarrow> bytes" where
  "joined d [] = []"
| "joined d [f] = f"
| "joined d (f # fs) = f @ d # joined d fs"

lemma fields_nonempty [simp]: "split_fields d s \<noteq> []"
  by (cases s) simp_all

lemma joined_Cons: "fs \<noteq> [] \<Longrightarrow> joined d (f # fs) = f @ d # joined d fs"
  by (cases fs) simp_all

lemma joined_fields: "joined d (split_fields d s) = s"
proof (induction s)
  case (Cons c s)
  obtain f fs where "split_fields d s = f # fs" by (cases "split_fields d s") simp_all
  with Cons show ?case by (cases fs) (simp_all add: joined_Cons)
qed simp

lemma fields_split:
  "split_fields d s = (let t = takeWhile (\<lambda>c. c \<noteq> d) s in if length t = length s then [s] else t # split_fields d (drop (Suc (length t)) s))"
  by (induction s) (simp_all add: Let_def)

lemma pieces_from:
  assumes "length s - l + 2 \<le> f" "l \<le> length s" "0 < length s" "lst = (if l = 0 then None else Some l)"
  shows "pieces f s lst = Some (split_fields (CHR 0x09) (drop l s))"
  using assms
proof (induction f arbitrary: l lst)
  case (Suc f)
  let ?t = "takeWhile (\<lambda>c. c \<noteq> CHR 0x09) (drop l s)"
  have t: "length ?t \<le> length s - l" using length_takeWhile_le [of _ "drop l s"] by simp
  show ?case
  proof (cases "length ?t = length s - l")
    case True
    then have "lb_strsplit s (CHR 0x09) lst = (Some (l, length s - l), Some 0)"
      using Suc.prems by (auto simp: lb_strsplit_def Let_def)
    moreover have "pieces f s (Some 0) = Some []"
      using Suc.prems by (cases f) (simp_all add: lb_strsplit_def)
    moreover have "split_fields (CHR 0x09) (drop l s) = [drop l s]"
      by (subst fields_split) (simp add: True Let_def)
    ultimately show ?thesis by simp
  next
    case False
    then have "lb_strsplit s (CHR 0x09) lst = (Some (l, length ?t), Some (l + length ?t + 1))"
      using Suc.prems t by (auto simp: lb_strsplit_def Let_def)
    moreover have "pieces f s (Some (l + length ?t + 1)) = Some (split_fields (CHR 0x09) (drop (l + length ?t + 1) s))"
      using Suc.prems t False by (intro Suc.IH) auto
    moreover have "split_fields (CHR 0x09) (drop l s) = ?t # split_fields (CHR 0x09) (drop (l + length ?t + 1) s)"
      by (subst fields_split) (use False in \<open>simp add: Let_def add.commute\<close>)
    moreover have "take (length ?t) (drop l s) = ?t" by (metis takeWhile_eq_take)
    ultimately show ?thesis by simp
  qed
qed simp

lemma find_ip_fields:
  assumes "mn_data m = Some data" "getposbyip inet_addr load mtime (c_str ip) m = Some (pos, m')" "pos \<noteq> []"
  shows "find_ip lib inet_addr load mtime [LString ip] m = Some (Ret (map LString (split_fields (CHR 0x09) pos)), m')"
proof -
  have "pieces (length pos + 2) pos None = Some (split_fields (CHR 0x09) pos)"
    using pieces_from [of pos 0 "length pos + 2" None] assms(3) by simp
  then show ?thesis
    using assms(1,2) by (simp add: find_ip_def lua_api_defs lua_tostring_def del: pieces.simps)
qed

section \<open>The search finds the first entry that is not smaller\<close>

lemma byte_of_word: "of_char (char_of (unat x) :: char) = take_bit 8 x" for x :: u32
proof -
  have "unat x mod 256 = unat (take_bit 8 x)" unfolding unsigned_take_bit_eq by (simp add: take_bit_eq_mod)
  then have "word_of_nat (of_char (char_of (unat x) :: char)) = take_bit 8 x" by (simp add: unat_mod_distrib)
  then show ?thesis by (simp only: of_nat_of_char)
qed

lemma le32_le_bytes: "le32_at (le_bytes w) 0 = Some w"
proof -
  have "take_bit 8 w OR push_bit 8 (take_bit 8 (drop_bit 8 w)) OR push_bit 16 (take_bit 8 (drop_bit 16 w))
      OR push_bit 24 (take_bit 8 (drop_bit 24 w)) = w"
    (is "?l = w")
  proof (rule bit_word_eqI)
    show "bit ?l n = bit w n" if "n < LENGTH(32)" for n
      using that by (cases "24 \<le> n"; cases "16 \<le> n") (auto simp: bit_simps)
  qed
  then show ?thesis by (simp add: le32_at_def le_bytes_def byte_of_word del: unsigned_take_bit_eq)
qed

lemma search_first:
  assumes "\<And>j. j < i \<Longrightarrow> \<exists>e. le32_at data (4 + (start + 8 * j)) = Some e \<and> lb_reverse e < lb_reverse key"
    and "start + 8 * i < mx" "mx < 2 ^ 32"
    and "le32_at data (4 + (start + 8 * i)) = Some e" "lb_reverse key \<le> lb_reverse e"
    and "le32_at data (4 + (start + 8 * i) + 4) = Some v"
  shows "search data (le_bytes key) start mx = Some (v AND 0xffffff, unat (drop_bit 24 v))"
  using assms
proof (induction i arbitrary: start)
  case 0
  then show ?case by (subst search.simps) (simp add: le32_le_bytes add.commute add.left_commute)
next
  case (Suc i)
  from Suc.prems(1) [of 0] obtain e0 where e0: "le32_at data (4 + start) = Some e0" "lb_reverse e0 < lb_reverse key" by auto
  have "search data (le_bytes key) (start + 8) mx = Some (v AND 0xffffff, unat (drop_bit 24 v))"
    using Suc.prems(2-) Suc.prems(1) [of "Suc _"] by (intro Suc.IH) (simp_all add: add.commute add.left_commute)
  moreover have "\<not> lb_reverse key \<le> lb_reverse e0" using e0(2) by simp
  ultimately show ?case using e0(1) Suc.prems(2,3)
    by (subst search.simps) (simp add: le32_le_bytes)
qed

end
