(* ===== verification/Misc_Fns.thy ===== *)
theory Misc_Fns
  imports Table_Str
begin

text \<open>
  The small Lua functions around the core: base64, SHA-1, MD5 and URI escaping (\<open>lua-base64.c\<close>,
  \<open>lua-sha1.c\<close>, \<open>lua-md5.c\<close>, \<open>lua-escape.c\<close>) and the log (\<open>lua-log.c\<close>). The codecs and digests
  themselves live in the submodule and are arguments; modelled is what the wrappers do with their
  arguments and buffers. Writing past a buffer is \<open>None\<close>.
\<close>

section \<open>Codecs and digests\<close>

text \<open>The functions of the submodule: what they write, and the sizes the callers reserve.\<close>

record codec_api =
  base64_encoded_length :: "nat \<Rightarrow> nat"
  base64_decoded_length :: "nat \<Rightarrow> nat"
  base64_encode :: "bytes \<Rightarrow> bytes"
  base64_decode :: "bytes \<Rightarrow> bytes"
  base64_encode_url :: "bytes \<Rightarrow> bytes"
  base64_decode_url :: "bytes \<Rightarrow> bytes"
  sha1 :: "bytes \<Rightarrow> bytes"
  sha1_hmac :: "bytes \<Rightarrow> bytes \<Rightarrow> bytes"
  md5 :: "bytes \<Rightarrow> bytes"
  urlencode :: "bool \<Rightarrow> bytes \<Rightarrow> bytes"
  urldecode :: "bool \<Rightarrow> bytes \<Rightarrow> bytes"

text \<open>A \<open>nil\<close> argument counts as the empty string, anything else must be a string.\<close>

definition with_string :: "lua_lib \<Rightarrow> lua_value list \<Rightarrow> nat \<Rightarrow> (bytes \<Rightarrow> lua_ret option) \<Rightarrow> lua_ret option" where
  "with_string lib st i k =
     (if lua_isnil st i then k []
      else case lua_tolstring lib st i of None \<Rightarrow> Some (Raise ''string expected'') | Some s \<Rightarrow> k s)"

text \<open>\<open>large_malloc\<close> rounds up to pages; the codec writes its output there.\<close>

definition into_pages :: "nat \<Rightarrow> bytes \<Rightarrow> lua_ret option" where
  "into_pages n out = do { room \<leftarrow> large_malloc n; if length out > room then None else Some (Ret [LString out]) }"

definition lua_f_base64_encode :: "lua_lib \<Rightarrow> codec_api \<Rightarrow> lua_value list \<Rightarrow> lua_ret option" where
  "lua_f_base64_encode lib api st =
     with_string lib st 1 (\<lambda>src. into_pages (base64_encoded_length api (length src)) (base64_encode api src))"

definition lua_f_base64_decode :: "lua_lib \<Rightarrow> codec_api \<Rightarrow> lua_value list \<Rightarrow> lua_ret option" where
  "lua_f_base64_decode lib api st =
     with_string lib st 1 (\<lambda>src. into_pages (base64_decoded_length api (length src)) (base64_decode api src))"

definition lua_f_base64_encode_url :: "lua_lib \<Rightarrow> codec_api \<Rightarrow> lua_value list \<Rightarrow> lua_ret option" where
  "lua_f_base64_encode_url lib api st =
     with_string lib st 1 (\<lambda>src. into_pages (base64_encoded_length api (length src)) (base64_encode_url api src))"

definition lua_f_base64_decode_url :: "lua_lib \<Rightarrow> codec_api \<Rightarrow> lua_value list \<Rightarrow> lua_ret option" where
  "lua_f_base64_decode_url lib api st =
     with_string lib st 1 (\<lambda>src. into_pages (base64_decoded_length api (length src)) (base64_decode_url api src))"

definition lua_f_sha1bin :: "lua_lib \<Rightarrow> codec_api \<Rightarrow> lua_value list \<Rightarrow> lua_ret option" where
  "lua_f_sha1bin lib api st = with_string lib st 1 (\<lambda>src. Some (Ret [LString (sha1 api src)]))"

definition lua_f_md5 :: "lua_lib \<Rightarrow> codec_api \<Rightarrow> lua_value list \<Rightarrow> lua_ret option" where
  "lua_f_md5 lib api st = with_string lib st 1 (\<lambda>src. Some (Ret [LString (md5 api src)]))"

text \<open>\<open>sprintf(o2 + i * 2, "%.2x", \<dots>)\<close> writes two digits and a NUL into a buffer of 40 bytes.\<close>

definition hex_digit :: "nat \<Rightarrow> char" where
  "hex_digit n = (if n < 10 then char_of (n + 48) else char_of (n + 87))"

definition put_hex :: "nat \<Rightarrow> char \<Rightarrow> bytes \<Rightarrow> bytes option" where
  "put_hex i c o2 =
     (if 2 * i + 2 < length o2
      then Some (o2[2 * i := hex_digit (of_char c div 16), 2 * i + 1 := hex_digit (of_char c mod 16), 2 * i + 2 := CHR 0x00])
      else None)"

fun hex_loop :: "nat \<Rightarrow> bytes \<Rightarrow> bytes \<Rightarrow> bytes option" where
  "hex_loop i [] o2 = Some o2"
| "hex_loop i (c # cs) o2 = Option.bind (put_hex i c o2) (hex_loop (Suc i) cs)"

text \<open>The flag for raw output only pushes a value below the hexadecimal one that is returned.\<close>

definition lua_f_hmac_sha1 :: "lua_lib \<Rightarrow> codec_api \<Rightarrow> lua_value list \<Rightarrow> lua_ret option" where
  "lua_f_hmac_sha1 lib api st =
     with_string lib st 1 (\<lambda>src. with_string lib st 2 (\<lambda>key.
       map_option (\<lambda>o2. Ret [LString o2]) (hex_loop 0 (sha1_hmac api key src) (replicate 40 CHR 0x00))))"

definition raw_flag :: "lua_value list \<Rightarrow> bool" where
  "raw_flag st = (lua_gettop st = 2 \<and> lua_isboolean st 2 \<and> lua_toboolean st 2)"

definition lua_f_escape_uri :: "lua_lib \<Rightarrow> codec_api \<Rightarrow> lua_value list \<Rightarrow> lua_ret option" where
  "lua_f_escape_uri lib api st =
     (if lua_gettop st < 1 then Some (Raise ''expecting one argument'')
      else case lua_tolstring lib st 1 of
             None \<Rightarrow> Some (Raise ''string expected'')
           | Some src \<Rightarrow>
               if src = [] then Some (Ret [st ! (lua_gettop st - 1)])
               else let out = urlencode api (raw_flag st) src
                    in if length out > 3 * length src then None else Some (Ret [LString out]))"

definition lua_f_unescape_uri :: "lua_lib \<Rightarrow> codec_api \<Rightarrow> lua_value list \<Rightarrow> lua_ret option" where
  "lua_f_unescape_uri lib api st =
     (if lua_gettop st < 1 then Some (Raise ''expecting one argument'')
      else case lua_tolstring lib st 1 of
             None \<Rightarrow> Some (Raise ''string expected'')
           | Some src \<Rightarrow>
               let out = urldecode api (raw_flag st) src
               in if length out > length src then None else Some (Ret [LString out]))"

section \<open>The log\<close>

text \<open>
  A log line is its level, the position of the caller and the text. \<open>caller\<close> is what
  \<open>lua_getinfo\<close> reports (source and line), \<open>print_int\<close> the conversion of \<open>%d\<close> and
  \<open>warn\<close> the default level.
\<close>

type_synonym log_line = "int \<times> bytes \<times> bytes"

abbreviation tbuf_size :: nat where "tbuf_size \<equiv> 8192"

definition caller_text :: "(int \<Rightarrow> bytes) \<Rightarrow> bytes \<times> int \<Rightarrow> bytes" where
  "caller_text print_int ar = take 1023 (c_str (drop 1 (fst ar)) @ '':'' @ print_int (snd ar))"

text \<open>The loop over the arguments: the bytes collected, a tab after each.\<close>

fun log_args :: "lua_lib \<Rightarrow> lua_value list \<Rightarrow> bytes \<Rightarrow> bytes" where
  "log_args lib [] buf = buf"
| "log_args lib (v # vs) buf =
     (case v of
        LBool b \<Rightarrow> if length buf + 6 > tbuf_size then buf
                   else log_args lib vs (buf @ (if b then ''true'' else ''false'') @ [CHR 0x09])
      | LNil \<Rightarrow> if length buf + 4 > tbuf_size then buf else log_args lib vs (buf @ ''nil'' @ [CHR 0x09])
      | _ \<Rightarrow> let data = (case tolstring lib v of Some s \<Rightarrow> s | None \<Rightarrow> [])
             in if length buf + length data + 1 > tbuf_size then buf else log_args lib vs (buf @ data @ [CHR 0x09]))"

text \<open>\<open>buf[blen] = '\0'\<close> needs a byte more than the text.\<close>

definition finish_text :: "nat \<Rightarrow> bytes \<Rightarrow> bytes option" where
  "finish_text room buf = (if length buf < room then Some (c_str buf) else None)"

text \<open>The text of a table: copied into a block of exactly its length when it is larger than the buffer.
  Bytes that were counted but not copied are whatever the buffer held.\<close>

definition log_table :: "lua_lib \<Rightarrow> (lua_value \<times> lua_value) list \<Rightarrow> (table_err + bytes option) option" where
  "log_table lib kvs =
     (case lua_calc_strlen_in_table lib False kvs of
        Inl e \<Rightarrow> Some (Inl e)
      | Inr blen \<Rightarrow>
          if blen < 1 then Some (Inr None)
          else let room = (if blen > tbuf_size then blen else tbuf_size)
               in (case lua_copy_str_in_table lib kvs of
                     Inl e \<Rightarrow> Some (Inl e)
                   | Inr s \<Rightarrow> if length s > room \<or> blen \<ge> room \<or> length s < blen then None else Some (Inr (Some (c_str (take blen s))))))"

definition lua_f_log ::
    "lua_lib \<Rightarrow> int \<Rightarrow> (int \<Rightarrow> bytes) \<Rightarrow> (bytes \<times> int) option \<Rightarrow> lua_value list \<Rightarrow> log_line list \<Rightarrow> (lua_ret \<times> log_line list) option" where
  "lua_f_log lib warn print_int caller st logs =
     (case caller of
        None \<Rightarrow> Some (Ret [], logs)
      | Some ar \<Rightarrow>
          let lead = (lua_gettop st > 1 \<and> lua_isnumber lib st 1);
              level = (if lead then int_of_number (lua_tonumber lib st 1) else warn);
              gn = (if lead then 2 else 1);
              line = (\<lambda>t. logs @ [(level, caller_text print_int ar, t)])
          in (case arg st gn of
                Some (LTable kvs) \<Rightarrow>
                  (case log_table lib kvs of
                     None \<Rightarrow> None
                   | Some (Inl e) \<Rightarrow> Some (Raise ''bad argument'', logs)
                   | Some (Inr None) \<Rightarrow> Some (Ret [], logs)
                   | Some (Inr (Some t)) \<Rightarrow> Some (Ret [], line t))
              | _ \<Rightarrow> map_option (\<lambda>t. (Ret [], line t)) (finish_text tbuf_size (log_args lib (drop (gn - 1) st) []))))"

section \<open>Off by one\<close>

lemma hex_loop_overruns: "cs \<noteq> [] \<Longrightarrow> length o2 \<le> 2 * (i + length cs) \<Longrightarrow> hex_loop i cs o2 = None"
proof (induction i cs o2 rule: hex_loop.induct)
  case (2 i c cs o2)
  show ?case
  proof (cases "put_hex i c o2")
    case (Some o3)
    then have "length o3 = length o2" "cs \<noteq> []"
      using 2 by (auto simp: put_hex_def split: if_splits)
    with Some 2 show ?thesis by simp
  qed simp
qed simp

text \<open>\<open>hmac_sha1\<close> prints a digest of 20 bytes into 40: the NUL of the last \<open>sprintf\<close> is written behind the buffer.\<close>

lemma hmac_sha1_overruns:
  assumes "length (sha1_hmac api key src) = 20"
  shows "lua_f_hmac_sha1 lib api [LString src, LString key] = None"
proof -
  have "sha1_hmac api key src \<noteq> []" using assms by auto
  then have "hex_loop 0 (sha1_hmac api key src) (replicate 40 CHR 0x00) = None"
    using assms by (intro hex_loop_overruns) simp_all
  then show ?thesis by (simp add: lua_f_hmac_sha1_def with_string_def lua_api_defs)
qed

text \<open>
  The arguments of a log line never exceed the buffer, but they may fill it, and then the
  terminating NUL does not fit.
\<close>

lemma log_args_bound: "length buf \<le> tbuf_size \<Longrightarrow> length (log_args lib vs buf) \<le> tbuf_size"
proof (induction lib vs buf rule: log_args.induct)
  case (2 lib v vs buf)
  then show ?case by (cases v) (simp_all add: Let_def)
qed simp

lemma log_full_line_overruns:
  assumes "length s = 8191"
  shows "lua_f_log lib warn print_int (Some ar) [LString s] logs = None"
  using assms by (simp add: lua_f_log_def lua_api_defs finish_text_def)

lemma log_short_line:
  assumes "length s < 8191"
  shows "lua_f_log lib warn print_int (Some ar) [LString s] logs =
    Some (Ret [], logs @ [(warn, caller_text print_int ar, c_str (s @ [CHR 0x09]))])"
  using assms by (simp add: lua_f_log_def lua_api_defs finish_text_def)

end
