(* ===== verification/Midl.thy ===== *)
theory Midl
  imports Co_Prelude
begin

text \<open>
  The ID lists of the embedded database (\<open>lua-libs/lightningmdb/midl.c\<close>): arrays of 64-bit IDs whose cell
  0 counts the entries, with the capacity in the cell before it, and arrays of ID/pointer pairs. This theory holds the
  searches and the growing and inserting operations; \<open>Midl_Sort\<close> the sort.
\<close>

section \<open>Arrays\<close>

text \<open>Checked reads and writes: an index outside the allocated cells is a fault.\<close>

definition rd :: "'a list \<Rightarrow> nat \<Rightarrow> 'a option" where
  "rd xs i = (if i < length xs then Some (xs ! i) else None)"

definition wr :: "nat \<Rightarrow> 'a \<Rightarrow> 'a list \<Rightarrow> 'a list option" where
  "wr i v xs = (if i < length xs then Some (xs[i := v]) else None)"

lemma rd_Some [simp]: "rd xs i = Some v \<longleftrightarrow> i < length xs \<and> xs ! i = v"
  by (simp add: rd_def)

lemma wr_Some [simp]: "wr i v xs = Some ys \<longleftrightarrow> i < length xs \<and> ys = xs[i := v]"
  by (auto simp: wr_def)

lemma rd_in [simp]: "i < length xs \<Longrightarrow> rd xs i = Some (xs ! i)"
  by simp

lemma wr_in [simp]: "i < length xs \<Longrightarrow> wr i v xs = Some (xs[i := v])"
  by simp

definition MDB_IDL_UM_MAX :: nat where "MDB_IDL_UM_MAX = 2 ^ 17 - 1"

section \<open>Binary search\<close>

definition CMP :: "'a::linorder \<Rightarrow> 'a \<Rightarrow> int" where
  "CMP x y = (if x < y then - 1 else if x > y then 1 else 0)"

text \<open>
  The loop both searches share: \<open>cmp cursor\<close> is the comparison of the entry at \<open>cursor\<close> with the
  ID, as each of them orders its operands.
\<close>

function search_loop :: "(nat \<Rightarrow> int option) \<Rightarrow> nat \<Rightarrow> nat \<Rightarrow> nat \<Rightarrow> int \<Rightarrow> nat option" where
  "search_loop cmp base cursor n val =
     (if 0 < n then do {
        let pivot = n div 2;
        let cursor = base + pivot + 1;
        val \<leftarrow> cmp cursor;
        if val < 0 then search_loop cmp base cursor pivot val
        else if val > 0 then search_loop cmp cursor cursor (n - (pivot + 1)) val
        else Some cursor
      } else Some (if val > 0 then cursor + 1 else cursor))"
  by pat_completeness auto
termination by (relation "measure (\<lambda>(cmp, base, cursor, n, val). n)") auto

declare search_loop.simps [simp del]

text \<open>\<open>unsigned n = ids[0]\<close> keeps 32 bits.\<close>

definition mdb_midl_search :: "u64 list \<Rightarrow> u64 \<Rightarrow> nat option" where
  "mdb_midl_search ids i = do {
     n \<leftarrow> rd ids 0;
     search_loop (\<lambda>c. map_option (\<lambda>x. CMP x i) (rd ids c)) 0 1 (unat (take_bit 32 n)) 0 }"

record id2 =
  mid :: u64
  mptr :: nat

definition mdb_mid2l_search :: "id2 list \<Rightarrow> u64 \<Rightarrow> nat option" where
  "mdb_mid2l_search ids i = do {
     n \<leftarrow> rd ids 0;
     search_loop (\<lambda>c. map_option (\<lambda>x. CMP i (mid x)) (rd ids c)) 0 1 (unat (take_bit 32 (mid n))) 0 }"

section \<open>Lists that grow\<close>

text \<open>
  A list as the callers hold it: \<open>il_cap\<close> is the cell \<open>ids[-1]\<close>, \<open>il_ids\<close> the cells from \<open>ids[0]\<close> on
  to the end of the allocated block. \<open>junk\<close> is what fresh memory holds, \<open>ok\<close> whether an allocation succeeds.
\<close>

record idl =
  il_cap :: u64
  il_ids :: "u64 list"

definition resized :: "(nat \<Rightarrow> u64) \<Rightarrow> nat \<Rightarrow> u64 list \<Rightarrow> u64 list" where
  "resized junk n xs = take n xs @ map junk [length xs..<n]"

text \<open>
  \<open>num + 2\<close> is a sum of \<open>int\<close>s and undefined beyond them; the product with the cell size is a
  \<open>size_t\<close>, where a negative sum becomes more than any allocation grants. A block of fewer than two cells
  has no room for both stores. The result \<open>Some None\<close> is the null pointer.
\<close>

definition mdb_midl_alloc :: "(nat \<Rightarrow> u64) \<Rightarrow> bool \<Rightarrow> int \<Rightarrow> idl option option" where
  "mdb_midl_alloc junk ok num =
     (if num + 2 \<ge> 2 ^ 31 then None
      else if \<not> ok \<or> num + 2 < 0 then Some None
      else if num + 2 < 2 then None
      else Some (Some \<lparr>il_cap = word_of_int num, il_ids = (resized junk (nat num + 1) [])[0 := 0]\<rparr>))"

definition mdb_midl_shrink :: "(nat \<Rightarrow> u64) \<Rightarrow> bool \<Rightarrow> idl \<Rightarrow> int \<times> idl" where
  "mdb_midl_shrink junk ok l =
     (if il_cap l > of_nat MDB_IDL_UM_MAX \<and> ok
      then (1, \<lparr>il_cap = of_nat MDB_IDL_UM_MAX, il_ids = resized junk MDB_IDL_UM_MAX (il_ids l)\<rparr>)
      else (0, l))"

definition ENOMEM :: int where "ENOMEM = 12"

text \<open>The block has \<open>cap + num + 2\<close> cells, one of them for the capacity.\<close>

definition mdb_midl_grow :: "(nat \<Rightarrow> u64) \<Rightarrow> bool \<Rightarrow> int \<Rightarrow> idl \<Rightarrow> int \<times> idl" where
  "mdb_midl_grow junk ok num l =
     (if \<not> ok then (ENOMEM, l)
      else (0, \<lparr>il_cap = il_cap l + word_of_int num, il_ids = resized junk (unat (il_cap l + word_of_int num) + 1) (il_ids l)\<rparr>))"

text \<open>\<open>num\<close> is an \<open>unsigned\<close>: the sums keep 32 bits; \<open>& -256\<close> rounds down to a multiple of 256.\<close>

definition mdb_midl_need :: "(nat \<Rightarrow> u64) \<Rightarrow> bool \<Rightarrow> 32 word \<Rightarrow> idl \<Rightarrow> (int \<times> idl) option" where
  "mdb_midl_need junk ok num l = do {
     n \<leftarrow> rd (il_ids l) 0;
     let num = num + ucast n;
     if ucast num > il_cap l then
       let num = (num + num div 4 + 258) div 256 * 256 in
       if \<not> ok then Some (ENOMEM, l)
       else Some (0, \<lparr>il_cap = ucast (num - 2), il_ids = resized junk (unat num - 1) (il_ids l)\<rparr>)
     else Some (0, l) }"

definition mdb_midl_append :: "(nat \<Rightarrow> u64) \<Rightarrow> bool \<Rightarrow> u64 \<Rightarrow> idl \<Rightarrow> (int \<times> idl) option" where
  "mdb_midl_append junk ok i l = do {
     n \<leftarrow> rd (il_ids l) 0;
     let (rc, l) = (if n \<ge> il_cap l then mdb_midl_grow junk ok (int MDB_IDL_UM_MAX) l else (0, l));
     if rc \<noteq> 0 then Some (ENOMEM, l)
     else do {
       ids \<leftarrow> wr 0 (n + 1) (il_ids l);
       ids \<leftarrow> wr (unat (n + 1)) i ids;
       Some (0, l\<lparr>il_ids := ids\<rparr>) } }"

fun wr_list :: "nat \<Rightarrow> 'a list \<Rightarrow> 'a list \<Rightarrow> 'a list option" where
  "wr_list k [] xs = Some xs"
| "wr_list k (v # vs) xs = Option.bind (wr k v xs) (wr_list (Suc k) vs)"

definition mdb_midl_append_list :: "(nat \<Rightarrow> u64) \<Rightarrow> bool \<Rightarrow> u64 list \<Rightarrow> idl \<Rightarrow> (int \<times> idl) option" where
  "mdb_midl_append_list junk ok app l = do {
     n \<leftarrow> rd (il_ids l) 0;
     m \<leftarrow> rd app 0;
     let (rc, l) = (if n + m \<ge> il_cap l then mdb_midl_grow junk ok (c_int (uint m)) l else (0, l));
     if rc \<noteq> 0 then Some (ENOMEM, l)
     else if length app \<le> unat m then None
     else do {
       ids \<leftarrow> wr_list (unat n + 1) (take (unat m) (drop 1 app)) (il_ids l);
       ids \<leftarrow> wr 0 (n + m) ids;
       Some (0, l\<lparr>il_ids := ids\<rparr>) } }"

text \<open>The loop \<open>while (n) ids[n--] = id++\<close>, with \<open>ids\<close> moved up by \<open>len\<close>.\<close>

fun fill_range :: "nat \<Rightarrow> nat \<Rightarrow> u64 \<Rightarrow> u64 list \<Rightarrow> u64 list option" where
  "fill_range len 0 i xs = Some xs"
| "fill_range len (Suc n) i xs = Option.bind (wr (len + Suc n) i xs) (fill_range len n (i + 1))"

definition mdb_midl_append_range :: "(nat \<Rightarrow> u64) \<Rightarrow> bool \<Rightarrow> u64 \<Rightarrow> 32 word \<Rightarrow> idl \<Rightarrow> (int \<times> idl) option" where
  "mdb_midl_append_range junk ok i n l = do {
     len \<leftarrow> rd (il_ids l) 0;
     let (rc, l) = (if len + ucast n > il_cap l then mdb_midl_grow junk ok (c_int (uint (or n (of_nat MDB_IDL_UM_MAX)))) l else (0, l));
     if rc \<noteq> 0 then Some (ENOMEM, l)
     else do {
       ids \<leftarrow> wr 0 (len + ucast n) (il_ids l);
       ids \<leftarrow> fill_range (unat len) (unat n) i ids;
       Some (0, l\<lparr>il_ids := ids\<rparr>) } }"

section \<open>Lists of pairs\<close>

text \<open>The loop that moves the entries from \<open>x\<close> on one place up, from the back.\<close>

fun shift_up :: "nat \<Rightarrow> nat \<Rightarrow> 'a list \<Rightarrow> 'a list option" where
  "shift_up x i xs = (if i > x then do { v \<leftarrow> rd xs (i - 1); xs \<leftarrow> wr i v xs; shift_up x (i - 1) xs } else Some xs)"

declare shift_up.simps [simp del]

definition mdb_mid2l_insert :: "id2 list \<Rightarrow> id2 \<Rightarrow> (int \<times> id2 list) option" where
  "mdb_mid2l_insert ids v = do {
     x \<leftarrow> mdb_mid2l_search ids (mid v);
     if x < 1 then Some (- 2, ids)
     else do {
       hd \<leftarrow> rd ids 0;
       dup \<leftarrow> (if of_nat x \<le> mid hd then map_option (\<lambda>e. mid e = mid v) (rd ids x) else Some False);
       if dup then Some (- 1, ids)
       else if mid hd \<ge> of_nat MDB_IDL_UM_MAX then Some (- 2, ids)
       else do {
         ids \<leftarrow> wr 0 (hd\<lparr>mid := mid hd + 1\<rparr>) ids;
         ids \<leftarrow> shift_up x (unat (take_bit 32 (mid hd + 1))) ids;
         ids \<leftarrow> wr x v ids;
         Some (0, ids) } } }"

definition mdb_mid2l_append :: "id2 list \<Rightarrow> id2 \<Rightarrow> (int \<times> id2 list) option" where
  "mdb_mid2l_append ids v = do {
     hd \<leftarrow> rd ids 0;
     if mid hd \<ge> of_nat MDB_IDL_UM_MAX then Some (- 2, ids)
     else do {
       ids \<leftarrow> wr 0 (hd\<lparr>mid := mid hd + 1\<rparr>) ids;
       ids \<leftarrow> wr (unat (mid hd + 1)) v ids;
       Some (0, ids) } }"

section \<open>The searches are right\<close>

lemma search_loop_ok:
  assumes "\<And>c. base < c \<Longrightarrow> c \<le> base + n \<Longrightarrow> cmp c = Some (v c)" and "base + n \<le> N"
    and "n = 0 \<Longrightarrow> (if val > 0 then cursor + 1 else cursor) = base + 1"
    and "\<And>p. 1 \<le> p \<Longrightarrow> p \<le> base \<Longrightarrow> 0 < v p" and "\<And>p. base + n < p \<Longrightarrow> p \<le> N \<Longrightarrow> v p < 0"
    and mono: "\<And>p q. 1 \<le> p \<Longrightarrow> p \<le> q \<Longrightarrow> q \<le> N \<Longrightarrow> (0 < v q \<longrightarrow> 0 < v p) \<and> (v p < 0 \<longrightarrow> v q < 0)"
  shows "\<exists>c. search_loop cmp base cursor n val = Some c \<and> 1 \<le> c
     \<and> (c \<le> N \<and> v c = 0 \<or> c \<le> N + 1 \<and> (\<forall>p. 1 \<le> p \<longrightarrow> p < c \<longrightarrow> 0 < v p) \<and> (\<forall>p. c \<le> p \<longrightarrow> p \<le> N \<longrightarrow> v p < 0))"
  using assms(1-5)
proof (induction n arbitrary: base cursor val rule: less_induct)
  case (less n)
  show ?case
  proof (cases "n = 0")
    case True
    then have "search_loop cmp base cursor n val = Some (base + 1)"
      using less.prems(3) by (subst search_loop.simps) simp
    moreover have "base + 1 \<le> N + 1" "\<forall>p. 1 \<le> p \<longrightarrow> p < base + 1 \<longrightarrow> 0 < v p" "\<forall>p. base + 1 \<le> p \<longrightarrow> p \<le> N \<longrightarrow> v p < 0"
      using True less.prems(2,4,5) by auto
    ultimately show ?thesis by force
  next
    case False
    let ?c = "base + n div 2 + 1"
    have half: "n div 2 < n" using False by simp
    have c: "cmp ?c = Some (v ?c)" "1 \<le> ?c" "?c \<le> N" using less.prems(1,2) half by auto
    have run: "search_loop cmp base cursor n val = (if v ?c < 0 then search_loop cmp base ?c (n div 2) (v ?c)
        else if v ?c > 0 then search_loop cmp ?c ?c (n - (n div 2 + 1)) (v ?c) else Some ?c)"
      using False c(1) by (subst search_loop.simps) (simp add: Let_def)
    consider "v ?c < 0" | "v ?c > 0" | "v ?c = 0" by linarith
    then show ?thesis
    proof cases
      case 1
      have "v p < 0" if "base + n div 2 < p" "p \<le> N" for p using mono [OF c(2) _ that(2)] 1 that(1) by simp
      then have "\<exists>c. search_loop cmp base ?c (n div 2) (v ?c) = Some c \<and> 1 \<le> c
         \<and> (c \<le> N \<and> v c = 0 \<or> c \<le> N + 1 \<and> (\<forall>p. 1 \<le> p \<longrightarrow> p < c \<longrightarrow> 0 < v p) \<and> (\<forall>p. c \<le> p \<longrightarrow> p \<le> N \<longrightarrow> v p < 0))"
        using less.prems(1,2,4) half not_less_iff_gr_or_eq [THEN iffD2, OF disjI1, OF 1] by (intro less.IH) simp_all
      with run 1 show ?thesis by simp
    next
      case 2
      have "0 < v p" if "1 \<le> p" "p \<le> ?c" for p using mono [OF that c(3)] 2 by simp
      then have "\<exists>c. search_loop cmp ?c ?c (n - (n div 2 + 1)) (v ?c) = Some c \<and> 1 \<le> c
         \<and> (c \<le> N \<and> v c = 0 \<or> c \<le> N + 1 \<and> (\<forall>p. 1 \<le> p \<longrightarrow> p < c \<longrightarrow> 0 < v p) \<and> (\<forall>p. c \<le> p \<longrightarrow> p \<le> N \<longrightarrow> v p < 0))"
        using less.prems False 2 by (intro less.IH) auto
      with run 2 show ?thesis by simp
    next
      case 3
      with run c show ?thesis by auto
    qed
  qed
qed

text \<open>The counted part of an array and its order.\<close>

definition desc :: "nat \<Rightarrow> u64 list \<Rightarrow> bool" where
  "desc n ids \<longleftrightarrow> (\<forall>p q. 1 \<le> p \<longrightarrow> p \<le> q \<longrightarrow> q \<le> n \<longrightarrow> ids ! q \<le> ids ! p)"

definition asc2 :: "nat \<Rightarrow> id2 list \<Rightarrow> bool" where
  "asc2 n ids \<longleftrightarrow> (\<forall>p q. 1 \<le> p \<longrightarrow> p < q \<longrightarrow> q \<le> n \<longrightarrow> mid (ids ! p) < mid (ids ! q))"

lemma CMP_simps [simp]: "CMP x y < 0 \<longleftrightarrow> x < y" "0 < CMP x y \<longleftrightarrow> y < x" "CMP x y = 0 \<longleftrightarrow> x = y"
  by (auto simp: CMP_def)

lemma take32: "unat x < 2 ^ 32 \<Longrightarrow> unat (take_bit 32 x) = unat x" for x :: u64
  by (simp add: unsigned_take_bit_eq take_bit_nat_eq_self)

text \<open>
  The search in a list sorted in descending order finds an ID that is there, and otherwise the
  first position whose ID is smaller (one past the end if there is none).
\<close>

theorem mdb_midl_search_finds:
  assumes n: "n = unat (ids ! 0)" "n < length ids" "n < 2 ^ 32" and sorted: "desc n ids"
  shows "\<exists>c. mdb_midl_search ids i = Some c \<and> 1 \<le> c
     \<and> (c \<le> n \<and> ids ! c = i \<or> c \<le> n + 1 \<and> (\<forall>p. 1 \<le> p \<longrightarrow> p < c \<longrightarrow> i < ids ! p) \<and> (\<forall>p. c \<le> p \<longrightarrow> p \<le> n \<longrightarrow> ids ! p < i))"
proof -
  have z: "rd ids 0 = Some (ids ! 0)" "unat (take_bit 32 (ids ! 0)) = n" using n by (auto simp: take32)
  have "\<exists>c. search_loop (\<lambda>c. map_option (\<lambda>x. CMP x i) (rd ids c)) 0 1 n 0 = Some c \<and> 1 \<le> c
     \<and> (c \<le> n \<and> CMP (ids ! c) i = 0 \<or> c \<le> n + 1 \<and> (\<forall>p. 1 \<le> p \<longrightarrow> p < c \<longrightarrow> 0 < CMP (ids ! p) i) \<and> (\<forall>p. c \<le> p \<longrightarrow> p \<le> n \<longrightarrow> CMP (ids ! p) i < 0))"
    using n(2) sorted by (intro search_loop_ok) (auto simp: desc_def intro: less_le_trans le_less_trans)
  with z show ?thesis by (simp add: mdb_midl_search_def)
qed

lemma mid2l_search_ok:
  assumes n: "n = unat (mid (ids ! 0))" "n < length ids" "n < 2 ^ 32" and sorted: "asc2 n ids"
  shows "\<exists>c. mdb_mid2l_search ids i = Some c \<and> 1 \<le> c
     \<and> (c \<le> n \<and> mid (ids ! c) = i \<or> c \<le> n + 1 \<and> (\<forall>p. 1 \<le> p \<longrightarrow> p < c \<longrightarrow> mid (ids ! p) < i) \<and> (\<forall>p. c \<le> p \<longrightarrow> p \<le> n \<longrightarrow> i < mid (ids ! p)))"
proof -
  have z: "rd ids 0 = Some (ids ! 0)" "unat (take_bit 32 (mid (ids ! 0))) = n" using n by (auto simp: take32)
  have le: "mid (ids ! p) \<le> mid (ids ! q)" if "1 \<le> p" "p \<le> q" "q \<le> n" for p q
    using sorted that unfolding asc2_def by (cases "p = q") (auto intro: less_imp_le)
  have "\<exists>c. search_loop (\<lambda>c. map_option (\<lambda>x. CMP i (mid x)) (rd ids c)) 0 1 n 0 = Some c \<and> 1 \<le> c
     \<and> (c \<le> n \<and> CMP i (mid (ids ! c)) = 0 \<or> c \<le> n + 1 \<and> (\<forall>p. 1 \<le> p \<longrightarrow> p < c \<longrightarrow> 0 < CMP i (mid (ids ! p))) \<and> (\<forall>p. c \<le> p \<longrightarrow> p \<le> n \<longrightarrow> CMP i (mid (ids ! p)) < 0))"
    using n(2) le by (intro search_loop_ok) (auto intro: less_le_trans le_less_trans)
  with z show ?thesis by (auto simp: mdb_mid2l_search_def)
qed

lemma search_finds_pair:
  assumes n: "n = unat (mid (ids ! 0))" "n < length ids" "n < 2 ^ 32" and sorted: "asc2 n ids" and x: "1 \<le> x" "x \<le> n" "mid (ids ! x) = i"
  shows "mdb_mid2l_search ids i = Some x"
proof -
  obtain c where c: "mdb_mid2l_search ids i = Some c" "1 \<le> c"
    and pos: "c \<le> n \<and> mid (ids ! c) = i
      \<or> c \<le> n + 1 \<and> (\<forall>p. 1 \<le> p \<longrightarrow> p < c \<longrightarrow> mid (ids ! p) < i) \<and> (\<forall>p. c \<le> p \<longrightarrow> p \<le> n \<longrightarrow> i < mid (ids ! p))"
    using mid2l_search_ok [OF n sorted] by blast
  have "c \<le> n \<and> mid (ids ! c) = i" using pos x by (metis leI order.irrefl)
  moreover have "\<not> c < x" "\<not> x < c" using sorted calculation c(2) x unfolding asc2_def by (metis order.irrefl)+
  ultimately show ?thesis using c(1) by simp
qed

section \<open>Lists that grow stay within their block\<close>

text \<open>The block has a cell for every entry the capacity allows, and the counted entries fit.\<close>

definition idl_ok :: "idl \<Rightarrow> bool" where
  "idl_ok l \<longleftrightarrow> length (il_ids l) = unat (il_cap l) + 1 \<and> unat (il_ids l ! 0) \<le> unat (il_cap l)"

definition entries :: "idl \<Rightarrow> u64 list" where
  "entries l = take (unat (il_ids l ! 0)) (drop 1 (il_ids l))"

text \<open>Room below the address space: a million entries more than any list here asks for.\<close>

definition room :: "nat \<Rightarrow> idl \<Rightarrow> bool" where
  "room n l \<longleftrightarrow> unat (il_cap l) + n < 2 ^ 60"

lemma length_resized [simp]: "length (resized junk n xs) = n"
  by (simp add: resized_def)

lemma resized_nth: "i < n \<Longrightarrow> i < length xs \<Longrightarrow> resized junk n xs ! i = xs ! i"
  by (simp add: resized_def nth_append)

lemma entries_cong:
  assumes "idl_ok l" and "idl_ok l'" and "il_ids l' ! 0 = il_ids l ! 0"
    and "\<And>i. 1 \<le> i \<Longrightarrow> i \<le> unat (il_ids l ! 0) \<Longrightarrow> il_ids l' ! i = il_ids l ! i"
  shows "entries l' = entries l"
  unfolding entries_def assms(3) using assms(1,2,4) assms(3)
  by (intro nth_equalityI) (auto simp: idl_ok_def)

lemma grow_ok:
  assumes ok: "idl_ok l" and "0 \<le> num" and "room (nat num) l"
  shows "\<exists>l'. mdb_midl_grow junk True num l = (0, l') \<and> idl_ok l' \<and> entries l' = entries l
     \<and> unat (il_cap l') = unat (il_cap l) + nat num \<and> il_ids l' ! 0 = il_ids l ! 0"
proof -
  let ?l = "\<lparr>il_cap = il_cap l + word_of_int num, il_ids = resized junk (unat (il_cap l + word_of_int num) + 1) (il_ids l)\<rparr>"
  have cap: "unat (il_cap l + word_of_int num) = unat (il_cap l) + nat num"
    using unat_u64_add [of "il_cap l" "nat num"] assms(2,3) by (simp add: room_def)
  have z: "il_ids ?l ! 0 = il_ids l ! 0" using ok cap by (simp add: resized_nth idl_ok_def)
  have ok': "idl_ok ?l" using ok z cap by (simp add: idl_ok_def)
  have "entries ?l = entries l"
    using ok cap by (intro entries_cong [OF ok ok' z]) (auto simp: resized_nth idl_ok_def)
  then show ?thesis using ok' cap z by (simp add: mdb_midl_grow_def)
qed

lemma alloc_ok:
  assumes "0 \<le> num" and "num + 2 < 2 ^ 31"
  shows "\<exists>l. mdb_midl_alloc junk True num = Some (Some l) \<and> idl_ok l \<and> entries l = [] \<and> unat (il_cap l) = nat num"
proof -
  have "unat (word_of_int num :: u64) = nat num"
    using unat_u64_of_nat [of "nat num"] assms by simp
  then show ?thesis using assms by (simp add: mdb_midl_alloc_def idl_ok_def entries_def)
qed

lemma wr_list_ok:
  "k + length vs \<le> length xs \<Longrightarrow> wr_list k vs xs = Some (take k xs @ vs @ drop (k + length vs) xs)"
proof (induction vs arbitrary: k xs)
  case Nil
  then show ?case by simp
next
  case (Cons v vs)
  then have k: "k < length xs" by simp
  have "wr_list k (v # vs) xs = wr_list (Suc k) vs (xs[k := v])" using k by simp
  also have "\<dots> = Some (take (Suc k) (xs[k := v]) @ vs @ drop (Suc k + length vs) (xs[k := v]))"
    using Cons by simp
  also have "take (Suc k) (xs[k := v]) = take k xs @ [v]" using k by (simp add: take_Suc_conv_app_nth)
  finally show ?case using k by simp
qed

lemma fill_range_ok:
  "len + n < length xs \<Longrightarrow> fill_range len n i xs
     = Some (take (len + 1) xs @ rev (map (\<lambda>k. i + of_nat k) [0..<n]) @ drop (len + 1 + n) xs)"
proof (induction n arbitrary: i xs)
  case 0
  then show ?case by simp
next
  case (Suc n)
  let ?k = "len + Suc n"
  have k: "?k < length xs" using Suc.prems by simp
  have "fill_range len (Suc n) i xs = fill_range len n (i + 1) (xs[?k := i])" using k by simp
  also have "\<dots> = Some (take (len + 1) xs @ rev (map (\<lambda>k. i + 1 + of_nat k) [0..<n]) @ drop (len + 1 + n) (xs[?k := i]))"
    using Suc by simp
  also have "drop (len + 1 + n) (xs[?k := i]) = i # drop (len + 1 + Suc n) xs"
    using k by (simp add: drop_update_swap Cons_nth_drop_Suc [symmetric] list_update_append)
  also have "rev (map (\<lambda>k. i + 1 + of_nat k) [0..<n]) @ i # drop (len + 1 + Suc n) xs
      = rev (map (\<lambda>k. i + of_nat k) [0..<Suc n]) @ drop (len + 1 + Suc n) xs"
    by (simp add: upt_conv_Cons map_Suc_upt [symmetric] comp_def ac_simps del: upt_Suc)
  finally show ?case .
qed

text \<open>Writing \<open>vs\<close> behind the counted entries and counting them.\<close>

lemma store_entries:
  assumes ok: "idl_ok l" and fits: "unat (il_ids l ! 0) + length vs \<le> unat (il_cap l)" and room: "room 0 l"
    and n: "n = il_ids l ! 0 + of_nat (length vs)"
    and ids: "ids = n # take (unat (il_ids l ! 0)) (drop 1 (il_ids l)) @ vs @ drop (unat (il_ids l ! 0) + 1 + length vs) (il_ids l)"
  shows "idl_ok (l\<lparr>il_ids := ids\<rparr>) \<and> entries (l\<lparr>il_ids := ids\<rparr>) = entries l @ vs"
proof -
  have "unat n = unat (il_ids l ! 0) + length vs"
    using unat_u64_add [of "il_ids l ! 0" "length vs"] n fits room by (simp add: room_def)
  then show ?thesis using ok fits by (simp add: ids idl_ok_def entries_def)
qed

text \<open>Growing first if need be: the list to store into, with the same entries and enough room.\<close>

lemma maybe_grow:
  assumes ok: "idl_ok l" and num: "0 \<le> num" "room (nat num) l" and small: "\<not> g \<Longrightarrow> unat (il_ids l ! 0) + n \<le> unat (il_cap l)" and need: "n \<le> nat num"
  shows "\<exists>l'. (if g then mdb_midl_grow junk True num l else (0, l)) = (0, l') \<and> idl_ok l' \<and> entries l' = entries l
     \<and> il_ids l' ! 0 = il_ids l ! 0 \<and> unat (il_ids l' ! 0) + n \<le> unat (il_cap l') \<and> room 0 l'"
proof (cases g)
  case True
  obtain l' where l': "mdb_midl_grow junk True num l = (0, l')" "idl_ok l'" "entries l' = entries l"
    "unat (il_cap l') = unat (il_cap l) + nat num" "il_ids l' ! 0 = il_ids l ! 0"
    using grow_ok [OF ok num] by blast
  then have "unat (il_ids l' ! 0) + n \<le> unat (il_cap l')" using ok need by (simp add: idl_ok_def)
  with True l' num(2) show ?thesis by (auto simp: room_def)
next
  case False
  with ok small num(2) show ?thesis by (simp add: room_def)
qed

lemma nonempty_ids: "idl_ok l \<Longrightarrow> 0 < length (il_ids l) \<and> il_ids l \<noteq> []"
  by (cases "il_ids l") (simp_all add: idl_ok_def)

lemma ids_Cons: "idl_ok l \<Longrightarrow> il_ids l = il_ids l ! 0 # drop 1 (il_ids l)"
  using nonempty_ids [of l] by (cases "il_ids l") auto

lemma ids_count:
  "xs \<noteq> [] \<Longrightarrow> take (n + 1) (xs[0 := c]) @ vs @ drop (n + 1 + length vs) (xs[0 := c]) = c # take n (drop 1 xs) @ vs @ drop (n + 1 + length vs) xs"
  by (cases xs) simp_all

lemma append_ok:
  assumes ok: "idl_ok l" and room: "room MDB_IDL_UM_MAX l"
  shows "\<exists>l'. mdb_midl_append junk True i l = Some (0, l') \<and> idl_ok l' \<and> entries l' = entries l @ [i]"
proof -
  let ?n = "il_ids l ! 0" and ?g = "il_ids l ! 0 \<ge> il_cap l"
  have "unat ?n + 1 \<le> unat (il_cap l)" if "\<not> ?g" using that by (simp add: not_le word_less_nat_alt)
  then have "\<exists>l'. (if ?g then mdb_midl_grow junk True (int MDB_IDL_UM_MAX) l else (0, l)) = (0, l') \<and> idl_ok l' \<and> entries l' = entries l
     \<and> il_ids l' ! 0 = ?n \<and> unat (il_ids l' ! 0) + 1 \<le> unat (il_cap l') \<and> room 0 l'"
    using room by (intro maybe_grow [OF ok]) (auto simp: MDB_IDL_UM_MAX_def)
  then obtain l1 where l1: "(if ?g then mdb_midl_grow junk True (int MDB_IDL_UM_MAX) l else (0, l)) = (0, l1)" "idl_ok l1" "entries l1 = entries l"
    "il_ids l1 ! 0 = ?n" "unat (il_ids l1 ! 0) + 1 \<le> unat (il_cap l1)" "room 0 l1"
    by blast
  have n1: "unat (?n + 1) = unat ?n + 1"
    using unat_u64_add [of ?n 1] l1(4,5,6) by (simp add: room_def)
  let ?ids = "(il_ids l1)[0 := ?n + 1, unat ?n + 1 := i]"
  have len: "unat ?n + 1 < length (il_ids l1)" using l1(2,4,5) by (simp add: idl_ok_def)
  have run: "mdb_midl_append junk True i l = Some (0, l1\<lparr>il_ids := ?ids\<rparr>)"
    using l1(1) nonempty_ids [OF ok] nonempty_ids [OF l1(2)] len n1 by (simp add: mdb_midl_append_def Let_def wr_def)
  have "?ids = (?n + 1) # take (unat ?n) (drop 1 (il_ids l1)) @ [i] @ drop (unat ?n + 1 + 1) (il_ids l1)"
    using len ids_Cons [OF l1(2)] by (cases "il_ids l1") (simp_all add: upd_conv_take_nth_drop)
  then show ?thesis
    using run store_entries [OF l1(2), of "[i]" "?n + 1" ?ids] l1(3-6) by simp
qed

lemma append_list_ok:
  assumes ok: "idl_ok l" and app: "m = unat (app ! 0)" "m < length app" "m < 2 ^ 31" and room: "room m l"
  shows "\<exists>l'. mdb_midl_append_list junk True app l = Some (0, l') \<and> idl_ok l' \<and> entries l' = entries l @ take m (drop 1 app)"
proof -
  let ?n = "il_ids l ! 0" and ?g = "il_ids l ! 0 + app ! 0 \<ge> il_cap l" and ?vs = "take m (drop 1 app)"
  have sum: "unat (?n + app ! 0) = unat ?n + m"
    using unat_u64_add [of ?n m] ok room app(1) by (simp add: idl_ok_def room_def)
  have "uint (app ! 0) = int m" unfolding app(1) by (rule uint_nat)
  then have c: "c_int (uint (app ! 0)) = int m" using app(3) by (simp add: c_int_id)
  have "unat ?n + m \<le> unat (il_cap l)" if "\<not> ?g" using that sum by (simp add: not_le word_less_nat_alt)
  then have "\<exists>l'. (if ?g then mdb_midl_grow junk True (int m) l else (0, l)) = (0, l') \<and> idl_ok l' \<and> entries l' = entries l
     \<and> il_ids l' ! 0 = ?n \<and> unat (il_ids l' ! 0) + m \<le> unat (il_cap l') \<and> room 0 l'"
    using room by (intro maybe_grow [OF ok]) auto
  then obtain l1 where l1: "(if ?g then mdb_midl_grow junk True (int m) l else (0, l)) = (0, l1)" "idl_ok l1" "entries l1 = entries l"
    "il_ids l1 ! 0 = ?n" "unat (il_ids l1 ! 0) + m \<le> unat (il_cap l1)" "room 0 l1"
    by blast
  have len: "unat ?n + 1 + m \<le> length (il_ids l1)" "length ?vs = m" using l1(2,4,5) app(2) by (auto simp: idl_ok_def)
  let ?ids = "(take (unat ?n + 1) (il_ids l1) @ ?vs @ drop (unat ?n + 1 + m) (il_ids l1))[0 := ?n + app ! 0]"
  have w: "wr_list (unat ?n + 1) ?vs (il_ids l1) = Some (take (unat ?n + 1) (il_ids l1) @ ?vs @ drop (unat ?n + 1 + m) (il_ids l1))"
    using wr_list_ok [of "unat ?n + 1" ?vs "il_ids l1"] len by simp
  have rds: "rd (il_ids l) 0 = Some ?n" "rd app 0 = Some (app ! 0)"
    using nonempty_ids [OF ok] app(1,2) by auto
  have run: "mdb_midl_append_list junk True app l = Some (0, l1\<lparr>il_ids := ?ids\<rparr>)"
    unfolding mdb_midl_append_list_def rds(1,2) Option.bind.simps Let_def c l1(1) prod.case app(1) [symmetric]
    using w nonempty_ids [OF l1(2)] app(2) by (simp add: wr_def del: wr_list.simps)
  have "?ids = (?n + app ! 0) # take (unat ?n) (drop 1 (il_ids l1)) @ ?vs @ drop (unat ?n + 1 + length ?vs) (il_ids l1)"
    using ids_Cons [OF l1(2)] len by (cases "il_ids l1") simp_all
  moreover have "?n + app ! 0 = ?n + of_nat (length ?vs)" using len(2) app(1) by simp
  ultimately show ?thesis
    using run store_entries [OF l1(2), of ?vs "?n + app ! 0" ?ids] l1(3-6) len(2) by simp
qed

lemma or_bounds:
  fixes n :: "32 word"
  assumes "unat n < 2 ^ 31"
  shows "c_int (uint (or n (of_nat MDB_IDL_UM_MAX))) = uint (or n (of_nat MDB_IDL_UM_MAX))" "unat n \<le> unat (or n (of_nat MDB_IDL_UM_MAX))"
    "unat (or n (of_nat MDB_IDL_UM_MAX)) < 2 ^ 31"
proof -
  have u: "uint (or n (of_nat MDB_IDL_UM_MAX)) = or (uint n) 131071"
    by (simp add: unsigned_or_eq MDB_IDL_UM_MAX_def)
  have "int (unat n) < int (2 ^ 31)" using assms by (simp only: of_nat_less_iff)
  then have n: "uint n < 2 ^ 31" "0 \<le> uint n" by simp_all
  have hi: "or (uint n) 131071 < 2 ^ 31" by (rule OR_upper) (use n in simp_all)
  have lo: "uint n \<le> or (uint n) 131071" by (rule or_greater_eq) simp
  show "c_int (uint (or n (of_nat MDB_IDL_UM_MAX))) = uint (or n (of_nat MDB_IDL_UM_MAX))"
    unfolding u by (rule c_int_id [OF order_trans [OF _ order_trans [OF n(2) lo]] hi]) simp
  show "unat n \<le> unat (or n (of_nat MDB_IDL_UM_MAX))" unfolding unat_eq_nat_uint u using lo by (rule nat_mono)
  show "unat (or n (of_nat MDB_IDL_UM_MAX)) < 2 ^ 31" unfolding unat_eq_nat_uint u using hi n(2) lo by (simp add: nat_less_iff)
qed

lemma append_range_ok:
  fixes n :: "32 word"
  assumes ok: "idl_ok l" and n: "unat n < 2 ^ 31" and room: "room (2 ^ 31) l"
  shows "\<exists>l'. mdb_midl_append_range junk True i n l = Some (0, l') \<and> idl_ok l'
     \<and> entries l' = entries l @ rev (map (\<lambda>k. i + of_nat k) [0..<unat n])"
proof -
  let ?n = "il_ids l ! 0" and ?m = "unat n" and ?g = "il_ids l ! 0 + ucast n > il_cap l" and ?o = "uint (or n (of_nat MDB_IDL_UM_MAX))"
  let ?vs = "rev (map (\<lambda>k. i + of_nat k) [0..<?m])"
  have uc: "(ucast n :: u64) = of_nat ?m" and lv: "length ?vs = ?m" by simp_all
  have sum: "unat (?n + ucast n) = unat ?n + ?m"
    unfolding uc using ok room n by (intro unat_u64_add) (simp add: idl_ok_def room_def)
  note ob = or_bounds [OF n]
  have no: "nat ?o = unat (or n (of_nat MDB_IDL_UM_MAX))" by (simp only: unat_eq_nat_uint)
  have "unat ?n + ?m \<le> unat (il_cap l)" if "\<not> ?g" using that sum by (simp only: not_less word_le_nat_alt)
  then have "\<exists>l'. (if ?g then mdb_midl_grow junk True ?o l else (0, l)) = (0, l') \<and> idl_ok l' \<and> entries l' = entries l
     \<and> il_ids l' ! 0 = ?n \<and> unat (il_ids l' ! 0) + ?m \<le> unat (il_cap l') \<and> room 0 l'"
    using room ob(2,3) no by (intro maybe_grow [OF ok]) (simp_all add: room_def)
  then obtain l1 where l1: "(if ?g then mdb_midl_grow junk True ?o l else (0, l)) = (0, l1)" "idl_ok l1" "entries l1 = entries l"
    "il_ids l1 ! 0 = ?n" "unat (il_ids l1 ! 0) + ?m \<le> unat (il_cap l1)" "room 0 l1"
    by blast
  have len: "unat ?n + ?m < length (il_ids l1)" using l1(2,4,5) by (simp add: idl_ok_def)
  let ?xs = "(il_ids l1)[0 := ?n + ucast n]"
  let ?ids = "take (unat ?n + 1) ?xs @ ?vs @ drop (unat ?n + 1 + ?m) ?xs"
  have w: "fill_range (unat ?n) ?m i ?xs = Some ?ids" using fill_range_ok [of "unat ?n" ?m ?xs i] len by simp
  have rds: "rd (il_ids l) 0 = Some ?n" using nonempty_ids [OF ok] by auto
  have run: "mdb_midl_append_range junk True i n l = Some (0, l1\<lparr>il_ids := ?ids\<rparr>)"
    unfolding mdb_midl_append_range_def rds Option.bind.simps Let_def ob(1) l1(1) prod.case
    using w nonempty_ids [OF l1(2)] by (simp add: wr_def del: fill_range.simps)
  have "?ids = (?n + ucast n) # take (unat ?n) (drop 1 (il_ids l1)) @ ?vs @ drop (unat ?n + 1 + length ?vs) (il_ids l1)"
    using ids_count [of "il_ids l1" "unat ?n" "?n + ucast n" ?vs] nonempty_ids [OF l1(2)] lv by (simp only: simp_thms)
  moreover have "?n + ucast n = ?n + of_nat (length ?vs)" using uc lv by (simp only:)
  ultimately show ?thesis
    using run store_entries [OF l1(2), of ?vs "?n + ucast n" ?ids] l1(3-6) lv by (simp only: simp_thms) metis
qed

lemma need_ok:
  fixes num :: "32 word"
  assumes ok: "idl_ok l" and small: "unat num + unat (il_ids l ! 0) < 2 ^ 31"
  shows "\<exists>l'. mdb_midl_need junk True num l = Some (0, l') \<and> idl_ok l' \<and> entries l' = entries l
     \<and> unat num + unat (il_ids l' ! 0) \<le> unat (il_cap l') \<and> il_ids l' ! 0 = il_ids l ! 0"
proof -
  let ?n = "il_ids l ! 0" and ?num = "num + ucast (il_ids l ! 0) :: 32 word"
  define N where "N = unat num + unat ?n"
  have rds: "rd (il_ids l) 0 = Some ?n" using nonempty_ids [OF ok] by auto
  have u: "unat ?num = N"
    using small by (simp add: N_def unat_word_ariths unsigned_ucast_eq take_bit_nat_eq_self)
  have N: "N < 2 ^ 31" using small by (simp add: N_def)
  then have t: "take_bit 64 N = N" by (simp add: take_bit_nat_eq_self)
  have big: "ucast ?num > il_cap l \<longleftrightarrow> N > unat (il_cap l)"
    using u t by (simp add: word_less_nat_alt unsigned_ucast_eq)
  show ?thesis
  proof (cases "N > unat (il_cap l)")
    case False
    then show ?thesis using ok big rds by (simp add: mdb_midl_need_def Let_def N_def)
  next
    case True
    define x where "x = ?num"
    let ?r = "(x + x div 4 + 258) div 256 * 256" and ?R = "(N + N div 4 + 258) div 256 * 256"
    have x: "unat x = N" using u by (simp add: x_def)
    have R: "?R \<le> N + N div 4 + 258" "N + N div 4 + 3 \<le> ?R"
      using div_mult_mod_eq [of "N + N div 4 + 258" 256] mod_less_divisor [of 256 "N + N div 4 + 258"] by linarith+
    have s: "unat (x + x div 4 + 258) = N + N div 4 + 258"
    proof -
      have "unat (x + x div 4) = N + N div 4" using N x by (intro trans [OF unat_add_lem [THEN iffD1]]) (simp_all add: unat_div)
      then show ?thesis using N by (intro trans [OF unat_add_lem [THEN iffD1]]) simp_all
    qed
    have r: "unat ?r = ?R"
    proof -
      have "unat ((x + x div 4 + 258) div 256) = (N + N div 4 + 258) div 256" unfolding unat_div s by simp
      then show ?thesis using R N by (simp add: unat_word_ariths(2))
    qed
    let ?l = "\<lparr>il_cap = ucast (?r - 2), il_ids = resized junk (unat ?r - 1) (il_ids l)\<rparr>"
    have cap: "unat (ucast (?r - 2) :: u64) = ?R - 2"
    proof -
      have "unat (?r - 2) = ?R - 2" using r R N by (simp add: unat_sub_if')
      then show ?thesis using R N by (simp add: unsigned_ucast_eq take_bit_nat_eq_self)
    qed
    have lens: "length (il_ids l) \<le> ?R - 1" "length (il_ids l) = unat (il_cap l) + 1" "unat ?n \<le> unat (il_cap l)"
      using ok True R by (auto simp: idl_ok_def)
    have z: "il_ids ?l ! 0 = ?n" using r R nonempty_ids [OF ok] by (simp add: resized_nth)
    have "?R - 1 = ?R - 2 + 1" "unat ?n \<le> ?R - 2" using R lens True by linarith+
    then have ok': "idl_ok ?l" using cap z r by (simp add: idl_ok_def)
    have "entries ?l = entries l"
      by (rule entries_cong [OF ok ok' z]) (use lens r in \<open>simp add: resized_nth\<close>)
    moreover have "mdb_midl_need junk True num l = Some (0, ?l)"
      using True big rds by (simp add: mdb_midl_need_def Let_def x_def)
    moreover have "unat num + unat (il_ids ?l ! 0) \<le> unat (il_cap ?l)" using z cap R N_def by simp
    ultimately show ?thesis using ok' z by blast
  qed
qed

text \<open>
  What an operation that may have to grow the list promises: where the block is large \<open>enough\<close>, or
  an allocation succeeds, it reports 0, the list is well formed and has \<open>vs\<close> behind its entries -- and the capacity
  it had, if that was enough; otherwise it reports \<open>ENOMEM\<close> and the list is the one it was given.
\<close>

definition stores :: "bool \<Rightarrow> bool \<Rightarrow> idl \<Rightarrow> u64 list \<Rightarrow> (int \<times> idl) option \<Rightarrow> bool" where
  "stores enough ok l vs r \<longleftrightarrow>
     (if enough \<or> ok then \<exists>l'. r = Some (0, l') \<and> idl_ok l' \<and> entries l' = entries l @ vs \<and> (enough \<longrightarrow> il_cap l' = il_cap l)
      else r = Some (ENOMEM, l))"

lemma storesI:
  assumes "\<exists>l'. f True = Some (0, l') \<and> idl_ok l' \<and> entries l' = entries l @ vs"
    and "enough \<Longrightarrow> f ok = f True" and "\<And>l'. enough \<Longrightarrow> f True = Some (0, l') \<Longrightarrow> il_cap l' = il_cap l"
    and "\<not> enough \<Longrightarrow> f False = Some (ENOMEM, l)"
  shows "stores enough ok l vs (f ok)"
  using assms by (cases ok) (auto simp: stores_def)

lemma count_entries: "idl_ok l \<Longrightarrow> length (entries l) = unat (il_ids l ! 0)"
  by (simp add: entries_def idl_ok_def)

lemma append_stores:
  assumes ok: "idl_ok l" and room: "room MDB_IDL_UM_MAX l"
  shows "stores (length (entries l) < unat (il_cap l)) a l [i] (mdb_midl_append junk a i l)"
proof (rule storesI [where f = "\<lambda>a. mdb_midl_append junk a i l", OF append_ok [OF assms]])
  have n: "rd (il_ids l) 0 = Some (il_ids l ! 0)" using nonempty_ids [OF ok] by simp
  show "mdb_midl_append junk a i l = mdb_midl_append junk True i l" if "length (entries l) < unat (il_cap l)"
    using that n by (simp add: mdb_midl_append_def count_entries [OF ok] not_le [symmetric] word_le_nat_alt)
  show "il_cap l' = il_cap l" if "length (entries l) < unat (il_cap l)" "mdb_midl_append junk True i l = Some (0, l')" for l'
    using that n by (auto simp: mdb_midl_append_def count_entries [OF ok] not_le [symmetric] word_le_nat_alt Let_def bind_eq_Some_conv)
  show "mdb_midl_append junk False i l = Some (ENOMEM, l)" if "\<not> length (entries l) < unat (il_cap l)"
    using that n by (simp add: mdb_midl_append_def mdb_midl_grow_def ENOMEM_def count_entries [OF ok] not_less word_le_nat_alt)
qed

lemma append_list_stores:
  assumes ok: "idl_ok l" and app: "m = unat (app ! 0)" "m < length app" "m < 2 ^ 31" and room: "room m l"
  shows "stores (length (entries l) + m < unat (il_cap l)) a l (take m (drop 1 app)) (mdb_midl_append_list junk a app l)"
proof (rule storesI [where f = "\<lambda>a. mdb_midl_append_list junk a app l", OF append_list_ok [OF assms]])
  have n: "rd (il_ids l) 0 = Some (il_ids l ! 0)" "rd app 0 = Some (app ! 0)" using nonempty_ids [OF ok] app(2) by auto
  have g: "il_cap l \<le> il_ids l ! 0 + app ! 0 \<longleftrightarrow> \<not> length (entries l) + m < unat (il_cap l)"
    using unat_u64_add [of "il_ids l ! 0" m] ok room app(1) by (simp add: word_le_nat_alt count_entries idl_ok_def room_def not_less)
  note run = mdb_midl_append_list_def n g Option.bind.simps Let_def
  show "mdb_midl_append_list junk a app l = mdb_midl_append_list junk True app l" if "length (entries l) + m < unat (il_cap l)"
    unfolding run using that by simp
  show "il_cap l' = il_cap l" if "length (entries l) + m < unat (il_cap l)" "mdb_midl_append_list junk True app l = Some (0, l')" for l'
    using that(2) unfolding run using that(1) by (auto simp: bind_eq_Some_conv split: if_splits)
  show "mdb_midl_append_list junk False app l = Some (ENOMEM, l)" if "\<not> length (entries l) + m < unat (il_cap l)"
    unfolding run using that by (simp add: mdb_midl_grow_def ENOMEM_def)
qed

lemma append_range_stores:
  fixes n :: "32 word"
  assumes ok: "idl_ok l" and n: "unat n < 2 ^ 31" and room: "room (2 ^ 31) l"
  shows "stores (length (entries l) + unat n \<le> unat (il_cap l)) a l (rev (map (\<lambda>k. i + of_nat k) [0..<unat n]))
     (mdb_midl_append_range junk a i n l)"
proof (rule storesI [where f = "\<lambda>a. mdb_midl_append_range junk a i n l", OF append_range_ok [OF assms]])
  have rd: "rd (il_ids l) 0 = Some (il_ids l ! 0)" using nonempty_ids [OF ok] by simp
  have "unat (il_ids l ! 0 + of_nat (unat n)) = unat (il_ids l ! 0) + unat n"
    by (rule unat_u64_add) (use ok room n in \<open>simp add: idl_ok_def room_def\<close>)
  then have g: "il_cap l < il_ids l ! 0 + ucast n \<longleftrightarrow> \<not> length (entries l) + unat n \<le> unat (il_cap l)"
    by (simp add: word_less_nat_alt count_entries [OF ok] not_le)
  note run = mdb_midl_append_range_def rd g Option.bind.simps Let_def
  show "mdb_midl_append_range junk a i n l = mdb_midl_append_range junk True i n l" if "length (entries l) + unat n \<le> unat (il_cap l)"
    unfolding run using that by simp
  show "il_cap l' = il_cap l"
    if "length (entries l) + unat n \<le> unat (il_cap l)" "mdb_midl_append_range junk True i n l = Some (0, l')" for l'
    using that(2) unfolding run using that(1) by (auto simp: bind_eq_Some_conv)
  show "mdb_midl_append_range junk False i n l = Some (ENOMEM, l)" if "\<not> length (entries l) + unat n \<le> unat (il_cap l)"
    unfolding run using that by (simp add: mdb_midl_grow_def ENOMEM_def)
qed

lemma need_stores:
  fixes num :: "32 word"
  assumes ok: "idl_ok l" and small: "unat num + unat (il_ids l ! 0) < 2 ^ 31"
  shows "stores (unat num + length (entries l) \<le> unat (il_cap l)) a l [] (mdb_midl_need junk a num l)"
proof (rule storesI [where f = "\<lambda>a. mdb_midl_need junk a num l"])
  show "\<exists>l'. mdb_midl_need junk True num l = Some (0, l') \<and> idl_ok l' \<and> entries l' = entries l @ []"
    using need_ok [OF assms, of junk] by auto
  have rd: "rd (il_ids l) 0 = Some (il_ids l ! 0)" using nonempty_ids [OF ok] by simp
  have "unat (num + ucast (il_ids l ! 0)) = unat num + unat (il_ids l ! 0)"
    using small by (simp add: unat_word_ariths unsigned_ucast_eq take_bit_nat_eq_self)
  then have g: "il_cap l < ucast (num + ucast (il_ids l ! 0)) \<longleftrightarrow> \<not> unat num + length (entries l) \<le> unat (il_cap l)"
    using small by (simp add: word_less_nat_alt count_entries [OF ok] not_le unsigned_ucast_eq take_bit_nat_eq_self)
  note run = mdb_midl_need_def rd g Option.bind.simps Let_def
  show "mdb_midl_need junk a num l = mdb_midl_need junk True num l" if "unat num + length (entries l) \<le> unat (il_cap l)"
    unfolding run using that by simp
  show "il_cap l' = il_cap l" if "unat num + length (entries l) \<le> unat (il_cap l)" "mdb_midl_need junk True num l = Some (0, l')" for l'
    using that(2) unfolding run using that(1) by simp
  show "mdb_midl_need junk False num l = Some (ENOMEM, l)" if "\<not> unat num + length (entries l) \<le> unat (il_cap l)"
    unfolding run using that by simp
qed

text \<open>
  (C36) Every operation that makes or grows a list, whether or not an allocation succeeds. \<open>alloc\<close> makes an
  empty list of the capacity asked for or returns the null pointer. \<open>append\<close> puts one ID at the end, \<open>append_list\<close>
  another list, \<open>append_range\<close> a range in descending order, \<open>need\<close> nothing but makes the room asked for;
  each of them keeps the list well formed -- a cell for every entry the capacity allows and the count within it --
  and where the block is too small and cannot be enlarged it reports \<open>ENOMEM\<close> and leaves the list as it was.
  Lengths stay below \<open>2^31\<close> and the capacity below the address space.
\<close>

theorem idl_operations_typed:
  fixes n num :: "32 word"
  assumes ok: "idl_ok l" and room: "room (2 ^ 31) l"
    and app: "m = unat (app ! 0)" "m < length app" "m < 2 ^ 31" and n: "unat n < 2 ^ 31"
    and num: "unat num + unat (il_ids l ! 0) < 2 ^ 31" and k: "0 \<le> k" "k + 2 < 2 ^ 31"
  shows "mdb_midl_alloc junk False k = Some None
     \<and> (\<exists>l'. mdb_midl_alloc junk True k = Some (Some l') \<and> idl_ok l' \<and> entries l' = [] \<and> unat (il_cap l') = nat k)
     \<and> stores (length (entries l) < unat (il_cap l)) a l [i] (mdb_midl_append junk a i l)
     \<and> stores (length (entries l) + m < unat (il_cap l)) a l (take m (drop 1 app)) (mdb_midl_append_list junk a app l)
     \<and> stores (length (entries l) + unat n \<le> unat (il_cap l)) a l (rev (map (\<lambda>k. i + of_nat k) [0..<unat n]))
          (mdb_midl_append_range junk a i n l)
     \<and> stores (unat num + length (entries l) \<le> unat (il_cap l)) a l [] (mdb_midl_need junk a num l)
     \<and> (\<forall>l'. mdb_midl_need junk a num l = Some (0, l') \<longrightarrow> unat num + length (entries l') \<le> unat (il_cap l'))"
proof (intro conjI)
  show "mdb_midl_alloc junk False k = Some None" using k by (simp add: mdb_midl_alloc_def)
  show "\<exists>l'. mdb_midl_alloc junk True k = Some (Some l') \<and> idl_ok l' \<and> entries l' = [] \<and> unat (il_cap l') = nat k"
    by (rule alloc_ok [OF k])
  show "stores (length (entries l) < unat (il_cap l)) a l [i] (mdb_midl_append junk a i l)"
    by (rule append_stores [OF ok]) (use room in \<open>simp add: room_def MDB_IDL_UM_MAX_def\<close>)
  show "stores (length (entries l) + m < unat (il_cap l)) a l (take m (drop 1 app)) (mdb_midl_append_list junk a app l)"
    by (rule append_list_stores [OF ok app]) (use room app in \<open>simp add: room_def\<close>)
  show "stores (length (entries l) + unat n \<le> unat (il_cap l)) a l (rev (map (\<lambda>k. i + of_nat k) [0..<unat n]))
      (mdb_midl_append_range junk a i n l)"
    by (rule append_range_stores [OF ok n room])
  show s: "stores (unat num + length (entries l) \<le> unat (il_cap l)) a l [] (mdb_midl_need junk a num l)"
    by (rule need_stores [OF ok num])
  show "\<forall>l'. mdb_midl_need junk a num l = Some (0, l') \<longrightarrow> unat num + length (entries l') \<le> unat (il_cap l')"
    using s need_ok [OF ok num, of junk] count_entries [OF ok] by (cases a) (auto simp: stores_def ENOMEM_def split: if_splits)
qed

text \<open>
  Shrinking a list back allocates one cell too few for the capacity it then claims, so once such a list is
  filled up to one entry below its capacity, the next \<open>append\<close> writes past the end of the block.
\<close>

theorem shrink_then_append_overruns:
  assumes "il_cap l > of_nat MDB_IDL_UM_MAX"
  shows "\<exists>l'. mdb_midl_shrink junk True l = (1, l') \<and> il_cap l' = of_nat MDB_IDL_UM_MAX \<and> \<not> idl_ok l'
     \<and> mdb_midl_append junk' ok i (l'\<lparr>il_ids := (il_ids l')[0 := of_nat (MDB_IDL_UM_MAX - 1)]\<rparr>) = None"
  using assms
  by (simp add: mdb_midl_shrink_def mdb_midl_append_def idl_ok_def Let_def rd_def wr_def unat_u64_of_nat MDB_IDL_UM_MAX_def)

section \<open>Inserting a pair\<close>

lemma shift_up_ok:
  "x \<le> i \<Longrightarrow> i < length xs \<Longrightarrow> \<exists>ys. shift_up x i xs = Some ys \<and> length ys = length xs
     \<and> (\<forall>p. p \<le> x \<or> i < p \<longrightarrow> ys ! p = xs ! p) \<and> (\<forall>p. x < p \<longrightarrow> p \<le> i \<longrightarrow> ys ! p = xs ! (p - 1))"
proof (induction x i xs rule: shift_up.induct)
  case (1 x i xs)
  show ?case
  proof (cases "i > x")
    case False
    with 1 show ?thesis by (subst shift_up.simps) auto
  next
    case True
    let ?ys = "xs[i := xs ! (i - 1)]"
    have "\<exists>ys. shift_up x (i - 1) ?ys = Some ys \<and> length ys = length ?ys
       \<and> (\<forall>p. p \<le> x \<or> i - 1 < p \<longrightarrow> ys ! p = ?ys ! p) \<and> (\<forall>p. x < p \<longrightarrow> p \<le> i - 1 \<longrightarrow> ys ! p = ?ys ! (p - 1))"
      by (rule "1.IH" [OF True]) (use True 1(3) in auto)
    then obtain ys where ys: "shift_up x (i - 1) ?ys = Some ys" "length ys = length ?ys"
      "\<And>p. p \<le> x \<or> i - 1 < p \<Longrightarrow> ys ! p = ?ys ! p" "\<And>p. x < p \<Longrightarrow> p \<le> i - 1 \<Longrightarrow> ys ! p = ?ys ! (p - 1)"
      by blast
    have run: "shift_up x i xs = Some ys" using True 1(3) ys(1) by (subst shift_up.simps) simp
    have "ys ! p = xs ! p" if "p \<le> x \<or> i < p" for p using that ys(3) [of p] True by auto
    moreover have "ys ! p = xs ! (p - 1)" if "x < p" "p \<le> i" for p
      using that ys(3) [of p] ys(4) [of p] True 1(3) by (cases "p = i") auto
    ultimately show ?thesis using run ys(2) by auto
  qed
qed

text \<open>The array after \<open>v\<close> was put at position \<open>x\<close> and counted.\<close>

definition inserted_at :: "nat \<Rightarrow> id2 \<Rightarrow> nat \<Rightarrow> id2 list \<Rightarrow> id2 list \<Rightarrow> bool" where
  "inserted_at x v n ids ids' \<longleftrightarrow> length ids' = length ids \<and> unat (mid (ids' ! 0)) = n + 1 \<and> ids' ! x = v
     \<and> (\<forall>p. 1 \<le> p \<longrightarrow> p < x \<longrightarrow> ids' ! p = ids ! p) \<and> (\<forall>p. x < p \<longrightarrow> p \<le> n + 1 \<longrightarrow> ids' ! p = ids ! (p - 1))
     \<and> (\<forall>p. n + 1 < p \<longrightarrow> ids' ! p = ids ! p)"

lemma inserted_asc:
  assumes "inserted_at x v n ids ids'" and "asc2 n ids" and x: "1 \<le> x" "x \<le> n + 1"
    and lo: "\<And>p. 1 \<le> p \<Longrightarrow> p < x \<Longrightarrow> mid (ids ! p) < mid v" and hi: "\<And>p. x \<le> p \<Longrightarrow> p \<le> n \<Longrightarrow> mid v < mid (ids ! p)"
  shows "asc2 (n + 1) ids'"
  unfolding asc2_def
proof (intro allI impI)
  fix p q assume pq: "1 \<le> p" "p < q" "q \<le> n + 1"
  have at: "ids' ! r = (if r < x then ids ! r else if r = x then v else ids ! (r - 1))" if "1 \<le> r" "r \<le> n + 1" for r
    using assms(1) that by (auto simp: inserted_at_def)
  have asc: "mid (ids ! a) < mid (ids ! b)" if "1 \<le> a" "a < b" "b \<le> n" for a b
    using assms(2) that by (simp add: asc2_def)
  show "mid (ids' ! p) < mid (ids' ! q)"
  proof (cases "q < x")
    case True
    then show ?thesis using at [of p] at [of q] asc [of p q] pq x by simp
  next
    case q: False
    show ?thesis
    proof (cases "p < x")
      case True
      have "mid (ids ! p) < mid v" using lo True pq by simp
      also have "mid v \<le> mid (ids' ! q)" using at [of q] q pq less_imp_le [OF hi [of "q - 1"]] by (cases "q = x") auto
      finally show ?thesis using at [of p] True pq by simp
    next
      case False
      show ?thesis
      proof (cases "p = x")
        case True
        then show ?thesis using at [of p] at [of q] pq hi [of "q - 1"] by simp
      next
        case False
        then show ?thesis using at [of p] at [of q] pq \<open>\<not> p < x\<close> asc [of "p - 1" "q - 1"] x by simp
      qed
    qed
  qed
qed

lemma insert_fresh:
  assumes n: "n = unat (mid (ids ! 0))" "n + 1 < length ids" "n < MDB_IDL_UM_MAX"
    and c: "mdb_mid2l_search ids (mid v) = Some c" "1 \<le> c" "c \<le> n + 1" and new: "\<not> (c \<le> n \<and> mid (ids ! c) = mid v)"
  shows "\<exists>ids'. mdb_mid2l_insert ids v = Some (0, ids') \<and> inserted_at c v n ids ids'"
proof -
  have n32: "n + 1 < 2 ^ 32" using n by (auto simp: MDB_IDL_UM_MAX_def)
  have len: "rd ids 0 = Some (ids ! 0)" "c < length ids" using n c by auto
  have cn: "of_nat c \<le> mid (ids ! 0) \<longleftrightarrow> c \<le> n"
    using n32 c(3) n(1) by (simp add: word_le_nat_alt unat_u64_of_nat)
  have max: "\<not> of_nat MDB_IDL_UM_MAX \<le> mid (ids ! 0)"
    using n(1,3) by (simp add: word_le_nat_alt unat_u64_of_nat MDB_IDL_UM_MAX_def)
  have n1: "unat (mid (ids ! 0) + 1) = n + 1" "unat (take_bit 32 (mid (ids ! 0) + 1)) = n + 1"
    using unat_u64_add [of "mid (ids ! 0)" 1] n(1) n32 take32 [of "mid (ids ! 0) + 1"] by simp_all
  let ?hd = "(ids ! 0)\<lparr>mid := mid (ids ! 0) + 1\<rparr>"
  obtain ys where ys: "shift_up c (n + 1) (ids[0 := ?hd]) = Some ys" "length ys = length ids"
    "\<And>p. p \<le> c \<or> n + 1 < p \<Longrightarrow> ys ! p = ids[0 := ?hd] ! p" "\<And>p. c < p \<Longrightarrow> p \<le> n + 1 \<Longrightarrow> ys ! p = ids[0 := ?hd] ! (p - 1)"
    using shift_up_ok [of c "n + 1" "ids[0 := ?hd]"] n(2) c(3) unfolding length_list_update by blast
  have dup: "(if of_nat c \<le> mid (ids ! 0) then map_option (\<lambda>e. mid e = mid v) (rd ids c) else Some False) = Some False"
    using new cn len(2) by simp
  have run: "mdb_mid2l_insert ids v = Some (0, ys[c := v])"
    unfolding mdb_mid2l_insert_def c(1) len(1) Option.bind.simps dup
    using c(2) max n1(2) ys(1,2) len by (simp add: wr_def)
  have "inserted_at c v n ids (ys[c := v])"
    using ys(2) len c(2,3) ys(3) ys(4) n1(1) n(2) by (simp add: inserted_at_def nth_list_update)
  with run show ?thesis by blast
qed

lemma insert_known:
  assumes "n = unat (mid (ids ! 0))" "n < length ids" "n < 2 ^ 32" and "mdb_mid2l_search ids (mid v) = Some c" "1 \<le> c"
    and "c \<le> n" "mid (ids ! c) = mid v"
  shows "mdb_mid2l_insert ids v = Some (- 1, ids)"
proof -
  have "of_nat c \<le> mid (ids ! 0)" using assms by (simp add: word_le_nat_alt unat_u64_of_nat)
  moreover have "rd ids 0 = Some (ids ! 0)" "rd ids c = Some (ids ! c)" using assms by auto
  ultimately show ?thesis using assms by (simp add: mdb_mid2l_insert_def)
qed

text \<open>
  (C37) Inserting into a list of pairs that is sorted by ID and has room: an ID that is there already is
  refused and nothing changes; otherwise the pair is entered at its place, the list stays strictly
  ascending and every other pair is kept. The search finds the pair afterwards.
\<close>

theorem mdb_mid2l_insert_sorted:
  assumes n: "n = unat (mid (ids ! 0))" "n + 1 < length ids" "n < MDB_IDL_UM_MAX" and sorted: "asc2 n ids"
  shows "if \<exists>p. 1 \<le> p \<and> p \<le> n \<and> mid (ids ! p) = mid v then mdb_mid2l_insert ids v = Some (- 1, ids)
     else \<exists>ids' x. mdb_mid2l_insert ids v = Some (0, ids') \<and> 1 \<le> x \<and> x \<le> n + 1 \<and> inserted_at x v n ids ids' \<and> asc2 (n + 1) ids'
       \<and> mdb_mid2l_search ids' (mid v) = Some x"
proof -
  have n32: "n < 2 ^ 32" "n < length ids" "n + 1 < 2 ^ 32" using n by (auto simp: MDB_IDL_UM_MAX_def)
  obtain c where c: "mdb_mid2l_search ids (mid v) = Some c" "1 \<le> c"
    and pos: "c \<le> n \<and> mid (ids ! c) = mid v
      \<or> c \<le> n + 1 \<and> (\<forall>p. 1 \<le> p \<longrightarrow> p < c \<longrightarrow> mid (ids ! p) < mid v) \<and> (\<forall>p. c \<le> p \<longrightarrow> p \<le> n \<longrightarrow> mid v < mid (ids ! p))"
    using mid2l_search_ok [OF n(1) n32(2,1) sorted, of "mid v"] by blast
  have cn: "c \<le> n + 1" using pos by auto
  show ?thesis
  proof (cases "c \<le> n \<and> mid (ids ! c) = mid v")
    case True
    then show ?thesis using insert_known [OF n(1) n32(2,1) c] c(2) by auto
  next
    case False
    then have lo: "\<And>p. 1 \<le> p \<Longrightarrow> p < c \<Longrightarrow> mid (ids ! p) < mid v" and hi: "\<And>p. c \<le> p \<Longrightarrow> p \<le> n \<Longrightarrow> mid v < mid (ids ! p)"
      using pos by auto
    have fresh: "\<not> (\<exists>p. 1 \<le> p \<and> p \<le> n \<and> mid (ids ! p) = mid v)"
      using lo hi by (metis linorder_not_less order_less_irrefl)
    obtain ids' where ids': "mdb_mid2l_insert ids v = Some (0, ids')" "inserted_at c v n ids ids'"
      using insert_fresh [OF n c cn False] by blast
    have asc: "asc2 (n + 1) ids'" by (rule inserted_asc [OF ids'(2) sorted c(2) cn lo hi])
    have "mdb_mid2l_search ids' (mid v) = Some c"
      by (rule search_finds_pair [OF _ _ n32(3) asc c(2) cn]) (use ids'(2) n(2) in \<open>auto simp: inserted_at_def\<close>)
    with fresh ids' asc c(2) cn show ?thesis by auto
  qed
qed

end
