(* ===== verification/Midl_Sort.thy ===== *)
theory Midl_Sort
  imports Midl "HOL-Library.Multiset"
begin

text \<open>
  \<open>mdb_midl_sort\<close> of \<open>midl.c\<close>: an iterative quicksort with the median of three as pivot, an explicit stack
  of 64 integers and insertion sort for parts of at most eight entries, in descending order. Every read
  and write is checked against the array, every push against the stack.
\<close>

section \<open>The program\<close>

definition SMALL :: nat where "SMALL = 8"

definition MIDL_SWAP :: "nat \<Rightarrow> nat \<Rightarrow> u64 list \<Rightarrow> u64 list option" where
  "MIDL_SWAP p q ids = do { x \<leftarrow> rd ids p; y \<leftarrow> rd ids q; ids \<leftarrow> wr p y ids; wr q x ids }"

text \<open>The inner loop of the insertion sort, \<open>for (i = j-1; i >= 1; i--)\<close>, and the write after it.\<close>

fun insert_down :: "u64 \<Rightarrow> nat \<Rightarrow> u64 list \<Rightarrow> u64 list option" where
  "insert_down a 0 ids = wr 1 a ids"
| "insert_down a (Suc i) ids = do {
     x \<leftarrow> rd ids (Suc i);
     if x \<ge> a then wr (Suc (Suc i)) a ids
     else do { ids \<leftarrow> wr (Suc (Suc i)) x ids; insert_down a i ids } }"

fun insertion_sort :: "nat list \<Rightarrow> u64 list \<Rightarrow> u64 list option" where
  "insertion_sort [] ids = Some ids"
| "insertion_sort (j # js) ids = do { a \<leftarrow> rd ids j; ids \<leftarrow> insert_down a (j - 1) ids; insertion_sort js ids }"

text \<open>\<open>do i++; while (ids[i] > a)\<close> and \<open>do j--; while (ids[j] < a)\<close>.\<close>

function scan_up :: "u64 list \<Rightarrow> u64 \<Rightarrow> nat \<Rightarrow> nat option" where
  "scan_up ids a i = do { x \<leftarrow> rd ids (Suc i); if x > a then scan_up ids a (Suc i) else Some (Suc i) }"
  by pat_completeness auto
termination by (relation "measure (\<lambda>(ids, a, i). length ids - i)") auto

fun scan_down :: "u64 list \<Rightarrow> u64 \<Rightarrow> nat \<Rightarrow> nat option" where
  "scan_down ids a 0 = None"
| "scan_down ids a (Suc j) = do { x \<leftarrow> rd ids j; if x < a then scan_down ids a j else Some j }"

declare scan_up.simps [simp del] scan_down.simps [simp del]

lemma scan_up_bounds: "scan_up ids a i = Some k \<Longrightarrow> i < k \<and> k < length ids \<and> ids ! k \<le> a \<and> (\<forall>p. i < p \<longrightarrow> p < k \<longrightarrow> a < ids ! p)"
proof (induction ids a i rule: scan_up.induct)
  case (1 ids a i)
  have l: "Suc i < length ids" using 1(2) by (subst (asm) scan_up.simps) (auto split: bind_splits)
  then have x: "rd ids (Suc i) = Some (ids ! Suc i)" "Suc i < length ids" by simp_all
  show ?case
  proof (cases "ids ! Suc i > a")
    case True
    then have "scan_up ids a (Suc i) = Some k" using 1(2) x by (subst (asm) scan_up.simps) simp
    from "1.IH" [OF x(1) True this] True show ?thesis by (metis Suc_lessD Suc_lessI)
  next
    case False
    then have "k = Suc i" using 1(2) x by (subst (asm) scan_up.simps) simp
    with False x show ?thesis by auto
  qed
qed

lemma scan_down_bounds: "scan_down ids a j = Some k \<Longrightarrow> k < j \<and> k < length ids \<and> a \<le> ids ! k \<and> (\<forall>p. k < p \<longrightarrow> p < j \<longrightarrow> ids ! p < a)"
proof (induction ids a j rule: scan_down.induct)
  case (1 ids a)
  then show ?case by (simp add: scan_down.simps)
next
  case (2 ids a j)
  then have x: "j < length ids" by (auto simp: scan_down.simps split: bind_splits)
  show ?case
  proof (cases "ids ! j < a")
    case True
    then have "scan_down ids a j = Some k" using 2(2) x by (simp add: scan_down.simps)
    from "2.IH" [OF _ True this] True x show ?thesis by (metis less_Suc_eq rd_in)
  next
    case False
    then have "k = j" using 2(2) x by (simp add: scan_down.simps)
    with False x show ?thesis by auto
  qed
qed

text \<open>The partitioning loop.\<close>

function partition_loop :: "u64 \<Rightarrow> nat \<Rightarrow> nat \<Rightarrow> u64 list \<Rightarrow> (nat \<times> nat \<times> u64 list) option" where
  "partition_loop a i j ids =
     (case scan_up ids a i of
        None \<Rightarrow> None
      | Some i' \<Rightarrow>
          (case scan_down ids a j of
             None \<Rightarrow> None
           | Some j' \<Rightarrow>
               if j' < i' then Some (i', j', ids)
               else (case MIDL_SWAP i' j' ids of
                       None \<Rightarrow> None
                     | Some ids' \<Rightarrow> partition_loop a i' j' ids')))"
  by pat_completeness auto
termination
  by (relation "measure (\<lambda>(a, i, j, ids). j)") (auto dest: scan_down_bounds)

declare partition_loop.simps [simp del]

definition swap_if_less :: "nat \<Rightarrow> nat \<Rightarrow> u64 list \<Rightarrow> u64 list option" where
  "swap_if_less p q ids = do { x \<leftarrow> rd ids p; y \<leftarrow> rd ids q; if x < y then MIDL_SWAP p q ids else Some ids }"

text \<open>One quicksort step on the part from \<open>l\<close> to \<open>ir\<close>: where the two remaining parts are.\<close>

definition quick_step :: "nat \<Rightarrow> nat \<Rightarrow> u64 list \<Rightarrow> (nat \<times> nat \<times> u64 list) option" where
  "quick_step l ir ids = do {
     ids \<leftarrow> MIDL_SWAP ((l + ir) div 2) (l + 1) ids;
     ids \<leftarrow> swap_if_less l ir ids;
     ids \<leftarrow> swap_if_less (l + 1) ir ids;
     ids \<leftarrow> swap_if_less l (l + 1) ids;
     a \<leftarrow> rd ids (l + 1);
     (i, j, ids) \<leftarrow> partition_loop a (l + 1) ir ids;
     x \<leftarrow> rd ids j;
     ids \<leftarrow> wr (l + 1) x ids;
     ids \<leftarrow> wr j a ids;
     Some (i, j, ids) }"

lemma partition_loop_bounds: "partition_loop a i j ids = Some (i', j', ids') \<Longrightarrow> i < i' \<and> j' < j \<and> j' < i'"
proof (induction a i j ids arbitrary: i' j' ids' rule: partition_loop.induct)
  case (1 a i j ids)
  from 1(2) obtain i1 j1 where s: "scan_up ids a i = Some i1" "scan_down ids a j = Some j1"
    by (subst (asm) partition_loop.simps) (auto split: option.splits)
  note b = scan_up_bounds [OF s(1)] scan_down_bounds [OF s(2)]
  show ?case
  proof (cases "j1 < i1")
    case True
    then show ?thesis using 1(2) s b by (subst (asm) partition_loop.simps) simp
  next
    case False
    then obtain ids1 where m: "MIDL_SWAP i1 j1 ids = Some ids1" "partition_loop a i1 j1 ids1 = Some (i', j', ids')"
      using 1(2) s by (subst (asm) partition_loop.simps) (auto split: option.splits)
    from "1.IH" [OF s(1) s(2) False m(1) m(2)] b show ?thesis by linarith
  qed
qed

lemma quick_step_bounds:
  "quick_step l ir ids = Some (i, j, ids') \<Longrightarrow> l + 1 < i \<and> j < ir \<and> j < i"
  by (auto simp: quick_step_def dest!: partition_loop_bounds split: bind_splits)

text \<open>The number of cells in the parts still to be sorted.\<close>

definition pending :: "(nat \<times> nat) list \<Rightarrow> nat" where
  "pending st = sum_list (map (\<lambda>(l, r). r + 1 - l) st)"

lemma pending_simps [simp]: "pending [] = 0" "pending ((l, r) # st) = r + 1 - l + pending st"
  by (simp_all add: pending_def)

text \<open>
  The main loop. A stack of \<open>k\<close> parts fills \<open>istack[1]\<close> to \<open>istack[2 k]\<close>; \<open>istack\<close> has 64 cells.
  \<open>l + ir\<close> is an \<open>int\<close>.
\<close>

function sort_loop :: "nat \<Rightarrow> nat \<Rightarrow> (nat \<times> nat) list \<Rightarrow> u64 list \<Rightarrow> u64 list option" where
  "sort_loop l ir st ids =
     (if ir < l + SMALL then
        (case insertion_sort [l + 1..<ir + 1] ids of
           None \<Rightarrow> None
         | Some ids' \<Rightarrow> (case st of [] \<Rightarrow> Some ids' | (l', ir') # st' \<Rightarrow> sort_loop l' ir' st' ids'))
      else if l + ir \<ge> 2 ^ 31 then None
      else
        (case quick_step l ir ids of
           None \<Rightarrow> None
         | Some (i, j, ids') \<Rightarrow>
             if 2 * (length st + 1) \<ge> 64 then None
             else if ir + 1 - i \<ge> j - l then sort_loop l (j - 1) ((i, ir) # st) ids'
             else sort_loop i ir ((l, j - 1) # st) ids'))"
  by pat_completeness auto

termination
proof (relation "measure (\<lambda>(l, ir, st, ids). 2 * pending ((l, ir) # st) + length st)", goal_cases)
  case 1
  show ?case by simp
next
  case 2
  then show ?case by auto
next
  case (3 l ir st ids x i y j ids')
  then have "l + 1 < i" "j < ir" "j < i" "l + 8 \<le> ir" using quick_step_bounds [of l ir ids i j ids'] by (auto simp: SMALL_def)
  then show ?case by simp
next
  case (4 l ir st ids x i y j ids')
  then have "l + 1 < i" "j < ir" "j < i" "l + 8 \<le> ir" using quick_step_bounds [of l ir ids i j ids'] by (auto simp: SMALL_def)
  then show ?case by simp
qed

declare sort_loop.simps [simp del]

definition mdb_midl_sort :: "u64 list \<Rightarrow> u64 list option" where
  "mdb_midl_sort ids = do { n \<leftarrow> rd ids 0; sort_loop 1 (nat (c_int (uint n))) [] ids }"

section \<open>Rearranging a part of the array\<close>

definition rearr :: "nat \<Rightarrow> nat \<Rightarrow> u64 list \<Rightarrow> u64 list \<Rightarrow> bool" where
  "rearr l r ids ids' \<longleftrightarrow> mset ids' = mset ids \<and> length ids' = length ids
     \<and> (\<forall>p < length ids. p < l \<or> r < p \<longrightarrow> ids' ! p = ids ! p)"

lemma rearr_refl [simp]: "rearr l r ids ids"
  by (simp add: rearr_def)

lemma rearr_trans: "rearr l r ids ids1 \<Longrightarrow> rearr l r ids1 ids2 \<Longrightarrow> rearr l r ids ids2"
  by (simp add: rearr_def)

lemma rearr_mono: "rearr l r ids ids' \<Longrightarrow> l' \<le> l \<Longrightarrow> r \<le> r' \<Longrightarrow> rearr l' r' ids ids'"
  by (auto simp: rearr_def)

lemma rearr_length: "rearr l r ids ids' \<Longrightarrow> length ids' = length ids"
  by (simp add: rearr_def)

lemma rearr_out: "rearr l r ids ids' \<Longrightarrow> p < length ids \<Longrightarrow> p < l \<or> r < p \<Longrightarrow> ids' ! p = ids ! p"
  by (auto simp: rearr_def)

lemma rearr_swap:
  assumes "l \<le> p" "p \<le> r" "l \<le> q" "q \<le> r" "p < length ids" "q < length ids"
  shows "rearr l r ids (ids[p := ids ! q, q := ids ! p])"
  using assms mset_swap [of q ids p] by (auto simp: rearr_def nth_list_update)

text \<open>An entry of the rearranged part was in that part before.\<close>

lemma rearr_in:
  assumes w: "rearr l r ids ids'" and p: "l \<le> p" "p \<le> r" "r < length ids"
  shows "\<exists>q. l \<le> q \<and> q \<le> r \<and> ids' ! p = ids ! q"
proof -
  let ?part = "\<lambda>xs :: u64 list. take (r + 1 - l) (drop l xs)"
  have split: "xs = take l xs @ ?part xs @ drop (r + 1) xs" for xs :: "u64 list"
  proof -
    have "?part xs @ drop (r + 1) xs = drop l xs" using p append_take_drop_id [of "r + 1 - l" "drop l xs"] by simp
    then show ?thesis by simp
  qed
  have len: "length ids' = length ids" using w by (simp add: rearr_def)
  have ends: "take l ids' = take l ids" "drop (r + 1) ids' = drop (r + 1) ids"
    using w p len by (auto simp: rearr_def intro!: nth_equalityI)
  have "mset (take l ids @ ?part ids' @ drop (r + 1) ids) = mset (take l ids @ ?part ids @ drop (r + 1) ids)"
    using w split [of ids] split [of ids'] unfolding ends rearr_def by metis
  then have "mset (?part ids') = mset (?part ids)" by simp
  then have parts: "set (?part ids') = set (?part ids)" by (rule mset_eq_setD)
  have "ids' ! p \<in> set (?part ids')" using p len by (auto simp: in_set_conv_nth intro!: exI [of _ "p - l"])
  then obtain k where "k < r + 1 - l" "l + k < length ids" "ids' ! p = ids ! (l + k)"
    unfolding parts by (auto simp: in_set_conv_nth)
  then show ?thesis by (intro exI [of _ "l + k"]) auto
qed

lemma rearr_all:
  assumes "rearr l r ids ids'" and "r < length ids" and "\<And>q. l \<le> q \<Longrightarrow> q \<le> r \<Longrightarrow> P (ids ! q)" and "l \<le> p" "p \<le> r"
  shows "P (ids' ! p)"
  using rearr_in [OF assms(1,4,5,2)] assms(3) by metis

section \<open>Insertion sort\<close>

definition desc_on :: "nat \<Rightarrow> nat \<Rightarrow> u64 list \<Rightarrow> bool" where
  "desc_on l r ids \<longleftrightarrow> (\<forall>p q. l \<le> p \<longrightarrow> p \<le> q \<longrightarrow> q \<le> r \<longrightarrow> ids ! q \<le> ids ! p)"

lemma insert_down_ok:
  assumes "i + 1 < length ids" and "1 \<le> l" "l \<le> i + 1" and "l = 1 \<or> a \<le> ids ! (l - 1)"
  shows "\<exists>ids' m. insert_down a i ids = Some ids' \<and> l \<le> m + 1 \<and> m \<le> i \<and> length ids' = length ids \<and> ids' ! (m + 1) = a
     \<and> (\<forall>p. p \<le> m \<longrightarrow> ids' ! p = ids ! p) \<and> (\<forall>p. i + 1 < p \<longrightarrow> ids' ! p = ids ! p)
     \<and> (\<forall>p. m < p \<longrightarrow> p \<le> i \<longrightarrow> ids' ! (p + 1) = ids ! p \<and> ids ! p < a) \<and> (l \<le> m \<longrightarrow> a \<le> ids ! m)
     \<and> mset ids' = mset (ids[i + 1 := a])"
  using assms
proof (induction i arbitrary: ids)
  case 0
  then show ?case by (intro exI [of _ "ids[1 := a]"] exI [of _ 0]) auto
next
  case (Suc i)
  let ?x = "ids ! Suc i"
  show ?case
  proof (cases "?x \<ge> a")
    case True
    then show ?thesis using Suc.prems by (intro exI [of _ "ids[Suc (Suc i) := a]"] exI [of _ "Suc i"]) auto
  next
    case False
    let ?ids = "ids[Suc (Suc i) := ?x]"
    have l: "l \<le> i + 1" using Suc.prems False by (cases "l = i + 2") auto
    then have g: "l = 1 \<or> a \<le> ?ids ! (l - 1)" using Suc.prems by auto
    have "\<exists>ids' m. insert_down a i ?ids = Some ids' \<and> l \<le> m + 1 \<and> m \<le> i \<and> length ids' = length ?ids \<and> ids' ! (m + 1) = a
       \<and> (\<forall>p. p \<le> m \<longrightarrow> ids' ! p = ?ids ! p) \<and> (\<forall>p. i + 1 < p \<longrightarrow> ids' ! p = ?ids ! p)
       \<and> (\<forall>p. m < p \<longrightarrow> p \<le> i \<longrightarrow> ids' ! (p + 1) = ?ids ! p \<and> ?ids ! p < a) \<and> (l \<le> m \<longrightarrow> a \<le> ?ids ! m)
       \<and> mset ids' = mset (?ids[i + 1 := a])"
      using Suc.prems(1) by (intro Suc.IH [OF _ Suc.prems(2) l g]) simp
    then obtain ids' m where r: "insert_down a i ?ids = Some ids'" "l \<le> m + 1" "m \<le> i" "length ids' = length ids" "ids' ! (m + 1) = a"
      "\<And>p. p \<le> m \<Longrightarrow> ids' ! p = ?ids ! p" "\<And>p. i + 1 < p \<Longrightarrow> ids' ! p = ?ids ! p"
      "\<And>p. m < p \<Longrightarrow> p \<le> i \<Longrightarrow> ids' ! (p + 1) = ?ids ! p \<and> ?ids ! p < a" "l \<le> m \<Longrightarrow> a \<le> ?ids ! m"
      "mset ids' = mset (?ids[i + 1 := a])" by (auto simp del: insert_down.simps)
    have "mset (?ids[Suc i := a]) = mset (ids[Suc (Suc i) := a])"
      using mset_swap [of "Suc i" "ids[Suc (Suc i) := a]" "Suc (Suc i)"] Suc.prems(1) by (simp add: list_update_swap)
    moreover have "ids' ! (p + 1) = ids ! p \<and> ids ! p < a" if "m < p" "p \<le> Suc i" for p
      using r(7) [of "p + 1"] r(8) [of p] that False Suc.prems(1) r(3) by (cases "p = Suc i") auto
    moreover have "ids' ! p = ids ! p" if "p \<le> m" for p using r(3,6) that by auto
    moreover have "ids' ! p = ids ! p" if "Suc i + 1 < p" for p using r(7) [of p] that by auto
    moreover have "insert_down a (Suc i) ids = Some ids'" using r(1) False Suc.prems(1) by simp
    moreover have "l \<le> m \<Longrightarrow> a \<le> ids ! m" using r(3,9) by simp
    ultimately show ?thesis using r(2-5,10)
      by (intro exI [of _ ids'] exI [of _ m]) (simp del: insert_down.simps)
  qed
qed

lemma insert_step:
  assumes j: "l < j" "j < length ids" "1 \<le> l" and sorted: "desc_on l (j - 1) ids" and guard: "l = 1 \<or> ids ! j \<le> ids ! (l - 1)"
  shows "\<exists>ids'. insert_down (ids ! j) (j - 1) ids = Some ids' \<and> rearr l j ids ids' \<and> desc_on l j ids'"
proof -
  let ?a = "ids ! j"
  have eq: "j - 1 + 1 = j" using j by simp
  obtain ids' m where r: "insert_down ?a (j - 1) ids = Some ids'" "l \<le> m + 1" "m \<le> j - 1" "length ids' = length ids" "ids' ! (m + 1) = ?a"
    "\<And>p. p \<le> m \<Longrightarrow> ids' ! p = ids ! p" "\<And>p. j < p \<Longrightarrow> ids' ! p = ids ! p"
    "\<And>p. m < p \<Longrightarrow> p \<le> j - 1 \<Longrightarrow> ids' ! (p + 1) = ids ! p \<and> ids ! p < ?a" "l \<le> m \<Longrightarrow> ?a \<le> ids ! m" "mset ids' = mset ids"
    using insert_down_ok [of "j - 1" ids l ?a, unfolded eq list_update_id, OF j(2,3) less_imp_le [OF j(1)] guard] by blast
  have mj: "m < j" using r(3) j(1) by simp
  have val: "ids' ! p = (if p \<le> m then ids ! p else if p = m + 1 then ?a else ids ! (p - 1))" if "p \<le> j" for p
    using r(5,6) r(8) [of "p - 1"] that by auto
  have le: "ids ! q \<le> ids ! p" if "l \<le> p" "p \<le> q" "q < j" for p q using sorted that by (auto simp: desc_on_def)
  have below: "ids' ! q \<le> ?a" if "m < q" "q \<le> j" for q
    using val [of q] less_imp_le [OF conjunct2 [OF r(8) [of "q - 1"]]] that by (cases "q = m + 1") auto
  have "ids' ! q \<le> ids' ! p" if pq: "l \<le> p" "p \<le> q" "q \<le> j" for p q
  proof -
    consider "q \<le> m" | "p \<le> m" "m < q" | "m < p" by linarith
    then show ?thesis
    proof cases
      case 1
      then show ?thesis using val [of p] val [of q] le [of p q] pq mj by simp
    next
      case 2
      have "?a \<le> ids ! p" using r(9) le [of p m] 2 pq mj by (meson order.trans)
      moreover have "ids' ! q \<le> ?a" using below 2 pq by simp
      ultimately show ?thesis using val [of p] 2 pq by auto
    next
      case 3
      then show ?thesis using val [of p] val [of q] le [of "p - 1" "q - 1"] below [of q] pq r(2)
        by (cases "p = m + 1") auto
    qed
  qed
  then have "desc_on l j ids'" by (simp add: desc_on_def)
  moreover have "rearr l j ids ids'" using r(2,4,6,7,10) by (auto simp: rearr_def)
  ultimately show ?thesis using r(1) by blast
qed

lemma insertion_sort_ok:
  assumes "1 \<le> l" "l < j" "j \<le> ir + 1" "ir < length ids" and "desc_on l (j - 1) ids"
    and "l = 1 \<or> (\<forall>p. l \<le> p \<longrightarrow> p \<le> ir \<longrightarrow> ids ! p \<le> ids ! (l - 1))"
  shows "\<exists>ids'. insertion_sort [j..<ir + 1] ids = Some ids' \<and> rearr l ir ids ids' \<and> desc_on l ir ids'"
  using assms
proof (induction "ir + 1 - j" arbitrary: j ids)
  case 0
  then have "j = ir + 1" by simp
  with 0 show ?case by simp
next
  case (Suc k)
  then have j: "j \<le> ir" "[j..<ir + 1] = j # [j + 1..<ir + 1]" by (auto simp: upt_conv_Cons)
  obtain ids1 where r: "insert_down (ids ! j) (j - 1) ids = Some ids1" "rearr l j ids ids1" "desc_on l j ids1"
    using insert_step [of l j ids] Suc.prems j by auto
  have w: "rearr l ir ids ids1" using rearr_mono [OF r(2)] j(1) by simp
  have "ids1 ! p \<le> ids1 ! (l - 1)" if "l \<noteq> 1" "l \<le> p" "p \<le> ir" for p
  proof -
    have "ids1 ! (l - 1) = ids ! (l - 1)" using w Suc.prems(1,4) that by (auto simp: rearr_def)
    moreover have "ids1 ! p \<le> ids ! (l - 1)"
      by (rule rearr_all [OF w Suc.prems(4), where P = "\<lambda>x. x \<le> ids ! (l - 1)"]) (use Suc.prems that in auto)
    ultimately show ?thesis by simp
  qed
  then have g: "l = 1 \<or> (\<forall>p. l \<le> p \<longrightarrow> p \<le> ir \<longrightarrow> ids1 ! p \<le> ids1 ! (l - 1))" by blast
  have k: "k = ir + 1 - (j + 1)" "l < j + 1" "j + 1 \<le> ir + 1" "ir < length ids1" "desc_on l (j + 1 - 1) ids1"
    using Suc.hyps(2) Suc.prems(2,4) j(1) r(3) rearr_length [OF w] by auto
  obtain ids' where "insertion_sort [j + 1..<ir + 1] ids1 = Some ids'" "rearr l ir ids1 ids'" "desc_on l ir ids'"
    using Suc.hyps(1) [OF k(1) Suc.prems(1) k(2-5) g] by blast
  then show ?case using r(1) w rearr_trans j Suc.prems(4) by (auto simp del: upt_Suc)
qed

section \<open>Partitioning\<close>

lemma scan_up_finds:
  "i < k \<Longrightarrow> k < length ids \<Longrightarrow> ids ! k \<le> a \<Longrightarrow> \<exists>i'. scan_up ids a i = Some i' \<and> i' \<le> k"
proof (induction "k - i" arbitrary: i)
  case 0
  then show ?case by simp
next
  case (Suc d)
  show ?case
  proof (cases "ids ! Suc i > a")
    case True
    with Suc.prems have "Suc i < k" by (metis Suc_lessI not_le)
    with Suc have "\<exists>i'. scan_up ids a (Suc i) = Some i' \<and> i' \<le> k" by (intro Suc.hyps(1)) auto
    with True Suc.prems show ?thesis by (subst scan_up.simps) simp
  next
    case False
    with Suc.prems show ?thesis by (subst scan_up.simps) auto
  qed
qed

lemma scan_down_finds:
  "k < j \<Longrightarrow> j \<le> length ids \<Longrightarrow> a \<le> ids ! k \<Longrightarrow> \<exists>j'. scan_down ids a j = Some j' \<and> k \<le> j'"
proof (induction j)
  case 0
  then show ?case by simp
next
  case (Suc j)
  show ?case
  proof (cases "ids ! j < a")
    case True
    with Suc.prems have "k < j" by (metis less_antisym not_less)
    with Suc True show ?thesis by (simp add: scan_down.simps)
  next
    case False
    with Suc.prems show ?thesis by (auto simp: scan_down.simps)
  qed
qed

lemma MIDL_SWAP_in [simp]: "p < length ids \<Longrightarrow> q < length ids \<Longrightarrow> MIDL_SWAP p q ids = Some (ids[p := ids ! q, q := ids ! p])"
  by (simp add: MIDL_SWAP_def)

text \<open>What holds around the two indices: to the left no entry is below the pivot, to the right none above.\<close>

definition split_at :: "nat \<Rightarrow> nat \<Rightarrow> u64 \<Rightarrow> nat \<Rightarrow> nat \<Rightarrow> u64 list \<Rightarrow> bool" where
  "split_at l ir a i j ids \<longleftrightarrow> ids ! (l + 1) = a \<and> (\<forall>p. l \<le> p \<longrightarrow> p \<le> i \<longrightarrow> a \<le> ids ! p) \<and> (\<forall>p. j \<le> p \<longrightarrow> p \<le> ir \<longrightarrow> ids ! p \<le> a)"

lemma partition_loop_ok:
  assumes "split_at l ir a i j ids" and "l + 1 \<le> i" "j \<le> ir" "ir < length ids" and "i < j \<or> i = j \<and> l + 1 < i \<and> i < ir"
  shows "\<exists>i' j' ids'. partition_loop a i j ids = Some (i', j', ids') \<and> rearr (l + 2) (ir - 1) ids ids' \<and> l + 1 \<le> j' \<and> j' < i' \<and> i' \<le> ir
     \<and> split_at l ir a (i' - 1) (j' + 1) ids'"
  using assms
proof (induction a i j ids rule: partition_loop.induct)
  case (1 a i j ids)
  have lo: "\<And>p. l \<le> p \<Longrightarrow> p \<le> i \<Longrightarrow> a \<le> ids ! p" and hi: "\<And>p. j \<le> p \<Longrightarrow> p \<le> ir \<Longrightarrow> ids ! p \<le> a" and piv: "ids ! (l + 1) = a"
    using 1(2) by (auto simp: split_at_def)
  have "\<exists>k. i < k \<and> k \<le> ir \<and> k \<le> max j (i + 1) \<and> ids ! k \<le> a" using hi [of j] hi [of "i + 1"] 1(4,6) by (cases "i < j") auto
  then obtain i1 where i1: "scan_up ids a i = Some i1" "i1 \<le> max j (i + 1)" "i1 \<le> ir"
    using scan_up_finds [of i _ ids a] 1(5) by (metis le_less_trans order.trans)
  have "\<exists>k. l + 1 \<le> k \<and> k < j \<and> min i (j - 1) \<le> k \<and> a \<le> ids ! k" using lo [of i] lo [of "j - 1"] 1(3,6)
    by (intro exI [of _ "if i < j then i else j - 1"]) auto
  then obtain j1 where j1: "scan_down ids a j = Some j1" "min i (j - 1) \<le> j1" "l + 1 \<le> j1"
    using scan_down_finds [of _ j ids a] 1(4,5) by (metis less_imp_le order.trans)
  note bi = scan_up_bounds [OF i1(1)] and bj = scan_down_bounds [OF j1(1)]
  have up: "a \<le> ids ! p" if "l \<le> p" "p < i1" for p using lo [of p] bi that by (cases "p \<le> i") (auto simp: less_imp_le)
  have dn: "ids ! p \<le> a" if "j1 < p" "p \<le> ir" for p using hi [of p] bj that by (cases "j \<le> p") (auto simp: less_imp_le)
  show ?case
  proof (cases "j1 < i1")
    case True
    then have "partition_loop a i j ids = Some (i1, j1, ids)" using i1 j1 by (subst partition_loop.simps) simp
    moreover have "split_at l ir a (i1 - 1) (j1 + 1) ids" using up dn piv bi by (auto simp: split_at_def)
    ultimately show ?thesis using True i1 j1 by auto
  next
    case False
    let ?ids = "ids[i1 := ids ! j1, j1 := ids ! i1]"
    have ord: "i1 \<le> j1" "l + 2 \<le> i1" "j1 \<le> ir - 1" "j1 < length ids" "i1 < length ids" using False bi bj 1(3,4) by auto
    have w: "rearr (l + 2) (ir - 1) ids ?ids" using ord by (intro rearr_swap) auto
    have sp: "split_at l ir a i1 j1 ?ids"
      unfolding split_at_def using up dn piv bi bj ord by (auto simp: nth_list_update)
    have run: "partition_loop a i j ids = partition_loop a i1 j1 ?ids"
      using i1 j1 False ord by (subst partition_loop.simps) simp
    have "\<exists>i' j' ids'. partition_loop a i1 j1 ?ids = Some (i', j', ids') \<and> rearr (l + 2) (ir - 1) ?ids ids' \<and> l + 1 \<le> j' \<and> j' < i' \<and> i' \<le> ir
       \<and> split_at l ir a (i' - 1) (j' + 1) ids'"
      by (rule "1.IH" [OF i1(1) j1(1) False _ sp]) (use ord 1(4,5) in auto)
    then show ?thesis unfolding run using rearr_trans [OF w] by blast
  qed
qed

lemma swap_if_less_ok:
  assumes "l \<le> p" "p < q" "q \<le> r" "q < length ids"
  shows "\<exists>ids'. swap_if_less p q ids = Some ids' \<and> rearr l r ids ids' \<and> ids' ! p = max (ids ! p) (ids ! q) \<and> ids' ! q = min (ids ! p) (ids ! q)
     \<and> (\<forall>k. k \<noteq> p \<longrightarrow> k \<noteq> q \<longrightarrow> ids' ! k = ids ! k)"
proof (cases "ids ! p < ids ! q")
  case True
  then have "swap_if_less p q ids = Some (ids[p := ids ! q, q := ids ! p])" using assms by (simp add: swap_if_less_def)
  moreover have "rearr l r ids (ids[p := ids ! q, q := ids ! p])" using assms by (intro rearr_swap) auto
  ultimately show ?thesis using True assms by (auto simp: max_def min_def)
next
  case False
  then show ?thesis using assms by (auto simp: swap_if_less_def max_def min_def)
qed

text \<open>Median of three: the first entry, the pivot behind it and the last one end up in descending order.\<close>

lemma median_ok:
  assumes "l + 1 < r" "r < length ids"
  shows "\<exists>ids1 ids2 ids3. swap_if_less l r ids = Some ids1 \<and> swap_if_less (l + 1) r ids1 = Some ids2 \<and> swap_if_less l (l + 1) ids2 = Some ids3
     \<and> rearr l r ids ids3 \<and> ids3 ! (l + 1) \<le> ids3 ! l \<and> ids3 ! r \<le> ids3 ! (l + 1)"
proof -
  obtain ids1 where 1: "swap_if_less l r ids = Some ids1" "rearr l r ids ids1" "ids1 ! l = max (ids ! l) (ids ! r)" "ids1 ! r = min (ids ! l) (ids ! r)"
    using swap_if_less_ok [of l l r r ids] assms by auto
  have l1: "length ids1 = length ids" using rearr_length [OF 1(2)] .
  obtain ids2 where 2: "swap_if_less (l + 1) r ids1 = Some ids2" "rearr l r ids1 ids2" "ids2 ! (l + 1) = max (ids1 ! (l + 1)) (ids1 ! r)"
    "ids2 ! r = min (ids1 ! (l + 1)) (ids1 ! r)" "ids2 ! l = ids1 ! l"
    using swap_if_less_ok [of l "l + 1" r r ids1] assms l1 by auto
  have l2: "length ids2 = length ids" using rearr_length [OF 2(2)] l1 by simp
  obtain ids3 where 3: "swap_if_less l (l + 1) ids2 = Some ids3" "rearr l r ids2 ids3" "ids3 ! l = max (ids2 ! l) (ids2 ! (l + 1))"
    "ids3 ! (l + 1) = min (ids2 ! l) (ids2 ! (l + 1))" "ids3 ! r = ids2 ! r"
    using swap_if_less_ok [of l l "l + 1" r ids2] assms l2 by auto
  have "ids3 ! r \<le> ids3 ! (l + 1)" using 1(3,4) 2(3-5) 3(4,5) by (simp add: le_max_iff_disj min_le_iff_disj)
  moreover have "ids3 ! (l + 1) \<le> ids3 ! l" using 3(3,4) by (simp add: le_max_iff_disj min_le_iff_disj)
  moreover have "rearr l r ids ids3" using rearr_trans 1(2) 2(2) 3(2) by blast
  ultimately show ?thesis using 1(1) 2(1) 3(1) by blast
qed

lemma quick_step_ok:
  assumes l: "1 \<le> l" "l + 8 \<le> r" "r < length ids"
  shows "\<exists>i j ids' a. quick_step l r ids = Some (i, j, ids') \<and> rearr l r ids ids' \<and> l + 1 \<le> j \<and> j < i \<and> i \<le> r
     \<and> (\<forall>p. l \<le> p \<longrightarrow> p < i \<longrightarrow> a \<le> ids' ! p) \<and> (\<forall>p. j \<le> p \<longrightarrow> p \<le> r \<longrightarrow> ids' ! p \<le> a)"
proof -
  let ?k = "(l + r) div 2"
  let ?ids0 = "ids[?k := ids ! (l + 1), l + 1 := ids ! ?k]"
  have k: "l \<le> ?k" "?k \<le> r" "?k < length ids" using l by auto
  have m: "MIDL_SWAP ?k (l + 1) ids = Some ?ids0" "rearr l r ids ?ids0" using k l by (auto intro: rearr_swap)
  obtain ids1 ids2 ids3 where s: "swap_if_less l r ?ids0 = Some ids1" "swap_if_less (l + 1) r ids1 = Some ids2" "swap_if_less l (l + 1) ids2 = Some ids3"
    "rearr l r ?ids0 ids3" "ids3 ! (l + 1) \<le> ids3 ! l" "ids3 ! r \<le> ids3 ! (l + 1)"
    using median_ok [of l r ?ids0] l by auto
  let ?a = "ids3 ! (l + 1)"
  have len: "length ids3 = length ids" using rearr_length [OF s(4)] by simp
  have "split_at l r ?a (l + 1) r ids3" using s(5,6) by (auto simp: split_at_def le_Suc_eq)
  then obtain i j ids4 where p: "partition_loop ?a (l + 1) r ids3 = Some (i, j, ids4)" "rearr (l + 2) (r - 1) ids3 ids4" "l + 1 \<le> j" "j < i" "i \<le> r"
    and sp: "split_at l r ?a (i - 1) (j + 1) ids4"
    using partition_loop_ok [of l r ?a "l + 1" r ids3] l len by auto
  have len4: "length ids4 = length ids" using rearr_length [OF p(2)] len by simp
  have piv: "ids4 ! (l + 1) = ?a" and lo: "\<And>q. l \<le> q \<Longrightarrow> q < i \<Longrightarrow> ?a \<le> ids4 ! q" and hi: "\<And>q. j < q \<Longrightarrow> q \<le> r \<Longrightarrow> ids4 ! q \<le> ?a"
    using sp p(4) by (auto simp: split_at_def)
  let ?ids' = "ids4[l + 1 := ids4 ! j, j := ids4 ! (l + 1)]"
  have j: "j < length ids4" "l + 1 < length ids4" "j \<le> r" using p(3-5) l len4 by auto
  have run: "quick_step l r ids = Some (i, j, ?ids')"
    unfolding quick_step_def m(1) Option.bind.simps s(1-3) using len j p(1) piv l by simp
  have "rearr l r ids4 ?ids'" using j p(3) by (intro rearr_swap) auto
  then have "rearr l r ids ?ids'" using m(2) s(4) rearr_mono [OF p(2), of l r] rearr_trans by (meson diff_le_self le_add1)
  moreover have "?a \<le> ?ids' ! q" if "l \<le> q" "q < i" for q
    using lo [OF that] lo [of j] piv j p(3,4) by (auto simp: nth_list_update)
  moreover have "?ids' ! q \<le> ?a" if "j \<le> q" "q \<le> r" for q
    using hi [of q] that piv j p(3) by (auto simp: nth_list_update)
  ultimately show ?thesis using run p(3-5) by blast
qed

section \<open>The parts still to sort\<close>

definition in_part :: "(nat \<times> nat) list \<Rightarrow> nat \<Rightarrow> nat \<Rightarrow> bool" where
  "in_part st p q \<longleftrightarrow> (\<exists>(l, r) \<in> set st. l \<le> p \<and> q \<le> r)"

text \<open>Two entries are in descending order unless they are in the same part; the parts are disjoint.\<close>

definition parts_ok :: "nat \<Rightarrow> (nat \<times> nat) list \<Rightarrow> u64 list \<Rightarrow> bool" where
  "parts_ok n st ids \<longleftrightarrow> (\<forall>(l, r) \<in> set st. 1 \<le> l \<and> r \<le> n) \<and> sorted_wrt (\<lambda>(l, r) (l', r'). r < l' \<or> r' < l) st
     \<and> (\<forall>p q. 1 \<le> p \<longrightarrow> p < q \<longrightarrow> q \<le> n \<longrightarrow> ids ! q \<le> ids ! p \<or> in_part st p q)"

lemma in_part_Cons [simp]: "in_part ((l, r) # st) p q \<longleftrightarrow> l \<le> p \<and> q \<le> r \<or> in_part st p q"
  by (auto simp: in_part_def)

lemma parts_others:
  assumes ok: "parts_ok n ((l, r) # st) ids" and w: "rearr l r ids ids'" and n: "n < length ids"
    and pq: "1 \<le> p" "p < q" "q \<le> n" "\<not> (l \<le> p \<and> q \<le> r)"
  shows "ids' ! q \<le> ids' ! p \<or> in_part st p q"
proof -
  have lr: "1 \<le> l" "r \<le> n" using ok by (auto simp: parts_ok_def)
  have dis: "r < l' \<or> r' < l" if "(l', r') \<in> set st" for l' r' using ok that by (auto simp: parts_ok_def)
  have apart: "\<not> in_part st a b" if "l \<le> a" "a \<le> r" "a < b" for a b
    using dis that unfolding in_part_def by fastforce
  have old: "ids ! b \<le> ids ! a \<or> (l \<le> a \<and> b \<le> r) \<or> in_part st a b" if "1 \<le> a" "a < b" "b \<le> n" for a b
    using ok that by (auto simp: parts_ok_def)
  have same: "ids' ! a = ids ! a" if "a < l \<or> r < a" "a \<le> n" for a using w n that by (auto simp: rearr_def)
  have rn: "r < length ids" using lr(2) n by simp
  consider "l \<le> p" "p \<le> r" "r < q" | "p < l" "l \<le> q" "q \<le> r" | "p < l \<or> r < p" "q < l \<or> r < q" using pq by linarith
  then show ?thesis
  proof cases
    case 1
    obtain p' where p': "l \<le> p'" "p' \<le> r" "ids' ! p = ids ! p'" using rearr_in [OF w 1(1,2) rn] by blast
    then have "ids ! q \<le> ids ! p'" using old [of p' q] 1 lr pq apart [of p' q] by auto
    then show ?thesis using same [of q] p'(3) 1 pq by simp
  next
    case 2
    obtain q' where q': "l \<le> q'" "q' \<le> r" "ids' ! q = ids ! q'" using rearr_in [OF w 2(2,3) rn] by blast
    have "\<not> in_part st p q'" using dis q' 2(1) unfolding in_part_def by fastforce
    then have "ids ! q' \<le> ids ! p" using old [of p q'] 2 lr pq q' by auto
    then show ?thesis using same [of p] q'(3) 2 pq by simp
  next
    case 3
    then show ?thesis using old [of p q] same [of p] same [of q] pq by auto
  qed
qed

lemma parts_sorted:
  assumes ok: "parts_ok n ((l, r) # st) ids" and w: "rearr l r ids ids'" and n: "n < length ids" and sorted: "desc_on l r ids'"
  shows "parts_ok n st ids'"
proof -
  have "ids' ! q \<le> ids' ! p \<or> in_part st p q" if pq: "1 \<le> p" "p < q" "q \<le> n" for p q
    using parts_others [OF ok w n pq] sorted pq(2) by (cases "l \<le> p \<and> q \<le> r") (simp_all add: desc_on_def)
  then show ?thesis using ok by (simp add: parts_ok_def)
qed

lemma parts_split:
  assumes ok: "parts_ok n ((l, r) # st) ids" and w: "rearr l r ids ids'" and n: "n < length ids"
    and ij: "l + 1 \<le> j" "j < i" "i \<le> r"
    and lo: "\<And>p. l \<le> p \<Longrightarrow> p < i \<Longrightarrow> a \<le> ids' ! p" and hi: "\<And>p. j \<le> p \<Longrightarrow> p \<le> r \<Longrightarrow> ids' ! p \<le> a"
  shows "parts_ok n ((l, j - 1) # (i, r) # st) ids'" "parts_ok n ((i, r) # (l, j - 1) # st) ids'"
proof -
  have lr: "1 \<le> l" "r \<le> n" using ok by (auto simp: parts_ok_def)
  have dis: "r < l' \<or> r' < l" if "(l', r') \<in> set st" for l' r' using ok that by (auto simp: parts_ok_def)
  have ord: "ids' ! q \<le> ids' ! p \<or> in_part ((l, j - 1) # (i, r) # st) p q" if pq: "1 \<le> p" "p < q" "q \<le> n" for p q
  proof (cases "l \<le> p \<and> q \<le> r")
    case False
    then show ?thesis using parts_others [OF ok w n pq] by auto
  next
    case True
    consider "q < j" | "i \<le> p" | "p < i" "j \<le> q" by linarith
    then show ?thesis
    proof cases
      case 1
      then have "q \<le> j - 1" by simp
      then show ?thesis using True by simp
    next
      case 2
      then show ?thesis using True by simp
    next
      case 3
      have "ids' ! q \<le> a" "a \<le> ids' ! p" using 3 True lo hi by auto
      then show ?thesis using order_trans by blast
    qed
  qed
  have st: "sorted_wrt (\<lambda>(l, r) (l', r'). r < l' \<or> r' < l) st" "\<forall>(l, r) \<in> set st. 1 \<le> l \<and> r \<le> n"
    using ok by (auto simp: parts_ok_def)
  have d: "\<forall>(l', r') \<in> set st. j - 1 < l' \<or> r' < l" "\<forall>(l', r') \<in> set st. r < l' \<or> r' < i"
    using dis ij by fastforce+
  show "parts_ok n ((l, j - 1) # (i, r) # st) ids'"
    unfolding parts_ok_def using st ord d lr ij by (simp del: in_part_Cons) linarith
  have "in_part ((i, r) # (l, j - 1) # st) p q = in_part ((l, j - 1) # (i, r) # st) p q" for p q by auto
  then show "parts_ok n ((i, r) # (l, j - 1) # st) ids'"
    unfolding parts_ok_def using st ord d lr ij by (simp del: in_part_Cons) linarith
qed

text \<open>Each part on the stack is at most half of the one below it was: the stack cannot overflow.\<close>

fun fits :: "nat \<Rightarrow> (nat \<times> nat) list \<Rightarrow> bool" where
  "fits n [] \<longleftrightarrow> True"
| "fits n ((l, r) # st) \<longleftrightarrow> (r + 1 - l) * 2 ^ length st \<le> n \<and> fits n st"

lemma fits_split:
  assumes "fits n ((l, r) # st)" and "l + 1 \<le> j" "j < i" "i \<le> r"
  shows "r + 1 - i \<ge> j - l \<Longrightarrow> fits n ((l, j - 1) # (i, r) # st)" "\<not> r + 1 - i \<ge> j - l \<Longrightarrow> fits n ((i, r) # (l, j - 1) # st)"
proof -
  have size: "(r + 1 - l) * 2 ^ length st \<le> n" "fits n st" using assms(1) by simp_all
  have small: "k * 2 ^ length st \<le> n" if "k \<le> r + 1 - l" for k
    using that size(1) by (meson le_trans mult_le_mono1)
  have half: "k * 2 ^ Suc (length st) \<le> n" if "2 * k \<le> r + 1 - l" for k
    using small [OF that] by (simp add: ac_simps)
  show "fits n ((l, j - 1) # (i, r) # st)" if "r + 1 - i \<ge> j - l"
    using that assms(2-4) size(2) small [of "r + 1 - i"] half [of "j - l"] by simp
  show "fits n ((i, r) # (l, j - 1) # st)" if "\<not> r + 1 - i \<ge> j - l"
    using that assms(2-4) size(2) small [of "j - l"] half [of "r + 1 - i"] by simp
qed

lemma fits_stack:
  assumes "fits n ((l, r) # st)" and "l + 8 \<le> r" and "n < 2 ^ 30"
  shows "\<not> 2 * (length st + 1) \<ge> 64"
proof -
  have "8 * 2 ^ length st \<le> (r + 1 - l) * 2 ^ length st" using assms(2) by (intro mult_le_mono1) simp
  also have "\<dots> \<le> n" using assms(1) by simp
  finally have "2 ^ (length st + 3) < (2 :: nat) ^ 30" using assms(3) by (simp add: power_add)
  then show ?thesis by (subst (asm) power_strict_increasing_iff) simp_all
qed

section \<open>The sort\<close>

lemma insertion_part:
  assumes ok: "parts_ok n ((l, r) # st) ids" and n: "n < length ids"
  shows "\<exists>ids'. insertion_sort [l + 1..<r + 1] ids = Some ids' \<and> rearr l r ids ids' \<and> desc_on l r ids'"
proof (cases "l \<le> r")
  case False
  then show ?thesis by (simp add: desc_on_def)
next
  case True
  have lr: "1 \<le> l" "r \<le> n" using ok by (auto simp: parts_ok_def)
  have dis: "r < l' \<or> r' < l" if "(l', r') \<in> set st" for l' r' using ok that by (auto simp: parts_ok_def)
  have "ids ! p \<le> ids ! (l - 1)" if "l \<noteq> 1" "l \<le> p" "p \<le> r" for p
  proof -
    have "1 \<le> l - 1" "l - 1 < p" "p \<le> n" using that lr by auto
    then have "ids ! p \<le> ids ! (l - 1) \<or> in_part ((l, r) # st) (l - 1) p" using ok unfolding parts_ok_def by blast
    moreover have "\<not> in_part st (l - 1) p" using dis that unfolding in_part_def by fastforce
    ultimately show ?thesis using that lr unfolding in_part_Cons by linarith
  qed
  moreover have "desc_on l (l + 1 - 1) ids"
    unfolding desc_on_def by (metis add_diff_cancel_right' dual_order.antisym le_trans order_refl)
  ultimately show ?thesis using True lr n by (intro insertion_sort_ok) auto
qed

lemma sort_loop_ok:
  assumes "parts_ok n ((l, r) # st) ids" and "fits n ((l, r) # st)" and "n < length ids" and "n < 2 ^ 30"
  shows "\<exists>ids'. sort_loop l r st ids = Some ids' \<and> rearr 1 n ids ids' \<and> desc_on 1 n ids'"
  using assms
proof (induction l r st ids rule: sort_loop.induct)
  case (1 l r st ids)
  note ok = "1.prems"(1) and fit = "1.prems"(2) and n = "1.prems"(3,4)
  have lr: "1 \<le> l" "r \<le> n" using ok by (auto simp: parts_ok_def)
  show ?case
  proof (cases "r < l + SMALL")
    case small: True
    obtain ids1 where i: "insertion_sort [l + 1..<r + 1] ids = Some ids1" "rearr l r ids ids1" "desc_on l r ids1"
      using insertion_part [OF ok n(1)] by blast
    have w: "rearr 1 n ids ids1" using rearr_mono [OF i(2)] lr by simp
    have ok1: "parts_ok n st ids1" by (rule parts_sorted [OF ok i(2) n(1) i(3)])
    show ?thesis
    proof (cases st)
      case Nil
      then have "desc_on 1 n ids1" using ok1 by (auto simp: parts_ok_def in_part_def desc_on_def le_less)
      moreover have "sort_loop l r st ids = Some ids1" using small i(1) Nil by (subst sort_loop.simps) (simp del: upt_Suc)
      ultimately show ?thesis using w by blast
    next
      case (Cons lr' st')
      obtain l' r' where p: "(l', r') = lr'" by (cases lr') auto
      have "\<exists>ids'. sort_loop l' r' st' ids1 = Some ids' \<and> rearr 1 n ids1 ids' \<and> desc_on 1 n ids'"
        by (rule "1.IH"(1) [OF small i(1) Cons p]) (use ok1 fit n rearr_length [OF w] in \<open>simp_all add: Cons p\<close>)
      moreover have "sort_loop l r st ids = sort_loop l' r' st' ids1" using small i(1) Cons p [symmetric] by (subst sort_loop.simps) (simp del: upt_Suc)
      ultimately show ?thesis using rearr_trans [OF w] by auto
    qed
  next
    case big: False
    then have r8: "l + 8 \<le> r" by (simp add: SMALL_def)
    obtain i j ids1 a where q: "quick_step l r ids = Some (i, j, ids1)" "rearr l r ids ids1" "l + 1 \<le> j" "j < i" "i \<le> r"
      and lo: "\<And>p. l \<le> p \<Longrightarrow> p < i \<Longrightarrow> a \<le> ids1 ! p" and hi: "\<And>p. j \<le> p \<Longrightarrow> p \<le> r \<Longrightarrow> ids1 ! p \<le> a"
      using quick_step_ok [OF lr(1) r8 le_less_trans [OF lr(2) n(1)]] by blast
    have w: "rearr 1 n ids ids1" using rearr_mono [OF q(2)] lr by simp
    have sum: "\<not> l + r \<ge> 2 ^ 31" using lr(2) r8 n(2) by simp
    have stk: "\<not> 2 * (length st + 1) \<ge> 64" by (rule fits_stack [OF fit r8 n(2)])
    note parts = parts_split [OF ok q(2) n(1) q(3-5) lo hi] and fs = fits_split [OF fit q(3-5)]
    show ?thesis
    proof (cases "r + 1 - i \<ge> j - l")
      case True
      have "\<exists>ids'. sort_loop l (j - 1) ((i, r) # st) ids1 = Some ids' \<and> rearr 1 n ids1 ids' \<and> desc_on 1 n ids'"
        by (rule "1.IH"(2) [OF big sum q(1) refl refl stk True parts(1) fs(1) [OF True]]) (use n rearr_length [OF w] in auto)
      moreover have "sort_loop l r st ids = sort_loop l (j - 1) ((i, r) # st) ids1"
        using big sum q(1) stk True by (subst sort_loop.simps) simp
      ultimately show ?thesis using rearr_trans [OF w] by auto
    next
      case False
      have "\<exists>ids'. sort_loop i r ((l, j - 1) # st) ids1 = Some ids' \<and> rearr 1 n ids1 ids' \<and> desc_on 1 n ids'"
        by (rule "1.IH"(3) [OF big sum q(1) refl refl stk False parts(2) fs(2) [OF False]]) (use n rearr_length [OF w] in auto)
      moreover have "sort_loop l r st ids = sort_loop i r ((l, j - 1) # st) ids1"
        using big sum q(1) stk False by (subst sort_loop.simps) simp
      ultimately show ?thesis using rearr_trans [OF w] by auto
    qed
  qed
qed

text \<open>
  (C35) The sort of an ID list returns, for every list of fewer than \<open>2 ^ 30\<close> entries: it never reads
  or writes outside the counted entries and never overflows its stack of 64 cells. The result is a
  permutation of the list in descending order; the count and everything behind the list are untouched.
\<close>

theorem mdb_midl_sort_sorts:
  assumes n: "n = unat (ids ! 0)" "n < length ids" "n < 2 ^ 30"
  shows "\<exists>ids'. mdb_midl_sort ids = Some ids' \<and> desc n ids' \<and> mset ids' = mset ids \<and> length ids' = length ids \<and> ids' ! 0 = ids ! 0
     \<and> (\<forall>p. n < p \<longrightarrow> p < length ids \<longrightarrow> ids' ! p = ids ! p)"
proof -
  have "uint (ids ! 0) = int n" unfolding n(1) by (rule uint_nat)
  then have c: "nat (c_int (uint (ids ! 0))) = n" using n(3) by simp
  have "parts_ok n [(1, n)] ids" by (auto simp: parts_ok_def)
  then obtain ids' where "sort_loop 1 n [] ids = Some ids'" "rearr 1 n ids ids'" "desc_on 1 n ids'"
    using sort_loop_ok [of n 1 n "[]" ids] n by auto
  moreover have "rd ids 0 = Some (ids ! 0)" using n(2) by auto
  moreover have "0 < length ids" using n(2) by linarith
  then have "ids' ! 0 = ids ! 0" using rearr_out [OF calculation(2), of 0] by simp
  ultimately show ?thesis using c by (simp add: mdb_midl_sort_def rearr_def desc_def desc_on_def)
qed

text \<open>A list of ten entries, above the limit for insertion sort, and the operations that use its order.\<close>

theorem mdb_midl_sort_sorts_witness:
  "\<exists>ids'. mdb_midl_sort [10, 3, 9, 4, 1, 8, 2, 7, 5, 6, 10, 77] = Some ids' \<and> desc 10 ids' \<and> ids' ! 0 = 10 \<and> ids' ! 11 = 77"
  using mdb_midl_sort_sorts [of 10 "[10, 3, 9, 4, 1, 8, 2, 7, 5, 6, 10, 77]"] by fastforce

theorem mdb_midl_search_finds_witness:
  "\<exists>c. mdb_midl_search [3, 9, 5, 2] 5 = Some c \<and> 1 \<le> c \<and> (c \<le> 3 \<and> [3, 9, 5, 2 :: u64] ! c = 5 \<or> c \<le> 4)"
proof -
  have "desc 3 [3, 9, 5, 2]" by (auto simp: desc_def numeral_3_eq_3 le_Suc_eq)
  then show ?thesis using mdb_midl_search_finds [of 3 "[3, 9, 5, 2]" 5] by fastforce
qed

definition demo_pairs :: "id2 list" where
  "demo_pairs = [\<lparr>mid = 1, mptr = 0\<rparr>, \<lparr>mid = 5, mptr = 8\<rparr>, \<lparr>mid = 0, mptr = 0\<rparr>]"

theorem mdb_mid2l_insert_sorted_witness:
  "\<exists>ids' x. mdb_mid2l_insert demo_pairs \<lparr>mid = 3, mptr = 9\<rparr> = Some (0, ids') \<and> asc2 2 ids' \<and> mdb_mid2l_search ids' 3 = Some x"
proof -
  have "asc2 1 demo_pairs" "1 = unat (mid (demo_pairs ! 0))" "1 + 1 < length demo_pairs" "1 < MDB_IDL_UM_MAX"
    by (auto simp: asc2_def demo_pairs_def MDB_IDL_UM_MAX_def)
  note ins = mdb_mid2l_insert_sorted [OF this(2-4,1), of "\<lparr>mid = 3, mptr = 9\<rparr>"]
  have no: "\<not> (\<exists>p. 1 \<le> p \<and> p \<le> 1 \<and> mid (demo_pairs ! p) = mid \<lparr>mid = 3, mptr = 9\<rparr>)" by (auto simp: le_Suc_eq demo_pairs_def)
  have "1 + 1 = (2 :: nat)" "mid \<lparr>mid = 3, mptr = 9\<rparr> = 3" by simp_all
  with ins [unfolded if_not_P [OF no]] show ?thesis by metis
qed

theorem idl_operations_typed_witness:
  "(\<exists>l'. mdb_midl_append (\<lambda>_. 0) True 7 \<lparr>il_cap = 1, il_ids = [1, 9]\<rparr> = Some (0, l') \<and> idl_ok l' \<and> entries l' = [9, 7])
     \<and> mdb_midl_append (\<lambda>_. 0) False 7 \<lparr>il_cap = 1, il_ids = [1, 9]\<rparr> = Some (ENOMEM, \<lparr>il_cap = 1, il_ids = [1, 9]\<rparr>)"
  using idl_operations_typed [of "\<lparr>il_cap = 1, il_ids = [1, 9]\<rparr>" 0 "[0]" 0 0 0 "\<lambda>_. 0" True 7]
    idl_operations_typed [of "\<lparr>il_cap = 1, il_ids = [1, 9]\<rparr>" 0 "[0]" 0 0 0 "\<lambda>_. 0" False 7]
  by (auto simp: idl_ok_def room_def entries_def stores_def)

theorem shrink_then_append_overruns_witness:
  "\<exists>l'. mdb_midl_shrink (\<lambda>_. 0) True \<lparr>il_cap = 200000, il_ids = [0]\<rparr> = (1, l') \<and> \<not> idl_ok l'"
  using shrink_then_append_overruns [of "\<lparr>il_cap = 200000, il_ids = [0]\<rparr>" "\<lambda>_. 0" "\<lambda>_. 0" True 1]
  by (auto simp: MDB_IDL_UM_MAX_def)

end
