(* ===== verification/Msgpack.thy ===== *)
theory Msgpack
  imports Table_Str
begin

text \<open>
  MessagePack (\<open>lua_cmsgpack.c\<close>), for the 64-bit targets and Lua 5.1: the string buffer, packing of Lua values and
  unpacking with a cursor. Lua numbers are finite; the floating-point formats are parameters. Tables are plain ones
  (no metatables); a table that is reached through itself behaves as its unfolding, of which packing only sees the first
  sixteen levels. \<open>None\<close> is an access through \<open>NULL\<close>, outside a block or outside the Lua stack.
\<close>

section \<open>Floating point and bytes\<close>

text \<open>
  The machine: byte order, \<open>double\<close> and \<open>float\<close>. \<open>fp_double\<close> rounds a number to the nearest \<open>double\<close>,
  \<open>fp_single\<close> converts to \<open>float\<close> (\<open>None\<close> when that is infinite), the others are the memory images.
\<close>

record fp_api =
  fp_little :: bool
  fp_double :: "rat \<Rightarrow> rat"
  fp_single :: "rat \<Rightarrow> rat option"
  fp_single_bytes :: "rat \<Rightarrow> bytes"
  fp_double_bytes :: "rat \<Rightarrow> bytes"
  fp_single_of :: "bytes \<Rightarrow> rat"
  fp_double_of :: "bytes \<Rightarrow> rat"

text \<open>\<open>memrevifle\<close>: \<open>p\<close> and \<open>e\<close> move towards each other, \<open>len / 2\<close> times.\<close>

fun memrev :: "nat \<Rightarrow> nat \<Rightarrow> nat \<Rightarrow> 'a list \<Rightarrow> 'a list" where
  "memrev 0 p e xs = xs"
| "memrev (Suc len) p e xs = memrev len (p + 1) (e - 1) (xs[p := xs ! e, e := xs ! p])"

definition memrevifle :: "fp_api \<Rightarrow> bytes \<Rightarrow> bytes" where
  "memrevifle fp xs = (if \<not> fp_little fp then xs else memrev (length xs div 2) 0 (length xs - 1) xs)"

text \<open>\<open>(n & (0xff << k)) >> k\<close> stored in an \<open>unsigned char\<close>; a byte read, shifted to its place.\<close>

definition byte_of :: "int \<Rightarrow> nat \<Rightarrow> char" where
  "byte_of n k = char_of (drop_bit k (n AND push_bit k 0xff))"

definition u8 :: "bytes \<Rightarrow> nat \<Rightarrow> int" where
  "u8 c i = of_char (c ! i)"

definition IS_INT64_EQUIVALENT :: "rat \<Rightarrow> bool" where
  "IS_INT64_EQUIVALENT x = (of_int (int64_of_number x) = x)"

definition IS_INT_EQUIVALENT :: "rat \<Rightarrow> bool" where
  "IS_INT_EQUIVALENT x = (of_int (int_of_number x) = x)"

section \<open>The string buffer\<close>

text \<open>
  \<open>mb_b\<close> is the allocated block. The allocator is a parameter: whether it has \<open>n\<close> bytes, and what fresh bytes hold.
\<close>

record mp_buf =
  mb_b :: "bytes option"
  mb_len :: u64
  mb_free :: u64

record mem_api =
  mem_ok :: "nat \<Rightarrow> bool"
  mem_junk :: "nat \<Rightarrow> char"

definition mp_realloc :: "mem_api \<Rightarrow> bytes option \<Rightarrow> nat \<Rightarrow> bytes option" where
  "mp_realloc mem target nsize = (if mem_ok mem nsize
     then let b = (case target of None \<Rightarrow> [] | Some b \<Rightarrow> b) in Some (take nsize b @ map (mem_junk mem) [length b..<nsize])
     else None)"

definition mp_buf_new :: "mem_api \<Rightarrow> mp_buf option" where
  "mp_buf_new mem = (if mem_ok mem 32 then Some \<lparr>mb_b = None, mb_len = 0, mb_free = 0\<rparr> else None)"

definition memcpy_to :: "bytes option \<Rightarrow> nat \<Rightarrow> bytes \<Rightarrow> bytes option option" where
  "memcpy_to b off s = (case b of
     None \<Rightarrow> if s = [] then Some None else None
   | Some xs \<Rightarrow> if off + length s \<le> length xs then Some (Some (take off xs @ s @ drop (off + length s) xs)) else None)"

definition mp_buf_append :: "mem_api \<Rightarrow> bytes \<Rightarrow> mp_buf \<Rightarrow> mp_buf option" where
  "mp_buf_append mem s buf = do {
     let len = of_nat (length s);
     let buf = (if mb_free buf < len
       then let newlen = mb_len buf + len
            in buf\<lparr>mb_b := mp_realloc mem (mb_b buf) (unat (newlen * 2)), mb_free := newlen\<rparr>
       else buf);
     b \<leftarrow> memcpy_to (mb_b buf) (unat (mb_len buf)) s;
     Some (buf\<lparr>mb_b := b, mb_len := mb_len buf + len, mb_free := mb_free buf - len\<rparr>) }"

section \<open>Low level encoding\<close>

definition bytes_hdr :: "int \<Rightarrow> bytes" where
  "bytes_hdr len =
     (if len < 32 then [char_of (0xa0 OR (len AND 0xff))]
      else if len \<le> 0xffff then [CHR 0xda, byte_of len 8, byte_of len 0]
      else [CHR 0xdb, byte_of len 24, byte_of len 16, byte_of len 8, byte_of len 0])"

definition mp_encode_bytes :: "mem_api \<Rightarrow> bytes \<Rightarrow> mp_buf \<Rightarrow> mp_buf option" where
  "mp_encode_bytes mem s buf = do {
     buf \<leftarrow> mp_buf_append mem (bytes_hdr (int (length s))) buf;
     mp_buf_append mem s buf }"

definition double_enc :: "fp_api \<Rightarrow> rat \<Rightarrow> bytes" where
  "double_enc fp d = (if fp_single fp d = Some d then CHR 0xca # memrevifle fp (fp_single_bytes fp d)
     else CHR 0xcb # memrevifle fp (fp_double_bytes fp d))"

definition mp_encode_double :: "mem_api \<Rightarrow> fp_api \<Rightarrow> rat \<Rightarrow> mp_buf \<Rightarrow> mp_buf option" where
  "mp_encode_double mem fp d buf = mp_buf_append mem (double_enc fp d) buf"

definition int_enc :: "int \<Rightarrow> bytes" where
  "int_enc n =
     (if n \<ge> 0 then
        if n \<le> 127 then [char_of (n AND 0x7f)]
        else if n \<le> 0xff then [CHR 0xcc, byte_of n 0]
        else if n \<le> 0xffff then [CHR 0xcd, byte_of n 8, byte_of n 0]
        else if n \<le> 0xffffffff then [CHR 0xce, byte_of n 24, byte_of n 16, byte_of n 8, byte_of n 0]
        else [CHR 0xcf, byte_of n 56, byte_of n 48, byte_of n 40, byte_of n 32, byte_of n 24, byte_of n 16, byte_of n 8, byte_of n 0]
      else
        if n \<ge> - 32 then [char_of n]
        else if n \<ge> - 128 then [CHR 0xd0, byte_of n 0]
        else if n \<ge> - 32768 then [CHR 0xd1, byte_of n 8, byte_of n 0]
        else if n \<ge> - 2147483648 then [CHR 0xd2, byte_of n 24, byte_of n 16, byte_of n 8, byte_of n 0]
        else [CHR 0xd3, byte_of n 56, byte_of n 48, byte_of n 40, byte_of n 32, byte_of n 24, byte_of n 16, byte_of n 8, byte_of n 0])"

definition mp_encode_int :: "mem_api \<Rightarrow> int \<Rightarrow> mp_buf \<Rightarrow> mp_buf option" where
  "mp_encode_int mem n buf = mp_buf_append mem (int_enc n) buf"

definition array_hdr :: "int \<Rightarrow> bytes" where
  "array_hdr n =
     (if n \<le> 15 then [char_of (0x90 OR (n AND 0xf))]
      else if n \<le> 65535 then [CHR 0xdc, byte_of n 8, byte_of n 0]
      else [CHR 0xdd, byte_of n 24, byte_of n 16, byte_of n 8, byte_of n 0])"

definition mp_encode_array :: "mem_api \<Rightarrow> int \<Rightarrow> mp_buf \<Rightarrow> mp_buf option" where
  "mp_encode_array mem n buf = mp_buf_append mem (array_hdr n) buf"

definition map_hdr :: "int \<Rightarrow> bytes" where
  "map_hdr n =
     (if n \<le> 15 then [char_of (0x80 OR (n AND 0xf))]
      else if n \<le> 65535 then [CHR 0xde, byte_of n 8, byte_of n 0]
      else [CHR 0xdf, byte_of n 24, byte_of n 16, byte_of n 8, byte_of n 0])"

definition mp_encode_map :: "mem_api \<Rightarrow> int \<Rightarrow> mp_buf \<Rightarrow> mp_buf option" where
  "mp_encode_map mem n buf = mp_buf_append mem (map_hdr n) buf"

section \<open>Encoding Lua values\<close>

definition mp_encode_lua_bool :: "mem_api \<Rightarrow> bool \<Rightarrow> mp_buf \<Rightarrow> mp_buf option" where
  "mp_encode_lua_bool mem b buf = mp_buf_append mem [if b then CHR 0xc3 else CHR 0xc2] buf"

definition mp_encode_lua_null :: "mem_api \<Rightarrow> mp_buf \<Rightarrow> mp_buf option" where
  "mp_encode_lua_null mem buf = mp_buf_append mem [CHR 0xc0] buf"

definition mp_encode_lua_integer :: "mem_api \<Rightarrow> rat \<Rightarrow> mp_buf \<Rightarrow> mp_buf option" where
  "mp_encode_lua_integer mem n buf = mp_encode_int mem (int64_of_number n) buf"

definition mp_encode_lua_number :: "mem_api \<Rightarrow> fp_api \<Rightarrow> rat \<Rightarrow> mp_buf \<Rightarrow> mp_buf option" where
  "mp_encode_lua_number mem fp n buf =
     (if IS_INT64_EQUIVALENT n then mp_encode_lua_integer mem n buf else mp_encode_double mem fp n buf)"

text \<open>
  \<open>table_is_an_array\<close>; tables have fewer than \<open>2 ^ 31\<close> entries, so \<open>count\<close> does not overflow. \<open>lua_objlen\<close> of a
  table is one of its borders; the first is the only one of the tables it is asked for.
\<close>

fun array_scan :: "(lua_value \<times> lua_value) list \<Rightarrow> int \<Rightarrow> int \<Rightarrow> bool" where
  "array_scan [] count mx = (mx = count)"
| "array_scan ((LNumber n, v) # kvs) count mx =
     (if n \<le> 0 \<or> \<not> IS_INT_EQUIVALENT n then False else array_scan kvs (count + 1) (max_step n mx))"
| "array_scan ((k, v) # kvs) count mx = False"

definition table_is_an_array :: "(lua_value \<times> lua_value) list \<Rightarrow> bool" where
  "table_is_an_array kvs = array_scan kvs 0 0"

definition lua_objlen :: "(lua_value \<times> lua_value) list \<Rightarrow> int" where
  "lua_objlen kvs = int (length (takeWhile (\<lambda>j. rawgeti kvs j \<noteq> LNil) [1..int (length kvs)]))"

text \<open>
  The Lua stack. A C function may use \<open>LUA_MINSTACK\<close> slots beyond its arguments; nothing here asks for more, so pushing a value
  into a further slot is undefined. \<open>h\<close> is the slot of the value to be encoded, counted from the arguments. While
  a map is encoded its key and value stay in two slots above the table, and the copy of the key is encoded in a third.
\<close>

definition LUA_MINSTACK :: nat where "LUA_MINSTACK = 20"

definition entries_at :: "nat \<Rightarrow> (lua_value \<times> lua_value) list \<Rightarrow> (nat \<times> lua_value) list" where
  "entries_at h kvs = concat (map (\<lambda>(k, v). [(h + 3, k), (h + 2, v)]) kvs)"

definition LUACMSGPACK_MAX_NESTING :: nat where "LUACMSGPACK_MAX_NESTING = 16"

text \<open>
  The recursion. \<open>left\<close> is \<open>LUACMSGPACK_MAX_NESTING - level\<close>, so the test \<open>level == LUACMSGPACK_MAX_NESTING\<close>
  is \<open>left = 0\<close>. \<open>table_is_an_array\<close> needs a slot for the first key and, unless the table is empty, one for a value.
  \<open>mp_encode_values\<close> is the loop over the elements of an array, and over the keys and values of a map.
\<close>

function mp_encode_lua_type :: "mem_api \<Rightarrow> fp_api \<Rightarrow> nat \<Rightarrow> nat \<Rightarrow> lua_value \<Rightarrow> mp_buf \<Rightarrow> mp_buf option"
  and mp_encode_lua_table :: "mem_api \<Rightarrow> fp_api \<Rightarrow> nat \<Rightarrow> nat \<Rightarrow> (lua_value \<times> lua_value) list \<Rightarrow> mp_buf \<Rightarrow> mp_buf option"
  and mp_encode_values :: "mem_api \<Rightarrow> fp_api \<Rightarrow> nat \<Rightarrow> (nat \<times> lua_value) list \<Rightarrow> mp_buf \<Rightarrow> mp_buf option" where
  "mp_encode_lua_type mem fp left h v buf =
     (if h > LUA_MINSTACK then None
      else case v of
        LString s \<Rightarrow> mp_encode_bytes mem s buf
      | LBool b \<Rightarrow> mp_encode_lua_bool mem b buf
      | LNumber n \<Rightarrow> mp_encode_lua_number mem fp n buf
      | LTable kvs \<Rightarrow>
          (case left of 0 \<Rightarrow> mp_encode_lua_null mem buf | Suc left' \<Rightarrow> mp_encode_lua_table mem fp left' h kvs buf)
      | _ \<Rightarrow> mp_encode_lua_null mem buf)"
| "mp_encode_lua_table mem fp left h kvs buf =
     (if h + (if kvs = [] then 1 else 2) > LUA_MINSTACK then None
      else if table_is_an_array kvs then
        (case mp_encode_array mem (lua_objlen kvs) buf of
           None \<Rightarrow> None | Some buf' \<Rightarrow> mp_encode_values mem fp left (map (Pair (h + 1)) (rawgetis kvs (lua_objlen kvs))) buf')
      else
        (case mp_encode_map mem (int (length kvs)) buf of
           None \<Rightarrow> None | Some buf' \<Rightarrow> mp_encode_values mem fp left (entries_at h kvs) buf'))"
| "mp_encode_values mem fp left hvs buf =
     (case hvs of
        [] \<Rightarrow> Some buf
      | (h, v) # hvs' \<Rightarrow> (case mp_encode_lua_type mem fp left h v buf of None \<Rightarrow> None | Some buf' \<Rightarrow> mp_encode_values mem fp left hvs' buf'))"
  by pat_completeness auto
termination
  by (relation "measures [\<lambda>x. case x of Inl (_, _, left, _) \<Rightarrow> 2 * left | Inr (Inl (_, _, left, _)) \<Rightarrow> 2 * left + 1
      | Inr (Inr (_, _, left, _)) \<Rightarrow> 2 * left, \<lambda>x. case x of Inr (Inr (_, _, _, vs, _)) \<Rightarrow> length vs | _ \<Rightarrow> 0]") auto

declare mp_encode_lua_type.simps [simp del] mp_encode_lua_table.simps [simp del] mp_encode_values.simps [simp del]

text \<open>The loop over the arguments; \<open>h\<close> strings are on the stack already.\<close>

fun pack_loop :: "mem_api \<Rightarrow> fp_api \<Rightarrow> nat \<Rightarrow> lua_value list \<Rightarrow> mp_buf \<Rightarrow> bytes option" where
  "pack_loop mem fp h [] buf = Some []"
| "pack_loop mem fp h (v # vs) buf = do {
     buf \<leftarrow> mp_encode_lua_type mem fp LUACMSGPACK_MAX_NESTING (h + 1) v buf;
     b \<leftarrow> mb_b buf;
     rest \<leftarrow> pack_loop mem fp (h + 1) vs (buf\<lparr>mb_free := mb_free buf + mb_len buf, mb_len := 0\<rparr>);
     Some (take (unat (mb_len buf)) b @ rest) }"

definition mp_pack :: "mem_api \<Rightarrow> fp_api \<Rightarrow> lua_value list \<Rightarrow> lua_ret option" where
  "mp_pack mem fp st =
     (if st = [] then Some (Raise ''MessagePack pack needs input.'')
      else do {
        buf \<leftarrow> mp_buf_new mem;
        s \<leftarrow> pack_loop mem fp 0 st buf;
        Some (Ret [LString s]) })"

section \<open>Decoding\<close>

text \<open>
  The cursor is the string that is left. A call ends with a value and the cursor behind it, with one of the errors of
  the cursor, or with a Lua error. Integers are pushed as \<open>double\<close>.
\<close>

datatype 'a decoded = Done 'a bytes | Eof | Badfmt | Raised string

definition pushinteger :: "fp_api \<Rightarrow> int \<Rightarrow> lua_value" where
  "pushinteger fp i = LNumber (fp_double fp (of_int i))"

text \<open>\<open>mp_cur_need\<close>: return with the error unless \<open>n\<close> bytes are left.\<close>

definition mp_cur_need :: "nat \<Rightarrow> bytes \<Rightarrow> 'a decoded \<Rightarrow> 'a decoded" where
  "mp_cur_need n c r = (if length c < n then Eof else r)"

text \<open>
  The switch on the first byte: a whole value, or the header of an array or a map with the number of its elements.
\<close>

datatype mp_item = Value lua_value | Array nat | Hash nat

definition be16_at :: "bytes \<Rightarrow> int" where
  "be16_at c = push_bit 8 (u8 c 1) OR u8 c 2"

definition be32_at :: "bytes \<Rightarrow> int" where
  "be32_at c = push_bit 24 (u8 c 1) OR push_bit 16 (u8 c 2) OR push_bit 8 (u8 c 3) OR u8 c 4"

definition be64_at :: "bytes \<Rightarrow> int" where
  "be64_at c = push_bit 56 (u8 c 1) OR push_bit 48 (u8 c 2) OR push_bit 40 (u8 c 3) OR push_bit 32 (u8 c 4)
     OR push_bit 24 (u8 c 5) OR push_bit 16 (u8 c 6) OR push_bit 8 (u8 c 7) OR u8 c 8"

definition raw_at :: "nat \<Rightarrow> nat \<Rightarrow> bytes \<Rightarrow> mp_item decoded" where
  "raw_at off l c = mp_cur_need (off + l) c (Done (Value (LString (take l (drop off c)))) (drop (off + l) c))"

definition decode_other :: "fp_api \<Rightarrow> bytes \<Rightarrow> mp_item decoded" where
  "decode_other fp c = (let b = u8 c 0 in
     if b AND 0x80 = 0 then Done (Value (pushinteger fp b)) (drop 1 c)
     else if b AND 0xe0 = 0xe0 then Done (Value (pushinteger fp (signed_take_bit 7 b))) (drop 1 c)
     else if b AND 0xe0 = 0xa0 then raw_at 1 (nat (b AND 0x1f)) c
     else if b AND 0xf0 = 0x90 then Done (Array (nat (b AND 0xf))) (drop 1 c)
     else if b AND 0xf0 = 0x80 then Done (Hash (nat (b AND 0xf))) (drop 1 c)
     else Badfmt)"

definition decode_item :: "fp_api \<Rightarrow> bytes \<Rightarrow> mp_item decoded" where
  "decode_item fp c = (let b = u8 c 0; num = (\<lambda>n i. mp_cur_need n c (Done (Value (pushinteger fp i)) (drop n c))) in
     if b = 0xcc then num 2 (u8 c 1)
     else if b = 0xd0 then num 2 (signed_take_bit 7 (u8 c 1))
     else if b = 0xcd then num 3 (be16_at c)
     else if b = 0xd1 then num 3 (signed_take_bit 15 (push_bit 8 (u8 c 1)) OR u8 c 2)
     else if b = 0xce then num 5 (be32_at c)
     else if b = 0xd2 then num 5 (signed_take_bit 31 (be32_at c))
     else if b = 0xcf then num 9 (signed_take_bit 63 (be64_at c))
     else if b = 0xd3 then num 9 (signed_take_bit 63 (be64_at c))
     else if b = 0xc0 then Done (Value LNil) (drop 1 c)
     else if b = 0xc3 then Done (Value (LBool True)) (drop 1 c)
     else if b = 0xc2 then Done (Value (LBool False)) (drop 1 c)
     else if b = 0xca then mp_cur_need 5 c (Done (Value (LNumber (fp_single_of fp (memrevifle fp (take 4 (drop 1 c)))))) (drop 5 c))
     else if b = 0xcb then mp_cur_need 9 c (Done (Value (LNumber (fp_double_of fp (memrevifle fp (take 8 (drop 1 c)))))) (drop 9 c))
     else if b = 0xda then mp_cur_need 3 c (raw_at 3 (nat (be16_at c)) c)
     else if b = 0xdb then mp_cur_need 5 c (raw_at 5 (nat (be32_at c)) c)
     else if b = 0xdc then mp_cur_need 3 c (Done (Array (nat (be16_at c))) (drop 3 c))
     else if b = 0xdd then mp_cur_need 5 c (Done (Array (nat (be32_at c))) (drop 5 c))
     else if b = 0xde then mp_cur_need 3 c (Done (Hash (nat (be16_at c))) (drop 3 c))
     else if b = 0xdf then mp_cur_need 5 c (Done (Hash (nat (be32_at c))) (drop 5 c))
     else decode_other fp c)"

text \<open>
  \<open>lua_settable\<close> on a fresh table: a \<open>nil\<close> key is an error, a \<open>nil\<close> value removes the key. A decoded table that
  is used as a key is a new object and equal to no other key.
\<close>

definition same_key :: "lua_value \<Rightarrow> lua_value \<Rightarrow> bool" where
  "same_key k k' = (case k of LTable _ \<Rightarrow> False | _ \<Rightarrow> k = k')"

fun put_key :: "lua_value \<Rightarrow> lua_value \<Rightarrow> (lua_value \<times> lua_value) list \<Rightarrow> (lua_value \<times> lua_value) list" where
  "put_key k v [] = [(k, v)]"
| "put_key k v ((k', v') # kvs) = (if same_key k k' then (k, v) # kvs else (k', v') # put_key k v kvs)"

definition lua_settable :: "lua_value \<Rightarrow> lua_value \<Rightarrow> (lua_value \<times> lua_value) list \<Rightarrow> (lua_value \<times> lua_value) list decoded" where
  "lua_settable k v kvs =
     (if k = LNil then Raised ''table index is nil''
      else if v = LNil then Done (filter (\<lambda>(k', _). \<not> same_key k k') kvs) []
      else Done (put_key k v kvs) [])"

text \<open>
  The decoder with the height \<open>h\<close> of the Lua stack at the call. \<open>luaL_checkstack\<close> raises an error when more than
  \<open>LUAI_MAXCSTACK\<close> slots would be in use; this bounds the recursion.
\<close>

definition too_many :: string where
  "too_many = ''stack overflow (too many return values at once; use unpack_one or unpack_limit instead.)''"

function mp_decode_to_lua_type :: "fp_api \<Rightarrow> nat \<Rightarrow> bytes \<Rightarrow> lua_value decoded"
  and mp_decode_to_lua_array :: "fp_api \<Rightarrow> nat \<Rightarrow> int \<Rightarrow> (lua_value \<times> lua_value) list \<Rightarrow> nat \<Rightarrow> bytes \<Rightarrow> lua_value decoded"
  and mp_decode_to_lua_hash :: "fp_api \<Rightarrow> nat \<Rightarrow> (lua_value \<times> lua_value) list \<Rightarrow> nat \<Rightarrow> bytes \<Rightarrow> lua_value decoded" where
  "mp_decode_to_lua_type fp h c = mp_cur_need 1 c
     (if h + 1 > LUAI_MAXCSTACK then Raised too_many
      else case decode_item fp c of
        Done (Value v) c' \<Rightarrow> Done v c'
      | Done (Array l) c' \<Rightarrow> mp_decode_to_lua_array fp (h + 1) 1 [] l c'
      | Done (Hash l) c' \<Rightarrow> mp_decode_to_lua_hash fp (h + 1) [] l c'
      | Eof \<Rightarrow> Eof | Badfmt \<Rightarrow> Badfmt | Raised e \<Rightarrow> Raised e)"
| "mp_decode_to_lua_array fp h index kvs len c =
     (case len of
        0 \<Rightarrow> Done (LTable kvs) c
      | Suc len' \<Rightarrow>
          (case mp_decode_to_lua_type fp (h + 1) c of
             Done v c' \<Rightarrow>
               (case lua_settable (LNumber (of_int index)) v kvs of
                  Done kvs' _ \<Rightarrow> mp_decode_to_lua_array fp h (c_int (index + 1)) kvs' len' c'
                | Raised e \<Rightarrow> Raised e | Eof \<Rightarrow> Eof | Badfmt \<Rightarrow> Badfmt)
           | Eof \<Rightarrow> Eof | Badfmt \<Rightarrow> Badfmt | Raised e \<Rightarrow> Raised e))"
| "mp_decode_to_lua_hash fp h kvs len c =
     (case len of
        0 \<Rightarrow> Done (LTable kvs) c
      | Suc len' \<Rightarrow>
          (case mp_decode_to_lua_type fp h c of
             Done k c1 \<Rightarrow>
               (case mp_decode_to_lua_type fp (h + 1) c1 of
                  Done v c2 \<Rightarrow>
                    (case lua_settable k v kvs of
                       Done kvs' _ \<Rightarrow> mp_decode_to_lua_hash fp h kvs' len' c2
                     | Raised e \<Rightarrow> Raised e | Eof \<Rightarrow> Eof | Badfmt \<Rightarrow> Badfmt)
                | Eof \<Rightarrow> Eof | Badfmt \<Rightarrow> Badfmt | Raised e \<Rightarrow> Raised e)
           | Eof \<Rightarrow> Eof | Badfmt \<Rightarrow> Badfmt | Raised e \<Rightarrow> Raised e))"
  by pat_completeness auto
termination
  by (relation "measures [\<lambda>x. case x of Inl (_, h, _) \<Rightarrow> LUAI_MAXCSTACK + 1 - h
        | Inr (Inl (_, h, _)) \<Rightarrow> LUAI_MAXCSTACK + 1 - h | Inr (Inr (_, h, _)) \<Rightarrow> LUAI_MAXCSTACK + 1 - h,
      \<lambda>x. case x of Inl _ \<Rightarrow> 0 | Inr (Inl (_, _, _, _, len, _)) \<Rightarrow> len + 1 | Inr (Inr (_, _, _, len, _)) \<Rightarrow> len + 1]") auto

declare mp_decode_to_lua_type.simps [simp del] mp_decode_to_lua_array.simps [simp del] mp_decode_to_lua_hash.simps [simp del]

section \<open>Unpacking\<close>

text \<open>The arguments.\<close>

text \<open>The loop of \<open>mp_unpack_full\<close>: at most \<open>k\<close> more values.\<close>

fun unpack_loop :: "fp_api \<Rightarrow> nat \<Rightarrow> nat \<Rightarrow> bytes \<Rightarrow> string + lua_value list \<times> bytes" where
  "unpack_loop fp h k c =
     (if c = [] \<or> k = 0 then Inr ([], c)
      else case mp_decode_to_lua_type fp h c of
        Done v c' \<Rightarrow> (case unpack_loop fp (h + 1) (k - 1) c' of Inl e \<Rightarrow> Inl e | Inr (vs, r) \<Rightarrow> Inr (v # vs, r))
      | Eof \<Rightarrow> Inl ''Missing bytes in input.''
      | Badfmt \<Rightarrow> Inl ''Bad data format in input.''
      | Raised e \<Rightarrow> Inl e)"

declare unpack_loop.simps [simp del]

definition mp_unpack_full :: "lua_lib \<Rightarrow> fp_api \<Rightarrow> int \<Rightarrow> int \<Rightarrow> lua_value list \<Rightarrow> lua_ret" where
  "mp_unpack_full lib fp limit offset st =
     (let decode_all = (limit = 0 \<and> offset = 0) in
      case luaL_checklstring lib st 1 of
        Inl e \<Rightarrow> Raise e
      | Inr s \<Rightarrow>
          if offset < 0 \<or> limit < 0
          then Raise (''Invalid request to unpack with offset of '' @ d_string offset @ '' and limit of '' @ d_string (c_int (int (length s))) @ ''.'')
          else if offset > int (length s)
          then Raise (''Start offset '' @ d_string offset @ '' greater than input length '' @ d_string (c_int (int (length s))) @ ''.'')
          else
            let limit = (if decode_all then 2 ^ 31 - 1 else limit) in
            case unpack_loop fp (length st) (nat limit) (drop (nat offset) s) of
              Inl e \<Rightarrow> Raise e
            | Inr (vs, c) \<Rightarrow>
                if decode_all then Ret vs
                else Ret (pushinteger fp (if c = [] then - 1 else c_int (int (length s) - int (length c))) # vs))"

definition mp_unpack :: "lua_lib \<Rightarrow> fp_api \<Rightarrow> lua_value list \<Rightarrow> lua_ret" where
  "mp_unpack lib fp st = mp_unpack_full lib fp 0 0 st"

definition mp_unpack_one :: "lua_lib \<Rightarrow> fp_api \<Rightarrow> lua_value list \<Rightarrow> lua_ret" where
  "mp_unpack_one lib fp st =
     (case luaL_optinteger lib st 2 0 of
        Inl e \<Rightarrow> Raise e
      | Inr offset \<Rightarrow> mp_unpack_full lib fp 1 (c_int offset) (take 1 st))"

definition mp_unpack_limit :: "lua_lib \<Rightarrow> fp_api \<Rightarrow> lua_value list \<Rightarrow> lua_ret" where
  "mp_unpack_limit lib fp st =
     (case luaL_checkinteger lib st 2 of
        Inl e \<Rightarrow> Raise e
      | Inr limit \<Rightarrow> (case luaL_optinteger lib st 3 0 of
          Inl e \<Rightarrow> Raise e
        | Inr offset \<Rightarrow> mp_unpack_full lib fp (c_int limit) (c_int offset) (take 1 st)))"

text \<open>\<open>mp_safe\<close>: the wrapped function under \<open>lua_pcall\<close>.\<close>

definition mp_safe :: "(lua_value list \<Rightarrow> lua_ret) \<Rightarrow> lua_value list \<Rightarrow> lua_ret" where
  "mp_safe f st = (case f st of Raise e \<Rightarrow> Ret [LNil, LString e] | r \<Rightarrow> r)"

end
