(* ===== verification/Msgpack_Pack.thy ===== *)
theory Msgpack_Pack
  imports Msgpack
begin

text \<open>
  Packing refines a pure encoding: whatever the buffer does, its contents grow by the MessagePack form of the value.
\<close>

section \<open>The string buffer\<close>

definition block :: "mp_buf \<Rightarrow> bytes" where
  "block buf = (case mb_b buf of None \<Rightarrow> [] | Some b \<Rightarrow> b)"

definition contents :: "mp_buf \<Rightarrow> bytes" where
  "contents buf = take (unat (mb_len buf)) (block buf)"

text \<open>The bytes in use and the free ones lie inside the block.\<close>

definition buf_ok :: "mp_buf \<Rightarrow> bool" where
  "buf_ok buf \<longleftrightarrow> unat (mb_len buf) + unat (mb_free buf) \<le> length (block buf) \<and> length (block buf) < 2 ^ 64"

definition appended :: "bytes \<Rightarrow> mp_buf \<Rightarrow> mp_buf \<Rightarrow> bool" where
  "appended s buf buf' \<longleftrightarrow> buf_ok buf' \<and> contents buf' = contents buf @ s \<and> unat (mb_len buf') = unat (mb_len buf) + length s"

definition mem_total :: "mem_api \<Rightarrow> bool" where
  "mem_total mem \<longleftrightarrow> (\<forall>n. mem_ok mem n)"

lemma memcpy_ok:
  "off + length s \<le> length xs \<Longrightarrow> memcpy_to (Some xs) off s = Some (Some (take off xs @ s @ drop (off + length s) xs))"
  by (simp add: memcpy_to_def)

lemma unat_twice: "unat x < 2 ^ 62 \<Longrightarrow> unat (x * 2 :: u64) = 2 * unat x"
  by (simp add: unat_word_ariths)

lemma buf_append_ok:
  assumes ok: "buf_ok buf" and mem: "mem_total mem" and small: "unat (mb_len buf) + length s < 2 ^ 62" and s: "s \<noteq> [] \<or> mb_b buf \<noteq> None"
  shows "\<exists>buf'. mp_buf_append mem s buf = Some buf' \<and> appended s buf buf' \<and> mb_b buf' \<noteq> None"
proof -
  let ?n = "unat (mb_len buf)" let ?m = "length s"
  define b0 where "b0 = (if mb_free buf < of_nat ?m
    then buf\<lparr>mb_b := mp_realloc mem (mb_b buf) (unat ((mb_len buf + of_nat ?m) * 2)), mb_free := mb_len buf + of_nat ?m\<rparr> else buf)"
  have m: "unat (of_nat ?m :: u64) = ?m" using small by (intro unat_u64_of_nat) simp
  have new: "unat (mb_len buf + of_nat ?m) = ?n + ?m" using small by (intro unat_u64_add) simp
  then have twice: "unat ((mb_len buf + of_nat ?m) * 2) = 2 * (?n + ?m)" using small unat_twice [of "mb_len buf + of_nat ?m"] by simp
  have l: "mb_len b0 = mb_len buf" by (simp add: b0_def)
  obtain xs where xs: "mb_b b0 = Some xs" "take ?n xs = contents buf" "?n + ?m \<le> length xs" "length xs < 2 ^ 64"
    "?m \<le> unat (mb_free b0)" "?n + unat (mb_free b0) \<le> length xs"
  proof (cases "mb_free buf < of_nat ?m")
    case True
    let ?xs = "take (2 * (?n + ?m)) (block buf) @ map (mem_junk mem) [length (block buf)..<2 * (?n + ?m)]"
    have "mp_realloc mem (mb_b buf) (2 * (?n + ?m)) = Some ?xs"
      using mem by (simp add: mp_realloc_def mem_total_def block_def split: option.splits)
    moreover have "length ?xs = 2 * (?n + ?m)" by simp
    moreover have "take ?n ?xs = contents buf" using ok by (simp add: contents_def buf_ok_def)
    ultimately show ?thesis using that [of ?xs] True new twice small by (simp add: b0_def)
  next
    case False
    then have "?m \<le> unat (mb_free buf)" using m by (simp add: word_less_nat_alt)
    moreover obtain xs where "mb_b buf = Some xs"
      using s ok calculation by (cases "mb_b buf") (auto simp: buf_ok_def block_def)
    ultimately show ?thesis using that [of xs] False ok by (simp add: buf_ok_def contents_def block_def b0_def)
  qed
  let ?b = "b0\<lparr>mb_b := Some (take ?n xs @ s @ drop (?n + ?m) xs), mb_len := mb_len buf + of_nat ?m, mb_free := mb_free b0 - of_nat ?m\<rparr>"
  have run: "mp_buf_append mem s buf = Some ?b"
    unfolding mp_buf_append_def Let_def b0_def [symmetric] xs(1) l using memcpy_ok [OF xs(3)] by simp
  have "unat (mb_free b0 - of_nat ?m) = unat (mb_free b0) - ?m" using xs(5) by (rule unat_u64_sub)
  moreover have n: "length (contents buf) = ?n" using xs(3) by (simp add: xs(2) [symmetric])
  moreover have "contents ?b = contents buf @ s"
    unfolding contents_def [of ?b] using new n xs(2) by (simp add: block_def)
  ultimately have "appended s buf ?b"
    using xs new by (simp add: appended_def buf_ok_def block_def)
  with run show ?thesis by simp
qed

lemma appended_trans: "appended s a b \<Longrightarrow> appended t b c \<Longrightarrow> appended (s @ t) a c"
  by (simp add: appended_def)

section \<open>The encoding\<close>

text \<open>
  The MessagePack formats, independently of the code: a number in \<open>k\<close> bytes, the most significant one first, is its two's
  complement; every format is a tag, or the bits of a tag with a small number in the low ones, and the length or number behind it. A
  number is stored as an integer if it is one of 64 bits, in the smallest format for it, and as a \<open>float\<close> or \<open>double\<close>
  otherwise.
\<close>

definition big_endian :: "nat \<Rightarrow> int \<Rightarrow> bytes" where
  "big_endian k n = map (\<lambda>i. char_of (n div 2 ^ (8 * i) mod 256)) (rev [0..<k])"

definition raw_form :: "int \<Rightarrow> bytes" where
  "raw_form n = (if n < 2 ^ 5 then [char_of (0xa0 + n)] else if n < 2 ^ 16 then CHR 0xda # big_endian 2 n else CHR 0xdb # big_endian 4 n)"

definition array_form :: "int \<Rightarrow> bytes" where
  "array_form n = (if n < 2 ^ 4 then [char_of (0x90 + n)] else if n < 2 ^ 16 then CHR 0xdc # big_endian 2 n else CHR 0xdd # big_endian 4 n)"

definition map_form :: "int \<Rightarrow> bytes" where
  "map_form n = (if n < 2 ^ 4 then [char_of (0x80 + n)] else if n < 2 ^ 16 then CHR 0xde # big_endian 2 n else CHR 0xdf # big_endian 4 n)"

definition int_form :: "int \<Rightarrow> bytes" where
  "int_form n =
     (if - (2 ^ 5) \<le> n \<and> n < 2 ^ 7 then big_endian 1 n
      else if 0 \<le> n then
        if n < 2 ^ 8 then CHR 0xcc # big_endian 1 n else if n < 2 ^ 16 then CHR 0xcd # big_endian 2 n
        else if n < 2 ^ 32 then CHR 0xce # big_endian 4 n else CHR 0xcf # big_endian 8 n
      else if - (2 ^ 7) \<le> n then CHR 0xd0 # big_endian 1 n else if - (2 ^ 15) \<le> n then CHR 0xd1 # big_endian 2 n
      else if - (2 ^ 31) \<le> n then CHR 0xd2 # big_endian 4 n else CHR 0xd3 # big_endian 8 n)"

definition float_form :: "fp_api \<Rightarrow> rat \<Rightarrow> bytes" where
  "float_form fp d = (let msb = (if fp_little fp then rev else id)
     in if fp_single fp d = Some d then CHR 0xca # msb (fp_single_bytes fp d) else CHR 0xcb # msb (fp_double_bytes fp d))"

definition number_form :: "fp_api \<Rightarrow> rat \<Rightarrow> bytes" where
  "number_form fp d = (if of_int \<lfloor>d\<rfloor> = d \<and> - (2 ^ 63) \<le> \<lfloor>d\<rfloor> \<and> \<lfloor>d\<rfloor> < 2 ^ 63 then int_form \<lfloor>d\<rfloor> else float_form fp d)"

definition key_values :: "(lua_value \<times> lua_value) list \<Rightarrow> lua_value list" where
  "key_values kvs = concat (map (\<lambda>(k, v). [k, v]) kvs)"

text \<open>
  The form of a value, with \<open>left\<close> levels of tables to go; deeper tables and what is not data become nil.
\<close>

function msgpack :: "fp_api \<Rightarrow> nat \<Rightarrow> lua_value \<Rightarrow> bytes"
  and msgpack_all :: "fp_api \<Rightarrow> nat \<Rightarrow> lua_value list \<Rightarrow> bytes" where
  "msgpack fp left v =
     (case v of
        LString s \<Rightarrow> raw_form (int (length s)) @ s
      | LBool b \<Rightarrow> [if b then CHR 0xc3 else CHR 0xc2]
      | LNumber n \<Rightarrow> number_form fp n
      | LTable kvs \<Rightarrow>
          (case left of
             0 \<Rightarrow> [CHR 0xc0]
           | Suc left' \<Rightarrow> if table_is_an_array kvs
               then array_form (lua_objlen kvs) @ msgpack_all fp left' (rawgetis kvs (lua_objlen kvs))
               else map_form (int (length kvs)) @ msgpack_all fp left' (key_values kvs))
      | _ \<Rightarrow> [CHR 0xc0])"
| "msgpack_all fp left vs = (case vs of [] \<Rightarrow> [] | v # vs' \<Rightarrow> msgpack fp left v @ msgpack_all fp left vs')"
  by pat_completeness auto
termination
  by (relation "measures [\<lambda>x. case x of Inl (_, left, _) \<Rightarrow> left | Inr (_, left, _) \<Rightarrow> left,
      \<lambda>x. case x of Inr (_, _, vs) \<Rightarrow> length vs | _ \<Rightarrow> 0]") auto

declare msgpack.simps [simp del] msgpack_all.simps [simp del]

lemma msgpack_all_concat: "msgpack_all fp left vs = concat (map (msgpack fp left) vs)"
  by (induction vs) (simp_all add: msgpack_all.simps)

section \<open>The encoders write these formats\<close>

lemma of_char_byte_of: "(of_char (byte_of n k) :: int) = take_bit 8 (drop_bit k n)"
proof -
  have "drop_bit k (n AND push_bit k 0xff) = drop_bit k n AND 0xff" by (rule bit_eqI) (auto simp: bit_simps)
  also have "\<dots> = take_bit 8 (drop_bit k n)" by (simp add: take_bit_eq_mask mask_eq_exp_minus_1)
  finally show ?thesis by (simp add: byte_of_def take_bit_eq_mod)
qed

lemma byte_of_div: "byte_of n k = char_of (n div 2 ^ k mod 256)"
proof -
  have "byte_of n k = char_of (of_char (byte_of n k) :: int)" by simp
  also have "\<dots> = char_of (n div 2 ^ k mod 256)" unfolding of_char_byte_of by (simp add: take_bit_eq_mod drop_bit_eq_div)
  finally show ?thesis .
qed

lemma big_endian_bytes:
  "big_endian 1 n = [byte_of n 0]" "big_endian 2 n = [byte_of n 8, byte_of n 0]"
  "big_endian 4 n = [byte_of n 24, byte_of n 16, byte_of n 8, byte_of n 0]"
  "big_endian 8 n = [byte_of n 56, byte_of n 48, byte_of n 40, byte_of n 32, byte_of n 24, byte_of n 16, byte_of n 8, byte_of n 0]"
  by (simp_all add: big_endian_def byte_of_div upt_conv_Cons)

lemma small_tags:
  fixes n :: int
  shows "0 \<le> n \<Longrightarrow> n < 32 \<Longrightarrow> (char_of (0xa0 OR (n AND 0xff)) :: char) = char_of (0xa0 + n)"
  "0 \<le> n \<Longrightarrow> n < 16 \<Longrightarrow> (char_of (0x90 OR (n AND 0xf)) :: char) = char_of (0x90 + n)"
  "0 \<le> n \<Longrightarrow> n < 16 \<Longrightarrow> (char_of (0x80 OR (n AND 0xf)) :: char) = char_of (0x80 + n)"
proof -
  have a: "\<forall>n \<in> set [0..31]. (char_of (0xa0 OR (n AND 0xff)) :: char) = char_of (0xa0 + n :: int)" by code_simp
  have b: "\<forall>n \<in> set [0..15]. (char_of (0x90 OR (n AND 0xf)) :: char) = char_of (0x90 + n :: int)" by code_simp
  have c: "\<forall>n \<in> set [0..15]. (char_of (0x80 OR (n AND 0xf)) :: char) = char_of (0x80 + n :: int)" by code_simp
  show "0 \<le> n \<Longrightarrow> n < 32 \<Longrightarrow> (char_of (0xa0 OR (n AND 0xff)) :: char) = char_of (0xa0 + n)" using bspec [OF a, of n] by fastforce
  show "0 \<le> n \<Longrightarrow> n < 16 \<Longrightarrow> (char_of (0x90 OR (n AND 0xf)) :: char) = char_of (0x90 + n)" using bspec [OF b, of n] by fastforce
  show "0 \<le> n \<Longrightarrow> n < 16 \<Longrightarrow> (char_of (0x80 OR (n AND 0xf)) :: char) = char_of (0x80 + n)" using bspec [OF c, of n] by fastforce
qed

lemma header_forms:
  assumes "0 \<le> n"
  shows "bytes_hdr n = raw_form n" "array_hdr n = array_form n" "map_hdr n = map_form n"
  using assms small_tags [of n]
  by (simp_all add: bytes_hdr_def raw_form_def array_hdr_def array_form_def map_hdr_def map_form_def big_endian_bytes)

lemma char_of_mod: "(char_of (n :: int) :: char) = char_of (n mod 256)"
  by simp

lemma int_enc_form: "int_enc n = int_form n"
proof -
  have "(char_of (n AND 0x7f) :: char) = byte_of n 0" if "0 \<le> n" "n \<le> 127"
  proof -
    have "n AND 0x7f = take_bit 7 n" by (simp add: take_bit_eq_mask mask_eq_exp_minus_1)
    then have "n AND 0x7f = n" using that by (simp add: take_bit_int_eq_self)
    then show ?thesis using that by (simp add: byte_of_div)
  qed
  moreover have "(char_of n :: char) = byte_of n 0" by (simp add: byte_of_div)
  ultimately show ?thesis by (auto simp: int_enc_def int_form_def big_endian_bytes simp del: One_nat_def)
qed

lemma memrev_nth:
  "p + e + 1 = length xs \<Longrightarrow> p + len = length xs div 2 \<Longrightarrow> i < length xs
   \<Longrightarrow> memrev len p e xs ! i = (if p \<le> i \<and> i \<le> e then xs ! (length xs - 1 - i) else xs ! i)"
proof (induction len p e xs rule: memrev.induct)
  case (1 p e xs)
  then have "p \<le> i \<and> i \<le> e \<Longrightarrow> length xs - 1 - i = i" by auto
  then show ?case by simp
next
  case (2 len p e xs)
  let ?ys = "xs[p := xs ! e, e := xs ! p]"
  have pe: "p < e" "e < length xs" using "2.prems" by auto
  have "memrev (Suc len) p e xs ! i = (if p + 1 \<le> i \<and> i \<le> e - 1 then ?ys ! (length xs - 1 - i) else ?ys ! i)"
    using "2.IH" "2.prems" pe by simp
  moreover have "length xs - 1 - p = e" "length xs - 1 - e = p" using "2.prems"(1) by auto
  moreover have "p + 1 \<le> i \<and> i \<le> e - 1 \<Longrightarrow> length xs - 1 - i \<noteq> p \<and> length xs - 1 - i \<noteq> e" using "2.prems" by auto
  ultimately show ?case using pe "2.prems"(3) by (auto simp: nth_list_update)
qed

lemma length_memrev [simp]: "length (memrev len p e xs) = length xs"
  by (induction len p e xs rule: memrev.induct) simp_all

lemma memrevifle_rev: "memrevifle fp xs = (if fp_little fp then rev xs else xs)"
proof (cases "xs = []")
  case Cons: False
  have "memrev (length xs div 2) 0 (length xs - 1) xs = rev xs"
    using Cons by (intro nth_equalityI) (auto simp: memrev_nth rev_nth)
  then show ?thesis by (simp add: memrevifle_def)
qed (simp add: memrevifle_def)

lemma double_enc_form: "double_enc fp d = float_form fp d"
  by (simp add: double_enc_def float_form_def memrevifle_rev)

lemma int64_equivalent:
  "IS_INT64_EQUIVALENT d \<longleftrightarrow> of_int \<lfloor>d\<rfloor> = d \<and> - (2 ^ 63) \<le> \<lfloor>d\<rfloor> \<and> \<lfloor>d\<rfloor> < 2 ^ 63"
  "IS_INT64_EQUIVALENT d \<Longrightarrow> int64_of_number d = \<lfloor>d\<rfloor>"
proof -
  have r: "- (2 ^ 63) \<le> int64_of_number d" "int64_of_number d < 2 ^ 63" by (simp_all add: int64_of_number_def Let_def)
  show e: "IS_INT64_EQUIVALENT d \<Longrightarrow> int64_of_number d = \<lfloor>d\<rfloor>"
    unfolding IS_INT64_EQUIVALENT_def by (metis floor_of_int)
  show "IS_INT64_EQUIVALENT d \<longleftrightarrow> of_int \<lfloor>d\<rfloor> = d \<and> - (2 ^ 63) \<le> \<lfloor>d\<rfloor> \<and> \<lfloor>d\<rfloor> < 2 ^ 63"
  proof
    assume i: "IS_INT64_EQUIVALENT d"
    then have "of_int \<lfloor>d\<rfloor> = d" using e unfolding IS_INT64_EQUIVALENT_def by simp
    then show "of_int \<lfloor>d\<rfloor> = d \<and> - (2 ^ 63) \<le> \<lfloor>d\<rfloor> \<and> \<lfloor>d\<rfloor> < 2 ^ 63" using r e [OF i] by simp
  next
    assume d: "of_int \<lfloor>d\<rfloor> = d \<and> - (2 ^ 63) \<le> \<lfloor>d\<rfloor> \<and> \<lfloor>d\<rfloor> < 2 ^ 63"
    then have "trunc_rat d = \<lfloor>d\<rfloor>" by (metis trunc_rat_of_int)
    then show "IS_INT64_EQUIVALENT d" using d by (simp add: IS_INT64_EQUIVALENT_def int64_of_number_def Let_def)
  qed
qed

definition number_enc :: "fp_api \<Rightarrow> rat \<Rightarrow> bytes" where
  "number_enc fp n = (if IS_INT64_EQUIVALENT n then int_enc (int64_of_number n) else double_enc fp n)"

lemma number_enc_form: "number_enc fp d = number_form fp d"
  unfolding number_enc_def number_form_def int_enc_form double_enc_form int64_equivalent(1) [of d, symmetric]
  using int64_equivalent(2) [of d] by (rule if_cong [OF refl arg_cong [of _ _ int_form] refl])

lemma objlen_nonneg: "0 \<le> lua_objlen kvs"
  by (simp add: lua_objlen_def)

text \<open>The form of a value, with the bytes as the encoders compute them.\<close>

lemma msgpack_code:
  "msgpack fp left v =
     (case v of
        LString s \<Rightarrow> bytes_hdr (int (length s)) @ s
      | LBool b \<Rightarrow> [if b then CHR 0xc3 else CHR 0xc2]
      | LNumber n \<Rightarrow> number_enc fp n
      | LTable kvs \<Rightarrow>
          (case left of
             0 \<Rightarrow> [CHR 0xc0]
           | Suc left' \<Rightarrow> if table_is_an_array kvs
               then array_hdr (lua_objlen kvs) @ msgpack_all fp left' (rawgetis kvs (lua_objlen kvs))
               else map_hdr (int (length kvs)) @ msgpack_all fp left' (key_values kvs))
      | _ \<Rightarrow> [CHR 0xc0])"
  unfolding msgpack.simps [of fp left v]
  by (simp add: header_forms objlen_nonneg number_enc_form split: lua_value.split nat.split)

lemma hdr_nonempty [simp]: "bytes_hdr n \<noteq> []" "array_hdr n \<noteq> []" "map_hdr n \<noteq> []" "number_enc fp r \<noteq> []"
  by (simp_all add: bytes_hdr_def array_hdr_def map_hdr_def number_enc_def double_enc_def int_enc_def)

lemma msgpack_nonempty: "msgpack fp left v \<noteq> []"
  by (simp add: msgpack_code split: lua_value.splits nat.splits)

section \<open>The slots of the Lua stack\<close>

text \<open>Encoding a value in slot \<open>h\<close> stays within the slots a C function has.\<close>

fun fits :: "nat \<Rightarrow> nat \<Rightarrow> lua_value \<Rightarrow> bool" where
  "fits (Suc left) h (LTable kvs) \<longleftrightarrow> h + (if kvs = [] then 1 else 2) \<le> 20
     \<and> (if table_is_an_array kvs then \<forall>v \<in> set (rawgetis kvs (lua_objlen kvs)). fits left (h + 1) v
        else \<forall>(k, v) \<in> set kvs. fits left (h + 3) k \<and> fits left (h + 2) v)"
| "fits left h v \<longleftrightarrow> h \<le> 20"

text \<open>Packing arguments one after the other, with \<open>h\<close> slots in use; each argument leaves a string.\<close>

fun all_fit :: "nat \<Rightarrow> lua_value list \<Rightarrow> bool" where
  "all_fit h [] = True"
| "all_fit h (v # vs) = (fits 16 (h + 1) v \<and> all_fit (h + 1) vs)"

lemma fits_slot: "fits left h v \<Longrightarrow> h \<le> 20"
  by (induction left h v rule: fits.induct) (auto split: if_splits)

lemma all_fit_few: "all_fit h vs \<Longrightarrow> vs \<noteq> [] \<Longrightarrow> h + length vs \<le> 20"
proof (induction vs arbitrary: h)
  case (Cons v vs)
  then show ?case using fits_slot [of 16 "h + 1" v] by (cases vs) fastforce+
qed simp

text \<open>Three slots for each level of nesting are enough.\<close>

fun nested :: "nat \<Rightarrow> lua_value \<Rightarrow> bool" where
  "nested d (LTable kvs) = (case d of 0 \<Rightarrow> False | Suc d' \<Rightarrow> \<forall>(k, v) \<in> set kvs. nested d' k \<and> nested d' v)"
| "nested d v = True"

lemma rawgeti_cases: "rawgeti kvs i = LNil \<or> (\<exists>k. (k, rawgeti kvs i) \<in> set kvs)"
  unfolding rawgeti_def by (auto split: option.split dest: map_of_SomeD)

lemma fits_nested: "nested d v \<Longrightarrow> h + 3 * d \<le> 20 \<Longrightarrow> fits left h v"
proof (induction left arbitrary: d h v)
  case 0
  then show ?case by simp
next
  case (Suc left)
  show ?case
  proof (cases "\<exists>kvs. v = LTable kvs")
    case True
    then obtain kvs where v: "v = LTable kvs" by blast
    with Suc.prems(1) obtain d' where d: "d = Suc d'" "\<forall>(k, v) \<in> set kvs. nested d' k \<and> nested d' v" by (cases d) auto
    have sub: "fits left (h + i) x" if "nested d' x" "i \<le> 3" for x i
      using Suc.IH [of d' x "h + i"] that Suc.prems(2) d(1) by simp
    have "nested d' x" if el: "x \<in> set (rawgetis kvs n)" for x n
    proof -
      obtain i where "x = rawgeti kvs i" using el unfolding rawgetis_def set_map by blast
      then show ?thesis using rawgeti_cases [of kvs i] d(2) by auto
    qed
    then have "\<forall>x \<in> set (rawgetis kvs (lua_objlen kvs)). fits left (h + 1) x" by (intro ballI sub) simp_all
    moreover have "\<forall>(k, x) \<in> set kvs. fits left (h + 3) k \<and> fits left (h + 2) x"
      using d(2) sub [where i = 2] sub [where i = 3] by auto
    moreover have "h + (if kvs = [] then 1 else 2) \<le> 20" using Suc.prems(2) d(1) by simp
    ultimately show ?thesis unfolding v fits.simps(1) by (cases "table_is_an_array kvs") (simp_all only: simp_thms if_True if_False)
  next
    case False
    then show ?thesis using Suc.prems(2) by (cases v) simp_all
  qed
qed

text \<open>One step of the encoder: from any buffer with room, \<open>s\<close> is appended.\<close>

definition puts :: "(mp_buf \<Rightarrow> mp_buf option) \<Rightarrow> bytes \<Rightarrow> bool" where
  "puts f s \<longleftrightarrow> (\<forall>buf. buf_ok buf \<longrightarrow> unat (mb_len buf) + length s < 2 ^ 62 \<longrightarrow>
     (\<exists>buf'. f buf = Some buf' \<and> appended s buf buf' \<and> (s \<noteq> [] \<or> mb_b buf \<noteq> None \<longrightarrow> mb_b buf' \<noteq> None)))"

lemma puts_append: "mem_total mem \<Longrightarrow> s \<noteq> [] \<Longrightarrow> puts (mp_buf_append mem s) s"
  unfolding puts_def using buf_append_ok by blast

lemma puts_none: "puts Some []"
  by (simp add: puts_def appended_def)

lemma puts_seq:
  assumes f: "puts f s" and g: "puts g t" and fg: "\<And>buf. fg buf = (case f buf of None \<Rightarrow> None | Some buf' \<Rightarrow> g buf')"
  shows "puts fg (s @ t)"
  unfolding puts_def fg
proof (intro allI impI)
  fix buf
  assume b: "buf_ok buf" "unat (mb_len buf) + length (s @ t) < 2 ^ 62"
  then obtain b1 where b1: "f buf = Some b1" "appended s buf b1" "s \<noteq> [] \<or> mb_b buf \<noteq> None \<longrightarrow> mb_b b1 \<noteq> None"
    using f unfolding puts_def by fastforce
  then have "buf_ok b1" "unat (mb_len b1) + length t < 2 ^ 62" using b by (simp_all add: appended_def)
  then obtain b2 where "g b1 = Some b2" "appended t b1 b2" "t \<noteq> [] \<or> mb_b b1 \<noteq> None \<longrightarrow> mb_b b2 \<noteq> None"
    using g unfolding puts_def by blast
  with b1 show "\<exists>buf'. (case f buf of None \<Rightarrow> None | Some buf' \<Rightarrow> g buf') = Some buf' \<and> appended (s @ t) buf buf'
      \<and> (s @ t \<noteq> [] \<or> mb_b buf \<noteq> None \<longrightarrow> mb_b buf' \<noteq> None)"
    by (auto intro: appended_trans)
qed

lemma puts_bytes:
  assumes mem: "mem_total mem"
  shows "puts (mp_encode_bytes mem s) (bytes_hdr (int (length s)) @ s)"
  unfolding puts_def
proof (intro allI impI)
  fix buf
  let ?h = "bytes_hdr (int (length s))"
  assume b: "buf_ok buf" "unat (mb_len buf) + length (?h @ s) < 2 ^ 62"
  then obtain b1 where b1: "mp_buf_append mem ?h buf = Some b1" "appended ?h buf b1" "mb_b b1 \<noteq> None"
    using buf_append_ok [OF _ mem, of buf ?h] by auto
  then have "buf_ok b1" "unat (mb_len b1) + length s < 2 ^ 62" using b by (simp_all add: appended_def)
  then obtain b2 where "mp_buf_append mem s b1 = Some b2" "appended s b1 b2" "mb_b b2 \<noteq> None"
    using buf_append_ok [OF _ mem, of b1 s] b1(3) by blast
  with b1 show "\<exists>buf'. mp_encode_bytes mem s buf = Some buf' \<and> appended (?h @ s) buf buf'
      \<and> (?h @ s \<noteq> [] \<or> mb_b buf \<noteq> None \<longrightarrow> mb_b buf' \<noteq> None)"
    by (auto simp: mp_encode_bytes_def intro: appended_trans)
qed

lemma puts_plain:
  assumes mem: "mem_total mem"
  shows "puts (mp_encode_lua_number mem fp n) (number_enc fp n)"
    and "puts (mp_encode_lua_bool mem b) [if b then CHR 0xc3 else CHR 0xc2]"
    and "puts (mp_encode_lua_null mem) [CHR 0xc0]"
    and "puts (mp_encode_array mem i) (array_hdr i)"
    and "puts (mp_encode_map mem i) (map_hdr i)"
proof -
  have "mp_encode_lua_number mem fp n = mp_buf_append mem (number_enc fp n)"
    by (rule ext) (simp add: mp_encode_lua_number_def mp_encode_lua_integer_def mp_encode_int_def mp_encode_double_def number_enc_def)
  then show "puts (mp_encode_lua_number mem fp n) (number_enc fp n)" using puts_append [OF mem] by simp
qed (simp_all add: mp_encode_lua_bool_def [abs_def] mp_encode_lua_null_def [abs_def] mp_encode_array_def [abs_def] mp_encode_map_def [abs_def]
    puts_append [OF mem])

lemma values_put:
  assumes "\<forall>(h, v) \<in> set hvs. puts (mp_encode_lua_type mem fp m h v) (msgpack fp m v)"
  shows "puts (mp_encode_values mem fp m hvs) (msgpack_all fp m (map snd hvs))"
  using assms
proof (induction hvs)
  case Nil
  have "mp_encode_values mem fp m [] = Some" by (rule ext) (simp add: mp_encode_values.simps)
  then show ?case by (simp add: msgpack_all.simps puts_none)
next
  case (Cons hv hvs)
  obtain h v where hv: "hv = (h, v)" by (cases hv)
  have "puts (mp_encode_values mem fp m (hv # hvs)) (msgpack fp m v @ msgpack_all fp m (map snd hvs))"
    by (rule puts_seq [of "mp_encode_lua_type mem fp m h v" _ "mp_encode_values mem fp m hvs"])
      (use Cons hv in \<open>auto simp: mp_encode_values.simps [of mem fp m "(h, v) # hvs"]\<close>)
  then show ?case by (simp add: hv msgpack_all.simps [of fp m "v # vs" for vs])
qed

lemma values_overrun:
  assumes "(h, v) \<in> set hvs" and "\<And>buf. mp_encode_lua_type mem fp m h v buf = None"
  shows "mp_encode_values mem fp m hvs buf = None"
  using assms(1)
proof (induction hvs arbitrary: buf)
  case (Cons hv hvs)
  then show ?case using assms(2)
    by (subst mp_encode_values.simps) (auto split: prod.splits option.splits)
qed simp

lemma entries_at_values: "map snd (entries_at h kvs) = key_values kvs" "map snd (map (Pair h) vs) = vs"
proof -
  show "map snd (entries_at h kvs) = key_values kvs" by (induction kvs) (auto simp: entries_at_def key_values_def)
  show "map snd (map (Pair h) vs) = vs" by (induction vs) simp_all
qed

lemma table_put:
  assumes mem: "mem_total mem" and elems: "\<And>h v. fits m h v \<Longrightarrow> puts (mp_encode_lua_type mem fp m h v) (msgpack fp m v)"
    and fit: "fits (Suc m) h (LTable kvs)"
  shows "puts (mp_encode_lua_table mem fp m h kvs)
      (if table_is_an_array kvs then array_hdr (lua_objlen kvs) @ msgpack_all fp m (rawgetis kvs (lua_objlen kvs))
       else map_hdr (int (length kvs)) @ msgpack_all fp m (key_values kvs))"
proof (cases "table_is_an_array kvs")
  case True
  let ?hvs = "map (Pair (h + 1)) (rawgetis kvs (lua_objlen kvs))"
  have "\<forall>(h, v) \<in> set ?hvs. puts (mp_encode_lua_type mem fp m h v) (msgpack fp m v)" using elems fit True by auto
  from values_put [OF this] have "puts (mp_encode_values mem fp m ?hvs) (msgpack_all fp m (rawgetis kvs (lua_objlen kvs)))"
    by (simp only: entries_at_values)
  from puts_seq [OF puts_plain(4) [OF mem] this] show ?thesis using True fit
    by (simp add: mp_encode_lua_table.simps LUA_MINSTACK_def)
next
  case False
  have "\<forall>(h, v) \<in> set (entries_at h kvs). puts (mp_encode_lua_type mem fp m h v) (msgpack fp m v)"
    using elems fit False by (auto simp: entries_at_def)
  from values_put [OF this] have "puts (mp_encode_values mem fp m (entries_at h kvs)) (msgpack_all fp m (key_values kvs))"
    by (simp only: entries_at_values)
  from puts_seq [OF puts_plain(5) [OF mem] this] show ?thesis using False fit
    by (simp add: mp_encode_lua_table.simps LUA_MINSTACK_def)
qed

lemma puts_cong: "puts f s \<Longrightarrow> (\<And>buf. g buf = f buf) \<Longrightarrow> puts g s"
  by (simp add: puts_def)

lemma scalar_put:
  assumes mem: "mem_total mem" and v: "\<And>kvs. v = LTable kvs \<Longrightarrow> left = 0" and h: "h \<le> 20"
  shows "puts (mp_encode_lua_type mem fp left h v) (msgpack fp left v)"
proof -
  note plain = puts_cong [OF puts_bytes [OF mem]] puts_cong [OF puts_plain(1) [OF mem]] puts_cong [OF puts_plain(2) [OF mem]]
    puts_cong [OF puts_plain(3) [OF mem]]
  have "(LUA_MINSTACK < h) = False" using h by (simp add: LUA_MINSTACK_def)
  then show ?thesis using v
    by (cases v) (auto simp: msgpack_code mp_encode_lua_type.simps simp del: if_split intro!: plain split del: if_split)
qed

lemma encode_puts:
  assumes mem: "mem_total mem"
  shows "fits left h v \<Longrightarrow> puts (mp_encode_lua_type mem fp left h v) (msgpack fp left v)"
proof (induction left arbitrary: h v)
  case 0
  show ?case by (rule scalar_put [OF mem _ fits_slot [OF 0]]) simp
next
  case (Suc m)
  have h: "(LUA_MINSTACK < h) = False" using fits_slot [OF Suc.prems] by (simp add: LUA_MINSTACK_def)
  show ?case
  proof (cases "\<exists>kvs. v = LTable kvs")
    case True
    then obtain kvs where v: "v = LTable kvs" by blast
    show ?thesis unfolding v msgpack_code [of fp "Suc m"] lua_value.case nat.case
    proof (rule puts_cong [OF table_put [OF mem Suc.IH Suc.prems [unfolded v]]])
      show "mp_encode_lua_type mem fp (Suc m) h (LTable kvs) buf = mp_encode_lua_table mem fp m h kvs buf" for buf
        by (subst mp_encode_lua_type.simps, simp only: h if_False lua_value.case nat.case)
    qed
  next
    case False
    then show ?thesis by (intro scalar_put [OF mem] fits_slot [OF Suc.prems]) auto
  qed
qed

lemma encode_overruns: "\<not> fits left h v \<Longrightarrow> mp_encode_lua_type mem fp left h v buf = None"
proof (induction left arbitrary: h v buf)
  case 0
  then show ?case by (simp add: mp_encode_lua_type.simps LUA_MINSTACK_def)
next
  case (Suc m)
  show ?case
  proof (cases "\<exists>kvs. v = LTable kvs")
    case True
    then obtain kvs where v: "v = LTable kvs" by blast
    let ?n = "h + (if kvs = [] then 1 else 2)"
    consider "20 < ?n" | k x where "?n \<le> 20" "(k, x) \<in> set (if table_is_an_array kvs
        then map (Pair (h + 1)) (rawgetis kvs (lua_objlen kvs)) else entries_at h kvs)" "\<not> fits m k x"
      using Suc.prems v by (fastforce simp: entries_at_def split: if_splits)
    then have "mp_encode_lua_table mem fp m h kvs buf = None"
    proof cases
      case 1
      then show ?thesis by (simp add: mp_encode_lua_table.simps LUA_MINSTACK_def)
    next
      case 2
      from values_overrun [OF this(2) Suc.IH [OF this(3)]] show ?thesis
        by (auto simp: mp_encode_lua_table.simps split: option.split)
    qed
    then show ?thesis by (simp add: v mp_encode_lua_type.simps)
  next
    case False
    then show ?thesis using Suc.prems by (cases v) (simp_all add: mp_encode_lua_type.simps LUA_MINSTACK_def)
  qed
qed

section \<open>Packing\<close>

lemma contents_Some: "mb_b buf = Some b \<Longrightarrow> take (unat (mb_len buf)) b = contents buf"
  by (simp add: contents_def block_def)

lemma max_nesting_16: "LUACMSGPACK_MAX_NESTING = 16"
  by (simp add: LUACMSGPACK_MAX_NESTING_def)

lemma pack_loop_ok:
  assumes mem: "mem_total mem" and "buf_ok buf" and "mb_len buf = 0"
    and "\<forall>v \<in> set vs. length (msgpack fp 16 v) < 2 ^ 62" and "all_fit h vs"
  shows "pack_loop mem fp h vs buf = Some (concat (map (msgpack fp 16) vs))"
  using assms(2-5)
proof (induction vs arbitrary: buf h)
  case (Cons v vs)
  let ?s = "msgpack fp 16 v"
  have "unat (mb_len buf) + length ?s < 2 ^ 62" using Cons.prems by simp
  moreover have "fits 16 (h + 1) v" using Cons.prems(4) by simp
  ultimately obtain b1 where b1: "mp_encode_lua_type mem fp 16 (h + 1) v buf = Some b1" "appended ?s buf b1" "mb_b b1 \<noteq> None"
    using encode_puts [OF mem, of 16 "h + 1" v fp] Cons.prems(1) msgpack_nonempty [of fp 16 v]
    unfolding puts_def by blast
  then obtain b where b: "mb_b b1 = Some b" by blast
  have c: "take (unat (mb_len b1)) b = ?s"
    using contents_Some [OF b] b1(2) Cons.prems(2) by (simp add: appended_def contents_def [of buf])
  let ?b2 = "b1\<lparr>mb_free := mb_free b1 + mb_len b1, mb_len := 0\<rparr>"
  have ok: "unat (mb_len b1) + unat (mb_free b1) \<le> length b" "length b < 2 ^ 64"
    using b1(2) b by (simp_all add: appended_def buf_ok_def block_def)
  then have "unat (mb_free b1 + mb_len b1) = unat (mb_free b1) + unat (mb_len b1)"
    using unat_u64_add [of "mb_free b1" "unat (mb_len b1)"] by simp
  then have "buf_ok ?b2" using ok b by (simp add: buf_ok_def block_def)
  then show ?case using Cons.IH [of ?b2 "h + 1"] Cons.prems(3,4) b1(1) b c by (simp add: max_nesting_16)
qed simp

lemma pack_loop_overruns: "\<not> all_fit h vs \<Longrightarrow> pack_loop mem fp h vs buf = None"
proof (induction vs arbitrary: buf h)
  case (Cons v vs)
  show ?case
  proof (cases "fits 16 (h + 1) v")
    case False
    then show ?thesis using encode_overruns [of 16 "h + 1" v] by (simp add: max_nesting_16)
  next
    case True
    then show ?thesis using Cons by (auto simp: Option.bind_eq_None_conv split: option.split)
  qed
qed simp

lemma pack_ok:
  assumes "mem_total mem" and "\<forall>v \<in> set vs. length (msgpack fp 16 v) < 2 ^ 62"
  shows "mp_pack mem fp vs = (if vs = [] then Some (Raise ''MessagePack pack needs input.'')
     else if all_fit 0 vs then Some (Ret [LString (concat (map (msgpack fp 16) vs))]) else None)"
proof -
  let ?b = "\<lparr>mb_b = None, mb_len = 0, mb_free = 0\<rparr>"
  have "buf_ok ?b" by (simp add: buf_ok_def block_def)
  moreover have "mp_buf_new mem = Some ?b" using assms(1) by (simp add: mp_buf_new_def mem_total_def)
  ultimately show ?thesis using pack_loop_ok [OF assms(1), of ?b vs fp 0] pack_loop_overruns [of 0 vs mem fp ?b] assms(2)
    by (simp add: mp_pack_def)
qed


text \<open>Twenty scalar arguments fit, and one value of up to six levels; more than twenty arguments run over the stack.\<close>

lemma pack_slots:
  "length vs \<le> 20 \<Longrightarrow> \<forall>v \<in> set vs. nested 0 v \<Longrightarrow> all_fit 0 vs" "nested 6 v \<Longrightarrow> all_fit 0 [v]" "20 < length vs \<Longrightarrow> \<not> all_fit 0 vs"
proof -
  have "h + length vs \<le> 20 \<Longrightarrow> \<forall>v \<in> set vs. nested 0 v \<Longrightarrow> all_fit h vs" for h
    by (induction vs arbitrary: h) (auto intro: fits_nested [of 0])
  from this [of 0] show "length vs \<le> 20 \<Longrightarrow> \<forall>v \<in> set vs. nested 0 v \<Longrightarrow> all_fit 0 vs" by simp
  show "nested 6 v \<Longrightarrow> all_fit 0 [v]" using fits_nested [of 6 v 1 16] by simp
  show "20 < length vs \<Longrightarrow> \<not> all_fit 0 vs" using all_fit_few [of 0 vs] by (cases vs) auto
qed

end
