(* ===== verification/Msgpack_Unpack.thy ===== *)
theory Msgpack_Unpack
  imports Msgpack_Pack
begin

text \<open>
  Unpacking undoes packing: the decoder on the MessagePack form of a value gives the value back and stops behind it;
  cutting a form anywhere is noticed.
\<close>

section \<open>Bytes\<close>

lemma join_bits: "push_bit k (take_bit m (drop_bit k n)) OR take_bit k n = take_bit (k + m) (n :: int)"
  by (rule bit_eqI) (auto simp: bit_simps)

lemmas join_bytes = join_bits [of 8 8, simplified] join_bits [of 16 8, simplified] join_bits [of 24 8, simplified]
  join_bits [of 32 8, simplified] join_bits [of 40 8, simplified] join_bits [of 48 8, simplified] join_bits [of 56 8, simplified]

lemma be_at_bytes:
  "be16_at (x # byte_of n 8 # byte_of n 0 # r) = take_bit 16 n"
  "be32_at (x # byte_of n 24 # byte_of n 16 # byte_of n 8 # byte_of n 0 # r) = take_bit 32 n"
  "be64_at (x # byte_of n 56 # byte_of n 48 # byte_of n 40 # byte_of n 32 # byte_of n 24 # byte_of n 16 # byte_of n 8 # byte_of n 0 # r)
    = take_bit 64 n"
  by (simp_all add: be16_at_def be32_at_def be64_at_def u8_def of_char_byte_of join_bytes)

lemma signed16: "signed_take_bit 15 (push_bit 8 (take_bit 8 (drop_bit 8 n))) OR take_bit 8 n = signed_take_bit 15 (n :: int)"
  by (rule bit_eqI) (auto simp: bit_simps min_def)

section \<open>One item\<close>

lemma u8_Cons [simp]: "u8 (x # c) 0 = of_char x" "u8 (x # c) 1 = u8 c 0" "u8 (x # c) (Suc 0) = u8 c 0"
  by (simp_all add: u8_def)

lemma low_fixnum: "0 \<le> n \<Longrightarrow> n \<le> 127 \<Longrightarrow> (of_char (char_of (n AND 0x7f)) :: int) = n \<and> n AND 0x80 = 0"
proof -
  assume n: "0 \<le> n" "n \<le> 127"
  have "n AND 0x7f = take_bit 7 n" by (simp add: take_bit_eq_mask mask_eq_exp_minus_1)
  also have "\<dots> = n" using n by (simp add: take_bit_int_eq_self)
  finally have m: "n AND 0x7f = n" .
  have "n AND 0x80 = (n AND 0x7f) AND 0x80" by (simp only: m)
  also have "\<dots> = 0" by (simp add: and.assoc)
  finally show ?thesis using n m by simp
qed

lemma high_fixnum:
  fixes n :: int
  assumes "n < 0" "- 32 \<le> n"
  shows "(of_char (char_of n) :: int) = n + 256 \<and> (n + 256) AND 0x80 \<noteq> 0 \<and> (n + 256) AND 0xe0 = 0xe0 \<and> signed_take_bit 7 (n + 256) = n"
proof -
  have "n \<in> set [- 32..- 1]" using assms by simp
  moreover have "\<forall>n \<in> set [- 32..- 1]. (of_char (char_of n) :: int) = n + 256 \<and> (n + 256) AND 0x80 \<noteq> 0 \<and> (n + 256) AND 0xe0 = 0xe0
      \<and> signed_take_bit 7 (n + 256) = n" by code_simp
  ultimately show ?thesis by blast
qed

lemma decode_int:
  assumes "- (2 ^ 63) \<le> n" "n < 2 ^ 63"
  shows "decode_item fp (int_enc n @ r) = Done (Value (pushinteger fp n)) r"
proof -
  consider "0 \<le> n" "n \<le> 127" | "127 < n" "n \<le> 0xff" | "0xff < n" "n \<le> 0xffff" | "0xffff < n" "n \<le> 0xffffffff" | "0xffffffff < n"
    | "n < 0" "- 32 \<le> n" | "n < - 32" "- 128 \<le> n" | "n < - 128" "- 32768 \<le> n" | "n < - 32768" "- 2147483648 \<le> n" | "n < - 2147483648"
    by linarith
  then show ?thesis
  proof cases
    case 1
    then show ?thesis using low_fixnum [of n] by (simp add: int_enc_def decode_item_def decode_other_def)
  next
    case 2
    then show ?thesis by (simp add: int_enc_def decode_item_def mp_cur_need_def of_char_byte_of take_bit_int_eq_self)
  next
    case 3
    then show ?thesis by (simp add: int_enc_def decode_item_def mp_cur_need_def be_at_bytes take_bit_int_eq_self)
  next
    case 4
    then show ?thesis by (simp add: int_enc_def decode_item_def mp_cur_need_def be_at_bytes take_bit_int_eq_self)
  next
    case 5
    then show ?thesis using assms by (simp add: int_enc_def decode_item_def mp_cur_need_def be_at_bytes signed_take_bit_take_bit signed_take_bit_int_eq_self)
  next
    case 6
    then show ?thesis using high_fixnum [of n] by (simp add: int_enc_def decode_item_def decode_other_def)
  next
    case 7
    then show ?thesis by (simp add: int_enc_def decode_item_def mp_cur_need_def of_char_byte_of signed_take_bit_take_bit signed_take_bit_int_eq_self)
  next
    case 8
    then show ?thesis
      by (simp add: int_enc_def decode_item_def mp_cur_need_def u8_def of_char_byte_of signed16 signed_take_bit_int_eq_self)
  next
    case 9
    then show ?thesis by (simp add: int_enc_def decode_item_def mp_cur_need_def be_at_bytes signed_take_bit_take_bit signed_take_bit_int_eq_self)
  next
    case 10
    then show ?thesis using assms by (simp add: int_enc_def decode_item_def mp_cur_need_def be_at_bytes signed_take_bit_take_bit signed_take_bit_int_eq_self)
  qed
qed

text \<open>A small length or count in the low bits of the first byte.\<close>

lemma decode_low: "(of_char x :: int) < 0xc0 \<Longrightarrow> decode_item fp (x # c) = decode_other fp (x # c)"
  by (simp add: decode_item_def Let_def)

lemma small_raw:
  assumes "0 \<le> n" "n < 32"
  shows "decode_item fp (char_of (0xa0 OR (n AND 0xff)) # c) = raw_at 1 (nat n) (char_of (0xa0 OR (n AND 0xff)) # c)"
proof -
  define x :: char where "x = char_of (0xa0 OR (n AND 0xff))"
  have "\<forall>n \<in> set [0..31]. (let b = of_char (char_of (0xa0 OR (n AND 0xff)) :: char) :: int in b < 0xc0 \<and> b AND 0x80 \<noteq> 0
      \<and> b AND 0xe0 = 0xa0 \<and> b AND 0x1f = n)" by code_simp
  moreover have "n \<in> set [0..31]" using assms by simp
  ultimately have "(let b = of_char x :: int in b < 0xc0 \<and> b AND 0x80 \<noteq> 0 \<and> b AND 0xe0 = 0xa0 \<and> b AND 0x1f = n)"
    unfolding x_def by blast
  then show ?thesis unfolding x_def [symmetric] by (simp add: decode_low decode_other_def Let_def)
qed

lemma small_table:
  assumes "0 \<le> n" "n < 16"
  shows "decode_item fp (char_of (0x90 OR (n AND 0xf)) # c) = Done (Array (nat n)) c"
    and "decode_item fp (char_of (0x80 OR (n AND 0xf)) # c) = Done (Hash (nat n)) c"
proof -
  define x y :: char where "x = char_of (0x90 OR (n AND 0xf))" and "y = char_of (0x80 OR (n AND 0xf))"
  have "\<forall>n \<in> set [0..15]. (let b = of_char (char_of (0x90 OR (n AND 0xf)) :: char) :: int in b < 0xc0 \<and> b AND 0x80 \<noteq> 0
      \<and> b AND 0xe0 = 0x80 \<and> b AND 0xf0 = 0x90 \<and> b AND 0xf = n)" by code_simp
  moreover have "\<forall>n \<in> set [0..15]. (let b = of_char (char_of (0x80 OR (n AND 0xf)) :: char) :: int in b < 0xc0 \<and> b AND 0x80 \<noteq> 0
      \<and> b AND 0xe0 = 0x80 \<and> b AND 0xf0 = 0x80 \<and> b AND 0xf = n)" by code_simp
  moreover have "n \<in> set [0..15]" using assms by simp
  ultimately have "(let b = of_char x :: int in b < 0xc0 \<and> b AND 0x80 \<noteq> 0 \<and> b AND 0xe0 = 0x80 \<and> b AND 0xf0 = 0x90 \<and> b AND 0xf = n)"
    "(let b = of_char y :: int in b < 0xc0 \<and> b AND 0x80 \<noteq> 0 \<and> b AND 0xe0 = 0x80 \<and> b AND 0xf0 = 0x80 \<and> b AND 0xf = n)"
    unfolding x_def y_def by blast+
  then show "decode_item fp (char_of (0x90 OR (n AND 0xf)) # c) = Done (Array (nat n)) c"
    "decode_item fp (char_of (0x80 OR (n AND 0xf)) # c) = Done (Hash (nat n)) c"
    unfolding x_def [symmetric] y_def [symmetric] by (simp_all add: decode_low decode_other_def Let_def)
qed

lemma raw_at_append: "raw_at (length p) (length s) (p @ s @ r) = Done (Value (LString s)) r"
  by (simp add: raw_at_def mp_cur_need_def)

lemma raw_at_hdr:
  "raw_at 1 (length s) (x # s @ r) = Done (Value (LString s)) r"
  "raw_at 3 (length s) (x # y # z # s @ r) = Done (Value (LString s)) r"
  "raw_at 5 (length s) (x # y # z # u # v # s @ r) = Done (Value (LString s)) r"
  using raw_at_append [of "[x]" s r] raw_at_append [of "[x, y, z]" s r] raw_at_append [of "[x, y, z, u, v]" s r]
  by (simp_all add: eval_nat_numeral)

lemma decode_raw:
  assumes "length s < 2 ^ 32"
  shows "decode_item fp (bytes_hdr (int (length s)) @ s @ r) = Done (Value (LString s)) r"
proof -
  consider "length s < 32" | "32 \<le> length s" "length s \<le> 0xffff" | "0xffff < length s" by linarith
  then show ?thesis
  proof cases
    case 1
    then show ?thesis using small_raw [of "int (length s)" fp "s @ r"] raw_at_hdr(1) [of s _ r] by (simp add: bytes_hdr_def)
  qed (use assms in \<open>simp_all add: bytes_hdr_def decode_item_def mp_cur_need_def be_at_bytes take_bit_int_eq_self raw_at_hdr\<close>)
qed

lemma decode_hdrs:
  assumes "0 \<le> n" "n < 2 ^ 32"
  shows "decode_item fp (array_hdr n @ r) = Done (Array (nat n)) r \<and> decode_item fp (map_hdr n @ r) = Done (Hash (nat n)) r"
proof -
  consider "n \<le> 15" | "15 < n" "n \<le> 65535" | "65535 < n" by linarith
  then show ?thesis
  proof cases
    case 1
    then show ?thesis using assms small_table [of n fp r] by (simp add: array_hdr_def map_hdr_def)
  qed (use assms in \<open>simp_all add: array_hdr_def map_hdr_def decode_item_def mp_cur_need_def be_at_bytes take_bit_int_eq_self\<close>)
qed

text \<open>
  What is relied on of the floating-point formats: a \<open>float\<close> has four bytes and a \<open>double\<close> eight, from which the
  number can be read back, and integers up to \<open>2 ^ 53\<close> are exact.
\<close>

definition fp_laws :: "fp_api \<Rightarrow> bool" where
  "fp_laws fp \<longleftrightarrow> (\<forall>d. length (fp_single_bytes fp d) = 4 \<and> length (fp_double_bytes fp d) = 8)
     \<and> (\<forall>d. fp_single fp d = Some d \<longrightarrow> fp_single_of fp (fp_single_bytes fp d) = d)
     \<and> (\<forall>d. fp_double fp d = d \<longrightarrow> fp_double_of fp (fp_double_bytes fp d) = d)
     \<and> (\<forall>i. \<bar>i\<bar> \<le> 2 ^ 53 \<longrightarrow> fp_double fp (of_int i) = of_int i)"

lemma decode_double:
  assumes "fp_laws fp" and "fp_double fp d = d"
  shows "decode_item fp (double_enc fp d @ r) = Done (Value (LNumber d)) r"
proof -
  have l: "length (fp_single_bytes fp d) = 4" "length (fp_double_bytes fp d) = 8"
    and inv: "fp_single fp d = Some d \<Longrightarrow> fp_single_of fp (fp_single_bytes fp d) = d" "fp_double_of fp (fp_double_bytes fp d) = d"
    using assms by (simp_all add: fp_laws_def)
  from l have "fp_single_bytes fp d \<noteq> []" "fp_double_bytes fp d \<noteq> []" by auto
  then show ?thesis using l inv by (auto simp: double_enc_def decode_item_def mp_cur_need_def memrevifle_rev)
qed

lemma int64_range: "- (2 ^ 63) \<le> int64_of_number d" "int64_of_number d < 2 ^ 63"
  by (simp_all add: int64_of_number_def Let_def)

lemma decode_number:
  assumes "fp_laws fp" and "fp_double fp d = d"
  shows "decode_item fp (number_enc fp d @ r) = Done (Value (LNumber d)) r"
proof (cases "IS_INT64_EQUIVALENT d")
  case True
  then show ?thesis using decode_int [OF int64_range, of fp d r] assms(2)
    by (simp add: number_enc_def IS_INT64_EQUIVALENT_def pushinteger_def)
next
  case False
  then show ?thesis using decode_double [OF assms] by (simp add: number_enc_def)
qed

section \<open>Tables\<close>

text \<open>
  Values that can be packed and read back, with \<open>left\<close> levels of tables to go: no functions, threads or userdata,
  tables whose keys differ and are not \<open>nil\<close>. Unpacking puts the entries of an array in order.
\<close>

definition is_table :: "lua_value \<Rightarrow> bool" where
  "is_table v = (case v of LTable _ \<Rightarrow> True | _ \<Rightarrow> False)"

definition keys_ok :: "(lua_value \<times> lua_value) list \<Rightarrow> bool" where
  "keys_ok kvs \<longleftrightarrow> distinct (filter (\<lambda>k. \<not> is_table k) (map fst kvs)) \<and> (\<forall>(k, v) \<in> set kvs. k \<noteq> LNil \<and> v \<noteq> LNil)"

fun packable :: "fp_api \<Rightarrow> nat \<Rightarrow> lua_value \<Rightarrow> bool" where
  "packable fp left LNil = True"
| "packable fp left (LBool b) = True"
| "packable fp left (LNumber r) = (fp_double fp r = r)"
| "packable fp left (LString s) = (length s < 2 ^ 32)"
| "packable fp (Suc left) (LTable kvs) =
     (length kvs < 2 ^ 31 - 1 \<and> keys_ok kvs \<and> (\<forall>(k, v) \<in> set kvs. packable fp left k \<and> packable fp left v))"
| "packable fp left v = False"

fun canon :: "lua_value \<Rightarrow> lua_value" where
  "canon (LTable kvs) =
     (let kvs' = map (\<lambda>(k, v). (canon k, canon v)) kvs
      in LTable (if table_is_an_array kvs then map (\<lambda>i. (LNumber (of_int i), rawgeti kvs' i)) [1..int (length kvs)] else kvs'))"
| "canon v = v"

lemma array_scan_keys:
  "array_scan kvs count mx \<Longrightarrow> mx \<le> count + int (length kvs)
     \<and> (\<forall>k \<in> set (map fst kvs). \<exists>i. 0 < i \<and> i \<le> count + int (length kvs) \<and> k = LNumber (of_int i))"
proof (induction kvs count mx rule: array_scan.induct)
  case (2 n v kvs count mx)
  let ?i = "int_of_number n"
  have n: "0 < n" "n = of_int ?i" and rest: "array_scan kvs (count + 1) (max_step n mx)"
    using "2.prems" by (auto simp: IS_INT_EQUIVALENT_def split: if_splits)
  have i: "0 < ?i" using n by (metis of_int_0_less_iff)
  have m: "max_step n mx = max ?i mx" using n(2) by (metis max_step_def max_def not_le of_int_less_iff order_less_imp_le max.absorb1 max.absorb2)
  have "\<not> (n \<le> 0 \<or> \<not> IS_INT_EQUIVALENT n)" using n by (simp add: IS_INT_EQUIVALENT_def)
  from "2.IH" [OF this rest] n i show ?case by (auto simp: m)
qed auto

lemma array_keys:
  assumes arr: "table_is_an_array kvs" and ok: "keys_ok kvs"
  shows "set (map fst kvs) = (\<lambda>i. LNumber (of_int i)) ` {1..int (length kvs)}" and "distinct (map fst kvs)"
proof -
  have keys: "\<forall>k \<in> set (map fst kvs). \<exists>i. 0 < i \<and> i \<le> int (length kvs) \<and> k = LNumber (of_int i)"
    using array_scan_keys [of kvs 0 0] arr by (simp add: table_is_an_array_def)
  then have "filter (\<lambda>k. \<not> is_table k) (map fst kvs) = map fst kvs" by (auto simp: filter_id_conv is_table_def)
  then show d: "distinct (map fst kvs)" using ok by (simp add: keys_ok_def)
  let ?N = "(\<lambda>i. LNumber (of_int i)) ` {1..int (length kvs)}"
  have sub: "set (map fst kvs) \<subseteq> ?N" using keys by force
  have "card ?N = length kvs" by (subst card_image) (auto simp: inj_on_def)
  moreover have "card (set (map fst kvs)) = length kvs" using distinct_card [OF d] by simp
  ultimately show "set (map fst kvs) = ?N" using card_subset_eq [OF _ sub] by simp
qed

lemma rawgeti_in:
  assumes "LNumber (of_int i) \<in> set (map fst kvs)"
  shows "(LNumber (of_int i), rawgeti kvs i) \<in> set kvs"
proof -
  obtain v where "map_of kvs (LNumber (of_int i)) = Some v" using assms map_of_eq_None_iff [of kvs] by (cases "map_of kvs (LNumber (of_int i))") auto
  then show ?thesis by (simp add: rawgeti_def map_of_SomeD)
qed

lemma array_len:
  assumes "table_is_an_array kvs" and "keys_ok kvs"
  shows "lua_objlen kvs = int (length kvs)" and "\<And>i. 1 \<le> i \<Longrightarrow> i \<le> int (length kvs) \<Longrightarrow> (LNumber (of_int i), rawgeti kvs i) \<in> set kvs"
proof -
  show mem: "(LNumber (of_int i), rawgeti kvs i) \<in> set kvs" if "1 \<le> i" "i \<le> int (length kvs)" for i
    using array_keys(1) [OF assms] that by (intro rawgeti_in) auto
  have tw: "takeWhile (\<lambda>j. rawgeti kvs j \<noteq> LNil) [1..int (length kvs)] = [1..int (length kvs)]"
    using mem assms(2) by (fastforce simp: takeWhile_eq_all_conv keys_ok_def)
  then show "lua_objlen kvs = int (length kvs)" unfolding lua_objlen_def tw by simp
qed

lemma canon_number [simp]: "canon k = LNumber x \<longleftrightarrow> k = LNumber x"
  by (cases k) (simp_all add: Let_def)

lemma canon_number' [simp]: "LNumber x = canon k \<longleftrightarrow> k = LNumber x"
  using canon_number [of k x] by metis

lemma canon_nil [simp]: "canon k = LNil \<longleftrightarrow> k = LNil"
  by (cases k) (simp_all add: Let_def)

lemma is_table_canon [simp]: "is_table (canon k) = is_table k"
  by (cases k) (simp_all add: is_table_def Let_def)

lemma canon_scalar: "\<not> is_table k \<Longrightarrow> canon k = k"
  by (cases k) (simp_all add: is_table_def)

lemma rawgeti_canon: "rawgeti (map (\<lambda>(k, v). (canon k, canon v)) kvs) i = canon (rawgeti kvs i)"
  by (induction kvs) (auto simp: rawgeti_def)

text \<open>Unpacking changes at most the order of a table's entries: the same key has the same value.\<close>

lemma canon_entries:
  assumes "table_is_an_array kvs" and "keys_ok kvs"
  shows "rawgeti (map (\<lambda>i. (LNumber (of_int i), rawgeti (map (\<lambda>(k, v). (canon k, canon v)) kvs) i)) [1..int (length kvs)]) i
     = canon (rawgeti kvs i)"
proof (cases "1 \<le> i \<and> i \<le> int (length kvs)")
  case True
  have "map_of (map (\<lambda>i. (LNumber (of_int i), f i)) is) (LNumber (of_int i)) = (if i \<in> set is then Some (f i) else None)" for f :: "int \<Rightarrow> lua_value" and "is"
    by (induction "is") auto
  then show ?thesis using True by (simp add: rawgeti_canon) (simp add: rawgeti_def)
next
  case False
  have n: "map_of (map (\<lambda>i. (LNumber (of_int i), f i)) is) (LNumber (of_int i)) = (if i \<in> set is then Some (f i) else None)" for f :: "int \<Rightarrow> lua_value" and "is"
    by (induction "is") auto
  have "LNumber (of_int i) \<notin> set (map fst kvs)" using False array_keys(1) [OF assms] by auto
  then have "map_of kvs (LNumber (of_int i)) = None" by (simp add: map_of_eq_None_iff)
  then have "rawgeti kvs i = LNil" by (simp add: rawgeti_def)
  then show ?thesis using False by (simp add: rawgeti_canon) (simp add: rawgeti_def n)
qed

section \<open>Decoding tables\<close>

lemma put_key_new: "\<forall>k' \<in> set (map fst kvs). \<not> same_key k k' \<Longrightarrow> put_key k v kvs = kvs @ [(k, v)]"
  by (induction k v kvs rule: put_key.induct) auto

lemma settable_new:
  "\<forall>k' \<in> set (map fst kvs). \<not> same_key k k' \<Longrightarrow> k \<noteq> LNil \<Longrightarrow> v \<noteq> LNil \<Longrightarrow> lua_settable k v kvs = Done (kvs @ [(k, v)]) []"
  by (simp add: lua_settable_def put_key_new)

text \<open>\<open>enc\<close> is read back from position \<open>h\<close> on the stack.\<close>

definition reads :: "fp_api \<Rightarrow> nat \<Rightarrow> bytes \<Rightarrow> lua_value \<Rightarrow> bool" where
  "reads fp h s v \<longleftrightarrow> (\<forall>r. mp_decode_to_lua_type fp h (s @ r) = Done v r)"

lemma decode_array_ok:
  assumes "\<forall>v \<in> set vs. reads fp (h + 1) (enc v) (canon v) \<and> v \<noteq> LNil"
    and "\<forall>k \<in> set (map fst acc). \<exists>j < i. k = LNumber (of_int j)" and "0 < i" "i + int (length vs) < 2 ^ 31"
  shows "mp_decode_to_lua_array fp h i acc (length vs) (concat (map enc vs) @ r)
     = Done (LTable (acc @ zip (map (\<lambda>j. LNumber (of_int j)) [i..i + int (length vs) - 1]) (map canon vs))) r"
  using assms
proof (induction vs arbitrary: i acc)
  case Nil
  then show ?case by (simp add: mp_decode_to_lua_array.simps)
next
  case (Cons v vs)
  have "mp_decode_to_lua_type fp (h + 1) (enc v @ concat (map enc vs) @ r) = Done (canon v) (concat (map enc vs) @ r)"
    using Cons.prems(1) by (simp add: reads_def)
  moreover have "lua_settable (LNumber (of_int i)) (canon v) acc = Done (acc @ [(LNumber (of_int i), canon v)]) []"
    using Cons.prems(1,2) by (intro settable_new) (auto simp: same_key_def)
  moreover have "c_int (i + 1) = i + 1" using Cons.prems(3,4) by simp
  moreover have "mp_decode_to_lua_array fp h (i + 1) (acc @ [(LNumber (of_int i), canon v)]) (length vs) (concat (map enc vs) @ r)
     = Done (LTable ((acc @ [(LNumber (of_int i), canon v)]) @ zip (map (\<lambda>j. LNumber (of_int j)) [i + 1..i + 1 + int (length vs) - 1]) (map canon vs))) r"
    using Cons.prems by (intro Cons.IH) (force simp: less_Suc_eq)+
  moreover have "[i..i + int (length (v # vs)) - 1] = i # [i + 1..i + 1 + int (length vs) - 1]"
    by (subst upto.simps) (simp add: add.commute add.left_commute)
  ultimately show ?case by (simp add: mp_decode_to_lua_array.simps [of fp h i acc "Suc (length vs)"])
qed

lemma decode_hash_ok:
  assumes "\<forall>(k, v) \<in> set kvs. reads fp h (enc k) (canon k) \<and> reads fp (h + 1) (enc v) (canon v)"
    and "keys_ok (acc @ map (\<lambda>(k, v). (canon k, canon v)) kvs)"
  shows "mp_decode_to_lua_hash fp h acc (length kvs) (concat (map enc (key_values kvs)) @ r)
     = Done (LTable (acc @ map (\<lambda>(k, v). (canon k, canon v)) kvs)) r"
  using assms
proof (induction kvs arbitrary: acc)
  case Nil
  then show ?case by (simp add: mp_decode_to_lua_hash.simps key_values_def)
next
  case (Cons kv kvs)
  obtain k v where kv: "kv = (k, v)" by (cases kv)
  let ?rest = "concat (map enc (key_values kvs)) @ r"
  have k: "mp_decode_to_lua_type fp h (enc k @ enc v @ ?rest) = Done (canon k) (enc v @ ?rest)"
    and v: "mp_decode_to_lua_type fp (h + 1) (enc v @ ?rest) = Done (canon v) ?rest"
    using Cons.prems(1) kv by (auto simp: reads_def)
  have "lua_settable (canon k) (canon v) acc = Done (acc @ [(canon k, canon v)]) []"
  proof (rule settable_new)
    show "\<forall>k' \<in> set (map fst acc). \<not> same_key (canon k) k'"
    proof
      fix k'
      assume k': "k' \<in> set (map fst acc)"
      have "\<not> is_table (canon k) \<Longrightarrow> canon k \<notin> set (map fst acc)" using Cons.prems(2) kv by (auto simp: keys_ok_def)
      with k' show "\<not> same_key (canon k) k'" by (cases "canon k") (auto simp: same_key_def is_table_def)
    qed
    show "canon k \<noteq> LNil" "canon v \<noteq> LNil" using Cons.prems(2) kv by (auto simp: keys_ok_def)
  qed
  moreover have "mp_decode_to_lua_hash fp h (acc @ [(canon k, canon v)]) (length kvs) ?rest
      = Done (LTable ((acc @ [(canon k, canon v)]) @ map (\<lambda>(k, v). (canon k, canon v)) kvs)) r"
    using Cons.prems kv by (intro Cons.IH) auto
  moreover have "concat (map enc (key_values (kv # kvs))) @ r = enc k @ enc v @ ?rest" by (simp add: key_values_def kv)
  ultimately show ?case using k v kv by (simp add: mp_decode_to_lua_hash.simps [of fp h acc "Suc (length kvs)"])
qed

lemma keys_ok_canon: "keys_ok kvs \<Longrightarrow> keys_ok (map (\<lambda>(k, v). (canon k, canon v)) kvs)"
proof -
  have "filter (\<lambda>k. \<not> is_table k) (map fst (map (\<lambda>(k, v). (canon k, canon v)) kvs)) = filter (\<lambda>k. \<not> is_table k) (map fst kvs)"
    by (induction kvs) (auto simp: canon_scalar)
  then show "keys_ok kvs \<Longrightarrow> ?thesis" by (auto simp: keys_ok_def simp del: map_map)
qed

lemma item_reads:
  assumes "\<And>r. decode_item fp (s @ r) = Done (Value v) r" and "s \<noteq> []" and "h + 1 \<le> LUAI_MAXCSTACK"
  shows "reads fp h s v"
  using assms by (cases s) (auto simp: reads_def mp_decode_to_lua_type.simps mp_cur_need_def)

lemma hdr_decodes:
  assumes "0 \<le> n" "n < 2 ^ 32" and "h + 1 \<le> LUAI_MAXCSTACK"
  shows "mp_decode_to_lua_type fp h (array_hdr n @ c) = mp_decode_to_lua_array fp (h + 1) 1 [] (nat n) c"
    and "mp_decode_to_lua_type fp h (map_hdr n @ c) = mp_decode_to_lua_hash fp (h + 1) [] (nat n) c"
proof -
  have "1 \<le> length (array_hdr n)" "1 \<le> length (map_hdr n)" by (simp_all add: array_hdr_def map_hdr_def)
  then show "mp_decode_to_lua_type fp h (array_hdr n @ c) = mp_decode_to_lua_array fp (h + 1) 1 [] (nat n) c"
    "mp_decode_to_lua_type fp h (map_hdr n @ c) = mp_decode_to_lua_hash fp (h + 1) [] (nat n) c"
    using decode_hdrs [OF assms(1,2), of fp c] assms(3) by (simp_all add: mp_decode_to_lua_type.simps mp_cur_need_def)
qed

lemma zip_index: "zip (map f xs) (map g xs) = map (\<lambda>x. (f x, g x)) xs"
  by (induction xs) auto

lemma table_reads:
  assumes elems: "\<And>v h. packable fp left v \<Longrightarrow> h + 2 * left + 1 \<le> LUAI_MAXCSTACK \<Longrightarrow> reads fp h (msgpack fp left v) (canon v)"
    and v: "packable fp (Suc left) (LTable kvs)" and h: "h + 2 * Suc left + 1 \<le> LUAI_MAXCSTACK"
  shows "reads fp h (msgpack fp (Suc left) (LTable kvs)) (canon (LTable kvs))"
proof -
  have kvs: "length kvs < 2 ^ 31 - 1" "keys_ok kvs" "\<And>k v. (k, v) \<in> set kvs \<Longrightarrow> packable fp left k \<and> packable fp left v" using v by auto
  show ?thesis
  proof (cases "table_is_an_array kvs")
    case True
    note len = array_len [OF True kvs(2)]
    have "\<forall>v \<in> set (rawgetis kvs (int (length kvs))). reads fp (h + 1 + 1) (msgpack fp left v) (canon v) \<and> v \<noteq> LNil"
      using len(2) kvs(2,3) h by (fastforce simp: rawgetis_def keys_ok_def intro!: elems)
    then have "mp_decode_to_lua_array fp (h + 1) 1 [] (length kvs) (concat (map (msgpack fp left) (rawgetis kvs (int (length kvs)))) @ r)
        = Done (LTable (zip (map (\<lambda>j. LNumber (of_int j)) [1..int (length kvs)]) (map canon (rawgetis kvs (int (length kvs)))))) r" for r
      using decode_array_ok [of "rawgetis kvs (int (length kvs))" fp "h + 1" "msgpack fp left" "[]" 1 r] kvs(1) by (simp add: rawgetis_def)
    moreover have "canon (LTable kvs) = LTable (zip (map (\<lambda>j. LNumber (of_int j)) [1..int (length kvs)]) (map canon (rawgetis kvs (int (length kvs)))))"
      using True by (simp add: rawgetis_def rawgeti_canon zip_index)
    ultimately show ?thesis using True len(1) h kvs(1)
      by (simp add: reads_def msgpack_code [of fp "Suc left"] msgpack_all_concat hdr_decodes)
  next
    case False
    have "\<forall>(k, v) \<in> set kvs. reads fp (h + 1) (msgpack fp left k) (canon k) \<and> reads fp (h + 1 + 1) (msgpack fp left v) (canon v)"
      using kvs(3) h by (auto intro!: elems)
    then have "mp_decode_to_lua_hash fp (h + 1) [] (length kvs) (concat (map (msgpack fp left) (key_values kvs)) @ r)
        = Done (LTable (map (\<lambda>(k, v). (canon k, canon v)) kvs)) r" for r
      using decode_hash_ok [of kvs fp "h + 1" "msgpack fp left" "[]" r] keys_ok_canon [OF kvs(2)] by simp
    then show ?thesis using False h kvs(1)
      by (simp add: reads_def msgpack_code [of fp "Suc left"] msgpack_all_concat hdr_decodes)
  qed
qed

lemma decode_ok:
  assumes fp: "fp_laws fp"
  shows "packable fp left v \<Longrightarrow> h + 2 * left + 1 \<le> LUAI_MAXCSTACK \<Longrightarrow> reads fp h (msgpack fp left v) (canon v)"
proof (induction left arbitrary: v h)
  have scalar: "reads fp h (msgpack fp left v) (canon v)" if "packable fp left v" "h + 1 \<le> LUAI_MAXCSTACK" "\<not> is_table v" for left v h
  proof (cases v)
    case (LNumber r)
    then show ?thesis using that decode_number [OF fp, of r] by (intro item_reads) (simp_all add: msgpack_code)
  next
    case (LString s)
    then show ?thesis using that decode_raw [of s fp] by (intro item_reads) (simp_all add: msgpack_code)
  qed (use that in \<open>auto simp: msgpack_code is_table_def decode_item_def intro!: item_reads\<close>)
  {
    case 0
    then show ?case using scalar [of 0 v h] by (cases v) (simp_all add: is_table_def)
  next
    case (Suc left)
    show ?case
    proof (cases "is_table v")
      case True
      then obtain kvs where "v = LTable kvs" by (cases v) (auto simp: is_table_def)
      then show ?thesis using table_reads [of fp left kvs h] Suc by blast
    next
      case False
      then show ?thesis using scalar [of "Suc left" v h] Suc.prems by simp
    qed
  }
qed

section \<open>Round trips\<close>

lemma unpack_loop_ok:
  assumes fp: "fp_laws fp"
  shows "\<forall>v \<in> set vs. packable fp left v \<Longrightarrow> h + length vs + 2 * left \<le> LUAI_MAXCSTACK \<Longrightarrow> length vs \<le> k
    \<Longrightarrow> unpack_loop fp h k (concat (map (msgpack fp left) vs)) = Inr (map canon vs, [])"
proof (induction vs arbitrary: h k)
  case Nil
  then show ?case by (simp add: unpack_loop.simps)
next
  case (Cons v vs)
  have "mp_decode_to_lua_type fp h (msgpack fp left v @ concat (map (msgpack fp left) vs)) = Done (canon v) (concat (map (msgpack fp left) vs))"
    using decode_ok [OF fp, of left v h] Cons.prems by (simp add: reads_def)
  moreover have "unpack_loop fp (h + 1) (k - 1) (concat (map (msgpack fp left) vs)) = Inr (map canon vs, [])"
    using Cons.prems by (intro Cons.IH) auto
  ultimately show ?case using Cons.prems(3) msgpack_nonempty [of fp left v] by (simp add: unpack_loop.simps [of fp h k])
qed

lemma unpack_loop_0 [simp]: "unpack_loop fp h 0 c = Inr ([], c)" "unpack_loop fp h k [] = Inr ([], [])"
  by (simp_all add: unpack_loop.simps)

lemma unpack_loop_1: "mp_decode_to_lua_type fp h c = Done v r \<Longrightarrow> c \<noteq> [] \<Longrightarrow> unpack_loop fp h 1 c = Inr ([v], r)"
  by (subst unpack_loop.simps) simp

lemma push_exact: "fp_laws fp \<Longrightarrow> \<bar>i\<bar> \<le> 2 ^ 53 \<Longrightarrow> pushinteger fp i = LNumber (of_int i)"
  by (simp add: pushinteger_def fp_laws_def)


text \<open>
  Reading one value of a stream: \<open>unpack_one\<close> at the offset where the form of a value begins returns the value
  and the offset behind it, or \<open>-1\<close> at the end.
\<close>

theorem unpack_one_steps:
  assumes "fp_laws fp" and "packable fp LUACMSGPACK_MAX_NESTING v"
    and "s = a @ msgpack fp LUACMSGPACK_MAX_NESTING v @ b" and "length s < 2 ^ 31"
  shows "mp_unpack_one lib fp [LString s, LNumber (of_nat (length a))]
     = Ret [LNumber (if b = [] then - 1 else of_nat (length s - length b)), canon v]"
proof -
  let ?m = "msgpack fp LUACMSGPACK_MAX_NESTING v"
  have dec: "mp_decode_to_lua_type fp 1 (?m @ b) = Done (canon v) b"
    using decode_ok [OF assms(1,2), of 1] by (simp add: reads_def LUACMSGPACK_MAX_NESTING_def LUAI_MAXCSTACK_def)
  have loop: "unpack_loop fp 1 1 (?m @ b) = Inr ([canon v], b)"
    using msgpack_nonempty [of fp LUACMSGPACK_MAX_NESTING v] by (intro unpack_loop_1 [OF dec]) simp
  have la: "int (length a) < 2 ^ 31" "length a \<le> length s" using assms(3,4) by simp_all
  have i: "int64_of_number (of_nat (length a)) = int (length a)"
    using la trunc_rat_of_int [of "int (length a)"] by (simp add: int64_of_number_def)
  have off: "luaL_optinteger lib [LString s, LNumber (of_nat (length a))] 2 0 = Inr (int (length a))"
    by (simp add: luaL_optinteger_def luaL_checkinteger_def lua_isnumber_def lua_isnil_def lua_tonumber_def tonumber_def arg_def i)
  have d: "int (length s) - int (length b) = int (length s - length b)" using assms(3) by simp
  have n: "pushinteger fp (int (length s) - int (length b)) = LNumber (of_nat (length s - length b))" "pushinteger fp (- 1) = LNumber (- 1)"
    unfolding d using assms(4) push_exact [OF assms(1), of "int (length s - length b)"] push_exact [OF assms(1), of "- 1"] by simp_all
  have c: "c_int (int (length s) - int (length b)) = int (length s) - int (length b)" unfolding d using assms(4) by simp
  have "drop (length a) s = ?m @ b" using assms(3) by simp
  then show ?thesis using la loop n c
    by (simp add: mp_unpack_one_def off mp_unpack_full_def luaL_checklstring_def lua_tolstring_def tolstring_def arg_def)
qed

section \<open>Truncated input\<close>

text \<open>
  \<open>d\<close> is the result on \<open>c\<close> and \<open>d'\<close> the one on the first \<open>m\<close> bytes: if \<open>d\<close> is a value of \<open>n \<ge> k\<close> bytes, \<open>d'\<close> is the same
  value, or the end of the input when fewer than \<open>n\<close> are there.
\<close>

definition cut_at :: "nat \<Rightarrow> nat \<Rightarrow> bytes \<Rightarrow> 'a decoded \<Rightarrow> 'a decoded \<Rightarrow> bool" where
  "cut_at k m c d d' \<longleftrightarrow> (case d of
     Done i r \<Rightarrow> \<exists>n. k \<le> n \<and> n \<le> length c \<and> r = drop n c \<and> d' = (if m < n then Eof else Done i (drop n (take m c)))
   | _ \<Rightarrow> True)"

lemma cut_if: "(b \<Longrightarrow> cut_at k m c x x') \<Longrightarrow> (\<not> b \<Longrightarrow> cut_at k m c y y') \<Longrightarrow> cut_at k m c (if b then x else y) (if b then x' else y')"
  by simp

lemma cut_need:
  assumes "1 \<le> n" and "n \<le> m \<Longrightarrow> n \<le> length c \<Longrightarrow> i' = i"
  shows "cut_at 1 m c (mp_cur_need n c (Done i (drop n c))) (mp_cur_need n (take m c) (Done i' (drop n (take m c))))"
  using assms by (auto simp: cut_at_def mp_cur_need_def intro!: exI [of _ n])

lemma cut_raw:
  assumes "1 \<le> n" and "n \<le> m \<Longrightarrow> n \<le> length c \<Longrightarrow> l' = l"
  shows "cut_at 1 m c (mp_cur_need n c (raw_at n l c)) (mp_cur_need n (take m c) (raw_at n l' (take m c)))"
proof (cases "n + l \<le> length c")
  case True
  then show ?thesis using assms
    by (auto simp: cut_at_def mp_cur_need_def raw_at_def drop_take min_def intro!: exI [of _ "n + l"])
next
  case False
  then show ?thesis by (auto simp: cut_at_def mp_cur_need_def raw_at_def)
qed

lemma cut_one: "1 \<le> m \<Longrightarrow> 1 \<le> length c \<Longrightarrow> cut_at 1 m c (Done i (drop 1 c)) (Done i (drop 1 (take m c)))"
  by (auto simp: cut_at_def intro!: exI [of _ 1])

lemma cut_done: "cut_at 0 m c (Done v c) (Done v (take m c))"
  by (auto simp: cut_at_def intro!: exI [of _ 0])

lemma cut_error: "cut_at k m c (Raised e) d" "cut_at k m c Eof d" "cut_at k m c Badfmt d"
  by (simp_all add: cut_at_def)

lemma cut_weak: "cut_at k m c d d' \<Longrightarrow> cut_at 0 m c d d'"
  unfolding cut_at_def by (erule rev_mp, rule decoded.exhaust [of d]; simp only: decoded.case) blast+

lemma at_take:
  "i < m \<Longrightarrow> u8 (take m c) i = u8 c i"
  "3 \<le> m \<Longrightarrow> be16_at (take m c) = be16_at c" "5 \<le> m \<Longrightarrow> be32_at (take m c) = be32_at c" "9 \<le> m \<Longrightarrow> be64_at (take m c) = be64_at c"
  by (simp_all add: u8_def be16_at_def be32_at_def be64_at_def)

lemma image_take:
  "5 \<le> m \<Longrightarrow> take 4 (drop (Suc 0) (take m c)) = take 4 (drop (Suc 0) c)" "9 \<le> m \<Longrightarrow> take 8 (drop (Suc 0) (take m c)) = take 8 (drop (Suc 0) c)"
  by (simp_all add: drop_take)

lemma cut_raw_1:
  assumes "1 \<le> m" "1 \<le> length c"
  shows "cut_at 1 m c (raw_at 1 l c) (raw_at 1 l (take m c))"
proof -
  have "mp_cur_need 1 c (raw_at 1 l c) = raw_at 1 l c" "mp_cur_need 1 (take m c) (raw_at 1 l (take m c)) = raw_at 1 l (take m c)"
    using assms by (auto simp: mp_cur_need_def raw_at_def)
  then show ?thesis using cut_raw [of 1 m c l l] by simp
qed

lemma cut_other:
  assumes "1 \<le> m" "1 \<le> length c"
  shows "cut_at 1 m c (decode_other fp c) (decode_other fp (take m c))"
  unfolding decode_other_def Let_def at_take(1) [OF assms(1) [unfolded One_nat_def Suc_le_eq]]
  by (intro cut_if cut_one cut_raw_1 cut_error assms)

lemma cut_decode:
  assumes "1 \<le> m" "1 \<le> length c"
  shows "cut_at 1 m c (decode_item fp c) (decode_item fp (take m c))"
  unfolding decode_item_def Let_def at_take(1) [OF assms(1) [unfolded One_nat_def Suc_le_eq]]
  by (intro cut_if cut_one cut_raw cut_need cut_other assms) (simp_all add: at_take image_take)

text \<open>One decoding after another.\<close>

definition dbind :: "'a decoded \<Rightarrow> ('a \<Rightarrow> bytes \<Rightarrow> 'b decoded) \<Rightarrow> 'b decoded" where
  "dbind d f = (case d of Done v c \<Rightarrow> f v c | Eof \<Rightarrow> Eof | Badfmt \<Rightarrow> Badfmt | Raised e \<Rightarrow> Raised e)"

lemma cut_bind:
  assumes d: "cut_at k m c d d'" and f: "\<And>v c1 m1. d = Done v c1 \<Longrightarrow> cut_at 0 m1 c1 (f v c1) (f v (take m1 c1))"
  shows "cut_at k m c (dbind d f) (dbind d' f)"
proof (cases d)
  case (Done v r)
  then obtain n where n: "k \<le> n" "n \<le> length c" "r = drop n c" "d' = (if m < n then Eof else Done v (drop n (take m c)))"
    using d by (auto simp: cut_at_def)
  show ?thesis
  proof (cases "f v r")
    case D2: (Done v2 r2)
    then obtain n2 where n2: "n2 \<le> length r" "r2 = drop n2 r" "f v (take (m - n) r) = (if m - n < n2 then Eof else Done v2 (drop n2 (take (m - n) r)))"
      using f [OF Done, of "m - n"] by (auto simp: cut_at_def)
    have t: "drop n (take m c) = take (m - n) r" using n(3) by (simp add: drop_take)
    have t2: "drop n2 (take (m - n) r) = drop (n + n2) (take m c)" unfolding t [symmetric] by (simp add: add.commute)
    have "dbind d' f = (if m < n + n2 then Eof else Done v2 (drop (n + n2) (take m c)))"
    proof (cases "m < n")
      case False
      then have "dbind d' f = f v (take (m - n) r)" using n(4) t by (simp add: dbind_def)
      also have "\<dots> = (if m < n + n2 then Eof else Done v2 (drop (n + n2) (take m c)))" unfolding n2(3) t2 using False by auto
      finally show ?thesis .
    qed (simp add: n(4) dbind_def)
    moreover have "n + n2 \<le> length c" "r2 = drop (n + n2) c" using n n2 by (simp_all add: add.commute)
    moreover have "dbind d f = Done v2 r2" using Done D2 by (simp add: dbind_def)
    ultimately show ?thesis unfolding cut_at_def using n(1) by (simp del: drop_drop) (metis le_add1 order_trans)
  qed (simp_all add: cut_at_def dbind_def Done)
qed (simp_all add: cut_at_def dbind_def)

lemma type_bind:
  "mp_decode_to_lua_type fp h c = mp_cur_need 1 c (if h + 1 > LUAI_MAXCSTACK then Raised too_many
     else dbind (decode_item fp c) (\<lambda>x c'. case x of Value v \<Rightarrow> Done v c'
       | Array l \<Rightarrow> mp_decode_to_lua_array fp (h + 1) 1 [] l c' | Hash l \<Rightarrow> mp_decode_to_lua_hash fp (h + 1) [] l c'))"
  by (simp add: mp_decode_to_lua_type.simps dbind_def split: decoded.splits mp_item.splits)

lemma array_bind:
  "mp_decode_to_lua_array fp h i kvs (Suc len) c = dbind (mp_decode_to_lua_type fp (h + 1) c) (\<lambda>v c'.
     case lua_settable (LNumber (of_int i)) v kvs of Done kvs' _ \<Rightarrow> mp_decode_to_lua_array fp h (c_int (i + 1)) kvs' len c'
       | Raised e \<Rightarrow> Raised e | Eof \<Rightarrow> Eof | Badfmt \<Rightarrow> Badfmt)"
  by (simp only: mp_decode_to_lua_array.simps [of fp h i kvs "Suc len"] dbind_def nat.case)

lemma hash_bind:
  "mp_decode_to_lua_hash fp h kvs (Suc len) c = dbind (mp_decode_to_lua_type fp h c) (\<lambda>k c1.
     dbind (mp_decode_to_lua_type fp (h + 1) c1) (\<lambda>v c2.
       case lua_settable k v kvs of Done kvs' _ \<Rightarrow> mp_decode_to_lua_hash fp h kvs' len c2
       | Raised e \<Rightarrow> Raised e | Eof \<Rightarrow> Eof | Badfmt \<Rightarrow> Badfmt))"
  by (simp only: mp_decode_to_lua_hash.simps [of fp h kvs "Suc len"] dbind_def nat.case)

lemma cut_array:
  assumes "\<And>m c. cut_at 1 m c (mp_decode_to_lua_type fp (h + 1) c) (mp_decode_to_lua_type fp (h + 1) (take m c))"
  shows "cut_at 0 m c (mp_decode_to_lua_array fp h i kvs len c) (mp_decode_to_lua_array fp h i kvs len (take m c))"
proof (induction len arbitrary: i kvs c m)
  case 0
  then show ?case by (simp add: mp_decode_to_lua_array.simps cut_done)
next
  case (Suc len)
  show ?case unfolding array_bind
    by (rule cut_bind [OF cut_weak [OF assms]]) (simp add: Suc cut_error split: decoded.splits)
qed

lemma cut_hash:
  assumes "\<And>m c. cut_at 1 m c (mp_decode_to_lua_type fp h c) (mp_decode_to_lua_type fp h (take m c))"
    and "\<And>m c. cut_at 1 m c (mp_decode_to_lua_type fp (h + 1) c) (mp_decode_to_lua_type fp (h + 1) (take m c))"
  shows "cut_at 0 m c (mp_decode_to_lua_hash fp h kvs len c) (mp_decode_to_lua_hash fp h kvs len (take m c))"
proof (induction len arbitrary: kvs c m)
  case 0
  then show ?case by (simp add: mp_decode_to_lua_hash.simps cut_done)
next
  case (Suc len)
  show ?case unfolding hash_bind
    by (rule cut_bind [OF cut_weak [OF assms(1)]], rule cut_bind [OF cut_weak [OF assms(2)]]) (simp add: Suc cut_error split: decoded.splits)
qed

lemma decode_cut: "cut_at 1 m c (mp_decode_to_lua_type fp h c) (mp_decode_to_lua_type fp h (take m c))"
proof (induction h arbitrary: c m rule: measure_induct_rule [of "\<lambda>h. LUAI_MAXCSTACK - h"])
  case (less h)
  show ?case
  proof (cases "h + 1 > LUAI_MAXCSTACK \<or> c = []")
    case True
    then show ?thesis by (auto simp: mp_decode_to_lua_type.simps mp_cur_need_def cut_error)
  next
    case False
    then have c: "1 \<le> length c" and h: "\<not> h + 1 > LUAI_MAXCSTACK" by (cases c; simp)+
    have up: "cut_at 1 m c (mp_decode_to_lua_type fp h' c) (mp_decode_to_lua_type fp h' (take m c))" if "h < h'" for h' m c
      using that h by (intro less) auto
    have pos: "cut_at 1 m c (mp_decode_to_lua_type fp h c) (mp_decode_to_lua_type fp h (take m c))" if "1 \<le> m" for m
    proof -
      have "(length (take m c) < 1) = False" "(length c < 1) = False" "(h + 1 > LUAI_MAXCSTACK) = False" using c h that by auto
      moreover have "cut_at 1 m c (dbind (decode_item fp c) (\<lambda>x c'. case x of Value v \<Rightarrow> Done v c'
          | Array l \<Rightarrow> mp_decode_to_lua_array fp (h + 1) 1 [] l c' | Hash l \<Rightarrow> mp_decode_to_lua_hash fp (h + 1) [] l c'))
        (dbind (decode_item fp (take m c)) (\<lambda>x c'. case x of Value v \<Rightarrow> Done v c'
          | Array l \<Rightarrow> mp_decode_to_lua_array fp (h + 1) 1 [] l c' | Hash l \<Rightarrow> mp_decode_to_lua_hash fp (h + 1) [] l c'))"
        by (rule cut_bind [OF cut_decode [OF that c]]) (auto split: mp_item.splits intro!: cut_done cut_array cut_hash up)
      ultimately show ?thesis unfolding type_bind [of fp h] mp_cur_need_def by (simp only: if_False)
    qed
    show ?thesis
    proof (cases "m = 0")
      case True
      have "mp_decode_to_lua_type fp h (take m c) = Eof" using True by (simp add: mp_decode_to_lua_type.simps mp_cur_need_def)
      then show ?thesis using pos [of 1] True by (auto simp: cut_at_def split: decoded.splits)
    next
      case False
      then show ?thesis by (intro pos) simp
    qed
  qed
qed

lemma unpack_single:
  assumes "unpack_loop fp h k c = Inr ([v], r)" and "k \<ge> 2" and "c \<noteq> []"
  shows "mp_decode_to_lua_type fp h c = Done v []"
proof (cases "mp_decode_to_lua_type fp h c")
  case (Done v' c')
  then obtain x where x: "v' = v" "unpack_loop fp (h + 1) (k - 1) c' = Inr ([], x)"
    using assms by (subst (asm) unpack_loop.simps) (auto split: sum.splits)
  have "c' = []"
    using x(2) assms(2) by (subst (asm) unpack_loop.simps) (auto split: decoded.splits sum.splits if_splits)
  with Done x(1) show ?thesis by simp
qed (use assms in \<open>simp_all add: unpack_loop.simps [of fp h k c]\<close>)

text \<open>
  (C23) Truncated input is noticed wherever it is cut: if a string holds exactly one value, every proper prefix of it but the empty one, however
  nested the value and wherever the cut falls, makes \<open>unpack\<close> raise the error for missing bytes.
\<close>

theorem unpack_truncated:
  assumes "mp_unpack lib fp [LString s] = Ret [v]" and "0 < m" "m < length s"
  shows "mp_unpack lib fp [LString (take m s)] = Raise ''Missing bytes in input.''"
proof -
  let ?k = "nat (2 ^ 31 - 1)"
  have k: "2 \<le> ?k" by simp
  have ne: "s \<noteq> []" "take m s \<noteq> []" using assms(2,3) by auto
  obtain r where "unpack_loop fp 1 ?k s = Inr ([v], r)"
    using assms(1) by (auto simp: mp_unpack_def mp_unpack_full_def luaL_checklstring_def lua_tolstring_def tolstring_def arg_def split: sum.splits)
  then have "mp_decode_to_lua_type fp 1 s = Done v []" using unpack_single k ne(1) by blast
  then have "mp_decode_to_lua_type fp 1 (take m s) = Eof"
    using decode_cut [of m s fp 1] assms(3) by (auto simp: cut_at_def)
  then have "unpack_loop fp 1 ?k (take m s) = Inl ''Missing bytes in input.''"
    using ne(2) by (subst unpack_loop.simps) simp
  then show ?thesis
    by (simp add: mp_unpack_def mp_unpack_full_def luaL_checklstring_def lua_tolstring_def tolstring_def arg_def)
qed

section \<open>Concrete values\<close>

text \<open>A machine whose numbers are the multiples of one half up to \<open>2 ^ 61\<close>, and which has no \<open>float\<close>.\<close>

definition demo_fp :: fp_api where
  "demo_fp = \<lparr>fp_little = True,
     fp_double = (\<lambda>r. if of_int \<lfloor>2 * r\<rfloor> = 2 * r \<and> \<bar>\<lfloor>2 * r\<rfloor>\<bar> \<le> 2 ^ 62 then r else 0),
     fp_single = (\<lambda>_. None),
     fp_single_bytes = (\<lambda>_. [CHR 0x00, CHR 0x00, CHR 0x00, CHR 0x00]),
     fp_double_bytes = (\<lambda>d. let n = \<lfloor>2 * d\<rfloor> in map (byte_of n) [0, 8, 16, 24, 32, 40, 48, 56]),
     fp_single_of = (\<lambda>_. 0),
     fp_double_of = (\<lambda>bs. of_int (signed_take_bit 63 (be64_at (CHR 0xcb # rev bs))) / 2)\<rparr>"

definition demo_mem :: mem_api where "demo_mem = \<lparr>mem_ok = (\<lambda>_. True), mem_junk = (\<lambda>_. CHR 0x00)\<rparr>"

definition demo_lib :: lua_lib where "demo_lib = \<lparr>str2number = (\<lambda>_. None), number2str = (\<lambda>_. [])\<rparr>"

lemma demo_mem_total: "mem_total demo_mem"
  by (simp add: mem_total_def demo_mem_def)

lemma demo_fp_laws: "fp_laws demo_fp"
proof -
  have d: "fp_double_of demo_fp (fp_double_bytes demo_fp d) = d" if "fp_double demo_fp d = d" for d
  proof -
    define n where "n = \<lfloor>2 * d\<rfloor>"
    have n: "of_int n = 2 * d" "\<bar>n\<bar> \<le> 2 ^ 62" using that by (auto simp: demo_fp_def n_def split: if_splits)
    have "fp_double_of demo_fp (fp_double_bytes demo_fp d) = of_int (signed_take_bit 63 n) / 2"
      by (simp add: demo_fp_def Let_def n_def [symmetric] be_at_bytes signed_take_bit_take_bit)
    also have "signed_take_bit 63 n = n" using n(2) by (intro signed_take_bit_int_eq_self) auto
    finally show ?thesis using n(1) by simp
  qed
  have i: "fp_double demo_fp (of_int i) = of_int i" if "\<bar>i\<bar> \<le> 2 ^ 53" for i
  proof -
    have "\<lfloor>2 * of_int i :: rat\<rfloor> = 2 * i" by (metis floor_of_int of_int_mult of_int_numeral)
    then have "of_int \<lfloor>2 * of_int i :: rat\<rfloor> = (2 * of_int i :: rat)" "\<bar>\<lfloor>2 * of_int i :: rat\<rfloor>\<bar> \<le> 2 ^ 62"
      using that by (simp_all only: of_int_mult of_int_numeral) (simp add: abs_mult)
    then show ?thesis unfolding demo_fp_def fp_api.select_convs by (simp only: simp_thms if_True)
  qed
  show ?thesis using d i unfolding fp_laws_def by (auto simp: demo_fp_def Let_def)
qed

lemma max_nesting: "LUACMSGPACK_MAX_NESTING = Suc (Suc 14)"
  by (simp add: LUACMSGPACK_MAX_NESTING_def)

lemma demo_chars: "char_of (200 :: int) = CHR 0xc8" "char_of (162 :: int) = CHR 0xa2" "char_of (145 :: int) = CHR 0x91" "char_of (146 :: int) = CHR 0x92"
  by code_simp+

lemmas demo_form = msgpack_code msgpack_all_concat max_nesting number_enc_def IS_INT64_EQUIVALENT_def int64_of_number_def int_enc_def
  bytes_hdr_def byte_of_def table_is_an_array_def IS_INT_EQUIVALENT_def int_of_number_def max_step_def lua_objlen_def rawgetis_def
  rawgeti_def array_hdr_def upto.simps demo_chars


lemma demo_half: "trunc_rat (1 / 2) = 0" "fp_double demo_fp (1 / 2) = 1 / 2" "fp_double demo_fp 1 = 1" "fp_double demo_fp 2 = 2"
  by (simp_all add: trunc_rat_def demo_fp_def floor_eq_iff)

lemma packable_table:
  "0 < n \<Longrightarrow> packable fp n (LTable kvs) \<longleftrightarrow>
     length kvs < 2 ^ 31 - 1 \<and> keys_ok kvs \<and> (\<forall>(k, v) \<in> set kvs. packable fp (n - 1) k \<and> packable fp (n - 1) v)"
  by (cases n) simp_all


theorem unpack_one_steps_witness:
  "mp_unpack_one demo_lib demo_fp [LString [CHR 0xc0, CHR 0xc3, CHR 0xc2], LNumber 1] = Ret [LNumber 2, LBool True]"
  using unpack_one_steps [OF demo_fp_laws, of "LBool True" "[CHR 0xc0, CHR 0xc3, CHR 0xc2]" "[CHR 0xc0]" "[CHR 0xc2]" demo_lib]
  by (simp add: demo_form)

theorem unpack_truncated_witness:
  "mp_unpack demo_lib demo_fp [LString [CHR 0x92, CHR 0xc3]] = Raise ''Missing bytes in input.''"
proof -
  let ?v = "LTable [(LNumber 1, LBool True), (LNumber 2, LBool False)]"
  have "packable demo_fp LUACMSGPACK_MAX_NESTING ?v"
    by (simp add: LUACMSGPACK_MAX_NESTING_def packable_table keys_ok_def is_table_def demo_half)
  then have "unpack_loop demo_fp 1 (nat (2 ^ 31 - 1)) (msgpack demo_fp LUACMSGPACK_MAX_NESTING ?v) = Inr ([canon ?v], [])"
    using unpack_loop_ok [OF demo_fp_laws, of "[?v]" LUACMSGPACK_MAX_NESTING 1 "nat (2 ^ 31 - 1)"]
    by (simp add: LUACMSGPACK_MAX_NESTING_def LUAI_MAXCSTACK_def)
  then have "mp_unpack demo_lib demo_fp [LString [CHR 0x92, CHR 0xc3, CHR 0xc2]] = Ret [canon ?v]"
    by (simp add: demo_form mp_unpack_def mp_unpack_full_def luaL_checklstring_def lua_tolstring_def tolstring_def arg_def)
  from unpack_truncated [OF this, of 2] show ?thesis by simp
qed

end
