(* ===== verification/Bit_Ops.thy ===== *)
theory Bit_Ops
  imports Lua_Api
begin

text \<open>
  Lua BitOp (\<open>bit.c\<close>) for Lua 5.1 and \<open>double\<close> numbers: the conversion of a number to 32 bits by adding a large
  constant, the bitwise operations, shifts, rotations and hexadecimal output. \<open>None\<close> is an undefined operation of C.
\<close>

section \<open>Numbers as bits\<close>

text \<open>Addition of \<open>double\<close> values, and the 64 bits of a \<open>double\<close> (the union \<open>BitNum\<close>).\<close>

record bit_num =
  bn_add :: "rat \<Rightarrow> rat \<Rightarrow> rat"
  bn_b :: "rat \<Rightarrow> u64"

definition barg :: "lua_lib \<Rightarrow> bit_num \<Rightarrow> lua_value list \<Rightarrow> nat \<Rightarrow> string + u32" where
  "barg lib bn st idx =
     (let b = ucast (bn_b bn (bn_add bn (lua_tonumber lib st idx) 6755399441055744)) :: u32
      in if b = 0 \<and> \<not> lua_isnumber lib st idx then Inl ''number expected'' else Inr b)"

definition BRET :: "u32 \<Rightarrow> lua_ret" where
  "BRET b = Ret [LNumber (of_int (sint b))]"

definition bit_tobit :: "lua_lib \<Rightarrow> bit_num \<Rightarrow> lua_value list \<Rightarrow> lua_ret" where
  "bit_tobit lib bn st = (case barg lib bn st 1 of Inl e \<Rightarrow> Raise e | Inr b \<Rightarrow> BRET b)"

definition bit_bnot :: "lua_lib \<Rightarrow> bit_num \<Rightarrow> lua_value list \<Rightarrow> lua_ret" where
  "bit_bnot lib bn st = (case barg lib bn st 1 of Inl e \<Rightarrow> Raise e | Inr b \<Rightarrow> BRET (NOT b))"

text \<open>\<open>BIT_OP\<close>: the arguments from the last to the second.\<close>

fun op_loop :: "lua_lib \<Rightarrow> bit_num \<Rightarrow> (u32 \<Rightarrow> u32 \<Rightarrow> u32) \<Rightarrow> lua_value list \<Rightarrow> nat \<Rightarrow> u32 \<Rightarrow> string + u32" where
  "op_loop lib bn opr st i b =
     (if i > 1 then (case barg lib bn st i of Inl e \<Rightarrow> Inl e | Inr x \<Rightarrow> op_loop lib bn opr st (i - 1) (opr b x)) else Inr b)"

declare op_loop.simps [simp del]

definition BIT_OP :: "(u32 \<Rightarrow> u32 \<Rightarrow> u32) \<Rightarrow> lua_lib \<Rightarrow> bit_num \<Rightarrow> lua_value list \<Rightarrow> lua_ret" where
  "BIT_OP opr lib bn st =
     (case barg lib bn st 1 of
        Inl e \<Rightarrow> Raise e
      | Inr b \<Rightarrow> (case op_loop lib bn opr st (lua_gettop st) b of Inl e \<Rightarrow> Raise e | Inr b \<Rightarrow> BRET b))"

definition bit_band :: "lua_lib \<Rightarrow> bit_num \<Rightarrow> lua_value list \<Rightarrow> lua_ret" where "bit_band = BIT_OP (AND)"
definition bit_bor :: "lua_lib \<Rightarrow> bit_num \<Rightarrow> lua_value list \<Rightarrow> lua_ret" where "bit_bor = BIT_OP (OR)"
definition bit_bxor :: "lua_lib \<Rightarrow> bit_num \<Rightarrow> lua_value list \<Rightarrow> lua_ret" where "bit_bxor = BIT_OP (XOR)"

section \<open>Shifts\<close>

text \<open>Shifting a 32-bit value by 32 is undefined; this happens when a rotation by zero is asked for.\<close>

definition shl :: "u32 \<Rightarrow> nat \<Rightarrow> u32 option" where "shl b n = (if n < 32 then Some (push_bit n b) else None)"
definition shr :: "u32 \<Rightarrow> nat \<Rightarrow> u32 option" where "shr b n = (if n < 32 then Some (drop_bit n b) else None)"

definition bshl :: "u32 \<Rightarrow> nat \<Rightarrow> u32 option" where "bshl b n = shl b n"
definition bshr :: "u32 \<Rightarrow> nat \<Rightarrow> u32 option" where "bshr b n = shr b n"
definition bsar :: "u32 \<Rightarrow> nat \<Rightarrow> u32 option" where "bsar b n = (if n < 32 then Some (signed_drop_bit n b) else None)"
definition brol :: "u32 \<Rightarrow> nat \<Rightarrow> u32 option" where "brol b n = do { x \<leftarrow> shl b n; y \<leftarrow> shr b (32 - n); Some (x OR y) }"
definition bror :: "u32 \<Rightarrow> nat \<Rightarrow> u32 option" where "bror b n = do { x \<leftarrow> shl b (32 - n); y \<leftarrow> shr b n; Some (x OR y) }"

definition BIT_SH :: "(u32 \<Rightarrow> nat \<Rightarrow> u32 option) \<Rightarrow> lua_lib \<Rightarrow> bit_num \<Rightarrow> lua_value list \<Rightarrow> lua_ret option" where
  "BIT_SH fn lib bn st =
     (case barg lib bn st 1 of
        Inl e \<Rightarrow> Some (Raise e)
      | Inr b \<Rightarrow> (case barg lib bn st 2 of
          Inl e \<Rightarrow> Some (Raise e)
        | Inr n \<Rightarrow> map_option BRET (fn b (unat (n AND 31)))))"

definition bit_lshift :: "lua_lib \<Rightarrow> bit_num \<Rightarrow> lua_value list \<Rightarrow> lua_ret option" where "bit_lshift = BIT_SH bshl"
definition bit_rshift :: "lua_lib \<Rightarrow> bit_num \<Rightarrow> lua_value list \<Rightarrow> lua_ret option" where "bit_rshift = BIT_SH bshr"
definition bit_arshift :: "lua_lib \<Rightarrow> bit_num \<Rightarrow> lua_value list \<Rightarrow> lua_ret option" where "bit_arshift = BIT_SH bsar"
definition bit_rol :: "lua_lib \<Rightarrow> bit_num \<Rightarrow> lua_value list \<Rightarrow> lua_ret option" where "bit_rol = BIT_SH brol"
definition bit_ror :: "lua_lib \<Rightarrow> bit_num \<Rightarrow> lua_value list \<Rightarrow> lua_ret option" where "bit_ror = BIT_SH bror"

definition bswap :: "u32 \<Rightarrow> u32" where
  "bswap b = drop_bit 24 b OR (drop_bit 8 b AND 0xff00) OR push_bit 8 (b AND 0xff00) OR push_bit 24 b"

definition bit_bswap :: "lua_lib \<Rightarrow> bit_num \<Rightarrow> lua_value list \<Rightarrow> lua_ret" where
  "bit_bswap lib bn st = (case barg lib bn st 1 of Inl e \<Rightarrow> Raise e | Inr b \<Rightarrow> BRET (bswap b))"

section \<open>Hexadecimal output\<close>

fun hex_fill :: "string \<Rightarrow> nat \<Rightarrow> u32 \<Rightarrow> string \<Rightarrow> string" where
  "hex_fill hexdigits 0 b buf = buf"
| "hex_fill hexdigits (Suc i) b buf = hex_fill hexdigits i (drop_bit 4 b) (buf[i := hexdigits ! unat (b AND 15)])"

text \<open>\<open>n = -n\<close> is undefined for the smallest \<open>int\<close>. \<open>junk\<close> is what the local array holds.\<close>

definition bit_tohex :: "(nat \<Rightarrow> char) \<Rightarrow> lua_lib \<Rightarrow> bit_num \<Rightarrow> lua_value list \<Rightarrow> lua_ret option" where
  "bit_tohex junk lib bn st =
     (case barg lib bn st 1 of
        Inl e \<Rightarrow> Some (Raise e)
      | Inr b \<Rightarrow>
          (case (if arg st 2 = None then Inr 8 else map_sum id sint (barg lib bn st 2)) of
             Inl e \<Rightarrow> Some (Raise e)
           | Inr n \<Rightarrow>
               if n = - (2 ^ 31) then None
               else
                 let hexdigits = (if n < 0 then ''0123456789ABCDEF'' else ''0123456789abcdef'');
                     n = nat (if n < 0 then - n else n);
                     n = (if n > 8 then 8 else n)
                 in Some (Ret [LString (take n (hex_fill hexdigits n b (map junk [0..<8])))])))"

text \<open>The self-test of \<open>luaopen_bit\<close>: the message of the error it raises.\<close>

definition bit_self_test :: "lua_lib \<Rightarrow> bit_num \<Rightarrow> string option" where
  "bit_self_test lib bn =
     (let b = (case barg lib bn [LNumber 1437217655] 1 of Inr b \<Rightarrow> b | Inl _ \<Rightarrow> 0);
          bad_sar = (bsar (- 8) 2 \<noteq> Some (- 2))
      in if b \<noteq> 1437217655 \<or> bad_sar
         then let msg = ''compiled with incompatible luaconf.h'';
                  msg = (if b = 1127743488 then ''not compiled with SWAPPED_DOUBLE'' else msg);
                  msg = (if bad_sar then ''arithmetic right-shift broken'' else msg)
              in Some (''bit library self-test failed ('' @ msg @ '')'')
         else None)"

section \<open>Arguments\<close>

text \<open>
  What is relied on of IEEE 754 doubles: a sum between \<open>2 ^ 52\<close> and \<open>2 ^ 53\<close> is rounded to an integer, ties to even, and
  such an integer is stored in the mantissa.
\<close>

definition round_even :: "rat \<Rightarrow> int" where
  "round_even r = (let f = \<lfloor>r\<rfloor>; d = r - of_int f in if d < 1 / 2 \<or> d = 1 / 2 \<and> even f then f else f + 1)"

definition bn_laws :: "bit_num \<Rightarrow> bool" where
  "bn_laws bn \<longleftrightarrow> (\<forall>r. \<bar>r\<bar> \<le> 2 ^ 51 \<longrightarrow> bn_add bn r 6755399441055744 = of_int (round_even r + 6755399441055744))
     \<and> (\<forall>i. 2 ^ 52 \<le> i \<and> i < 2 ^ 53 \<longrightarrow> bn_b bn (of_int i) = push_bit 52 1075 OR word_of_int (i - 2 ^ 52))"

lemma round_even_of_int [simp]: "round_even (of_int i) = i"
  by (simp add: round_even_def)

lemma round_even_bounds:
  assumes "\<bar>r\<bar> \<le> of_int m"
  shows "\<bar>round_even r\<bar> \<le> m"
proof -
  have "\<lfloor>r\<rfloor> \<le> m" "- m \<le> \<lfloor>r\<rfloor>" using assms by (simp_all add: floor_le_iff le_floor_iff abs_le_iff)
  moreover have "round_even r = \<lfloor>r\<rfloor> + 1 \<Longrightarrow> of_int \<lfloor>r\<rfloor> \<noteq> r" by (auto simp: round_even_def Let_def split: if_splits)
  moreover have "\<lfloor>r\<rfloor> < m" if "of_int \<lfloor>r\<rfloor> \<noteq> r"
  proof -
    have "(of_int \<lfloor>r\<rfloor> :: rat) < r" using that of_int_floor_le [of r] by linarith
    also have "r \<le> of_int m" using assms by simp
    finally show ?thesis by simp
  qed
  moreover have "round_even r = \<lfloor>r\<rfloor> \<or> round_even r = \<lfloor>r\<rfloor> + 1" by (simp add: round_even_def Let_def)
  ultimately show ?thesis by auto
qed

lemma low_bits:
  "(ucast (push_bit 52 a OR word_of_int j :: u64) :: u32) = word_of_int j"
  by (rule bit_word_eqI) (simp add: bit_simps)

lemma word_magic: "(word_of_int (i + 2 ^ 51) :: u32) = word_of_int i"
  by (simp add: word_of_int_eq_iff take_bit_eq_mod mod_add_eq [symmetric, of i])

lemma barg_ok:
  assumes bn: "bn_laws bn" and st: "arg st i = Some (LNumber r)" and r: "\<bar>r\<bar> \<le> 2 ^ 51 - 1"
  shows "barg lib bn st i = Inr (word_of_int (round_even r))"
proof -
  define n where "n = round_even r"
  have n: "\<bar>n\<bar> \<le> 2 ^ 51 - 1" using round_even_bounds [of r "2 ^ 51 - 1"] r by (simp add: n_def)
  have add: "bn_add bn r 6755399441055744 = of_int (n + 6755399441055744)" using bn r by (simp add: bn_laws_def n_def)
  have "2 ^ 52 \<le> n + 6755399441055744 \<and> n + 6755399441055744 < 2 ^ 53" using n by (auto simp: abs_le_iff)
  then have "bn_b bn (of_int (n + 6755399441055744)) = push_bit 52 1075 OR word_of_int (n + 6755399441055744 - 2 ^ 52)"
    using bn unfolding bn_laws_def by blast
  also have "n + 6755399441055744 - 2 ^ 52 = n + 2 ^ 51" by simp
  finally have "ucast (bn_b bn (bn_add bn r 6755399441055744)) = (word_of_int n :: u32)" unfolding add by (simp only: low_bits word_magic)
  then show ?thesis using st by (simp add: barg_def lua_tonumber_def tonumber_def lua_isnumber_def n_def)
qed

lemma sint_word: "sint (word_of_int i :: u32) = signed_take_bit 31 i"
  by (simp add: sint_word_ariths signed_of_int)

lemma op_loop_ok:
  assumes bn: "bn_laws bn" and small: "\<forall>x \<in> set (x0 # xs). \<bar>x\<bar> < 2 ^ 51" and "n \<le> length xs"
    and opr: "\<And>a b. opr (word_of_int a) (word_of_int b) = word_of_int (op' a b)"
  shows "op_loop lib bn opr (map lint (x0 # xs)) (Suc n) (word_of_int b) = Inr (word_of_int (foldr (\<lambda>x b. op' b x) (take n xs) b))"
  using assms(3)
proof (induction n arbitrary: b)
  case 0
  then show ?case by (simp add: op_loop.simps)
next
  case (Suc n)
  have "arg (map lint (x0 # xs)) (Suc (Suc n)) = Some (LNumber (of_int (xs ! n)))" using Suc.prems by (simp add: arg_def)
  moreover have "\<bar>of_int (xs ! n) :: rat\<bar> \<le> 2 ^ 51 - 1"
  proof -
    have "\<bar>xs ! n\<bar> < 2 ^ 51" using small Suc.prems by (simp del: power_numeral)
    then have "\<bar>xs ! n\<bar> \<le> 2 ^ 51 - 1" by simp
    then have "(of_int \<bar>xs ! n\<bar> :: rat) \<le> of_int (2 ^ 51 - 1)" by (simp only: of_int_le_iff)
    then show ?thesis by simp
  qed
  ultimately have "barg lib bn (map lint (x0 # xs)) (Suc (Suc n)) = Inr (word_of_int (xs ! n))"
    using barg_ok [OF bn, of "map lint (x0 # xs)" "Suc (Suc n)" "of_int (xs ! n)" lib] by simp
  then show ?case using Suc opr by (simp add: op_loop.simps [of lib bn opr _ "Suc (Suc n)"] take_Suc_conv_app_nth)
qed

lemma barg_int:
  assumes "bn_laws bn" and "arg st i = Some (lint x)" and "\<bar>x\<bar> < 2 ^ 51"
  shows "barg lib bn st i = Inr (word_of_int x)"
proof -
  have "\<bar>x\<bar> \<le> 2 ^ 51 - 1" using assms(3) by simp
  then have "(of_int \<bar>x\<bar> :: rat) \<le> of_int (2 ^ 51 - 1)" by (simp only: of_int_le_iff)
  then show ?thesis using barg_ok [OF assms(1,2)] by simp
qed

section \<open>Operations\<close>

lemma BIT_OP_ok:
  assumes bn: "bn_laws bn" and small: "\<forall>x \<in> set (x0 # xs). \<bar>x\<bar> < 2 ^ 51"
    and opr: "\<And>a b. opr (word_of_int a) (word_of_int b) = word_of_int (op' a b)"
  shows "BIT_OP opr lib bn (map lint (x0 # xs)) = Ret [lint (signed_take_bit 31 (foldr (\<lambda>x b. op' b x) xs x0))]"
proof -
  have "barg lib bn (map lint (x0 # xs)) 1 = Inr (word_of_int x0)" using small by (intro barg_int [OF bn]) (simp_all add: arg_def)
  moreover have "op_loop lib bn opr (map lint (x0 # xs)) (lua_gettop (map lint (x0 # xs))) (word_of_int x0)
      = Inr (word_of_int (foldr (\<lambda>x b. op' b x) xs x0))"
    using op_loop_ok [OF bn small order_refl, where opr = opr and op' = op' and lib = lib and b = x0] opr by (simp add: lua_gettop_def)
  ultimately show ?thesis by (simp add: BIT_OP_def BRET_def sint_word)
qed

text \<open>
  (C40) The bit operations are those of the integers, cut to 32 bits and read as signed: for any number of integer
  arguments below \<open>2 ^ 51\<close>, \<open>band\<close>, \<open>bor\<close> and \<open>bxor\<close> return the operation over all of them, \<open>bnot\<close> the complement and
  \<open>tobit\<close> the number itself. So the detour over the mantissa of a \<open>double\<close> is exact.
\<close>

theorem bit_ops_exact:
  assumes "bn_laws bn" and "\<forall>x \<in> set (x0 # xs). \<bar>x\<bar> < 2 ^ 51"
  shows "bit_band lib bn (map lint (x0 # xs)) = Ret [lint (signed_take_bit 31 (foldr (\<lambda>x b. b AND x) xs x0))]
    \<and> bit_bor lib bn (map lint (x0 # xs)) = Ret [lint (signed_take_bit 31 (foldr (\<lambda>x b. b OR x) xs x0))]
    \<and> bit_bxor lib bn (map lint (x0 # xs)) = Ret [lint (signed_take_bit 31 (foldr (\<lambda>x b. b XOR x) xs x0))]
    \<and> bit_bnot lib bn (map lint (x0 # xs)) = Ret [lint (signed_take_bit 31 (NOT x0))]
    \<and> bit_tobit lib bn (map lint (x0 # xs)) = Ret [lint (signed_take_bit 31 x0)]"
proof -
  have b: "barg lib bn (map lint (x0 # xs)) 1 = Inr (word_of_int x0)" using assms(2) by (intro barg_int [OF assms(1)]) (simp_all add: arg_def)
  have n: "NOT (word_of_int x0 :: u32) = word_of_int (NOT x0)" by (rule bit_word_eqI) (simp add: bit_simps)
  have "bit_bnot lib bn (map lint (x0 # xs)) = Ret [lint (signed_take_bit 31 (NOT x0))]"
    "bit_tobit lib bn (map lint (x0 # xs)) = Ret [lint (signed_take_bit 31 x0)]"
    unfolding bit_bnot_def bit_tobit_def b sum.case BRET_def n sint_word by simp_all
  moreover have "(word_of_int a :: u32) AND word_of_int b = word_of_int (a AND b)" "(word_of_int a :: u32) OR word_of_int b = word_of_int (a OR b)"
    "(word_of_int a :: u32) XOR word_of_int b = word_of_int (a XOR b)" for a b
    by (rule bit_word_eqI, simp add: bit_simps)+
  ultimately show ?thesis unfolding bit_band_def bit_bor_def bit_bxor_def
    by (simp only: BIT_OP_ok [OF assms, of "(AND)" "(AND)"] BIT_OP_ok [OF assms, of "(OR)" "(OR)"] BIT_OP_ok [OF assms, of "(XOR)" "(XOR)"])
qed

lemma rotate_back: "brol b n = Some c \<Longrightarrow> bror c n = Some b"
proof -
  assume "brol b n = Some c"
  then have n: "0 < n" "n < 32" and c: "c = push_bit n b OR drop_bit (32 - n) b"
    by (auto simp: brol_def shl_def shr_def split: if_splits)
  have "push_bit (32 - n) c OR drop_bit n c = b"
    unfolding c using n by (intro bit_word_eqI) (auto simp: bit_simps)
  then show ?thesis using n by (simp add: bror_def shl_def shr_def)
qed

lemma rotate_undefined: "brol b 0 = None" "bror b 0 = None"
  by (simp_all add: brol_def bror_def shl_def shr_def)

lemma bit_second_byte: "bit (x AND 0xff00 :: u32) n \<longleftrightarrow> bit x n \<and> 8 \<le> n \<and> n < 16"
proof -
  have "(0xff00 :: u32) = push_bit 8 (mask 8)" by (simp add: mask_eq_exp_minus_1)
  then have "bit (x AND 0xff00 :: u32) n \<longleftrightarrow> bit (x AND push_bit 8 (mask 8)) n" by simp
  then show ?thesis by (auto simp: bit_simps intro: bit_imp_le_length [of x n, simplified])
qed

lemma bit_bswap_iff:
  "bit (bswap b) n \<longleftrightarrow> n < 32 \<and> bit b (if n < 8 then n + 24 else if n < 16 then n + 8 else if n < 24 then n - 8 else n - 24)"
  unfolding bswap_def bit_or_iff bit_push_bit_iff bit_second_byte bit_drop_bit_eq o_def
  by (auto simp: add.commute dest: bit_imp_le_length)

lemma bswap_twice: "bswap (bswap b) = b"
  by (rule bit_word_eqI) (auto simp: bit_bswap_iff)

section \<open>Hexadecimal digits\<close>

definition hex_digit :: "char \<Rightarrow> nat" where
  "hex_digit c = (let n = of_char c in if n < 58 then n - 48 else if n < 71 then n - 55 else n - 87)"

definition hex_value :: "string \<Rightarrow> nat" where
  "hex_value s = foldl (\<lambda>a c. 16 * a + hex_digit c) 0 s"

definition is_digits :: "string \<Rightarrow> bool" where
  "is_digits ds \<longleftrightarrow> length ds = 16 \<and> (\<forall>k < 16. hex_digit (ds ! k) = k)"

lemma hex_tables: "is_digits ''0123456789abcdef''" "is_digits ''0123456789ABCDEF''"
  unfolding is_digits_def by code_simp+

lemma hex_fill_keeps: "length (hex_fill ds n b buf) = length buf \<and> (\<forall>i \<ge> n. hex_fill ds n b buf ! i = buf ! i)"
  by (induction ds n b buf rule: hex_fill.induct) auto

lemma nibble: "unat (b AND 15 :: u32) = unat b mod 16"
proof -
  have "b AND 15 = take_bit 4 b" by (simp add: take_bit_eq_mask mask_eq_exp_minus_1)
  also have "\<dots> = b mod 16" by (simp add: take_bit_eq_mod)
  finally show ?thesis by (simp add: unat_mod)
qed

lemma len32: "(2 :: int) ^ LENGTH(32) = 2 ^ 32"
  by simp

lemma hex_fill_value:
  assumes "is_digits ds"
  shows "n \<le> length buf \<Longrightarrow> hex_value (take n (hex_fill ds n b buf)) = unat b mod 16 ^ n"
proof (induction n arbitrary: b buf)
  case 0
  then show ?case by (simp add: hex_value_def)
next
  case (Suc n)
  let ?buf = "buf[n := ds ! unat (b AND 15)]"
  have "take (Suc n) (hex_fill ds (Suc n) b buf) = take n (hex_fill ds n (drop_bit 4 b) ?buf) @ [ds ! (unat b mod 16)]"
    using Suc.prems hex_fill_keeps [of ds n "drop_bit 4 b" ?buf] by (simp add: take_Suc_conv_app_nth nibble)
  moreover have "hex_value (take n (hex_fill ds n (drop_bit 4 b) ?buf)) = unat (drop_bit 4 b) mod 16 ^ n" using Suc by simp
  moreover have "unat (drop_bit 4 b) = unat b div 16" by (simp add: drop_bit_eq_div unat_div)
  moreover have "hex_digit (ds ! (unat b mod 16)) = unat b mod 16" using assms by (simp add: is_digits_def)
  ultimately have "hex_value (take (Suc n) (hex_fill ds (Suc n) b buf)) = 16 * (unat b div 16 mod 16 ^ n) + unat b mod 16"
    by (simp add: hex_value_def)
  also have "\<dots> = unat b mod 16 ^ Suc n" by (simp add: mod_mult2_eq)
  finally show ?case .
qed

text \<open>
  \<open>tohex\<close> of an integer returns as many digits as asked for, at most eight, upper case for a negative count: read back
  they are the number modulo \<open>16 ^ n\<close>. The array of eight characters is never overrun.
\<close>

theorem tohex_reads_back:
  assumes "bn_laws bn" and "\<bar>x\<bar> < 2 ^ 51" and "\<bar>k\<bar> < 2 ^ 31"
  shows "\<exists>s. bit_tohex junk lib bn [lint x, lint k] = Some (Ret [LString s]) \<and> length s = min 8 (nat \<bar>k\<bar>)
     \<and> int (hex_value s) = x mod 16 ^ length s"
proof -
  let ?n = "min 8 (nat \<bar>k\<bar>)" let ?ds = "if k < 0 then ''0123456789ABCDEF'' else ''0123456789abcdef''"
  let ?s = "take ?n (hex_fill ?ds ?n (word_of_int x) (map junk [0..<8]))"
  have b: "barg lib bn [lint x, lint k] 1 = Inr (word_of_int x)" "barg lib bn [lint x, lint k] 2 = Inr (word_of_int k)"
    using assms by (auto intro!: barg_int simp: arg_def)
  have k: "sint (word_of_int k :: u32) = k" "k \<noteq> - (2 ^ 31)" using assms(3) by (auto simp: sint_word signed_take_bit_int_eq_self)
  have a: "arg [lint x, lint k] 2 \<noteq> None" by (simp add: arg_def)
  have run: "bit_tohex junk lib bn [lint x, lint k] = Some (Ret [LString ?s])"
    unfolding bit_tohex_def b using a k by (auto simp: Let_def min_def)
  have len: "length ?s = ?n" using hex_fill_keeps [of ?ds ?n "word_of_int x" "map junk [0..<8]"] by simp
  have "is_digits ?ds" using hex_tables by simp
  then have v: "hex_value ?s = unat (word_of_int x :: u32) mod 16 ^ ?n" by (rule hex_fill_value) simp
  have "int (unat (word_of_int x :: u32) mod p) = x mod 2 ^ 32 mod int p" for p
    by (simp only: zmod_int uint_nat [symmetric] uint_word_of_int len32)
  then have "int (hex_value ?s) = x mod 2 ^ 32 mod 16 ^ ?n" unfolding v by simp
  also have "\<dots> = x mod 16 ^ ?n"
  proof (rule mod_mod_cancel)
    have "(16 :: int) ^ ?n dvd 16 ^ 8" by (rule le_imp_power_dvd) simp
    then show "(16 :: int) ^ ?n dvd 2 ^ 32" by simp
  qed
  finally have "int (hex_value ?s) = x mod 16 ^ length ?s" unfolding len .
  with run len show ?thesis by blast
qed

section \<open>A concrete machine\<close>

definition demo_bn :: bit_num where
  "demo_bn = \<lparr>bn_add = (\<lambda>r m. of_int (round_even r) + m), bn_b = (\<lambda>r. push_bit 52 1075 OR word_of_int (\<lfloor>r\<rfloor> - 2 ^ 52))\<rparr>"

lemma demo_bn_laws: "bn_laws demo_bn"
  by (simp add: bn_laws_def demo_bn_def)

theorem bit_ops_exact_witness:
  "bit_bxor \<lparr>str2number = (\<lambda>_. None), number2str = (\<lambda>_. [])\<rparr> demo_bn [LNumber 1, LNumber 4294967295, LNumber 4] = Ret [LNumber (- 6)]"
  using bit_ops_exact [OF demo_bn_laws, of 1 "[4294967295, 4]" "\<lparr>str2number = (\<lambda>_. None), number2str = (\<lambda>_. [])\<rparr>"] by simp

theorem tohex_reads_back_witness:
  "\<exists>s. bit_tohex (\<lambda>_. CHR 0x00) \<lparr>str2number = (\<lambda>_. None), number2str = (\<lambda>_. [])\<rparr> demo_bn [LNumber 4660, LNumber (- 3)] = Some (Ret [LString s])
     \<and> length s = 3 \<and> int (hex_value s) = 564"
  using tohex_reads_back [OF demo_bn_laws, of 4660 "- 3" "\<lambda>_. CHR 0x00" "\<lparr>str2number = (\<lambda>_. None), number2str = (\<lambda>_. [])\<rparr>"] by fastforce

end
