(* ===== verification/Strbuf.thy ===== *)
theory Strbuf
  imports Lua_Api
begin

text \<open>
  The string buffer of lua-cjson (\<open>strbuf.c\<close>, \<open>strbuf.h\<close>). Sizes and lengths are C \<open>int\<close>. The result \<open>None\<close> stands for a
  call that does not return: an access outside the block, an overflow of \<open>int\<close>, or \<open>die\<close>, which ends the process.
\<close>

record strbuf =
  sb_buf :: "bytes option"
  sb_size :: int
  sb_length :: int
  sb_increment :: int
  sb_dynamic :: bool
  sb_reallocs :: int

definition STRBUF_DEFAULT_SIZE :: int where "STRBUF_DEFAULT_SIZE = 1023"
definition STRBUF_DEFAULT_INCREMENT :: int where "STRBUF_DEFAULT_INCREMENT = - 2"

text \<open>The allocator: whether it has that many bytes, and what fresh bytes hold.\<close>

record heap_api =
  hp_ok :: "int \<Rightarrow> bool"
  hp_junk :: "nat \<Rightarrow> char"

text \<open>The result of an \<open>int\<close> operation.\<close>

definition c_arith :: "int \<Rightarrow> int option" where
  "c_arith i = (if - (2 ^ 31) \<le> i \<and> i < 2 ^ 31 then Some i else None)"

definition c_realloc :: "heap_api \<Rightarrow> bytes option \<Rightarrow> int \<Rightarrow> bytes option" where
  "c_realloc hp b n = (if hp_ok hp n
     then let b = (case b of None \<Rightarrow> [] | Some b \<Rightarrow> b) in Some (take (nat n) b @ map (hp_junk hp) [length b..<nat n])
     else None)"

text \<open>A store at an index of the block.\<close>

definition poke_buf :: "int \<Rightarrow> bytes \<Rightarrow> strbuf \<Rightarrow> strbuf option" where
  "poke_buf i xs s = do {
     b \<leftarrow> sb_buf s;
     if 0 \<le> i \<and> nat i + length xs \<le> length b
     then Some (s\<lparr>sb_buf := Some (take (nat i) b @ xs @ drop (nat i + length xs) b)\<rparr>) else None }"

section \<open>Reading and resetting\<close>

definition strbuf_reset :: "strbuf \<Rightarrow> strbuf" where
  "strbuf_reset s = s\<lparr>sb_length := 0\<rparr>"

definition strbuf_allocated :: "strbuf \<Rightarrow> bool" where
  "strbuf_allocated s = (sb_buf s \<noteq> None)"

definition strbuf_empty_length :: "strbuf \<Rightarrow> int" where
  "strbuf_empty_length s = sb_size s - sb_length s - 1"

definition strbuf_string :: "strbuf \<Rightarrow> bytes option" where
  "strbuf_string s = do { b \<leftarrow> sb_buf s; if nat (sb_length s) \<le> length b then Some (take (nat (sb_length s)) b) else None }"

definition strbuf_extend_length :: "int \<Rightarrow> strbuf \<Rightarrow> strbuf" where
  "strbuf_extend_length len s = s\<lparr>sb_length := sb_length s + len\<rparr>"

definition strbuf_ensure_null :: "strbuf \<Rightarrow> strbuf option" where
  "strbuf_ensure_null s = poke_buf (sb_length s) [CHR 0x00] s"

section \<open>Allocation\<close>

definition strbuf_init :: "heap_api \<Rightarrow> int \<Rightarrow> strbuf option" where
  "strbuf_init hp len = do {
     size \<leftarrow> (if len \<le> 0 then Some STRBUF_DEFAULT_SIZE else c_arith (len + 1));
     b \<leftarrow> c_realloc hp None size;
     strbuf_ensure_null \<lparr>sb_buf = Some b, sb_size = size, sb_length = 0, sb_increment = STRBUF_DEFAULT_INCREMENT,
       sb_dynamic = False, sb_reallocs = 0\<rparr> }"

definition strbuf_new :: "heap_api \<Rightarrow> int \<Rightarrow> strbuf option" where
  "strbuf_new hp len = do { s \<leftarrow> strbuf_init hp len; Some (s\<lparr>sb_dynamic := True\<rparr>) }"

definition strbuf_set_increment :: "int \<Rightarrow> strbuf \<Rightarrow> strbuf option" where
  "strbuf_set_increment increment s = (if increment = 0 \<or> increment = - 1 then None else Some (s\<lparr>sb_increment := increment\<rparr>))"

text \<open>The buffer after \<open>strbuf_free\<close>; \<open>None\<close> when it was allocated by \<open>strbuf_new\<close> and is gone itself.\<close>

definition strbuf_free :: "strbuf \<Rightarrow> strbuf option" where
  "strbuf_free s = (if sb_dynamic s then None else Some (s\<lparr>sb_buf := None\<rparr>))"

definition strbuf_free_to_string :: "strbuf \<Rightarrow> (bytes \<times> int) option" where
  "strbuf_free_to_string s = do { s \<leftarrow> strbuf_ensure_null s; b \<leftarrow> sb_buf s; Some (b, sb_length s) }"

text \<open>\<open>while (newsize < reqsize) newsize *= -s->increment\<close>; with a factor below 2 it does not end.\<close>

function grow_size :: "int \<Rightarrow> int \<Rightarrow> int \<Rightarrow> int option" where
  "grow_size factor newsize reqsize =
     (if newsize \<ge> reqsize then Some newsize
      else if factor < 2 \<or> newsize \<le> 0 then None
      else case c_arith (newsize * factor) of None \<Rightarrow> None | Some n \<Rightarrow> grow_size factor n reqsize)"
  by auto
termination
proof (relation "measure (\<lambda>(_, n, r). nat (r - n))", goal_cases)
  case (2 factor newsize reqsize n)
  then have "n = newsize * factor" by (auto simp: c_arith_def split: if_splits)
  moreover have "newsize * 2 \<le> newsize * factor" using 2 by (intro mult_left_mono) auto
  ultimately show ?case using 2 by auto
qed simp

declare grow_size.simps [simp del]

definition calculate_new_size :: "int \<Rightarrow> strbuf \<Rightarrow> int option" where
  "calculate_new_size len s =
     (if len \<le> 0 then None
      else do {
        reqsize \<leftarrow> c_arith (len + 1);
        if sb_size s > reqsize then Some reqsize
        else if sb_increment s < 0 then grow_size (- sb_increment s) (sb_size s) reqsize
        else if sb_increment s = 0 then None
        else c_arith (((sb_size s + sb_increment s - 1) div sb_increment s) * sb_increment s) })"

definition strbuf_resize :: "heap_api \<Rightarrow> int \<Rightarrow> strbuf \<Rightarrow> strbuf option" where
  "strbuf_resize hp len s = do {
     newsize \<leftarrow> calculate_new_size len s;
     b \<leftarrow> c_realloc hp (sb_buf s) newsize;
     Some (s\<lparr>sb_size := newsize, sb_buf := Some b, sb_reallocs := sb_reallocs s + 1\<rparr>) }"

definition strbuf_ensure_empty_length :: "heap_api \<Rightarrow> int \<Rightarrow> strbuf \<Rightarrow> strbuf option" where
  "strbuf_ensure_empty_length hp len s =
     (if len > strbuf_empty_length s
      then do { n \<leftarrow> c_arith (sb_length s + len); strbuf_resize hp n s }
      else Some s)"

section \<open>Appending\<close>

definition strbuf_append_mem_unsafe :: "bytes \<Rightarrow> strbuf \<Rightarrow> strbuf option" where
  "strbuf_append_mem_unsafe c s = do {
     s \<leftarrow> poke_buf (sb_length s) c s;
     Some (s\<lparr>sb_length := sb_length s + int (length c)\<rparr>) }"

definition strbuf_append_mem :: "heap_api \<Rightarrow> bytes \<Rightarrow> strbuf \<Rightarrow> strbuf option" where
  "strbuf_append_mem hp c s = do {
     s \<leftarrow> strbuf_ensure_empty_length hp (int (length c)) s;
     strbuf_append_mem_unsafe c s }"

definition strbuf_append_char_unsafe :: "char \<Rightarrow> strbuf \<Rightarrow> strbuf option" where
  "strbuf_append_char_unsafe c s = do {
     s \<leftarrow> poke_buf (sb_length s) [c] s;
     Some (s\<lparr>sb_length := sb_length s + 1\<rparr>) }"

definition strbuf_append_char :: "heap_api \<Rightarrow> char \<Rightarrow> strbuf \<Rightarrow> strbuf option" where
  "strbuf_append_char hp c s = do {
     s \<leftarrow> strbuf_ensure_empty_length hp 1 s;
     strbuf_append_char_unsafe c s }"

text \<open>\<open>strbuf_append_string\<close>: character by character; \<open>space\<close> is carried along.\<close>

fun append_string_loop :: "heap_api \<Rightarrow> int \<Rightarrow> bytes \<Rightarrow> strbuf \<Rightarrow> strbuf option" where
  "append_string_loop hp space [] s = Some s"
| "append_string_loop hp space (c # str) s = do {
     (space, s) \<leftarrow> (if space < 1
       then do { n \<leftarrow> c_arith (sb_length s + 1); s \<leftarrow> strbuf_resize hp n s; Some (strbuf_empty_length s, s) }
       else Some (space, s));
     s \<leftarrow> strbuf_append_char_unsafe c s;
     append_string_loop hp (space - 1) str s }"

definition strbuf_append_string :: "heap_api \<Rightarrow> bytes \<Rightarrow> strbuf \<Rightarrow> strbuf option" where
  "strbuf_append_string hp str s = append_string_loop hp (strbuf_empty_length s) str s"

text \<open>
  The two formatted appends; \<open>out\<close> is the text the format stands for. \<open>vsnprintf\<close> stores at most \<open>n - 1\<close> characters of it and
  a NUL and returns its full length.
\<close>

definition vsnprintf :: "int \<Rightarrow> bytes \<Rightarrow> strbuf \<Rightarrow> strbuf option" where
  "vsnprintf n out s = (if n \<le> 0 then Some s else poke_buf (sb_length s) (take (nat n - 1) out @ [CHR 0x00]) s)"

definition strbuf_append_fmt :: "heap_api \<Rightarrow> int \<Rightarrow> bytes \<Rightarrow> strbuf \<Rightarrow> strbuf option" where
  "strbuf_append_fmt hp len out s = do {
     s \<leftarrow> strbuf_ensure_empty_length hp len s;
     s \<leftarrow> vsnprintf len out s;
     Some (s\<lparr>sb_length := sb_length s + int (length out)\<rparr>) }"

definition strbuf_append_fmt_retry :: "heap_api \<Rightarrow> bytes \<Rightarrow> strbuf \<Rightarrow> strbuf option" where
  "strbuf_append_fmt_retry hp out s = do {
     let empty_len = strbuf_empty_length s;
     s \<leftarrow> vsnprintf (empty_len + 1) out s;
     s \<leftarrow> (if int (length out) \<le> empty_len then Some s
       else do {
         n \<leftarrow> c_arith (sb_length s + int (length out));
         s \<leftarrow> strbuf_resize hp n s;
         let empty_len = strbuf_empty_length s;
         s \<leftarrow> vsnprintf (empty_len + 1) out s;
         if int (length out) \<le> empty_len then Some s else None });
     Some (s\<lparr>sb_length := sb_length s + int (length out)\<rparr>) }"

section \<open>The buffer holds a string\<close>

definition sb_str :: "strbuf \<Rightarrow> bytes" where
  "sb_str s = (case sb_buf s of None \<Rightarrow> [] | Some b \<Rightarrow> take (nat (sb_length s)) b)"

text \<open>The block has the recorded size and one byte behind the string is free for the NUL; the size grows exponentially.\<close>

definition sb_ok :: "strbuf \<Rightarrow> bool" where
  "sb_ok s \<longleftrightarrow> (\<exists>b. sb_buf s = Some b \<and> int (length b) = sb_size s) \<and> 0 \<le> sb_length s \<and> sb_length s < sb_size s
     \<and> sb_increment s = STRBUF_DEFAULT_INCREMENT"

definition hp_total :: "heap_api \<Rightarrow> bool" where
  "hp_total hp \<longleftrightarrow> (\<forall>n. hp_ok hp n)"

lemma grow_size_ok:
  "0 < n \<Longrightarrow> n < 2 ^ 31 \<Longrightarrow> req \<le> 2 ^ 30 \<Longrightarrow> \<exists>m. grow_size 2 n req = Some m \<and> req \<le> m \<and> n \<le> m \<and> m < 2 ^ 31"
proof (induction "2 :: int" n req rule: grow_size.induct)
  case (1 n req)
  show ?case
  proof (cases "n \<ge> req")
    case True
    then show ?thesis using 1 by (simp add: grow_size.simps [of 2 n req])
  next
    case False
    then have a: "c_arith (n * 2) = Some (n * 2)" using 1(2-4) by (simp add: c_arith_def)
    have "\<exists>m. grow_size 2 (n * 2) req = Some m \<and> req \<le> m \<and> n * 2 \<le> m \<and> m < 2 ^ 31"
      using 1(1) [OF _ _ a] 1(2-4) False by simp
    then show ?thesis using a False 1(2) by (auto simp: grow_size.simps [of 2 n req])
  qed
qed

lemma realloc_length: "0 \<le> n \<Longrightarrow> c_realloc hp b n = Some b' \<Longrightarrow> int (length b') = n"
  by (auto simp: c_realloc_def Let_def split: if_splits)

lemma resize_ok:
  assumes ok: "sb_ok s" and hp: "hp_total hp" and len: "0 < len" "sb_size s - 1 \<le> len" "len < 2 ^ 30"
  shows "\<exists>s'. strbuf_resize hp len s = Some s' \<and> sb_ok s' \<and> sb_str s' = sb_str s \<and> sb_length s' = sb_length s \<and> len < sb_size s'
     \<and> sb_dynamic s' = sb_dynamic s"
proof -
  obtain b where b: "sb_buf s = Some b" "int (length b) = sb_size s" and l: "0 \<le> sb_length s" "sb_length s < sb_size s"
    and inc: "sb_increment s = - 2" using ok by (auto simp: sb_ok_def STRBUF_DEFAULT_INCREMENT_def)
  obtain n where n: "calculate_new_size len s = Some n" "len + 1 \<le> n" "sb_size s \<le> n"
    using grow_size_ok [of "sb_size s" "len + 1"] l len inc by (auto simp: calculate_new_size_def c_arith_def)
  let ?b = "take (nat n) b @ map (hp_junk hp) [length b..<nat n]"
  have "c_realloc hp (sb_buf s) n = Some ?b" using hp b by (simp add: c_realloc_def hp_total_def)
  moreover have "int (length ?b) = n" using n l by simp
  moreover have "take (nat (sb_length s)) ?b = take (nat (sb_length s)) b" using b l n by simp
  ultimately show ?thesis using n b l inc
    by (auto simp: strbuf_resize_def sb_ok_def sb_str_def STRBUF_DEFAULT_INCREMENT_def)
qed

lemma ensure_ok:
  assumes ok: "sb_ok s" and hp: "hp_total hp" and n: "0 \<le> n" "sb_length s + n < 2 ^ 30"
  shows "\<exists>s'. strbuf_ensure_empty_length hp n s = Some s' \<and> sb_ok s' \<and> sb_str s' = sb_str s \<and> sb_length s' = sb_length s
     \<and> sb_length s + n < sb_size s' \<and> sb_dynamic s' = sb_dynamic s"
proof (cases "n > strbuf_empty_length s")
  case True
  have l: "0 \<le> sb_length s" "sb_length s < sb_size s" using ok by (auto simp: sb_ok_def)
  then have "c_arith (sb_length s + n) = Some (sb_length s + n)" using n by (simp add: c_arith_def)
  then show ?thesis using resize_ok [OF ok hp, of "sb_length s + n"] True l n
    by (cases "sb_length s + n = 0") (auto simp: strbuf_ensure_empty_length_def strbuf_empty_length_def)
next
  case False
  then show ?thesis using ok by (auto simp: strbuf_ensure_empty_length_def strbuf_empty_length_def sb_ok_def)
qed

lemma str_length: "sb_ok s \<Longrightarrow> int (length (sb_str s)) = sb_length s"
  by (auto simp: sb_ok_def sb_str_def)

lemma unsafe_ok:
  assumes ok: "sb_ok s" and room: "sb_length s + int (length c) < sb_size s"
  shows "\<exists>s'. strbuf_append_mem_unsafe c s = Some s' \<and> sb_ok s' \<and> sb_str s' = sb_str s @ c \<and> sb_size s' = sb_size s \<and> sb_dynamic s' = sb_dynamic s"
proof -
  obtain b where b: "sb_buf s = Some b" "int (length b) = sb_size s" and l: "0 \<le> sb_length s" using ok by (auto simp: sb_ok_def)
  let ?l = "nat (sb_length s)"
  have le: "?l + length c \<le> length b" using room b l by linarith
  let ?b = "take ?l b @ c @ drop (?l + length c) b"
  have "length ?b = length b" using le by simp
  moreover have "take (nat (sb_length s + int (length c))) ?b = take ?l b @ c" using le l by (simp add: nat_add_distrib)
  ultimately show ?thesis using b l le ok room
    by (auto simp: strbuf_append_mem_unsafe_def poke_buf_def sb_ok_def sb_str_def)
qed

lemma char_unsafe_mem: "strbuf_append_char_unsafe c s = strbuf_append_mem_unsafe [c] s"
  by (simp add: strbuf_append_char_unsafe_def strbuf_append_mem_unsafe_def)

text \<open>From a buffer in order, \<open>f\<close> appends \<open>c\<close>.\<close>

definition adds :: "(strbuf \<Rightarrow> strbuf option) \<Rightarrow> bytes \<Rightarrow> bool" where
  "adds f c \<longleftrightarrow> (\<forall>s. sb_ok s \<longrightarrow> sb_length s + int (length c) < 2 ^ 30 \<longrightarrow>
     (\<exists>s'. f s = Some s' \<and> sb_ok s' \<and> sb_str s' = sb_str s @ c \<and> sb_dynamic s' = sb_dynamic s))"

lemma adds_mem: "hp_total hp \<Longrightarrow> adds (strbuf_append_mem hp c) c"
  unfolding adds_def
proof (intro allI impI)
  fix s
  assume hp: "hp_total hp" and ok: "sb_ok s" and l: "sb_length s + int (length c) < 2 ^ 30"
  obtain s1 where s1: "strbuf_ensure_empty_length hp (int (length c)) s = Some s1" "sb_ok s1" "sb_str s1 = sb_str s" "sb_length s1 = sb_length s"
    "sb_length s + int (length c) < sb_size s1" "sb_dynamic s1 = sb_dynamic s" using ensure_ok [OF ok hp _ l] by auto
  then obtain s2 where "strbuf_append_mem_unsafe c s1 = Some s2" "sb_ok s2" "sb_str s2 = sb_str s1 @ c" "sb_dynamic s2 = sb_dynamic s1"
    using unsafe_ok [OF s1(2), of c] by auto
  with s1 show "\<exists>s'. strbuf_append_mem hp c s = Some s' \<and> sb_ok s' \<and> sb_str s' = sb_str s @ c \<and> sb_dynamic s' = sb_dynamic s"
    by (auto simp: strbuf_append_mem_def)
qed

lemma adds_char: "hp_total hp \<Longrightarrow> adds (strbuf_append_char hp c) [c]"
proof -
  have "strbuf_append_char hp c = strbuf_append_mem hp [c]"
    by (rule ext) (simp add: strbuf_append_char_def strbuf_append_mem_def char_unsafe_mem cong: Option.bind_cong)
  then show "hp_total hp \<Longrightarrow> ?thesis" using adds_mem [of hp "[c]"] by simp
qed

lemma adds_none: "adds Some []"
  by (simp add: adds_def)

lemma adds_seq:
  assumes f: "adds f c" and g: "adds g d" and fg: "\<And>s. fg s = Option.bind (f s) g"
  shows "adds fg (c @ d)"
  unfolding adds_def fg
proof (intro allI impI)
  fix s
  assume s: "sb_ok s" "sb_length s + int (length (c @ d)) < 2 ^ 30"
  then obtain s1 where s1: "f s = Some s1" "sb_ok s1" "sb_str s1 = sb_str s @ c" "sb_dynamic s1 = sb_dynamic s"
    using f unfolding adds_def by fastforce
  then have "sb_length s1 + int (length d) < 2 ^ 30" using s str_length [OF s(1)] str_length [OF s1(2)] by simp
  then obtain s2 where "g s1 = Some s2" "sb_ok s2" "sb_str s2 = sb_str s1 @ d" "sb_dynamic s2 = sb_dynamic s1"
    using g s1(2) unfolding adds_def by blast
  with s1 show "\<exists>s'. Option.bind (f s) g = Some s' \<and> sb_ok s' \<and> sb_str s' = sb_str s @ c @ d \<and> sb_dynamic s' = sb_dynamic s" by simp
qed

lemma append_string_ok:
  assumes hp: "hp_total hp"
  shows "sb_ok s \<Longrightarrow> sb_length s + int (length str) < 2 ^ 30 \<Longrightarrow> space = strbuf_empty_length s
    \<Longrightarrow> \<exists>s'. append_string_loop hp space str s = Some s' \<and> sb_ok s' \<and> sb_str s' = sb_str s @ str \<and> sb_dynamic s' = sb_dynamic s"
proof (induction str arbitrary: space s)
  case (Cons c str)
  have l: "0 \<le> sb_length s" "sb_length s < sb_size s" using Cons.prems(1) by (auto simp: sb_ok_def)
  obtain s1 where s1: "(if space < 1 then do { n \<leftarrow> c_arith (sb_length s + 1); s \<leftarrow> strbuf_resize hp n s; Some (strbuf_empty_length s, s) }
       else Some (space, s)) = Some (strbuf_empty_length s1, s1)"
    "sb_ok s1" "sb_str s1 = sb_str s" "sb_length s1 = sb_length s" "sb_dynamic s1 = sb_dynamic s" "1 \<le> strbuf_empty_length s1"
  proof (cases "space < 1")
    case True
    have "c_arith (sb_length s + 1) = Some (sb_length s + 1)" using Cons.prems(2) l by (simp add: c_arith_def)
    then show ?thesis using that resize_ok [OF Cons.prems(1) hp, of "sb_length s + 1"] True l Cons.prems(2,3)
      by (fastforce simp: strbuf_empty_length_def)
  next
    case False
    then show ?thesis using that [of s] Cons.prems(1,3) by simp
  qed
  obtain s2 where s2: "strbuf_append_char_unsafe c s1 = Some s2" "sb_ok s2" "sb_str s2 = sb_str s1 @ [c]" "sb_size s2 = sb_size s1"
    "sb_dynamic s2 = sb_dynamic s1"
    using unsafe_ok [OF s1(2), of "[c]"] s1(6) by (auto simp: char_unsafe_mem strbuf_empty_length_def)
  have l2: "sb_length s2 = sb_length s + 1" using str_length [OF s2(2)] str_length [OF s1(2)] s1(4) s2(3) by simp
  then have "strbuf_empty_length s1 - 1 = strbuf_empty_length s2" using s1(4) s2(4) by (simp add: strbuf_empty_length_def)
  then obtain s3 where "append_string_loop hp (strbuf_empty_length s1 - 1) str s2 = Some s3" "sb_ok s3" "sb_str s3 = sb_str s2 @ str" "sb_dynamic s3 = sb_dynamic s2"
    using Cons.IH [OF s2(2), of "strbuf_empty_length s1 - 1"] l2 Cons.prems(2) by auto
  then show ?case using s1 s2 by (simp del: Option.bind_eq_Some_conv)
qed simp

lemma adds_string: "hp_total hp \<Longrightarrow> adds (strbuf_append_string hp str) str"
  using append_string_ok by (auto simp: adds_def strbuf_append_string_def)

lemma init_ok:
  assumes hp: "hp_total hp" and len: "0 \<le> len" "len < 2 ^ 30"
  shows "\<exists>s. strbuf_init hp len = Some s \<and> sb_ok s \<and> sb_str s = [] \<and> len < sb_size s \<and> \<not> sb_dynamic s"
proof -
  define n where "n = (if len \<le> 0 then STRBUF_DEFAULT_SIZE else len + 1)"
  have n: "0 < n" "len < n" "(if len \<le> 0 then Some STRBUF_DEFAULT_SIZE else c_arith (len + 1)) = Some n"
    using len by (auto simp: n_def c_arith_def STRBUF_DEFAULT_SIZE_def)
  let ?b = "map (hp_junk hp) [0..<nat n]"
  have "c_realloc hp None n = Some ?b" using hp by (simp add: c_realloc_def hp_total_def)
  then show ?thesis using n
    by (auto simp: strbuf_init_def strbuf_ensure_null_def poke_buf_def sb_ok_def sb_str_def STRBUF_DEFAULT_INCREMENT_def)
qed

section \<open>What is appended is what the buffer holds\<close>

text \<open>A run of appending calls.\<close>

datatype sb_op = Op_char char | Op_mem bytes | Op_string bytes

fun sb_op_text :: "sb_op \<Rightarrow> bytes" where
  "sb_op_text (Op_char c) = [c]"
| "sb_op_text (Op_mem c) = c"
| "sb_op_text (Op_string c) = c"

fun sb_run :: "heap_api \<Rightarrow> sb_op list \<Rightarrow> strbuf \<Rightarrow> strbuf option" where
  "sb_run hp [] s = Some s"
| "sb_run hp (Op_char c # os) s = Option.bind (strbuf_append_char hp c s) (sb_run hp os)"
| "sb_run hp (Op_mem c # os) s = Option.bind (strbuf_append_mem hp c s) (sb_run hp os)"
| "sb_run hp (Op_string c # os) s = Option.bind (strbuf_append_string hp c s) (sb_run hp os)"

lemma run_adds: "hp_total hp \<Longrightarrow> adds (sb_run hp os) (concat (map sb_op_text os))"
proof (induction os)
  case Nil
  have "sb_run hp [] = Some" by (rule ext) simp
  then show ?case by (simp add: adds_none)
next
  case (Cons x os)
  note rest = Cons.IH [OF Cons.prems]
  show ?case
  proof (cases x)
    case (Op_char c)
    have "adds (sb_run hp (x # os)) ([c] @ concat (map sb_op_text os))"
      by (rule adds_seq [OF adds_char [OF Cons.prems, of c] rest]) (simp add: Op_char)
    then show ?thesis using Op_char by (simp del: sb_run.simps)
  next
    case (Op_mem c)
    have "adds (sb_run hp (x # os)) (c @ concat (map sb_op_text os))"
      by (rule adds_seq [OF adds_mem [OF Cons.prems, of c] rest]) (simp add: Op_mem)
    then show ?thesis using Op_mem by (simp del: sb_run.simps)
  next
    case (Op_string c)
    have "adds (sb_run hp (x # os)) (c @ concat (map sb_op_text os))"
      by (rule adds_seq [OF adds_string [OF Cons.prems, of c] rest]) (simp add: Op_string)
    then show ?thesis using Op_string by (simp del: sb_run.simps)
  qed
qed

text \<open>
  Whatever is appended, in whatever pieces and by whichever of the appending functions, the buffer ends up with the
  concatenation, as long as it stays below \<open>2 ^ 30\<close> bytes: its doubling always makes enough room and no store is outside the block.
\<close>

theorem strbuf_appends:
  assumes hp: "hp_total hp" and "0 \<le> len" "len < 2 ^ 30" and n: "length (concat (map sb_op_text os)) < 2 ^ 30"
  shows "\<exists>s s'. strbuf_init hp len = Some s \<and> sb_run hp os s = Some s' \<and> strbuf_string s' = Some (concat (map sb_op_text os)) \<and> sb_ok s'"
proof -
  obtain s where s: "strbuf_init hp len = Some s" "sb_ok s" "sb_str s = []" using init_ok [OF hp assms(2,3)] by blast
  then have "sb_length s + int (length (concat (map sb_op_text os))) < 2 ^ 30" using n str_length [OF s(2)] by simp
  then obtain s' where s': "sb_run hp os s = Some s'" "sb_ok s'" "sb_str s' = concat (map sb_op_text os)"
    using run_adds [OF hp, of os] s(2,3) unfolding adds_def by fastforce
  then have "strbuf_string s' = Some (concat (map sb_op_text os))" by (auto simp: strbuf_string_def sb_str_def sb_ok_def)
  with s(1) s'(1,2) show ?thesis by blast
qed

section \<open>Linear growth\<close>

text \<open>
  With a positive increment the new size is computed from the old one and not from the size that is needed: a buffer of the
  default size with increment \<open>k\<close> that is asked for room for \<open>n > 1023 + k\<close> bytes gets less, without any error, and appending
  that many bytes writes outside the block.
\<close>

theorem linear_increment_overruns:
  assumes hp: "hp_total hp" and k: "0 < k" "k < 2 ^ 20" and c: "1023 + k < int (length c)" "length c < 2 ^ 30"
  shows "\<exists>s s' s''. strbuf_init hp 0 = Some s \<and> strbuf_set_increment k s = Some s'
     \<and> strbuf_ensure_empty_length hp (int (length c)) s' = Some s'' \<and> strbuf_empty_length s'' < int (length c)
     \<and> strbuf_append_mem hp c s' = None"
proof -
  let ?b = "CHR 0x00 # map (hp_junk hp) [1..<1023]"
  define s where "s = \<lparr>sb_buf = Some ?b, sb_size = 1023, sb_length = 0, sb_increment = - 2, sb_dynamic = False, sb_reallocs = 0\<rparr>"
  let ?s = "s\<lparr>sb_increment := k\<rparr>"
  define n where "n = ((1023 + k - 1) div k) * k"
  have n: "1023 \<le> n" "n < 1023 + k"
    using k div_mult_mod_eq [of "1023 + k - 1" k] pos_mod_bound [of k "1023 + k - 1"] pos_mod_sign [of k "1023 + k - 1"] unfolding n_def by linarith+
  have upt: "[0..<1023] = 0 # [1..<1023]" by (simp add: upt_rec [of 0])
  have init: "strbuf_init hp 0 = Some s" using hp
    by (simp add: strbuf_init_def c_realloc_def hp_total_def strbuf_ensure_null_def poke_buf_def s_def STRBUF_DEFAULT_SIZE_def STRBUF_DEFAULT_INCREMENT_def upt del: upt_rec_numeral)
  let ?b' = "take (nat n) ?b @ map (hp_junk hp) [length ?b..<nat n]"
  have "calculate_new_size (int (length c)) ?s = Some n"
  proof -
    have "c_arith n = Some n" "c_arith (int (length c) + 1) = Some (int (length c) + 1)" "c \<noteq> []" using n k c by (auto simp: c_arith_def)
    moreover have "c_arith ((sb_size ?s + sb_increment ?s - 1) div sb_increment ?s * sb_increment ?s) = c_arith n" by (simp add: s_def n_def)
    ultimately show ?thesis unfolding calculate_new_size_def using c k by (simp add: s_def)
  qed
  moreover have "c_realloc hp (Some ?b) n = Some ?b'" using hp by (simp add: c_realloc_def hp_total_def)
  ultimately have e: "strbuf_ensure_empty_length hp (int (length c)) ?s = Some (?s\<lparr>sb_size := n, sb_buf := Some ?b', sb_reallocs := 1\<rparr>)"
    using c k by (simp add: strbuf_ensure_empty_length_def strbuf_empty_length_def strbuf_resize_def c_arith_def s_def)
  have len: "length ?b' = nat n" using n by simp
  have "strbuf_append_mem hp c ?s = None"
    unfolding strbuf_append_mem_def e using len n c by (simp add: strbuf_append_mem_unsafe_def poke_buf_def s_def)
  then show ?thesis using init e n c k by (auto simp: strbuf_set_increment_def strbuf_empty_length_def s_def)
qed

section \<open>A concrete heap\<close>

definition demo_heap :: heap_api where "demo_heap = \<lparr>hp_ok = (\<lambda>_. True), hp_junk = (\<lambda>_. CHR 0x00)\<rparr>"

lemma demo_heap_total: "hp_total demo_heap"
  by (simp add: hp_total_def demo_heap_def)

theorem strbuf_appends_witness:
  "\<exists>s s'. strbuf_init demo_heap 1 = Some s \<and> sb_run demo_heap [Op_char CHR ''a'', Op_string ''bc'', Op_mem ''d''] s = Some s'
     \<and> strbuf_string s' = Some ''abcd''"
  using strbuf_appends [OF demo_heap_total, of 1 "[Op_char CHR ''a'', Op_string ''bc'', Op_mem ''d'']"] by fastforce

theorem linear_increment_overruns_witness:
  "\<exists>s s' s''. strbuf_init demo_heap 0 = Some s \<and> strbuf_set_increment 10 s = Some s'
     \<and> strbuf_ensure_empty_length demo_heap 2000 s' = Some s'' \<and> strbuf_empty_length s'' < 2000
     \<and> strbuf_append_mem demo_heap (replicate 2000 CHR ''x'') s' = None"
  using linear_increment_overruns [OF demo_heap_total, of 10 "replicate 2000 CHR ''x''"] by simp

end
