(* ===== verification/Fpconv.thy ===== *)
theory Fpconv
  imports Strbuf
begin

text \<open>
  The number conversions of lua-cjson (\<open>fpconv.c\<close>): \<open>strtod\<close> and \<open>printf\<close> of the C library, made independent of the
  decimal point of the locale. The two functions of the library are parameters; \<open>None\<close> is \<open>abort\<close> or a failed \<open>assert\<close>.
\<close>

datatype double = Finite rat | Infinite bool \<comment> \<open>negative?\<close> | NaN

text \<open>
  \<open>lc_g\<close> is the text \<open>printf\<close> makes of a format and a number; \<open>lc_strtod\<close> gives the value at the start of a C string and
  the number of characters it took. \<open>fe_point\<close> is \<open>locale_decimal_point\<close>.
\<close>

record libc_num =
  lc_g :: "bytes \<Rightarrow> double \<Rightarrow> bytes"
  lc_strtod :: "bytes \<Rightarrow> double \<times> nat"

record fp_env =
  fe_heap :: heap_api
  fe_libc :: libc_num
  fe_point :: char

definition FPCONV_G_FMT_BUFSIZE :: nat where "FPCONV_G_FMT_BUFSIZE = 32"

text \<open>\<open>snprintf\<close> into a buffer of \<open>n\<close> bytes: what it leaves there.\<close>

definition snprintf_buf :: "nat \<Rightarrow> bytes \<Rightarrow> bytes" where
  "snprintf_buf n out = take (n - 1) out @ [CHR 0x00]"

definition fpconv_update_locale :: "libc_num \<Rightarrow> char option" where
  "fpconv_update_locale lc =
     (let buf = snprintf_buf 8 (lc_g lc ''%g'' (Finite (1 / 2))) in
      if length buf \<le> 3 \<or> buf ! 0 \<noteq> CHR ''0'' \<or> buf ! 2 \<noteq> CHR ''5'' \<or> buf ! 3 \<noteq> CHR 0x00 then None
      else Some (buf ! 1))"

definition valid_number_character :: "char \<Rightarrow> bool" where
  "valid_number_character ch =
     (if schar CHR ''0'' \<le> schar ch \<and> schar ch \<le> schar CHR ''9'' then True
      else if ch = CHR ''-'' \<or> ch = CHR ''+'' \<or> ch = CHR ''.'' then True
      else let lower_ch = schar ch OR 0x20 in schar CHR ''a'' \<le> lower_ch \<and> lower_ch \<le> schar CHR ''y'')"

definition strtod_buffer_size :: "bytes \<Rightarrow> nat" where
  "strtod_buffer_size s = length (takeWhile valid_number_character s)"

text \<open>\<open>dp = strchr(buf, '.'); if (dp) *dp = locale_decimal_point\<close>.\<close>

fun localise :: "char \<Rightarrow> bytes \<Rightarrow> bytes" where
  "localise point [] = []"
| "localise point (c # s) = (if c = CHR ''.'' then point # s else c # localise point s)"

definition fpconv_strtod :: "fp_env \<Rightarrow> bytes \<Rightarrow> (double \<times> nat) option" where
  "fpconv_strtod e nptr =
     (if fe_point e = CHR ''.'' then Some (lc_strtod (fe_libc e) (c_str nptr))
      else let buflen = strtod_buffer_size nptr in
        if buflen = 0 then Some (Finite 0, 0)
        else if buflen \<ge> FPCONV_G_FMT_BUFSIZE \<and> \<not> hp_ok (fe_heap e) (int buflen + 1) then None
        else Some (lc_strtod (fe_libc e) (localise (fe_point e) (take buflen nptr))))"

definition set_number_format :: "int \<Rightarrow> bytes option" where
  "set_number_format precision =
     (if 1 \<le> precision \<and> precision \<le> 14
      then let d1 = precision div 10; d2 = precision mod 10
           in Some (''%.'' @ (if d1 \<noteq> 0 then [char_of (48 + d1)] else []) @ [char_of (48 + d2)] @ ''g'')
      else None)"

text \<open>The bytes written at \<open>str\<close> and the length that is returned.\<close>

definition fpconv_g_fmt :: "fp_env \<Rightarrow> double \<Rightarrow> int \<Rightarrow> (bytes \<times> int) option" where
  "fpconv_g_fmt e num precision = do {
     fmt \<leftarrow> set_number_format precision;
     let out = lc_g (fe_libc e) fmt num;
     let buf = snprintf_buf FPCONV_G_FMT_BUFSIZE out;
     if fe_point e = CHR ''.'' then Some (buf, int (length out))
     else Some (map (\<lambda>b. if b = fe_point e then CHR ''.'' else b) (c_str buf) @ [CHR 0x00], int (length out)) }"

section \<open>Both directions are independent of the locale\<close>

text \<open>
  \<open>prints_as e fmt x t\<close>: in the C locale \<open>x\<close> prints as \<open>t\<close>; a library with another decimal point prints that instead of the dot.
\<close>

definition prints_as :: "fp_env \<Rightarrow> bytes \<Rightarrow> double \<Rightarrow> bytes \<Rightarrow> bool" where
  "prints_as e fmt x t \<longleftrightarrow> lc_g (fe_libc e) fmt x = map (\<lambda>c. if c = CHR ''.'' then fe_point e else c) t
     \<and> length t < FPCONV_G_FMT_BUFSIZE \<and> CHR 0x00 \<notin> set t \<and> (fe_point e = CHR ''.'' \<or> fe_point e \<notin> set t)
     \<and> fe_point e \<noteq> CHR 0x00"

lemma c_str_all: "CHR 0x00 \<notin> set s \<Longrightarrow> c_str (s @ CHR 0x00 # r) = s"
  by (simp add: c_str_def takeWhile_append takeWhile_eq_all_conv [THEN iffD2])

lemma g_fmt_text:
  assumes t: "prints_as e fmt x t" and f: "set_number_format p = Some fmt"
  shows "fpconv_g_fmt e x p = Some (t @ [CHR 0x00], int (length t))"
proof -
  let ?loc = "\<lambda>c. if c = CHR ''.'' then fe_point e else c" let ?un = "\<lambda>b. if b = fe_point e then CHR ''.'' else b"
  have out: "lc_g (fe_libc e) fmt x = map ?loc t" using t by (simp add: prints_as_def)
  have buf: "snprintf_buf FPCONV_G_FMT_BUFSIZE (map ?loc t) = map ?loc t @ [CHR 0x00]"
    using t by (simp add: snprintf_buf_def prints_as_def FPCONV_G_FMT_BUFSIZE_def)
  have nul: "CHR 0x00 \<notin> set (map ?loc t)" using t by (auto simp: prints_as_def)
  have "fe_point e \<noteq> CHR ''.'' \<Longrightarrow> map ?un (map ?loc t) = t"
    using t by (auto simp: prints_as_def intro!: map_idI)
  note un = this
  show ?thesis
  proof (cases "fe_point e = CHR ''.''")
    case True
    then have "map ?loc t = t" by (auto intro!: map_idI)
    then show ?thesis using True f out buf by (simp add: fpconv_g_fmt_def)
  next
    case False
    then show ?thesis using f c_str_all [OF nul, of "[]"] un by (simp add: fpconv_g_fmt_def out buf del: map_map)
  qed
qed

end
