(* ===== verification/Json.thy ===== *)
theory Json
  imports Fpconv
begin

text \<open>
  JSON for Lua (\<open>lua_cjson.c\<close>): the configuration, encoding into a string buffer and the recursive descent decoder. \<open>None\<close> is an
  access outside a buffer or behind the NUL of the input, an overflow of \<open>int\<close>, a failed \<open>assert\<close> or \<open>die\<close>. Tables are plain
  ones; a table that is reached through itself behaves as its unfolding, of which only as many levels as the limits allow are seen.
\<close>

section \<open>Values and errors\<close>

text \<open>Lua values as the encoder tells them apart: a light userdata with its address, a type that is not supported with its name.\<close>

datatype json_value =
    JNil | JBool bool | JNumber double | JString bytes | JTable "(json_value \<times> json_value) list" | JLight nat | JOther string

definition json_typename :: "json_value \<Rightarrow> string" where
  "json_typename v = (case v of
     JNil \<Rightarrow> ''nil'' | JBool _ \<Rightarrow> ''boolean'' | JNumber _ \<Rightarrow> ''number'' | JString _ \<Rightarrow> ''string'' | JTable _ \<Rightarrow> ''table''
   | JLight _ \<Rightarrow> ''userdata'' | JOther t \<Rightarrow> t)"

text \<open>
  A C function that may raise a Lua error: \<open>Some (Inl e)\<close>. The error keeps the buffer as the code leaves it.
\<close>

type_synonym 'a raising = "((string \<times> strbuf option) + 'a) option"

definition xbind :: "'a raising \<Rightarrow> ('a \<Rightarrow> 'b raising) \<Rightarrow> 'b raising" where
  "xbind m f = (case m of None \<Rightarrow> None | Some (Inl e) \<Rightarrow> Some (Inl e) | Some (Inr x) \<Rightarrow> f x)"

definition xlift :: "'a option \<Rightarrow> 'a raising" where
  "xlift m = map_option Inr m"

lemma xbind_simps [simp]:
  "xbind None f = None" "xbind (Some (Inl e)) f = Some (Inl e)" "xbind (Some (Inr x)) f = f x"
  "xlift None = None" "xlift (Some x) = Some (Inr x)"
  by (simp_all add: xbind_def xlift_def)

section \<open>The configuration\<close>

datatype json_token_type =
    T_OBJ_BEGIN | T_OBJ_END | T_ARR_BEGIN | T_ARR_END | T_STRING | T_NUMBER | T_BOOLEAN | T_NULL | T_COLON | T_COMMA
  | T_END | T_WHITESPACE | T_ERROR | T_UNKNOWN

definition json_token_type_name :: "json_token_type \<Rightarrow> string" where
  "json_token_type_name t = (case t of
     T_OBJ_BEGIN \<Rightarrow> ''T_OBJ_BEGIN'' | T_OBJ_END \<Rightarrow> ''T_OBJ_END'' | T_ARR_BEGIN \<Rightarrow> ''T_ARR_BEGIN'' | T_ARR_END \<Rightarrow> ''T_ARR_END''
   | T_STRING \<Rightarrow> ''T_STRING'' | T_NUMBER \<Rightarrow> ''T_NUMBER'' | T_BOOLEAN \<Rightarrow> ''T_BOOLEAN'' | T_NULL \<Rightarrow> ''T_NULL'' | T_COLON \<Rightarrow> ''T_COLON''
   | T_COMMA \<Rightarrow> ''T_COMMA'' | T_END \<Rightarrow> ''T_END'' | T_WHITESPACE \<Rightarrow> ''T_WHITESPACE'' | T_ERROR \<Rightarrow> ''T_ERROR'' | T_UNKNOWN \<Rightarrow> ''T_UNKNOWN'')"

record json_config =
  ch2token :: "char \<Rightarrow> json_token_type"
  escape2char :: "char \<Rightarrow> char"
  encode_buf :: strbuf
  encode_sparse_convert :: int
  encode_sparse_ratio :: int
  encode_sparse_safe :: int
  encode_max_depth :: int
  encode_invalid_numbers :: int
  encode_number_precision :: int
  encode_keep_buffer :: int
  encode_empty_table_as_object :: int
  decode_invalid_numbers :: int
  decode_max_depth :: int

definition INT_MAX :: int where "INT_MAX = 2 ^ 31 - 1"

text \<open>The two tables, indexed by character.\<close>

definition token_table :: "char \<Rightarrow> json_token_type" where
  "token_table c =
     (if c = CHR ''{'' then T_OBJ_BEGIN else if c = CHR ''}'' then T_OBJ_END
      else if c = CHR ''['' then T_ARR_BEGIN else if c = CHR '']'' then T_ARR_END
      else if c = CHR '','' then T_COMMA else if c = CHR '':'' then T_COLON else if c = CHR 0x00 then T_END
      else if c \<in> {CHR '' '', CHR 0x09, CHR 0x0A, CHR 0x0D} then T_WHITESPACE
      else if c \<in> {CHR ''f'', CHR ''i'', CHR ''I'', CHR ''n'', CHR ''N'', CHR ''t'', CHR 0x22, CHR ''+'', CHR ''-''}
        \<or> of_char CHR ''0'' \<le> (of_char c :: int) \<and> (of_char c :: int) < of_char CHR ''0'' + 10 then T_UNKNOWN
      else T_ERROR)"

definition escape_table :: "char \<Rightarrow> char" where
  "escape_table c =
     (if c = CHR 0x22 then CHR 0x22 else if c = CHR 0x5C then CHR 0x5C else if c = CHR ''/'' then CHR ''/''
      else if c = CHR ''b'' then CHR 0x08 else if c = CHR ''t'' then CHR 0x09 else if c = CHR ''n'' then CHR 0x0A
      else if c = CHR ''f'' then CHR 0x0C else if c = CHR ''r'' then CHR 0x0D else if c = CHR ''u'' then CHR ''u''
      else CHR 0x00)"

definition json_create_config :: "heap_api \<Rightarrow> json_config option" where
  "json_create_config hp = do {
     buf \<leftarrow> strbuf_init hp 0;
     Some \<lparr>ch2token = token_table, escape2char = escape_table, encode_buf = buf, encode_sparse_convert = 0, encode_sparse_ratio = 2,
       encode_sparse_safe = 10, encode_max_depth = 1000, encode_invalid_numbers = 0, encode_number_precision = 14,
       encode_keep_buffer = 1, encode_empty_table_as_object = 1, decode_invalid_numbers = 1, decode_max_depth = 1000\<rparr> }"

definition json_destroy_config :: "json_config \<Rightarrow> strbuf option" where
  "json_destroy_config cfg = strbuf_free (encode_buf cfg)"

definition json_arg_init :: "nat \<Rightarrow> lua_value list \<Rightarrow> string + lua_value list" where
  "json_arg_init args st =
     (if length st \<le> args then Inr (st @ replicate (args - length st) LNil) else Inl ''found too many arguments'')"

text \<open>The new setting and the value pushed.\<close>

definition json_integer_option :: "lua_lib \<Rightarrow> lua_value list \<Rightarrow> nat \<Rightarrow> int \<Rightarrow> int \<Rightarrow> int \<Rightarrow> string + int \<times> lua_value" where
  "json_integer_option lib st optindex setting lo hi =
     (if \<not> lua_isnil st optindex
      then case luaL_checkinteger lib st optindex of
          Inl e \<Rightarrow> Inl e
        | Inr n \<Rightarrow>
            let value = c_int n in
            if lo \<le> value \<and> value \<le> hi then Inr (value, LNumber (of_int value))
            else Inl (take 63 (''expected integer between '' @ d_string lo @ '' and '' @ d_string hi))
      else Inr (setting, LNumber (of_int setting)))"

definition json_enum_option :: "lua_lib \<Rightarrow> lua_value list \<Rightarrow> nat \<Rightarrow> int \<Rightarrow> bytes list option \<Rightarrow> int \<Rightarrow> (string + int \<times> lua_value) option" where
  "json_enum_option lib st optindex setting options bool_true =
     (let (names, bool_true) = (case options of None \<Rightarrow> ([''off'', ''on''], 1) | Some names \<Rightarrow> (names, bool_true));
          new = (if \<not> lua_isnil st optindex
            then if bool_true \<noteq> 0 \<and> lua_isboolean st optindex
              then Inr (of_bool (lua_toboolean st optindex) * bool_true)
              else luaL_checkoption lib st optindex names
            else Inr setting)
      in case new of
           Inl e \<Rightarrow> Some (Inl e)
         | Inr n \<Rightarrow>
             if bool_true \<noteq> 0 \<and> (n = 0 \<or> n = bool_true) then Some (Inr (n, LBool (n \<noteq> 0)))
             else if 0 \<le> n \<and> nat n < length names then Some (Inr (n, LString (names ! nat n)))
             else None)"

text \<open>A configuration function: the option is stored, its value returned.\<close>

definition with_args :: "nat \<Rightarrow> lua_value list \<Rightarrow> json_config \<Rightarrow> (lua_value list \<Rightarrow> (lua_ret \<times> json_config) option) \<Rightarrow> (lua_ret \<times> json_config) option" where
  "with_args n st cfg f = (case json_arg_init n st of Inl e \<Rightarrow> Some (Raise e, cfg) | Inr st \<Rightarrow> f st)"

definition stored :: "json_config \<Rightarrow> (int \<Rightarrow> json_config) \<Rightarrow> (string + int \<times> lua_value) \<Rightarrow> (lua_value \<Rightarrow> json_config \<Rightarrow> (lua_ret \<times> json_config) option)
    \<Rightarrow> (lua_ret \<times> json_config) option" where
  "stored cfg upd r f = (case r of Inl e \<Rightarrow> Some (Raise e, cfg) | Inr (n, v) \<Rightarrow> f v (upd n))"

definition one_value :: "lua_value \<Rightarrow> json_config \<Rightarrow> (lua_ret \<times> json_config) option" where
  "one_value v cfg = Some (Ret [v], cfg)"

definition json_cfg_encode_sparse_array :: "lua_lib \<Rightarrow> lua_value list \<Rightarrow> json_config \<Rightarrow> (lua_ret \<times> json_config) option" where
  "json_cfg_encode_sparse_array lib st cfg = with_args 3 st cfg (\<lambda>st. do {
     r \<leftarrow> json_enum_option lib st 1 (encode_sparse_convert cfg) None 1;
     stored cfg (\<lambda>n. cfg\<lparr>encode_sparse_convert := n\<rparr>) r (\<lambda>v1 cfg.
       stored cfg (\<lambda>n. cfg\<lparr>encode_sparse_ratio := n\<rparr>) (json_integer_option lib st 2 (encode_sparse_ratio cfg) 0 INT_MAX) (\<lambda>v2 cfg.
         stored cfg (\<lambda>n. cfg\<lparr>encode_sparse_safe := n\<rparr>) (json_integer_option lib st 3 (encode_sparse_safe cfg) 0 INT_MAX) (\<lambda>v3 cfg.
           Some (Ret [v1, v2, v3], cfg)))) })"

definition json_cfg_encode_max_depth :: "lua_lib \<Rightarrow> lua_value list \<Rightarrow> json_config \<Rightarrow> (lua_ret \<times> json_config) option" where
  "json_cfg_encode_max_depth lib st cfg = with_args 1 st cfg (\<lambda>st.
     stored cfg (\<lambda>n. cfg\<lparr>encode_max_depth := n\<rparr>) (json_integer_option lib st 1 (encode_max_depth cfg) 1 INT_MAX) one_value)"

definition json_cfg_decode_max_depth :: "lua_lib \<Rightarrow> lua_value list \<Rightarrow> json_config \<Rightarrow> (lua_ret \<times> json_config) option" where
  "json_cfg_decode_max_depth lib st cfg = with_args 1 st cfg (\<lambda>st.
     stored cfg (\<lambda>n. cfg\<lparr>decode_max_depth := n\<rparr>) (json_integer_option lib st 1 (decode_max_depth cfg) 1 INT_MAX) one_value)"

definition json_cfg_encode_number_precision :: "lua_lib \<Rightarrow> lua_value list \<Rightarrow> json_config \<Rightarrow> (lua_ret \<times> json_config) option" where
  "json_cfg_encode_number_precision lib st cfg = with_args 1 st cfg (\<lambda>st.
     stored cfg (\<lambda>n. cfg\<lparr>encode_number_precision := n\<rparr>) (json_integer_option lib st 1 (encode_number_precision cfg) 1 14) one_value)"

definition json_cfg_encode_empty_table_as_object :: "lua_lib \<Rightarrow> lua_value list \<Rightarrow> json_config \<Rightarrow> (lua_ret \<times> json_config) option" where
  "json_cfg_encode_empty_table_as_object lib st cfg = with_args 1 st cfg (\<lambda>st. do {
     r \<leftarrow> json_enum_option lib st 1 (encode_empty_table_as_object cfg) None 1;
     stored cfg (\<lambda>n. cfg\<lparr>encode_empty_table_as_object := n\<rparr>) r one_value })"

text \<open>The buffer is set up or freed when the setting has changed.\<close>

definition json_cfg_encode_keep_buffer :: "lua_lib \<Rightarrow> heap_api \<Rightarrow> lua_value list \<Rightarrow> json_config \<Rightarrow> (lua_ret \<times> json_config) option" where
  "json_cfg_encode_keep_buffer lib hp st cfg = with_args 1 st cfg (\<lambda>st. do {
     let old_value = encode_keep_buffer cfg;
     r \<leftarrow> json_enum_option lib st 1 (encode_keep_buffer cfg) None 1;
     stored cfg (\<lambda>n. cfg\<lparr>encode_keep_buffer := n\<rparr>) r (\<lambda>v cfg.
       if old_value XOR encode_keep_buffer cfg \<noteq> 0
       then do {
         buf \<leftarrow> (if encode_keep_buffer cfg \<noteq> 0 then strbuf_init hp 0 else strbuf_free (encode_buf cfg));
         one_value v (cfg\<lparr>encode_buf := buf\<rparr>) }
       else one_value v cfg) })"

definition json_cfg_encode_invalid_numbers :: "lua_lib \<Rightarrow> lua_value list \<Rightarrow> json_config \<Rightarrow> (lua_ret \<times> json_config) option" where
  "json_cfg_encode_invalid_numbers lib st cfg = with_args 1 st cfg (\<lambda>st. do {
     r \<leftarrow> json_enum_option lib st 1 (encode_invalid_numbers cfg) (Some [''off'', ''on'', ''null'']) 1;
     stored cfg (\<lambda>n. cfg\<lparr>encode_invalid_numbers := n\<rparr>) r one_value })"

definition json_cfg_decode_invalid_numbers :: "lua_lib \<Rightarrow> lua_value list \<Rightarrow> json_config \<Rightarrow> (lua_ret \<times> json_config) option" where
  "json_cfg_decode_invalid_numbers lib st cfg = with_args 1 st cfg (\<lambda>st. do {
     r \<leftarrow> json_enum_option lib st 1 (decode_invalid_numbers cfg) None 1;
     stored cfg (\<lambda>n. cfg\<lparr>decode_invalid_numbers := n\<rparr>) r one_value })"

section \<open>Encoding\<close>

definition json_encode_exception :: "json_config \<Rightarrow> json_value \<Rightarrow> string \<Rightarrow> strbuf \<Rightarrow> 'a raising" where
  "json_encode_exception cfg v reason json =
     Some (Inl (''Cannot serialise '' @ json_typename v @ '': '' @ reason, if encode_keep_buffer cfg = 0 then strbuf_free json else Some json))"

definition json_hex_digit :: "nat \<Rightarrow> char" where
  "json_hex_digit n = (if n < 10 then char_of (48 + n) else char_of (87 + n))"

text \<open>The table \<open>char2escape\<close>; \<open>None\<close> is \<open>NULL\<close>.\<close>

definition char2escape :: "char \<Rightarrow> bytes option" where
  "char2escape c =
     (let n = of_char c :: nat in
      if c = CHR 0x08 then Some [CHR 0x5C, CHR ''b''] else if c = CHR 0x09 then Some [CHR 0x5C, CHR ''t'']
      else if c = CHR 0x0A then Some [CHR 0x5C, CHR ''n''] else if c = CHR 0x0C then Some [CHR 0x5C, CHR ''f'']
      else if c = CHR 0x0D then Some [CHR 0x5C, CHR ''r''] else if c = CHR 0x22 then Some [CHR 0x5C, CHR 0x22]
      else if c = CHR ''/'' then Some [CHR 0x5C, CHR ''/''] else if c = CHR 0x5C then Some [CHR 0x5C, CHR 0x5C]
      else if n < 32 \<or> n = 127 then Some (CHR 0x5C # ''u00'' @ [json_hex_digit (n div 16), json_hex_digit (n mod 16)])
      else None)"

fun append_escaped :: "heap_api \<Rightarrow> bytes \<Rightarrow> strbuf \<Rightarrow> strbuf option" where
  "append_escaped hp [] json = Some json"
| "append_escaped hp (c # str) json = do {
     json \<leftarrow> (case char2escape c of Some escstr \<Rightarrow> strbuf_append_string hp escstr json | None \<Rightarrow> strbuf_append_char_unsafe c json);
     append_escaped hp str json }"

definition json_append_string :: "heap_api \<Rightarrow> bytes \<Rightarrow> strbuf \<Rightarrow> strbuf option" where
  "json_append_string hp str json = do {
     json \<leftarrow> strbuf_ensure_empty_length hp (c_int (int (length str) * 6 + 2)) json;
     json \<leftarrow> strbuf_append_char_unsafe (CHR 0x22) json;
     json \<leftarrow> append_escaped hp str json;
     strbuf_append_char_unsafe (CHR 0x22) json }"

text \<open>The loop of \<open>lua_array_length\<close>: \<open>None\<close> is the early return for a key that is no positive integer.\<close>

fun array_max :: "(json_value \<times> json_value) list \<Rightarrow> int \<Rightarrow> int \<Rightarrow> (int \<times> int) option" where
  "array_max [] mx items = Some (mx, items)"
| "array_max ((k, v) # kvs) mx items =
     (case k of
        JNumber (Finite r) \<Rightarrow>
          if r \<noteq> 0 \<and> of_int \<lfloor>r\<rfloor> = r \<and> r \<ge> 1
          then array_max kvs (if r > of_int mx then int_of_number r else mx) (c_int (items + 1)) else None
      | JNumber (Infinite negative) \<Rightarrow>
          if negative then None else array_max kvs (- (2 ^ 31)) (c_int (items + 1))
      | _ \<Rightarrow> None)"

definition lua_array_length :: "json_config \<Rightarrow> (json_value \<times> json_value) list \<Rightarrow> strbuf \<Rightarrow> int raising" where
  "lua_array_length cfg kvs json =
     (case array_max kvs 0 0 of
        None \<Rightarrow> Some (Inr (- 1))
      | Some (mx, items) \<Rightarrow>
          if encode_sparse_ratio cfg > 0
          then xbind (xlift (c_arith (items * encode_sparse_ratio cfg))) (\<lambda>n.
            if mx > n \<and> mx > encode_sparse_safe cfg
            then if encode_sparse_convert cfg = 0
              then json_encode_exception cfg (JTable kvs) ''excessively sparse array'' json
              else Some (Inr (- 1))
            else Some (Inr mx))
          else Some (Inr mx))"

text \<open>\<open>h\<close> is the height of the Lua stack, the value on top.\<close>

definition json_check_encode_depth :: "json_config \<Rightarrow> nat \<Rightarrow> int \<Rightarrow> strbuf \<Rightarrow> unit raising" where
  "json_check_encode_depth cfg h current_depth json =
     (if current_depth \<le> encode_max_depth cfg \<and> h + 3 \<le> LUAI_MAXCSTACK then Some (Inr ())
      else Some (Inl (''Cannot serialise, excessive nesting ('' @ d_string current_depth @ '')'',
        if encode_keep_buffer cfg = 0 then strbuf_free json else Some json)))"

definition json_append_number :: "fp_env \<Rightarrow> json_config \<Rightarrow> double \<Rightarrow> strbuf \<Rightarrow> strbuf raising" where
  "json_append_number e cfg num json =
     (let hp = fe_heap e;
          rest = xlift (do {
            json \<leftarrow> strbuf_ensure_empty_length hp (int FPCONV_G_FMT_BUFSIZE) json;
            (text, len) \<leftarrow> fpconv_g_fmt e num (encode_number_precision cfg);
            json \<leftarrow> poke_buf (sb_length json) text json;
            Some (strbuf_extend_length len json) })
      in if encode_invalid_numbers cfg = 0 then
           (case num of
              Finite _ \<Rightarrow> rest
            | _ \<Rightarrow> json_encode_exception cfg (JNumber num) ''must not be NaN or Infinity'' json)
         else if encode_invalid_numbers cfg = 1 then
           (case num of
              NaN \<Rightarrow> xlift (strbuf_append_mem hp ''NaN'' json)
            | Infinite negative \<Rightarrow> xlift (strbuf_append_mem hp (if negative then ''-Infinity'' else ''Infinity'') json)
            | Finite _ \<Rightarrow> rest)
         else
           (case num of Finite _ \<Rightarrow> rest | _ \<Rightarrow> xlift (strbuf_append_mem hp ''null'' json)))"

definition json_append_key :: "fp_env \<Rightarrow> json_config \<Rightarrow> json_value \<Rightarrow> strbuf \<Rightarrow> strbuf raising" where
  "json_append_key e cfg k json =
     (let hp = fe_heap e in
      case k of
        JNumber num \<Rightarrow>
          xbind (xlift (strbuf_append_char hp (CHR 0x22) json)) (\<lambda>json.
          xbind (json_append_number e cfg num json) (\<lambda>json.
          xlift (strbuf_append_mem hp [CHR 0x22, CHR '':''] json)))
      | JString s \<Rightarrow>
          xbind (xlift (json_append_string hp s json)) (\<lambda>json.
          xlift (strbuf_append_char hp (CHR '':'') json))
      | _ \<Rightarrow> json_encode_exception cfg k ''table key must be a number or string'' json)"

definition json_rawgeti :: "(json_value \<times> json_value) list \<Rightarrow> int \<Rightarrow> json_value" where
  "json_rawgeti kvs i = (case map_of kvs (JNumber (Finite (of_int i))) of None \<Rightarrow> JNil | Some v \<Rightarrow> v)"

definition json_comma :: "fp_env \<Rightarrow> bool \<Rightarrow> strbuf \<Rightarrow> strbuf raising" where
  "json_comma e comma json = xlift (if comma then strbuf_append_char (fe_heap e) (CHR '','') json else Some json)"

function json_append_data :: "fp_env \<Rightarrow> json_config \<Rightarrow> nat \<Rightarrow> int \<Rightarrow> json_value \<Rightarrow> strbuf \<Rightarrow> strbuf raising"
  and json_append_array :: "fp_env \<Rightarrow> json_config \<Rightarrow> nat \<Rightarrow> int \<Rightarrow> (json_value \<times> json_value) list \<Rightarrow> int \<Rightarrow> strbuf \<Rightarrow> strbuf raising"
  and array_items :: "fp_env \<Rightarrow> json_config \<Rightarrow> nat \<Rightarrow> int \<Rightarrow> bool \<Rightarrow> json_value list \<Rightarrow> strbuf \<Rightarrow> strbuf raising"
  and json_append_object :: "fp_env \<Rightarrow> json_config \<Rightarrow> nat \<Rightarrow> int \<Rightarrow> (json_value \<times> json_value) list \<Rightarrow> strbuf \<Rightarrow> strbuf raising"
  and object_items :: "fp_env \<Rightarrow> json_config \<Rightarrow> nat \<Rightarrow> int \<Rightarrow> bool \<Rightarrow> (json_value \<times> json_value) list \<Rightarrow> strbuf \<Rightarrow> strbuf raising" where
  "json_append_data e cfg h current_depth v json =
     (let hp = fe_heap e in
      case v of
        JString s \<Rightarrow> xlift (json_append_string hp s json)
      | JNumber num \<Rightarrow> json_append_number e cfg num json
      | JBool b \<Rightarrow> xlift (strbuf_append_mem hp (if b then ''true'' else ''false'') json)
      | JTable kvs \<Rightarrow>
          (case json_check_encode_depth cfg h (current_depth + 1) json of
             None \<Rightarrow> None
           | Some (Inl err) \<Rightarrow> Some (Inl err)
           | Some (Inr _) \<Rightarrow>
               xbind (lua_array_length cfg kvs json) (\<lambda>len.
                 if len > 0 \<or> len = 0 \<and> encode_empty_table_as_object cfg = 0
                 then json_append_array e cfg h (current_depth + 1) kvs len json
                 else json_append_object e cfg h (current_depth + 1) kvs json))
      | JNil \<Rightarrow> xlift (strbuf_append_mem hp ''null'' json)
      | JLight p \<Rightarrow> if p = 0 then xlift (strbuf_append_mem hp ''null'' json) else json_encode_exception cfg v ''type not supported'' json
      | JOther _ \<Rightarrow> json_encode_exception cfg v ''type not supported'' json)"
| "json_append_array e cfg h current_depth kvs array_length json =
     xbind (xlift (strbuf_append_char (fe_heap e) (CHR ''['') json)) (\<lambda>json.
     xbind (array_items e cfg h current_depth False (map (json_rawgeti kvs) [1..array_length]) json) (\<lambda>json.
     xlift (strbuf_append_char (fe_heap e) (CHR '']'') json)))"
| "array_items e cfg h current_depth comma vs json =
     (case vs of
        [] \<Rightarrow> Some (Inr json)
      | v # vs' \<Rightarrow>
          xbind (json_comma e comma json) (\<lambda>json.
          xbind (json_append_data e cfg (h + 1) current_depth v json) (\<lambda>json.
          array_items e cfg h current_depth True vs' json)))"
| "json_append_object e cfg h current_depth kvs json =
     xbind (xlift (strbuf_append_char (fe_heap e) (CHR ''{'') json)) (\<lambda>json.
     xbind (object_items e cfg h current_depth False kvs json) (\<lambda>json.
     xlift (strbuf_append_char (fe_heap e) (CHR ''}'') json)))"
| "object_items e cfg h current_depth comma kvs json =
     (case kvs of
        [] \<Rightarrow> Some (Inr json)
      | (k, v) # kvs' \<Rightarrow>
          xbind (json_comma e comma json) (\<lambda>json.
          xbind (json_append_key e cfg k json) (\<lambda>json.
          xbind (json_append_data e cfg (h + 2) current_depth v json) (\<lambda>json.
          object_items e cfg h current_depth True kvs' json))))"
  by pat_completeness auto
termination
  by (relation "measures [\<lambda>x. case x of
        Inl (Inl (_, cfg, _, d, _)) \<Rightarrow> 4 * nat (encode_max_depth cfg - d) + 1
      | Inl (Inr (_, cfg, _, d, _)) \<Rightarrow> 4 * nat (encode_max_depth cfg - d) + 3
      | Inr (Inl (_, cfg, _, d, _)) \<Rightarrow> 4 * nat (encode_max_depth cfg - d) + 2
      | Inr (Inr (Inl (_, cfg, _, d, _))) \<Rightarrow> 4 * nat (encode_max_depth cfg - d) + 3
      | Inr (Inr (Inr (_, cfg, _, d, _))) \<Rightarrow> 4 * nat (encode_max_depth cfg - d) + 2,
      \<lambda>x. case x of Inr (Inl (_, _, _, _, _, vs, _)) \<Rightarrow> length vs | Inr (Inr (Inr (_, _, _, _, _, kvs, _))) \<Rightarrow> length kvs | _ \<Rightarrow> 0]")
    (auto simp: json_check_encode_depth_def split: if_splits)

declare json_append_data.simps [simp del] json_append_array.simps [simp del] array_items.simps [simp del]
  json_append_object.simps [simp del] object_items.simps [simp del]

text \<open>\<open>json_encode\<close>: the string or the error, and the configuration with its buffer.\<close>

definition json_encode :: "fp_env \<Rightarrow> json_value list \<Rightarrow> json_config \<Rightarrow> ((string + bytes) \<times> json_config) option" where
  "json_encode e st cfg =
     (case st of
        [v] \<Rightarrow> do {
          json \<leftarrow> (if encode_keep_buffer cfg = 0 then strbuf_init (fe_heap e) 0 else Some (strbuf_reset (encode_buf cfg)));
          r \<leftarrow> json_append_data e cfg 1 0 v json;
          case r of
            Inl (err, left) \<Rightarrow>
              if encode_keep_buffer cfg = 0 then Some (Inl err, cfg)
              else do { json \<leftarrow> left; Some (Inl err, cfg\<lparr>encode_buf := json\<rparr>) }
          | Inr json \<Rightarrow> do {
              s \<leftarrow> strbuf_string json;
              Some (Inr s, if encode_keep_buffer cfg = 0 then cfg else cfg\<lparr>encode_buf := json\<rparr>) } }
      | _ \<Rightarrow> Some (Inl ''expected 1 argument'', cfg))"

end
