(* ===== verification/Json_Parse.thy ===== *)
theory Json_Parse
  imports Json
begin

text \<open>
  The decoder of \<open>lua_cjson.c\<close>: tokens, and the recursive descent over them. The input is a Lua string, which has a NUL behind its
  last byte; reading further is \<open>None\<close>.
\<close>

record json_parse =
  jp_data :: bytes
  jp_ptr :: nat
  jp_tmp :: strbuf
  jp_depth :: int

definition char_at :: "bytes \<Rightarrow> nat \<Rightarrow> char option" where
  "char_at data i = (if i < length data then Some (data ! i) else if i = length data then Some (CHR 0x00) else None)"

section \<open>Strings\<close>

definition hexdigit2int :: "char \<Rightarrow> int" where
  "hexdigit2int c =
     (let hex = schar c in
      if schar CHR ''0'' \<le> hex \<and> hex \<le> schar CHR ''9'' then hex - schar CHR ''0''
      else let hex = hex OR 0x20 in
        if schar CHR ''a'' \<le> hex \<and> hex \<le> schar CHR ''f'' then 10 + hex - schar CHR ''a'' else - 1)"

text \<open>The loop of \<open>decode_hex4\<close>; \<open>Some None\<close> is the early return.\<close>

fun hex_digits :: "bytes \<Rightarrow> nat \<Rightarrow> nat \<Rightarrow> int list option option" where
  "hex_digits data i 0 = Some (Some [])"
| "hex_digits data i (Suc n) = do {
     c \<leftarrow> char_at data i;
     if hexdigit2int c < 0 then Some None
     else do { ds \<leftarrow> hex_digits data (i + 1) n; Some (map_option ((#) (hexdigit2int c)) ds) } }"

definition decode_hex4 :: "bytes \<Rightarrow> nat \<Rightarrow> int option" where
  "decode_hex4 data i = do {
     ds \<leftarrow> hex_digits data i 4;
     Some (case ds of
       None \<Rightarrow> - 1
     | Some digit \<Rightarrow> push_bit 12 (digit ! 0) + push_bit 8 (digit ! 1) + push_bit 4 (digit ! 2) + digit ! 3) }"

text \<open>The bytes stored; none when it returns 0.\<close>

definition codepoint_to_utf8 :: "int \<Rightarrow> bytes" where
  "codepoint_to_utf8 cp =
     (if cp \<le> 0x7F then [char_of cp]
      else if cp \<le> 0x7FF then [char_of (drop_bit 6 cp OR 0xC0), char_of ((cp AND 0x3F) OR 0x80)]
      else if cp \<le> 0xFFFF then [char_of (drop_bit 12 cp OR 0xE0), char_of ((drop_bit 6 cp AND 0x3F) OR 0x80), char_of ((cp AND 0x3F) OR 0x80)]
      else if cp \<le> 0x1FFFFF then [char_of (drop_bit 18 cp OR 0xF0), char_of ((drop_bit 12 cp AND 0x3F) OR 0x80),
        char_of ((drop_bit 6 cp AND 0x3F) OR 0x80), char_of ((cp AND 0x3F) OR 0x80)]
      else [])"

text \<open>The codepoint of an escape at \<open>ptr\<close> and the length of the escape; \<open>None\<close> inside is the return of -1.\<close>

definition escape_codepoint :: "bytes \<Rightarrow> nat \<Rightarrow> (int \<times> nat) option option" where
  "escape_codepoint data ptr = do {
     codepoint \<leftarrow> decode_hex4 data (ptr + 2);
     if codepoint < 0 then Some None
     else if codepoint AND 0xF800 = 0xD800 then
       if codepoint AND 0x400 \<noteq> 0 then Some None
       else do {
         c \<leftarrow> char_at data (ptr + 6);
         if c \<noteq> CHR 0x5C then Some None
         else do {
           c \<leftarrow> char_at data (ptr + 7);
           if c \<noteq> CHR ''u'' then Some None
           else do {
             low \<leftarrow> decode_hex4 data (ptr + 8);
             if low < 0 then Some None
             else if low AND 0xFC00 \<noteq> 0xDC00 then Some None
             else Some (Some ((push_bit 10 (codepoint AND 0x3FF) OR (low AND 0x3FF)) + 0x10000, 12)) } } }
     else Some (Some (codepoint, 6)) }"

definition json_append_unicode_escape :: "json_parse \<Rightarrow> json_parse option option" where
  "json_append_unicode_escape json = do {
     r \<leftarrow> escape_codepoint (jp_data json) (jp_ptr json);
     case r of
       None \<Rightarrow> Some None
     | Some (codepoint, escape_len) \<Rightarrow>
         if codepoint_to_utf8 codepoint = [] then Some None
         else do {
           tmp \<leftarrow> strbuf_append_mem_unsafe (codepoint_to_utf8 codepoint) (jp_tmp json);
           Some (Some (json\<lparr>jp_tmp := tmp, jp_ptr := jp_ptr json + escape_len\<rparr>)) } }"

datatype token_value = No_value | Text bytes | Number double | Boolean bool | Errtype string

record json_token =
  tk_type :: json_token_type
  tk_index :: int
  tk_value :: token_value

definition json_set_token_error :: "json_parse \<Rightarrow> string \<Rightarrow> json_token" where
  "json_set_token_error json errtype = \<lparr>tk_type = T_ERROR, tk_index = c_int (int (jp_ptr json)), tk_value = Errtype errtype\<rparr>"

lemma codepoint_escape_length: "escape_codepoint data ptr = Some (Some (cp, n)) \<Longrightarrow> n = 6 \<or> n = 12"
  by (auto simp: escape_codepoint_def Option.bind_eq_Some_conv split: if_splits)

lemma unicode_escape_Some:
  assumes "json_append_unicode_escape json = Some (Some json')"
  obtains cp n tmp where "escape_codepoint (jp_data json) (jp_ptr json) = Some (Some (cp, n))"
    "strbuf_append_mem_unsafe (codepoint_to_utf8 cp) (jp_tmp json) = Some tmp" "json' = json\<lparr>jp_tmp := tmp, jp_ptr := jp_ptr json + n\<rparr>"
proof -
  obtain cp n where "escape_codepoint (jp_data json) (jp_ptr json) = Some (Some (cp, n))"
    using assms by (auto simp: json_append_unicode_escape_def Option.bind_eq_Some_conv split: option.splits)
  then show ?thesis using that assms
    by (auto simp: json_append_unicode_escape_def Option.bind_eq_Some_conv split: if_splits)
qed

lemma unicode_escape_progress:
  "json_append_unicode_escape json = Some (Some json') \<Longrightarrow> jp_data json' = jp_data json \<and> jp_ptr json < jp_ptr json'"
  by (elim unicode_escape_Some) (auto dest: codepoint_escape_length)

text \<open>The loop over the characters of a string: up to the closing quote, or an error.\<close>

function string_loop :: "json_config \<Rightarrow> json_parse \<Rightarrow> (string option \<times> json_parse) option" where
  "string_loop cfg json =
     (case char_at (jp_data json) (jp_ptr json) of
        None \<Rightarrow> None
      | Some ch \<Rightarrow>
          if ch = CHR 0x22 then Some (None, json)
          else if ch = CHR 0x00 then Some (Some ''unexpected end of string'', json)
          else if ch = CHR 0x5C then
            (case char_at (jp_data json) (jp_ptr json + 1) of
               None \<Rightarrow> None
             | Some c \<Rightarrow>
                 let ch = escape2char cfg c in
                 if ch = CHR ''u'' then
                   (case json_append_unicode_escape json of
                      None \<Rightarrow> None
                    | Some None \<Rightarrow> Some (Some ''invalid unicode escape code'', json)
                    | Some (Some json') \<Rightarrow> string_loop cfg json')
                 else if ch = CHR 0x00 then Some (Some ''invalid escape code'', json)
                 else
                   (case strbuf_append_char_unsafe ch (jp_tmp json) of
                      None \<Rightarrow> None
                    | Some tmp \<Rightarrow> string_loop cfg (json\<lparr>jp_tmp := tmp, jp_ptr := jp_ptr json + 2\<rparr>)))
          else
            (case strbuf_append_char_unsafe ch (jp_tmp json) of
               None \<Rightarrow> None
             | Some tmp \<Rightarrow> string_loop cfg (json\<lparr>jp_tmp := tmp, jp_ptr := jp_ptr json + 1\<rparr>)))"
  by auto
termination
  by (relation "measure (\<lambda>(_, json). length (jp_data json) + 1 - jp_ptr json)")
    (auto simp: char_at_def split: if_splits dest!: unicode_escape_progress)

declare string_loop.simps [simp del]

text \<open>\<open>index\<close> is where the token starts.\<close>

definition json_next_string_token :: "json_config \<Rightarrow> int \<Rightarrow> json_parse \<Rightarrow> (json_token \<times> json_parse) option" where
  "json_next_string_token cfg index json =
     (if char_at (jp_data json) (jp_ptr json) \<noteq> Some (CHR 0x22) then None
      else do {
        (err, json) \<leftarrow> string_loop cfg (json\<lparr>jp_ptr := jp_ptr json + 1, jp_tmp := strbuf_reset (jp_tmp json)\<rparr>);
        case err of
          Some errtype \<Rightarrow> Some (json_set_token_error json errtype, json)
        | None \<Rightarrow> do {
            tmp \<leftarrow> strbuf_ensure_null (jp_tmp json);
            s \<leftarrow> strbuf_string tmp;
            Some (\<lparr>tk_type = T_STRING, tk_index = index, tk_value = Text s\<rparr>, json\<lparr>jp_ptr := jp_ptr json + 1, jp_tmp := tmp\<rparr>) } })"

section \<open>Numbers and the other tokens\<close>

definition c_tolower :: "char \<Rightarrow> char" where
  "c_tolower c = (if (of_char c :: nat) \<in> {65..90} then char_of ((of_char c :: nat) + 32) else c)"

definition json_is_invalid_number :: "bytes \<Rightarrow> nat \<Rightarrow> bool option" where
  "json_is_invalid_number data p = do {
     c \<leftarrow> char_at data p;
     if c = CHR ''+'' then Some True
     else do {
       let p = (if c = CHR ''-'' then p + 1 else p);
       c \<leftarrow> char_at data p;
       if c = CHR ''0'' then do {
         ch2 \<leftarrow> char_at data (p + 1);
         Some (schar ch2 OR 0x20 = schar CHR ''x'' \<or> schar CHR ''0'' \<le> schar ch2 \<and> schar ch2 \<le> schar CHR ''9'') }
       else if schar c \<le> schar CHR ''9'' then Some False
       else Some (map c_tolower (take 3 (drop p data)) \<in> {''inf'', ''nan''}) } }"

definition json_next_number_token :: "fp_env \<Rightarrow> int \<Rightarrow> json_parse \<Rightarrow> (json_token \<times> json_parse) option" where
  "json_next_number_token e index json = do {
     (value, n) \<leftarrow> fpconv_strtod e (drop (jp_ptr json) (jp_data json));
     if n = 0 then Some (json_set_token_error json ''invalid number'', json)
     else Some (\<lparr>tk_type = T_NUMBER, tk_index = index, tk_value = Number value\<rparr>, json\<lparr>jp_ptr := jp_ptr json + n\<rparr>) }"

text \<open>Eating whitespace: the type of the next character.\<close>

function skip_space :: "json_config \<Rightarrow> bytes \<Rightarrow> nat \<Rightarrow> (json_token_type \<times> nat) option" where
  "skip_space cfg data ptr =
     (case char_at data ptr of
        None \<Rightarrow> None
      | Some ch \<Rightarrow> if ch2token cfg ch = T_WHITESPACE then skip_space cfg data (ptr + 1) else Some (ch2token cfg ch, ptr))"
  by auto
termination
  by (relation "measure (\<lambda>(_, data, ptr). length data + 1 - ptr)") (auto simp: char_at_def split: if_splits)

declare skip_space.simps [simp del]

definition literal_at :: "bytes \<Rightarrow> json_parse \<Rightarrow> bool" where
  "literal_at w json = (take (length w) (drop (jp_ptr json) (jp_data json)) = w)"

text \<open>The characters that were tagged \<open>T_UNKNOWN\<close>.\<close>

definition json_unknown_token :: "fp_env \<Rightarrow> json_config \<Rightarrow> int \<Rightarrow> json_parse \<Rightarrow> (json_token \<times> json_parse) option" where
  "json_unknown_token e cfg index json = do {
     ch \<leftarrow> char_at (jp_data json) (jp_ptr json);
     if ch = CHR 0x22 then json_next_string_token cfg index json
     else if ch = CHR ''-'' \<or> schar CHR ''0'' \<le> schar ch \<and> schar ch \<le> schar CHR ''9'' then do {
       bad \<leftarrow> (if decode_invalid_numbers cfg = 0 then json_is_invalid_number (jp_data json) (jp_ptr json) else Some False);
       if bad then Some (json_set_token_error json ''invalid number'', json)
       else json_next_number_token e index json }
     else if literal_at ''true'' json then
       Some (\<lparr>tk_type = T_BOOLEAN, tk_index = index, tk_value = Boolean True\<rparr>, json\<lparr>jp_ptr := jp_ptr json + 4\<rparr>)
     else if literal_at ''false'' json then
       Some (\<lparr>tk_type = T_BOOLEAN, tk_index = index, tk_value = Boolean False\<rparr>, json\<lparr>jp_ptr := jp_ptr json + 5\<rparr>)
     else if literal_at ''null'' json then
       Some (\<lparr>tk_type = T_NULL, tk_index = index, tk_value = No_value\<rparr>, json\<lparr>jp_ptr := jp_ptr json + 4\<rparr>)
     else do {
       bad \<leftarrow> (if decode_invalid_numbers cfg \<noteq> 0 then json_is_invalid_number (jp_data json) (jp_ptr json) else Some False);
       if bad then json_next_number_token e index json
       else Some (json_set_token_error json ''invalid token'', json) } }"

definition json_next_token :: "fp_env \<Rightarrow> json_config \<Rightarrow> json_parse \<Rightarrow> (json_token \<times> json_parse) option" where
  "json_next_token e cfg json = do {
     (type, ptr) \<leftarrow> skip_space cfg (jp_data json) (jp_ptr json);
     let json = json\<lparr>jp_ptr := ptr\<rparr>;
     let index = c_int (int ptr);
     if type = T_ERROR then Some (json_set_token_error json ''invalid token'', json)
     else if type = T_END then Some (\<lparr>tk_type = T_END, tk_index = index, tk_value = No_value\<rparr>, json)
     else if type \<noteq> T_UNKNOWN then Some (\<lparr>tk_type = type, tk_index = index, tk_value = No_value\<rparr>, json\<lparr>jp_ptr := ptr + 1\<rparr>)
     else json_unknown_token e cfg index json }"

section \<open>The parser\<close>

definition json_throw_parse_error :: "json_parse \<Rightarrow> string \<Rightarrow> json_token \<Rightarrow> 'a raising" where
  "json_throw_parse_error json expected token = do {
     found \<leftarrow> (if tk_type token = T_ERROR
       then (case tk_value token of Errtype errtype \<Rightarrow> Some errtype | _ \<Rightarrow> None)
       else Some (json_token_type_name (tk_type token)));
     Some (Inl (''Expected '' @ expected @ '' but found '' @ found @ '' at character '' @ d_string (c_int (tk_index token + 1)),
       strbuf_free (jp_tmp json))) }"

definition json_decode_ascend :: "json_parse \<Rightarrow> json_parse" where
  "json_decode_ascend json = json\<lparr>jp_depth := jp_depth json - 1\<rparr>"

definition json_decode_descend :: "json_config \<Rightarrow> nat \<Rightarrow> nat \<Rightarrow> json_parse \<Rightarrow> json_parse raising" where
  "json_decode_descend cfg h slots json =
     (let json = json\<lparr>jp_depth := jp_depth json + 1\<rparr> in
      if jp_depth json \<le> decode_max_depth cfg \<and> h + slots \<le> LUAI_MAXCSTACK then Some (Inr json)
      else Some (Inl (''Found too many nested data structures ('' @ d_string (jp_depth json) @ '') at character '' @ d_string (c_int (int (jp_ptr json))),
        strbuf_free (jp_tmp json))))"

text \<open>\<open>lua_rawset\<close> on a table that is being built; the keys are strings and numbers.\<close>

fun json_rawset :: "json_value \<Rightarrow> json_value \<Rightarrow> (json_value \<times> json_value) list \<Rightarrow> (json_value \<times> json_value) list" where
  "json_rawset k v [] = [(k, v)]"
| "json_rawset k v ((k', v') # kvs) = (if k = k' then (k, v) # kvs else (k', v') # json_rawset k v kvs)"

text \<open>
  The three contexts, with the height \<open>h\<close> of the Lua stack. \<open>fuel\<close> bounds the number of nested and successive steps; twice
  the length of the input is always enough.
\<close>

function json_process_value :: "fp_env \<Rightarrow> json_config \<Rightarrow> nat \<Rightarrow> nat \<Rightarrow> json_token \<Rightarrow> json_parse \<Rightarrow> (json_value \<times> json_parse) raising"
  and json_parse_object_context :: "fp_env \<Rightarrow> json_config \<Rightarrow> nat \<Rightarrow> nat \<Rightarrow> json_parse \<Rightarrow> (json_value \<times> json_parse) raising"
  and json_parse_array_context :: "fp_env \<Rightarrow> json_config \<Rightarrow> nat \<Rightarrow> nat \<Rightarrow> json_parse \<Rightarrow> (json_value \<times> json_parse) raising"
  and object_pairs :: "fp_env \<Rightarrow> json_config \<Rightarrow> nat \<Rightarrow> nat \<Rightarrow> (json_value \<times> json_value) list \<Rightarrow> json_token \<Rightarrow> json_parse \<Rightarrow> (json_value \<times> json_parse) raising"
  and array_elements :: "fp_env \<Rightarrow> json_config \<Rightarrow> nat \<Rightarrow> nat \<Rightarrow> int \<Rightarrow> (json_value \<times> json_value) list \<Rightarrow> json_token \<Rightarrow> json_parse \<Rightarrow> (json_value \<times> json_parse) raising" where
  "json_process_value e cfg 0 h token json = None"
| "json_process_value e cfg (Suc fuel) h token json =
     (case tk_type token of
        T_STRING \<Rightarrow> (case tk_value token of Text s \<Rightarrow> Some (Inr (JString s, json)) | _ \<Rightarrow> None)
      | T_NUMBER \<Rightarrow> (case tk_value token of Number n \<Rightarrow> Some (Inr (JNumber n, json)) | _ \<Rightarrow> None)
      | T_BOOLEAN \<Rightarrow> (case tk_value token of Boolean b \<Rightarrow> Some (Inr (JBool b, json)) | _ \<Rightarrow> None)
      | T_OBJ_BEGIN \<Rightarrow> json_parse_object_context e cfg fuel h json
      | T_ARR_BEGIN \<Rightarrow> json_parse_array_context e cfg fuel h json
      | T_NULL \<Rightarrow> Some (Inr (JLight 0, json))
      | _ \<Rightarrow> json_throw_parse_error json ''value'' token)"
| "json_parse_object_context e cfg fuel h json =
     xbind (json_decode_descend cfg h 3 json) (\<lambda>json.
     xbind (xlift (json_next_token e cfg json)) (\<lambda>(token, json).
     if tk_type token = T_OBJ_END then Some (Inr (JTable [], json_decode_ascend json))
     else object_pairs e cfg fuel (h + 1) [] token json))"
| "json_parse_array_context e cfg fuel h json =
     xbind (json_decode_descend cfg h 2 json) (\<lambda>json.
     xbind (xlift (json_next_token e cfg json)) (\<lambda>(token, json).
     if tk_type token = T_ARR_END then Some (Inr (JTable [], json_decode_ascend json))
     else array_elements e cfg fuel (h + 1) 1 [] token json))"
| "object_pairs e cfg 0 h kvs token json = None"
| "object_pairs e cfg (Suc fuel) h kvs token json =
     (if tk_type token \<noteq> T_STRING then json_throw_parse_error json ''object key string'' token
      else case tk_value token of
        Text k \<Rightarrow>
          xbind (xlift (json_next_token e cfg json)) (\<lambda>(token, json).
          if tk_type token \<noteq> T_COLON then json_throw_parse_error json ''colon'' token
          else
            xbind (xlift (json_next_token e cfg json)) (\<lambda>(token, json).
            xbind (json_process_value e cfg fuel (h + 1) token json) (\<lambda>(v, json).
            xbind (xlift (json_next_token e cfg json)) (\<lambda>(token, json).
            if tk_type token = T_OBJ_END then Some (Inr (JTable (json_rawset (JString k) v kvs), json_decode_ascend json))
            else if tk_type token \<noteq> T_COMMA then json_throw_parse_error json ''comma or object end'' token
            else
              xbind (xlift (json_next_token e cfg json)) (\<lambda>(token, json).
              object_pairs e cfg fuel h (json_rawset (JString k) v kvs) token json)))))
      | _ \<Rightarrow> None)"
| "array_elements e cfg 0 h i kvs token json = None"
| "array_elements e cfg (Suc fuel) h i kvs token json =
     xbind (json_process_value e cfg fuel h token json) (\<lambda>(v, json).
     xbind (xlift (json_next_token e cfg json)) (\<lambda>(token, json).
     if tk_type token = T_ARR_END then Some (Inr (JTable (json_rawset (JNumber (Finite (of_int i))) v kvs), json_decode_ascend json))
     else if tk_type token \<noteq> T_COMMA then json_throw_parse_error json ''comma or array end'' token
     else
       xbind (xlift (json_next_token e cfg json)) (\<lambda>(token, json).
       array_elements e cfg fuel h (i + 1) (json_rawset (JNumber (Finite (of_int i))) v kvs) token json)))"
  by pat_completeness auto
termination
  by (relation "measures [\<lambda>x. case x of Inl (Inl (_, _, fuel, _)) \<Rightarrow> fuel | Inl (Inr (_, _, fuel, _)) \<Rightarrow> fuel
        | Inr (Inl (_, _, fuel, _)) \<Rightarrow> fuel | Inr (Inr (Inl (_, _, fuel, _))) \<Rightarrow> fuel | Inr (Inr (Inr (_, _, fuel, _))) \<Rightarrow> fuel,
      \<lambda>x. case x of Inl (Inr _) \<Rightarrow> 1 | Inr (Inl _) \<Rightarrow> 1 | _ \<Rightarrow> 0]") auto

text \<open>\<open>json_decode\<close>: the value or the error, and what is left of the temporary buffer.\<close>

definition json_decode :: "fp_env \<Rightarrow> lua_lib \<Rightarrow> json_config \<Rightarrow> lua_value list \<Rightarrow> ((string + json_value) \<times> strbuf option) option" where
  "json_decode e lib cfg st =
     (if length st \<noteq> 1 then Some (Inl ''expected 1 argument'', None)
      else case luaL_checklstring lib st 1 of
        Inl err \<Rightarrow> Some (Inl err, None)
      | Inr data \<Rightarrow>
          if length data \<ge> 2 \<and> (data ! 0 = CHR 0x00 \<or> data ! 1 = CHR 0x00)
          then Some (Inl ''JSON parser does not support UTF-16 or UTF-32'', None)
          else do {
            tmp \<leftarrow> strbuf_new (fe_heap e) (c_int (int (length data)));
            r \<leftarrow> xbind (xlift (json_next_token e cfg \<lparr>jp_data = data, jp_ptr = 0, jp_tmp = tmp, jp_depth = 0\<rparr>)) (\<lambda>(token, json).
              xbind (json_process_value e cfg (2 * length data + 2) 1 token json) (\<lambda>(v, json).
              xbind (xlift (json_next_token e cfg json)) (\<lambda>(token, json).
              if tk_type token \<noteq> T_END then json_throw_parse_error json ''the end'' token
              else Some (Inr (v, json)))));
            case r of
              Inl (err, left) \<Rightarrow> Some (Inl err, left)
            | Inr (v, json) \<Rightarrow> Some (Inr v, strbuf_free (jp_tmp json)) })"

text \<open>The functions of \<open>cjson.safe\<close>: a raised error is returned behind \<open>nil\<close>.\<close>

definition json_protect_conversion :: "('a list \<Rightarrow> (string + json_value) option) \<Rightarrow> 'a list \<Rightarrow> (string + json_value list) option" where
  "json_protect_conversion f st =
     (if length st \<noteq> 1 then Some (Inl ''expected 1 argument'')
      else do { r \<leftarrow> f st; Some (Inr (case r of Inr v \<Rightarrow> [v] | Inl err \<Rightarrow> [JNil, JString err])) })"

end
