(* ===== verification/Json_Encode.thy ===== *)
theory Json_Encode
  imports Json
begin

text \<open>
  Encoding refines printing: whatever the buffer does, the string that \<open>json_encode\<close> returns, or the error it raises, is that of a
  pure printer; and every operation keeps the configuration in order.
\<close>

section \<open>The printer\<close>

text \<open>What is written, and the error that ended it.\<close>

type_synonym printed = "bytes \<times> string option"

definition pseq :: "printed \<Rightarrow> printed \<Rightarrow> printed" where
  "pseq p q = (case snd p of None \<Rightarrow> (fst p @ fst q, snd q) | Some _ \<Rightarrow> p)"

definition json_escape :: "char \<Rightarrow> bytes" where
  "json_escape c = (case char2escape c of None \<Rightarrow> [c] | Some s \<Rightarrow> s)"

definition json_quote :: "bytes \<Rightarrow> bytes" where
  "json_quote s = CHR 0x22 # concat (map json_escape s) @ [CHR 0x22]"

definition serialise_error :: "json_value \<Rightarrow> string \<Rightarrow> string" where
  "serialise_error v reason = ''Cannot serialise '' @ json_typename v @ '': '' @ reason"

definition number_text :: "fp_env \<Rightarrow> json_config \<Rightarrow> double \<Rightarrow> bytes" where
  "number_text e cfg x = (case fpconv_g_fmt e x (encode_number_precision cfg) of None \<Rightarrow> [] | Some (b, _) \<Rightarrow> c_str b)"

definition print_number :: "fp_env \<Rightarrow> json_config \<Rightarrow> double \<Rightarrow> printed" where
  "print_number e cfg x =
     (case x of
        Finite _ \<Rightarrow> (number_text e cfg x, None)
      | _ \<Rightarrow>
          if encode_invalid_numbers cfg = 0 then ([], Some (serialise_error (JNumber x) ''must not be NaN or Infinity''))
          else if encode_invalid_numbers cfg = 1
          then (case x of Infinite True \<Rightarrow> ''-Infinity'' | Infinite False \<Rightarrow> ''Infinity'' | _ \<Rightarrow> ''NaN'', None)
          else (''null'', None))"

definition print_key :: "fp_env \<Rightarrow> json_config \<Rightarrow> json_value \<Rightarrow> printed" where
  "print_key e cfg k =
     (case k of
        JNumber x \<Rightarrow> pseq (pseq ([CHR 0x22], None) (print_number e cfg x)) ([CHR 0x22, CHR '':''], None)
      | JString s \<Rightarrow> (json_quote s @ '':'', None)
      | _ \<Rightarrow> ([], Some (serialise_error k ''table key must be a number or string'')))"

text \<open>A table is an array when its keys are positive integers that are not too sparse; \<open>Inl\<close> is the error for one that is.\<close>

definition array_size :: "json_config \<Rightarrow> (json_value \<times> json_value) list \<Rightarrow> string + int" where
  "array_size cfg kvs =
     (case array_max kvs 0 0 of
        None \<Rightarrow> Inr (- 1)
      | Some (mx, items) \<Rightarrow>
          if encode_sparse_ratio cfg > 0 \<and> mx > items * encode_sparse_ratio cfg \<and> mx > encode_sparse_safe cfg
          then if encode_sparse_convert cfg = 0 then Inl (serialise_error (JTable kvs) ''excessively sparse array'') else Inr (- 1)
          else Inr mx)"

definition nesting_error :: "int \<Rightarrow> string" where
  "nesting_error d = ''Cannot serialise, excessive nesting ('' @ d_string d @ '')''"

function json_print :: "fp_env \<Rightarrow> json_config \<Rightarrow> nat \<Rightarrow> int \<Rightarrow> json_value \<Rightarrow> printed"
  and print_items :: "fp_env \<Rightarrow> json_config \<Rightarrow> nat \<Rightarrow> int \<Rightarrow> bool \<Rightarrow> json_value list \<Rightarrow> printed"
  and print_pairs :: "fp_env \<Rightarrow> json_config \<Rightarrow> nat \<Rightarrow> int \<Rightarrow> bool \<Rightarrow> (json_value \<times> json_value) list \<Rightarrow> printed" where
  "json_print e cfg h d v =
     (case v of
        JString s \<Rightarrow> (json_quote s, None)
      | JNumber x \<Rightarrow> print_number e cfg x
      | JBool b \<Rightarrow> (if b then ''true'' else ''false'', None)
      | JTable kvs \<Rightarrow>
          if d + 1 \<le> encode_max_depth cfg \<and> h + 3 \<le> LUAI_MAXCSTACK
          then (case array_size cfg kvs of
              Inl err \<Rightarrow> ([], Some err)
            | Inr len \<Rightarrow>
                if len > 0 \<or> len = 0 \<and> encode_empty_table_as_object cfg = 0
                then pseq (pseq (''['', None) (print_items e cfg h (d + 1) False (map (json_rawgeti kvs) [1..len]))) ('']'', None)
                else pseq (pseq (''{'', None) (print_pairs e cfg h (d + 1) False kvs)) (''}'', None))
          else ([], Some (nesting_error (d + 1)))
      | JNil \<Rightarrow> (''null'', None)
      | JLight p \<Rightarrow> if p = 0 then (''null'', None) else ([], Some (serialise_error v ''type not supported''))
      | JOther _ \<Rightarrow> ([], Some (serialise_error v ''type not supported'')))"
| "print_items e cfg h d comma vs =
     (case vs of
        [] \<Rightarrow> ([], None)
      | v # vs' \<Rightarrow> pseq (if comma then '','' else [], None) (pseq (json_print e cfg (h + 1) d v) (print_items e cfg h d True vs')))"
| "print_pairs e cfg h d comma kvs =
     (case kvs of
        [] \<Rightarrow> ([], None)
      | (k, v) # kvs' \<Rightarrow>
          pseq (if comma then '','' else [], None)
            (pseq (print_key e cfg k) (pseq (json_print e cfg (h + 2) d v) (print_pairs e cfg h d True kvs'))))"
  by pat_completeness auto
termination
  by (relation "measures [\<lambda>x. case x of
        Inl (_, cfg, _, d, _) \<Rightarrow> 2 * nat (encode_max_depth cfg - d) + 1
      | Inr (Inl (_, cfg, _, d, _)) \<Rightarrow> 2 * nat (encode_max_depth cfg - d) + 2
      | Inr (Inr (_, cfg, _, d, _)) \<Rightarrow> 2 * nat (encode_max_depth cfg - d) + 2,
      \<lambda>x. case x of Inr (Inl (_, _, _, _, _, vs)) \<Rightarrow> length vs | Inr (Inr (_, _, _, _, _, kvs)) \<Rightarrow> length kvs | _ \<Rightarrow> 0]") auto

declare json_print.simps [simp del] print_items.simps [simp del] print_pairs.simps [simp del]

section \<open>A step of the encoder writes\<close>

text \<open>
  \<open>writes cfg f p\<close>: from a buffer in order \<open>f\<close> appends what \<open>p\<close> prints, or raises its error and leaves the buffer in order, or
  frees it when it is not kept. The bound leaves room for the reserve of a string, six bytes for each of its own.
\<close>

definition enc_ok :: "strbuf \<Rightarrow> bool" where
  "enc_ok s \<longleftrightarrow> sb_ok s \<and> \<not> sb_dynamic s"

definition writes :: "json_config \<Rightarrow> (strbuf \<Rightarrow> strbuf raising) \<Rightarrow> printed \<Rightarrow> bool" where
  "writes cfg f p \<longleftrightarrow> (\<forall>s. enc_ok s \<longrightarrow> 6 * (sb_length s + int (length (fst p))) + 64 < 2 ^ 30 \<longrightarrow>
     (\<exists>s'. enc_ok s' \<and> (case snd p of
        None \<Rightarrow> f s = Some (Inr s') \<and> sb_str s' = sb_str s @ fst p
      | Some err \<Rightarrow> f s = Some (Inl (err, if encode_keep_buffer cfg = 0 then strbuf_free s' else Some s')))))"

lemma writesI:
  assumes "\<And>s. enc_ok s \<Longrightarrow> 6 * (sb_length s + int (length t)) + 64 < 2 ^ 30 \<Longrightarrow> \<exists>s'. enc_ok s' \<and> f s = Some (Inr s') \<and> sb_str s' = sb_str s @ t"
  shows "writes cfg f (t, None)"
  using assms by (simp add: writes_def)

lemma enc_length: "enc_ok s \<Longrightarrow> sb_length s = int (length (sb_str s))"
  using str_length [of s] by (simp add: enc_ok_def)

lemma writes_bind:
  assumes f: "writes cfg f p" and g: "writes cfg g q" and h: "\<And>s. h s = xbind (f s) g"
  shows "writes cfg h (pseq p q)"
  unfolding writes_def
proof (intro allI impI)
  fix s
  assume s: "enc_ok s" "6 * (sb_length s + int (length (fst (pseq p q)))) + 64 < 2 ^ 30"
  then have "6 * (sb_length s + int (length (fst p))) + 64 < 2 ^ 30" by (auto simp: pseq_def split: option.splits)
  then obtain s1 where s1: "enc_ok s1" "case snd p of None \<Rightarrow> f s = Some (Inr s1) \<and> sb_str s1 = sb_str s @ fst p
      | Some err \<Rightarrow> f s = Some (Inl (err, if encode_keep_buffer cfg = 0 then strbuf_free s1 else Some s1))"
    using f s(1) unfolding writes_def by blast
  show "\<exists>s'. enc_ok s' \<and> (case snd (pseq p q) of
        None \<Rightarrow> h s = Some (Inr s') \<and> sb_str s' = sb_str s @ fst (pseq p q)
      | Some err \<Rightarrow> h s = Some (Inl (err, if encode_keep_buffer cfg = 0 then strbuf_free s' else Some s')))"
  proof (cases "snd p")
    case None
    then have "6 * (sb_length s1 + int (length (fst q))) + 64 < 2 ^ 30"
      using s s1 enc_length [OF s1(1)] enc_length [OF s(1)] by (simp add: pseq_def)
    then obtain s2 where "enc_ok s2" "case snd q of None \<Rightarrow> g s1 = Some (Inr s2) \<and> sb_str s2 = sb_str s1 @ fst q
        | Some err \<Rightarrow> g s1 = Some (Inl (err, if encode_keep_buffer cfg = 0 then strbuf_free s2 else Some s2))"
      using g s1(1) unfolding writes_def by blast
    then show ?thesis using None s1(2) by (intro exI [of _ s2]) (auto simp: h pseq_def split: option.splits)
  next
    case (Some err)
    then show ?thesis using s1 by (intro exI [of _ s1]) (simp add: h pseq_def)
  qed
qed

lemma writes_adds: "adds f c \<Longrightarrow> (\<And>s. g s = xlift (f s)) \<Longrightarrow> writes cfg g (c, None)"
proof (rule writesI)
  fix s
  assume f: "adds f c" and g: "\<And>s. g s = xlift (f s)" and s: "enc_ok s" "6 * (sb_length s + int (length c)) + 64 < 2 ^ 30"
  then have "sb_ok s" "sb_length s + int (length c) < 2 ^ 30" using enc_length [OF s(1)] by (auto simp: enc_ok_def)
  then obtain s' where "f s = Some s'" "sb_ok s'" "sb_str s' = sb_str s @ c" "sb_dynamic s' = sb_dynamic s" using f unfolding adds_def by blast
  then show "\<exists>s'. enc_ok s' \<and> g s = Some (Inr s') \<and> sb_str s' = sb_str s @ c" using s(1) by (auto simp: g enc_ok_def)
qed

lemma writes_nothing: "writes cfg (\<lambda>s. Some (Inr s)) ([], None)"
  by (rule writesI) auto

lemma writes_error: "writes cfg (\<lambda>s. Some (Inl (err, if encode_keep_buffer cfg = 0 then strbuf_free s else Some s))) ([], Some err)"
  by (auto simp: writes_def)

lemma writes_exception: "writes cfg (json_encode_exception cfg v reason) ([], Some (serialise_error v reason))"
  unfolding json_encode_exception_def [abs_def] serialise_error_def by (rule writes_error)

lemma writes_cong: "writes cfg f p \<Longrightarrow> (\<And>s. g s = f s) \<Longrightarrow> writes cfg g p"
proof -
  assume "\<And>s. g s = f s"
  then have "g = f" by (rule ext)
  then show "writes cfg f p \<Longrightarrow> writes cfg g p" by simp
qed

lemma pseq_none [simp]: "pseq p ([], None) = p" "pseq ([], None) p = p" "pseq (s, None) (t, None) = (s @ t, None)" "pseq (s, Some err) p = (s, Some err)"
  by (simp_all add: pseq_def prod_eq_iff split: option.splits)

section \<open>Strings\<close>

lemma escape_length: "char2escape c = Some s \<Longrightarrow> s \<noteq> [] \<and> length s \<le> 6"
  by (auto simp: char2escape_def Let_def split: if_splits)

lemma json_escape_length: "1 \<le> length (json_escape c)" "length (json_escape c) \<le> 6"
  using escape_length [of c] by (auto simp: json_escape_def Suc_le_eq split: option.splits)

lemma quote_length: "length s + 2 \<le> length (json_quote s)"
proof -
  have "length s \<le> length (concat (map json_escape s))"
  proof (induction s)
    case (Cons c s)
    then show ?case using json_escape_length(1) [of c] by simp
  qed simp
  then show ?thesis by (simp add: json_quote_def)
qed

lemma append_string_room:
  "sb_ok s \<Longrightarrow> sb_length s + int (length str) < sb_size s \<Longrightarrow> space = strbuf_empty_length s
    \<Longrightarrow> \<exists>s'. append_string_loop hp space str s = Some s' \<and> sb_ok s' \<and> sb_str s' = sb_str s @ str \<and> sb_size s' = sb_size s \<and> sb_dynamic s' = sb_dynamic s"
proof (induction str arbitrary: space s)
  case (Cons c str)
  then obtain s1 where s1: "strbuf_append_char_unsafe c s = Some s1" "sb_ok s1" "sb_str s1 = sb_str s @ [c]" "sb_size s1 = sb_size s" "sb_dynamic s1 = sb_dynamic s"
    using unsafe_ok [OF Cons.prems(1), of "[c]"] by (auto simp: char_unsafe_mem)
  then have l: "sb_length s1 = sb_length s + 1" using str_length [OF s1(2)] str_length [OF Cons.prems(1)] by simp
  then show ?case
    using Cons.IH [OF s1(2), of "space - 1"] Cons.prems s1 by (auto simp: strbuf_empty_length_def)
qed simp

lemma escaped_room:
  "sb_ok s \<Longrightarrow> sb_length s + 6 * int (length str) + 1 < sb_size s
    \<Longrightarrow> \<exists>s'. append_escaped hp str s = Some s' \<and> sb_ok s' \<and> sb_str s' = sb_str s @ concat (map json_escape str)
      \<and> sb_length s' + 1 < sb_size s' \<and> sb_dynamic s' = sb_dynamic s"
proof (induction str arbitrary: s)
  case (Cons c str)
  have room: "sb_length s + int (length (json_escape c)) < sb_size s" using Cons.prems(2) json_escape_length(2) [of c] by simp
  obtain s1 where s1: "(case char2escape c of Some x \<Rightarrow> strbuf_append_string hp x s | None \<Rightarrow> strbuf_append_char_unsafe c s) = Some s1"
    "sb_ok s1" "sb_str s1 = sb_str s @ json_escape c" "sb_size s1 = sb_size s" "sb_dynamic s1 = sb_dynamic s"
    using append_string_room [OF Cons.prems(1) _ refl, of "json_escape c" hp] unsafe_ok [OF Cons.prems(1), of "[c]"] room
    by (cases "char2escape c") (auto simp: json_escape_def strbuf_append_string_def char_unsafe_mem)
  have "sb_length s1 = sb_length s + int (length (json_escape c))" using str_length [OF s1(2)] str_length [OF Cons.prems(1)] s1(3) by simp
  then have "sb_length s1 + 6 * int (length str) + 1 < sb_size s1" using Cons.prems(2) s1(4) json_escape_length(2) [of c] by simp
  then show ?case using Cons.IH [OF s1(2)] s1 by auto
qed simp

lemma writes_string:
  assumes hp: "hp_total hp"
  shows "writes cfg (\<lambda>s. xlift (json_append_string hp str s)) (json_quote str, None)"
proof (rule writesI)
  fix s
  assume s: "enc_ok s" and l: "6 * (sb_length s + int (length (json_quote str))) + 64 < 2 ^ 30"
  let ?n = "int (length str) * 6 + 2"
  have ok: "sb_ok s" "0 \<le> sb_length s" using s by (auto simp: enc_ok_def sb_ok_def)
  have n: "sb_length s + ?n < 2 ^ 30" using l ok(2) quote_length [of str] by simp
  then have "c_int ?n = ?n" using ok(2) by (intro c_int_id) auto
  then obtain s1 where s1: "strbuf_ensure_empty_length hp (c_int ?n) s = Some s1" "sb_ok s1" "sb_str s1 = sb_str s"
    "sb_length s1 = sb_length s" "sb_length s + ?n < sb_size s1" "sb_dynamic s1 = sb_dynamic s"
    using ensure_ok [OF ok(1) hp, of ?n] n by auto
  then obtain s2 where s2: "strbuf_append_char_unsafe (CHR 0x22) s1 = Some s2" "sb_ok s2" "sb_str s2 = sb_str s1 @ [CHR 0x22]"
    "sb_size s2 = sb_size s1" "sb_dynamic s2 = sb_dynamic s1"
    using unsafe_ok [OF s1(2), of "[CHR 0x22]"] by (auto simp: char_unsafe_mem)
  have "sb_length s2 = sb_length s1 + 1" using str_length [OF s2(2)] str_length [OF s1(2)] s2(3) by simp
  then obtain s3 where s3: "append_escaped hp str s2 = Some s3" "sb_ok s3" "sb_str s3 = sb_str s2 @ concat (map json_escape str)"
    "sb_length s3 + 1 < sb_size s3" "sb_dynamic s3 = sb_dynamic s2"
    using escaped_room [OF s2(2), of str hp] s1(4,5) s2(4) by auto
  then obtain s4 where "strbuf_append_char_unsafe (CHR 0x22) s3 = Some s4" "sb_ok s4" "sb_str s4 = sb_str s3 @ [CHR 0x22]" "sb_dynamic s4 = sb_dynamic s3"
    using unsafe_ok [OF s3(2), of "[CHR 0x22]"] by (auto simp: char_unsafe_mem)
  then show "\<exists>s'. enc_ok s' \<and> xlift (json_append_string hp str s) = Some (Inr s') \<and> sb_str s' = sb_str s @ json_quote str"
    using s s1 s2 s3 by (simp add: json_append_string_def enc_ok_def json_quote_def)
qed

section \<open>Numbers and keys\<close>

text \<open>
  What is relied on of \<open>printf\<close>: with the formats in use it makes at most 31 characters of a finite number, with the decimal point
  of the locale and none of it elsewhere.
\<close>

definition g_laws :: "fp_env \<Rightarrow> bool" where
  "g_laws e \<longleftrightarrow> (\<forall>p fmt r. set_number_format p = Some fmt \<longrightarrow> (\<exists>t. prints_as e fmt (Finite r) t))"

lemma number_text_ok:
  assumes g: "g_laws e" and p: "1 \<le> encode_number_precision cfg" "encode_number_precision cfg \<le> 14"
  shows "fpconv_g_fmt e (Finite r) (encode_number_precision cfg)
      = Some (number_text e cfg (Finite r) @ [CHR 0x00], int (length (number_text e cfg (Finite r))))
    \<and> length (number_text e cfg (Finite r)) < 32 \<and> CHR 0x00 \<notin> set (number_text e cfg (Finite r))"
proof -
  obtain fmt where fmt: "set_number_format (encode_number_precision cfg) = Some fmt" using p by (auto simp: set_number_format_def Let_def)
  then obtain t where t: "prints_as e fmt (Finite r) t" using g unfolding g_laws_def by blast
  have "number_text e cfg (Finite r) = t"
    using c_str_all [of t "[]"] t by (simp add: number_text_def g_fmt_text [OF t fmt] prints_as_def)
  then show ?thesis using g_fmt_text [OF t fmt] t by (simp add: prints_as_def FPCONV_G_FMT_BUFSIZE_def)
qed

lemma poke_ok:
  assumes ok: "sb_ok s" and room: "sb_length s + int (length t) + 1 \<le> sb_size s"
  shows "\<exists>s'. poke_buf (sb_length s) (t @ [c]) s = Some s' \<and> sb_ok (strbuf_extend_length (int (length t)) s')
    \<and> sb_str (strbuf_extend_length (int (length t)) s') = sb_str s @ t \<and> sb_dynamic s' = sb_dynamic s"
proof -
  obtain b where b: "sb_buf s = Some b" "int (length b) = sb_size s" and l: "0 \<le> sb_length s" using ok by (auto simp: sb_ok_def)
  let ?l = "nat (sb_length s)"
  have le: "?l + length t + 1 \<le> length b" using room b l by linarith
  then have "length (take ?l b @ (t @ [c]) @ drop (?l + length (t @ [c])) b) = length b" by simp
  moreover have "take (nat (sb_length s + int (length t))) (take ?l b @ (t @ [c]) @ drop (?l + length (t @ [c])) b) = take ?l b @ t"
    using le l by (simp add: nat_add_distrib)
  ultimately show ?thesis using b l le ok room
    by (auto simp: poke_buf_def sb_ok_def sb_str_def strbuf_extend_length_def)
qed

lemma writes_finite:
  assumes hp: "hp_total (fe_heap e)" and g: "g_laws e" and p: "1 \<le> encode_number_precision cfg" "encode_number_precision cfg \<le> 14"
  shows "writes cfg (\<lambda>s. xlift (do {
            s \<leftarrow> strbuf_ensure_empty_length (fe_heap e) (int FPCONV_G_FMT_BUFSIZE) s;
            (text, len) \<leftarrow> fpconv_g_fmt e (Finite r) (encode_number_precision cfg);
            s \<leftarrow> poke_buf (sb_length s) text s;
            Some (strbuf_extend_length len s) })) (number_text e cfg (Finite r), None)"
proof (rule writesI)
  fix s
  let ?t = "number_text e cfg (Finite r)"
  assume s: "enc_ok s" and l: "6 * (sb_length s + int (length ?t)) + 64 < 2 ^ 30"
  have ok: "sb_ok s" "0 \<le> sb_length s" using s by (auto simp: enc_ok_def sb_ok_def)
  then obtain s1 where s1: "strbuf_ensure_empty_length (fe_heap e) 32 s = Some s1" "sb_ok s1" "sb_str s1 = sb_str s"
    "sb_length s1 = sb_length s" "sb_length s + 32 < sb_size s1" "sb_dynamic s1 = sb_dynamic s"
    using ensure_ok [OF ok(1) hp, of 32] l by auto
  note t = number_text_ok [OF g p, of r]
  then obtain s2 where "poke_buf (sb_length s1) (?t @ [CHR 0x00]) s1 = Some s2" "sb_ok (strbuf_extend_length (int (length ?t)) s2)"
    "sb_str (strbuf_extend_length (int (length ?t)) s2) = sb_str s1 @ ?t" "sb_dynamic s2 = sb_dynamic s1"
    using poke_ok [OF s1(2), of ?t] s1(4,5) by auto
  then show "\<exists>s'. enc_ok s' \<and> xlift (do {
            s \<leftarrow> strbuf_ensure_empty_length (fe_heap e) (int FPCONV_G_FMT_BUFSIZE) s;
            (text, len) \<leftarrow> fpconv_g_fmt e (Finite r) (encode_number_precision cfg);
            s \<leftarrow> poke_buf (sb_length s) text s;
            Some (strbuf_extend_length len s) }) = Some (Inr s') \<and> sb_str s' = sb_str s @ ?t"
    using s s1 t by (simp add: FPCONV_G_FMT_BUFSIZE_def enc_ok_def strbuf_extend_length_def)
qed

lemma writes_number:
  assumes hp: "hp_total (fe_heap e)" and g: "g_laws e" and p: "1 \<le> encode_number_precision cfg" "encode_number_precision cfg \<le> 14"
  shows "writes cfg (json_append_number e cfg x) (print_number e cfg x)"
proof (cases x)
  case (Finite r)
  then have "writes cfg (json_append_number e cfg x) (number_text e cfg x, None)"
    using writes_finite [OF hp g p, of r] by (auto simp: json_append_number_def Let_def intro: writes_cong)
  then show ?thesis using Finite by (simp add: print_number_def)
next
  case (Infinite neg)
  have "writes cfg (json_append_number e cfg x) (print_number e cfg x)" if "encode_invalid_numbers cfg = 0"
    using that Infinite writes_cong [OF writes_exception [of cfg "JNumber x"]] by (simp add: json_append_number_def Let_def print_number_def)
  moreover have "writes cfg (json_append_number e cfg x) (print_number e cfg x)" if "encode_invalid_numbers cfg \<noteq> 0"
    using that Infinite
    by (cases neg; cases "encode_invalid_numbers cfg = 1")
      (auto simp: json_append_number_def Let_def print_number_def intro!: writes_adds [OF adds_mem [OF hp]])
  ultimately show ?thesis by blast
next
  case NaN
  have "writes cfg (json_append_number e cfg x) (print_number e cfg x)" if "encode_invalid_numbers cfg = 0"
    using that NaN writes_cong [OF writes_exception [of cfg "JNumber x"]] by (simp add: json_append_number_def Let_def print_number_def)
  moreover have "writes cfg (json_append_number e cfg x) (print_number e cfg x)" if "encode_invalid_numbers cfg \<noteq> 0"
    using that NaN
    by (cases "encode_invalid_numbers cfg = 1")
      (auto simp: json_append_number_def Let_def print_number_def intro!: writes_adds [OF adds_mem [OF hp]])
  ultimately show ?thesis by blast
qed

lemma writes_key:
  assumes hp: "hp_total (fe_heap e)" and g: "g_laws e" and p: "1 \<le> encode_number_precision cfg" "encode_number_precision cfg \<le> 14"
  shows "writes cfg (json_append_key e cfg k) (print_key e cfg k)"
proof (cases k)
  case (JNumber x)
  have "writes cfg (\<lambda>s. xbind (xlift (strbuf_append_char (fe_heap e) (CHR 0x22) s)) (json_append_number e cfg x))
      (pseq ([CHR 0x22], None) (print_number e cfg x))"
    by (rule writes_bind [OF writes_adds [OF adds_char [OF hp] refl] writes_number [OF hp g p]]) simp
  then have "writes cfg (json_append_key e cfg k) (pseq (pseq ([CHR 0x22], None) (print_number e cfg x)) ([CHR 0x22, CHR '':''], None))"
    by (rule writes_bind [OF _ writes_adds [OF adds_mem [OF hp] refl]])
      (auto simp: json_append_key_def JNumber Let_def xbind_def split: option.splits sum.splits)
  then show ?thesis by (simp add: print_key_def JNumber)
next
  case (JString str)
  have "writes cfg (json_append_key e cfg k) (pseq (json_quote str, None) ('':'', None))"
    by (rule writes_bind [OF writes_string [OF hp] writes_adds [OF adds_char [OF hp] refl]]) (simp add: json_append_key_def JString Let_def)
  then show ?thesis by (simp add: print_key_def JString)
qed (use writes_exception [of cfg k] in \<open>simp_all add: json_append_key_def [abs_def] print_key_def Let_def\<close>)

section \<open>Tables\<close>

text \<open>The number of entries times the ratio is an \<open>int\<close> in every table.\<close>

function json_fits :: "json_config \<Rightarrow> json_value \<Rightarrow> bool" where
  "json_fits cfg v = (case v of
     JTable kvs \<Rightarrow> int (length kvs) < 2 ^ 31 \<and> int (length kvs) * encode_sparse_ratio cfg < 2 ^ 31 \<and> (\<forall>kv \<in> set kvs. json_fits cfg (snd kv))
   | _ \<Rightarrow> True)"
  by auto
termination
proof (relation "measure (\<lambda>(_, v). size v)", goal_cases)
  case (2 cfg v kvs kv)
  then have "size_prod size size kv \<le> size_list (size_prod size size) kvs" by (intro size_list_estimation') auto
  then show ?case using 2 by (cases kv) auto
qed simp

declare json_fits.simps [simp del]

lemma fits_entry: "json_fits cfg (JTable kvs) \<Longrightarrow> (k, v) \<in> set kvs \<Longrightarrow> json_fits cfg v"
  by (auto simp: json_fits.simps [of cfg "JTable kvs"])

lemma fits_item: "json_fits cfg (JTable kvs) \<Longrightarrow> json_fits cfg (json_rawgeti kvs i)"
  by (auto simp: json_rawgeti_def json_fits.simps [of cfg JNil] dest!: map_of_SomeD split: option.splits intro: fits_entry)

lemma array_max_items:
  "array_max kvs mx n = Some (mx', n') \<Longrightarrow> 0 \<le> n \<Longrightarrow> n + int (length kvs) < 2 ^ 31 \<Longrightarrow> n' = n + int (length kvs)"
  by (induction kvs mx n rule: array_max.induct) (auto split: json_value.splits double.splits if_splits)

lemma array_length_size:
  assumes "0 \<le> encode_sparse_ratio cfg" and "json_fits cfg (JTable kvs)"
  shows "lua_array_length cfg kvs s = (case array_size cfg kvs of
     Inl err \<Rightarrow> Some (Inl (err, if encode_keep_buffer cfg = 0 then strbuf_free s else Some s)) | Inr n \<Rightarrow> Some (Inr n))"
proof (cases "array_max kvs 0 0")
  case None
  then show ?thesis by (simp add: lua_array_length_def array_size_def)
next
  case (Some mn)
  then obtain mx where mx: "array_max kvs 0 0 = Some (mx, int (length kvs))"
    using array_max_items [of kvs 0 0] assms(2) by (cases mn) (auto simp: json_fits.simps [of cfg "JTable kvs"])
  have "0 \<le> int (length kvs) * encode_sparse_ratio cfg" using assms(1) by simp
  then have "c_arith (int (length kvs) * encode_sparse_ratio cfg) = Some (int (length kvs) * encode_sparse_ratio cfg)"
    using assms(2) by (simp add: c_arith_def json_fits.simps [of cfg "JTable kvs"])
  then show ?thesis by (simp add: lua_array_length_def array_size_def mx json_encode_exception_def serialise_error_def)
qed

lemma writes_comma: "hp_total (fe_heap e) \<Longrightarrow> writes cfg (json_comma e comma) (if comma then '','' else [], None)"
  using writes_cong [OF writes_nothing [of cfg], of "json_comma e False"]
  by (cases comma) (auto simp: json_comma_def intro!: writes_adds [OF adds_char])

lemma writes_items:
  assumes hp: "hp_total (fe_heap e)"
    and elems: "\<And>v. v \<in> set vs \<Longrightarrow> writes cfg (json_append_data e cfg (h + 1) d v) (json_print e cfg (h + 1) d v)"
  shows "writes cfg (array_items e cfg h d comma vs) (print_items e cfg h d comma vs)"
  using elems
proof (induction vs arbitrary: comma)
  case Nil
  show ?case using writes_nothing [of cfg] by (simp add: array_items.simps [abs_def] print_items.simps)
next
  case (Cons v vs)
  have "writes cfg (\<lambda>s. xbind (json_append_data e cfg (h + 1) d v s) (array_items e cfg h d True vs))
      (pseq (json_print e cfg (h + 1) d v) (print_items e cfg h d True vs))"
  proof (rule writes_bind)
    show "writes cfg (json_append_data e cfg (h + 1) d v) (json_print e cfg (h + 1) d v)" by (rule Cons.prems) simp
    show "writes cfg (array_items e cfg h d True vs) (print_items e cfg h d True vs)" by (rule Cons.IH) (rule Cons.prems, simp)
  qed simp
  then show ?case unfolding print_items.simps [of e cfg h d comma "v # vs"] list.case
    by (rule writes_bind [OF writes_comma [OF hp]]) (simp add: array_items.simps [of e cfg h d comma "v # vs"])
qed

lemma writes_pairs:
  assumes hp: "hp_total (fe_heap e)" and g: "g_laws e" and p: "1 \<le> encode_number_precision cfg" "encode_number_precision cfg \<le> 14"
    and elems: "\<And>k v. (k, v) \<in> set kvs \<Longrightarrow> writes cfg (json_append_data e cfg (h + 2) d v) (json_print e cfg (h + 2) d v)"
  shows "writes cfg (object_items e cfg h d comma kvs) (print_pairs e cfg h d comma kvs)"
  using elems
proof (induction kvs arbitrary: comma)
  case Nil
  show ?case using writes_nothing [of cfg] by (simp add: object_items.simps [abs_def] print_pairs.simps)
next
  case (Cons kv kvs)
  obtain k v where kv: "kv = (k, v)" by (cases kv)
  have "writes cfg (\<lambda>s. xbind (json_append_data e cfg (h + 2) d v s) (object_items e cfg h d True kvs))
      (pseq (json_print e cfg (h + 2) d v) (print_pairs e cfg h d True kvs))"
  proof (rule writes_bind)
    show "writes cfg (json_append_data e cfg (h + 2) d v) (json_print e cfg (h + 2) d v)" by (rule Cons.prems [of k]) (simp add: kv)
    show "writes cfg (object_items e cfg h d True kvs) (print_pairs e cfg h d True kvs)"
      by (rule Cons.IH) (rule Cons.prems, rule list.set_intros(2), assumption)
  qed simp
  then have "writes cfg (\<lambda>s. xbind (json_append_key e cfg k s) (\<lambda>s. xbind (json_append_data e cfg (h + 2) d v s) (object_items e cfg h d True kvs)))
      (pseq (print_key e cfg k) (pseq (json_print e cfg (h + 2) d v) (print_pairs e cfg h d True kvs)))"
    by (rule writes_bind [OF writes_key [OF hp g p]]) simp
  then show ?case unfolding kv print_pairs.simps [of e cfg h d comma "(k, v) # kvs"] list.case prod.case
    by (rule writes_bind [OF writes_comma [OF hp]]) (simp add: object_items.simps [of e cfg h d comma "(k, v) # kvs"])
qed

lemma writes_within:
  assumes hp: "hp_total (fe_heap e)" and f: "writes cfg f q"
    and g: "\<And>s. g s = xbind (xlift (strbuf_append_char (fe_heap e) a s)) (\<lambda>s. xbind (f s) (\<lambda>s. xlift (strbuf_append_char (fe_heap e) b s)))"
  shows "writes cfg g (pseq (pseq ([a], None) q) ([b], None))"
proof -
  have "writes cfg (\<lambda>s. xbind (xlift (strbuf_append_char (fe_heap e) a s)) f) (pseq ([a], None) q)"
    by (rule writes_bind [OF writes_adds [OF adds_char [OF hp] refl] f]) simp
  then show ?thesis
    by (rule writes_bind [OF _ writes_adds [OF adds_char [OF hp] refl]])
      (auto simp: g xbind_def split: option.splits sum.splits)
qed

section \<open>Values\<close>

lemma writes_table:
  assumes hp: "hp_total (fe_heap e)" and g: "g_laws e" and p: "1 \<le> encode_number_precision cfg" "encode_number_precision cfg \<le> 14"
    and r: "0 \<le> encode_sparse_ratio cfg" and v: "json_fits cfg (JTable kvs)"
    and d: "d + 1 \<le> encode_max_depth cfg" "h + 3 \<le> LUAI_MAXCSTACK"
    and elems: "\<And>h v. json_fits cfg v \<Longrightarrow> writes cfg (json_append_data e cfg h (d + 1) v) (json_print e cfg h (d + 1) v)"
  shows "writes cfg (json_append_data e cfg h d (JTable kvs)) (json_print e cfg h d (JTable kvs))"
proof (cases "array_size cfg kvs")
  case (Inl err)
  have "writes cfg (json_append_data e cfg h d (JTable kvs)) ([], Some err)"
    by (rule writes_cong [OF writes_error])
      (use d in \<open>simp add: json_append_data.simps json_check_encode_depth_def array_length_size [OF r v] Inl\<close>)
  then show ?thesis using d by (simp add: json_print.simps Inl)
next
  case (Inr len)
  have run: "json_append_data e cfg h d (JTable kvs) s =
      (if len > 0 \<or> len = 0 \<and> encode_empty_table_as_object cfg = 0
       then json_append_array e cfg h (d + 1) kvs len s
       else json_append_object e cfg h (d + 1) kvs s)" for s
    using d by (simp add: json_append_data.simps json_check_encode_depth_def array_length_size [OF r v] Inr)
  have items: "writes cfg (array_items e cfg h (d + 1) False (map (json_rawgeti kvs) [1..len])) (print_items e cfg h (d + 1) False (map (json_rawgeti kvs) [1..len]))"
    by (rule writes_items [OF hp]) (auto intro!: elems fits_item [OF v])
  have pairs: "writes cfg (object_items e cfg h (d + 1) False kvs) (print_pairs e cfg h (d + 1) False kvs)"
    by (rule writes_pairs [OF hp g p]) (auto intro!: elems fits_entry [OF v])
  show ?thesis
  proof (cases "len > 0 \<or> len = 0 \<and> encode_empty_table_as_object cfg = 0")
    case True
    then have "writes cfg (json_append_data e cfg h d (JTable kvs))
        (pseq (pseq (''['', None) (print_items e cfg h (d + 1) False (map (json_rawgeti kvs) [1..len]))) ('']'', None))"
      by (intro writes_within [OF hp items]) (simp add: run json_append_array.simps)
    then show ?thesis using d True by (simp add: json_print.simps [of e cfg h d "JTable kvs"] Inr)
  next
    case False
    then have "writes cfg (json_append_data e cfg h d (JTable kvs))
        (pseq (pseq (''{'', None) (print_pairs e cfg h (d + 1) False kvs)) (''}'', None))"
      by (intro writes_within [OF hp pairs]) (auto simp: run json_append_object.simps)
    then show ?thesis using d False by (auto simp: json_print.simps [of e cfg h d "JTable kvs"] Inr)
  qed
qed

lemma writes_data:
  assumes hp: "hp_total (fe_heap e)" and g: "g_laws e" and p: "1 \<le> encode_number_precision cfg" "encode_number_precision cfg \<le> 14"
    and r: "0 \<le> encode_sparse_ratio cfg"
  shows "json_fits cfg v \<Longrightarrow> writes cfg (json_append_data e cfg h d v) (json_print e cfg h d v)"
proof (induction "nat (encode_max_depth cfg - d)" arbitrary: d h v rule: less_induct)
  case less
  note mem = writes_adds [OF adds_mem [OF hp]]
  show ?case
  proof (cases v)
    case (JTable kvs)
    show ?thesis
    proof (cases "d + 1 \<le> encode_max_depth cfg \<and> h + 3 \<le> LUAI_MAXCSTACK")
      case True
      then have "writes cfg (json_append_data e cfg h (d + 1) v) (json_print e cfg h (d + 1) v)" if "json_fits cfg v" for h v
        using less.hyps [of "d + 1"] that by simp
      then show ?thesis using writes_table [OF hp g p r] less.prems True JTable by blast
    next
      case False
      have "writes cfg (json_append_data e cfg h d v) ([], Some (nesting_error (d + 1)))"
        by (rule writes_cong [OF writes_error]) (use False in \<open>auto simp: json_append_data.simps json_check_encode_depth_def JTable nesting_error_def\<close>)
      then show ?thesis using False JTable by (auto simp: json_print.simps [of e cfg h d "JTable kvs"])
    qed
  next
    case (JString str)
    then show ?thesis using writes_cong [OF writes_string [OF hp]] by (simp add: json_append_data.simps json_print.simps Let_def)
  next
    case (JNumber x)
    then show ?thesis using writes_cong [OF writes_number [OF hp g p]] by (simp add: json_append_data.simps json_print.simps Let_def)
  next
    case (JLight q)
    have "writes cfg (json_append_data e cfg h d v) ([], Some (serialise_error v ''type not supported''))" if "q \<noteq> 0"
      by (rule writes_cong [OF writes_exception]) (use that JLight in \<open>simp add: json_append_data.simps Let_def\<close>)
    moreover have "writes cfg (json_append_data e cfg h d v) (''null'', None)" if "q = 0"
      using that JLight by (intro mem) (simp add: json_append_data.simps Let_def)
    ultimately show ?thesis using JLight by (simp add: json_print.simps)
  next
    case (JOther t)
    have "writes cfg (json_append_data e cfg h d v) ([], Some (serialise_error v ''type not supported''))"
      by (rule writes_cong [OF writes_exception]) (use JOther in \<open>simp add: json_append_data.simps Let_def\<close>)
    then show ?thesis using JOther by (simp add: json_print.simps)
  next
    case JNil
    then show ?thesis by (auto simp: json_print.simps json_append_data.simps Let_def intro!: mem)
  next
    case (JBool b)
    then show ?thesis by (cases b) (auto simp: json_print.simps json_append_data.simps Let_def intro!: mem)
  qed
qed

section \<open>The configuration stays in order\<close>

definition cfg_ok :: "json_config \<Rightarrow> bool" where
  "cfg_ok cfg \<longleftrightarrow> ch2token cfg = token_table \<and> escape2char cfg = escape_table
     \<and> \<not> sb_dynamic (encode_buf cfg) \<and> (if encode_keep_buffer cfg \<noteq> 0 then sb_ok (encode_buf cfg) else sb_buf (encode_buf cfg) = None)
     \<and> encode_keep_buffer cfg \<in> {0, 1}
     \<and> encode_sparse_convert cfg \<in> {0, 1} \<and> encode_empty_table_as_object cfg \<in> {0, 1} \<and> decode_invalid_numbers cfg \<in> {0, 1}
     \<and> encode_invalid_numbers cfg \<in> {0, 1, 2} \<and> encode_number_precision cfg \<in> {1..14}
     \<and> encode_sparse_ratio cfg \<in> {0..INT_MAX} \<and> encode_sparse_safe cfg \<in> {0..INT_MAX}
     \<and> encode_max_depth cfg \<in> {1..INT_MAX} \<and> decode_max_depth cfg \<in> {1..INT_MAX}"

lemma encode_prints:
  assumes cfg: "cfg_ok cfg" and hp: "hp_total (fe_heap e)" and g: "g_laws e" and v: "json_fits cfg v"
    and len: "6 * int (length (fst (json_print e cfg 1 0 v))) + 64 < 2 ^ 30"
  shows "\<exists>buf. json_encode e [v] cfg = Some (case json_print e cfg 1 0 v of (t, None) \<Rightarrow> Inr t | (_, Some err) \<Rightarrow> Inl err, cfg\<lparr>encode_buf := buf\<rparr>)
     \<and> cfg_ok (cfg\<lparr>encode_buf := buf\<rparr>)"
proof -
  let ?p = "json_print e cfg 1 0 v"
  obtain s where s: "(if encode_keep_buffer cfg = 0 then strbuf_init (fe_heap e) 0 else Some (strbuf_reset (encode_buf cfg))) = Some s"
    "enc_ok s" "sb_str s = []"
    using init_ok [OF hp, of 0] cfg
    by (cases "encode_keep_buffer cfg = 0") (auto simp: enc_ok_def cfg_ok_def strbuf_reset_def sb_ok_def sb_str_def)
  have "writes cfg (json_append_data e cfg 1 0 v) ?p"
    using writes_data [OF hp g _ _ _ v, of 1 0] cfg by (simp add: cfg_ok_def)
  moreover have "6 * (sb_length s + int (length (fst ?p))) + 64 < 2 ^ 30" using len enc_length [OF s(2)] s(3) by simp
  ultimately obtain s' where s': "enc_ok s'" "case snd ?p of
        None \<Rightarrow> json_append_data e cfg 1 0 v s = Some (Inr s') \<and> sb_str s' = sb_str s @ fst ?p
      | Some err \<Rightarrow> json_append_data e cfg 1 0 v s = Some (Inl (err, if encode_keep_buffer cfg = 0 then strbuf_free s' else Some s'))"
    using s(2) unfolding writes_def by blast
  let ?buf = "if encode_keep_buffer cfg = 0 then encode_buf cfg else s'"
  have str: "strbuf_string s' = Some (sb_str s')" using s'(1) by (auto simp: strbuf_string_def sb_str_def enc_ok_def sb_ok_def)
  have "cfg_ok (cfg\<lparr>encode_buf := ?buf\<rparr>)" using cfg s'(1) by (simp add: cfg_ok_def enc_ok_def)
  moreover have "json_encode e [v] cfg = Some (case ?p of (t, None) \<Rightarrow> Inr t | (_, Some err) \<Rightarrow> Inl err, cfg\<lparr>encode_buf := ?buf\<rparr>)"
    using s' s str by (cases ?p; cases "snd ?p") (auto simp: json_encode_def)
  ultimately show ?thesis by blast
qed

lemma integer_option_range:
  "json_integer_option lib st i setting lo hi = Inr (n, v) \<Longrightarrow> setting \<in> {lo..hi} \<Longrightarrow> n \<in> {lo..hi}"
  by (auto simp: json_integer_option_def Let_def split: if_splits sum.splits)

lemma enum_option_bool:
  "setting \<in> {0, 1} \<Longrightarrow> \<exists>r. json_enum_option lib st i setting None 1 = Some r \<and> (\<forall>n v. r = Inr (n, v) \<longrightarrow> n \<in> {0, 1})"
  by (auto simp: json_enum_option_def luaL_checkoption_def Let_def split: option.splits sum.splits if_splits)

lemma enum_option_three:
  "setting \<in> {0, 1, 2} \<Longrightarrow> \<exists>r. json_enum_option lib st i setting (Some [a, b, c]) 1 = Some r \<and> (\<forall>n v. r = Inr (n, v) \<longrightarrow> n \<in> {0, 1, 2})"
  by (auto simp: json_enum_option_def luaL_checkoption_def Let_def split: option.splits sum.splits if_splits)

text \<open>\<open>keeps_cfg f\<close>: the function returns and keeps the configuration in order.\<close>

definition keeps_cfg :: "(lua_value list \<Rightarrow> json_config \<Rightarrow> (lua_ret \<times> json_config) option) \<Rightarrow> bool" where
  "keeps_cfg f \<longleftrightarrow> (\<forall>st cfg. cfg_ok cfg \<longrightarrow> (\<exists>r cfg'. f st cfg = Some (r, cfg') \<and> cfg_ok cfg'))"

lemma keeps_with_args:
  "(\<And>st cfg. cfg_ok cfg \<Longrightarrow> \<exists>r cfg'. f st cfg = Some (r, cfg') \<and> cfg_ok cfg') \<Longrightarrow> keeps_cfg (\<lambda>st cfg. with_args n st cfg (\<lambda>st. f st cfg))"
  by (auto simp: keeps_cfg_def with_args_def split: sum.splits)

lemma stored_ok:
  assumes "cfg_ok cfg" and "\<And>n v. r = Inr (n, v) \<Longrightarrow> \<exists>x cfg'. f v (upd n) = Some (x, cfg') \<and> cfg_ok cfg'"
  shows "\<exists>x cfg'. stored cfg upd r f = Some (x, cfg') \<and> cfg_ok cfg'"
  using assms by (auto simp: stored_def split: sum.splits)

lemma one_value_ok: "cfg_ok cfg \<Longrightarrow> \<exists>x cfg'. one_value v cfg = Some (x, cfg') \<and> cfg_ok cfg'"
  by (simp add: one_value_def)

lemma integer_stored:
  assumes "cfg_ok cfg" "setting \<in> {lo..hi}" "\<And>n v. n \<in> {lo..hi} \<Longrightarrow> \<exists>x cfg'. f v (upd n) = Some (x, cfg') \<and> cfg_ok cfg'"
  shows "\<exists>x cfg'. stored cfg upd (json_integer_option lib st i setting lo hi) f = Some (x, cfg') \<and> cfg_ok cfg'"
  by (rule stored_ok [OF assms(1)]) (blast intro: assms(3) dest: integer_option_range [OF _ assms(2)])

lemma enum_stored:
  assumes "cfg_ok cfg" "setting \<in> {0, 1}" "\<And>n v. n \<in> {0, 1} \<Longrightarrow> \<exists>x cfg'. f v (upd n) = Some (x, cfg') \<and> cfg_ok cfg'"
  shows "\<exists>x cfg'. do { r \<leftarrow> json_enum_option lib st i setting None 1; stored cfg upd r f } = Some (x, cfg') \<and> cfg_ok cfg'"
proof -
  obtain r where "json_enum_option lib st i setting None 1 = Some r" "\<And>n v. r = Inr (n, v) \<Longrightarrow> n \<in> {0, 1}"
    using enum_option_bool [OF assms(2)] by blast
  then show ?thesis using stored_ok [OF assms(1), of r f upd] assms(3) by simp
qed

lemma cfg_ok_update:
  assumes "cfg_ok cfg"
  shows "n \<in> {0, 1} \<Longrightarrow> cfg_ok (cfg\<lparr>encode_sparse_convert := n\<rparr>)" "n \<in> {0..INT_MAX} \<Longrightarrow> cfg_ok (cfg\<lparr>encode_sparse_ratio := n\<rparr>)"
    "n \<in> {0..INT_MAX} \<Longrightarrow> cfg_ok (cfg\<lparr>encode_sparse_safe := n\<rparr>)" "n \<in> {1..INT_MAX} \<Longrightarrow> cfg_ok (cfg\<lparr>encode_max_depth := n\<rparr>)"
    "n \<in> {1..INT_MAX} \<Longrightarrow> cfg_ok (cfg\<lparr>decode_max_depth := n\<rparr>)" "n \<in> {1..14} \<Longrightarrow> cfg_ok (cfg\<lparr>encode_number_precision := n\<rparr>)"
    "n \<in> {0, 1} \<Longrightarrow> cfg_ok (cfg\<lparr>encode_empty_table_as_object := n\<rparr>)" "n \<in> {0, 1} \<Longrightarrow> cfg_ok (cfg\<lparr>decode_invalid_numbers := n\<rparr>)"
    "n \<in> {0, 1, 2} \<Longrightarrow> cfg_ok (cfg\<lparr>encode_invalid_numbers := n\<rparr>)"
  using assms by (simp_all add: cfg_ok_def)

lemma cfg_ok_range:
  assumes "cfg_ok cfg"
  shows "encode_sparse_convert cfg \<in> {0, 1}" "encode_sparse_ratio cfg \<in> {0..INT_MAX}" "encode_sparse_safe cfg \<in> {0..INT_MAX}"
    "encode_max_depth cfg \<in> {1..INT_MAX}" "decode_max_depth cfg \<in> {1..INT_MAX}" "encode_number_precision cfg \<in> {1..14}"
    "encode_empty_table_as_object cfg \<in> {0, 1}" "decode_invalid_numbers cfg \<in> {0, 1}" "encode_invalid_numbers cfg \<in> {0, 1, 2}"
    "encode_keep_buffer cfg \<in> {0, 1}"
  using assms by (simp_all add: cfg_ok_def)

lemma keeps_integers:
  "keeps_cfg (json_cfg_encode_max_depth lib)" "keeps_cfg (json_cfg_decode_max_depth lib)" "keeps_cfg (json_cfg_encode_number_precision lib)"
  unfolding json_cfg_encode_max_depth_def [abs_def] json_cfg_decode_max_depth_def [abs_def] json_cfg_encode_number_precision_def [abs_def]
  by (intro keeps_with_args integer_stored one_value_ok cfg_ok_update; auto dest: cfg_ok_range)+

lemma keeps_booleans: "keeps_cfg (json_cfg_encode_empty_table_as_object lib)" "keeps_cfg (json_cfg_decode_invalid_numbers lib)"
  unfolding json_cfg_encode_empty_table_as_object_def [abs_def] json_cfg_decode_invalid_numbers_def [abs_def]
  by (intro keeps_with_args enum_stored one_value_ok cfg_ok_update; auto dest: cfg_ok_range)+

lemma keeps_invalid_numbers: "keeps_cfg (json_cfg_encode_invalid_numbers lib)"
  unfolding json_cfg_encode_invalid_numbers_def [abs_def]
proof (rule keeps_with_args)
  fix st cfg
  assume c: "cfg_ok cfg"
  then obtain r where "json_enum_option lib st 1 (encode_invalid_numbers cfg) (Some [''off'', ''on'', ''null'']) 1 = Some r"
    "\<And>n v. r = Inr (n, v) \<Longrightarrow> n \<in> {0, 1, 2}"
    using enum_option_three [OF cfg_ok_range(9)] by blast
  then show "\<exists>r cfg'. do { r \<leftarrow> json_enum_option lib st 1 (encode_invalid_numbers cfg) (Some [''off'', ''on'', ''null'']) 1;
      stored cfg (\<lambda>n. cfg\<lparr>encode_invalid_numbers := n\<rparr>) r one_value } = Some (r, cfg') \<and> cfg_ok cfg'"
    using stored_ok [OF c, of r one_value "\<lambda>n. cfg\<lparr>encode_invalid_numbers := n\<rparr>"] one_value_ok [OF cfg_ok_update(9) [OF c]] by simp
qed

lemma keeps_sparse: "keeps_cfg (json_cfg_encode_sparse_array lib)"
  unfolding json_cfg_encode_sparse_array_def [abs_def]
proof (rule keeps_with_args)
  fix st cfg
  assume c: "cfg_ok cfg"
  have safe: "\<exists>x cfg'. stored cfg (\<lambda>n. cfg\<lparr>encode_sparse_safe := n\<rparr>) (json_integer_option lib st 3 (encode_sparse_safe cfg) 0 INT_MAX)
      (\<lambda>v3 cfg. Some (Ret [v1, v2, v3], cfg)) = Some (x, cfg') \<and> cfg_ok cfg'" if "cfg_ok cfg" for cfg v1 v2
    by (rule integer_stored [OF that cfg_ok_range(3) [OF that]]) (use cfg_ok_update(3) [OF that] in blast)
  have ratio: "\<exists>x cfg'. stored cfg (\<lambda>n. cfg\<lparr>encode_sparse_ratio := n\<rparr>) (json_integer_option lib st 2 (encode_sparse_ratio cfg) 0 INT_MAX) (\<lambda>v2 cfg.
      stored cfg (\<lambda>n. cfg\<lparr>encode_sparse_safe := n\<rparr>) (json_integer_option lib st 3 (encode_sparse_safe cfg) 0 INT_MAX)
        (\<lambda>v3 cfg. Some (Ret [v1, v2, v3], cfg))) = Some (x, cfg') \<and> cfg_ok cfg'" if "cfg_ok cfg" for cfg v1
    by (rule integer_stored [OF that cfg_ok_range(2) [OF that]]) (rule safe, rule cfg_ok_update(2) [OF that])
  show "\<exists>r cfg'. do { r \<leftarrow> json_enum_option lib st 1 (encode_sparse_convert cfg) None 1;
     stored cfg (\<lambda>n. cfg\<lparr>encode_sparse_convert := n\<rparr>) r (\<lambda>v1 cfg.
       stored cfg (\<lambda>n. cfg\<lparr>encode_sparse_ratio := n\<rparr>) (json_integer_option lib st 2 (encode_sparse_ratio cfg) 0 INT_MAX) (\<lambda>v2 cfg.
         stored cfg (\<lambda>n. cfg\<lparr>encode_sparse_safe := n\<rparr>) (json_integer_option lib st 3 (encode_sparse_safe cfg) 0 INT_MAX) (\<lambda>v3 cfg.
           Some (Ret [v1, v2, v3], cfg)))) } = Some (r, cfg') \<and> cfg_ok cfg'"
    by (rule enum_stored [OF c cfg_ok_range(1) [OF c]]) (rule ratio, rule cfg_ok_update(1) [OF c])
qed

lemma keeps_buffer:
  assumes hp: "hp_total hp"
  shows "keeps_cfg (json_cfg_encode_keep_buffer lib hp)"
  unfolding json_cfg_encode_keep_buffer_def [abs_def] Let_def
proof (rule keeps_with_args, rule enum_stored)
  fix st cfg n v
  assume c: "cfg_ok cfg" and n: "n \<in> {0, 1 :: int}"
  obtain b where b: "strbuf_init hp 0 = Some b" "sb_ok b" "\<not> sb_dynamic b" using init_ok [OF hp, of 0] by auto
  have k: "encode_keep_buffer cfg \<in> {0, 1}" by (rule cfg_ok_range(10) [OF c])
  show "\<exists>x cfg'. (if encode_keep_buffer cfg XOR encode_keep_buffer (cfg\<lparr>encode_keep_buffer := n\<rparr>) \<noteq> 0
       then do {
         buf \<leftarrow> (if encode_keep_buffer (cfg\<lparr>encode_keep_buffer := n\<rparr>) \<noteq> 0 then strbuf_init hp 0 else strbuf_free (encode_buf (cfg\<lparr>encode_keep_buffer := n\<rparr>)));
         one_value v ((cfg\<lparr>encode_keep_buffer := n\<rparr>)\<lparr>encode_buf := buf\<rparr>) }
       else one_value v (cfg\<lparr>encode_keep_buffer := n\<rparr>)) = Some (x, cfg') \<and> cfg_ok cfg'"
  proof (cases "n = encode_keep_buffer cfg")
    case True
    then show ?thesis using c by (simp add: one_value_def)
  next
    case False
    then have "n = 0 \<and> encode_keep_buffer cfg = 1 \<or> n = 1 \<and> encode_keep_buffer cfg = 0" using n k by auto
    then show ?thesis using c b by (elim disjE) (simp_all add: one_value_def cfg_ok_def strbuf_free_def)
  qed
qed (use cfg_ok_range(10) in auto)

section \<open>Reachable configurations\<close>

text \<open>
  A configuration is created and then goes through calls of the module in any order; \<open>encode\<close> may fail or succeed, on values whose text
  stays within the bound.
\<close>

definition json_cfg_functions :: "lua_lib \<Rightarrow> heap_api \<Rightarrow> (lua_value list \<Rightarrow> json_config \<Rightarrow> (lua_ret \<times> json_config) option) set" where
  "json_cfg_functions lib hp = {json_cfg_encode_sparse_array lib, json_cfg_encode_max_depth lib, json_cfg_decode_max_depth lib,
     json_cfg_encode_number_precision lib, json_cfg_encode_empty_table_as_object lib, json_cfg_encode_keep_buffer lib hp,
     json_cfg_encode_invalid_numbers lib, json_cfg_decode_invalid_numbers lib}"

inductive json_reachable :: "fp_env \<Rightarrow> lua_lib \<Rightarrow> json_config \<Rightarrow> bool" for e lib where
  created: "json_create_config (fe_heap e) = Some cfg \<Longrightarrow> json_reachable e lib cfg"
| configured: "json_reachable e lib cfg
    \<Longrightarrow> f \<in> json_cfg_functions lib (fe_heap e)
    \<Longrightarrow> f st cfg = Some (r, cfg') \<Longrightarrow> json_reachable e lib cfg'"
| encoded: "json_reachable e lib cfg \<Longrightarrow> json_fits cfg v \<Longrightarrow> 6 * int (length (fst (json_print e cfg 1 0 v))) + 64 < 2 ^ 30
    \<Longrightarrow> json_encode e [v] cfg = Some (t, cfg') \<Longrightarrow> json_reachable e lib cfg'"

lemma all_keep:
  assumes "hp_total (fe_heap e)"
    and "f \<in> json_cfg_functions lib (fe_heap e)"
  shows "keeps_cfg f"
  using assms keeps_sparse keeps_integers keeps_booleans keeps_buffer keeps_invalid_numbers by (auto simp: json_cfg_functions_def)

lemma created_ok: "hp_total hp \<Longrightarrow> \<exists>cfg. json_create_config hp = Some cfg \<and> cfg_ok cfg"
  using init_ok [of hp 0] by (auto simp: json_create_config_def cfg_ok_def INT_MAX_def)

lemma json_reachable_ok:
  assumes hp: "hp_total (fe_heap e)" and g: "g_laws e"
  shows "json_reachable e lib cfg \<Longrightarrow> cfg_ok cfg"
proof (induction rule: json_reachable.induct)
  case (created cfg)
  then show ?case using created_ok [OF hp] by auto
next
  case (configured cfg f st r cfg')
  then have "keeps_cfg f" using all_keep [OF hp] by blast
  then obtain r' cfg'' where "f st cfg = Some (r', cfg'')" "cfg_ok cfg''" using configured.IH unfolding keeps_cfg_def by blast
  then show ?case using configured.hyps(3) by simp
next
  case (encoded cfg v t cfg')
  then obtain buf where "json_encode e [v] cfg = Some (case json_print e cfg 1 0 v of (t, None) \<Rightarrow> Inr t | (_, Some err) \<Rightarrow> Inl err, cfg\<lparr>encode_buf := buf\<rparr>)"
    "cfg_ok (cfg\<lparr>encode_buf := buf\<rparr>)" using encode_prints [OF encoded.IH hp g] by blast
  then show ?case using encoded.hyps(4) by simp
qed

text \<open>
  (C27) Whatever a program does with a configuration, it stays in order: every setting is in its range, the buffer is allocated and
  well formed while it is kept, and freed when it is not, also after an \<open>encode\<close> that ended in an error. Every configuration function
  returns and keeps it so.
\<close>

theorem json_config_invariant:
  assumes "hp_total (fe_heap e)" and "g_laws e" and "json_reachable e lib cfg"
  shows "cfg_ok cfg \<and> (\<forall>f \<in> json_cfg_functions lib (fe_heap e). \<forall>st. \<exists>r cfg'. f st cfg = Some (r, cfg') \<and> cfg_ok cfg')"
  using json_reachable_ok [OF assms] all_keep [OF assms(1)] unfolding keeps_cfg_def by blast

text \<open>
  (C26) Encoding refines printing: in any reachable configuration \<open>encode\<close> returns the text of the printer or raises its error, however
  the buffer has to grow for it, and leaves everything of the configuration but the buffer as it was. This is for values whose
  tables do not overflow the products of the sparse array test and whose text stays below about 178 million bytes.
\<close>

theorem json_encode_prints:
  assumes "hp_total (fe_heap e)" and "g_laws e" and "json_reachable e lib cfg" and "json_fits cfg v"
    and "6 * int (length (fst (json_print e cfg 1 0 v))) + 64 < 2 ^ 30"
  shows "\<exists>buf. json_encode e [v] cfg
     = Some (case json_print e cfg 1 0 v of (t, None) \<Rightarrow> Inr t | (_, Some err) \<Rightarrow> Inl err, cfg\<lparr>encode_buf := buf\<rparr>)"
  using encode_prints [OF json_reachable_ok [OF assms(1-3)] assms(1,2,4,5)] by blast

section \<open>Very long strings\<close>

lemma c_int_wraps: "2 ^ 31 \<le> i \<Longrightarrow> i < 2 ^ 32 \<Longrightarrow> c_int i = i - 2 ^ 32"
proof -
  assume i: "2 ^ 31 \<le> i" "i < 2 ^ 32"
  then have "(i + 2 ^ 31) mod 2 ^ 32 = i + 2 ^ 31 - 2 ^ 32"
    using minus_mod_self2 [of "i + 2 ^ 31" "2 ^ 32"] by (simp add: mod_pos_pos_trivial)
  then show ?thesis by (simp add: c_int_def signed_take_bit_eq_take_bit_shift take_bit_eq_mod)
qed

lemma plain_overruns:
  "\<forall>c \<in> set str. char2escape c = None \<Longrightarrow> sb_buf s = Some b \<Longrightarrow> 0 \<le> sb_length s \<Longrightarrow> sb_length s \<le> int (length b)
    \<Longrightarrow> int (length b) < sb_length s + int (length str) \<Longrightarrow> append_escaped hp str s = None"
proof (induction str arbitrary: s b)
  case Nil
  then show ?case by simp
next
  case (Cons c str)
  show ?case
  proof (cases "nat (sb_length s) + 1 \<le> length b")
    case True
    let ?b = "take (nat (sb_length s)) b @ [c] @ drop (nat (sb_length s) + 1) b"
    have "strbuf_append_char_unsafe c s = Some (s\<lparr>sb_buf := Some ?b, sb_length := sb_length s + 1\<rparr>)"
      using True Cons.prems by (simp add: strbuf_append_char_unsafe_def poke_buf_def)
    moreover have "append_escaped hp str (s\<lparr>sb_buf := Some ?b, sb_length := sb_length s + 1\<rparr>) = None"
      using Cons.IH [of "s\<lparr>sb_buf := Some ?b, sb_length := sb_length s + 1\<rparr>" ?b] Cons.prems True by auto
    ultimately show ?thesis using Cons.prems(1) by simp
  next
    case False
    then show ?thesis using Cons.prems by (simp add: strbuf_append_char_unsafe_def poke_buf_def)
  qed
qed

text \<open>
  The reserve of \<open>json_append_string\<close>, six bytes for every byte of the string, is computed modulo \<open>2 ^ 32\<close>: for a string of
  357913942 bytes or more (up to twice that) it is negative, nothing is reserved, and the bytes are written past the end of the buffer.
\<close>

theorem long_string_overruns:
  assumes hp: "hp_total (fe_heap e)" and cfg: "json_create_config (fe_heap e) = Some cfg"
    and plain: "\<forall>c \<in> set str. char2escape c = None" and len: "2 ^ 31 \<le> int (length str) * 6 + 2" "int (length str) * 6 + 2 < 2 ^ 32"
  shows "json_encode e [JString str] cfg = None"
proof -
  let ?s = "strbuf_reset (encode_buf cfg)"
  have s: "sb_ok ?s" "sb_size ?s = 1023" "sb_length ?s = 0"
  proof -
    obtain b where b: "strbuf_init (fe_heap e) 0 = Some b" "sb_ok b" using init_ok [OF hp, of 0] by auto
    then have "sb_size b = 1023"
      by (auto simp: strbuf_init_def strbuf_ensure_null_def poke_buf_def Option.bind_eq_Some_conv STRBUF_DEFAULT_SIZE_def split: if_splits)
    then show "sb_ok ?s" "sb_size ?s = 1023" "sb_length ?s = 0" using b cfg by (auto simp: json_create_config_def strbuf_reset_def sb_ok_def)
  qed
  have "c_int (int (length str) * 6 + 2) < 0" using c_int_wraps [OF len] len by simp
  then have e: "strbuf_ensure_empty_length (fe_heap e) (c_int (int (length str) * 6 + 2)) ?s = Some ?s"
    using s by (simp add: strbuf_ensure_empty_length_def strbuf_empty_length_def)
  obtain s1 where s1: "strbuf_append_char_unsafe (CHR 0x22) ?s = Some s1" "sb_ok s1" "sb_size s1 = 1023" "sb_str s1 = sb_str ?s @ [CHR 0x22]"
    using unsafe_ok [OF s(1), of "[CHR 0x22]"] s(2,3) by (auto simp: char_unsafe_mem)
  then have "append_escaped (fe_heap e) str s1 = None"
    using plain_overruns [OF plain, of s1] len by (auto simp: sb_ok_def)
  then have "json_append_string (fe_heap e) str ?s = None" by (simp add: json_append_string_def e s1)
  moreover have "encode_keep_buffer cfg \<noteq> 0" using cfg by (auto simp: json_create_config_def Option.bind_eq_Some_conv)
  ultimately show ?thesis by (simp add: json_encode_def json_append_data.simps Let_def)
qed

section \<open>A concrete environment\<close>

text \<open>A library that prints and reads one digit.\<close>

definition demo_libc :: libc_num where
  "demo_libc = \<lparr>
     lc_g = (\<lambda>fmt x. case x of
        Finite r \<Rightarrow> if 0 \<le> r \<and> r < 10 then [char_of (48 + nat \<lfloor>r\<rfloor>)] else ''0'' | _ \<Rightarrow> ''nan''),
     lc_strtod = (\<lambda>s. case s of
        [] \<Rightarrow> (Finite 0, 0)
      | c # _ \<Rightarrow> if 48 \<le> (of_char c :: int) \<and> (of_char c :: int) < 58 then (Finite (of_int (of_char c - 48)), 1) else (Finite 0, 0))\<rparr>"

definition json_demo_env :: fp_env where
  "json_demo_env = \<lparr>fe_heap = demo_heap, fe_libc = demo_libc, fe_point = CHR ''.''\<rparr>"

definition demo_lua :: lua_lib where
  "demo_lua = \<lparr>str2number = (\<lambda>_. None), number2str = (\<lambda>_. ''0'')\<rparr>"

definition demo_config :: json_config where
  "demo_config = (case json_create_config demo_heap of Some cfg \<Rightarrow> cfg)"

lemma digit_chars: "n < 10 \<Longrightarrow> char_of (48 + n :: nat) \<notin> {CHR 0x00, CHR ''.''}"
proof -
  have "\<forall>n \<in> set [0..<10]. char_of (48 + n :: nat) \<notin> {CHR 0x00, CHR ''.''}" by code_simp
  then show "n < 10 \<Longrightarrow> ?thesis" by simp
qed

lemma demo_prints: "prints_as json_demo_env fmt (Finite r) (lc_g demo_libc fmt (Finite r))"
proof -
  have "nat \<lfloor>r\<rfloor> < 10" if "0 \<le> r" "r < 10" using that by linarith
  then show ?thesis using digit_chars [of "nat \<lfloor>r\<rfloor>"]
    by (auto simp: prints_as_def json_demo_env_def demo_libc_def FPCONV_G_FMT_BUFSIZE_def)
qed

lemma demo_laws: "g_laws json_demo_env" "hp_total (fe_heap json_demo_env)"
  using demo_prints demo_heap_total by (auto simp: g_laws_def json_demo_env_def)

lemma demo_created: "json_create_config demo_heap = Some demo_config"
  using created_ok [OF demo_heap_total] by (auto simp: demo_config_def)

lemma json_demo_reachable: "json_reachable json_demo_env demo_lua demo_config"
  by (rule json_reachable.created) (simp add: json_demo_env_def demo_created)

lemma created_settings:
  assumes "json_create_config hp = Some cfg"
  shows "encode_max_depth cfg = 1000" "encode_sparse_ratio cfg = 2" "encode_sparse_safe cfg = 10" "encode_empty_table_as_object cfg = 1"
    "encode_number_precision cfg = 14" "decode_max_depth cfg = 1000" "decode_invalid_numbers cfg = 1"
  using assms by (auto simp: json_create_config_def Option.bind_eq_Some_conv)

lemmas demo_settings = created_settings [OF demo_created]

theorem json_config_invariant_witness:
  "cfg_ok demo_config \<and> (\<exists>r cfg'. json_cfg_encode_keep_buffer demo_lua (fe_heap json_demo_env) [LBool False] demo_config = Some (r, cfg') \<and> cfg_ok cfg')"
  using json_config_invariant [OF demo_laws(2,1) json_demo_reachable] by (simp add: json_cfg_functions_def)

lemma demo_print: "json_print json_demo_env demo_config 1 0 (JTable [(JNumber (Finite 1), JBool True), (JNumber (Finite 2), JTable [(JString ''k'', JLight 0)])])
    = (''[true,{'' @ [CHR 0x22, CHR ''k'', CHR 0x22] @ '':null}]'', None)"
  by (simp add: json_print.simps print_items.simps print_pairs.simps print_key_def array_size_def demo_settings LUAI_MAXCSTACK_def
      int_of_number_def json_rawgeti_def upto.simps json_quote_def json_escape_def char2escape_def Let_def)

theorem json_encode_prints_witness:
  "\<exists>buf. json_encode json_demo_env [JTable [(JNumber (Finite 1), JBool True), (JNumber (Finite 2), JTable [(JString ''k'', JLight 0)])]] demo_config
     = Some (Inr (''[true,{'' @ [CHR 0x22, CHR ''k'', CHR 0x22] @ '':null}]''), demo_config\<lparr>encode_buf := buf\<rparr>)"
  using json_encode_prints [OF demo_laws(2,1) json_demo_reachable, of "JTable [(JNumber (Finite 1), JBool True), (JNumber (Finite 2), JTable [(JString ''k'', JLight 0)])]"]
  unfolding demo_print by (simp add: json_fits.simps demo_settings)

theorem long_string_overruns_witness: "json_encode json_demo_env [JString (replicate 357913942 CHR ''x'')] demo_config = None"
proof (rule long_string_overruns [OF demo_laws(2)])
  show "json_create_config (fe_heap json_demo_env) = Some demo_config" by (simp add: json_demo_env_def demo_created)
  show "\<forall>c \<in> set (replicate 357913942 CHR ''x''). char2escape c = None" by (auto simp: char2escape_def Let_def in_set_replicate)
qed simp_all

end
