(* ===== verification/Json_Decode.thy ===== *)
theory Json_Decode
  imports Json_Parse Json_Encode
begin

text \<open>
  The decoder is safe on every input: it stays within its input and its temporary buffer, ends, and frees the buffer. Decoding what
  was encoded gives the value back.
\<close>

section \<open>Escapes\<close>

lemma char_codes [simp]:
  "schar CHR ''0'' = 48" "schar CHR ''9'' = 57" "schar CHR ''a'' = 97" "schar CHR ''f'' = 102" "schar CHR ''x'' = 120" "schar CHR ''y'' = 121"
  by code_simp+

lemma hexdigit_range: "hexdigit2int c < 16"
  by (simp add: hexdigit2int_def Let_def)

lemma hexdigit_nul: "hexdigit2int (CHR 0x00) = - 1"
  by code_simp

lemma char_at_inside: "i \<le> length data \<Longrightarrow> \<exists>c. char_at data i = Some c \<and> (i = length data \<longrightarrow> c = CHR 0x00)"
  by (auto simp: char_at_def)

lemma char_at_less: "char_at data i = Some c \<Longrightarrow> c \<noteq> CHR 0x00 \<Longrightarrow> i < length data"
  by (auto simp: char_at_def split: if_splits)

lemma hex_digits_ok:
  "i \<le> length data \<Longrightarrow> \<exists>r. hex_digits data i n = Some r
     \<and> (\<forall>ds. r = Some ds \<longrightarrow> i + n \<le> length data \<and> length ds = n \<and> (\<forall>d \<in> set ds. 0 \<le> d \<and> d < 16))"
proof (induction n arbitrary: i)
  case (Suc n)
  obtain c where c: "char_at data i = Some c" "i = length data \<longrightarrow> c = CHR 0x00" using char_at_inside [OF Suc.prems] by blast
  show ?case
  proof (cases "hexdigit2int c < 0")
    case True
    then show ?thesis using c by simp
  next
    case False
    then have "i + 1 \<le> length data" using c Suc.prems hexdigit_nul by (cases "i = length data") auto
    then show ?thesis using Suc.IH [of "i + 1"] c False hexdigit_range [of c] by fastforce
  qed
qed simp

lemma decode_hex4_ok:
  assumes "i \<le> length data"
  shows "\<exists>n. decode_hex4 data i = Some n \<and> (0 \<le> n \<longrightarrow> i + 4 \<le> length data)"
proof -
  obtain r where "hex_digits data i 4 = Some r" "\<forall>ds. r = Some ds \<longrightarrow> i + 4 \<le> length data"
    using hex_digits_ok [OF assms, of 4] by blast
  then show ?thesis by (cases r) (auto simp: decode_hex4_def simp del: hex_digits.simps)
qed

lemma escape_codepoint_ok:
  assumes "ptr + 2 \<le> length data"
  shows "\<exists>r. escape_codepoint data ptr = Some r \<and> (\<forall>cp n. r = Some (cp, n) \<longrightarrow> ptr + n \<le> length data)"
proof -
  obtain n where n: "decode_hex4 data (ptr + 2) = Some n" "0 \<le> n \<longrightarrow> ptr + 6 \<le> length data" using decode_hex4_ok [OF assms] by auto
  show ?thesis
  proof (cases "n < 0 \<or> n AND 0xF800 \<noteq> 0xD800 \<or> n AND 0x400 \<noteq> 0")
    case True
    then show ?thesis using n by (auto simp: escape_codepoint_def)
  next
    case False
    then have "ptr + 6 \<le> length data" using n by simp
    then obtain c where c: "char_at data (ptr + 6) = Some c" using char_at_inside by blast
    show ?thesis
    proof (cases "c = CHR 0x5C")
      case True
      then have "ptr + 7 \<le> length data" using char_at_less [OF c] by simp
      then obtain c' where c': "char_at data (ptr + 7) = Some c'" using char_at_inside by blast
      show ?thesis
      proof (cases "c' = CHR ''u''")
        case u: True
        then have "ptr + 8 \<le> length data" using char_at_less [OF c'] by simp
        then obtain m where "decode_hex4 data (ptr + 8) = Some m" "0 \<le> m \<longrightarrow> ptr + 12 \<le> length data" using decode_hex4_ok by fastforce
        then show ?thesis using n False c c' True u by (auto simp: escape_codepoint_def)
      qed (use n False c c' True in \<open>simp add: escape_codepoint_def\<close>)
    qed (use n False c in \<open>simp add: escape_codepoint_def\<close>)
  qed
qed

lemma utf8_length: "length (codepoint_to_utf8 cp) \<le> 4"
  by (simp add: codepoint_to_utf8_def)

section \<open>Strings fit the temporary buffer\<close>

text \<open>What is left of the input fits into what is left of the buffer.\<close>

definition tmp_room :: "json_parse \<Rightarrow> bool" where
  "tmp_room p \<longleftrightarrow> jp_ptr p \<le> length (jp_data p) \<and> sb_ok (jp_tmp p)
     \<and> sb_length (jp_tmp p) + int (length (jp_data p)) - int (jp_ptr p) < sb_size (jp_tmp p)"

definition same_frame :: "json_parse \<Rightarrow> json_parse \<Rightarrow> bool" where
  "same_frame p p' \<longleftrightarrow> jp_data p' = jp_data p \<and> jp_depth p' = jp_depth p \<and> sb_size (jp_tmp p') = sb_size (jp_tmp p)
     \<and> sb_dynamic (jp_tmp p') = sb_dynamic (jp_tmp p) \<and> jp_ptr p \<le> jp_ptr p'"

lemma same_frame_trans: "same_frame p q \<Longrightarrow> same_frame q r \<Longrightarrow> same_frame p r"
  by (auto simp: same_frame_def)

lemma tmp_append:
  assumes p: "tmp_room p" and n: "length s \<le> n" "jp_ptr p + n \<le> length (jp_data p)" and s: "s \<noteq> []"
  shows "\<exists>tmp. strbuf_append_mem_unsafe s (jp_tmp p) = Some tmp \<and> tmp_room (p\<lparr>jp_tmp := tmp, jp_ptr := jp_ptr p + n\<rparr>)
     \<and> same_frame p (p\<lparr>jp_tmp := tmp, jp_ptr := jp_ptr p + n\<rparr>) \<and> sb_str tmp = sb_str (jp_tmp p) @ s"
proof -
  have ok: "sb_ok (jp_tmp p)" and room: "sb_length (jp_tmp p) + int (length s) < sb_size (jp_tmp p)" using p n by (auto simp: tmp_room_def)
  obtain t where t: "strbuf_append_mem_unsafe s (jp_tmp p) = Some t" "sb_ok t" "sb_str t = sb_str (jp_tmp p) @ s" "sb_size t = sb_size (jp_tmp p)"
    "sb_dynamic t = sb_dynamic (jp_tmp p)" using unsafe_ok [OF ok room] by blast
  then have "sb_length t = sb_length (jp_tmp p) + int (length s)" using str_length [OF ok] str_length [OF t(2)] by simp
  then show ?thesis using t p n by (intro exI [of _ t]) (auto simp: tmp_room_def same_frame_def)
qed

lemma unicode_escape_ok:
  assumes p: "tmp_room p" and u: "jp_ptr p + 2 \<le> length (jp_data p)"
  shows "json_append_unicode_escape p = Some None \<or> (\<exists>p'. json_append_unicode_escape p = Some (Some p') \<and> tmp_room p' \<and> same_frame p p')"
proof -
  obtain r where r: "escape_codepoint (jp_data p) (jp_ptr p) = Some r" "\<forall>cp n. r = Some (cp, n) \<longrightarrow> jp_ptr p + n \<le> length (jp_data p)"
    using escape_codepoint_ok [OF u] by blast
  show ?thesis
  proof (cases r)
    case (Some cn)
    obtain cp n where cn: "cn = (cp, n)" by (cases cn)
    show ?thesis
    proof (cases "codepoint_to_utf8 cp = []")
      case False
      have "length (codepoint_to_utf8 cp) \<le> n" using utf8_length [of cp] codepoint_escape_length [of "jp_data p" "jp_ptr p" cp n] r(1) Some cn by auto
      then show ?thesis using tmp_append [OF p _ _ False, of n] r Some cn False
        by (auto simp: json_append_unicode_escape_def)
    qed (use r Some cn in \<open>simp add: json_append_unicode_escape_def\<close>)
  qed (use r in \<open>simp add: json_append_unicode_escape_def\<close>)
qed

lemma escape_table_codes: "escape_table c = CHR ''u'' \<Longrightarrow> c = CHR ''u''" "escape_table c \<noteq> CHR 0x00 \<Longrightarrow> c \<noteq> CHR 0x00"
  by (auto simp: escape_table_def split: if_splits)

lemma string_loop_ok:
  assumes cfg: "escape2char cfg = escape_table"
  shows "tmp_room p \<Longrightarrow> \<exists>err p'. string_loop cfg p = Some (err, p') \<and> tmp_room p' \<and> same_frame p p'
     \<and> (err = None \<longrightarrow> jp_ptr p' < length (jp_data p'))"
proof (induction "length (jp_data p) - jp_ptr p" arbitrary: p rule: less_induct)
  case less
  let ?d = "jp_data p" let ?i = "jp_ptr p"
  have goon: "\<exists>err p''. string_loop cfg p' = Some (err, p'') \<and> tmp_room p'' \<and> same_frame p p'' \<and> (err = None \<longrightarrow> jp_ptr p'' < length (jp_data p''))"
    if p': "tmp_room p'" "same_frame p p'" "?i < jp_ptr p'" "?i < length ?d" for p'
  proof -
    have "length (jp_data p') - jp_ptr p' < length ?d - ?i" using p' by (auto simp: same_frame_def)
    then show ?thesis using less.hyps [OF _ p'(1)] same_frame_trans [OF p'(2)] by blast
  qed
  obtain ch where ch: "char_at ?d ?i = Some ch" using char_at_inside less.prems by (auto simp: tmp_room_def)
  have refl: "same_frame p p" by (simp add: same_frame_def)
  consider "ch = CHR 0x22" | "ch = CHR 0x00" | "ch = CHR 0x5C" | "ch \<notin> {CHR 0x22, CHR 0x00, CHR 0x5C}" by auto
  then show ?case
  proof cases
    case 3
    then have i: "?i < length ?d" using char_at_less [OF ch] by simp
    then obtain c where c: "char_at ?d (?i + 1) = Some c" using char_at_inside [of "?i + 1" ?d] by auto
    let ?e = "escape_table c"
    show ?thesis
    proof (cases "?e = CHR ''u''")
      case True
      then have "?i + 2 \<le> length ?d" using escape_table_codes(1) [OF True] char_at_less [OF c] by simp
      then consider "json_append_unicode_escape p = Some None"
        | p' where "json_append_unicode_escape p = Some (Some p')" "tmp_room p'" "same_frame p p'"
        using unicode_escape_ok [OF less.prems] by blast
      then show ?thesis
      proof cases
        case 1
        then show ?thesis using ch c 3 True cfg less.prems refl by (simp add: string_loop.simps [of cfg p] Let_def)
      next
        case 2
        then show ?thesis using goon [OF 2(2,3)] unicode_escape_progress [OF 2(1)] i ch c \<open>ch = CHR 0x5C\<close> True cfg
          by (simp add: string_loop.simps [of cfg p] Let_def)
      qed
    next
      case e: False
      show ?thesis
      proof (cases "?e = CHR 0x00")
        case False
        then have "?i + 2 \<le> length ?d" using escape_table_codes(2) [OF False] char_at_less [OF c] by simp
        then obtain tmp where t: "strbuf_append_mem_unsafe [?e] (jp_tmp p) = Some tmp" "tmp_room (p\<lparr>jp_tmp := tmp, jp_ptr := ?i + 2\<rparr>)"
          "same_frame p (p\<lparr>jp_tmp := tmp, jp_ptr := ?i + 2\<rparr>)" using tmp_append [OF less.prems, of "[?e]" 2] by auto
        then show ?thesis using goon [OF t(2,3)] i ch c 3 e False cfg by (simp add: string_loop.simps [of cfg p] char_unsafe_mem Let_def)
      qed (use ch c 3 e cfg less.prems refl in \<open>simp add: string_loop.simps [of cfg p] Let_def\<close>)
    qed
  next
    case 4
    then have i: "?i < length ?d" using char_at_less [OF ch] by simp
    then obtain tmp where t: "strbuf_append_mem_unsafe [ch] (jp_tmp p) = Some tmp" "tmp_room (p\<lparr>jp_tmp := tmp, jp_ptr := ?i + 1\<rparr>)"
      "same_frame p (p\<lparr>jp_tmp := tmp, jp_ptr := ?i + 1\<rparr>)" using tmp_append [OF less.prems, of "[ch]" 1] by auto
    then show ?thesis using goon [OF t(2,3)] i ch 4 by (simp add: string_loop.simps [of cfg p] char_unsafe_mem)
  qed (use ch less.prems refl char_at_less [OF ch] in \<open>auto simp: string_loop.simps [of cfg p]\<close>)
qed

section \<open>Tokens\<close>

text \<open>Between tokens: inside the input, and the buffer holds more than the whole of it.\<close>

definition pok :: "bytes \<Rightarrow> json_parse \<Rightarrow> bool" where
  "pok data p \<longleftrightarrow> jp_data p = data \<and> jp_ptr p \<le> length data \<and> sb_ok (jp_tmp p) \<and> sb_dynamic (jp_tmp p) \<and> int (length data) < sb_size (jp_tmp p)"

definition tok_ok :: "json_token \<Rightarrow> bool" where
  "tok_ok t \<longleftrightarrow> (tk_type t = T_STRING \<longrightarrow> (\<exists>s. tk_value t = Text s)) \<and> (tk_type t = T_NUMBER \<longrightarrow> (\<exists>n. tk_value t = Number n))
     \<and> (tk_type t = T_BOOLEAN \<longrightarrow> (\<exists>b. tk_value t = Boolean b)) \<and> (tk_type t = T_ERROR \<longrightarrow> (\<exists>s. tk_value t = Errtype s))"

text \<open>A token call: it returns, moves forward unless it met the end or an error, and keeps the state in order.\<close>

definition token_step :: "bytes \<Rightarrow> json_parse \<Rightarrow> (json_token \<times> json_parse) option \<Rightarrow> bool" where
  "token_step data p r \<longleftrightarrow> (\<exists>t p'. r = Some (t, p') \<and> pok data p' \<and> tok_ok t \<and> jp_ptr p \<le> jp_ptr p' \<and> jp_depth p' = jp_depth p
     \<and> (tk_type t \<in> {T_END, T_ERROR} \<or> jp_ptr p < jp_ptr p'))"

lemma error_step: "pok data p' \<Longrightarrow> jp_ptr p \<le> jp_ptr p' \<Longrightarrow> jp_depth p' = jp_depth p \<Longrightarrow> token_step data p (Some (json_set_token_error p' err, p'))"
  by (simp add: token_step_def tok_ok_def json_set_token_error_def)

lemma ensure_null_ok:
  assumes "sb_ok s"
  shows "\<exists>s'. strbuf_ensure_null s = Some s' \<and> sb_ok s' \<and> strbuf_string s' = Some (sb_str s) \<and> sb_size s' = sb_size s \<and> sb_dynamic s' = sb_dynamic s"
proof -
  obtain b where b: "sb_buf s = Some b" "int (length b) = sb_size s" "0 \<le> sb_length s" "sb_length s < sb_size s" using assms by (auto simp: sb_ok_def)
  let ?l = "nat (sb_length s)" let ?b = "take ?l b @ [CHR 0x00] @ drop (?l + 1) b"
  have "?l + 1 \<le> length b" using b by linarith
  then have "strbuf_ensure_null s = Some (s\<lparr>sb_buf := Some ?b\<rparr>)" "length ?b = length b" "take ?l ?b = take ?l b" "?l \<le> length ?b"
    using b by (simp_all add: strbuf_ensure_null_def poke_buf_def)
  then show ?thesis using assms b by (intro exI [of _ "s\<lparr>sb_buf := Some ?b\<rparr>"]) (simp add: sb_ok_def strbuf_string_def sb_str_def)
qed

lemma string_token_ok:
  assumes cfg: "escape2char cfg = escape_table" and p: "pok data p" and q: "char_at data (jp_ptr p) = Some (CHR 0x22)"
  shows "token_step data p (json_next_string_token cfg index p)"
proof -
  let ?p = "p\<lparr>jp_ptr := jp_ptr p + 1, jp_tmp := strbuf_reset (jp_tmp p)\<rparr>"
  have i: "jp_ptr p < length data" using char_at_less [OF q] by simp
  then have "tmp_room ?p" using p by (auto simp: tmp_room_def pok_def strbuf_reset_def sb_ok_def)
  then obtain err p' where l: "string_loop cfg ?p = Some (err, p')" "tmp_room p'" "same_frame ?p p'" "err = None \<longrightarrow> jp_ptr p' < length (jp_data p')"
    using string_loop_ok [OF cfg] by blast
  then have p': "jp_data p' = data" "pok data p'" "jp_ptr p < jp_ptr p'" "jp_depth p' = jp_depth p"
    using p by (auto simp: tmp_room_def pok_def same_frame_def strbuf_reset_def)
  obtain tmp s where tmp: "strbuf_ensure_null (jp_tmp p') = Some tmp" "sb_ok tmp" "strbuf_string tmp = Some s" "sb_size tmp = sb_size (jp_tmp p')"
    "sb_dynamic tmp = sb_dynamic (jp_tmp p')" using ensure_null_ok [of "jp_tmp p'"] l(2) by (auto simp: tmp_room_def)
  have "err = None \<Longrightarrow> pok data (p'\<lparr>jp_ptr := jp_ptr p' + 1, jp_tmp := tmp\<rparr>)"
    using p' l(4) tmp by (simp add: pok_def)
  then show ?thesis using l(1) p' q p tmp
    by (cases err) (auto simp: json_next_string_token_def pok_def [of data p] token_step_def tok_ok_def json_set_token_error_def)
qed

text \<open>What is relied on of \<open>strtod\<close>: the number lies within the string.\<close>

definition strtod_laws :: "fp_env \<Rightarrow> bool" where
  "strtod_laws e \<longleftrightarrow> (\<forall>s. snd (lc_strtod (fe_libc e) s) \<le> length s)"

lemma localise_length [simp]: "length (localise c s) = length s"
  by (induction s) auto

lemma fpconv_strtod_ok:
  assumes "strtod_laws e" and "hp_total (fe_heap e)"
  shows "\<exists>x n. fpconv_strtod e s = Some (x, n) \<and> n \<le> length s"
proof -
  have law: "snd (lc_strtod (fe_libc e) t) \<le> length s" if "length t \<le> length s" for t
    using assms(1) that le_trans unfolding strtod_laws_def by blast
  have "strtod_buffer_size s \<le> length s" by (simp add: strtod_buffer_size_def length_takeWhile_le)
  then have "snd (lc_strtod (fe_libc e) (localise (fe_point e) (take (strtod_buffer_size s) s))) \<le> length s"
    "snd (lc_strtod (fe_libc e) (c_str s)) \<le> length s" by (simp_all add: law length_c_str)
  then show ?thesis using assms(2)
    by (cases "lc_strtod (fe_libc e) (c_str s)"; cases "lc_strtod (fe_libc e) (localise (fe_point e) (take (strtod_buffer_size s) s))")
      (auto simp: fpconv_strtod_def Let_def hp_total_def)
qed

lemma number_token_ok:
  assumes "strtod_laws e" and "hp_total (fe_heap e)" and p: "pok data p"
  shows "token_step data p (json_next_number_token e index p)"
proof -
  obtain x n where n: "fpconv_strtod e (drop (jp_ptr p) data) = Some (x, n)" "n \<le> length data - jp_ptr p"
    using fpconv_strtod_ok [OF assms(1,2), of "drop (jp_ptr p) data"] by auto
  then have "n \<noteq> 0 \<Longrightarrow> pok data (p\<lparr>jp_ptr := jp_ptr p + n\<rparr>)" using p by (simp add: pok_def)
  then show ?thesis using n p error_step [OF p, of p]
    by (auto simp: json_next_number_token_def pok_def [of data p] token_step_def tok_ok_def)
qed

lemma invalid_number_ok: "p \<le> length data \<Longrightarrow> \<exists>b. json_is_invalid_number data p = Some b"
proof -
  assume p: "p \<le> length data"
  then obtain c where c: "char_at data p = Some c" using char_at_inside by blast
  let ?q = "if c = CHR ''-'' then p + 1 else p"
  have q: "?q \<le> length data" using p char_at_less [OF c] by auto
  then obtain c' where c': "char_at data ?q = Some c'" using char_at_inside by blast
  have "c' = CHR ''0'' \<Longrightarrow> ?q + 1 \<le> length data" using char_at_less [OF c'] by auto
  then obtain c'' where "c' = CHR ''0'' \<Longrightarrow> char_at data (?q + 1) = Some c''" using char_at_inside by blast
  then have "json_is_invalid_number data p \<noteq> None"
    using c c' by (simp add: json_is_invalid_number_def Let_def del: not_None_eq)
  then show ?thesis by simp
qed

lemma literal_inside: "literal_at w p \<Longrightarrow> jp_data p = data \<Longrightarrow> jp_ptr p \<le> length data \<Longrightarrow> jp_ptr p + length w \<le> length data"
proof -
  assume w: "literal_at w p" "jp_data p = data" "jp_ptr p \<le> length data"
  then have "min (length data - jp_ptr p) (length w) = length w" unfolding literal_at_def by (metis length_drop length_take)
  with w(3) show ?thesis by (cases "length w = 0") auto
qed

lemma unknown_token_ok:
  assumes cfg: "escape2char cfg = escape_table" and e: "strtod_laws e" "hp_total (fe_heap e)" and p: "pok data p"
  shows "token_step data p (json_unknown_token e cfg index p)"
proof -
  have d: "jp_data p = data" "jp_ptr p \<le> length data" using p by (simp_all add: pok_def)
  obtain ch where ch: "char_at data (jp_ptr p) = Some ch" using char_at_inside [OF d(2)] by blast
  obtain bad where bad: "json_is_invalid_number data (jp_ptr p) = Some bad" using invalid_number_ok [OF d(2)] by blast
  have lit: "token_step data p (Some (\<lparr>tk_type = ty, tk_index = index, tk_value = v\<rparr>, p\<lparr>jp_ptr := jp_ptr p + n\<rparr>))"
    if "literal_at w p" "length w = n" "n \<noteq> 0" "tok_ok \<lparr>tk_type = ty, tk_index = index, tk_value = v\<rparr>" for ty v w n
    using literal_inside [OF that(1) d] that p by (auto simp: token_step_def pok_def)
  have tok: "tok_ok \<lparr>tk_type = T_BOOLEAN, tk_index = index, tk_value = Boolean b\<rparr>" "tok_ok \<lparr>tk_type = T_NULL, tk_index = index, tk_value = No_value\<rparr>" for b
    by (simp_all add: tok_ok_def)
  note steps = string_token_ok [OF cfg p] number_token_ok [OF e p, of index] error_step [OF p, of p]
  show ?thesis
    using steps ch bad d lit [of "''true''" 4, OF _ _ _ tok(1) [of True]] lit [of "''false''" 5, OF _ _ _ tok(1) [of False]] lit [of "''null''" 4, OF _ _ _ tok(2)]
    by (simp add: json_unknown_token_def)
qed

lemma skip_space_ok:
  assumes "ch2token cfg = token_table"
  shows "i \<le> length data \<Longrightarrow> \<exists>ty j c. skip_space cfg data i = Some (ty, j) \<and> i \<le> j \<and> char_at data j = Some c \<and> ty = token_table c"
proof (induction "length data - i" arbitrary: i rule: less_induct)
  case less
  obtain c where c: "char_at data i = Some c" using char_at_inside [OF less.prems] by blast
  show ?case
  proof (cases "token_table c = T_WHITESPACE")
    case True
    then have "c \<noteq> CHR 0x00" by (auto simp: token_table_def)
    then have "i < length data" using char_at_less [OF c] by simp
    then show ?thesis using less.hyps [of "i + 1"] c True assms by (fastforce simp: skip_space.simps [of cfg data i])
  qed (use c assms in \<open>simp add: skip_space.simps [of cfg data i]\<close>)
qed

lemma token_table_plain: "token_table c \<notin> {T_STRING, T_NUMBER, T_BOOLEAN, T_NULL}" "token_table c \<noteq> T_END \<Longrightarrow> c \<noteq> CHR 0x00"
  by (auto simp: token_table_def)

lemma next_token_ok:
  assumes cfg: "ch2token cfg = token_table" "escape2char cfg = escape_table" and e: "strtod_laws e" "hp_total (fe_heap e)" and p: "pok data p"
  shows "token_step data p (json_next_token e cfg p)"
proof -
  have d: "jp_data p = data" "jp_ptr p \<le> length data" using p by (simp_all add: pok_def)
  obtain ty j c where j: "skip_space cfg data (jp_ptr p) = Some (ty, j)" "jp_ptr p \<le> j" "char_at data j = Some c" "ty = token_table c"
    using skip_space_ok [OF cfg(1) d(2)] by blast
  let ?p = "p\<lparr>jp_ptr := j\<rparr>"
  have p': "pok data ?p" using p j(3) by (auto simp: pok_def char_at_def split: if_splits)
  have one: "token_step data p (Some (\<lparr>tk_type = ty, tk_index = i, tk_value = No_value\<rparr>, p\<lparr>jp_ptr := j + 1\<rparr>))"
    if "ty \<notin> {T_END, T_ERROR, T_UNKNOWN}" for i
    using that p j char_at_less [OF j(3)] token_table_plain [of c] by (auto simp: token_step_def pok_def tok_ok_def)
  have "token_step data ?p (json_unknown_token e cfg i ?p)" for i by (rule unknown_token_ok [OF cfg(2) e p'])
  then have "token_step data p (json_unknown_token e cfg i ?p)" for i using j(2) by (fastforce simp: token_step_def)
  moreover have "token_step data p (Some (\<lparr>tk_type = T_END, tk_index = i, tk_value = No_value\<rparr>, ?p))" for i
    using p' j(2) by (simp add: token_step_def tok_ok_def)
  ultimately show ?thesis using one j d error_step [OF p', of p] by (simp add: json_next_token_def Let_def)
qed

section \<open>The parser returns\<close>

text \<open>A value and the state behind it, not before position \<open>k\<close>, or an error with the buffer freed.\<close>

definition outcome :: "bytes \<Rightarrow> nat \<Rightarrow> ('a \<times> json_parse) raising \<Rightarrow> bool" where
  "outcome data k r \<longleftrightarrow> (\<exists>err. r = Some (Inl (err, None))) \<or> (\<exists>v p. r = Some (Inr (v, p)) \<and> pok data p \<and> k \<le> jp_ptr p)"

lemma token_bind:
  assumes "token_step data p m"
    and "\<And>t p'. pok data p' \<Longrightarrow> tok_ok t \<Longrightarrow> jp_ptr p \<le> jp_ptr p' \<Longrightarrow> tk_type t \<in> {T_END, T_ERROR} \<or> jp_ptr p < jp_ptr p' \<Longrightarrow> outcome data k (f t p')"
  shows "outcome data k (xbind (xlift m) (\<lambda>(t, p). f t p))"
  using assms(1) unfolding token_step_def by (elim exE conjE) (simp add: assms(2))

lemma outcome_if: "(c \<Longrightarrow> outcome data k r) \<Longrightarrow> (\<not> c \<Longrightarrow> outcome data k r') \<Longrightarrow> outcome data k (if c then r else r')"
  by simp

lemma throw_outcome: "pok data p \<Longrightarrow> tok_ok t \<Longrightarrow> outcome data k (json_throw_parse_error p x t)"
  by (cases "tk_type t = T_ERROR") (auto simp: outcome_def json_throw_parse_error_def pok_def tok_ok_def strbuf_free_def)

lemma done_outcome: "pok data p \<Longrightarrow> k \<le> jp_ptr p \<Longrightarrow> outcome data k (Some (Inr (v, p)))"
  by (simp add: outcome_def)

lemma ascend_ok [simp]: "pok data (json_decode_ascend p) = pok data p" "jp_ptr (json_decode_ascend p) = jp_ptr p"
  by (simp_all add: pok_def json_decode_ascend_def)

lemma descend_bind:
  assumes "pok data p" and "\<And>p'. pok data p' \<Longrightarrow> jp_ptr p' = jp_ptr p \<Longrightarrow> outcome data k (f p')"
  shows "outcome data k (xbind (json_decode_descend cfg h n p) f)"
  using assms by (auto simp: json_decode_descend_def Let_def outcome_def strbuf_free_def pok_def)

text \<open>With so much fuel the three functions return; a token that cannot start anything needs next to none.\<close>

definition value_ok :: "fp_env \<Rightarrow> json_config \<Rightarrow> bytes \<Rightarrow> nat \<Rightarrow> bool" where
  "value_ok e cfg data fuel \<longleftrightarrow> (\<forall>h t p. pok data p \<longrightarrow> tok_ok t
     \<longrightarrow> 2 * (length data - jp_ptr p) + 3 \<le> fuel \<or> 1 \<le> fuel \<and> tk_type t \<notin> {T_OBJ_BEGIN, T_ARR_BEGIN}
     \<longrightarrow> outcome data (jp_ptr p) (json_process_value e cfg fuel h t p))"

definition pairs_ok :: "fp_env \<Rightarrow> json_config \<Rightarrow> bytes \<Rightarrow> nat \<Rightarrow> bool" where
  "pairs_ok e cfg data fuel \<longleftrightarrow> (\<forall>h kvs t p. pok data p \<longrightarrow> tok_ok t
     \<longrightarrow> 2 * (length data - jp_ptr p) + 4 \<le> fuel \<or> 1 \<le> fuel \<and> tk_type t \<noteq> T_STRING
     \<longrightarrow> outcome data (jp_ptr p) (object_pairs e cfg fuel h kvs t p))"

definition elems_ok :: "fp_env \<Rightarrow> json_config \<Rightarrow> bytes \<Rightarrow> nat \<Rightarrow> bool" where
  "elems_ok e cfg data fuel \<longleftrightarrow> (\<forall>h i kvs t p. pok data p \<longrightarrow> tok_ok t
     \<longrightarrow> 2 * (length data - jp_ptr p) + 4 \<le> fuel \<or> 2 \<le> fuel \<and> tk_type t \<in> {T_END, T_ERROR}
     \<longrightarrow> outcome data (jp_ptr p) (array_elements e cfg fuel h i kvs t p))"

lemma pok_left: "pok data p \<Longrightarrow> jp_ptr p \<le> length data"
  by (simp add: pok_def)

lemma value_bind:
  assumes "value_ok e cfg data fuel" "pok data p" "tok_ok t"
    and "2 * (length data - jp_ptr p) + 3 \<le> fuel \<or> 1 \<le> fuel \<and> tk_type t \<notin> {T_OBJ_BEGIN, T_ARR_BEGIN}"
    and f: "\<And>v p'. pok data p' \<Longrightarrow> jp_ptr p \<le> jp_ptr p' \<Longrightarrow> outcome data k (f v p')"
  shows "outcome data k (xbind (json_process_value e cfg fuel h t p) (\<lambda>(v, p). f v p))"
proof -
  have "outcome data (jp_ptr p) (json_process_value e cfg fuel h t p)" using assms(1-4) unfolding value_ok_def by blast
  then show ?thesis using f unfolding outcome_def [of data "jp_ptr p"] by (elim disjE exE conjE) (auto simp: outcome_def)
qed

lemma pairs_outcome:
  "pairs_ok e cfg data fuel \<Longrightarrow> pok data p \<Longrightarrow> tok_ok t \<Longrightarrow> 2 * (length data - jp_ptr p) + 4 \<le> fuel \<or> 1 \<le> fuel \<and> tk_type t \<noteq> T_STRING
    \<Longrightarrow> k \<le> jp_ptr p \<Longrightarrow> outcome data k (object_pairs e cfg fuel h kvs t p)"
  unfolding pairs_ok_def outcome_def by (meson le_trans)

lemma elems_outcome:
  "elems_ok e cfg data fuel \<Longrightarrow> pok data p \<Longrightarrow> tok_ok t \<Longrightarrow> 2 * (length data - jp_ptr p) + 4 \<le> fuel \<or> 2 \<le> fuel \<and> tk_type t \<in> {T_END, T_ERROR}
    \<Longrightarrow> k \<le> jp_ptr p \<Longrightarrow> outcome data k (array_elements e cfg fuel h i kvs t p)"
  unfolding elems_ok_def outcome_def by (meson le_trans)

lemma value_step:
  assumes token: "\<And>p. pok data p \<Longrightarrow> token_step data p (json_next_token e cfg p)"
    and pairs: "pairs_ok e cfg data fuel" and elems: "elems_ok e cfg data fuel"
  shows "value_ok e cfg data (Suc fuel)"
  unfolding value_ok_def
proof (intro allI impI)
  fix h t p
  assume p: "pok data p" "tok_ok t" "2 * (length data - jp_ptr p) + 3 \<le> Suc fuel \<or> 1 \<le> Suc fuel \<and> tk_type t \<notin> {T_OBJ_BEGIN, T_ARR_BEGIN}"
  note parts = descend_bind [OF p(1)] token_bind [OF token] outcome_if
  show "outcome data (jp_ptr p) (json_process_value e cfg (Suc fuel) h t p)"
  proof (cases "tk_type t")
    case T_OBJ_BEGIN
    with p(3) have f: "2 * (length data - jp_ptr p) + 2 \<le> fuel" by simp
    show ?thesis unfolding json_process_value.simps T_OBJ_BEGIN json_token_type.case json_parse_object_context.simps
      by (intro parts pairs_outcome [OF pairs] done_outcome) (use f in \<open>auto dest: pok_left\<close>)
  next
    case T_ARR_BEGIN
    with p(3) have f: "2 * (length data - jp_ptr p) + 2 \<le> fuel" by simp
    show ?thesis unfolding json_process_value.simps T_ARR_BEGIN json_token_type.case json_parse_array_context.simps
      by (intro parts elems_outcome [OF elems] done_outcome) (use f in \<open>auto dest: pok_left\<close>)
  qed (use p throw_outcome [OF p(1,2)] in \<open>auto simp: tok_ok_def intro: done_outcome\<close>)
qed

lemma pairs_step:
  assumes token: "\<And>p. pok data p \<Longrightarrow> token_step data p (json_next_token e cfg p)"
    and vals: "value_ok e cfg data fuel" and pairs: "pairs_ok e cfg data fuel"
  shows "pairs_ok e cfg data (Suc fuel)"
  unfolding pairs_ok_def
proof (intro allI impI)
  fix h kvs t p
  assume p: "pok data p" "tok_ok t" "2 * (length data - jp_ptr p) + 4 \<le> Suc fuel \<or> 1 \<le> Suc fuel \<and> tk_type t \<noteq> T_STRING"
  note parts = token_bind [OF token] outcome_if value_bind [OF vals]
  show "outcome data (jp_ptr p) (object_pairs e cfg (Suc fuel) h kvs t p)"
  proof (cases "tk_type t = T_STRING")
    case True
    then obtain k where k: "tk_value t = Text k" using p(2) by (auto simp: tok_ok_def)
    have "2 * (length data - jp_ptr p) + 3 \<le> fuel" using True p(3) by simp
    then show ?thesis unfolding object_pairs.simps k token_value.case using True p(1)
      by (intro parts throw_outcome done_outcome pairs_outcome [OF pairs]) (auto dest: pok_left)
  qed (use throw_outcome [OF p(1,2)] in simp)
qed

lemma elems_step:
  assumes token: "\<And>p. pok data p \<Longrightarrow> token_step data p (json_next_token e cfg p)"
    and vals: "value_ok e cfg data fuel" and elems: "elems_ok e cfg data fuel"
  shows "elems_ok e cfg data (Suc fuel)"
  unfolding elems_ok_def
proof (intro allI impI)
  fix h i kvs t p
  assume p: "pok data p" "tok_ok t" "2 * (length data - jp_ptr p) + 4 \<le> Suc fuel \<or> 2 \<le> Suc fuel \<and> tk_type t \<in> {T_END, T_ERROR}"
  note parts = token_bind [OF token] outcome_if value_bind [OF vals]
  show "outcome data (jp_ptr p) (array_elements e cfg (Suc fuel) h i kvs t p)"
  proof (cases "2 * (length data - jp_ptr p) + 4 \<le> Suc fuel")
    case True
    then show ?thesis unfolding array_elements.simps using p(1,2)
      by (intro parts throw_outcome done_outcome elems_outcome [OF elems]) (auto dest: pok_left)
  next
    case False
    then obtain f where f: "fuel = Suc f" "tk_type t \<in> {T_END, T_ERROR}" using p(3) by (cases fuel) auto
    then have "json_process_value e cfg fuel h t p = json_throw_parse_error p ''value'' t" by auto
    moreover obtain err where "json_throw_parse_error p ''value'' t = (Some (Inl (err, None)) :: (json_value \<times> json_parse) raising)"
      using p(1,2) by (cases "tk_type t = T_ERROR") (auto simp: json_throw_parse_error_def pok_def tok_ok_def strbuf_free_def)
    ultimately show ?thesis by (simp add: outcome_def)
  qed
qed

lemma parser_returns:
  assumes "ch2token cfg = token_table" "escape2char cfg = escape_table" "strtod_laws e" "hp_total (fe_heap e)"
  shows "value_ok e cfg data fuel \<and> pairs_ok e cfg data fuel \<and> elems_ok e cfg data fuel"
proof (induction fuel)
  case 0
  show ?case by (simp add: value_ok_def pairs_ok_def elems_ok_def)
next
  case (Suc fuel)
  note token = next_token_ok [OF assms]
  show ?case using Suc value_step [OF token] pairs_step [OF token] elems_step [OF token] by blast
qed

lemma decode_returns:
  assumes tab: "ch2token cfg = token_table" "escape2char cfg = escape_table" and e: "strtod_laws e" "hp_total (fe_heap e)"
    and len: "\<And>s. luaL_checklstring lib st 1 = Inr s \<Longrightarrow> length s < 2 ^ 30"
  shows "\<exists>r. json_decode e lib cfg st = Some (r, None)"
proof (cases "luaL_checklstring lib st 1")
  case (Inr data)
  show ?thesis
  proof (cases "length st \<noteq> 1 \<or> length data \<ge> 2 \<and> (data ! 0 = CHR 0x00 \<or> data ! 1 = CHR 0x00)")
    case False
    have l: "c_int (int (length data)) = int (length data)" "int (length data) < 2 ^ 30" using len [OF Inr] by simp_all
    then obtain tmp where tmp: "strbuf_new (fe_heap e) (c_int (int (length data))) = Some tmp" "sb_ok tmp" "int (length data) < sb_size tmp" "sb_dynamic tmp"
      using init_ok [OF e(2), of "int (length data)"] by (auto simp: strbuf_new_def sb_ok_def)
    define p where "p = \<lparr>jp_data = data, jp_ptr = 0, jp_tmp = tmp, jp_depth = 0\<rparr>"
    have p: "pok data p" using tmp by (simp add: pok_def p_def)
    note token = next_token_ok [OF tab e] and val = parser_returns [OF tab e, THEN conjunct1]
    have "outcome data 0 (xbind (xlift (json_next_token e cfg p)) (\<lambda>(token, json).
              xbind (json_process_value e cfg (2 * length data + 2) 1 token json) (\<lambda>(v, json).
              xbind (xlift (json_next_token e cfg json)) (\<lambda>(token, json).
              if tk_type token \<noteq> T_END then json_throw_parse_error json ''the end'' token
              else Some (Inr (v, json))))))"
      by (intro token_bind [OF token] value_bind [OF val] outcome_if throw_outcome done_outcome) (use p in \<open>auto dest: pok_left\<close>)
    then show ?thesis using False Inr tmp(1) unfolding outcome_def p_def
      by (elim disjE exE conjE) (auto simp: json_decode_def pok_def strbuf_free_def)
  qed (use Inr in \<open>auto simp: json_decode_def\<close>)
qed (simp add: json_decode_def)

text \<open>
  (C25) Decoding is safe: for any string of fewer than \<open>2 ^ 30\<close> bytes, valid JSON or not, \<open>decode\<close> ends with a value or an error. It never
  reads behind the NUL of its input, the checks it leaves out when it fills its temporary buffer are not needed, and the buffer is freed on every path.
\<close>

theorem json_decode_returns:
  assumes "hp_total (fe_heap e)" and "g_laws e" and "strtod_laws e" and "json_reachable e lib cfg"
    and "\<forall>s. luaL_checklstring lib st 1 = Inr s \<longrightarrow> length s < 2 ^ 30"
  shows "\<exists>r. json_decode e lib cfg st = Some (r, None)"
  using decode_returns [OF _ _ assms(3,1), of cfg lib st] assms(5) json_reachable_ok [OF assms(1,2,4)] by (simp add: cfg_ok_def)

section \<open>Very long inputs\<close>

lemma at_drop: "drop i xs = c # r \<Longrightarrow> i < length xs \<and> xs ! i = c \<and> drop (Suc i) xs = r \<and> char_at xs i = Some c"
proof -
  assume d: "drop i xs = c # r"
  then have "i < length xs" by (metis drop_all list.distinct(1) not_le_imp_less)
  with d show ?thesis using Cons_nth_drop_Suc [of i xs] by (simp add: char_at_def)
qed

lemma string_overruns:
  "sb_buf (jp_tmp p) = Some b \<Longrightarrow> 0 \<le> sb_length (jp_tmp p) \<Longrightarrow> sb_length (jp_tmp p) \<le> int (length b)
    \<Longrightarrow> drop (jp_ptr p) (jp_data p) = str @ rest \<Longrightarrow> set str \<inter> {CHR 0x22, CHR 0x00, CHR 0x5C} = {}
    \<Longrightarrow> int (length b) < sb_length (jp_tmp p) + int (length str) \<Longrightarrow> string_loop cfg p = None"
proof (induction str arbitrary: p b)
  case (Cons c str)
  let ?l = "sb_length (jp_tmp p)"
  have c: "char_at (jp_data p) (jp_ptr p) = Some c" "drop (jp_ptr p + 1) (jp_data p) = str @ rest"
    using at_drop [of "jp_ptr p" "jp_data p" c "str @ rest"] Cons.prems(4) by simp_all
  have plain: "c \<noteq> CHR 0x22" "c \<noteq> CHR 0x00" "c \<noteq> CHR 0x5C" using Cons.prems(5) by auto
  show ?case
  proof (cases "nat ?l + 1 \<le> length b")
    case True
    let ?b = "take (nat ?l) b @ [c] @ drop (nat ?l + 1) b"
    let ?tmp = "(jp_tmp p)\<lparr>sb_buf := Some ?b, sb_length := ?l + 1\<rparr>"
    have a: "strbuf_append_char_unsafe c (jp_tmp p) = Some ?tmp"
      using True Cons.prems by (simp add: strbuf_append_char_unsafe_def poke_buf_def)
    have "string_loop cfg (p\<lparr>jp_tmp := ?tmp, jp_ptr := jp_ptr p + 1\<rparr>) = None"
      by (rule Cons.IH [of _ ?b]) (use Cons.prems True c(2) in auto)
    then show ?thesis using c a plain by (simp add: string_loop.simps [of cfg p])
  next
    case False
    then have "strbuf_append_char_unsafe c (jp_tmp p) = None" using Cons.prems by (simp add: strbuf_append_char_unsafe_def poke_buf_def)
    then show ?thesis using c plain by (simp add: string_loop.simps [of cfg p])
  qed
qed simp

text \<open>
  The length of the input is passed on as an \<open>int\<close>: for an input of \<open>2 ^ 31\<close> bytes or more it is negative, the temporary buffer gets its
  default size, and a long string is written past its end.
\<close>

theorem long_input_overruns:
  assumes hp: "hp_total (fe_heap e)" and cfg: "ch2token cfg = token_table"
    and str: "set str \<inter> {CHR 0x22, CHR 0x00, CHR 0x5C} = {}" and len: "2 ^ 31 \<le> int (length str)" "int (length str) + 2 < 2 ^ 32"
  shows "json_decode e lib cfg [LString (CHR 0x22 # str @ [CHR 0x22])] = None"
proof -
  let ?d = "CHR 0x22 # str @ [CHR 0x22]"
  have "c_int (int (length ?d)) < 0" using c_int_wraps [of "int (length ?d)"] len by simp
  then obtain tmp where tmp: "strbuf_new (fe_heap e) (c_int (int (length ?d))) = Some tmp" "sb_ok tmp" "sb_size tmp = 1023"
  proof -
    assume n: "c_int (int (length ?d)) < 0"
    then have "strbuf_init (fe_heap e) (c_int (int (length ?d))) = strbuf_init (fe_heap e) 0" by (simp add: strbuf_init_def)
    moreover obtain b where b: "strbuf_init (fe_heap e) 0 = Some b" "sb_ok b" using init_ok [OF hp, of 0] by auto
    moreover from b have "sb_size b = 1023"
      by (auto simp: strbuf_init_def strbuf_ensure_null_def poke_buf_def Option.bind_eq_Some_conv STRBUF_DEFAULT_SIZE_def split: if_splits)
    ultimately show ?thesis using that [of "b\<lparr>sb_dynamic := True\<rparr>"] by (simp add: strbuf_new_def sb_ok_def)
  qed
  let ?p = "\<lparr>jp_data = ?d, jp_ptr = 1, jp_tmp = strbuf_reset tmp, jp_depth = 0\<rparr>"
  obtain b where "sb_buf tmp = Some b" "length b = 1023" using tmp(2,3) by (auto simp: sb_ok_def)
  then have "string_loop cfg ?p = None"
    using tmp(2,3) str len by (intro string_overruns [of _ b str "[CHR 0x22]"]) (simp_all add: sb_ok_def strbuf_reset_def)
  moreover have "skip_space cfg ?d 0 = Some (T_UNKNOWN, 0)"
    using cfg by (simp add: skip_space.simps [of cfg ?d 0] char_at_def token_table_def)
  ultimately have tok: "json_next_token e cfg \<lparr>jp_data = ?d, jp_ptr = 0, jp_tmp = tmp, jp_depth = 0\<rparr> = None"
    by (simp add: json_next_token_def Let_def json_unknown_token_def json_next_string_token_def char_at_def)
  have "str ! 0 \<noteq> CHR 0x00" using str len by (cases str) auto
  then have nz: "\<not> (length ?d \<ge> 2 \<and> (?d ! 0 = CHR 0x00 \<or> ?d ! 1 = CHR 0x00))" using len by (cases str) auto
  have "luaL_checklstring lib [LString ?d] 1 = Inr ?d" by (simp add: luaL_checklstring_def lua_tolstring_def arg_def tolstring_def)
  then show ?thesis using nz tmp(1) tok by (simp add: json_decode_def)
qed

section \<open>Concrete runs\<close>

lemma demo_strtod: "strtod_laws json_demo_env"
  by (auto simp: strtod_laws_def json_demo_env_def demo_libc_def split: list.splits)

theorem json_decode_returns_witness: "\<exists>r. json_decode json_demo_env demo_lua demo_config [LString ''[1, }''] = Some (r, None)"
  by (rule json_decode_returns [OF demo_laws(2,1) demo_strtod json_demo_reachable]) (simp add: luaL_checklstring_def lua_tolstring_def arg_def tolstring_def)

theorem long_input_overruns_witness:
  "json_decode json_demo_env demo_lua demo_config [LString (CHR 0x22 # replicate 2147483648 CHR ''x'' @ [CHR 0x22])] = None"
  using json_reachable_ok [OF demo_laws(2,1) json_demo_reachable]
  by (intro long_input_overruns [OF demo_laws(2)]) (auto simp: cfg_ok_def in_set_replicate)

end
