(* ===== verification/Json_Read.thy ===== *)
theory Json_Read
  imports Json_Decode
begin

text \<open>
  Reading what was printed, token by token: the characters, strings, literals and numbers that the encoder writes are the tokens the decoder
  finds.
\<close>

section \<open>Reading characters and strings\<close>

lemma schar_code: "m < 128 \<Longrightarrow> schar (char_of m) = int m"
proof -
  assume m: "m < 128"
  have "(of_char (char_of m) :: int) = int (of_char (char_of m) :: nat)" by (rule of_nat_of_char [symmetric])
  also have "\<dots> = int m" using m by (simp add: of_char_of)
  finally show ?thesis using m by (simp add: schar_def signed_take_bit_int_eq_self)
qed

lemma hexdigit_hex:
  assumes "n < 16"
  shows "hexdigit2int (json_hex_digit n) = int n"
proof (cases "n < 10")
  case True
  then have "schar (json_hex_digit n) = 48 + int n" using schar_code [of "48 + n"] by (simp add: json_hex_digit_def)
  then show ?thesis using True by (simp add: hexdigit2int_def Let_def)
next
  case False
  then have "schar (json_hex_digit n) = 87 + int n" using assms schar_code [of "87 + n"] by (simp add: json_hex_digit_def)
  moreover have "n = 10 \<or> n = 11 \<or> n = 12 \<or> n = 13 \<or> n = 14 \<or> n = 15" using False assms by auto
  ultimately show ?thesis by (elim disjE) (simp_all add: hexdigit2int_def)
qed

lemma plain_char: "char2escape c = None \<Longrightarrow> c \<notin> {CHR 0x22, CHR 0x00, CHR 0x5C}"
proof -
  have "char2escape CHR 0x22 \<noteq> None" "char2escape CHR 0x00 \<noteq> None" "char2escape CHR 0x5C \<noteq> None" by (simp_all add: char2escape_def)
  then show "char2escape c = None \<Longrightarrow> ?thesis" by blast
qed

definition two_char_escape :: "char \<Rightarrow> bytes \<Rightarrow> bool" where
  "two_char_escape c s \<longleftrightarrow> s = [CHR 0x5C, s ! 1] \<and> escape_table (s ! 1) = c \<and> c \<noteq> CHR ''u'' \<and> c \<noteq> CHR 0x00"

lemma escape_kinds:
  assumes s: "char2escape c = Some s"
  obtains "two_char_escape c s"
  | n where "c = char_of n" "n < 128" "s = CHR 0x5C # ''u00'' @ [json_hex_digit (n div 16), json_hex_digit (n mod 16)]"
proof (cases "c \<in> {CHR 0x08, CHR 0x09, CHR 0x0A, CHR 0x0C, CHR 0x0D, CHR 0x22, CHR ''/'', CHR 0x5C}")
  case True
  then have "two_char_escape c s" using s by (elim insertE) (auto simp: char2escape_def two_char_escape_def escape_table_def)
  then show ?thesis by (rule that(1))
next
  case False
  let ?n = "of_char c :: nat"
  have "s = CHR 0x5C # ''u00'' @ [json_hex_digit (?n div 16), json_hex_digit (?n mod 16)] \<and> ?n < 128"
    using s False by (auto simp: char2escape_def Let_def split: if_split_asm)
  then show ?thesis using that(2) [of ?n] by simp
qed

lemma drop_more: "drop i xs = a @ b \<Longrightarrow> drop (i + length a) xs = b"
  by (metis add.commute append_eq_conv_conj drop_drop)

lemma hex4_codepoint:
  assumes d: "drop i data = CHR ''0'' # CHR ''0'' # json_hex_digit (n div 16) # json_hex_digit (n mod 16) # rest" and n: "n < 128"
  shows "decode_hex4 data i = Some (int n)"
proof -
  note c1 = at_drop [OF d] note c2 = at_drop [OF c1 [THEN conjunct2, THEN conjunct2, THEN conjunct1]]
  note c3 = at_drop [OF c2 [THEN conjunct2, THEN conjunct2, THEN conjunct1]] note c4 = at_drop [OF c3 [THEN conjunct2, THEN conjunct2, THEN conjunct1]]
  have z: "hexdigit2int CHR ''0'' = 0" by code_simp
  have four: "(4 :: nat) = Suc (Suc (Suc (Suc 0)))" by simp
  have "hex_digits data i 4 = Some (Some [0, 0, int (n div 16), int (n mod 16)])"
    using c1 c2 c3 c4 z hexdigit_hex [of "n div 16"] hexdigit_hex [of "n mod 16"] n unfolding four
    by (simp only: hex_digits.simps Option.bind.simps if_False) simp
  moreover have "push_bit 4 (int (n div 16)) + int (n mod 16) = int n"
    by (simp add: push_bit_eq_mult zdiv_int zmod_int)
  ultimately show ?thesis by (simp add: decode_hex4_def del: hex_digits.simps)
qed

lemma small_codepoint: "n < 128 \<Longrightarrow> int n AND 0xF800 \<noteq> 0xD800 \<and> codepoint_to_utf8 (int n) = [char_of n]"
proof -
  have "\<forall>n \<in> set [0..<128]. int n AND 0xF800 \<noteq> 0xD800" by code_simp
  then show "n < 128 \<Longrightarrow> ?thesis" by (simp add: codepoint_to_utf8_def flip: of_char_of)
qed

text \<open>One escaped character is read back.\<close>

lemma loop_char:
  assumes cfg: "escape2char cfg = escape_table" and p: "tmp_room p" and d: "drop (jp_ptr p) (jp_data p) = json_escape c @ rest"
  shows "\<exists>p'. string_loop cfg p = string_loop cfg p' \<and> tmp_room p' \<and> same_frame p p' \<and> drop (jp_ptr p') (jp_data p') = rest
     \<and> sb_str (jp_tmp p') = sb_str (jp_tmp p) @ [c]"
proof -
  let ?n = "length (json_escape c)"
  have in_data: "jp_ptr p + ?n \<le> length (jp_data p)"
    using arg_cong [OF d, of length] p by (auto simp: tmp_room_def)
  obtain tmp where tmp: "strbuf_append_mem_unsafe [c] (jp_tmp p) = Some tmp" "tmp_room (p\<lparr>jp_tmp := tmp, jp_ptr := jp_ptr p + ?n\<rparr>)"
    "same_frame p (p\<lparr>jp_tmp := tmp, jp_ptr := jp_ptr p + ?n\<rparr>)" "sb_str tmp = sb_str (jp_tmp p) @ [c]"
    using tmp_append [OF p, of "[c]" ?n] in_data json_escape_length(1) [of c] by auto
  let ?p = "p\<lparr>jp_tmp := tmp, jp_ptr := jp_ptr p + ?n\<rparr>"
  have "string_loop cfg p = string_loop cfg ?p"
  proof (cases "char2escape c")
    case None
    then have "json_escape c = [c]" by (simp add: json_escape_def)
    then show ?thesis using d at_drop [of "jp_ptr p" "jp_data p" c rest] plain_char [OF None] tmp(1)
      by (simp add: string_loop.simps [of cfg p] char_unsafe_mem)
  next
    case (Some s)
    then have s: "json_escape c = s" by (simp add: json_escape_def)
    from Some show ?thesis
    proof (cases rule: escape_kinds)
      case 1
      then obtain x where x: "s = [CHR 0x5C, x]" "escape_table x = c" "c \<noteq> CHR ''u''" "c \<noteq> CHR 0x00" by (auto simp: two_char_escape_def)
      note a = at_drop [of "jp_ptr p" "jp_data p" "CHR 0x5C" "x # rest"]
      with x d s have "char_at (jp_data p) (jp_ptr p + 1) = Some x" using at_drop [of "jp_ptr p + 1" "jp_data p" x rest] by simp
      then show ?thesis using a d s x tmp(1) cfg by (simp add: string_loop.simps [of cfg p] char_unsafe_mem Let_def)
    next
      case (2 n)
      have d2: "drop (jp_ptr p) (jp_data p) = [CHR 0x5C, CHR ''u''] @ CHR ''0'' # CHR ''0'' # json_hex_digit (n div 16) # json_hex_digit (n mod 16) # rest"
        using d s 2 by simp
      have h: "decode_hex4 (jp_data p) (jp_ptr p + 2) = Some (int n)"
        using hex4_codepoint [OF _ 2(2)] drop_more [OF d2] by simp
      have e: "json_append_unicode_escape p = Some (Some ?p)"
        using h small_codepoint [OF 2(2)] 2 tmp(1) s by (simp add: json_append_unicode_escape_def escape_codepoint_def)
      have "char_at (jp_data p) (jp_ptr p) = Some (CHR 0x5C)" "char_at (jp_data p) (jp_ptr p + 1) = Some (CHR ''u'')"
        using at_drop [of "jp_ptr p" "jp_data p" "CHR 0x5C"] at_drop [of "jp_ptr p + 1" "jp_data p" "CHR ''u''"] d2 by simp_all
      then show ?thesis using e cfg by (simp add: string_loop.simps [of cfg p] escape_table_def)
    qed
  qed
  moreover have "drop (jp_ptr ?p) (jp_data ?p) = rest" using drop_more [OF d] by simp
  ultimately show ?thesis using tmp by (intro exI [of _ ?p]) simp
qed

lemma loop_string:
  assumes cfg: "escape2char cfg = escape_table"
  shows "tmp_room p \<Longrightarrow> drop (jp_ptr p) (jp_data p) = concat (map json_escape s) @ CHR 0x22 # rest
    \<Longrightarrow> \<exists>p'. string_loop cfg p = Some (None, p') \<and> tmp_room p' \<and> same_frame p p' \<and> drop (jp_ptr p') (jp_data p') = CHR 0x22 # rest
      \<and> sb_str (jp_tmp p') = sb_str (jp_tmp p) @ s"
proof (induction s arbitrary: p)
  case Nil
  then have "string_loop cfg p = Some (None, p)"
    using at_drop [of "jp_ptr p" "jp_data p" "CHR 0x22"] by (simp add: string_loop.simps [of cfg p])
  then show ?case using Nil by (simp add: same_frame_def)
next
  case (Cons c s)
  obtain p1 where p1: "string_loop cfg p = string_loop cfg p1" "tmp_room p1" "same_frame p p1"
    "drop (jp_ptr p1) (jp_data p1) = concat (map json_escape s) @ CHR 0x22 # rest" "sb_str (jp_tmp p1) = sb_str (jp_tmp p) @ [c]"
    using loop_char [OF cfg Cons.prems(1), of c "concat (map json_escape s) @ CHR 0x22 # rest"] Cons.prems(2) by auto
  then obtain p2 where "string_loop cfg p1 = Some (None, p2)" "tmp_room p2" "same_frame p1 p2" "drop (jp_ptr p2) (jp_data p2) = CHR 0x22 # rest"
    "sb_str (jp_tmp p2) = sb_str (jp_tmp p1) @ s" using Cons.IH [OF p1(2)] by blast
  then show ?case using p1 same_frame_trans [OF p1(3)] by auto
qed

section \<open>Reading tokens\<close>

definition tables_ok :: "json_config \<Rightarrow> bool" where
  "tables_ok cfg \<longleftrightarrow> ch2token cfg = token_table \<and> escape2char cfg = escape_table"

text \<open>The next token is \<open>ty\<close> with value \<open>v\<close>; \<open>rest\<close> is left behind it.\<close>

definition reads_token :: "fp_env \<Rightarrow> json_config \<Rightarrow> bytes \<Rightarrow> json_parse \<Rightarrow> json_token_type \<Rightarrow> token_value \<Rightarrow> bytes \<Rightarrow> json_parse \<Rightarrow> bool" where
  "reads_token e cfg data p ty v rest p' \<longleftrightarrow> (\<exists>i. json_next_token e cfg p = Some (\<lparr>tk_type = ty, tk_index = i, tk_value = v\<rparr>, p'))
     \<and> pok data p' \<and> drop (jp_ptr p') data = rest \<and> jp_depth p' = jp_depth p"

lemma skip_none:
  "tables_ok cfg \<Longrightarrow> char_at data i = Some c \<Longrightarrow> token_table c \<noteq> T_WHITESPACE \<Longrightarrow> skip_space cfg data i = Some (token_table c, i)"
  by (simp add: skip_space.simps [of cfg data i] tables_ok_def)

lemma read_char:
  assumes "tables_ok cfg" "pok data p" and d: "drop (jp_ptr p) data = c # rest" and "token_table c \<notin> {T_END, T_ERROR, T_UNKNOWN, T_WHITESPACE}"
  shows "reads_token e cfg data p (token_table c) No_value rest (p\<lparr>jp_ptr := jp_ptr p + 1\<rparr>)"
  using assms skip_none [OF assms(1), of data "jp_ptr p" c] at_drop [OF d]
  by (auto simp: reads_token_def json_next_token_def pok_def Let_def)

lemma read_end:
  assumes "tables_ok cfg" "pok data p" and d: "drop (jp_ptr p) data = []"
  shows "reads_token e cfg data p T_END No_value [] p"
proof -
  have "char_at data (jp_ptr p) = Some (CHR 0x00)" using assms by (auto simp: char_at_def pok_def)
  then show ?thesis using assms skip_none [OF assms(1), of data "jp_ptr p"]
    by (auto simp: reads_token_def json_next_token_def pok_def Let_def token_table_def)
qed

lemma read_unknown:
  assumes "tables_ok cfg" "pok data p" and d: "drop (jp_ptr p) data = c # rest" and "token_table c = T_UNKNOWN"
  shows "json_next_token e cfg p = json_unknown_token e cfg (c_int (int (jp_ptr p))) p"
  using assms skip_none [OF assms(1), of data "jp_ptr p" c] at_drop [OF d] by (auto simp: json_next_token_def pok_def Let_def)

lemma read_string:
  assumes t: "tables_ok cfg" and p: "pok data p" and d: "drop (jp_ptr p) data = json_quote s @ rest"
  shows "\<exists>p'. reads_token e cfg data p T_STRING (Text s) rest p'"
proof -
  have d': "drop (jp_ptr p) data = CHR 0x22 # concat (map json_escape s) @ CHR 0x22 # rest" using d by (simp add: json_quote_def)
  note q = at_drop [OF d']
  let ?p = "p\<lparr>jp_ptr := jp_ptr p + 1, jp_tmp := strbuf_reset (jp_tmp p)\<rparr>"
  have room: "tmp_room ?p" using p q by (auto simp: tmp_room_def pok_def strbuf_reset_def sb_ok_def)
  have "drop (jp_ptr ?p) (jp_data ?p) = concat (map json_escape s) @ CHR 0x22 # rest" using q p by (simp add: pok_def)
  then obtain p' where l: "string_loop cfg ?p = Some (None, p')" "tmp_room p'" "same_frame ?p p'" "drop (jp_ptr p') (jp_data p') = CHR 0x22 # rest"
    "sb_str (jp_tmp p') = sb_str (jp_tmp ?p) @ s" using loop_string [OF _ room, of cfg] t by (auto simp: tables_ok_def)
  have str: "sb_str (jp_tmp p') = s" using l(5) by (simp add: strbuf_reset_def sb_str_def split: option.splits)
  obtain tmp where tmp: "strbuf_ensure_null (jp_tmp p') = Some tmp" "sb_ok tmp" "strbuf_string tmp = Some s" "sb_size tmp = sb_size (jp_tmp p')"
    "sb_dynamic tmp = sb_dynamic (jp_tmp p')" using ensure_null_ok [of "jp_tmp p'"] l(2) str by (auto simp: tmp_room_def)
  have same: "jp_data p' = data" "jp_depth p' = jp_depth p" "sb_size (jp_tmp p') = sb_size (jp_tmp p)" "sb_dynamic (jp_tmp p') = sb_dynamic (jp_tmp p)"
    using l(3) p by (auto simp: same_frame_def pok_def strbuf_reset_def)
  note q' = at_drop [of "jp_ptr p'" data "CHR 0x22" rest]
  let ?r = "p'\<lparr>jp_ptr := jp_ptr p' + 1, jp_tmp := tmp\<rparr>"
  have "json_next_token e cfg p = json_unknown_token e cfg (c_int (int (jp_ptr p))) p"
    by (rule read_unknown [OF t p d']) (simp add: token_table_def)
  then have "json_next_token e cfg p = Some (\<lparr>tk_type = T_STRING, tk_index = c_int (int (jp_ptr p)), tk_value = Text s\<rparr>, ?r)"
    using q l(1) tmp p by (simp add: json_unknown_token_def json_next_string_token_def pok_def)
  then show ?thesis using p same tmp q' l(4) by (intro exI [of _ ?r]) (auto simp: reads_token_def pok_def)
qed

lemma read_literal:
  assumes t: "tables_ok cfg" and p: "pok data p"
  shows "drop (jp_ptr p) data = ''true'' @ rest \<Longrightarrow> reads_token e cfg data p T_BOOLEAN (Boolean True) rest (p\<lparr>jp_ptr := jp_ptr p + 4\<rparr>)"
    and "drop (jp_ptr p) data = ''false'' @ rest \<Longrightarrow> reads_token e cfg data p T_BOOLEAN (Boolean False) rest (p\<lparr>jp_ptr := jp_ptr p + 5\<rparr>)"
    and "drop (jp_ptr p) data = ''null'' @ rest \<Longrightarrow> reads_token e cfg data p T_NULL No_value rest (p\<lparr>jp_ptr := jp_ptr p + 4\<rparr>)"
proof -
  have codes: "schar CHR ''t'' = 116" "schar CHR ''f'' = 102" "schar CHR ''n'' = 110" by code_simp+
  have data: "jp_data p = data" using p by (simp add: pok_def)
  have lit: "reads_token e cfg data p ty v rest (p\<lparr>jp_ptr := jp_ptr p + n\<rparr>)"
    if d: "drop (jp_ptr p) data = (c # w) @ rest" and n: "n = length w + 1" and c: "token_table c = T_UNKNOWN"
      and u: "json_unknown_token e cfg (c_int (int (jp_ptr p))) p = Some (\<lparr>tk_type = ty, tk_index = c_int (int (jp_ptr p)), tk_value = v\<rparr>, p\<lparr>jp_ptr := jp_ptr p + n\<rparr>)"
    for c w n ty v
  proof -
    have "json_next_token e cfg p = json_unknown_token e cfg (c_int (int (jp_ptr p))) p" using read_unknown [OF t p _ c] d by simp
    moreover have "jp_ptr p + n \<le> length data" "drop (jp_ptr p + n) data = rest"
      using arg_cong [OF d, of length] drop_more [OF d] n by auto
    ultimately show ?thesis using u p by (simp add: reads_token_def pok_def)
  qed
  show "reads_token e cfg data p T_BOOLEAN (Boolean True) rest (p\<lparr>jp_ptr := jp_ptr p + 4\<rparr>)" if d: "drop (jp_ptr p) data = ''true'' @ rest"
    by (rule lit [of "CHR ''t''" "''rue''"]) (use d data at_drop [of "jp_ptr p" data "CHR ''t''"] in \<open>simp_all add: token_table_def json_unknown_token_def literal_at_def codes\<close>)
  show "reads_token e cfg data p T_BOOLEAN (Boolean False) rest (p\<lparr>jp_ptr := jp_ptr p + 5\<rparr>)" if d: "drop (jp_ptr p) data = ''false'' @ rest"
    by (rule lit [of "CHR ''f''" "''alse''"]) (use d data at_drop [of "jp_ptr p" data "CHR ''f''"] in \<open>simp_all add: token_table_def json_unknown_token_def literal_at_def codes\<close>)
  show "reads_token e cfg data p T_NULL No_value rest (p\<lparr>jp_ptr := jp_ptr p + 4\<rparr>)" if d: "drop (jp_ptr p) data = ''null'' @ rest"
    by (rule lit [of "CHR ''n''" "''ull''"]) (use d data at_drop [of "jp_ptr p" data "CHR ''n''"] in \<open>simp_all add: token_table_def json_unknown_token_def literal_at_def codes\<close>)
qed

section \<open>Reading numbers\<close>

text \<open>What may follow a number.\<close>

definition stops :: "bytes \<Rightarrow> bool" where
  "stops s \<longleftrightarrow> s = [] \<or> s ! 0 \<in> {CHR '','', CHR '']'', CHR ''}''}"

text \<open>The front of a JSON number: no leading zeros.\<close>

definition number_front :: "bytes \<Rightarrow> bool" where
  "number_front u \<longleftrightarrow> u \<noteq> [] \<and> u ! 0 \<in> set ''0123456789'' \<and> (u ! 0 = CHR ''0'' \<longrightarrow> length u = 1 \<or> u ! 1 \<in> {CHR ''.'', CHR ''e''})"

definition number_format :: "bytes \<Rightarrow> bool" where
  "number_format t \<longleftrightarrow> number_front t \<or> (\<exists>u. t = CHR ''-'' # u \<and> number_front u)"

text \<open>
  What is relied on of \<open>printf\<close> and \<open>strtod\<close> for one number: its text is a JSON number, with the decimal point of the locale, and is read back
  exactly, also when a comma or a bracket follows.
\<close>

definition number_reads :: "fp_env \<Rightarrow> json_config \<Rightarrow> rat \<Rightarrow> bool" where
  "number_reads e cfg r \<longleftrightarrow> (let t = number_text e cfg (Finite r) in
     number_format t \<and> (\<forall>c \<in> set t. valid_number_character c)
     \<and> (\<forall>s. stops s \<longrightarrow> lc_strtod (fe_libc e) (localise (fe_point e) t @ s) = (Finite r, length t)))"

lemma digit_facts:
  "c \<in> set ''0123456789'' \<Longrightarrow> token_table c = T_UNKNOWN \<and> c \<notin> {CHR 0x22, CHR ''+'', CHR ''-''} \<and> 48 \<le> schar c \<and> schar c \<le> 57"
proof -
  have "\<forall>c \<in> set ''0123456789''. token_table c = T_UNKNOWN \<and> c \<notin> {CHR 0x22, CHR ''+'', CHR ''-''} \<and> 48 \<le> schar c \<and> schar c \<le> 57" by code_simp
  then show "c \<in> set ''0123456789'' \<Longrightarrow> ?thesis" by blast
qed

lemma after_zero: "c \<in> set [CHR ''.'', CHR ''e'', CHR '','', CHR '']'', CHR ''}'', CHR 0x00] \<Longrightarrow> schar c OR 0x20 \<noteq> 120 \<and> \<not> (48 \<le> schar c \<and> schar c \<le> 57)"
proof -
  have "\<forall>c \<in> set [CHR ''.'', CHR ''e'', CHR '','', CHR '']'', CHR ''}'', CHR 0x00]. schar c OR 0x20 \<noteq> 120 \<and> \<not> (48 \<le> schar c \<and> schar c \<le> 57)" by code_simp
  then show "c \<in> set [CHR ''.'', CHR ''e'', CHR '','', CHR '']'', CHR ''}'', CHR 0x00] \<Longrightarrow> ?thesis" by blast
qed

lemma not_valid: "\<not> valid_number_character CHR 0x00" "\<not> valid_number_character CHR '',''" "\<not> valid_number_character CHR '']''" "\<not> valid_number_character CHR ''}''"
  by code_simp+

lemma localise_dot: "localise CHR ''.'' t = t"
  by (induction t) auto

lemma strtod_number:
  assumes r: "number_reads e cfg r" and s: "stops s" and hp: "hp_total (fe_heap e)"
  shows "fpconv_strtod e (number_text e cfg (Finite r) @ s) = Some (Finite r, length (number_text e cfg (Finite r)))"
proof -
  let ?t = "number_text e cfg (Finite r)"
  have v: "\<forall>c \<in> set ?t. valid_number_character c" and t: "?t \<noteq> []"
    and law: "\<And>s. stops s \<Longrightarrow> lc_strtod (fe_libc e) (localise (fe_point e) ?t @ s) = (Finite r, length ?t)"
    using r by (auto simp: number_reads_def Let_def number_format_def number_front_def)
  show ?thesis
  proof (cases "fe_point e = CHR ''.''")
    case True
    have "CHR 0x00 \<notin> set ?t" using v not_valid(1) by blast
    then have "c_str (?t @ s) = ?t @ c_str s" by (auto simp: c_str_def intro: takeWhile_append2)
    moreover have "stops (c_str s)" using s by (cases s) (auto simp: stops_def c_str_def)
    ultimately show ?thesis using law [of "c_str s"] True by (simp add: fpconv_strtod_def localise_dot)
  next
    case False
    have "takeWhile valid_number_character s = []" using s not_valid by (cases s) (auto simp: stops_def)
    then have "strtod_buffer_size (?t @ s) = length ?t" using v by (simp add: strtod_buffer_size_def)
    then show ?thesis using law [of "[]"] False t hp by (simp add: fpconv_strtod_def Let_def hp_total_def stops_def)
  qed
qed

lemma front_valid:
  assumes u: "number_front u" and d: "drop q data = u @ s" and s: "stops s" and q: "q \<le> length data"
  obtains c where "char_at data q = Some c" "schar c \<le> 57" "c = CHR ''0'' \<Longrightarrow> \<exists>c2. char_at data (q + 1) = Some c2
      \<and> schar c2 OR 0x20 \<noteq> 120 \<and> \<not> (48 \<le> schar c2 \<and> schar c2 \<le> 57)"
proof -
  obtain c u' where cu: "u = c # u'" using u by (cases u) (auto simp: number_front_def)
  have a: "q < length data" "drop (q + 1) data = u' @ s" "char_at data q = Some c" using at_drop [of q data c "u' @ s"] d cu by auto
  have "\<exists>c2. char_at data (q + 1) = Some c2 \<and> schar c2 OR 0x20 \<noteq> 120 \<and> \<not> (48 \<le> schar c2 \<and> schar c2 \<le> 57)" if "c = CHR ''0''"
  proof (cases u')
    case Nil
    show ?thesis
    proof (cases s)
      case Nil
      then have "char_at data (q + 1) = Some (CHR 0x00)" using a \<open>u' = []\<close> by (auto simp: char_at_def)
      then show ?thesis using after_zero [of "CHR 0x00"] by simp
    next
      case (Cons x s')
      then have "char_at data (q + 1) = Some x" using a \<open>u' = []\<close> at_drop [of "q + 1" data x s'] by simp
      then show ?thesis using after_zero [of x] s Cons by (auto simp: stops_def)
    qed
  next
    case (Cons x u'')
    then have "char_at data (q + 1) = Some x" "x \<in> {CHR ''.'', CHR ''e''}"
      using a at_drop [of "q + 1" data x "u'' @ s"] u cu that by (auto simp: number_front_def)
    then show ?thesis using after_zero [of x] by auto
  qed
  then show ?thesis using that [of c] a digit_facts [of c] u cu by (auto simp: number_front_def)
qed

lemma format_valid:
  assumes t: "number_format t" and d: "drop q data = t @ s" and s: "stops s" and q: "q \<le> length data"
  shows "json_is_invalid_number data q = Some False"
  using t unfolding number_format_def
proof (elim disjE exE conjE)
  assume f: "number_front t"
  then obtain c t' where "t = c # t'" "c \<in> set ''0123456789''" by (cases t) (auto simp: number_front_def)
  then have c: "char_at data q = Some c" "c \<noteq> CHR ''+''" "c \<noteq> CHR ''-''" using digit_facts [of c] at_drop [of q data c "t' @ s"] d by auto
  show ?thesis by (rule front_valid [OF f d s q]) (use c in \<open>auto simp: json_is_invalid_number_def\<close>)
next
  fix u assume u: "t = CHR ''-'' # u" "number_front u"
  then have c: "char_at data q = Some (CHR ''-'')" "drop (q + 1) data = u @ s" "q + 1 \<le> length data"
    using at_drop [of q data "CHR ''-''" "u @ s"] d by auto
  show ?thesis by (rule front_valid [OF u(2) c(2) s c(3)]) (use c in \<open>auto simp: json_is_invalid_number_def\<close>)
qed

lemma format_first:
  assumes "number_format t"
  shows "\<exists>c t'. t = c # t' \<and> (c \<in> set ''0123456789'' \<or> c = CHR ''-'')"
proof (cases t)
  case Nil
  then show ?thesis using assms by (simp add: number_format_def number_front_def)
next
  case (Cons c t')
  then have "c \<in> set ''0123456789'' \<or> c = CHR ''-''" using assms unfolding number_format_def number_front_def by fastforce
  then show ?thesis using Cons by blast
qed

lemma read_number:
  assumes t: "tables_ok cfg" and p: "pok data p" and hp: "hp_total (fe_heap e)" and r: "number_reads e cfg r" and s: "stops s"
    and d: "drop (jp_ptr p) data = number_text e cfg (Finite r) @ s"
  shows "reads_token e cfg data p T_NUMBER (Number (Finite r)) s (p\<lparr>jp_ptr := jp_ptr p + length (number_text e cfg (Finite r))\<rparr>)"
proof -
  let ?t = "number_text e cfg (Finite r)"
  have f: "number_format ?t" using r by (simp add: number_reads_def Let_def)
  then obtain c t' where ct: "?t = c # t'" "c \<in> set ''0123456789'' \<or> c = CHR ''-''"
    using format_first by blast
  then have c: "char_at data (jp_ptr p) = Some c" "token_table c = T_UNKNOWN" "c \<noteq> CHR 0x22" "c = CHR ''-'' \<or> 48 \<le> schar c \<and> schar c \<le> 57"
    using digit_facts [of c] at_drop [of "jp_ptr p" data c "t' @ s"] d by (auto simp: token_table_def)
  have data: "jp_data p = data" using p by (simp add: pok_def)
  have "json_next_token e cfg p = json_unknown_token e cfg (c_int (int (jp_ptr p))) p"
    using read_unknown [OF t p _ c(2), of "t' @ s"] d ct by simp
  also have "\<dots> = json_next_number_token e (c_int (int (jp_ptr p))) p"
    unfolding json_unknown_token_def data c(1) Option.bind.simps if_not_P [OF c(3)] char_codes if_P [OF c(4)]
    using format_valid [OF f d s pok_left [OF p]] by simp
  also have "\<dots> = Some (\<lparr>tk_type = T_NUMBER, tk_index = c_int (int (jp_ptr p)), tk_value = Number (Finite r)\<rparr>, p\<lparr>jp_ptr := jp_ptr p + length ?t\<rparr>)"
    using strtod_number [OF r s hp] d data ct by (simp add: json_next_number_token_def)
  finally have tok: "json_next_token e cfg p = Some (\<lparr>tk_type = T_NUMBER, tk_index = c_int (int (jp_ptr p)), tk_value = Number (Finite r)\<rparr>,
      p\<lparr>jp_ptr := jp_ptr p + length ?t\<rparr>)" .
  have "length data - jp_ptr p = length ?t + length s" using arg_cong [OF d, of length] by simp
  then have "jp_ptr p + length ?t \<le> length data" using pok_left [OF p] by simp
  then show ?thesis unfolding reads_token_def using tok p drop_more [OF d] by (simp add: pok_def)
qed

end
