(* ===== verification/Json_Roundtrip.thy ===== *)
theory Json_Roundtrip
  imports Json_Read
begin

text \<open>
  Decoding what was encoded gives the value back: for booleans, \<open>null\<close>, strings, numbers that the C library reads back, arrays and
  objects with string keys, nested within the limits.
\<close>

section \<open>Values that survive\<close>

fun array_from :: "int \<Rightarrow> json_value list \<Rightarrow> (json_value \<times> json_value) list" where
  "array_from i [] = []"
| "array_from i (v # vs) = (JNumber (Finite (of_int i)), v) # array_from (i + 1) vs"

definition object_of :: "(bytes \<times> json_value) list \<Rightarrow> (json_value \<times> json_value) list" where
  "object_of kvs = map (\<lambda>(k, v). (JString k, v)) kvs"

text \<open>\<open>canonical e cfg n v\<close>: \<open>v\<close> is such a value with at most \<open>n\<close> levels of tables.\<close>

inductive canonical :: "fp_env \<Rightarrow> json_config \<Rightarrow> nat \<Rightarrow> json_value \<Rightarrow> bool" for e cfg where
  boolean: "canonical e cfg n (JBool b)"
| null: "canonical e cfg n (JLight 0)"
| str: "canonical e cfg n (JString s)"
| num: "number_reads e cfg r \<Longrightarrow> canonical e cfg n (JNumber (Finite r))"
| arr: "vs \<noteq> [] \<Longrightarrow> \<forall>v \<in> set vs. canonical e cfg n v \<Longrightarrow> canonical e cfg (Suc n) (JTable (array_from 1 vs))"
| obj: "distinct (map fst kvs) \<Longrightarrow> \<forall>kv \<in> set kvs. canonical e cfg n (snd kv) \<Longrightarrow> canonical e cfg (Suc n) (JTable (object_of kvs))"

section \<open>Printing arrays and objects\<close>

lemma array_from_length [simp]: "length (array_from i vs) = length vs"
  by (induction vs arbitrary: i) auto

lemma array_from_max:
  "1 \<le> i \<Longrightarrow> 0 \<le> n \<Longrightarrow> i + int (length vs) \<le> 2 ^ 31 \<Longrightarrow> n + int (length vs) < 2 ^ 31
    \<Longrightarrow> array_max (array_from i vs) (i - 1) n = Some (i - 1 + int (length vs), n + int (length vs))"
proof (induction vs arbitrary: i n)
  case (Cons v vs)
  have "(of_int i :: rat) > of_int (i - 1)" "(of_int i :: rat) \<noteq> 0" "(of_int i :: rat) \<ge> 1" using Cons.prems(1) by auto
  moreover have "int_of_number (of_int i) = i" using Cons.prems by (intro int_of_number_int) auto
  moreover have "c_int (n + 1) = n + 1" using Cons.prems by (intro c_int_id) auto
  ultimately show ?case using Cons.IH [of "i + 1" "n + 1"] Cons.prems by (simp add: add.commute add.left_commute)
qed simp

lemma array_from_size:
  assumes "0 \<le> encode_sparse_ratio cfg" and "int (length vs) < 2 ^ 31"
  shows "array_size cfg (array_from 1 vs) = Inr (int (length vs))"
proof -
  have "array_max (array_from 1 vs) 0 0 = Some (int (length vs), int (length vs))" using array_from_max [of 1 0 vs] assms(2) by simp
  moreover have "int (length vs) \<le> int (length vs) * encode_sparse_ratio cfg" if "encode_sparse_ratio cfg > 0"
    using that mult_left_mono [of 1 "encode_sparse_ratio cfg" "int (length vs)"] by simp
  ultimately show ?thesis by (auto simp: array_size_def)
qed

lemma array_from_get: "j < length vs \<Longrightarrow> json_rawgeti (array_from i vs) (i + int j) = vs ! j"
proof (induction vs arbitrary: i j)
  case (Cons v vs)
  then show ?case using Cons.IH [of "j - 1" "i + 1"] by (cases j) (auto simp: json_rawgeti_def algebra_simps)
qed simp

lemma array_from_items: "map (json_rawgeti (array_from 1 vs)) [1..int (length vs)] = vs"
  by (rule nth_equalityI) (auto simp: array_from_get)

lemma object_size: "kvs \<noteq> [] \<Longrightarrow> array_size cfg (object_of kvs) = Inr (- 1)"
  by (cases kvs) (auto simp: array_size_def object_of_def)

lemma print_items_text:
  "\<forall>v \<in> set vs. json_print e cfg (h + 1) d v = (f v, None) \<Longrightarrow> print_items e cfg h d True vs = (concat (map (\<lambda>v. CHR '','' # f v) vs), None)"
  by (induction vs) (simp_all add: print_items.simps)

abbreviation pair_text :: "(json_value \<Rightarrow> bytes) \<Rightarrow> bytes \<times> json_value \<Rightarrow> bytes" where
  "pair_text f kv \<equiv> json_quote (fst kv) @ CHR '':'' # f (snd kv)"

lemma print_pairs_text:
  "\<forall>kv \<in> set kvs. json_print e cfg (h + 2) d (snd kv) = (f (snd kv), None)
    \<Longrightarrow> print_pairs e cfg h d True (object_of kvs) = (concat (map (\<lambda>kv. CHR '','' # pair_text f kv) kvs), None)"
  by (induction kvs) (auto simp: print_pairs.simps print_key_def object_of_def)

section \<open>Reading arrays and objects\<close>

text \<open>A text of \<open>v\<close> is read back, wherever it stands and whatever may follow it.\<close>

definition starts_value :: "json_token \<Rightarrow> bool" where
  "starts_value t \<longleftrightarrow> tk_type t \<in> {T_STRING, T_NUMBER, T_BOOLEAN, T_NULL, T_OBJ_BEGIN, T_ARR_BEGIN}"

definition reads_value :: "fp_env \<Rightarrow> json_config \<Rightarrow> nat \<Rightarrow> json_value \<Rightarrow> bytes \<Rightarrow> bool" where
  "reads_value e cfg n v t \<longleftrightarrow> t \<noteq> [] \<and> CHR 0x00 \<notin> set t \<and> (\<forall>data p h rest fuel. pok data p \<longrightarrow> drop (jp_ptr p) data = t @ rest \<longrightarrow> stops rest
     \<longrightarrow> jp_depth p + int n \<le> decode_max_depth cfg \<longrightarrow> h + 2 * n + 1 \<le> LUAI_MAXCSTACK \<longrightarrow> 2 * (length data - jp_ptr p) + 1 \<le> fuel
     \<longrightarrow> (\<exists>tok p1 p2. json_next_token e cfg p = Some (tok, p1) \<and> starts_value tok \<and> json_process_value e cfg fuel h tok p1 = Some (Inr (v, p2))
        \<and> pok data p2 \<and> drop (jp_ptr p2) data = rest \<and> jp_depth p2 = jp_depth p))"

lemma reads_valueD:
  assumes "reads_value e cfg n v t" "pok data p" "drop (jp_ptr p) data = t @ rest" "stops rest"
    "jp_depth p + int n \<le> decode_max_depth cfg" "h + 2 * n + 1 \<le> LUAI_MAXCSTACK" "2 * (length data - jp_ptr p) + 1 \<le> fuel"
  obtains tok p1 p2 where "json_next_token e cfg p = Some (tok, p1)" "starts_value tok" "json_process_value e cfg fuel h tok p1 = Some (Inr (v, p2))"
    "pok data p2" "drop (jp_ptr p2) data = rest" "jp_depth p2 = jp_depth p"
  using assms unfolding reads_value_def by blast

lemma reads_no_nul: "reads_value e cfg n v t \<Longrightarrow> CHR 0x00 \<notin> set t"
  by (simp add: reads_value_def)

lemma scalar_reads:
  assumes "\<And>data p rest. pok data p \<Longrightarrow> drop (jp_ptr p) data = t @ rest \<Longrightarrow> stops rest \<Longrightarrow> \<exists>p'. reads_token e cfg data p ty tv rest p'"
    and "\<And>fuel h i p. json_process_value e cfg (Suc fuel) h \<lparr>tk_type = ty, tk_index = i, tk_value = tv\<rparr> p = Some (Inr (v, p))"
    and "ty \<in> {T_STRING, T_NUMBER, T_BOOLEAN, T_NULL}" "t \<noteq> []" "CHR 0x00 \<notin> set t"
  shows "reads_value e cfg n v t"
  unfolding reads_value_def
proof (intro conjI allI impI)
  fix data p h rest fuel
  assume "pok data p" "drop (jp_ptr p) data = t @ rest" "stops rest" "2 * (length data - jp_ptr p) + 1 \<le> fuel"
  moreover from this obtain p' where "reads_token e cfg data p ty tv rest p'" using assms(1) by blast
  moreover obtain fuel' where "fuel = Suc fuel'" using calculation(4) by (cases fuel) auto
  ultimately show "\<exists>tok p1 p2. json_next_token e cfg p = Some (tok, p1) \<and> starts_value tok \<and> json_process_value e cfg fuel h tok p1 = Some (Inr (v, p2))
        \<and> pok data p2 \<and> drop (jp_ptr p2) data = rest \<and> jp_depth p2 = jp_depth p"
    using assms(2,3) unfolding reads_token_def starts_value_def by fastforce
qed (use assms in auto)

lemma rawset_fresh: "k \<notin> fst ` set kvs \<Longrightarrow> json_rawset k v kvs = kvs @ [(k, v)]"
  by (induction kvs) auto

lemma left_length: "drop i xs = t \<Longrightarrow> length xs - i = length t"
  by auto

lemma elems_read:
  assumes t: "tables_ok cfg"
  shows "\<forall>w \<in> set (v # vs). reads_value e cfg n w (f w) \<Longrightarrow> pok data p
    \<Longrightarrow> drop (jp_ptr p) data = f v @ concat (map (\<lambda>v. CHR '','' # f v) vs) @ CHR '']'' # rest
    \<Longrightarrow> jp_depth p + int n \<le> decode_max_depth cfg \<Longrightarrow> h + 2 * n + 1 \<le> LUAI_MAXCSTACK \<Longrightarrow> 2 * (length data - jp_ptr p) + 2 \<le> fuel
    \<Longrightarrow> \<forall>j \<ge> i. JNumber (Finite (of_int j)) \<notin> fst ` set kvs
    \<Longrightarrow> \<exists>tok p1 p2. json_next_token e cfg p = Some (tok, p1) \<and> starts_value tok
        \<and> array_elements e cfg fuel h i kvs tok p1 = Some (Inr (JTable (kvs @ array_from i (v # vs)), p2))
        \<and> pok data p2 \<and> drop (jp_ptr p2) data = rest \<and> jp_depth p2 = jp_depth p - 1"
proof (induction vs arbitrary: v p fuel i kvs)
  case Nil
  obtain fuel' where f: "fuel = Suc fuel'" "2 * (length data - jp_ptr p) + 1 \<le> fuel'" using Nil.prems(6) by (cases fuel) auto
  have r: "reads_value e cfg n v (f v)" and d: "drop (jp_ptr p) data = f v @ CHR '']'' # rest" and st: "stops (CHR '']'' # rest)"
    using Nil.prems(1,3) by (simp_all add: stops_def)
  obtain tok p1 p2 where v: "json_next_token e cfg p = Some (tok, p1)" "starts_value tok" "json_process_value e cfg fuel' h tok p1 = Some (Inr (v, p2))"
    "pok data p2" "drop (jp_ptr p2) data = CHR '']'' # rest" "jp_depth p2 = jp_depth p"
    by (rule reads_valueD [OF r Nil.prems(2) d st Nil.prems(4,5) f(2)])
  have "reads_token e cfg data p2 T_ARR_END No_value rest (p2\<lparr>jp_ptr := jp_ptr p2 + 1\<rparr>)"
    using read_char [OF t v(4,5)] by (simp add: token_table_def)
  then obtain i' where "json_next_token e cfg p2 = Some (\<lparr>tk_type = T_ARR_END, tk_index = i', tk_value = No_value\<rparr>, p2\<lparr>jp_ptr := jp_ptr p2 + 1\<rparr>)"
    "pok data (p2\<lparr>jp_ptr := jp_ptr p2 + 1\<rparr>)" "drop (jp_ptr p2 + 1) data = rest" by (auto simp: reads_token_def)
  then show ?case using v f Nil.prems(7) rawset_fresh [of "JNumber (Finite (of_int i))" kvs v]
    by (intro exI [of _ tok] exI [of _ p1] exI [of _ "json_decode_ascend (p2\<lparr>jp_ptr := jp_ptr p2 + 1\<rparr>)"]) (simp add: json_decode_ascend_def pok_def)
next
  case (Cons w vs)
  let ?rest = "f w @ concat (map (\<lambda>v. CHR '','' # f v) vs) @ CHR '']'' # rest"
  obtain fuel' where f: "fuel = Suc fuel'" "2 * (length data - jp_ptr p) + 1 \<le> fuel'" using Cons.prems(6) by (cases fuel) auto
  have r: "reads_value e cfg n v (f v)" and d: "drop (jp_ptr p) data = f v @ CHR '','' # ?rest" and st: "stops (CHR '','' # ?rest)"
    using Cons.prems(1,3) by (simp_all add: stops_def)
  obtain tok p1 p2 where v: "json_next_token e cfg p = Some (tok, p1)" "starts_value tok" "json_process_value e cfg fuel' h tok p1 = Some (Inr (v, p2))"
    "pok data p2" "drop (jp_ptr p2) data = CHR '','' # ?rest" "jp_depth p2 = jp_depth p"
    by (rule reads_valueD [OF r Cons.prems(2) d st Cons.prems(4,5) f(2)])
  let ?p = "p2\<lparr>jp_ptr := jp_ptr p2 + 1\<rparr>"
  have c: "reads_token e cfg data p2 T_COMMA No_value ?rest ?p"
    using read_char [OF t v(4,5)] by (simp add: token_table_def)
  have left: "length data - jp_ptr ?p + 2 \<le> length data - jp_ptr p"
    using left_length [OF Cons.prems(3)] c left_length [of "jp_ptr ?p" data] Cons.prems(1) by (cases "f v") (auto simp: reads_token_def reads_value_def)
  have "\<exists>tok p1 p2. json_next_token e cfg ?p = Some (tok, p1) \<and> starts_value tok
      \<and> array_elements e cfg fuel' h (i + 1) (kvs @ [(JNumber (Finite (of_int i)), v)]) tok p1
        = Some (Inr (JTable ((kvs @ [(JNumber (Finite (of_int i)), v)]) @ array_from (i + 1) (w # vs)), p2))
      \<and> pok data p2 \<and> drop (jp_ptr p2) data = rest \<and> jp_depth p2 = jp_depth ?p - 1"
    by (rule Cons.IH) (use Cons.prems c v(6) f(2) left in \<open>auto simp: reads_token_def\<close>)
  then show ?case using v f c Cons.prems(7) rawset_fresh [of "JNumber (Finite (of_int i))" kvs v]
    by (fastforce simp: reads_token_def)
qed

text \<open>One key and its value: what \<open>object_pairs\<close> goes through before it looks for a comma.\<close>

lemma pair_read:
  assumes t: "tables_ok cfg" and r: "reads_value e cfg n v (f v)" and p: "pok data p" and d: "drop (jp_ptr p) data = pair_text f (k, v) @ rest"
    and st: "stops rest" and lim: "jp_depth p + int n \<le> decode_max_depth cfg" "h + 1 + 2 * n + 1 \<le> LUAI_MAXCSTACK" "2 * (length data - jp_ptr p) + 1 \<le> fuel"
  obtains i p1 p2 where "json_next_token e cfg p = Some (\<lparr>tk_type = T_STRING, tk_index = i, tk_value = Text k\<rparr>, p1)"
    "pok data p2" "drop (jp_ptr p2) data = rest" "jp_depth p2 = jp_depth p"
    "\<And>kvs. object_pairs e cfg (Suc fuel) h kvs \<lparr>tk_type = T_STRING, tk_index = i, tk_value = Text k\<rparr> p1 =
       xbind (xlift (json_next_token e cfg p2)) (\<lambda>(token, json).
            if tk_type token = T_OBJ_END then Some (Inr (JTable (json_rawset (JString k) v kvs), json_decode_ascend json))
            else if tk_type token \<noteq> T_COMMA then json_throw_parse_error json ''comma or object end'' token
            else
              xbind (xlift (json_next_token e cfg json)) (\<lambda>(token, json).
              object_pairs e cfg fuel h (json_rawset (JString k) v kvs) token json))"
proof -
  obtain p1 where p1: "reads_token e cfg data p T_STRING (Text k) (CHR '':'' # f v @ rest) p1" using read_string [OF t p] d by fastforce
  let ?q = "p1\<lparr>jp_ptr := jp_ptr p1 + 1\<rparr>"
  have d1: "pok data p1" "drop (jp_ptr p1) data = CHR '':'' # f v @ rest" "jp_depth p1 = jp_depth p" using p1 by (auto simp: reads_token_def)
  have q: "reads_token e cfg data p1 T_COLON No_value (f v @ rest) ?q" using read_char [OF t d1(1,2)] by (simp add: token_table_def)
  then have dq: "pok data ?q" "drop (jp_ptr ?q) data = f v @ rest" "jp_depth ?q = jp_depth p" using d1 by (auto simp: reads_token_def)
  have "length data - jp_ptr ?q \<le> length data - jp_ptr p" using left_length [OF d] left_length [OF dq(2)] by simp
  then have lim': "jp_depth ?q + int n \<le> decode_max_depth cfg" "2 * (length data - jp_ptr ?q) + 1 \<le> fuel" using lim dq(3) by auto
  obtain tok q1 p2 where v: "json_next_token e cfg ?q = Some (tok, q1)" "starts_value tok" "json_process_value e cfg fuel (h + 1) tok q1 = Some (Inr (v, p2))"
    "pok data p2" "drop (jp_ptr p2) data = rest" "jp_depth p2 = jp_depth ?q"
    by (rule reads_valueD [OF r dq(1,2) st lim'(1) lim(2) lim'(2)])
  obtain i where i: "json_next_token e cfg p = Some (\<lparr>tk_type = T_STRING, tk_index = i, tk_value = Text k\<rparr>, p1)" using p1 by (auto simp: reads_token_def)
  obtain i' where "json_next_token e cfg p1 = Some (\<lparr>tk_type = T_COLON, tk_index = i', tk_value = No_value\<rparr>, ?q)" using q by (auto simp: reads_token_def)
  then show ?thesis using that [OF i v(4,5)] v dq(3) by simp
qed

lemma pairs_read:
  assumes t: "tables_ok cfg"
  shows "\<forall>kv \<in> set (kv # kvs). reads_value e cfg n (snd kv) (f (snd kv)) \<Longrightarrow> pok data p
    \<Longrightarrow> drop (jp_ptr p) data = pair_text f kv @ concat (map (\<lambda>kv. CHR '','' # pair_text f kv) kvs) @ CHR ''}'' # rest
    \<Longrightarrow> jp_depth p + int n \<le> decode_max_depth cfg \<Longrightarrow> h + 1 + 2 * n + 1 \<le> LUAI_MAXCSTACK \<Longrightarrow> 2 * (length data - jp_ptr p) + 2 \<le> fuel
    \<Longrightarrow> distinct (map fst (kv # kvs)) \<Longrightarrow> \<forall>k \<in> fst ` set (kv # kvs). JString k \<notin> fst ` set done
    \<Longrightarrow> \<exists>i s p1 p2. json_next_token e cfg p = Some (\<lparr>tk_type = T_STRING, tk_index = i, tk_value = Text s\<rparr>, p1)
        \<and> object_pairs e cfg fuel h done \<lparr>tk_type = T_STRING, tk_index = i, tk_value = Text s\<rparr> p1 = Some (Inr (JTable (done @ object_of (kv # kvs)), p2))
        \<and> pok data p2 \<and> drop (jp_ptr p2) data = rest \<and> jp_depth p2 = jp_depth p - 1"
proof (induction kvs arbitrary: kv p fuel "done")
  case Nil
  obtain k v where kv: "kv = (k, v)" by (cases kv)
  obtain fuel' where f: "fuel = Suc fuel'" "2 * (length data - jp_ptr p) + 1 \<le> fuel'" using Nil.prems(6) by (cases fuel) auto
  have r: "reads_value e cfg n v (f v)" and d: "drop (jp_ptr p) data = pair_text f (k, v) @ CHR ''}'' # rest" and st: "stops (CHR ''}'' # rest)"
    using Nil.prems(1,3) by (simp_all add: stops_def kv)
  obtain i p1 p2 where v: "json_next_token e cfg p = Some (\<lparr>tk_type = T_STRING, tk_index = i, tk_value = Text k\<rparr>, p1)" "pok data p2"
    "drop (jp_ptr p2) data = CHR ''}'' # rest" "jp_depth p2 = jp_depth p"
    and run: "\<And>kvs. object_pairs e cfg (Suc fuel') h kvs \<lparr>tk_type = T_STRING, tk_index = i, tk_value = Text k\<rparr> p1 =
       xbind (xlift (json_next_token e cfg p2)) (\<lambda>(token, json).
            if tk_type token = T_OBJ_END then Some (Inr (JTable (json_rawset (JString k) v kvs), json_decode_ascend json))
            else if tk_type token \<noteq> T_COMMA then json_throw_parse_error json ''comma or object end'' token
            else
              xbind (xlift (json_next_token e cfg json)) (\<lambda>(token, json).
              object_pairs e cfg fuel' h (json_rawset (JString k) v kvs) token json))"
    by (rule pair_read [OF t r Nil.prems(2) d st Nil.prems(4,5) f(2)]) blast
  have "reads_token e cfg data p2 T_OBJ_END No_value rest (p2\<lparr>jp_ptr := jp_ptr p2 + 1\<rparr>)"
    using read_char [OF t v(2,3)] by (simp add: token_table_def)
  then obtain i' where "json_next_token e cfg p2 = Some (\<lparr>tk_type = T_OBJ_END, tk_index = i', tk_value = No_value\<rparr>, p2\<lparr>jp_ptr := jp_ptr p2 + 1\<rparr>)"
    "pok data (p2\<lparr>jp_ptr := jp_ptr p2 + 1\<rparr>)" "drop (jp_ptr p2 + 1) data = rest" by (auto simp: reads_token_def)
  then show ?case using v f run [of "done"] Nil.prems(8) rawset_fresh [of "JString k" "done" v]
    by (intro exI [of _ i] exI [of _ k] exI [of _ p1] exI [of _ "json_decode_ascend (p2\<lparr>jp_ptr := jp_ptr p2 + 1\<rparr>)"])
      (simp add: json_decode_ascend_def pok_def object_of_def kv)
next
  case (Cons kv' kvs)
  obtain k v where kv: "kv = (k, v)" by (cases kv)
  let ?rest = "pair_text f kv' @ concat (map (\<lambda>kv. CHR '','' # pair_text f kv) kvs) @ CHR ''}'' # rest"
  obtain fuel' where f: "fuel = Suc fuel'" "2 * (length data - jp_ptr p) + 1 \<le> fuel'" using Cons.prems(6) by (cases fuel) auto
  have r: "reads_value e cfg n v (f v)" and d: "drop (jp_ptr p) data = pair_text f (k, v) @ CHR '','' # ?rest" and st: "stops (CHR '','' # ?rest)"
    using Cons.prems(1,3) by (simp_all add: stops_def kv)
  obtain i p1 p2 where v: "json_next_token e cfg p = Some (\<lparr>tk_type = T_STRING, tk_index = i, tk_value = Text k\<rparr>, p1)" "pok data p2"
    "drop (jp_ptr p2) data = CHR '','' # ?rest" "jp_depth p2 = jp_depth p"
    and run: "\<And>kvs. object_pairs e cfg (Suc fuel') h kvs \<lparr>tk_type = T_STRING, tk_index = i, tk_value = Text k\<rparr> p1 =
       xbind (xlift (json_next_token e cfg p2)) (\<lambda>(token, json).
            if tk_type token = T_OBJ_END then Some (Inr (JTable (json_rawset (JString k) v kvs), json_decode_ascend json))
            else if tk_type token \<noteq> T_COMMA then json_throw_parse_error json ''comma or object end'' token
            else
              xbind (xlift (json_next_token e cfg json)) (\<lambda>(token, json).
              object_pairs e cfg fuel' h (json_rawset (JString k) v kvs) token json))"
    by (rule pair_read [OF t r Cons.prems(2) d st Cons.prems(4,5) f(2)]) blast
  let ?p = "p2\<lparr>jp_ptr := jp_ptr p2 + 1\<rparr>" let ?done = "done @ [(JString k, v)]"
  have c: "reads_token e cfg data p2 T_COMMA No_value ?rest ?p" using read_char [OF t v(2,3)] by (simp add: token_table_def)
  have left: "length data - jp_ptr ?p + 2 \<le> length data - jp_ptr p"
    using left_length [OF d] c left_length [of "jp_ptr ?p" data] by (auto simp: reads_token_def json_quote_def)
  have "\<exists>i s p1 p2. json_next_token e cfg ?p = Some (\<lparr>tk_type = T_STRING, tk_index = i, tk_value = Text s\<rparr>, p1)
        \<and> object_pairs e cfg fuel' h ?done \<lparr>tk_type = T_STRING, tk_index = i, tk_value = Text s\<rparr> p1 = Some (Inr (JTable (?done @ object_of (kv' # kvs)), p2))
        \<and> pok data p2 \<and> drop (jp_ptr p2) data = rest \<and> jp_depth p2 = jp_depth ?p - 1"
    by (rule Cons.IH) (use Cons.prems c v(4) f(2) left kv in \<open>auto simp: reads_token_def\<close>)
  then obtain j s q p3 where nx: "json_next_token e cfg ?p = Some (\<lparr>tk_type = T_STRING, tk_index = j, tk_value = Text s\<rparr>, q)"
    "object_pairs e cfg fuel' h ?done \<lparr>tk_type = T_STRING, tk_index = j, tk_value = Text s\<rparr> q = Some (Inr (JTable (?done @ object_of (kv' # kvs)), p3))"
    "pok data p3" "drop (jp_ptr p3) data = rest" "jp_depth p3 = jp_depth p - 1" using v(4) by auto
  obtain l where "json_next_token e cfg p2 = Some (\<lparr>tk_type = T_COMMA, tk_index = l, tk_value = No_value\<rparr>, ?p)" using c by (auto simp: reads_token_def)
  moreover have "json_rawset (JString k) v done = ?done" using Cons.prems(8) kv by (intro rawset_fresh) simp
  ultimately have "object_pairs e cfg fuel h done \<lparr>tk_type = T_STRING, tk_index = i, tk_value = Text k\<rparr> p1 = Some (Inr (JTable (?done @ object_of (kv' # kvs)), p3))"
    using nx(1,2) f(1) by (simp only: run) simp
  moreover have "?done @ object_of (kv' # kvs) = done @ object_of (kv # kv' # kvs)" by (simp add: object_of_def kv)
  ultimately show ?case using v(1) nx(3-5) by (intro exI [of _ i] exI [of _ k] exI [of _ p1] exI [of _ p3]) simp
qed

text \<open>Entering a table: the bracket is read and the limits are checked.\<close>

lemma json_table_reads:
  assumes t: "tables_ok cfg" and ty: "token_table b = ty" "ty = T_ARR_BEGIN \<and> slots = (2 :: nat) \<or> ty = T_OBJ_BEGIN \<and> slots = 3" and nul: "CHR 0x00 \<notin> set s" "b \<noteq> CHR 0x00"
    and inner: "\<And>data p h rest fuel. pok data p \<Longrightarrow> drop (jp_ptr p) data = s @ rest \<Longrightarrow> jp_depth p + int n \<le> decode_max_depth cfg
      \<Longrightarrow> h + 2 * n + 3 \<le> LUAI_MAXCSTACK \<Longrightarrow> 2 * (length data - jp_ptr p) + 2 \<le> fuel
      \<Longrightarrow> \<exists>tok p1 p2. json_next_token e cfg p = Some (tok, p1)
        \<and> (if ty = T_ARR_BEGIN then if tk_type tok = T_ARR_END then Some (Inr (JTable [], json_decode_ascend p1)) else array_elements e cfg fuel (h + 1) 1 [] tok p1
           else if tk_type tok = T_OBJ_END then Some (Inr (JTable [], json_decode_ascend p1)) else object_pairs e cfg fuel (h + 1) [] tok p1) = Some (Inr (v, p2))
        \<and> pok data p2 \<and> drop (jp_ptr p2) data = rest \<and> jp_depth p2 = jp_depth p - 1"
  shows "reads_value e cfg (Suc n) v (b # s)"
  unfolding reads_value_def
proof (intro conjI allI impI)
  fix data p h rest fuel
  assume p: "pok data p" and d: "drop (jp_ptr p) data = (b # s) @ rest" and lim: "jp_depth p + int (Suc n) \<le> decode_max_depth cfg"
    "h + 2 * Suc n + 1 \<le> LUAI_MAXCSTACK" "2 * (length data - jp_ptr p) + 1 \<le> fuel"
  obtain fuel' where f: "fuel = Suc fuel'" using lim(3) by (cases fuel) auto
  let ?p = "p\<lparr>jp_ptr := jp_ptr p + 1\<rparr>" let ?q = "?p\<lparr>jp_depth := jp_depth p + 1\<rparr>"
  have "token_table b \<notin> {T_END, T_ERROR, T_UNKNOWN, T_WHITESPACE}" using ty by auto
  then have r: "reads_token e cfg data p ty No_value (s @ rest) ?p" using read_char [OF t p, of b "s @ rest"] d ty(1) by simp
  then have q: "pok data ?q" "drop (jp_ptr ?q) data = s @ rest" by (auto simp: reads_token_def pok_def)
  have "2 * (length data - jp_ptr ?q) + 2 \<le> fuel'" using left_length [OF d] left_length [OF q(2)] lim(3) f by simp
  then obtain tok p1 p2 where in': "json_next_token e cfg ?q = Some (tok, p1)"
    "(if ty = T_ARR_BEGIN then if tk_type tok = T_ARR_END then Some (Inr (JTable [], json_decode_ascend p1)) else array_elements e cfg fuel' (h + 1) 1 [] tok p1
      else if tk_type tok = T_OBJ_END then Some (Inr (JTable [], json_decode_ascend p1)) else object_pairs e cfg fuel' (h + 1) [] tok p1) = Some (Inr (v, p2))"
    "pok data p2" "drop (jp_ptr p2) data = rest" "jp_depth p2 = jp_depth p"
    using inner [OF q, of h fuel'] lim(1,2) by auto
  have "json_decode_descend cfg h slots ?p = Some (Inr ?q)" using lim(1,2) ty(2) by (auto simp: json_decode_descend_def)
  then have "json_process_value e cfg fuel h \<lparr>tk_type = ty, tk_index = i, tk_value = No_value\<rparr> ?p = Some (Inr (v, p2))" for i
    using ty(2) in'(1,2) f by auto
  then show "\<exists>tok p1 p2. json_next_token e cfg p = Some (tok, p1) \<and> starts_value tok \<and> json_process_value e cfg fuel h tok p1 = Some (Inr (v, p2))
        \<and> pok data p2 \<and> drop (jp_ptr p2) data = rest \<and> jp_depth p2 = jp_depth p"
    using r ty(2) in'(3-5) unfolding reads_token_def starts_value_def by fastforce
qed (use nul in auto)

lemma quote_no_nul: "CHR 0x00 \<notin> set (json_quote s)"
proof -
  have hex: "json_hex_digit n \<noteq> CHR 0x00" if "n < 16" for n using hexdigit_hex [OF that] hexdigit_nul by auto
  have "CHR 0x00 \<notin> set (json_escape c)" for c
  proof (cases "char2escape c")
    case None
    then show ?thesis using plain_char [of c] by (auto simp: json_escape_def)
  next
    case (Some x)
    then show ?thesis
    proof (cases rule: escape_kinds)
      case 1
      then obtain y where y: "x = [CHR 0x5C, y]" "escape_table y = c" "c \<noteq> CHR 0x00" by (auto simp: two_char_escape_def)
      then have "y \<noteq> CHR 0x00" using escape_table_codes(2) [of y] by simp
      then show ?thesis using Some y(1) by (auto simp: json_escape_def)
    next
      case (2 n)
      then have "n div 16 < 16" by simp
      then show ?thesis using 2 Some hex [of "n div 16"] hex [of "n mod 16"] by (auto simp: json_escape_def)
    qed
  qed
  then show ?thesis by (auto simp: json_quote_def)
qed

lemma array_reads:
  assumes t: "tables_ok cfg" and r: "\<forall>w \<in> set (v # vs). reads_value e cfg n w (f w)"
  shows "reads_value e cfg (Suc n) (JTable (array_from 1 (v # vs))) (CHR ''['' # f v @ concat (map (\<lambda>v. CHR '','' # f v) vs) @ '']'')"
proof (rule json_table_reads [OF t, of _ T_ARR_BEGIN 2])
  fix data p h rest fuel
  assume p: "pok data p" "drop (jp_ptr p) data = (f v @ concat (map (\<lambda>v. CHR '','' # f v) vs) @ '']'') @ rest"
    "jp_depth p + int n \<le> decode_max_depth cfg" "h + 2 * n + 3 \<le> LUAI_MAXCSTACK" "2 * (length data - jp_ptr p) + 2 \<le> fuel"
  then obtain tok p1 p2 where "json_next_token e cfg p = Some (tok, p1)" "starts_value tok"
    "array_elements e cfg fuel (h + 1) 1 [] tok p1 = Some (Inr (JTable (array_from 1 (v # vs)), p2))"
    "pok data p2" "drop (jp_ptr p2) data = rest" "jp_depth p2 = jp_depth p - 1"
    using elems_read [OF t r p(1), of rest "h + 1" fuel 1 "[]"] by auto
  then show "\<exists>tok p1 p2. json_next_token e cfg p = Some (tok, p1)
        \<and> (if T_ARR_BEGIN = T_ARR_BEGIN then if tk_type tok = T_ARR_END then Some (Inr (JTable [], json_decode_ascend p1)) else array_elements e cfg fuel (h + 1) 1 [] tok p1
           else if tk_type tok = T_OBJ_END then Some (Inr (JTable [], json_decode_ascend p1)) else object_pairs e cfg fuel (h + 1) [] tok p1)
          = Some (Inr (JTable (array_from 1 (v # vs)), p2))
        \<and> pok data p2 \<and> drop (jp_ptr p2) data = rest \<and> jp_depth p2 = jp_depth p - 1"
    by (intro exI [of _ tok] exI [of _ p1] exI [of _ p2]) (auto simp: starts_value_def)
next
  show "CHR 0x00 \<notin> set (f v @ concat (map (\<lambda>v. CHR '','' # f v) vs) @ '']'')" using r reads_no_nul by auto
qed (simp_all add: token_table_def)

lemma object_reads:
  assumes t: "tables_ok cfg" and r: "\<forall>kv \<in> set (kv # kvs). reads_value e cfg n (snd kv) (f (snd kv))" and "distinct (map fst (kv # kvs))"
  shows "reads_value e cfg (Suc n) (JTable (object_of (kv # kvs))) (CHR ''{'' # pair_text f kv @ concat (map (\<lambda>kv. CHR '','' # pair_text f kv) kvs) @ ''}'')"
proof (rule json_table_reads [OF t, of _ T_OBJ_BEGIN 3])
  fix data p h rest fuel
  assume p: "pok data p" "drop (jp_ptr p) data = (pair_text f kv @ concat (map (\<lambda>kv. CHR '','' # pair_text f kv) kvs) @ ''}'') @ rest"
    "jp_depth p + int n \<le> decode_max_depth cfg" "h + 2 * n + 3 \<le> LUAI_MAXCSTACK" "2 * (length data - jp_ptr p) + 2 \<le> fuel"
  then obtain i s p1 p2 where "json_next_token e cfg p = Some (\<lparr>tk_type = T_STRING, tk_index = i, tk_value = Text s\<rparr>, p1)"
    "object_pairs e cfg fuel (h + 1) [] \<lparr>tk_type = T_STRING, tk_index = i, tk_value = Text s\<rparr> p1 = Some (Inr (JTable (object_of (kv # kvs)), p2))"
    "pok data p2" "drop (jp_ptr p2) data = rest" "jp_depth p2 = jp_depth p - 1"
    using pairs_read [OF t r p(1), of rest "h + 1" fuel "[]"] assms(3) by auto
  then show "\<exists>tok p1 p2. json_next_token e cfg p = Some (tok, p1)
        \<and> (if T_OBJ_BEGIN = T_ARR_BEGIN then if tk_type tok = T_ARR_END then Some (Inr (JTable [], json_decode_ascend p1)) else array_elements e cfg fuel (h + 1) 1 [] tok p1
           else if tk_type tok = T_OBJ_END then Some (Inr (JTable [], json_decode_ascend p1)) else object_pairs e cfg fuel (h + 1) [] tok p1)
          = Some (Inr (JTable (object_of (kv # kvs)), p2))
        \<and> pok data p2 \<and> drop (jp_ptr p2) data = rest \<and> jp_depth p2 = jp_depth p - 1"
    by (intro exI [of _ "\<lparr>tk_type = T_STRING, tk_index = i, tk_value = Text s\<rparr>"] exI [of _ p1] exI [of _ p2]) simp
next
  have "CHR 0x00 \<notin> set (pair_text f kv')" if "kv' \<in> set (kv # kvs)" for kv'
    using reads_no_nul [OF bspec [OF r that]] quote_no_nul [of "fst kv'"] by simp
  then show "CHR 0x00 \<notin> set (pair_text f kv @ concat (map (\<lambda>kv. CHR '','' # pair_text f kv) kvs) @ ''}'')" by auto
qed (simp_all add: token_table_def)

lemma empty_reads:
  assumes t: "tables_ok cfg"
  shows "reads_value e cfg (Suc n) (JTable []) ''{}''" and "reads_value e cfg (Suc n) (JTable []) ''[]''"
proof -
  have cl: "token_table CHR '']'' = T_ARR_END" "token_table CHR ''}'' = T_OBJ_END" by (simp_all add: token_table_def)
  have end_tok: "\<exists>tok p1. json_next_token e cfg p = Some (tok, p1) \<and> tk_type tok = token_table c \<and> pok data p1 \<and> drop (jp_ptr p1) data = rest \<and> jp_depth p1 = jp_depth p"
    if "pok data p" "drop (jp_ptr p) data = [c] @ rest" "c \<in> {CHR '']'', CHR ''}''}" for data p c rest
  proof -
    have "token_table c \<notin> {T_END, T_ERROR, T_UNKNOWN, T_WHITESPACE}" using that(3) cl by auto
    then have "reads_token e cfg data p (token_table c) No_value rest (p\<lparr>jp_ptr := jp_ptr p + 1\<rparr>)" using read_char [OF t that(1)] that(2) by simp
    then obtain i where "json_next_token e cfg p = Some (\<lparr>tk_type = token_table c, tk_index = i, tk_value = No_value\<rparr>, p\<lparr>jp_ptr := jp_ptr p + 1\<rparr>)"
      "pok data (p\<lparr>jp_ptr := jp_ptr p + 1\<rparr>)" "drop (jp_ptr p + 1) data = rest" unfolding reads_token_def by auto
    then show ?thesis by simp
  qed
  have up: "pok data (json_decode_ascend p)" "jp_ptr (json_decode_ascend p) = jp_ptr p" "jp_depth (json_decode_ascend p) = jp_depth p - 1" if "pok data p" for data p
    using that by (simp_all add: json_decode_ascend_def pok_def)
  show "reads_value e cfg (Suc n) (JTable []) ''{}''"
  proof (rule json_table_reads [OF t, of _ T_OBJ_BEGIN 3])
    fix data p h rest fuel
    assume "pok data p" "drop (jp_ptr p) data = ''}'' @ rest"
    then obtain tok p1 where "json_next_token e cfg p = Some (tok, p1)" "tk_type tok = T_OBJ_END" "pok data p1" "drop (jp_ptr p1) data = rest" "jp_depth p1 = jp_depth p"
      using end_tok [of data p "CHR ''}''" rest] cl by auto
    then show "\<exists>tok p1 p2. json_next_token e cfg p = Some (tok, p1)
        \<and> (if T_OBJ_BEGIN = T_ARR_BEGIN then if tk_type tok = T_ARR_END then Some (Inr (JTable [], json_decode_ascend p1)) else array_elements e cfg fuel (h + 1) 1 [] tok p1
           else if tk_type tok = T_OBJ_END then Some (Inr (JTable [], json_decode_ascend p1)) else object_pairs e cfg fuel (h + 1) [] tok p1) = Some (Inr (JTable [], p2))
        \<and> pok data p2 \<and> drop (jp_ptr p2) data = rest \<and> jp_depth p2 = jp_depth p - 1"
      using up [of data p1] by (intro exI [of _ tok] exI [of _ p1] exI [of _ "json_decode_ascend p1"]) simp
  qed (simp_all add: token_table_def)
  show "reads_value e cfg (Suc n) (JTable []) ''[]''"
  proof (rule json_table_reads [OF t, of _ T_ARR_BEGIN 2])
    fix data p h rest fuel
    assume "pok data p" "drop (jp_ptr p) data = '']'' @ rest"
    then obtain tok p1 where "json_next_token e cfg p = Some (tok, p1)" "tk_type tok = T_ARR_END" "pok data p1" "drop (jp_ptr p1) data = rest" "jp_depth p1 = jp_depth p"
      using end_tok [of data p "CHR '']''" rest] cl by auto
    then show "\<exists>tok p1 p2. json_next_token e cfg p = Some (tok, p1)
        \<and> (if T_ARR_BEGIN = T_ARR_BEGIN then if tk_type tok = T_ARR_END then Some (Inr (JTable [], json_decode_ascend p1)) else array_elements e cfg fuel (h + 1) 1 [] tok p1
           else if tk_type tok = T_OBJ_END then Some (Inr (JTable [], json_decode_ascend p1)) else object_pairs e cfg fuel (h + 1) [] tok p1) = Some (Inr (JTable [], p2))
        \<and> pok data p2 \<and> drop (jp_ptr p2) data = rest \<and> jp_depth p2 = jp_depth p - 1"
      using up [of data p1] by (intro exI [of _ tok] exI [of _ p1] exI [of _ "json_decode_ascend p1"]) simp
  qed (simp_all add: token_table_def)
qed

section \<open>The round trip\<close>

text \<open>What is printed for a value, whatever the level it stands on, is read back.\<close>

definition text_of :: "fp_env \<Rightarrow> json_config \<Rightarrow> nat \<Rightarrow> json_value \<Rightarrow> bytes \<Rightarrow> bool" where
  "text_of e cfg n v t \<longleftrightarrow> (\<forall>h d. d + int n \<le> encode_max_depth cfg \<longrightarrow> h + 2 * n + 1 \<le> LUAI_MAXCSTACK \<longrightarrow> json_print e cfg h d v = (t, None))
     \<and> reads_value e cfg n v t"

lemma text_ofD: "text_of e cfg n v t \<Longrightarrow> d + int n \<le> encode_max_depth cfg \<Longrightarrow> h + 2 * n + 1 \<le> LUAI_MAXCSTACK \<Longrightarrow> json_print e cfg h d v = (t, None)"
  by (simp add: text_of_def)

lemma text_scalars:
  assumes t: "tables_ok cfg" and hp: "hp_total (fe_heap e)"
  shows "\<exists>t. text_of e cfg n (JBool b) t" and "\<exists>t. text_of e cfg n (JLight 0) t" and "\<exists>t. text_of e cfg n (JString s) t"
    and "number_reads e cfg r \<Longrightarrow> \<exists>t. text_of e cfg n (JNumber (Finite r)) t"
proof -
  have "reads_value e cfg n (JBool b) (if b then ''true'' else ''false'')"
    by (rule scalar_reads [of _ e cfg T_BOOLEAN "Boolean b"]) (use read_literal(1,2) [OF t] in \<open>cases b; force\<close>)+
  then show "\<exists>t. text_of e cfg n (JBool b) t" by (auto simp: text_of_def json_print.simps)
  have "reads_value e cfg n (JLight 0) ''null''"
    by (rule scalar_reads [of _ e cfg T_NULL No_value]) (use read_literal(3) [OF t] in force)+
  then show "\<exists>t. text_of e cfg n (JLight 0) t" by (auto simp: text_of_def json_print.simps)
  have "reads_value e cfg n (JString s) (json_quote s)"
    by (rule scalar_reads [of _ e cfg T_STRING "Text s"]) (use read_string [OF t] quote_no_nul quote_length [of s] in auto)
  then show "\<exists>t. text_of e cfg n (JString s) t" by (auto simp: text_of_def json_print.simps)
  assume r: "number_reads e cfg r"
  let ?t = "number_text e cfg (Finite r)"
  have "?t \<noteq> []" "CHR 0x00 \<notin> set ?t" using r not_valid(1) format_first [of ?t] by (auto simp: number_reads_def Let_def)
  then have "reads_value e cfg n (JNumber (Finite r)) ?t"
    by (intro scalar_reads [of _ e cfg T_NUMBER "Number (Finite r)"]) (use read_number [OF t _ hp r] in auto)
  then show "\<exists>t. text_of e cfg n (JNumber (Finite r)) t" by (auto simp: text_of_def json_print.simps print_number_def)
qed

lemma text_array:
  assumes t: "tables_ok cfg" and ratio: "0 \<le> encode_sparse_ratio cfg" and len: "int (length (v # vs)) < 2 ^ 31"
    and f: "\<forall>w \<in> set (v # vs). text_of e cfg n w (f w)"
  shows "text_of e cfg (Suc n) (JTable (array_from 1 (v # vs))) (CHR ''['' # f v @ concat (map (\<lambda>v. CHR '','' # f v) vs) @ '']'')"
  unfolding text_of_def
proof (intro conjI allI impI)
  show "reads_value e cfg (Suc n) (JTable (array_from 1 (v # vs))) (CHR ''['' # f v @ concat (map (\<lambda>v. CHR '','' # f v) vs) @ '']'')"
    using array_reads [OF t] f unfolding text_of_def by blast
  fix h d
  assume lim: "d + int (Suc n) \<le> encode_max_depth cfg" "h + 2 * Suc n + 1 \<le> LUAI_MAXCSTACK"
  then have el: "json_print e cfg (h + 1) (d + 1) w = (f w, None)" if "w \<in> set (v # vs)" for w
    by (intro text_ofD [OF bspec [OF f that]]) auto
  have items: "print_items e cfg h (d + 1) False (v # vs) = (f v @ concat (map (\<lambda>v. CHR '','' # f v) vs), None)"
    using print_items_text [of vs e cfg h "d + 1" f] el by (simp add: print_items.simps [of _ _ _ _ False])
  have size: "array_size cfg (array_from 1 (v # vs)) = Inr (int (length (v # vs)))" by (rule array_from_size [OF ratio len])
  show "json_print e cfg h d (JTable (array_from 1 (v # vs))) = (CHR ''['' # f v @ concat (map (\<lambda>v. CHR '','' # f v) vs) @ '']'', None)"
    unfolding json_print.simps [of e cfg h d "JTable (array_from 1 (v # vs))"] json_value.case size sum.case array_from_items items using lim by simp
qed

lemma text_object:
  assumes t: "tables_ok cfg" and f: "\<forall>kv \<in> set (kv # kvs). text_of e cfg n (snd kv) (f (snd kv))" and dist: "distinct (map fst (kv # kvs))"
  shows "text_of e cfg (Suc n) (JTable (object_of (kv # kvs))) (CHR ''{'' # pair_text f kv @ concat (map (\<lambda>kv. CHR '','' # pair_text f kv) kvs) @ ''}'')"
  unfolding text_of_def
proof (intro conjI allI impI)
  show "reads_value e cfg (Suc n) (JTable (object_of (kv # kvs))) (CHR ''{'' # pair_text f kv @ concat (map (\<lambda>kv. CHR '','' # pair_text f kv) kvs) @ ''}'')"
    using object_reads [OF t _ dist] f unfolding text_of_def by blast
  fix h d
  assume lim: "d + int (Suc n) \<le> encode_max_depth cfg" "h + 2 * Suc n + 1 \<le> LUAI_MAXCSTACK"
  then have el: "json_print e cfg (h + 2) (d + 1) (snd w) = (f (snd w), None)" if "w \<in> set (kv # kvs)" for w
    by (intro text_ofD [OF bspec [OF f that]]) auto
  have "print_pairs e cfg h (d + 1) True (object_of kvs) = (concat (map (\<lambda>kv. CHR '','' # pair_text f kv) kvs), None)"
    using print_pairs_text [of kvs e cfg h "d + 1" f] el by simp
  then have items: "print_pairs e cfg h (d + 1) False (object_of (kv # kvs)) = (pair_text f kv @ concat (map (\<lambda>kv. CHR '','' # pair_text f kv) kvs), None)"
    using el [of kv] by (simp add: print_pairs.simps [of _ _ _ _ False] print_key_def object_of_def case_prod_beta)
  have size: "array_size cfg (object_of (kv # kvs)) = Inr (- 1)" by (rule object_size) simp
  show "json_print e cfg h d (JTable (object_of (kv # kvs))) = (CHR ''{'' # pair_text f kv @ concat (map (\<lambda>kv. CHR '','' # pair_text f kv) kvs) @ ''}'', None)"
    unfolding json_print.simps [of e cfg h d "JTable (object_of (kv # kvs))"] json_value.case size sum.case items using lim by simp
qed

lemma text_empty:
  assumes t: "tables_ok cfg"
  shows "\<exists>t. text_of e cfg (Suc n) (JTable []) t"
proof -
  have size: "array_size cfg [] = Inr 0" by (simp add: array_size_def)
  have "text_of e cfg (Suc n) (JTable []) (if encode_empty_table_as_object cfg = 0 then ''[]'' else ''{}'')"
    using empty_reads [OF t, of e n] unfolding text_of_def by (simp add: json_print.simps [of e cfg _ _ "JTable []"] size print_items.simps print_pairs.simps)
  then show ?thesis by blast
qed

lemma fits_array: "json_fits cfg (JTable (array_from i vs)) \<Longrightarrow> v \<in> set vs \<Longrightarrow> json_fits cfg v"
proof -
  assume a: "json_fits cfg (JTable (array_from i vs))" "v \<in> set vs"
  have "v \<in> snd ` set (array_from i vs)" using a(2) by (induction vs arbitrary: i) auto
  then show ?thesis using fits_entry [OF a(1)] by auto
qed

lemma canonical_text:
  assumes t: "tables_ok cfg" and hp: "hp_total (fe_heap e)" and ratio: "0 \<le> encode_sparse_ratio cfg"
  shows "canonical e cfg n v \<Longrightarrow> json_fits cfg v \<Longrightarrow> \<exists>t. text_of e cfg n v t"
proof (induction rule: canonical.induct)
  case (arr vs n)
  then have "\<forall>v \<in> set vs. \<exists>t. text_of e cfg n v t" using fits_array by blast
  then obtain f where f: "\<forall>v \<in> set vs. text_of e cfg n v (f v)" by metis
  obtain v vs' where vs: "vs = v # vs'" using arr.hyps by (cases vs) auto
  have "int (length vs) < 2 ^ 31" using arr.prems by (simp add: json_fits.simps [of cfg "JTable (array_from 1 vs)"])
  then show ?case using text_array [OF t ratio, of v vs' e n f] f vs by blast
next
  case (obj kvs n)
  have "\<exists>t. text_of e cfg n v t" if "v \<in> snd ` set kvs" for v
    using that obj.IH fits_entry [OF obj.prems, of _ v] by (force simp: object_of_def)
  then obtain f where f: "\<forall>v \<in> snd ` set kvs. text_of e cfg n v (f v)" by metis
  show ?case
  proof (cases kvs)
    case Nil
    then show ?thesis using text_empty [OF t, of e n] by (simp add: object_of_def)
  next
    case (Cons kv kvs')
    have "\<forall>kv \<in> set (kv # kvs'). text_of e cfg n (snd kv) (f (snd kv))" using f Cons by blast
    then show ?thesis using text_object [OF t, of kv kvs' e n f] obj.hyps(1) Cons by blast
  qed
qed (use text_scalars [OF t hp] in auto)

lemma decode_text:
  assumes t: "tables_ok cfg" and hp: "hp_total (fe_heap e)" and r: "reads_value e cfg n v t"
    and n: "int n \<le> decode_max_depth cfg" "2 * n + 2 \<le> LUAI_MAXCSTACK" and len: "length t < 2 ^ 30"
  shows "json_decode e lib cfg [LString t] = Some (Inr v, None)"
proof -
  have "luaL_checklstring lib [LString t] 1 = Inr t" by (simp add: luaL_checklstring_def lua_tolstring_def arg_def tolstring_def)
  moreover have nn: "t ! i \<noteq> CHR 0x00" if "i < length t" for i using reads_no_nul [OF r] nth_mem [OF that] by metis
  have "\<not> (length t \<ge> 2 \<and> (t ! 0 = CHR 0x00 \<or> t ! 1 = CHR 0x00))" using nn [of 0] nn [of 1] by linarith
  moreover obtain tmp where tmp: "strbuf_new (fe_heap e) (c_int (int (length t))) = Some tmp" "sb_ok tmp" "int (length t) < sb_size tmp" "sb_dynamic tmp"
    using init_ok [OF hp, of "int (length t)"] len by (auto simp: strbuf_new_def sb_ok_def)
  moreover define p where "p = \<lparr>jp_data = t, jp_ptr = 0, jp_tmp = tmp, jp_depth = 0\<rparr>"
  have p: "pok t p" "drop (jp_ptr p) t = t @ []" "stops []" using tmp by (simp_all add: p_def pok_def stops_def)
  obtain tok p1 p2 where v: "json_next_token e cfg p = Some (tok, p1)" "json_process_value e cfg (2 * length t + 2) 1 tok p1 = Some (Inr (v, p2))"
    "pok t p2" "drop (jp_ptr p2) t = []"
    by (rule reads_valueD [OF r p, of 1 "2 * length t + 2"]) (use n in \<open>auto simp: p_def\<close>)
  then obtain i where "json_next_token e cfg p2 = Some (\<lparr>tk_type = T_END, tk_index = i, tk_value = No_value\<rparr>, p2)"
    using read_end [OF t v(3,4), of e] by (auto simp: reads_token_def)
  ultimately show ?thesis using v unfolding p_def by (simp add: json_decode_def pok_def strbuf_free_def)
qed

text \<open>The decoder does not look at the buffer of the encoder.\<close>

lemma string_loop_frame: "string_loop (cfg\<lparr>encode_buf := b\<rparr>) p = string_loop cfg p"
proof (induction "length (jp_data p) + 1 - jp_ptr p" arbitrary: p rule: less_induct)
  case less
  show ?case
  proof (cases "char_at (jp_data p) (jp_ptr p)")
    case (Some ch)
    then have "jp_ptr p \<le> length (jp_data p)" by (auto simp: char_at_def split: if_splits)
    then have IH: "string_loop (cfg\<lparr>encode_buf := b\<rparr>) p' = string_loop cfg p'" if "jp_data p' = jp_data p" "jp_ptr p < jp_ptr p'" for p'
      using that by (intro less) auto
    show ?thesis unfolding string_loop.simps [of "cfg\<lparr>encode_buf := b\<rparr>" p] string_loop.simps [of cfg p] Some option.case Let_def
      by (intro if_cong option.case_cong refl) (auto dest!: unicode_escape_progress intro!: IH split: option.splits)
  qed (simp add: string_loop.simps [of _ p])
qed

lemma skip_space_frame: "skip_space (cfg\<lparr>encode_buf := b\<rparr>) data i = skip_space cfg data i"
proof (induction "length data + 1 - i" arbitrary: i rule: less_induct)
  case less
  show ?case using less [of "i + 1"] by (auto simp: skip_space.simps [of _ data i] char_at_def split: option.splits)
qed

lemma next_token_frame: "json_next_token e (cfg\<lparr>encode_buf := b\<rparr>) = json_next_token e cfg"
  by (rule ext) (simp add: json_next_token_def skip_space_frame json_unknown_token_def json_next_string_token_def string_loop_frame Let_def cong: if_cong)

lemma parser_frame:
  "json_process_value e (cfg\<lparr>encode_buf := b\<rparr>) fuel = json_process_value e cfg fuel
     \<and> object_pairs e (cfg\<lparr>encode_buf := b\<rparr>) fuel = object_pairs e cfg fuel
     \<and> array_elements e (cfg\<lparr>encode_buf := b\<rparr>) fuel = array_elements e cfg fuel"
proof (induction fuel)
  case 0
  show ?case by (intro conjI ext) simp_all
next
  case (Suc fuel)
  have d: "json_decode_descend (cfg\<lparr>encode_buf := b\<rparr>) = json_decode_descend cfg" by (intro ext) (simp add: json_decode_descend_def)
  have ctx: "json_parse_object_context e (cfg\<lparr>encode_buf := b\<rparr>) fuel = json_parse_object_context e cfg fuel"
    "json_parse_array_context e (cfg\<lparr>encode_buf := b\<rparr>) fuel = json_parse_array_context e cfg fuel"
    by (intro ext; simp only: json_parse_object_context.simps json_parse_array_context.simps d next_token_frame Suc [THEN conjunct2, THEN conjunct1] Suc [THEN conjunct2, THEN conjunct2])+
  show ?case
  proof (intro conjI ext)
    show "json_process_value e (cfg\<lparr>encode_buf := b\<rparr>) (Suc fuel) h t p = json_process_value e cfg (Suc fuel) h t p" for h t p
      unfolding json_process_value.simps ctx ..
    show "object_pairs e (cfg\<lparr>encode_buf := b\<rparr>) (Suc fuel) h kvs t p = object_pairs e cfg (Suc fuel) h kvs t p" for h kvs t p
      unfolding object_pairs.simps next_token_frame Suc [THEN conjunct1] Suc [THEN conjunct2, THEN conjunct1] ..
    show "array_elements e (cfg\<lparr>encode_buf := b\<rparr>) (Suc fuel) h i kvs t p = array_elements e cfg (Suc fuel) h i kvs t p" for h i kvs t p
      unfolding array_elements.simps next_token_frame Suc [THEN conjunct1] Suc [THEN conjunct2, THEN conjunct2] ..
  qed
qed

lemma decode_frame: "json_decode e lib (cfg\<lparr>encode_buf := b\<rparr>) st = json_decode e lib cfg st"
  unfolding json_decode_def next_token_frame parser_frame [THEN conjunct1] ..

text \<open>
  (C24) Decoding what was encoded gives the value back. In any reachable configuration, a value made of booleans, \<open>null\<close>, strings of any
  bytes, numbers that the C library reads back, arrays and objects with string keys is encoded without an error, and
  decoding the text returns the same value and leaves no buffer behind -- as long as the value has no more levels of tables than the
  depth limits of encoding and decoding and the C stack allow, and its text stays below about 178 million bytes.
\<close>

theorem json_roundtrip:
  assumes hp: "hp_total (fe_heap e)" and g: "g_laws e" and reach: "json_reachable e lib cfg"
    and v: "canonical e cfg n v" "json_fits cfg v" and small: "6 * int (length (fst (json_print e cfg 1 0 v))) + 64 < 2 ^ 30"
    and n: "int n \<le> encode_max_depth cfg" "int n \<le> decode_max_depth cfg" "2 * n + 2 \<le> LUAI_MAXCSTACK"
  shows "\<exists>t buf. json_encode e [v] cfg = Some (Inr t, cfg\<lparr>encode_buf := buf\<rparr>)
     \<and> json_decode e lib (cfg\<lparr>encode_buf := buf\<rparr>) [LString t] = Some (Inr v, None)"
proof -
  have ok: "cfg_ok cfg" by (rule json_reachable_ok [OF hp g reach])
  obtain t where t: "text_of e cfg n v t" using canonical_text [OF _ hp _ v] ok by (auto simp: cfg_ok_def tables_ok_def)
  then have print: "json_print e cfg 1 0 v = (t, None)" using n by (intro text_ofD) auto
  obtain buf where buf: "json_encode e [v] cfg = Some (Inr t, cfg\<lparr>encode_buf := buf\<rparr>)" using encode_prints [OF ok hp g v(2) small] print by auto
  have len: "length t < 2 ^ 30" using small print by simp
  have r: "reads_value e cfg n v t" using t by (simp add: text_of_def)
  have "json_decode e lib cfg [LString t] = Some (Inr v, None)"
    using decode_text [OF _ hp r _ _ len] ok n by (simp add: cfg_ok_def tables_ok_def)
  then show ?thesis using buf decode_frame by auto
qed

section \<open>A concrete value\<close>

text \<open>The text \<open>[7,{"k":null}]\<close>.\<close>

abbreviation demo_value :: json_value where
  "demo_value \<equiv> JTable [(JNumber (Finite 1), JNumber (Finite 7)), (JNumber (Finite 2), JTable [(JString ''k'', JLight 0)])]"

lemma demo_number_text: "number_text json_demo_env demo_config (Finite 7) = ''7''"
proof -
  obtain fmt where fmt: "set_number_format (encode_number_precision demo_config) = Some fmt" by (auto simp: demo_settings set_number_format_def)
  have seven: "char_of (55 :: nat) = CHR ''7''" by code_simp
  have "prints_as json_demo_env fmt (Finite 7) ''7''" using demo_prints [of fmt 7] seven by (simp add: demo_libc_def)
  then show ?thesis using g_fmt_text [OF _ fmt] c_str_all [of "''7''" "[]"] by (simp add: number_text_def)
qed

lemma demo_number_reads: "number_reads json_demo_env demo_config 7"
proof -
  have "valid_number_character CHR ''7''" by code_simp
  moreover have "fe_point json_demo_env = CHR ''.''" "lc_strtod (fe_libc json_demo_env) (CHR ''7'' # s) = (Finite 7, 1)" for s
    by (simp_all add: json_demo_env_def demo_libc_def)
  ultimately show ?thesis by (simp add: number_reads_def demo_number_text Let_def number_format_def number_front_def localise_dot)
qed

lemma demo_value_print: "json_print json_demo_env demo_config 1 0 demo_value = (''[7,{'' @ [CHR 0x22, CHR ''k'', CHR 0x22] @ '':null}]'', None)"
  by (simp add: json_print.simps print_items.simps print_pairs.simps print_key_def array_size_def demo_settings LUAI_MAXCSTACK_def
      int_of_number_def json_rawgeti_def upto.simps json_quote_def json_escape_def char2escape_def Let_def print_number_def demo_number_text)

lemma demo_canonical: "canonical json_demo_env demo_config 2 demo_value"
proof -
  have "canonical json_demo_env demo_config (Suc 0) (JTable (object_of [(''k'', JLight 0)]))" by (rule canonical.obj) (auto intro: canonical.null)
  then have "canonical json_demo_env demo_config (Suc (Suc 0)) (JTable (array_from 1 [JNumber (Finite 7), JTable (object_of [(''k'', JLight 0)])]))"
    by (intro canonical.arr) (auto intro: canonical.num demo_number_reads)
  then show ?thesis by (simp add: object_of_def numeral_2_eq_2)
qed

theorem json_roundtrip_witness:
  "\<exists>t buf. json_encode json_demo_env [demo_value] demo_config = Some (Inr t, demo_config\<lparr>encode_buf := buf\<rparr>)
     \<and> json_decode json_demo_env demo_lua (demo_config\<lparr>encode_buf := buf\<rparr>) [LString t] = Some (Inr demo_value, None)"
proof (rule json_roundtrip [OF demo_laws(2,1) json_demo_reachable demo_canonical])
  show "6 * int (length (fst (json_print json_demo_env demo_config 1 0 demo_value))) + 64 < 2 ^ 30" unfolding demo_value_print by simp
qed (simp_all add: json_fits.simps demo_settings LUAI_MAXCSTACK_def)

end
