(* ===== verification/Spec2Isabelle.thy ===== *)
theory Spec2Isabelle
  imports Co_Main Sock_Ext Escape Uthread Resolver Crc32 Hash_Fns Eio Monip Misc_Fns Midl_Sort Msgpack_Unpack Bit_Ops Json_Roundtrip
begin

text \<open>
  \<^bold>\<open>A verification of alilua-coevent-module.\<close>

  The program is a C module for Lua: coroutines call blocking-looking functions (\<open>connect\<close>,
  \<open>send\<close>, \<open>read\<close>, \<open>sleep\<close>, \<open>wait\<close>, file operations), which register with an event loop and
  yield; callbacks of the loop finish the work and resume the coroutine. Connections of the same
  key are shared through a pool. The event loop, the red-black tree, the codecs and digests live in
  a git submodule (\<open>merry\<close>) that is not part of this repository; OpenSSL, libeio, Lua and the
  operating system are libraries. All of these are arguments of the definitions that use them;
  what is relied on is stated as hypotheses of the theorems (\<open>se_delete_local\<close>, \<open>watch_local\<close>, \<open>rb_laws\<close>,
  \<open>suspends\<close>, \<open>only_sleeps\<close>, \<open>fp_laws\<close>, \<open>bn_laws\<close>, \<open>g_laws\<close>, \<open>strtod_laws\<close>, \<open>number_reads\<close>, \<open>hp_total\<close>), each shown to be satisfiable by a concrete instance.
  The module ships several libraries under \<open>lua-libs\<close>, some by its author and some by others.

  \<^bold>\<open>Conventions.\<close> A C function is a definition with the name of the function that takes the
  state and returns it. The result \<open>None\<close> stands for undefined behaviour (a \<open>NULL\<close> or dangling
  pointer, an uninitialised value that is used, an access outside a buffer) and, for walks over
  heap lists, for running out of fuel; the theorems show which \<open>Some\<close> is returned, so they also show
  that none of this happens. One access is not treated this way: for an empty line the reading functions look at the byte in
  front of their temporary block, which the allocator owns; its value is the argument \<open>junk\<close>, the theorems assume that it is no
  carriage return, and if it is one the result is \<open>None\<close>. Sizes of \<open>large_malloc\<close> are computed in \<open>int\<close> and undefined from
  \<open>2^31 - 4096\<close> bytes on, and a C function has the twenty stack slots Lua grants it unless it asks for more; pushing beyond them
  is undefined. \<open>size_t\<close> and \<open>unsigned long\<close> are \<open>64 word\<close>, \<open>uint32_t\<close> is
  \<open>32 word\<close>, assignments to \<open>int\<close> go through \<open>c_int\<close>; Lua numbers are rationals. Effects outside
  the program (asking for a connection, closing a descriptor, sending bytes, freeing an SSL object, resuming a coroutine) are
  logged in order. Fuel is one unit per allocated address (pool, queue and wheel walks), or the
  depth of nested resumptions (coroutines, the pool's periodic job); the theorems about loops state
  that they return.

  \<^bold>\<open>Theories.\<close>
  \<^item> \<open>Co_Prelude\<close>, \<open>Lua_Api\<close>: byte strings, C conversions, the part of the Lua API in use.
  \<^item> \<open>Co_State\<close>: the structs of \<open>coevent.h\<close> and \<open>connection-pool.h\<close> and the shared state \<open>world\<close>.
  \<^item> \<open>Dll\<close>: doubly linked lists on a heap. The locales \<open>dll_node\<close>, \<open>dll_bucket\<close> and
    \<open>bucket_queue\<close> hold the lemmas on appending and unlinking; the pool nodes, the queue of waiting
    sockets, the counters and the sleep wheel interpret them.
  \<^item> \<open>Read_Buf\<close>: the receive buffer of a socket (\<open>lua_co_read_\<close> and the receive loop of
    \<open>cosocket_be_read\<close> in \<open>coevent.c\<close>). Reading refines taking a line, a count or everything off one
    byte stream.
  \<^item> \<open>Conn_Pool\<close>, \<open>Idle_Pool\<close>: \<open>connection-pool.c\<close>. The heap chains refine lists of idle
    connections per generation and bucket, a queue of waiting sockets per bucket and a counter per
    key (locale \<open>key_counters\<close>); every operation changes exactly its list, closes exactly what it
    should and keeps the counters in step.
  \<^item> \<open>Sock_Ops\<close>: the handlers and callbacks of TCP sockets in \<open>coevent.c\<close>; \<open>Sock_Write\<close>,
    \<open>Sock_Read\<close>, \<open>Sock_Close\<close>, \<open>Sock_Connect\<close>: what they guarantee. \<open>Sock_Ext\<close>: UDP sockets and
    pipes.
  \<^item> \<open>Pool_Cycle\<close>, \<open>Pool_Inv\<close>: sockets and pool together: what one socket puts into the pool the next one of
    the key gets, and the pool as a step relation whose invariant holds in every reachable state.
  \<^item> \<open>Co_Loop\<close>: the queue of coroutines that gave way, the periodic jobs. \<open>Sleep_Wheel\<close>: \<open>sleep\<close>
    in \<open>lua-util.c\<close>. \<open>Table_Str\<close>, \<open>Escape\<close>: joining the strings of a table and escaping.
    \<open>Co_Main\<close>: opening the module, starting the loop, the log file, and a round of the jobs of all components.
  \<^item> \<open>Uthread\<close>: \<open>lua-uthread.c\<close>, coroutines that wait for others. \<open>Resolver\<close>: \<open>lua-resolver.c\<close>,
    DNS queries and replies. \<open>Eio\<close>: \<open>lua-eio.c\<close>, asynchronous files as a step relation with an
    invariant over its reachable states.
  \<^item> \<open>Misc_Fns\<close>: the log and the wrappers of the codecs. \<open>Crc32\<close>, \<open>Hash_Fns\<close>, \<open>Monip\<close>: the author's
    libraries under \<open>lua-libs\<close>.
  \<^item> \<open>Midl\<close>, \<open>Midl_Sort\<close>: the ID lists of \<open>lightningmdb\<close> (\<open>midl.c\<close>): searching, growing (also when memory runs out), inserting, and the
    in-place quicksort with its stack of bounds.
  \<^item> \<open>Msgpack\<close>: \<open>lua_cmsgpack.c\<close>, the buffer, packing and unpacking; \<open>Msgpack_Pack\<close>: packing refines the
    format, written down with arithmetic of its own, as long as the stack slots last; \<open>Msgpack_Unpack\<close>: round trip and truncated input. The recursion of the decoder ends because it checks
    the height of the Lua stack. \<open>Bit_Ops\<close>: \<open>bit.c\<close>, 32-bit operations on the mantissa of a \<open>double\<close>.
  \<^item> \<open>Strbuf\<close>: the string buffer of lua-cjson (\<open>strbuf.c\<close>, \<open>strbuf.h\<close>): appending in any pieces gives the concatenation.
    \<open>Fpconv\<close>: \<open>fpconv.c\<close>, printing and reading numbers in a locale with another decimal point. \<open>Json\<close>: the settings and
    the printer of \<open>lua_cjson.c\<close>; \<open>Json_Parse\<close>: its lexer and its parser, with fuel of two units per byte of
    the input and two more, which \<open>Json_Decode\<close> shows to be enough for every input. \<open>Json_Encode\<close>: the configuration as a
    step relation with its invariant; encoding refines a pure printer. \<open>Json_Decode\<close>: decoding any input returns, within its
    buffers. \<open>Json_Read\<close>, \<open>Json_Roundtrip\<close>: every token that is printed is read back, and so is every value.

  \<^bold>\<open>What is shown.\<close> Data integrity: what is sent is the string, once and in order, however the
  system splits it; what is read is the received stream cut as asked for; escaping, DNS queries,
  packed values and JSON texts can be read back, and a packed value that is cut short is refused. Resources: a connection is closed once and counted off once, or kept by the pool
  and still counted; a lookup closes exactly the expired connections; connecting reuses, waits or
  opens according to the limit of the key; the lists behind the pool stay well formed whatever the order of its operations. Wake-ups: the sleepers that are due, the coroutines that
  gave way, those that wait for an ended coroutine, for a connection or for a file operation are
  resumed, each once and in order. Equivalences: the CRC routines with the bit-serial CRC, the
  assembly of CrapWow, over 32-bit registers and byte-addressed memory, with its C version for keys below 4 GB, the bit operations with those of the integers. Bounds: table strings, the
  aligned table, the stack of the quicksort, the buffers of the JSON parser on any input. Several theorems
  exhibit errors of the code on concrete or general inputs.

  \<^bold>\<open>Not modelled.\<close> Registering functions with Lua (the \<open>luaopen\<close> functions, of which \<open>luaopen_coevent\<close> is
  modelled as far as it sets up state) and reading the clock: calls of libraries without logic of their own. The submodule, whose
  sources are absent. Of the third-party libraries under \<open>lua-libs\<close>, the database of lightningmdb and its binding
  (\<open>mdb.c\<close>, \<open>llmdb.c\<close>), lzlib, and of lua-cjson the conversions \<open>dtoa.c\<close> and \<open>g_fmt.c\<close>, which the build leaves out;
  and the Lua scripts. Within the modelled parts: the temporary blocks of a read are assumed to be allocated (the theorems bound
  the bytes buffered below \<open>2^31\<close>), and coroutines that are resumed are functions on the state, restricted where a theorem says so
  (\<open>suspends\<close>, \<open>only_sleeps\<close>).
\<close>

end
